(* ===== verification/Prelude.thy ===== *)
theory Prelude
  imports Main "HOL-Library.Word"
begin

section \<open>Shared vocabulary of the kernel model\<close>

text \<open>
  The types and the generic facts that every component of the valerioedx model shares: the
  machine integers of the C sources as words of their width, the constants of
  \<^verbatim>\<open>kernel/lib/pmm.h\<close> and \<^verbatim>\<open>kernel/lib/vmm.h\<close>, lemmas that move word
  arithmetic to natural numbers, and lemmas on lists used as C arrays.
  The collection \<open>word_nat\<close> holds the facts that turn a comparison or an operation on
  words into one on natural numbers.
\<close>

unbundle bit_operations_syntax

named_theorems word_nat "facts that read word operations as operations on nat"
named_theorems kernel_defs "definitions of operations that proofs unfold together"

type_synonym u8 = "8 word"
type_synonym u16 = "16 word"
type_synonym u32 = "32 word"
type_synonym u64 = "64 word"

abbreviation PAGE_SIZE :: u64 where "PAGE_SIZE \<equiv> 4096"
abbreviation PAGE_SHIFT :: nat where "PAGE_SHIFT \<equiv> 12"
abbreviation PHY_RAM_BASE :: u64 where "PHY_RAM_BASE \<equiv> 0x40000000"

text \<open>\<open>has e f\<close> is the C condition \<open>e & f\<close>.\<close>

definition has :: "'a :: len word \<Rightarrow> 'a word \<Rightarrow> bool" where
  "has e f \<longleftrightarrow> e AND f \<noteq> 0"

subsection \<open>Words read as natural numbers\<close>

lemmas word_nat_basic [word_nat] = word_le_nat_alt word_less_nat_alt

lemma unat_add_no_overflow:
  "unat a + unat b < 2 ^ LENGTH('a) \<Longrightarrow> unat (a + b) = unat a + unat (b :: 'a :: len word)"
  by (simp add: unat_word_ariths)

lemma unat_sub_le: "b \<le> a \<Longrightarrow> unat (a - b) = unat a - unat (b :: 'a :: len word)"
  by (simp add: unat_sub)

lemma unat_inc: "a < b \<Longrightarrow> unat (a + 1) = Suc (unat (a :: 'a :: len word))"
  by unat_arith

lemma unat_dec: "a \<noteq> 0 \<Longrightarrow> unat (a - 1) = unat (a :: 'a :: len word) - 1"
  by (rule unat_minus_one)

lemma unat_drop_bit: "unat (drop_bit n (a :: 'a :: len word)) = unat a div 2 ^ n"
  unfolding unat_drop_bit_eq by (rule drop_bit_eq_div)

lemma unat_ucast_small:
  "unat (a :: 'a :: len word) < 2 ^ LENGTH('b) \<Longrightarrow> unat (ucast a :: 'b :: len word) = unat a"
  by transfer (simp add: take_bit_nat_eq_self nat_take_bit_eq take_bit_eq_mod)

lemma unat_push_bit_small:
  "unat (a :: 'a :: len word) * 2 ^ n < 2 ^ LENGTH('a) \<Longrightarrow> unat (push_bit n a) = unat a * 2 ^ n"
  unfolding unsigned_push_bit_eq by (simp add: push_bit_eq_mult take_bit_nat_eq_self)

lemma word_eq_unatI: "unat a = unat (b :: 'a :: len word) \<Longrightarrow> a = b"
  by (simp add: word_unat_eq_iff)

lemma unat_lt2p: "unat (a :: 'a :: len word) < 2 ^ LENGTH('a)"
  by simp

lemma word_gt1_cases: "1 < x \<or> x = 1 \<or> x = (0 :: 'a :: len word)"
  by unat_arith

lemma unat_minus1: "unat (- 1 :: 'a :: len word) = 2 ^ LENGTH('a) - 1"
  by transfer (simp add: mask_eq_exp_minus_1 nat_diff_distrib nat_power_eq)

lemma of_nat_unat_less:
  "n < 2 ^ LENGTH('a) \<Longrightarrow> unat (of_nat n :: 'a :: len word) = n"
  by (simp add: unat_of_nat)

subsection \<open>Lists used as arrays\<close>

lemma take_Suc_update: "n < length xs \<Longrightarrow> take (Suc n) (xs[n := v]) = take n xs @ [v]"
  by (simp add: take_Suc_conv_app_nth)

lemma take_update_ge: "n \<le> m \<Longrightarrow> take n (xs[m := v]) = take n xs"
  by simp

lemma take_pred_last:
  "0 < n \<Longrightarrow> n \<le> length xs \<Longrightarrow> take n xs = take (n - 1) xs @ [xs ! (n - 1)]"
  by (cases n) (auto simp: take_Suc_conv_app_nth)

end
