(* ===== verification/Pmm.thy ===== *)
theory Pmm
  imports Prelude
begin

section \<open>The physical memory manager\<close>

text \<open>
  A model of \<^verbatim>\<open>kernel/mm/pmm.c\<close>, the page-stack allocator with per-frame reference
  counts. The file's static variables are the fields of the record \<open>pmm\<close>; the two
  arrays that \<open>pmm_init\<close> places behind the kernel image are lists whose length is the
  number of frames (the empty list stands for the NULL pointer before \<open>pmm_init\<close>).
  Each operation runs under \<open>pmm_lock\<close> with interrupts off, so it is one atomic step:
  a function on the state.
\<close>

record pmm =
  frame_stack :: "u32 list"
  stack_top :: u32
  stack_capacity :: u32
  used_frames :: u32
  phy_ram_size :: u64
  phy_ram_end :: u64
  total_frames :: u32
  ref_counts :: "u8 list"

text \<open>The static initialisers of lines 8 to 18.\<close>

definition pmm_static :: pmm where
  "pmm_static = \<lparr>frame_stack = [], stack_top = 0, stack_capacity = 0, used_frames = 0,
     phy_ram_size = 0, phy_ram_end = 0, total_frames = 0, ref_counts = []\<rparr>"

definition phys_to_index :: "pmm \<Rightarrow> u64 \<Rightarrow> u32" where
  "phys_to_index s addr =
     (if addr < PHY_RAM_BASE \<or> phy_ram_end s \<le> addr then - 1
      else ucast (drop_bit PAGE_SHIFT (addr - PHY_RAM_BASE)))"

definition index_to_phys :: "u32 \<Rightarrow> u64" where
  "index_to_phys idx = PHY_RAM_BASE + push_bit PAGE_SHIFT (ucast idx)"

definition pmm_inc_ref :: "u64 \<Rightarrow> pmm \<Rightarrow> pmm" where
  "pmm_inc_ref phys s =
     (let idx = phys_to_index s phys
      in if idx \<noteq> - 1 \<and> ref_counts s \<noteq> []
         then if ref_counts s ! unat idx < 255
              then s\<lparr>ref_counts := (ref_counts s)[unat idx := ref_counts s ! unat idx + 1]\<rparr>
              else s
         else s)"

text \<open>
  The body of the loop of \<open>pmm_init\<close>: a frame below the end of the reserved area is
  counted as used, every other frame is pushed.
\<close>

definition pmm_init_step :: "u64 \<Rightarrow> u32 \<Rightarrow> pmm \<Rightarrow> pmm" where
  "pmm_init_step reserved_end i s =
     (let addr = index_to_phys i;
          s = s\<lparr>ref_counts := (ref_counts s)[unat i := 0]\<rparr>
      in if PHY_RAM_BASE \<le> addr \<and> addr < reserved_end
         then s\<lparr>used_frames := used_frames s + 1,
                ref_counts := (ref_counts s)[unat i := 1]\<rparr>
         else if stack_top s < stack_capacity s
         then s\<lparr>frame_stack := (frame_stack s)[unat (stack_top s) := i],
                stack_top := stack_top s + 1\<rparr>
         else s)"

definition pmm_reserved_end :: "u64 \<Rightarrow> u32 \<Rightarrow> u64" where
  "pmm_reserved_end kernel_end frames =
     (let stack_start = (kernel_end + PAGE_SIZE - 1) AND NOT (PAGE_SIZE - 1);
          stack_size_bytes = ucast frames * 4;
          ref_size_bytes = ucast frames * 1
      in stack_start + stack_size_bytes + ref_size_bytes)"

definition pmm_init :: "u64 \<Rightarrow> u64 \<Rightarrow> pmm \<Rightarrow> pmm" where
  "pmm_init kernel_end ram_size s =
     (let s = s\<lparr>phy_ram_size := ram_size,
                phy_ram_end := PHY_RAM_BASE + ram_size,
                total_frames := ucast (ram_size div PAGE_SIZE)\<rparr>;
          s = s\<lparr>frame_stack := replicate (unat (total_frames s)) 0,
                ref_counts := replicate (unat (total_frames s)) 0,
                stack_capacity := total_frames s,
                stack_top := 0\<rparr>;
          reserved_end = pmm_reserved_end kernel_end (total_frames s)
      in fold (pmm_init_step reserved_end) (map of_nat [0..<unat (total_frames s)]) s)"

text \<open>
  The inner loop of \<open>pmm_mark_used_region\<close> looks for the first slot that holds
  \<open>target\<close> and moves the top of the stack into it; the outer loop runs over the frames
  of the region.
\<close>

fun find_slot :: "u32 \<Rightarrow> u32 list \<Rightarrow> nat option" where
  "find_slot target [] = None"
| "find_slot target (x # xs) =
     (if x = target then Some 0 else map_option Suc (find_slot target xs))"

definition pmm_mark_used_frame :: "u32 \<Rightarrow> pmm \<Rightarrow> pmm" where
  "pmm_mark_used_frame target s =
     (case find_slot target (take (unat (stack_top s)) (frame_stack s)) of
        None \<Rightarrow> s
      | Some i \<Rightarrow>
          let top = stack_top s - 1
          in s\<lparr>stack_top := top,
               frame_stack := (frame_stack s)[i := frame_stack s ! unat top],
               used_frames := used_frames s + 1\<rparr>)"

definition pmm_mark_used_region :: "u64 \<Rightarrow> u64 \<Rightarrow> pmm \<Rightarrow> pmm" where
  "pmm_mark_used_region base sz s =
     (let start_idx = phys_to_index s base;
          end_idx = phys_to_index s (base + sz + PAGE_SIZE - 1)
      in if start_idx = - 1 then s
         else fold pmm_mark_used_frame (map of_nat [unat start_idx..<unat end_idx]) s)"

text \<open>\<open>pmm_alloc_frame\<close> returns the physical address of a frame, or 0.\<close>

definition pmm_alloc_frame :: "pmm \<Rightarrow> u64 \<times> pmm" where
  "pmm_alloc_frame s =
     (if stack_top s = 0 then (0, s)
      else let s = s\<lparr>stack_top := stack_top s - 1\<rparr>;
               idx = frame_stack s ! unat (stack_top s);
               s = s\<lparr>used_frames := used_frames s + 1,
                     ref_counts := (ref_counts s)[unat idx := 1]\<rparr>
           in (index_to_phys idx, s))"

definition pmm_push_frame :: "u32 \<Rightarrow> pmm \<Rightarrow> pmm" where
  "pmm_push_frame idx s =
     s\<lparr>frame_stack := (frame_stack s)[unat (stack_top s) := idx],
       stack_top := stack_top s + 1,
       used_frames := used_frames s - 1\<rparr>"

definition pmm_free_frame :: "u64 \<Rightarrow> pmm \<Rightarrow> pmm" where
  "pmm_free_frame addr s =
     (let idx = phys_to_index s addr
      in if idx = - 1 \<or> total_frames s \<le> idx then s
         else if 0 < ref_counts s ! unat idx
         then let s = s\<lparr>ref_counts := (ref_counts s)[unat idx := ref_counts s ! unat idx - 1]\<rparr>
              in if ref_counts s ! unat idx = 0 then pmm_push_frame idx s else s
         else if stack_capacity s \<le> stack_top s then s
         else pmm_push_frame idx s)"

subsection \<open>The state of the allocator, abstractly\<close>

text \<open>
  \<open>free_list\<close> is the live part of the stack, \<open>free_set\<close> the addresses of the free frames,
  \<open>frame_addrs\<close> the addresses of all managed frames, and \<open>ref_of\<close> the
  reference count of the frame at an address.
\<close>

definition free_list :: "pmm \<Rightarrow> u32 list" where
  "free_list s = take (unat (stack_top s)) (frame_stack s)"

definition free_set :: "pmm \<Rightarrow> u64 set" where
  "free_set s = index_to_phys ` set (free_list s)"

definition frame_addrs :: "pmm \<Rightarrow> u64 set" where
  "frame_addrs s = index_to_phys ` {i. i < total_frames s}"

definition ref_of :: "pmm \<Rightarrow> u64 \<Rightarrow> u8" where
  "ref_of s a = ref_counts s ! unat (phys_to_index s a)"

text \<open>
  The geometry that \<open>pmm_init\<close> sets up: RAM does not wrap around the end of the address
  space and has fewer frames than the error index \<open>- 1\<close>.
\<close>

definition pmm_geometry :: "pmm \<Rightarrow> bool" where
  "pmm_geometry s \<longleftrightarrow>
     phy_ram_end s = PHY_RAM_BASE + phy_ram_size s \<and>
     unat (phy_ram_size s) < 2 ^ 44 - 4096 \<and>
     total_frames s = ucast (phy_ram_size s div PAGE_SIZE)"

definition pmm_inv :: "pmm \<Rightarrow> bool" where
  "pmm_inv s \<longleftrightarrow>
     pmm_geometry s \<and>
     stack_capacity s = total_frames s \<and>
     length (frame_stack s) = unat (total_frames s) \<and>
     length (ref_counts s) = unat (total_frames s) \<and>
     stack_top s \<le> total_frames s \<and>
     distinct (free_list s) \<and>
     (\<forall>i \<in> set (free_list s). i < total_frames s \<and> ref_counts s ! unat i = 0) \<and>
     used_frames s + stack_top s = total_frames s"


subsection \<open>Frame numbers and frame addresses\<close>

lemma unat_index_to_phys: "unat (index_to_phys i) = 0x40000000 + unat i * 4096"
proof -
  have u: "unat (ucast i :: u64) = unat i"
    by (simp add: unat_ucast_small order_less_trans [OF unat_lt2p])
  have b: "unat i < 2 ^ 32" using unat_lt2p [of i] by simp
  have p: "unat (push_bit PAGE_SHIFT (ucast i :: u64)) = unat i * 4096"
    using b by (subst unat_push_bit_small) (simp_all add: u)
  show ?thesis
    unfolding index_to_phys_def using b by (subst unat_add_no_overflow) (simp_all add: p)
qed

lemma index_to_phys_inj [simp]: "index_to_phys i = index_to_phys j \<longleftrightarrow> i = j"
  by (metis unat_index_to_phys add_left_cancel mult_cancel2 word_eq_unatI zero_neq_numeral)

lemma index_to_phys_not_0 [simp]: "index_to_phys i \<noteq> 0"
  using unat_index_to_phys [of i] by (metis add_is_0 unat_0 zero_neq_numeral)

lemma index_to_phys_aligned: "index_to_phys i AND (PAGE_SIZE - 1) = 0"
proof -
  have "index_to_phys i mod 2 ^ 12 = 0"
    by (rule word_eq_unatI) (simp add: unat_mod unat_index_to_phys)
  then show ?thesis
    using take_bit_eq_mask [of 12 "index_to_phys i"] by (simp add: take_bit_eq_mod mask_eq_exp_minus_1)
qed

lemma total_frames_bound: "pmm_geometry s \<Longrightarrow> unat (total_frames s) < 2 ^ 32 - 1"
proof -
  assume g: "pmm_geometry s"
  then have d: "unat (phy_ram_size s div PAGE_SIZE) < 2 ^ 32 - 1"
    by (auto simp: pmm_geometry_def unat_div intro: less_mult_imp_div_less)
  with g show ?thesis
    by (simp add: pmm_geometry_def unat_ucast_small)
qed

lemma frame_index_not_error: "i < total_frames s \<Longrightarrow> i \<noteq> - 1"
  using max_word_max [of "total_frames s"] by auto

lemma total_frames_unat:
  "pmm_geometry s \<Longrightarrow> unat (total_frames s) = unat (phy_ram_size s) div 4096"
  unfolding pmm_geometry_def
  by (auto simp: unat_ucast_small unat_div less_mult_imp_div_less)

lemma phy_ram_end_unat:
  "pmm_geometry s \<Longrightarrow> unat (phy_ram_end s) = 0x40000000 + unat (phy_ram_size s)"
  by (simp add: pmm_geometry_def unat_word_ariths)

lemma index_to_phys_in_ram:
  assumes "pmm_geometry s" "i < total_frames s"
  shows "index_to_phys i < phy_ram_end s"
  using assms total_frames_unat [of s] phy_ram_end_unat [of s]
  by (simp add: word_less_nat_alt unat_index_to_phys)

lemma phys_to_index_inverse:
  assumes "pmm_geometry s" "i < total_frames s"
  shows "phys_to_index s (index_to_phys i) = i"
proof -
  have ge: "PHY_RAM_BASE \<le> index_to_phys i"
    by (simp add: word_le_nat_alt unat_index_to_phys)
  have "unat (drop_bit PAGE_SHIFT (index_to_phys i - PHY_RAM_BASE)) = unat i"
    using ge by (simp add: unat_drop_bit unat_sub unat_index_to_phys)
  then have "unat (ucast (drop_bit PAGE_SHIFT (index_to_phys i - PHY_RAM_BASE)) :: u32) = unat i"
    by (subst unat_ucast_small) (simp_all add: unat_lt2p order_less_le_trans [OF unat_lt2p])
  with ge index_to_phys_in_ram [OF assms] show ?thesis
    by (auto simp: phys_to_index_def linorder_not_less intro: word_eq_unatI)
qed

subsection \<open>Allocation\<close>

lemma pmm_invD:
  assumes "pmm_inv s"
  shows "pmm_geometry s" "stack_capacity s = total_frames s"
    "length (frame_stack s) = unat (total_frames s)"
    "length (ref_counts s) = unat (total_frames s)"
    "unat (stack_top s) \<le> unat (total_frames s)"
    "distinct (free_list s)" "used_frames s + stack_top s = total_frames s"
    "length (free_list s) = unat (stack_top s)"
    "i \<in> set (free_list s) \<Longrightarrow> i < total_frames s"
    "i \<in> set (free_list s) \<Longrightarrow> ref_counts s ! unat i = 0"
  using assms by (auto simp: pmm_inv_def word_le_nat_alt free_list_def)

lemma pmm_inv_free_not_max:
  assumes "pmm_inv s" "i < total_frames s" "i \<notin> set (free_list s)"
  shows "stack_top s < total_frames s"
proof -
  have "set (free_list s) \<subseteq> {j. j < total_frames s} - {i}"
    using pmm_invD(9) [OF assms(1)] assms(3) by auto
  moreover have "unat ` ({j. j < total_frames s} - {i}) \<subseteq> {..<unat (total_frames s)} - {unat i}"
    by (auto simp: word_less_nat_alt dest: word_eq_unatI)
  ultimately have "unat ` set (free_list s) \<subseteq> {..<unat (total_frames s)} - {unat i}"
    by blast
  then have "card (unat ` set (free_list s)) \<le> card ({..<unat (total_frames s)} - {unat i})"
    by (intro card_mono) auto
  moreover have "card (unat ` set (free_list s)) = length (free_list s)"
    using pmm_invD(6) [OF assms(1)]
    by (subst card_image) (auto simp: inj_on_def distinct_card dest: word_eq_unatI)
  moreover have "unat i < unat (total_frames s)"
    using assms(2) by (simp add: word_less_nat_alt)
  ultimately have "unat (stack_top s) < unat (total_frames s)"
    using pmm_invD(8) [OF assms(1)] by (auto simp: card_Diff_subset)
  then show ?thesis by (simp add: word_less_nat_alt)
qed

lemma free_set_frames: "pmm_inv s \<Longrightarrow> free_set s \<subseteq> frame_addrs s"
  using pmm_invD(9) by (auto simp: free_set_def frame_addrs_def)

lemma pmm_alloc_frame_none: "stack_top s = 0 \<Longrightarrow> pmm_alloc_frame s = (0, s)"
  by (simp add: pmm_alloc_frame_def)

text \<open>One pop, in terms of the free list.\<close>

lemma pmm_alloc_frame_some:
  assumes inv: "pmm_inv s" and ne: "stack_top s \<noteq> 0"
  obtains idx s' where "pmm_alloc_frame s = (index_to_phys idx, s')"
    "free_list s = free_list s' @ [idx]" "pmm_inv s'"
    "total_frames s' = total_frames s" "phy_ram_end s' = phy_ram_end s"
    "ref_counts s' = (ref_counts s)[unat idx := 1]" "used_frames s' = used_frames s + 1"
proof -
  define top idx where "top = stack_top s - 1" and "idx = frame_stack s ! unat (stack_top s - 1)"
  define s' where "s' = s\<lparr>stack_top := top, used_frames := used_frames s + 1,
     ref_counts := (ref_counts s)[unat idx := 1]\<rparr>"
  note I = pmm_invD [OF inv]
  have top: "unat top = unat (stack_top s) - 1" and pos: "0 < unat (stack_top s)"
    using ne unat_dec [of "stack_top s"] by (auto simp: top_def unat_gt_0)
  have eq: "pmm_alloc_frame s = (index_to_phys idx, s')"
    using ne by (simp add: pmm_alloc_frame_def Let_def s'_def idx_def top_def)
  have split: "free_list s = free_list s' @ [idx]"
    using take_pred_last [of "unat (stack_top s)" "frame_stack s"] pos I(3,5)
    by (simp add: free_list_def s'_def idx_def top unat_dec ne)
  have idx: "idx < total_frames s" using I(9) split by auto
  have frees: "i < total_frames s" "unat idx \<noteq> unat i" "ref_counts s ! unat i = 0"
    if "i \<in> set (free_list s')" for i
    using that I(6,9,10) split by (auto dest!: word_eq_unatI)
  have "pmm_inv s'"
    unfolding pmm_inv_def
  proof (intro conjI)
    show "pmm_geometry s'" using I(1) by (simp add: pmm_geometry_def s'_def)
    show "stack_top s' \<le> total_frames s'"
      using I(5) top by (simp add: s'_def word_le_nat_alt)
    show "distinct (free_list s')" using I(6) split by simp
    show "\<forall>i\<in>set (free_list s'). i < total_frames s' \<and> ref_counts s' ! unat i = 0"
      using frees by (simp add: s'_def)
    show "used_frames s' + stack_top s' = total_frames s'"
      using I(7) by (simp add: s'_def top_def algebra_simps)
  qed (simp_all add: s'_def I)
  with that eq split show ?thesis by (simp add: s'_def)
qed

subsection \<open>Reference counts and release\<close>

lemma pmm_frame_index:
  assumes "pmm_inv s" "a \<in> frame_addrs s"
  obtains i where "a = index_to_phys i" "i < total_frames s" "phys_to_index s a = i" "i \<noteq> - 1"
    "unat i < length (ref_counts s)" "unat i < length (frame_stack s)"
    "a \<in> free_set s \<longleftrightarrow> i \<in> set (free_list s)" "ref_of s a = ref_counts s ! unat i"
proof -
  from assms(2) obtain i where i: "a = index_to_phys i" "i < total_frames s"
    by (auto simp: frame_addrs_def)
  have p: "phys_to_index s a = i"
    using phys_to_index_inverse [OF pmm_invD(1) [OF assms(1)] i(2)] i(1) by simp
  show ?thesis
    using that [OF i p frame_index_not_error [OF i(2)]] i p pmm_invD(3,4) [OF assms(1)]
    by (simp add: word_less_nat_alt free_set_def ref_of_def image_iff)
qed

text \<open>Pushing an index that is not free keeps the stack well formed.\<close>

lemma pmm_push_frame_inv:
  assumes inv: "pmm_inv s" and i: "i < total_frames s" "i \<notin> set (free_list s)"
    and r: "ref_counts s ! unat i = 0"
  shows "pmm_inv (pmm_push_frame i s)"
    and "free_list (pmm_push_frame i s) = free_list s @ [i]"
proof -
  note I = pmm_invD [OF inv]
  have lt: "stack_top s < total_frames s" by (rule pmm_inv_free_not_max [OF inv i])
  have top: "unat (stack_top s + 1) = Suc (unat (stack_top s))"
    by (rule unat_inc [OF lt])
  show fl: "free_list (pmm_push_frame i s) = free_list s @ [i]"
    using lt I(3) take_Suc_update [of "unat (stack_top s)" "frame_stack s" i]
    by (simp add: free_list_def pmm_push_frame_def top word_less_nat_alt)
  show "pmm_inv (pmm_push_frame i s)"
    unfolding pmm_inv_def fl
  proof (intro conjI)
    show "pmm_geometry (pmm_push_frame i s)"
      using I(1) by (simp add: pmm_geometry_def pmm_push_frame_def)
    show "stack_top (pmm_push_frame i s) \<le> total_frames (pmm_push_frame i s)"
      using lt top by (simp add: pmm_push_frame_def word_le_nat_alt word_less_nat_alt)
    show "used_frames (pmm_push_frame i s) + stack_top (pmm_push_frame i s) =
        total_frames (pmm_push_frame i s)"
      using I(7) by (simp add: pmm_push_frame_def algebra_simps)
  qed (use I i r in \<open>auto simp: pmm_push_frame_def\<close>)
qed

text \<open>A count changed at an index that is not free leaves the rest of the invariant alone.\<close>

lemma pmm_inv_ref_update:
  assumes inv: "pmm_inv s" and i: "i \<notin> set (free_list s)"
  shows "pmm_inv (s\<lparr>ref_counts := (ref_counts s)[unat i := v]\<rparr>)"
    and "free_list (s\<lparr>ref_counts := (ref_counts s)[unat i := v]\<rparr>) = free_list s"
proof -
  note I = pmm_invD [OF inv]
  show fl: "free_list (s\<lparr>ref_counts := (ref_counts s)[unat i := v]\<rparr>) = free_list s"
    by (simp add: free_list_def)
  have ne: "unat i \<noteq> unat j" if "j \<in> set (free_list s)" for j
    using that i by (auto dest: word_eq_unatI)
  show "pmm_inv (s\<lparr>ref_counts := (ref_counts s)[unat i := v]\<rparr>)"
    using I ne unfolding pmm_inv_def fl
    by (simp add: pmm_geometry_def word_le_nat_alt)
qed

lemma free_has_ref_0: "pmm_inv s \<Longrightarrow> i \<in> set (free_list s) \<Longrightarrow> \<not> 0 < ref_counts s ! unat i"
  using pmm_invD(10) by auto

lemma pmm_free_frame_inv:
  assumes inv: "pmm_inv s" and a: "a \<in> frame_addrs s" "a \<notin> free_set s"
  shows "pmm_inv (pmm_free_frame a s)"
    and "free_set (pmm_free_frame a s) = (if ref_of s a \<le> 1 then insert a (free_set s) else free_set s)"
    and "total_frames (pmm_free_frame a s) = total_frames s"
proof -
  from inv a(1) obtain i where i: "a = index_to_phys i" "i < total_frames s"
    "phys_to_index s a = i" "i \<noteq> - 1" "unat i < length (ref_counts s)"
    "a \<in> free_set s \<longleftrightarrow> i \<in> set (free_list s)" "ref_of s a = ref_counts s ! unat i"
    by (rule pmm_frame_index)
  define s1 where "s1 = s\<lparr>ref_counts := (ref_counts s)[unat i := ref_counts s ! unat i - 1]\<rparr>"
  have nf: "i \<notin> set (free_list s)" using a(2) i(6) by simp
  have s1: "pmm_inv s1" "free_list s1 = free_list s" "total_frames s1 = total_frames s"
    using pmm_inv_ref_update [OF inv nf] by (auto simp: s1_def)
  have lt: "stack_top s < stack_capacity s"
    using pmm_inv_free_not_max [OF inv i(2) nf] pmm_invD(2) [OF inv] by simp
  consider (drop) "1 < ref_counts s ! unat i" | (last) "ref_counts s ! unat i = 1"
    | (zero) "ref_counts s ! unat i = 0"
    using word_gt1_cases by blast
  then have *: "pmm_inv (pmm_free_frame a s) \<and>
    free_set (pmm_free_frame a s) = (if ref_of s a \<le> 1 then insert a (free_set s) else free_set s) \<and>
    total_frames (pmm_free_frame a s) = total_frames s"
  proof cases
    case drop
    then have "ref_counts s ! unat i - 1 \<noteq> 0" by auto
    moreover from drop have "0 < ref_counts s ! unat i"
      by (rule order_less_trans [rotated]) simp
    ultimately have "pmm_free_frame a s = s1"
      using i by (simp add: pmm_free_frame_def s1_def)
    with drop s1 i(7) show ?thesis by (auto simp: free_set_def dest: leD)
  next
    case last
    then have r1: "ref_counts s1 ! unat i = 0" using i(5) by (simp add: s1_def)
    have "pmm_free_frame a s = pmm_push_frame i s1"
      using last i by (auto simp: pmm_free_frame_def s1_def Let_def)
    with pmm_push_frame_inv [OF s1(1) _ _ r1] s1 i nf last show ?thesis
      by (simp add: free_set_def pmm_push_frame_def)
  next
    case zero
    have "pmm_free_frame a s = pmm_push_frame i s"
      using zero i lt by (auto simp: pmm_free_frame_def)
    with pmm_push_frame_inv [OF inv i(2) nf zero] i zero show ?thesis
      by (simp add: free_set_def pmm_push_frame_def)
  qed
  then show "pmm_inv (pmm_free_frame a s)"
    "free_set (pmm_free_frame a s) = (if ref_of s a \<le> 1 then insert a (free_set s) else free_set s)"
    "total_frames (pmm_free_frame a s) = total_frames s"
    by auto
qed

lemma pmm_inc_ref_inv:
  assumes inv: "pmm_inv s" and a: "a \<in> frame_addrs s" "a \<notin> free_set s"
  shows "pmm_inv (pmm_inc_ref a s)" and "free_set (pmm_inc_ref a s) = free_set s"
    and "ref_of (pmm_inc_ref a s) a = (if ref_of s a < 255 then ref_of s a + 1 else ref_of s a)"
    and "b \<in> frame_addrs s \<Longrightarrow> b \<noteq> a \<Longrightarrow> ref_of (pmm_inc_ref a s) b = ref_of s b"
    and "total_frames (pmm_inc_ref a s) = total_frames s"
proof -
  from inv a(1) obtain i where i: "a = index_to_phys i" "i < total_frames s"
    "phys_to_index s a = i" "i \<noteq> - 1" "unat i < length (ref_counts s)"
    "a \<in> free_set s \<longleftrightarrow> i \<in> set (free_list s)" "ref_of s a = ref_counts s ! unat i"
    by (rule pmm_frame_index)
  then have nf: "i \<notin> set (free_list s)" and ne: "ref_counts s \<noteq> []" using a(2) by auto
  define t where "t = s\<lparr>ref_counts := (ref_counts s)[unat i := ref_counts s ! unat i + 1]\<rparr>"
  have eq: "pmm_inc_ref a s = (if ref_counts s ! unat i < 255 then t else s)"
    using i ne by (simp add: pmm_inc_ref_def t_def)
  have idx: "phys_to_index t = phys_to_index s"
    by (rule ext) (simp add: phys_to_index_def t_def)
  show "pmm_inv (pmm_inc_ref a s)" "free_set (pmm_inc_ref a s) = free_set s"
    using inv pmm_inv_ref_update [OF inv nf] by (auto simp: eq t_def free_set_def)
  have "ref_of t a = ref_counts s ! unat i + 1"
    using i(3,5) by (simp add: ref_of_def idx) (simp add: t_def)
  then show "ref_of (pmm_inc_ref a s) a = (if ref_of s a < 255 then ref_of s a + 1 else ref_of s a)"
    by (simp add: eq i(7))
  show "total_frames (pmm_inc_ref a s) = total_frames s" by (simp add: eq t_def)
  assume b: "b \<in> frame_addrs s" "b \<noteq> a"
  from inv b(1) obtain j where j: "b = index_to_phys j" "phys_to_index s b = j"
    by (rule pmm_frame_index)
  then have "unat j \<noteq> unat i" using b(2) i(1) by (auto dest: word_eq_unatI)
  then have "ref_of t b = ref_of s b"
    using j(2) by (simp add: ref_of_def idx) (simp add: t_def)
  then show "ref_of (pmm_inc_ref a s) b = ref_of s b"
    by (simp add: eq)
qed

subsection \<open>Reserving a region\<close>

lemma find_slot_None: "find_slot x xs = None \<longleftrightarrow> x \<notin> set xs"
  by (induction xs) auto

lemma find_slot_Some: "find_slot x xs = Some i \<Longrightarrow> i < length xs \<and> xs ! i = x"
  by (induction xs arbitrary: i) (auto split: if_splits)

text \<open>Overwriting a slot with the last element and dropping the last removes one element.\<close>

lemma swap_remove:
  assumes "distinct xs" "i < length xs"
  shows "set (take (length xs - 1) (xs[i := last xs])) = set xs - {xs ! i}"
    and "distinct (take (length xs - 1) (xs[i := last xs]))"
proof -
  from assms(2) obtain ys y where xs: "xs = ys @ [y]" by (cases xs rule: rev_cases) auto
  have "set (take (length xs - 1) (xs[i := last xs])) = set xs - {xs ! i} \<and>
      distinct (take (length xs - 1) (xs[i := last xs]))"
  proof (cases "i < length ys")
    case True
    then have "take (length xs - 1) (xs[i := last xs]) = ys[i := y]"
      by (simp add: xs list_update_append)
    moreover have "set (ys[i := y]) = insert y (set ys - {ys ! i})"
      using True assms(1) set_update_distinct [of ys i y] by (simp add: xs)
    moreover have "distinct (ys[i := y])"
      using True assms(1) by (auto simp: xs intro!: distinct_list_update)
    ultimately show ?thesis using True assms(1) by (auto simp: xs nth_append)
  next
    case False
    with assms(2) have "i = length ys" by (simp add: xs)
    with assms(1) show ?thesis by (auto simp: xs list_update_append)
  qed
  then show "set (take (length xs - 1) (xs[i := last xs])) = set xs - {xs ! i}"
    "distinct (take (length xs - 1) (xs[i := last xs]))" by auto
qed

lemma pmm_mark_used_frame_inv:
  assumes inv: "pmm_inv s"
  shows "pmm_inv (pmm_mark_used_frame t s)"
    and "set (free_list (pmm_mark_used_frame t s)) = set (free_list s) - {t}"
    and "total_frames (pmm_mark_used_frame t s) = total_frames s"
    and "phy_ram_end (pmm_mark_used_frame t s) = phy_ram_end s"
    and "ref_counts (pmm_mark_used_frame t s) = ref_counts s"
proof -
  note I = pmm_invD [OF inv]
  have *: "pmm_inv (pmm_mark_used_frame t s) \<and>
    set (free_list (pmm_mark_used_frame t s)) = set (free_list s) - {t}"
  proof (cases "find_slot t (free_list s)")
    case None
    then have "pmm_mark_used_frame t s = s"
      by (simp add: pmm_mark_used_frame_def flip: free_list_def)
    with None inv show ?thesis by (simp add: find_slot_None)
  next
    case (Some i)
    define n where "n = unat (stack_top s)"
    define s' where "s' = pmm_mark_used_frame t s"
    from find_slot_Some [OF Some] have i: "i < length (free_list s)" "free_list s ! i = t" by auto
    then have n: "0 < n" "n \<le> length (frame_stack s)" "stack_top s \<noteq> 0" "length (free_list s) = n"
      using I(3,5,8) by (auto simp: n_def unat_gt_0)
    have top: "unat (stack_top s - 1) = n - 1" using n unat_dec by (simp add: n_def)
    have s': "s' = s\<lparr>stack_top := stack_top s - 1,
        frame_stack := (frame_stack s)[i := frame_stack s ! (n - 1)],
        used_frames := used_frames s + 1\<rparr>"
      using Some by (simp add: s'_def pmm_mark_used_frame_def top flip: free_list_def)
    have "last (free_list s) = frame_stack s ! (n - 1)"
      using n by (subst last_conv_nth) (auto simp: free_list_def n_def)
    then have fl: "free_list s' = take (length (free_list s) - 1) ((free_list s)[i := last (free_list s)])"
      using n by (simp add: s' free_list_def top n_def take_update_swap)
    note sr = swap_remove [OF I(6) i(1)]
    have "pmm_inv s'"
      unfolding pmm_inv_def
    proof (intro conjI)
      show "pmm_geometry s'" using I(1) by (simp add: pmm_geometry_def s')
      show "stack_top s' \<le> total_frames s'"
        using I(5) top n by (simp add: s' word_le_nat_alt n_def)
      show "used_frames s' + stack_top s' = total_frames s'"
        using I(7) by (simp add: s' algebra_simps)
      show "distinct (free_list s')" using sr(2) fl by simp
      show "\<forall>j\<in>set (free_list s'). j < total_frames s' \<and> ref_counts s' ! unat j = 0"
        using sr(1) fl I(9,10) by (auto simp: s')
    qed (simp_all add: s' I)
    with sr(1) fl i(2) show ?thesis by (simp add: s'_def)
  qed
  then show "pmm_inv (pmm_mark_used_frame t s)"
    "set (free_list (pmm_mark_used_frame t s)) = set (free_list s) - {t}" by auto
qed (simp_all add: pmm_mark_used_frame_def Let_def split: option.splits)

lemma fold_mark_used_inv:
  "pmm_inv s \<Longrightarrow> pmm_inv (fold pmm_mark_used_frame ts s) \<and>
     set (free_list (fold pmm_mark_used_frame ts s)) = set (free_list s) - set ts \<and>
     total_frames (fold pmm_mark_used_frame ts s) = total_frames s \<and>
     ref_counts (fold pmm_mark_used_frame ts s) = ref_counts s"
  by (induction ts arbitrary: s) (auto simp: pmm_mark_used_frame_inv)

subsection \<open>Initialisation\<close>

text \<open>
  The state after the first \<open>k\<close> rounds of the loop: the free list is the list of the
  frames outside the reserved area, in increasing order.
\<close>

definition pmm_init_loop_inv :: "u64 \<Rightarrow> nat \<Rightarrow> pmm \<Rightarrow> bool" where
  "pmm_init_loop_inv re k s \<longleftrightarrow>
     pmm_geometry s \<and> stack_capacity s = total_frames s \<and>
     length (frame_stack s) = unat (total_frames s) \<and>
     length (ref_counts s) = unat (total_frames s) \<and>
     unat (stack_top s) \<le> k \<and> used_frames s + stack_top s = of_nat k \<and>
     free_list s = filter (\<lambda>i. re \<le> index_to_phys i) (map of_nat [0..<k]) \<and>
     (\<forall>j<k. ref_counts s ! j = (if re \<le> index_to_phys (of_nat j) then 0 else 1))"

lemma index_ge_base [simp]: "PHY_RAM_BASE \<le> index_to_phys i"
  by (simp add: word_le_nat_alt unat_index_to_phys)

lemma pmm_init_step_inv:
  assumes L: "pmm_init_loop_inv re k s" and k: "k < unat (total_frames s)"
  shows "pmm_init_loop_inv re (Suc k) (pmm_init_step re (of_nat k) s)"
    and "total_frames (pmm_init_step re (of_nat k) s) = total_frames s"
proof -
  have k32: "unat (of_nat k :: u32) = k"
    using k unat_lt2p [of "total_frames s"] by (intro of_nat_unat_less) simp
  have top: "stack_top s < stack_capacity s"
    using L k by (simp add: pmm_init_loop_inv_def word_less_nat_alt)
  then have top1: "unat (stack_top s + 1) = Suc (unat (stack_top s))" by (rule unat_inc)
  have tk: "unat (stack_top s) < length (frame_stack s)"
    using L k by (simp add: pmm_init_loop_inv_def)
  note U = take_Suc_update [OF tk, of "of_nat k"]
  show "pmm_init_loop_inv re (Suc k) (pmm_init_step re (of_nat k) s)"
  proof (cases "re \<le> index_to_phys (of_nat k)")
    case True
    then have "pmm_init_step re (of_nat k) s = s\<lparr>ref_counts := (ref_counts s)[k := 0],
        frame_stack := (frame_stack s)[unat (stack_top s) := of_nat k],
        stack_top := stack_top s + 1\<rparr>"
      using top by (simp add: pmm_init_step_def Let_def k32)
    with True L k top1 U show ?thesis
      by (auto simp: pmm_init_loop_inv_def pmm_geometry_def free_list_def less_Suc_eq nth_list_update
          algebra_simps)
  next
    case False
    then have "pmm_init_step re (of_nat k) s = s\<lparr>ref_counts := (ref_counts s)[k := 1],
        used_frames := used_frames s + 1\<rparr>"
      using top by (simp add: pmm_init_step_def Let_def k32)
    with False L k show ?thesis
      by (auto simp: pmm_init_loop_inv_def pmm_geometry_def free_list_def less_Suc_eq nth_list_update
          algebra_simps)
  qed
  show "total_frames (pmm_init_step re (of_nat k) s) = total_frames s"
    by (simp add: pmm_init_step_def Let_def)
qed

lemma pmm_init_fold_inv:
  assumes "pmm_init_loop_inv re 0 s" "k \<le> unat (total_frames s)"
  shows "pmm_init_loop_inv re k (fold (pmm_init_step re) (map of_nat [0..<k]) s) \<and>
    total_frames (fold (pmm_init_step re) (map of_nat [0..<k]) s) = total_frames s"
  using assms(2)
proof (induction k)
  case 0
  then show ?case using assms(1) by simp
next
  case (Suc k)
  then show ?case using pmm_init_step_inv [of re k] by simp
qed

lemma pmm_init_loop_inv_done:
  assumes L: "pmm_init_loop_inv re (unat (total_frames s)) s"
  shows "pmm_inv s" and "free_set s = {a \<in> frame_addrs s. re \<le> a}"
    and "a \<in> frame_addrs s \<Longrightarrow> ref_of s a = (if re \<le> a then 0 else 1)"
proof -
  have g: "pmm_geometry s" using L by (simp add: pmm_init_loop_inv_def)
  have img: "of_nat ` {0..<unat (total_frames s)} = {i. i < total_frames s}"
  proof (intro set_eqI iffI)
    fix i :: u32 assume "i \<in> {i. i < total_frames s}"
    then show "i \<in> of_nat ` {0..<unat (total_frames s)}"
      by (intro image_eqI [of _ _ "unat i"]) (auto simp: word_less_nat_alt)
  next
    fix i :: u32 assume "i \<in> of_nat ` {0..<unat (total_frames s)}"
    then show "i \<in> {i. i < total_frames s}"
      by (auto simp: word_less_nat_alt unat_of_nat intro: le_less_trans [OF mod_less_eq_dividend])
  qed
  then have sfl: "set (free_list s) = {i. i < total_frames s \<and> re \<le> index_to_phys i}"
    using L by (auto simp: pmm_init_loop_inv_def)
  have inj: "inj_on (of_nat :: nat \<Rightarrow> u32) {0..<unat (total_frames s)}"
    using unat_lt2p [of "total_frames s"]
    by (intro inj_onI) (metis atLeastLessThan_iff of_nat_unat_less order_less_trans)
  have dist: "distinct (free_list s)"
    using L inj by (simp add: pmm_init_loop_inv_def distinct_map)
  have ref: "ref_counts s ! unat i = (if re \<le> index_to_phys i then 0 else 1)"
    if "i < total_frames s" for i
    using L that by (auto simp: pmm_init_loop_inv_def word_less_nat_alt)
  show inv: "pmm_inv s"
    using L dist sfl ref by (auto simp: pmm_inv_def pmm_init_loop_inv_def word_le_nat_alt)
  show "free_set s = {a \<in> frame_addrs s. re \<le> a}"
    by (auto simp: free_set_def frame_addrs_def sfl)
  show "ref_of s a = (if re \<le> a then 0 else 1)" if "a \<in> frame_addrs s"
    using pmm_frame_index [OF inv that] ref by metis
qed

lemma pmm_init_loop_start:
  assumes "unat rs < 2 ^ 44 - 4096" "used_frames s = 0"
  shows "pmm_init_loop_inv re 0 (s\<lparr>phy_ram_size := rs, phy_ram_end := PHY_RAM_BASE + rs,
      total_frames := ucast (rs div PAGE_SIZE),
      frame_stack := replicate (unat (ucast (rs div PAGE_SIZE) :: u32)) 0,
      ref_counts := replicate (unat (ucast (rs div PAGE_SIZE) :: u32)) 0,
      stack_capacity := ucast (rs div PAGE_SIZE), stack_top := 0\<rparr>)"
  using assms by (simp add: pmm_init_loop_inv_def pmm_geometry_def free_list_def)

lemma pmm_init_establishes:
  assumes "unat rs < 2 ^ 44 - 4096" "used_frames s = 0"
  shows "pmm_init_loop_inv (pmm_reserved_end ke (total_frames (pmm_init ke rs s)))
     (unat (total_frames (pmm_init ke rs s))) (pmm_init ke rs s)"
    and "total_frames (pmm_init ke rs s) = ucast (rs div PAGE_SIZE)"
  using pmm_init_fold_inv [OF pmm_init_loop_start [OF assms], of _ "pmm_reserved_end ke (ucast (rs div PAGE_SIZE))"]
  by (simp_all add: pmm_init_def Let_def)

subsection \<open>The interface to the page-table code\<close>

text \<open>
  What a client of the allocator relies on: a result that is not 0 is the address of a page
  that was free and no longer is; 0 means that nothing is free.
\<close>

locale frame_allocator =
  fixes invar :: "'s \<Rightarrow> bool"
    and frees :: "'s \<Rightarrow> u64 set"
    and frames :: "'s \<Rightarrow> u64 set"
    and alloc :: "'s \<Rightarrow> u64 \<times> 's"
  assumes frees_frames: "invar s \<Longrightarrow> frees s \<subseteq> frames s"
    and frames_nonzero: "a \<in> frames s \<Longrightarrow> a \<noteq> 0"
    and frames_aligned: "a \<in> frames s \<Longrightarrow> a AND (PAGE_SIZE - 1) = 0"
    and alloc_fails: "invar s \<Longrightarrow> alloc s = (0, s') \<Longrightarrow> frees s = {} \<and> s' = s"
    and alloc_frame: "invar s \<Longrightarrow> alloc s = (a, s') \<Longrightarrow> a \<noteq> 0 \<Longrightarrow>
      a \<in> frees s \<and> frees s' = frees s - {a} \<and> frames s' = frames s \<and> invar s'"
begin

lemma alloc_keeps: "invar s \<Longrightarrow> alloc s = (a, s') \<Longrightarrow> invar s' \<and> frames s' = frames s \<and> frees s' \<subseteq> frees s"
  using alloc_fails [of s s'] alloc_frame [of s a s'] by (cases "a = 0") auto

lemma alloc_twice_distinct:
  assumes "invar s" "alloc s = (a, s1)" "alloc s1 = (b, s2)" "a \<noteq> 0" "b \<noteq> 0"
  shows "a \<noteq> b"
  using alloc_frame [OF assms(1,2,4)] alloc_frame [OF _ assms(3,5)] by auto

lemma alloc_not_held:
  assumes "invar s" "alloc s = (a, s')" "a \<noteq> 0" "H \<inter> frees s = {}"
  shows "a \<notin> H" "insert a H \<inter> frees s' = {}"
  using alloc_frame [OF assms(1-3)] assms(4) by auto

lemma alloc_aligned:
  assumes "invar s" "alloc s = (a, s')" "a \<noteq> 0"
  shows "a \<in> frames s" "a AND (PAGE_SIZE - 1) = 0"
  using alloc_frame [OF assms] frees_frames [OF assms(1)] frames_aligned [of a s] by auto

lemma alloc_none_iff: "invar s \<Longrightarrow> fst (alloc s) = 0 \<longleftrightarrow> frees s = {}"
  using alloc_fails [of s "snd (alloc s)"] alloc_frame [of s "fst (alloc s)" "snd (alloc s)"]
  by (cases "fst (alloc s) = 0") (auto simp: prod_eq_iff)

end

lemma pmm_alloc_zero:
  assumes "pmm_inv s" "pmm_alloc_frame s = (0, s')"
  shows "free_set s = {} \<and> s' = s"
proof (cases "stack_top s = 0")
  case True
  with assms(2) show ?thesis by (simp add: pmm_alloc_frame_none free_set_def free_list_def)
next
  case False
  obtain idx t where "pmm_alloc_frame s = (index_to_phys idx, t)"
    using pmm_alloc_frame_some [OF assms(1) False] by blast
  with assms(2) index_to_phys_not_0 [of idx] show ?thesis by simp
qed

lemma pmm_alloc_takes_free:
  assumes "pmm_inv s" "pmm_alloc_frame s = (a, s')" "a \<noteq> 0"
  shows "a \<in> free_set s \<and> free_set s' = free_set s - {a} \<and> frame_addrs s' = frame_addrs s \<and>
    pmm_inv s' \<and> ref_of s' a = 1"
proof -
  have ne: "stack_top s \<noteq> 0" using assms(2,3) by (auto simp: pmm_alloc_frame_none)
  obtain idx t where t: "pmm_alloc_frame s = (index_to_phys idx, t)"
    "free_list s = free_list t @ [idx]" "pmm_inv t" "total_frames t = total_frames s"
    "ref_counts t = (ref_counts s)[unat idx := 1]"
    using pmm_alloc_frame_some [OF assms(1) ne] by blast
  with assms(2) have eq: "a = index_to_phys idx" "s' = t" by auto
  have idx: "idx \<notin> set (free_list t)" "idx < total_frames s"
    using pmm_invD(6,9) [OF assms(1)] t(2) by auto
  have "phys_to_index t a = idx"
    using phys_to_index_inverse [OF pmm_invD(1) [OF t(3)]] idx(2) t(4) eq(1) by simp
  then have "ref_of t a = 1"
    using idx(2) pmm_invD(4) [OF assms(1)] by (simp add: ref_of_def t(5) word_less_nat_alt)
  with t idx show ?thesis by (auto simp: eq free_set_def frame_addrs_def)
qed

interpretation pf: frame_allocator pmm_inv free_set frame_addrs pmm_alloc_frame
proof
  show "free_set s \<subseteq> frame_addrs s" if "pmm_inv s" for s
    using that by (rule free_set_frames)
  show "a \<noteq> 0" if "a \<in> frame_addrs s" for a s
    using that unfolding frame_addrs_def by (elim imageE) (simp only: index_to_phys_not_0 not_False_eq_True)
  show "a AND (PAGE_SIZE - 1) = 0" if "a \<in> frame_addrs s" for a s
    using that unfolding frame_addrs_def by (elim imageE) (simp only: index_to_phys_aligned)
  show "free_set s = {} \<and> s' = s" if "pmm_inv s" "pmm_alloc_frame s = (0, s')" for s s'
    using that by (rule pmm_alloc_zero)
  show "a \<in> free_set s \<and> free_set s' = free_set s - {a} \<and> frame_addrs s' = frame_addrs s \<and> pmm_inv s'"
    if "pmm_inv s" "pmm_alloc_frame s = (a, s')" "a \<noteq> 0" for s a s'
    using pmm_alloc_takes_free [OF that] by blast
qed

subsection \<open>Properties\<close>

lemma pmm_alloc_ref:
  assumes "pmm_inv s" "pmm_alloc_frame s = (a, s')" "a \<noteq> 0"
  shows "ref_of s' a = 1" "a \<in> frame_addrs s'" "a \<notin> free_set s'" "pmm_inv s'"
  using pmm_alloc_takes_free [OF assms] free_set_frames [OF assms(1)] by auto

lemma pmm_free_frame_ref:
  assumes inv: "pmm_inv s" and a: "a \<in> frame_addrs s" and r: "0 < ref_of s a"
  shows "ref_of (pmm_free_frame a s) a = ref_of s a - 1"
    and "frame_addrs (pmm_free_frame a s) = frame_addrs s" and "a \<notin> free_set s"
proof -
  from inv a(1) obtain i where i: "a = index_to_phys i" "i < total_frames s"
    "phys_to_index s a = i" "i \<noteq> - 1" "unat i < length (ref_counts s)"
    "a \<in> free_set s \<longleftrightarrow> i \<in> set (free_list s)" "ref_of s a = ref_counts s ! unat i"
    by (rule pmm_frame_index)
  show nf: "a \<notin> free_set s"
    using i r free_has_ref_0 [OF inv] by auto
  have "ref_counts (pmm_free_frame a s) ! unat i = ref_counts s ! unat i - 1"
    using i r by (simp add: pmm_free_frame_def pmm_push_frame_def Let_def)
  moreover have "phy_ram_end (pmm_free_frame a s) = phy_ram_end s"
    by (simp add: pmm_free_frame_def pmm_push_frame_def Let_def)
  ultimately show "ref_of (pmm_free_frame a s) a = ref_of s a - 1"
    using i(3,7) by (simp add: ref_of_def phys_to_index_def)
  show "frame_addrs (pmm_free_frame a s) = frame_addrs s"
    using pmm_free_frame_inv(3) [OF inv a nf] by (simp add: frame_addrs_def)
qed

text \<open>Taking and dropping references to one frame, counted.\<close>

lemma pmm_inc_refs:
  assumes "pmm_inv s" "a \<in> frame_addrs s" "a \<notin> free_set s"
  shows "pmm_inv ((pmm_inc_ref a ^^ n) s) \<and> a \<in> frame_addrs ((pmm_inc_ref a ^^ n) s) \<and>
    a \<notin> free_set ((pmm_inc_ref a ^^ n) s) \<and>
    unat (ref_of ((pmm_inc_ref a ^^ n) s) a) = min 255 (unat (ref_of s a) + n)"
proof (induction n)
  case 0
  show ?case using assms unat_lt2p [of "ref_of s a"] by simp
next
  case (Suc n)
  define t where "t = (pmm_inc_ref a ^^ n) s"
  from Suc have t: "pmm_inv t" "a \<in> frame_addrs t" "a \<notin> free_set t"
    "unat (ref_of t a) = min 255 (unat (ref_of s a) + n)" by (auto simp: t_def)
  note R = pmm_inc_ref_inv [OF t(1-3)]
  have "unat (ref_of (pmm_inc_ref a t) a) = min 255 (unat (ref_of s a) + Suc n)"
  proof (cases "ref_of t a < 255")
    case True
    then have "unat (ref_of t a + 1) = Suc (unat (ref_of t a))" by (rule unat_inc)
    with True t(4) R(3) show ?thesis by (simp add: word_less_nat_alt)
  next
    case False
    with t(4) R(3) show ?thesis by (simp add: word_less_nat_alt)
  qed
  with R t show ?case by (simp add: t_def [symmetric] frame_addrs_def)
qed

lemma pmm_drop_refs:
  assumes "pmm_inv s" "a \<in> frame_addrs s" "m < unat (ref_of s a)"
  shows "pmm_inv ((pmm_free_frame a ^^ m) s) \<and> a \<in> frame_addrs ((pmm_free_frame a ^^ m) s) \<and>
    a \<notin> free_set ((pmm_free_frame a ^^ m) s) \<and>
    unat (ref_of ((pmm_free_frame a ^^ m) s) a) = unat (ref_of s a) - m"
  using assms(3)
proof (induction m)
  case 0
  have "0 < ref_of s a" using 0 by (simp add: word_less_nat_alt)
  then show ?case using assms pmm_free_frame_ref(3) by simp
next
  case (Suc m)
  define t where "t = (pmm_free_frame a ^^ m) s"
  from Suc have t: "pmm_inv t" "a \<in> frame_addrs t" "a \<notin> free_set t"
    "unat (ref_of t a) = unat (ref_of s a) - m" by (auto simp: t_def)
  have gt: "1 < ref_of t a" using t(4) Suc.prems by (simp add: word_less_nat_alt)
  then have pos: "0 < ref_of t a" by (rule order_less_trans [rotated]) simp
  note R = pmm_free_frame_ref [OF t(1,2) pos] pmm_free_frame_inv [OF t(1-3)]
  have "unat (ref_of t a - 1) = unat (ref_of t a) - 1"
    using pos by (intro unat_dec) auto
  with R t gt show ?case by (auto simp: t_def [symmetric] dest: leD)
qed

lemma pmm_drop_last_ref:
  assumes "pmm_inv s" "a \<in> frame_addrs s" "0 < unat (ref_of s a)"
  shows "a \<in> free_set ((pmm_free_frame a ^^ unat (ref_of s a)) s)"
proof -
  define m where "m = unat (ref_of s a) - 1"
  define t where "t = (pmm_free_frame a ^^ m) s"
  have m: "m < unat (ref_of s a)" "unat (ref_of s a) = Suc m" using assms(3) by (auto simp: m_def)
  from pmm_drop_refs [OF assms(1,2) m(1)] have t: "pmm_inv t" "a \<in> frame_addrs t" "a \<notin> free_set t"
    "unat (ref_of t a) = 1" by (auto simp: t_def m(2))
  then have "ref_of t a \<le> 1" by (simp add: word_le_nat_alt)
  with pmm_free_frame_inv(2) [OF t(1-3)] show ?thesis by (simp add: m(2) t_def [symmetric])
qed

text \<open>Allocation leaves the held frames and their counts alone.\<close>

definition pmm_taken :: "pmm \<Rightarrow> pmm \<Rightarrow> bool" where
  "pmm_taken s s' \<longleftrightarrow> free_set s' \<subseteq> free_set s \<and> frame_addrs s' = frame_addrs s \<and>
     (\<forall>b \<in> frame_addrs s. b \<notin> free_set s \<longrightarrow> ref_of s' b = ref_of s b)"

lemma pmm_taken_refl [simp]: "pmm_taken s s"
  by (simp add: pmm_taken_def)

lemma pmm_taken_trans: "pmm_taken s s' \<Longrightarrow> pmm_taken s' s'' \<Longrightarrow> pmm_taken s s''"
  unfolding pmm_taken_def by (metis subset_eq)

lemma pmm_alloc_taken:
  assumes inv: "pmm_inv s" and a: "pmm_alloc_frame s = (a, s')"
  shows "pmm_taken s s'"
proof (cases "stack_top s = 0")
  case True
  with a show ?thesis by (simp add: pmm_alloc_frame_none)
next
  case False
  obtain idx t where t: "pmm_alloc_frame s = (index_to_phys idx, t)"
    "free_list s = free_list t @ [idx]" "total_frames t = total_frames s" "phy_ram_end t = phy_ram_end s"
    "ref_counts t = (ref_counts s)[unat idx := 1]"
    using pmm_alloc_frame_some [OF inv False] by metis
  have s': "s' = t" using a t(1) by simp
  have "ref_of t b = ref_of s b" if b: "b \<in> frame_addrs s" "b \<notin> free_set s" for b
  proof -
    from inv b(1) obtain i where i: "phys_to_index s b = i" "b \<in> free_set s \<longleftrightarrow> i \<in> set (free_list s)"
      "ref_of s b = ref_counts s ! unat i" by (rule pmm_frame_index)
    then have "i \<noteq> idx" using b(2) t(2) by auto
    then have "unat i \<noteq> unat idx" using word_eq_unatI by blast
    moreover have "phys_to_index t b = phys_to_index s b" by (simp add: phys_to_index_def t(4))
    ultimately show ?thesis using i t(5) by (simp add: ref_of_def)
  qed
  then show ?thesis using pf.alloc_keeps [OF inv a] t(3) by (auto simp: pmm_taken_def s' frame_addrs_def)
qed

text \<open>Giving a frame back leaves the counts of the others alone.\<close>

lemma pmm_free_ref_other:
  assumes inv: "pmm_inv s" and a: "a \<in> frame_addrs s" and b: "b \<in> frame_addrs s" "b \<noteq> a"
  shows "ref_of (pmm_free_frame a s) b = ref_of s b"
proof -
  from inv a obtain i where i: "a = index_to_phys i" "phys_to_index s a = i" by (rule pmm_frame_index)
  from inv b(1) obtain j where j: "b = index_to_phys j" "phys_to_index s b = j" "ref_of s b = ref_counts s ! unat j" by (rule pmm_frame_index)
  have "j \<noteq> i" using i(1) j(1) b(2) by auto
  then have "unat j \<noteq> unat i" using word_eq_unatI by blast
  then have "ref_counts (pmm_free_frame a s) ! unat j = ref_counts s ! unat j" using i by (simp add: pmm_free_frame_def pmm_push_frame_def Let_def)
  moreover have "phys_to_index (pmm_free_frame a s) b = phys_to_index s b" by (simp add: pmm_free_frame_def pmm_push_frame_def phys_to_index_def Let_def)
  ultimately show ?thesis using j by (simp add: ref_of_def)
qed

text \<open>A small machine for the witnesses: five frames, the first one reserved.\<close>

definition demo_pmm :: pmm where
  "demo_pmm = pmm_init 0x40000000 0x5000 pmm_static"

lemma demo_pmm_inv: "pmm_inv demo_pmm"
  using pmm_init_loop_inv_done(1) [OF pmm_init_establishes(1)]
  by (simp add: demo_pmm_def pmm_static_def)

lemma demo_pmm_eval: "demo_pmm = \<lparr>frame_stack = [1, 2, 3, 4, 0], stack_top = 4, stack_capacity = 5,
    used_frames = 1, phy_ram_size = 0x5000, phy_ram_end = 0x40005000, total_frames = 5,
    ref_counts = [1, 0, 0, 0, 0]\<rparr>"
  by code_simp

lemma demo_pmm_alloc: "pmm_alloc_frame demo_pmm = (0x40004000, \<lparr>frame_stack = [1, 2, 3, 4, 0],
    stack_top = 3, stack_capacity = 5, used_frames = 2, phy_ram_size = 0x5000,
    phy_ram_end = 0x40005000, total_frames = 5, ref_counts = [1, 0, 0, 0, 1]\<rparr>)"
  by code_simp

text \<open>
  C1. \<open>pmm_init\<close> establishes the invariant of the allocator: the free frames are exactly the
  frames at or above the end of the kernel image and of the allocator's own two arrays, each
  with count 0, and every frame below has count 1, so no later allocation returns memory
  that the kernel occupies.
\<close>

theorem pmm_init_correct:
  assumes "unat ram_size < 2 ^ 44 - 4096" and "used_frames s = 0"
  shows "let s' = pmm_init kernel_end ram_size s;
             reserved_end = pmm_reserved_end kernel_end (total_frames s')
         in pmm_inv s' \<and> free_set s' = {a \<in> frame_addrs s'. reserved_end \<le> a} \<and>
            (\<forall>a \<in> frame_addrs s'. ref_of s' a = (if reserved_end \<le> a then 0 else 1))"
  using pmm_init_loop_inv_done [OF pmm_init_establishes(1) [OF assms]] unfolding Let_def by blast

theorem pmm_init_correct_witness:
  "unat (0x5000 :: u64) < 2 ^ 44 - 4096 \<and> used_frames pmm_static = 0 \<and>
   (let s' = pmm_init 0x40000000 0x5000 pmm_static;
        reserved_end = pmm_reserved_end 0x40000000 (total_frames s')
    in pmm_inv s' \<and> free_set s' = {a \<in> frame_addrs s'. reserved_end \<le> a} \<and>
       (\<forall>a \<in> frame_addrs s'. ref_of s' a = (if reserved_end \<le> a then 0 else 1)))"
proof -
  have h: "unat (0x5000 :: u64) < 2 ^ 44 - 4096" "used_frames pmm_static = 0"
    by (simp_all add: pmm_static_def)
  show ?thesis using h pmm_init_correct [OF h] by blast
qed

text \<open>
  C2. \<open>pmm_alloc_frame\<close> returns 0 and changes nothing exactly when no frame is free;
  otherwise it returns a page-aligned frame that was free, takes only that frame out of the
  free set, gives it the count 1 and keeps the invariant.
\<close>

theorem pmm_alloc_correct:
  assumes "pmm_inv s" and "pmm_alloc_frame s = (a, s')"
  shows "if free_set s = {} then a = 0 \<and> s' = s
         else a \<in> free_set s \<and> free_set s' = free_set s - {a} \<and> ref_of s' a = 1 \<and>
              a AND (PAGE_SIZE - 1) = 0 \<and> pmm_inv s'"
proof (cases "a = 0")
  case True
  with pf.alloc_fails [of s s'] assms show ?thesis by simp
next
  case False
  have "a \<in> free_set s" using pf.alloc_frame [OF assms False] by blast
  then have "free_set s \<noteq> {}" by blast
  with pmm_alloc_takes_free [OF assms False] pf.alloc_aligned(2) [OF assms False]
  show ?thesis by (simp only: if_False)
qed

theorem pmm_alloc_correct_witness:
  "pmm_inv demo_pmm \<and>
   (if free_set demo_pmm = {} then fst (pmm_alloc_frame demo_pmm) = 0 \<and> snd (pmm_alloc_frame demo_pmm) = demo_pmm
    else fst (pmm_alloc_frame demo_pmm) \<in> free_set demo_pmm \<and>
         free_set (snd (pmm_alloc_frame demo_pmm)) = free_set demo_pmm - {fst (pmm_alloc_frame demo_pmm)} \<and>
         ref_of (snd (pmm_alloc_frame demo_pmm)) (fst (pmm_alloc_frame demo_pmm)) = 1 \<and>
         fst (pmm_alloc_frame demo_pmm) AND (PAGE_SIZE - 1) = 0 \<and>
         pmm_inv (snd (pmm_alloc_frame demo_pmm)))"
  using demo_pmm_inv pmm_alloc_correct [OF demo_pmm_inv prod.collapse [symmetric]] by blast

text \<open>
  C3. The life of a shared frame: after an allocation and \<open>n\<close> further references
  (\<open>n\<close> below 255), the frame stays allocated through the first \<open>n\<close> calls of
  \<open>pmm_free_frame\<close> and is back in the free set after the next one.
\<close>

theorem pmm_refcount_lifetime:
  assumes "pmm_inv s" and "pmm_alloc_frame s = (a, s')" and "a \<noteq> 0" and "n < 255"
  shows "(\<forall>m \<le> n. a \<notin> free_set ((pmm_free_frame a ^^ m) ((pmm_inc_ref a ^^ n) s'))) \<and>
         a \<in> free_set ((pmm_free_frame a ^^ Suc n) ((pmm_inc_ref a ^^ n) s'))"
proof -
  define t where "t = (pmm_inc_ref a ^^ n) s'"
  note A = pmm_alloc_ref [OF assms(1-3)]
  from pmm_inc_refs [OF A(4,2,3), of n] A(1) assms(4)
  have t: "pmm_inv t" "a \<in> frame_addrs t" "unat (ref_of t a) = Suc n" by (auto simp: t_def)
  then show ?thesis
    using pmm_drop_refs [OF t(1,2)] pmm_drop_last_ref [OF t(1,2)]
    unfolding t_def [symmetric] by (metis less_Suc_eq_le zero_less_Suc)
qed

theorem pmm_refcount_lifetime_witness:
  "pmm_inv demo_pmm \<and> fst (pmm_alloc_frame demo_pmm) \<noteq> 0 \<and> (2 :: nat) < 255 \<and>
   0x40004000 \<notin> free_set ((pmm_free_frame 0x40004000 ^^ 2)
       ((pmm_inc_ref 0x40004000 ^^ 2) (snd (pmm_alloc_frame demo_pmm)))) \<and>
   0x40004000 \<in> free_set ((pmm_free_frame 0x40004000 ^^ Suc 2)
       ((pmm_inc_ref 0x40004000 ^^ 2) (snd (pmm_alloc_frame demo_pmm))))"
proof -
  have n: "(2 :: nat) < 255" and nz: "(0x40004000 :: u64) \<noteq> 0" by simp_all
  have "pmm_alloc_frame demo_pmm = (0x40004000, snd (pmm_alloc_frame demo_pmm))"
    by (simp add: demo_pmm_alloc)
  from pmm_refcount_lifetime [OF demo_pmm_inv this nz n] demo_pmm_inv n nz show ?thesis
    by (simp only: demo_pmm_alloc fst_conv) (metis order_refl)
qed

text \<open>
  The counts saturate at 255: with 255 or more further references the frame is returned to
  the free set by the 255th release, while at least one of its \<open>n + 1\<close> owners has not
  released it.
\<close>

theorem pmm_refcount_saturation:
  assumes "pmm_inv s" and "pmm_alloc_frame s = (a, s')" and "a \<noteq> 0" and "255 \<le> n"
  shows "a \<in> free_set ((pmm_free_frame a ^^ 255) ((pmm_inc_ref a ^^ n) s')) \<and> 255 < n + 1"
proof -
  define t where "t = (pmm_inc_ref a ^^ n) s'"
  note A = pmm_alloc_ref [OF assms(1-3)]
  from pmm_inc_refs [OF A(4,2,3), of n] A(1) assms(4)
  have t: "pmm_inv t" "a \<in> frame_addrs t" "unat (ref_of t a) = 255" by (auto simp: t_def)
  with pmm_drop_last_ref [OF t(1,2)] assms(4) show ?thesis by (simp add: t_def)
qed

theorem pmm_refcount_saturation_witness:
  "pmm_inv demo_pmm \<and> fst (pmm_alloc_frame demo_pmm) \<noteq> 0 \<and>
   0x40004000 \<in> free_set ((pmm_free_frame 0x40004000 ^^ 255)
       ((pmm_inc_ref 0x40004000 ^^ 300) (snd (pmm_alloc_frame demo_pmm)))) \<and> (255 :: nat) < 300 + 1"
proof -
  have n: "(255 :: nat) \<le> 300" and nz: "(0x40004000 :: u64) \<noteq> 0" by simp_all
  have "pmm_alloc_frame demo_pmm = (0x40004000, snd (pmm_alloc_frame demo_pmm))"
    by (simp add: demo_pmm_alloc)
  from pmm_refcount_saturation [OF demo_pmm_inv this nz n] demo_pmm_inv nz show ?thesis
    by (simp only: demo_pmm_alloc fst_conv) blast
qed

text \<open>
  \<open>pmm_mark_used_region\<close> keeps the invariant and takes out of the free list exactly the
  frames from the one that holds \<open>base\<close> up to the one after the region's last byte.
\<close>

theorem pmm_mark_used_region_correct:
  assumes "pmm_inv s" and "phys_to_index s base \<noteq> - 1"
  shows "pmm_inv (pmm_mark_used_region base sz s) \<and>
         set (free_list (pmm_mark_used_region base sz s)) =
           {i \<in> set (free_list s). \<not> (phys_to_index s base \<le> i \<and>
              i < phys_to_index s (base + sz + PAGE_SIZE - 1))}"
proof -
  define lo hi where "lo = phys_to_index s base" and "hi = phys_to_index s (base + sz + PAGE_SIZE - 1)"
  have "set (map of_nat [unat lo..<unat hi]) = {i :: u32. lo \<le> i \<and> i < hi}"
  proof (intro set_eqI iffI)
    fix i :: u32 assume "i \<in> {i. lo \<le> i \<and> i < hi}"
    then show "i \<in> set (map of_nat [unat lo..<unat hi])"
      by (auto simp: word_le_nat_alt word_less_nat_alt intro!: image_eqI [of _ _ "unat i"])
  next
    fix i :: u32 assume "i \<in> set (map of_nat [unat lo..<unat hi])"
    then obtain k where "i = of_nat k" "unat lo \<le> k" "k < unat hi" by auto
    then show "i \<in> {i. lo \<le> i \<and> i < hi}"
      using of_nat_unat_less [of k, where 'a = 32] unat_lt2p [of hi]
      by (auto simp: word_le_nat_alt word_less_nat_alt)
  qed
  with fold_mark_used_inv [OF assms(1), of "map of_nat [unat lo..<unat hi]"] assms(2)
  show ?thesis
    unfolding pmm_mark_used_region_def Let_def lo_def [symmetric] hi_def [symmetric] by auto
qed

theorem pmm_mark_used_region_correct_witness:
  "pmm_inv demo_pmm \<and> phys_to_index demo_pmm 0x40002000 \<noteq> - 1 \<and>
   pmm_inv (pmm_mark_used_region 0x40002000 0x1000 demo_pmm) \<and>
   set (free_list (pmm_mark_used_region 0x40002000 0x1000 demo_pmm)) =
     {i \<in> set (free_list demo_pmm). \<not> (phys_to_index demo_pmm 0x40002000 \<le> i \<and>
        i < phys_to_index demo_pmm (0x40002000 + 0x1000 + PAGE_SIZE - 1))}"
proof -
  have h: "phys_to_index demo_pmm 0x40002000 \<noteq> - 1" by code_simp
  show ?thesis using demo_pmm_inv h pmm_mark_used_region_correct [OF demo_pmm_inv h, of "0x1000"] by blast
qed

lemma pmm_alloc_push:
  assumes "length (frame_stack s) > unat (stack_top s)" "stack_top s \<noteq> - 1"
  shows "fst (pmm_alloc_frame (pmm_push_frame i s)) = index_to_phys i"
    and "stack_top (snd (pmm_alloc_frame (pmm_push_frame i s))) = stack_top s"
    and "frame_stack (snd (pmm_alloc_frame (pmm_push_frame i s))) = (frame_stack s)[unat (stack_top s) := i]"
proof -
  have "stack_top s + 1 \<noteq> 0" using assms(2) by (metis add_eq_0_iff2)
  with assms(1) show "fst (pmm_alloc_frame (pmm_push_frame i s)) = index_to_phys i"
    "stack_top (snd (pmm_alloc_frame (pmm_push_frame i s))) = stack_top s"
    "frame_stack (snd (pmm_alloc_frame (pmm_push_frame i s))) = (frame_stack s)[unat (stack_top s) := i]"
    by (simp_all add: pmm_alloc_frame_def pmm_push_frame_def Let_def)
qed

lemma pmm_push_pair_allocs:
  assumes "unat (stack_top s) + 1 < length (frame_stack s)" "length (frame_stack s) < 2 ^ 32"
  shows "fst (pmm_alloc_frame (pmm_push_frame i (pmm_push_frame j s))) = index_to_phys i \<and>
    fst (pmm_alloc_frame (snd (pmm_alloc_frame (pmm_push_frame i (pmm_push_frame j s))))) = index_to_phys j"
proof -
  let ?p = "pmm_push_frame j s"
  have top: "unat (stack_top s + 1) = Suc (unat (stack_top s))"
    using assms by (subst unat_add_no_overflow) auto
  have sp: "stack_top ?p = stack_top s + 1" "length (frame_stack ?p) = length (frame_stack s)"
    by (simp_all add: pmm_push_frame_def)
  have ne: "stack_top s + 1 \<noteq> - 1"
  proof
    assume "stack_top s + 1 = - 1"
    with top have "Suc (unat (stack_top s)) = unat (- 1 :: u32)" by (simp only:)
    then show False using assms by (simp add: unat_minus1)
  qed
  have p: "unat (stack_top ?p) < length (frame_stack ?p)" "stack_top ?p \<noteq> - 1" "stack_top ?p \<noteq> 0"
    unfolding sp using top assms(1) ne unat_gt_0 [of "stack_top s + 1"] by simp_all
  note A = pmm_alloc_push [OF p(1,2), of i]
  have "fst (pmm_alloc_frame (snd (pmm_alloc_frame (pmm_push_frame i ?p)))) = index_to_phys j"
    using assms A(2,3) p(3) top sp
    by (subst pmm_alloc_frame_def) (simp add: Let_def pmm_push_frame_def [of j])
  with A(1) show ?thesis by blast
qed

text \<open>
  Nothing guards against a double free: releasing a just allocated frame twice makes the
  next two allocations return that same frame.
\<close>

theorem pmm_double_free_aliases:
  assumes "pmm_inv s" and "pmm_alloc_frame s = (a, s')" and "a \<noteq> 0" and "stack_top s' + 1 < total_frames s'"
  shows "let t = pmm_free_frame a (pmm_free_frame a s')
         in fst (pmm_alloc_frame t) = a \<and> fst (pmm_alloc_frame (snd (pmm_alloc_frame t))) = a"
proof -
  note A = pmm_alloc_ref [OF assms(1-3)]
  note I = pmm_invD [OF A(4)]
  from A(4,2) obtain i where i: "a = index_to_phys i" "i < total_frames s'"
    "phys_to_index s' a = i" "i \<noteq> - 1" "unat i < length (ref_counts s')"
    "a \<in> free_set s' \<longleftrightarrow> i \<in> set (free_list s')" "ref_of s' a = ref_counts s' ! unat i"
    by (rule pmm_frame_index)
  have lt: "stack_top s' < total_frames s'"
    using pmm_inv_free_not_max [OF A(4) i(2)] A(3) i(6) by blast
  have top: "unat (stack_top s' + 1) = Suc (unat (stack_top s'))" by (rule unat_inc [OF lt])
  define u where "u = s'\<lparr>ref_counts := (ref_counts s')[unat i := 0]\<rparr>"
  have f1: "pmm_free_frame a s' = pmm_push_frame i u"
    using i(2-5,7) A(1) by (simp add: pmm_free_frame_def u_def Let_def)
  have f2: "pmm_free_frame a (pmm_push_frame i u) = pmm_push_frame i (pmm_push_frame i u)"
    using i(2-5) assms(4) I(2)
    by (simp add: pmm_free_frame_def u_def pmm_push_frame_def phys_to_index_def Let_def linorder_not_le)
  have "unat (stack_top u) + 1 < length (frame_stack u)" "length (frame_stack u) < 2 ^ 32"
    using assms(4) top I(3) unat_lt2p [of "total_frames s'"] by (simp_all add: u_def word_less_nat_alt)
  from pmm_push_pair_allocs [OF this, of i i] show ?thesis
    unfolding Let_def f1 f2 i(1) [symmetric] .
qed

theorem pmm_double_free_aliases_witness:
  "let s = snd (pmm_alloc_frame demo_pmm); s' = snd (pmm_alloc_frame s);
       t = pmm_free_frame 0x40003000 (pmm_free_frame 0x40003000 s')
   in pmm_inv s \<and> pmm_alloc_frame s = (0x40003000, s') \<and> stack_top s' + 1 < total_frames s' \<and>
      fst (pmm_alloc_frame t) = 0x40003000 \<and> fst (pmm_alloc_frame (snd (pmm_alloc_frame t))) = 0x40003000"
proof -
  define s where "s = snd (pmm_alloc_frame demo_pmm)"
  define s' where "s' = snd (pmm_alloc_frame s)"
  have inv: "pmm_inv s"
    using pf.alloc_keeps [OF demo_pmm_inv prod.collapse [symmetric]] by (simp add: s_def)
  have "fst (pmm_alloc_frame s) = 0x40003000" by (simp add: s_def demo_pmm_alloc) code_simp
  then have eq: "pmm_alloc_frame s = (0x40003000, s')" by (simp add: s'_def prod_eq_iff)
  have lt: "stack_top s' + 1 < total_frames s'" by (simp add: s'_def s_def demo_pmm_alloc) code_simp
  have nz: "(0x40003000 :: u64) \<noteq> 0" by simp
  show ?thesis
    using pmm_double_free_aliases [OF inv eq nz lt] inv eq lt
    unfolding Let_def s_def [symmetric] s'_def [symmetric] by blast
qed

end
