(* ===== verification/Vmm.thy ===== *)
theory Vmm
  imports Pmm
begin

section \<open>Page tables\<close>

text \<open>
  A model of the three-level AArch64 page tables of \<^verbatim>\<open>kernel/mm/vmm.c\<close>. Physical
  memory is a map from frame addresses to pages of 512 64-bit words; the state \<open>pmem\<close> pairs
  it with the frame allocator and with the lock of the file. A pointer into the direct map is
  represented by the physical address it maps, so \<open>P2V\<close>, \<open>V2P\<close> and \<open>safe_P2V\<close> are
  the identity and 0 is NULL; a pointer to a page-table entry is the pair of its table and its
  index. An index is a 9-bit word, the type of \<open>(virt >> n) & 0x1FF\<close>. Barriers and TLB
  maintenance have no counterpart.
\<close>

type_synonym pt_idx = "9 word"
type_synonym page = "pt_idx \<Rightarrow> u64"
type_synonym pte_ref = "u64 \<times> pt_idx"

record pmem =
  frames :: "u64 \<Rightarrow> page"
  pmm_of :: pmm
  vmm_lock :: bool
  root_table :: u64

abbreviation PT_VALID :: u64 where "PT_VALID \<equiv> 0x1"
abbreviation PT_TABLE :: u64 where "PT_TABLE \<equiv> 0x2"
abbreviation PT_PAGE :: u64 where "PT_PAGE \<equiv> 0x2"
abbreviation PT_AF :: u64 where "PT_AF \<equiv> 0x400"
abbreviation PT_SH_INNER :: u64 where "PT_SH_INNER \<equiv> 0x300"
abbreviation PT_SW_COW :: u64 where "PT_SW_COW \<equiv> 0x80000000000000"
abbreviation MT_NORMAL_ATTR :: u64 where "MT_NORMAL_ATTR \<equiv> 0x4"
abbreviation PT_AP_RW_EL1 :: u64 where "PT_AP_RW_EL1 \<equiv> 0x0"
abbreviation PT_AP_RW_EL0 :: u64 where "PT_AP_RW_EL0 \<equiv> 0x40"
abbreviation PT_AP_RO_EL1 :: u64 where "PT_AP_RO_EL1 \<equiv> 0x80"
abbreviation PT_AP_RO_EL0 :: u64 where "PT_AP_RO_EL0 \<equiv> 0xC0"
abbreviation PT_PXN :: u64 where "PT_PXN \<equiv> 0x20000000000000"
abbreviation PT_UXN :: u64 where "PT_UXN \<equiv> 0x40000000000000"
abbreviation ADDR_MASK :: u64 where "ADDR_MASK \<equiv> 0xFFFFFFFFF000"
abbreviation VM_WRITABLE :: u64 where "VM_WRITABLE \<equiv> 0x1"
abbreviation VM_USER :: u64 where "VM_USER \<equiv> 0x2"
abbreviation VM_NO_EXEC :: u64 where "VM_NO_EXEC \<equiv> 0x4"
abbreviation VM_DEVICE :: u64 where "VM_DEVICE \<equiv> 0x8"

definition l1_idx :: "u64 \<Rightarrow> pt_idx" where "l1_idx virt = ucast (drop_bit 30 virt)"
definition l2_idx :: "u64 \<Rightarrow> pt_idx" where "l2_idx virt = ucast (drop_bit 21 virt)"
definition l3_idx :: "u64 \<Rightarrow> pt_idx" where "l3_idx virt = ucast (drop_bit 12 virt)"

definition read_pte :: "pmem \<Rightarrow> pte_ref \<Rightarrow> u64" where
  "read_pte m p = frames m (fst p) (snd p)"

definition write_pte :: "pte_ref \<Rightarrow> u64 \<Rightarrow> pmem \<Rightarrow> pmem" where
  "write_pte p v m = m\<lparr>frames := (frames m)(fst p := (frames m (fst p))(snd p := v))\<rparr>"

definition memset_zero_page :: "u64 \<Rightarrow> pmem \<Rightarrow> pmem" where
  "memset_zero_page p m = m\<lparr>frames := (frames m)(p := (\<lambda>_. 0))\<rparr>"

definition alloc_frame :: "pmem \<Rightarrow> u64 \<times> pmem" where
  "alloc_frame m = (let (a, s) = pmm_alloc_frame (pmm_of m) in (a, m\<lparr>pmm_of := s\<rparr>))"

definition free_frame :: "u64 \<Rightarrow> pmem \<Rightarrow> pmem" where
  "free_frame a m = m\<lparr>pmm_of := pmm_free_frame a (pmm_of m)\<rparr>"

definition get_next_table :: "u64 \<Rightarrow> pt_idx \<Rightarrow> pmem \<Rightarrow> u64 \<times> pmem" where
  "get_next_table table idx m =
     (if has (read_pte m (table, idx)) PT_VALID
      then (read_pte m (table, idx) AND ADDR_MASK, m)
      else let (new_table_phys, m) = alloc_frame m
           in if new_table_phys = 0 then (0, m)
              else let m = memset_zero_page new_table_phys m;
                       m = write_pte (table, idx) (new_table_phys OR PT_TABLE OR PT_VALID) m
                   in (new_table_phys, m))"

definition vmm_get_pte_from_table :: "u64 \<Rightarrow> u64 \<Rightarrow> pmem \<Rightarrow> pte_ref option" where
  "vmm_get_pte_from_table page_table virt m =
     (if page_table = 0 then None
      else if \<not> has (read_pte m (page_table, l1_idx virt)) PT_VALID then None
      else let l2_table = read_pte m (page_table, l1_idx virt) AND ADDR_MASK
           in if \<not> has (read_pte m (l2_table, l2_idx virt)) PT_VALID then None
              else let l3_table = read_pte m (l2_table, l2_idx virt) AND ADDR_MASK
                   in Some (l3_table, l3_idx virt))"

text \<open>
  The allocation of one missing level, which \<open>vmm_get_pte_from_table_alloc\<close> spells out twice;
  the second component is False when the allocator has no frame.
\<close>

definition ensure_table :: "u64 \<Rightarrow> pt_idx \<Rightarrow> pmem \<Rightarrow> bool \<times> pmem" where
  "ensure_table table idx m =
     (if has (read_pte m (table, idx)) PT_VALID then (True, m)
      else let (phys, m) = alloc_frame m
           in if phys = 0 then (False, m)
              else let m = memset_zero_page phys m
                   in (True, write_pte (table, idx) (phys OR PT_TABLE OR PT_VALID) m))"

definition vmm_get_pte_from_table_alloc :: "u64 \<Rightarrow> u64 \<Rightarrow> pmem \<Rightarrow> pte_ref option \<times> pmem" where
  "vmm_get_pte_from_table_alloc page_table virt m =
     (if page_table = 0 then (None, m)
      else let (ok, m) = ensure_table page_table (l1_idx virt) m
           in if \<not> ok then (None, m)
              else let l2_table = read_pte m (page_table, l1_idx virt) AND ADDR_MASK;
                       (ok, m) = ensure_table l2_table (l2_idx virt) m
                   in if \<not> ok then (None, m)
                      else let l3_table = read_pte m (l2_table, l2_idx virt) AND ADDR_MASK
                           in (Some (l3_table, l3_idx virt), m))"

text \<open>\<open>vmm_get_pte\<close> does not look at its parameter \<open>allocate\<close>.\<close>

definition vmm_get_pte :: "u64 \<Rightarrow> bool \<Rightarrow> pmem \<Rightarrow> pte_ref option \<times> pmem" where
  "vmm_get_pte virt allocate m =
     (if root_table m = 0 then (None, m)
      else let (l2_table, m) = get_next_table (root_table m) (l1_idx virt) m
           in if l2_table = 0 then (None, m)
              else let (l3_table, m) = get_next_table l2_table (l2_idx virt) m
                   in if l3_table = 0 then (None, m)
                      else (Some (l3_table, l3_idx virt), m))"

text \<open>The entry that \<open>vmm_map_page\<close> builds (lines 173 to 199).\<close>

definition map_entry :: "u64 \<Rightarrow> u64 \<Rightarrow> u64" where
  "map_entry phys flags =
     (let entry = phys OR PT_PAGE OR PT_VALID OR PT_AF OR PT_SH_INNER;
          entry = (if has flags VM_DEVICE then entry OR PT_PXN OR PT_UXN
                   else entry OR MT_NORMAL_ATTR)
      in if has flags VM_USER
         then let entry = (if has flags VM_NO_EXEC then entry OR PT_UXN else entry)
              in if has flags PT_SW_COW then entry OR PT_AP_RO_EL0 OR PT_SW_COW
                 else if has flags VM_WRITABLE then entry OR PT_AP_RW_EL0
                 else entry OR PT_AP_RO_EL0
         else let entry = entry OR PT_UXN
              in if has flags VM_WRITABLE then entry OR PT_AP_RW_EL1
                 else entry OR PT_AP_RO_EL1)"

text \<open>
  \<open>vmm_map_page\<close> is called with the lock free; the model takes the lock, and the two early
  returns leave it taken, as the source does.
\<close>

definition vmm_map_page :: "u64 \<Rightarrow> u64 \<Rightarrow> u64 \<Rightarrow> pmem \<Rightarrow> pmem" where
  "vmm_map_page virt phys flags m =
     (let m = m\<lparr>vmm_lock := True\<rparr>;
          (l2_table, m) = get_next_table (root_table m) (l1_idx virt) m
      in if l2_table = 0 then m
         else let (l3_table, m) = get_next_table l2_table (l2_idx virt) m
              in if l3_table = 0 then m
                 else (write_pte (l3_table, l3_idx virt) (map_entry phys flags) m)\<lparr>vmm_lock := False\<rparr>)"

text \<open>
  The loop of \<open>vmm_map_region\<close>, with \<open>mapped\<close> at its width: for a size above
  \<open>2^64 - 4096\<close> the counter wraps around and the loop does not end. A \<open>mutex_acquire\<close>
  of a lock that an earlier page left taken does not return either. Both are \<open>None\<close>.
\<close>

partial_function (option) vmm_map_region_loop ::
  "u64 \<Rightarrow> u64 \<Rightarrow> u64 \<Rightarrow> u64 \<Rightarrow> u64 \<Rightarrow> pmem \<Rightarrow> pmem option" where
  "vmm_map_region_loop virt phys sz flags mapped m =
     (if mapped < sz
      then if vmm_lock m then None
           else vmm_map_region_loop virt phys sz flags (mapped + PAGE_SIZE)
                  (vmm_map_page (virt + mapped) (phys + mapped) flags m)
      else Some m)"

definition vmm_map_region :: "u64 \<Rightarrow> u64 \<Rightarrow> u64 \<Rightarrow> u64 \<Rightarrow> pmem \<Rightarrow> pmem option" where
  "vmm_map_region virt phys sz flags m = vmm_map_region_loop virt phys sz flags 0 m"


subsection \<open>Entries\<close>

lemma frame_masked: "index_to_phys i AND ADDR_MASK = index_to_phys i"
proof -
  define x :: u64 where "x = 0x40000 + ucast i"
  have ux: "unat x = 0x40000 + unat i"
    using unat_lt2p [of i] by (simp add: x_def unat_word_ariths unat_ucast_small)
  then have lt: "unat x < 2 ^ 36" using unat_lt2p [of i] by simp
  then have "take_bit 36 x = x"
    by (intro word_eq_unatI) (simp add: unsigned_take_bit_eq take_bit_nat_eq_self)
  then have m: "x AND mask 36 = x" by (simp add: take_bit_eq_mask)
  have i: "index_to_phys i = push_bit 12 x"
    by (rule word_eq_unatI) (use lt ux in \<open>simp add: unat_index_to_phys unat_push_bit_small\<close>)
  have M: "ADDR_MASK = push_bit 12 (mask 36)" by (simp add: mask_eq_exp_minus_1)
  show ?thesis unfolding i M using m by (metis push_bit_and)
qed

lemma frame_addrs_masked: "a \<in> frame_addrs s \<Longrightarrow> a AND ADDR_MASK = a"
  unfolding frame_addrs_def using frame_masked by auto

text \<open>\<open>PT_TABLE | PT_VALID\<close> is 3.\<close>

lemma table_entry_addr: "p AND ADDR_MASK = p \<Longrightarrow> (p OR 3) AND ADDR_MASK = p"
  by (simp add: bit.conj_disj_distrib2)

lemma table_entry_valid [simp]: "has (p OR 3) PT_VALID"
  by (simp add: has_def bit.conj_disj_distrib2 or_eq_0_iff)

lemma has_zero [simp]: "\<not> has 0 f" by (simp add: has_def)

subsection \<open>The tree of tables\<close>

definition l2_tables :: "(u64 \<Rightarrow> page) \<Rightarrow> u64 \<Rightarrow> u64 set" where
  "l2_tables f r = {f r i AND ADDR_MASK | i. has (f r i) PT_VALID}"

definition l3_tables :: "(u64 \<Rightarrow> page) \<Rightarrow> u64 \<Rightarrow> u64 set" where
  "l3_tables f r = {f t j AND ADDR_MASK | t j. t \<in> l2_tables f r \<and> has (f t j) PT_VALID}"

definition pt_tables :: "(u64 \<Rightarrow> page) \<Rightarrow> u64 \<Rightarrow> u64 set" where
  "pt_tables f r = {r} \<union> l2_tables f r \<union> l3_tables f r"

text \<open>No table is used twice: the tables form a tree of depth three.\<close>

definition pt_tree :: "(u64 \<Rightarrow> page) \<Rightarrow> u64 \<Rightarrow> bool" where
  "pt_tree f r \<longleftrightarrow>
     r \<notin> l2_tables f r \<and> r \<notin> l3_tables f r \<and> l2_tables f r \<inter> l3_tables f r = {} \<and>
     (\<forall>i i'. has (f r i) PT_VALID \<longrightarrow> has (f r i') PT_VALID \<longrightarrow>
        f r i AND ADDR_MASK = f r i' AND ADDR_MASK \<longrightarrow> i = i') \<and>
     (\<forall>t t' j j'. t \<in> l2_tables f r \<longrightarrow> t' \<in> l2_tables f r \<longrightarrow>
        has (f t j) PT_VALID \<longrightarrow> has (f t' j') PT_VALID \<longrightarrow>
        f t j AND ADDR_MASK = f t' j' AND ADDR_MASK \<longrightarrow> t = t' \<and> j = j')"

definition pt_ok :: "u64 \<Rightarrow> pmem \<Rightarrow> bool" where
  "pt_ok r m \<longleftrightarrow>
     pmm_inv (pmm_of m) \<and> pt_tree (frames m) r \<and> 0 \<notin> pt_tables (frames m) r \<and>
     pt_tables (frames m) r \<inter> free_set (pmm_of m) = {}"

text \<open>The three kinds of write that the walkers do, on the memory alone.\<close>

lemma pt_tree_add_l2:
  assumes T: "pt_tree f r" and i: "\<not> has (f r i) PT_VALID"
    and p: "p \<notin> pt_tables f r" "p AND ADDR_MASK = p"
  defines "f' \<equiv> f(p := (\<lambda>_. 0), r := (f r)(i := p OR 3))"
  shows "l2_tables f' r = insert p (l2_tables f r)" "l3_tables f' r = l3_tables f r" "pt_tree f' r"
proof -
  have pr: "p \<noteq> r" using p(1) by (auto simp: pt_tables_def)
  have fr: "f' r = (f r)(i := p OR 3)" and fp: "f' p = (\<lambda>_. 0)"
    and fo: "t \<noteq> r \<Longrightarrow> t \<noteq> p \<Longrightarrow> f' t = f t" for t
    using pr by (auto simp: f'_def)
  show l2: "l2_tables f' r = insert p (l2_tables f r)"
    using i table_entry_addr [OF p(2)]
    by (auto simp: l2_tables_def fr fun_upd_def split: if_splits)
  have t: "t \<noteq> r" "t \<noteq> p" if "t \<in> l2_tables f r" for t
    using that T p(1) by (auto simp: pt_tree_def pt_tables_def)
  have conv: "t \<in> l2_tables f' r \<and> has (f' t j) PT_VALID \<longleftrightarrow> t \<in> l2_tables f r \<and> has (f t j) PT_VALID" for t j
    using t fo fp p(1) by (auto simp: l2 pt_tables_def)
  show l3: "l3_tables f' r = l3_tables f r"
    unfolding l3_tables_def using conv t fo by (metis (no_types, lifting))
  show "pt_tree f' r"
    unfolding pt_tree_def l2 l3
  proof (intro conjI allI impI)
    fix k k'
    assume k: "has (f' r k) PT_VALID" "has (f' r k') PT_VALID"
      and e: "f' r k AND ADDR_MASK = f' r k' AND ADDR_MASK"
    have new: "f r k AND ADDR_MASK \<noteq> p" if "has (f r k) PT_VALID" for k
      using that p(1) by (auto simp: pt_tables_def l2_tables_def)
    show "k = k'"
      using k e new T i by (auto simp: fr table_entry_addr p(2) pt_tree_def split: if_splits)
  next
    fix t t' j j'
    assume "t \<in> insert p (l2_tables f r)" "t' \<in> insert p (l2_tables f r)"
      "has (f' t j) PT_VALID" "has (f' t' j') PT_VALID" "f' t j AND ADDR_MASK = f' t' j' AND ADDR_MASK"
    then show "t = t'" "j = j'"
      using T t fo fp unfolding pt_tree_def by (metis has_zero insertE)+
  qed (use T p(1) pr in \<open>auto simp: pt_tree_def pt_tables_def\<close>)
qed

lemma pt_tree_add_l3:
  assumes T: "pt_tree f r" and t: "t \<in> l2_tables f r" and j: "\<not> has (f t j) PT_VALID"
    and p: "p \<notin> pt_tables f r" "p AND ADDR_MASK = p"
  defines "f' \<equiv> f(p := (\<lambda>_. 0), t := (f t)(j := p OR 3))"
  shows "l2_tables f' r = l2_tables f r" "l3_tables f' r = insert p (l3_tables f r)" "pt_tree f' r"
proof -
  have ne: "p \<noteq> r" "p \<noteq> t" "t \<noteq> r" "p \<notin> l2_tables f r"
    using p(1) t T by (auto simp: pt_tables_def pt_tree_def)
  have fr: "f' r = f r" and ft: "f' t = (f t)(j := p OR 3)"
    and fo: "u \<noteq> t \<Longrightarrow> u \<noteq> p \<Longrightarrow> f' u = f u" for u
    using ne by (auto simp: f'_def)
  show l2: "l2_tables f' r = l2_tables f r" by (simp add: l2_tables_def fr)
  have ent: "f' u k = (if u = t \<and> k = j then p OR 3 else f u k)" if "u \<in> l2_tables f r" for u k
    using that ne ft fo [of u] by (cases "u = t"; cases "u = p") auto
  note addr = table_entry_addr [OF p(2)]
  show l3: "l3_tables f' r = insert p (l3_tables f r)"
  proof (intro set_eqI iffI)
    fix x assume "x \<in> l3_tables f' r"
    then obtain u k where "u \<in> l2_tables f r" "has (f' u k) PT_VALID" "x = f' u k AND ADDR_MASK"
      by (auto simp: l3_tables_def l2)
    then show "x \<in> insert p (l3_tables f r)"
      using ent addr by (cases "u = t \<and> k = j") (auto simp: l3_tables_def)
  next
    fix x assume "x \<in> insert p (l3_tables f r)"
    then consider "x = p" | u k where "u \<in> l2_tables f r" "has (f u k) PT_VALID" "x = f u k AND ADDR_MASK"
      by (auto simp: l3_tables_def)
    then show "x \<in> l3_tables f' r"
    proof cases
      case 1
      then show ?thesis using t ent [OF t, of j] addr unfolding l3_tables_def l2
        by (intro CollectI exI [of _ t] exI [of _ j]) simp
    next
      case 2
      then have "u \<noteq> t \<or> k \<noteq> j" using j by auto
      with 2 show ?thesis using ent [of u k] unfolding l3_tables_def l2
        by (intro CollectI exI [of _ u] exI [of _ k]) auto
    qed
  qed
  have new: "f u k AND ADDR_MASK \<noteq> p" if "u \<in> l2_tables f r" "has (f u k) PT_VALID" for u k
    using that p(1) by (auto simp: pt_tables_def l3_tables_def)
  show "pt_tree f' r"
    unfolding pt_tree_def l2 l3
  proof (intro conjI allI impI)
    fix u u' k k'
    assume a: "u \<in> l2_tables f r" "u' \<in> l2_tables f r" "has (f' u k) PT_VALID"
      "has (f' u' k') PT_VALID" "f' u k AND ADDR_MASK = f' u' k' AND ADDR_MASK"
    have "u = u' \<and> k = k'"
      using a ent [OF a(1), of k] ent [OF a(2), of k'] new [OF a(1), of k] new [OF a(2), of k'] addr T
      unfolding pt_tree_def by (cases "u = t \<and> k = j"; cases "u' = t \<and> k' = j") auto
    then show "u = u'" "k = k'" by auto
  qed (use T ne fr in \<open>auto simp: pt_tree_def\<close>)
qed

lemma pt_tree_leaf_write:
  fixes g :: page
  assumes T: "pt_tree f r" and t: "t \<in> l3_tables f r \<or> t \<notin> pt_tables f r"
  defines "f' \<equiv> f(t := g)"
  shows "l2_tables f' r = l2_tables f r" "l3_tables f' r = l3_tables f r" "pt_tree f' r"
proof -
  have nr: "t \<noteq> r" and n2: "t \<notin> l2_tables f r"
    using t T by (auto simp: pt_tree_def pt_tables_def)
  then have fr: "f' r = f r" and fo: "u \<in> l2_tables f r \<Longrightarrow> f' u = f u" for u
    by (auto simp: f'_def)
  show l2: "l2_tables f' r = l2_tables f r" by (simp add: l2_tables_def fr)
  show l3: "l3_tables f' r = l3_tables f r" unfolding l3_tables_def l2 using fo by force
  show "pt_tree f' r" using T fo unfolding pt_tree_def l2 l3 fr by metis
qed

subsection \<open>One missing level\<close>

lemma alloc_frame_cases:
  assumes "alloc_frame m = (a, m')"
  shows "\<exists>s. pmm_alloc_frame (pmm_of m) = (a, s) \<and> m' = m\<lparr>pmm_of := s\<rparr>"
  using assms by (auto simp: alloc_frame_def split: prod.splits)

text \<open>Both walkers do the same to a missing entry.\<close>

lemma get_next_table_ensure:
  assumes "pmm_inv (pmm_of m)"
  shows "get_next_table t i m =
    (let (ok, m') = ensure_table t i m in (if ok then read_pte m' (t, i) AND ADDR_MASK else 0, m'))"
proof -
  have "a AND ADDR_MASK = a" if "alloc_frame m = (a, m')" "a \<noteq> 0" for a m'
    using alloc_frame_cases [OF that(1)] pf.alloc_aligned(1) [OF assms _ that(2)] frame_addrs_masked
    by blast
  then show ?thesis
    by (auto simp: get_next_table_def ensure_table_def read_pte_def write_pte_def table_entry_addr Let_def
        split: prod.splits)
qed

lemma ensure_table_valid: "has (read_pte m (t, i)) PT_VALID \<Longrightarrow> ensure_table t i m = (True, m)"
  by (simp add: ensure_table_def)

lemma ensure_table_new:
  assumes inv: "pmm_inv (pmm_of m)" and held: "H \<inter> free_set (pmm_of m) = {}"
    and t: "t \<in> H" and miss: "\<not> has (read_pte m (t, i)) PT_VALID" and e: "ensure_table t i m = (ok, m')"
  shows "pmm_inv (pmm_of m')"
    and "if ok then \<exists>p. p \<noteq> 0 \<and> p AND ADDR_MASK = p \<and> p \<notin> H \<and>
             insert p H \<inter> free_set (pmm_of m') = {} \<and> p \<in> free_set (pmm_of m) \<and>
             free_set (pmm_of m') = free_set (pmm_of m) - {p} \<and>
             frames m' = (frames m)(p := (\<lambda>_. 0), t := (frames m t)(i := p OR 3))
         else m' = m \<and> free_set (pmm_of m) = {}"
proof -
  obtain a s where a: "pmm_alloc_frame (pmm_of m) = (a, s)" "alloc_frame m = (a, m\<lparr>pmm_of := s\<rparr>)"
    by (cases "pmm_alloc_frame (pmm_of m)") (simp add: alloc_frame_def)
  have "pmm_inv (pmm_of m') \<and> (if ok then \<exists>p. p \<noteq> 0 \<and> p AND ADDR_MASK = p \<and> p \<notin> H \<and>
             insert p H \<inter> free_set (pmm_of m') = {} \<and> p \<in> free_set (pmm_of m) \<and>
             free_set (pmm_of m') = free_set (pmm_of m) - {p} \<and>
             frames m' = (frames m)(p := (\<lambda>_. 0), t := (frames m t)(i := p OR 3))
         else m' = m \<and> free_set (pmm_of m) = {})"
  proof (cases "a = 0")
    case True
    then have "ok = False" "m' = m\<lparr>pmm_of := s\<rparr>" using e miss a(2) by (auto simp: ensure_table_def)
    with pf.alloc_fails [OF inv] a(1) True inv show ?thesis by simp
  next
    case False
    note A = pf.alloc_frame [OF inv a(1) False] pf.alloc_not_held [OF inv a(1) False held]
    have m': "ok" "m' = write_pte (t, i) (a OR 3) (memset_zero_page a (m\<lparr>pmm_of := s\<rparr>))"
      using e miss a(2) False by (auto simp: ensure_table_def)
    have "a AND ADDR_MASK = a"
      using pf.alloc_aligned(1) [OF inv a(1) False] by (rule frame_addrs_masked)
    moreover have "a \<noteq> t" using A t by blast
    ultimately show ?thesis using A False m'
      by (auto simp: write_pte_def memset_zero_page_def intro!: exI [of _ a])
  qed
  then show "pmm_inv (pmm_of m')" "if ok then \<exists>p. p \<noteq> 0 \<and> p AND ADDR_MASK = p \<and> p \<notin> H \<and>
             insert p H \<inter> free_set (pmm_of m') = {} \<and> p \<in> free_set (pmm_of m) \<and>
             free_set (pmm_of m') = free_set (pmm_of m) - {p} \<and>
             frames m' = (frames m)(p := (\<lambda>_. 0), t := (frames m t)(i := p OR 3))
         else m' = m \<and> free_set (pmm_of m) = {}" by auto
qed

subsection \<open>Walks only add\<close>

text \<open>
  \<open>pt_grow r m m'\<close>: from \<open>m\<close> to \<open>m'\<close> the tree under \<open>r\<close> only gains tables, taken
  from the free frames and empty; every frame taken is one of them; every entry that was
  reachable keeps its place and its value, and so does every page that is neither a table nor free.
\<close>

definition pt_grow :: "u64 \<Rightarrow> pmem \<Rightarrow> pmem \<Rightarrow> bool" where
  "pt_grow r m m' \<longleftrightarrow>
     (\<forall>virt q. vmm_get_pte_from_table r virt m = Some q \<longrightarrow>
        vmm_get_pte_from_table r virt m' = Some q \<and> read_pte m' q = read_pte m q) \<and>
     (\<forall>virt q. vmm_get_pte_from_table r virt m = None \<longrightarrow>
        vmm_get_pte_from_table r virt m' = Some q \<longrightarrow> read_pte m' q = 0) \<and>
     (\<forall>a. a \<notin> pt_tables (frames m) r \<longrightarrow> a \<notin> free_set (pmm_of m) \<longrightarrow> frames m' a = frames m a) \<and>
     pt_tables (frames m') r \<subseteq> pt_tables (frames m) r \<union> free_set (pmm_of m) \<and>
     free_set (pmm_of m') \<subseteq> free_set (pmm_of m) \<and>
     pt_tables (frames m) r \<subseteq> pt_tables (frames m') r \<and>
     free_set (pmm_of m) \<subseteq> free_set (pmm_of m') \<union> pt_tables (frames m') r"

lemma pt_growI:
  assumes "\<And>virt q. vmm_get_pte_from_table r virt m = Some q \<Longrightarrow>
      vmm_get_pte_from_table r virt m' = Some q \<and> read_pte m' q = read_pte m q"
    and "\<And>virt q. vmm_get_pte_from_table r virt m = None \<Longrightarrow>
      vmm_get_pte_from_table r virt m' = Some q \<Longrightarrow> read_pte m' q = 0"
    and "\<And>a. a \<notin> pt_tables (frames m) r \<Longrightarrow> a \<notin> free_set (pmm_of m) \<Longrightarrow> frames m' a = frames m a"
    and "pt_tables (frames m') r \<subseteq> pt_tables (frames m) r \<union> free_set (pmm_of m)"
    and "free_set (pmm_of m') \<subseteq> free_set (pmm_of m)"
    and "pt_tables (frames m) r \<subseteq> pt_tables (frames m') r"
    and "free_set (pmm_of m) \<subseteq> free_set (pmm_of m') \<union> pt_tables (frames m') r"
  shows "pt_grow r m m'"
  using assms by (simp add: pt_grow_def)

lemma pt_growD:
  assumes "pt_grow r m m'"
  shows "vmm_get_pte_from_table r virt m = Some q \<Longrightarrow> vmm_get_pte_from_table r virt m' = Some q"
    and "vmm_get_pte_from_table r virt m = Some q \<Longrightarrow> read_pte m' q = read_pte m q"
    and "vmm_get_pte_from_table r virt m = None \<Longrightarrow> vmm_get_pte_from_table r virt m' = Some q \<Longrightarrow>
      read_pte m' q = 0"
    and "a \<notin> pt_tables (frames m) r \<Longrightarrow> a \<notin> free_set (pmm_of m) \<Longrightarrow> frames m' a = frames m a"
    and "pt_tables (frames m') r \<subseteq> pt_tables (frames m) r \<union> free_set (pmm_of m)"
    and "free_set (pmm_of m') \<subseteq> free_set (pmm_of m)"
    and "pt_tables (frames m) r \<subseteq> pt_tables (frames m') r"
    and "free_set (pmm_of m) \<subseteq> free_set (pmm_of m') \<union> pt_tables (frames m') r"
  using assms unfolding pt_grow_def by blast+

lemma pt_grow_refl [simp]: "pt_grow r m m"
  by (simp add: pt_grow_def)

lemma pt_grow_trans [trans]:
  assumes A: "pt_grow r m1 m2" and B: "pt_grow r m2 m3"
  shows "pt_grow r m1 m3"
proof (rule pt_growI)
  note a = pt_growD [OF A] and b = pt_growD [OF B]
  show "vmm_get_pte_from_table r virt m3 = Some q \<and> read_pte m3 q = read_pte m1 q"
    if "vmm_get_pte_from_table r virt m1 = Some q" for virt q
    using a(1,2) [OF that] b(1,2) [OF a(1) [OF that]] by simp
  show "read_pte m3 q = 0"
    if n: "vmm_get_pte_from_table r virt m1 = None" and s: "vmm_get_pte_from_table r virt m3 = Some q" for virt q
  proof (cases "vmm_get_pte_from_table r virt m2")
    case None
    then show ?thesis using s by (rule b(3))
  next
    case (Some q')
    with b(1) [OF Some] s have "q' = q" by simp
    with a(3) [OF n Some] b(2) [OF Some] show ?thesis by simp
  qed
  show "frames m3 x = frames m1 x"
    if "x \<notin> pt_tables (frames m1) r" "x \<notin> free_set (pmm_of m1)" for x
    using that a(4) [OF that] a(5,6) b(4) [of x] by auto
  show "pt_tables (frames m3) r \<subseteq> pt_tables (frames m1) r \<union> free_set (pmm_of m1)"
    "free_set (pmm_of m3) \<subseteq> free_set (pmm_of m1)"
    "pt_tables (frames m1) r \<subseteq> pt_tables (frames m3) r"
    "free_set (pmm_of m1) \<subseteq> free_set (pmm_of m3) \<union> pt_tables (frames m3) r"
    using a(5,6,7,8) b(5,6,7,8) by auto
qed

lemma walk_Some:
  assumes "r \<noteq> 0"
  shows "vmm_get_pte_from_table r virt m = Some q \<longleftrightarrow>
    has (frames m r (l1_idx virt)) PT_VALID \<and>
    has (frames m (frames m r (l1_idx virt) AND ADDR_MASK) (l2_idx virt)) PT_VALID \<and>
    q = (frames m (frames m r (l1_idx virt) AND ADDR_MASK) (l2_idx virt) AND ADDR_MASK, l3_idx virt)"
  using assms by (auto simp: vmm_get_pte_from_table_def read_pte_def Let_def)

lemma walk_in_l3:
  assumes "r \<noteq> 0" "vmm_get_pte_from_table r virt m = Some q"
  shows "fst q \<in> l3_tables (frames m) r" "snd q = l3_idx virt"
    "frames m r (l1_idx virt) AND ADDR_MASK \<in> l2_tables (frames m) r"
  using assms(2) unfolding walk_Some [OF assms(1)] l3_tables_def l2_tables_def by auto

text \<open>Two pages of the address space never share an entry.\<close>

lemma walk_inj:
  assumes T: "pt_tree (frames m) r" and r: "r \<noteq> 0"
    and v: "vmm_get_pte_from_table r v m = Some q" "vmm_get_pte_from_table r w m = Some q"
  shows "l1_idx v = l1_idx w" "l2_idx v = l2_idx w" "l3_idx v = l3_idx w"
proof -
  note V = v [unfolded walk_Some [OF r]] and L = walk_in_l3 [OF r v(1)] walk_in_l3 [OF r v(2)]
  have eq: "frames m r (l1_idx v) AND ADDR_MASK = frames m r (l1_idx w) AND ADDR_MASK \<and> l2_idx v = l2_idx w"
    using T V L(3,6) unfolding pt_tree_def by (metis prod.inject)
  then show "l2_idx v = l2_idx w" by simp
  show "l1_idx v = l1_idx w" using T V eq unfolding pt_tree_def by metis
  show "l3_idx v = l3_idx w" using L(2,5) by simp
qed

lemma pt_okD:
  assumes "pt_ok r m"
  shows "pmm_inv (pmm_of m)" "pt_tree (frames m) r" "0 \<notin> pt_tables (frames m) r"
    "pt_tables (frames m) r \<inter> free_set (pmm_of m) = {}" "r \<noteq> 0"
  using assms by (auto simp: pt_ok_def pt_tables_def)

lemma pt_ok_grow_l2:
  assumes ok: "pt_ok r m" and i: "\<not> has (frames m r i) PT_VALID"
    and p: "p \<noteq> 0" "p AND ADDR_MASK = p" "p \<notin> pt_tables (frames m) r" "p \<in> free_set (pmm_of m)"
    and s: "pmm_inv (pmm_of m')" "free_set (pmm_of m') = free_set (pmm_of m) - {p}" "p \<notin> free_set (pmm_of m')"
    and f: "frames m' = (frames m)(p := (\<lambda>_. 0), r := (frames m r)(i := p OR 3))"
  shows "pt_ok r m'" "pt_grow r m m'" "has (frames m' r i) PT_VALID"
proof -
  note O = pt_okD [OF ok] and A = pt_tree_add_l2 [OF pt_okD(2) [OF ok] i p(3,2), folded f]
  have tab: "pt_tables (frames m') r = insert p (pt_tables (frames m) r)"
    by (auto simp: pt_tables_def A)
  show "pt_ok r m'"
    using O A(3) s p(1) unfolding pt_ok_def tab by auto
  have pr: "p \<noteq> r" and p2: "p \<notin> l2_tables (frames m) r" and p3: "p \<notin> l3_tables (frames m) r"
    using p(3) by (auto simp: pt_tables_def)
  have fr: "frames m' r = (frames m r)(i := p OR 3)" "frames m' p = (\<lambda>_. 0)"
    and fo: "\<And>t. t \<noteq> r \<Longrightarrow> t \<noteq> p \<Longrightarrow> frames m' t = frames m t"
    using pr by (auto simp: f)
  show "has (frames m' r i) PT_VALID" by (simp add: fr)
  have t23: "t \<noteq> r \<and> t \<noteq> p" if "t \<in> l2_tables (frames m) r \<union> l3_tables (frames m) r" for t
    using that O(2) p2 p3 by (auto simp: pt_tree_def)
  show "pt_grow r m m'"
  proof (rule pt_growI)
    fix virt q assume w: "vmm_get_pte_from_table r virt m = Some q"
    note W = w [unfolded walk_Some [OF O(5)]] and L = walk_in_l3 [OF O(5) w]
    have "frames m' r (l1_idx virt) = frames m r (l1_idx virt)" using W i by (auto simp: fr)
    moreover have "frames m' (frames m r (l1_idx virt) AND ADDR_MASK) =
        frames m (frames m r (l1_idx virt) AND ADDR_MASK)" "frames m' (fst q) = frames m (fst q)"
      using fo t23 L(1,3) by auto
    ultimately show "vmm_get_pte_from_table r virt m' = Some q \<and> read_pte m' q = read_pte m q"
      using W unfolding walk_Some [OF O(5)] read_pte_def by simp
  next
    fix virt q assume n: "vmm_get_pte_from_table r virt m = None" and w: "vmm_get_pte_from_table r virt m' = Some q"
    note W = w [unfolded walk_Some [OF O(5)]]
    have "l1_idx virt \<noteq> i" using W table_entry_addr [OF p(2)] by (auto simp: fr)
    then have e: "frames m' r (l1_idx virt) = frames m r (l1_idx virt)" by (simp add: fr)
    then have "frames m r (l1_idx virt) AND ADDR_MASK \<in> l2_tables (frames m) r"
      using W by (auto simp: l2_tables_def)
    then have "vmm_get_pte_from_table r virt m = Some q"
      using W e fo t23 unfolding walk_Some [OF O(5)] by simp
    with n show "read_pte m' q = 0" by simp
  next
    fix a assume "a \<notin> pt_tables (frames m) r" "a \<notin> free_set (pmm_of m)"
    with p(4) show "frames m' a = frames m a" by (intro fo) (auto simp: pt_tables_def)
  qed (use tab s p(4) in auto)
qed

lemma pt_ok_grow_l3:
  assumes ok: "pt_ok r m" and t: "t \<in> l2_tables (frames m) r" and j: "\<not> has (frames m t j) PT_VALID"
    and p: "p \<noteq> 0" "p AND ADDR_MASK = p" "p \<notin> pt_tables (frames m) r" "p \<in> free_set (pmm_of m)"
    and s: "pmm_inv (pmm_of m')" "free_set (pmm_of m') = free_set (pmm_of m) - {p}" "p \<notin> free_set (pmm_of m')"
    and f: "frames m' = (frames m)(p := (\<lambda>_. 0), t := (frames m t)(j := p OR 3))"
  shows "pt_ok r m'" "pt_grow r m m'" "has (frames m' t j) PT_VALID"
    "frames m' r = frames m r"
proof -
  note O = pt_okD [OF ok] and A = pt_tree_add_l3 [OF pt_okD(2) [OF ok] t j p(3,2), folded f]
  have tab: "pt_tables (frames m') r = insert p (pt_tables (frames m) r)"
    by (auto simp: pt_tables_def A)
  show "pt_ok r m'"
    using O A(3) s p(1) unfolding pt_ok_def tab by auto
  have ne: "p \<noteq> r" "p \<noteq> t" "t \<noteq> r" "p \<notin> l2_tables (frames m) r" "p \<notin> l3_tables (frames m) r"
    "t \<notin> l3_tables (frames m) r"
    using p(3) t O(2) by (auto simp: pt_tables_def pt_tree_def)
  have ft: "frames m' t = (frames m t)(j := p OR 3)" "frames m' p = (\<lambda>_. 0)"
    and fo: "\<And>u. u \<noteq> t \<Longrightarrow> u \<noteq> p \<Longrightarrow> frames m' u = frames m u"
    using ne by (auto simp: f)
  show "has (frames m' t j) PT_VALID" by (simp add: ft)
  show fr: "frames m' r = frames m r" using ne fo by metis
  have e2: "frames m' u k = frames m u k"
    if "u \<in> l2_tables (frames m) r" "\<not> (u = t \<and> k = j)" for u k
    using that ne fo [of u] by (cases "u = t"; cases "u = p") (auto simp: ft)
  show "pt_grow r m m'"
  proof (rule pt_growI)
    fix virt q assume w: "vmm_get_pte_from_table r virt m = Some q"
    note W = w [unfolded walk_Some [OF O(5)]] and L = walk_in_l3 [OF O(5) w]
    have "frames m' (frames m r (l1_idx virt) AND ADDR_MASK) (l2_idx virt) =
        frames m (frames m r (l1_idx virt) AND ADDR_MASK) (l2_idx virt)"
      by (rule e2 [OF L(3)]) (use W j in auto)
    moreover have "frames m' (fst q) = frames m (fst q)"
      by (rule fo) (use ne L(1) in auto)
    ultimately show "vmm_get_pte_from_table r virt m' = Some q \<and> read_pte m' q = read_pte m q"
      using W unfolding walk_Some [OF O(5)] read_pte_def fr by simp
  next
    fix virt q assume n: "vmm_get_pte_from_table r virt m = None" and w: "vmm_get_pte_from_table r virt m' = Some q"
    note W = w [unfolded walk_Some [OF O(5)] fr]
    let ?u = "frames m r (l1_idx virt) AND ADDR_MASK"
    have u: "?u \<in> l2_tables (frames m) r" using W by (auto simp: l2_tables_def)
    have "?u = t \<and> l2_idx virt = j"
    proof (rule ccontr)
      assume "\<not> (?u = t \<and> l2_idx virt = j)"
      from e2 [OF u this] W have "vmm_get_pte_from_table r virt m = Some q"
        unfolding walk_Some [OF O(5)] by simp
      with n show False by simp
    qed
    then show "read_pte m' q = 0" using W table_entry_addr [OF p(2)] by (simp add: ft read_pte_def)
  next
    fix a assume "a \<notin> pt_tables (frames m) r" "a \<notin> free_set (pmm_of m)"
    with p(4) t show "frames m' a = frames m a" by (intro fo) (auto simp: pt_tables_def)
  qed (use tab s p(4) in auto)
qed

lemma ensure_l1:
  assumes ok: "pt_ok r m" and e: "ensure_table r i m = (b, m')"
  shows "pt_ok r m' \<and> pt_grow r m m' \<and> (b \<longrightarrow> has (frames m' r i) PT_VALID) \<and>
    (\<not> b \<longrightarrow> m' = m \<and> free_set (pmm_of m) = {})"
proof (cases "has (read_pte m (r, i)) PT_VALID")
  case True
  with e ok show ?thesis by (auto simp: ensure_table_valid read_pte_def)
next
  case False
  note O = pt_okD [OF ok]
  have "r \<in> pt_tables (frames m) r" by (simp add: pt_tables_def)
  note N = ensure_table_new [OF O(1,4) this False e]
  have i: "\<not> has (frames m r i) PT_VALID" using False by (simp add: read_pte_def)
  show ?thesis
  proof (cases b)
    case True
    then show ?thesis using N pt_ok_grow_l2 [OF ok i _ _ _ _ N(1)] by auto
  next
    case False
    with N(2) ok show ?thesis by simp
  qed
qed

lemma ensure_l2:
  assumes ok: "pt_ok r m" and t: "t \<in> l2_tables (frames m) r" and e: "ensure_table t j m = (b, m')"
  shows "pt_ok r m' \<and> pt_grow r m m' \<and> (b \<longrightarrow> has (frames m' t j) PT_VALID) \<and>
    frames m' r = frames m r \<and> (\<not> b \<longrightarrow> m' = m \<and> free_set (pmm_of m) = {})"
proof (cases "has (read_pte m (t, j)) PT_VALID")
  case True
  with e ok show ?thesis by (auto simp: ensure_table_valid read_pte_def)
next
  case False
  note O = pt_okD [OF ok]
  have "t \<in> pt_tables (frames m) r" using t by (simp add: pt_tables_def)
  note N = ensure_table_new [OF O(1,4) this False e]
  have j: "\<not> has (frames m t j) PT_VALID" using False by (simp add: read_pte_def)
  show ?thesis
  proof (cases b)
    case True
    then show ?thesis using N pt_ok_grow_l3 [OF ok t j _ _ _ _ N(1)] by auto
  next
    case False
    with N(2) ok show ?thesis by simp
  qed
qed

subsection \<open>The allocating walk\<close>

lemma walk_alloc:
  assumes ok: "pt_ok r m" and w: "vmm_get_pte_from_table_alloc r virt m = (res, m')"
  shows "pt_ok r m'" "pt_grow r m m'"
    and "res = None \<Longrightarrow> free_set (pmm_of m') = {}"
    and "res = Some q \<Longrightarrow> vmm_get_pte_from_table r virt m' = Some q"
proof -
  note O = pt_okD [OF ok]
  obtain b1 m1 where e1: "ensure_table r (l1_idx virt) m = (b1, m1)" by (cases "ensure_table r (l1_idx virt) m")
  note E1 = ensure_l1 [OF ok e1]
  define t where "t = frames m1 r (l1_idx virt) AND ADDR_MASK"
  obtain b2 m2 where e2: "ensure_table t (l2_idx virt) m1 = (b2, m2)" by (cases "ensure_table t (l2_idx virt) m1")
  have *: "pt_ok r m' \<and> pt_grow r m m' \<and> (res = None \<longrightarrow> free_set (pmm_of m') = {}) \<and>
        (res = Some q \<longrightarrow> vmm_get_pte_from_table r virt m' = Some q)"
  proof (cases b1)
    case False
    then have "res = None" "m' = m1" using w e1 O(5) by (auto simp: vmm_get_pte_from_table_alloc_def)
    with E1 False show ?thesis by auto
  next
    case True
    then have t: "t \<in> l2_tables (frames m1) r" using E1 by (auto simp: t_def l2_tables_def)
    have E2: "pt_ok r m2 \<and> pt_grow r m1 m2 \<and> (b2 \<longrightarrow> has (frames m2 t (l2_idx virt)) PT_VALID) \<and>
        frames m2 r = frames m1 r \<and> (\<not> b2 \<longrightarrow> m2 = m1 \<and> free_set (pmm_of m1) = {})"
      using ensure_l2 [OF _ t e2] E1 by blast
    then have g: "pt_grow r m m2" using E1 pt_grow_trans by blast
    have "m' = m2 \<and> res = (if b2 then Some (frames m2 t (l2_idx virt) AND ADDR_MASK, l3_idx virt) else None)"
      using w e1 e2 O(5) True by (auto simp: vmm_get_pte_from_table_alloc_def t_def read_pte_def)
    with E2 g True E1 show ?thesis
      unfolding walk_Some [OF O(5)] t_def by auto
  qed
  then show "pt_ok r m'" "pt_grow r m m'" "res = None \<Longrightarrow> free_set (pmm_of m') = {}"
    "res = Some q \<Longrightarrow> vmm_get_pte_from_table r virt m' = Some q" by auto
qed

text \<open>Writing a leaf entry changes that one translation only.\<close>

lemma write_leaf_tree:
  assumes T: "pt_tree (frames m) r" and r: "r \<noteq> 0" and w: "vmm_get_pte_from_table r virt m = Some q"
  shows "pt_tree (frames (write_pte q v m)) r"
    and "pt_tables (frames (write_pte q v m)) r = pt_tables (frames m) r"
    and "vmm_get_pte_from_table r virt' (write_pte q v m) = vmm_get_pte_from_table r virt' m"
    and "read_pte (write_pte q v m) q = v"
    and "q' \<noteq> q \<Longrightarrow> read_pte (write_pte q v m) q' = read_pte m q'"
proof -
  note L = walk_in_l3 [OF r w]
  let ?f = "(frames m)(fst q := (frames m (fst q))(snd q := v))"
  note W = pt_tree_leaf_write [OF T disjI1 [OF L(1)], of "(frames m (fst q))(snd q := v)"]
  have fr: "frames (write_pte q v m) = ?f" "pmm_of (write_pte q v m) = pmm_of m"
    by (simp_all add: write_pte_def)
  show "pt_tree (frames (write_pte q v m)) r" unfolding fr by (rule W)
  show "pt_tables (frames (write_pte q v m)) r = pt_tables (frames m) r"
    unfolding fr pt_tables_def W by simp
  have ne: "fst q \<noteq> r" "fst q \<notin> l2_tables (frames m) r" using L(1) T by (auto simp: pt_tree_def)
  have "frames m r (l1_idx virt') AND ADDR_MASK \<noteq> fst q" if "has (frames m r (l1_idx virt')) PT_VALID"
    using that ne(2) by (auto simp: l2_tables_def)
  then show "vmm_get_pte_from_table r virt' (write_pte q v m) = vmm_get_pte_from_table r virt' m"
    using ne(1) by (auto simp: vmm_get_pte_from_table_def read_pte_def fr Let_def)
  show "read_pte (write_pte q v m) q = v" by (simp add: read_pte_def fr)
  show "q' \<noteq> q \<Longrightarrow> read_pte (write_pte q v m) q' = read_pte m q'"
    by (auto simp: read_pte_def fr prod_eq_iff)
qed

lemma write_leaf:
  assumes ok: "pt_ok r m" and w: "vmm_get_pte_from_table r virt m = Some q"
  shows "pt_ok r (write_pte q v m)"
    and "vmm_get_pte_from_table r virt' (write_pte q v m) = vmm_get_pte_from_table r virt' m"
    and "read_pte (write_pte q v m) q = v"
    and "q' \<noteq> q \<Longrightarrow> read_pte (write_pte q v m) q' = read_pte m q'"
proof -
  note O = pt_okD [OF ok]
  note W = write_leaf_tree [OF O(2,5) w, where v = v]
  have "pmm_of (write_pte q v m) = pmm_of m" by (simp add: write_pte_def)
  then show "pt_ok r (write_pte q v m)" using O W(1,2) by (simp add: pt_ok_def)
qed (rule write_leaf_tree [OF pt_okD(2,5) [OF ok] w], assumption?)+

subsection \<open>Kernel mappings\<close>

text \<open>On a well-formed tree \<open>vmm_get_pte\<close> is the allocating walk of the root table.\<close>

lemma get_next_table_root:
  assumes ok: "pt_ok r m" and g: "get_next_table r i m = (t, m1)"
  obtains b where "ensure_table r i m = (b, m1)" "t = (if b then read_pte m1 (r, i) AND ADDR_MASK else 0)"
    "b \<longleftrightarrow> t \<noteq> 0" "b \<longrightarrow> t \<in> l2_tables (frames m1) r" "pt_ok r m1"
proof -
  obtain b m' where e: "ensure_table r i m = (b, m')" by (cases "ensure_table r i m")
  with g have t: "t = (if b then read_pte m1 (r, i) AND ADDR_MASK else 0)" "m' = m1"
    by (auto simp: get_next_table_ensure [OF pt_okD(1) [OF ok]])
  note E = ensure_l1 [OF ok e]
  have l2: "t \<in> l2_tables (frames m1) r" if b
    using E that t by (auto simp: l2_tables_def read_pte_def)
  have "b \<longleftrightarrow> t \<noteq> 0"
    using l2 E pt_okD(3) t by (auto simp: pt_tables_def)
  with that e t l2 E show ?thesis by blast
qed

lemma vmm_get_pte_alloc:
  assumes ok: "pt_ok (root_table m) m"
  shows "vmm_get_pte virt b m = vmm_get_pte_from_table_alloc (root_table m) virt m"
proof -
  let ?r = "root_table m"
  obtain t m1 where g: "get_next_table ?r (l1_idx virt) m = (t, m1)"
    by (cases "get_next_table ?r (l1_idx virt) m")
  from ok g obtain b1 where b1: "ensure_table ?r (l1_idx virt) m = (b1, m1)"
    "t = (if b1 then read_pte m1 (?r, l1_idx virt) AND ADDR_MASK else 0)" "b1 \<longleftrightarrow> t \<noteq> 0"
    "b1 \<longrightarrow> t \<in> l2_tables (frames m1) ?r" "pt_ok ?r m1"
    by (rule get_next_table_root)
  obtain b2 m2 where e2: "ensure_table t (l2_idx virt) m1 = (b2, m2)"
    by (cases "ensure_table t (l2_idx virt) m1")
  have "read_pte m2 (t, l2_idx virt) AND ADDR_MASK \<noteq> 0" if b1 b2
  proof -
    have t2: "t \<in> l2_tables (frames m1) ?r" using b1(4) that(1) by simp
    note E = ensure_l2 [OF b1(5) t2 e2]
    have "l2_tables (frames m2) ?r = l2_tables (frames m1) ?r" using E by (simp add: l2_tables_def)
    with t2 E that(2) have "frames m2 t (l2_idx virt) AND ADDR_MASK \<in> l3_tables (frames m2) ?r"
      unfolding l3_tables_def by blast
    moreover have "0 \<notin> pt_tables (frames m2) ?r" using pt_okD(3) E by blast
    ultimately show ?thesis unfolding pt_tables_def read_pte_def by auto
  qed
  moreover have "get_next_table t (l2_idx virt) m1 = (if b2 then read_pte m2 (t, l2_idx virt) AND ADDR_MASK else 0, m2)"
    using get_next_table_ensure [OF pt_okD(1) [OF b1(5)]] e2 by simp
  ultimately have g2: "get_next_table t (l2_idx virt) m1 =
      (if b2 then read_pte m2 (t, l2_idx virt) AND ADDR_MASK else 0, m2)"
    and nz: "b1 \<Longrightarrow> b2 \<Longrightarrow> read_pte m2 (t, l2_idx virt) AND ADDR_MASK \<noteq> 0" by blast+
  have r: "?r \<noteq> 0" by (rule pt_okD(5) [OF ok])
  have W: "vmm_get_pte virt b m = (if t = 0 then (None, m1) else if b2 \<and> read_pte m2 (t, l2_idx virt) AND ADDR_MASK \<noteq> 0
      then (Some (read_pte m2 (t, l2_idx virt) AND ADDR_MASK, l3_idx virt), m2) else (None, m2))"
    using r by (simp add: vmm_get_pte_def g g2)
  have A: "vmm_get_pte_from_table_alloc ?r virt m = (if b1 then if b2
      then (Some (read_pte m2 (t, l2_idx virt) AND ADDR_MASK, l3_idx virt), m2) else (None, m2) else (None, m1))"
  proof (cases b1)
    case True
    then have "read_pte m1 (?r, l1_idx virt) AND ADDR_MASK = t" using b1(2) by simp
    with True r b1(1) e2 show ?thesis by (simp add: vmm_get_pte_from_table_alloc_def)
  next
    case False
    with r b1(1) show ?thesis by (simp add: vmm_get_pte_from_table_alloc_def)
  qed
  show ?thesis unfolding W A using b1(3) nz by auto
qed

lemma vmm_map_page_alt:
  assumes ok: "pt_ok (root_table m) m"
  shows "vmm_map_page virt phys flags m =
    (case vmm_get_pte_from_table_alloc (root_table m) virt (m\<lparr>vmm_lock := True\<rparr>) of
       (None, m') \<Rightarrow> m'
     | (Some q, m') \<Rightarrow> (write_pte q (map_entry phys flags) m')\<lparr>vmm_lock := False\<rparr>)"
proof -
  have ok': "pt_ok (root_table (m\<lparr>vmm_lock := True\<rparr>)) (m\<lparr>vmm_lock := True\<rparr>)"
    using ok by (simp add: pt_ok_def)
  then show ?thesis
    unfolding vmm_map_page_def vmm_get_pte_alloc [OF ok', of virt False, symmetric, simplified]
    using pt_okD(5) [OF ok] by (simp add: vmm_get_pte_def Let_def split: prod.splits)
qed

lemma ensure_table_fields:
  "ensure_table t i m = (b, m') \<Longrightarrow> vmm_lock m' = vmm_lock m \<and> root_table m' = root_table m"
  by (auto simp: ensure_table_def alloc_frame_def write_pte_def memset_zero_page_def Let_def
      split: prod.splits if_splits)

lemma walk_alloc_fields:
  "vmm_get_pte_from_table_alloc r virt m = (q, m') \<Longrightarrow>
     vmm_lock m' = vmm_lock m \<and> root_table m' = root_table m"
  by (auto simp: vmm_get_pte_from_table_alloc_def Let_def split: prod.splits if_splits
      dest!: ensure_table_fields)

subsection \<open>Page numbers\<close>

definition vpn :: "u64 \<Rightarrow> nat" where
  "vpn virt = (unat virt div 4096) mod 2 ^ 27"

lemma unat_idx:
  "unat (l1_idx v) = unat v div 2 ^ 30 mod 512" "unat (l2_idx v) = unat v div 2 ^ 21 mod 512"
  "unat (l3_idx v) = unat v div 2 ^ 12 mod 512"
  by (simp_all add: l1_idx_def l2_idx_def l3_idx_def unat_drop_bit unsigned_ucast_eq take_bit_eq_mod)

lemma digit_eq:
  fixes a a' b b' n :: nat
  assumes "b < n" "b' < n"
  shows "n * a + b = n * a' + b' \<longleftrightarrow> a = a' \<and> b = b'"
proof
  assume eq: "n * a + b = n * a' + b'"
  have "(n * a + b) div n = a" "(n * a' + b') div n = a'" using assms by simp_all
  with eq show "a = a' \<and> b = b'" by simp
qed simp

lemma vpn_idx: "vpn v = vpn w \<longleftrightarrow> l1_idx v = l1_idx w \<and> l2_idx v = l2_idx w \<and> l3_idx v = l3_idx w"
proof -
  have split: "a mod 2 ^ 27 = 512 * (512 * (a div 512 div 512 mod 512) + a div 512 mod 512) + a mod 512"
    for a :: nat
  proof -
    have "a mod (512 * (512 * 512)) = 512 * (a div 512 mod (512 * 512)) + a mod 512"
      by (rule mod_mult2_eq)
    also have "a div 512 mod (512 * 512) = 512 * (a div 512 div 512 mod 512) + a div 512 mod 512"
      by (rule mod_mult2_eq)
    finally show ?thesis by simp
  qed
  have v: "vpn v = 512 * (512 * unat (l1_idx v) + unat (l2_idx v)) + unat (l3_idx v)" for v
    unfolding vpn_def split unat_idx by (simp add: div_mult2_eq [symmetric])
  have b: "unat (l1_idx v) < 512" "unat (l2_idx v) < 512" "unat (l3_idx v) < 512" for v
    unfolding unat_idx by simp_all
  have "vpn v = vpn w \<longleftrightarrow> unat (l1_idx v) = unat (l1_idx w) \<and> unat (l2_idx v) = unat (l2_idx w) \<and>
      unat (l3_idx v) = unat (l3_idx w)"
    unfolding v digit_eq [OF b(3) b(3)] digit_eq [OF b(2) b(2)] by blast
  then show ?thesis by (simp add: word_unat_eq_iff)
qed

lemma walk_inj_vpn_tree:
  assumes "pt_tree (frames m) r" "r \<noteq> 0"
    "vmm_get_pte_from_table r v m = Some q" "vmm_get_pte_from_table r w m = Some q"
  shows "vpn v = vpn w"
  using walk_inj [OF assms] by (simp add: vpn_idx)

lemma walk_inj_vpn:
  assumes "pt_ok r m" "vmm_get_pte_from_table r v m = Some q" "vmm_get_pte_from_table r w m = Some q"
  shows "vpn v = vpn w"
  using walk_inj [OF pt_okD(2,5) [OF assms(1)] assms(2,3)] by (simp add: vpn_idx)

lemma walk_vpn_cong:
  assumes "vpn v = vpn w"
  shows "vmm_get_pte_from_table r v m = vmm_get_pte_from_table r w m"
  using assms by (simp add: vpn_idx vmm_get_pte_from_table_def Let_def)

text \<open>
  The leaf entry of a page, 0 where a table is missing: the translation that the hardware
  sees. The allocating walk does not change it, a write to a leaf changes it for one page.
\<close>

definition entry_of :: "u64 \<Rightarrow> pmem \<Rightarrow> u64 \<Rightarrow> u64" where
  "entry_of r m v = (case vmm_get_pte_from_table r v m of None \<Rightarrow> 0 | Some q \<Rightarrow> read_pte m q)"

lemma entry_of_frames: "frames m = frames m' \<Longrightarrow> entry_of r m v = entry_of r m' v"
  by (simp add: entry_of_def vmm_get_pte_from_table_def read_pte_def Let_def)

lemma entry_of_Some: "vmm_get_pte_from_table r v m = Some q \<Longrightarrow> entry_of r m v = read_pte m q"
  by (simp add: entry_of_def)

lemma entry_of_grow:
  assumes "pt_grow r m m'"
  shows "entry_of r m' v = entry_of r m v"
proof (cases "vmm_get_pte_from_table r v m")
  case None
  with pt_growD(3) [OF assms None] show ?thesis
    by (cases "vmm_get_pte_from_table r v m'") (simp_all add: entry_of_def)
next
  case (Some q)
  with pt_growD(1,2) [OF assms Some] show ?thesis by (simp add: entry_of_def)
qed

lemma entry_of_vpn:
  assumes "vpn v = vpn w"
  shows "entry_of r m v = entry_of r m w"
  unfolding entry_of_def walk_vpn_cong [OF assms] by (rule refl)

lemma entry_of_write:
  assumes T: "pt_tree (frames m) r" "r \<noteq> 0" and w: "vmm_get_pte_from_table r v m = Some q"
  shows "entry_of r (write_pte q x m) v' = (if vpn v' = vpn v then x else entry_of r m v')"
proof (cases "vmm_get_pte_from_table r v' m")
  case None
  then have "vpn v' \<noteq> vpn v" using w walk_vpn_cong [of v' v r m] by auto
  with None show ?thesis by (simp add: entry_of_def write_leaf_tree(3) [OF T w])
next
  case (Some q')
  show ?thesis
  proof (cases "vpn v' = vpn v")
    case True
    then have "q' = q" using Some w walk_vpn_cong [of v' v r m] by auto
    with True Some show ?thesis by (simp add: entry_of_def write_leaf_tree(3,4) [OF T w])
  next
    case False
    then have "q' \<noteq> q" using walk_inj_vpn_tree [OF T Some] w by metis
    with False Some show ?thesis by (simp add: entry_of_def write_leaf_tree(3,5) [OF T w])
  qed
qed

lemma mod_times_div:
  fixes x a b :: nat
  assumes "0 < a"
  shows "x mod (a * b) div a = (x div a) mod b"
  using assms by (simp add: mod_mult2_eq)

lemma vpn_add: "vpn (v + of_nat (k * 4096)) = (vpn v + k) mod 2 ^ 27"
proof -
  have "unat (v + of_nat (k * 4096)) div 4096 = ((unat v + k * 4096) mod (4096 * 2 ^ 52)) div 4096"
    by (simp only: unat_word_ariths(1) unat_of_nat mod_add_right_eq) simp
  also have "\<dots> = (unat v div 4096 + k) mod 2 ^ 52"
    unfolding mod_times_div [OF zero_less_numeral] by (simp add: add.commute)
  finally show ?thesis
    unfolding vpn_def by (simp add: mod_mod_cancel mod_add_left_eq)
qed

lemma lock_irrelevant [simp]:
  "pt_ok r (m\<lparr>vmm_lock := b\<rparr>) = pt_ok r m"
  "vmm_get_pte_from_table r v (m\<lparr>vmm_lock := b\<rparr>) = vmm_get_pte_from_table r v m"
  "read_pte (m\<lparr>vmm_lock := b\<rparr>) q = read_pte m q"
  by (simp_all add: pt_ok_def vmm_get_pte_from_table_def read_pte_def Let_def)

lemma finite_free_set [simp]: "finite (free_set s)"
  by (simp add: free_set_def)

lemma ensure_table_card:
  assumes "pmm_inv (pmm_of m)" "ensure_table t i m = (b, m')"
  shows "card (free_set (pmm_of m)) \<le> card (free_set (pmm_of m')) + 1 \<and> pmm_inv (pmm_of m')"
proof -
  obtain a s where a: "pmm_alloc_frame (pmm_of m) = (a, s)" by (cases "pmm_alloc_frame (pmm_of m)")
  have "card (free_set (pmm_of m)) \<le> card (free_set s) + 1 \<and> pmm_inv s"
    using pf.alloc_fails [OF assms(1)] pf.alloc_frame [OF assms(1) a] a assms(1)
    by (cases "a = 0") (auto simp: card_Diff_singleton_if)
  with assms a show ?thesis
    by (auto simp: ensure_table_def alloc_frame_def write_pte_def memset_zero_page_def Let_def split: if_splits)
qed

lemma walk_alloc_card:
  assumes "pmm_inv (pmm_of m)" "vmm_get_pte_from_table_alloc r virt m = (q, m')"
  shows "card (free_set (pmm_of m)) \<le> card (free_set (pmm_of m')) + 2"
  using assms
  by (fastforce simp: vmm_get_pte_from_table_alloc_def Let_def split: prod.splits if_splits
      dest: ensure_table_card)

lemma walk_alloc_present:
  assumes "r \<noteq> 0" "vmm_get_pte_from_table r virt m = Some q"
  shows "vmm_get_pte_from_table_alloc r virt m = (Some q, m)"
  using assms unfolding walk_Some [OF assms(1)]
  by (simp add: vmm_get_pte_from_table_alloc_def ensure_table_def read_pte_def)

lemma map_page_step:
  assumes ok: "pt_ok (root_table m) m" and m': "m' = vmm_map_page virt phys flags m"
  defines "r \<equiv> root_table m"
  shows "root_table m' = r" "pt_ok r m'"
    and "vmm_lock m' \<Longrightarrow> free_set (pmm_of m') = {} \<and> vmm_get_pte_from_table r virt m = None"
    and "\<not> vmm_lock m' \<Longrightarrow> \<exists>q. vmm_get_pte_from_table r virt m' = Some q \<and> read_pte m' q = map_entry phys flags"
    and "vpn v \<noteq> vpn virt \<Longrightarrow> vmm_get_pte_from_table r v m = Some q' \<Longrightarrow>
      vmm_get_pte_from_table r v m' = Some q' \<and> read_pte m' q' = read_pte m q'"
    and "card (free_set (pmm_of m)) \<le> card (free_set (pmm_of m')) + 2"
proof -
  let ?m = "m\<lparr>vmm_lock := True\<rparr>"
  obtain res n where w: "vmm_get_pte_from_table_alloc r virt ?m = (res, n)"
    by (cases "vmm_get_pte_from_table_alloc r virt ?m")
  have ok': "pt_ok r ?m" using ok by (simp add: r_def)
  note A = walk_alloc [OF ok' w] and F = walk_alloc_fields [OF w] and D = pt_growD [OF walk_alloc(2) [OF ok' w]]
  have alt: "m' = (case res of None \<Rightarrow> n | Some q \<Rightarrow> (write_pte q (map_entry phys flags) n)\<lparr>vmm_lock := False\<rparr>)"
    using vmm_map_page_alt [OF ok, of virt phys flags] w m' by (simp add: r_def split: option.splits)
  have c: "card (free_set (pmm_of m)) \<le> card (free_set (pmm_of n)) + 2"
    using walk_alloc_card [OF _ w] pt_okD(1) [OF ok'] by simp
  show "root_table m' = r" using F by (simp add: alt write_pte_def r_def split: option.splits)
  show "card (free_set (pmm_of m)) \<le> card (free_set (pmm_of m')) + 2"
    using c by (simp add: alt write_pte_def split: option.splits)
  have leaf: "vmm_get_pte_from_table r virt n = Some q" if "res = Some q" for q
    using A(4) that by blast
  note WL = write_leaf [OF A(1) leaf]
  show "pt_ok r m'" using A(1) WL(1) by (simp add: alt split: option.splits)
  show "free_set (pmm_of m') = {} \<and> vmm_get_pte_from_table r virt m = None" if "vmm_lock m'"
  proof -
    have "res = None" using that by (auto simp: alt split: option.splits)
    moreover have "vmm_get_pte_from_table r virt ?m = None"
      using walk_alloc_present [OF pt_okD(5) [OF ok'], of virt ?m] w calculation
      by (cases "vmm_get_pte_from_table r virt m") auto
    ultimately show ?thesis using A(3) by (simp add: alt)
  qed
  show "\<exists>q. vmm_get_pte_from_table r virt m' = Some q \<and> read_pte m' q = map_entry phys flags" if nl: "\<not> vmm_lock m'"
  proof -
    obtain q where q: "res = Some q" using nl F by (cases res) (auto simp: alt)
    then show ?thesis using WL(2,3) [OF q] leaf [OF q] by (simp add: alt)
  qed
  show "vmm_get_pte_from_table r v m' = Some q' \<and> read_pte m' q' = read_pte m q'"
    if v: "vpn v \<noteq> vpn virt" "vmm_get_pte_from_table r v m = Some q'"
  proof -
    have n: "vmm_get_pte_from_table r v n = Some q'" "read_pte n q' = read_pte m q'"
      using D(1,2) [of v q'] v(2) by simp_all
    show ?thesis
    proof (cases res)
      case None
      with n show ?thesis by (simp add: alt)
    next
      case (Some q)
      have "q' \<noteq> q" using walk_inj_vpn [OF A(1) leaf [OF Some] ] n(1) v(1) by metis
      with n WL(2,4) [OF Some] Some show ?thesis by (simp add: alt)
    qed
  qed
qed

lemma mod_add_inj:
  fixes x i k n :: nat
  assumes "(x + i) mod n = (x + k) mod n" "i < n" "k < n"
  shows "i = k"
proof -
  have *: "i = k" if "i \<le> k" "(x + k) mod n = (x + i) mod n" "k < n" for i k
  proof -
    have "n dvd (x + k) - (x + i)"
      using that mod_eq_dvd_iff_nat [of "x + i" "x + k" n] by simp
    then have "n dvd k - i" by simp
    with that show "i = k" by (auto dest: dvd_imp_le)
  qed
  show ?thesis using *[of i k] *[of k i] assms by (cases "i \<le> k") auto
qed

lemma region_pages_distinct:
  "i < 2 ^ 27 \<Longrightarrow> k < 2 ^ 27 \<Longrightarrow> i \<noteq> k \<Longrightarrow> vpn (virt + of_nat (i * 4096)) \<noteq> vpn (virt + of_nat (k * 4096))"
  unfolding vpn_add using mod_add_inj [of "vpn virt" i "2 ^ 27" k] by blast

definition region_mapped :: "u64 \<Rightarrow> u64 \<Rightarrow> u64 \<Rightarrow> nat \<Rightarrow> pmem \<Rightarrow> bool" where
  "region_mapped virt phys flags n m \<longleftrightarrow>
     (\<forall>i<n. \<exists>q. vmm_get_pte_from_table (root_table m) (virt + of_nat (i * 4096)) m = Some q \<and>
        read_pte m q = map_entry (phys + of_nat (i * 4096)) flags)"

lemma region_mapped_step:
  assumes ok: "pt_ok (root_table m) m" and R: "region_mapped virt phys flags k m" and k: "k < 2 ^ 27"
    and m': "m' = vmm_map_page (virt + of_nat (k * 4096)) (phys + of_nat (k * 4096)) flags m" "\<not> vmm_lock m'"
  shows "region_mapped virt phys flags (Suc k) m'"
  unfolding region_mapped_def
proof (intro allI impI)
  fix i assume i: "i < Suc k"
  note S = map_page_step [OF ok m'(1)]
  show "\<exists>q. vmm_get_pte_from_table (root_table m') (virt + of_nat (i * 4096)) m' = Some q \<and>
      read_pte m' q = map_entry (phys + of_nat (i * 4096)) flags"
  proof (cases "i = k")
    case True
    then show ?thesis using S(4) [OF m'(2)] S(1) by simp
  next
    case False
    with i have "i < k" by simp
    with R obtain q where q: "vmm_get_pte_from_table (root_table m) (virt + of_nat (i * 4096)) m = Some q"
      "read_pte m q = map_entry (phys + of_nat (i * 4096)) flags"
      unfolding region_mapped_def by blast
    have "vpn (virt + of_nat (i * 4096)) \<noteq> vpn (virt + of_nat (k * 4096))"
      using False i k by (intro region_pages_distinct) auto
    from S(5) [OF this q(1)] q(2) S(1) show ?thesis by simp
  qed
qed

text \<open>
  The region loop from page \<open>k\<close> on: with more than two free frames for each page left it
  ends, and every page of the region is mapped.
\<close>

lemma map_region_loop:
  assumes "pt_ok (root_table m) m" "\<not> vmm_lock m" "unat sz \<le> 2 ^ 39"
    "2 * (N - k) < card (free_set (pmm_of m))"
    "N = (unat sz + 4095) div 4096" "k \<le> N" "region_mapped virt phys flags k m"
  shows "\<exists>m'. vmm_map_region_loop virt phys sz flags (of_nat (k * 4096)) m = Some m' \<and>
    pt_ok (root_table m') m' \<and> \<not> vmm_lock m' \<and> root_table m' = root_table m \<and>
    region_mapped virt phys flags N m'"
  using assms
proof (induction "N - k" arbitrary: k m)
  case 0
  then have kN: "k = N" by simp
  have "unat (of_nat (k * 4096) :: u64) = k * 4096"
    using 0 by (intro of_nat_unat_less) auto
  moreover have "unat sz \<le> k * 4096" using 0 kN by auto
  ultimately have "\<not> of_nat (k * 4096) < sz" by (simp only: word_less_nat_alt not_less)
  with 0 kN show ?case by (subst vmm_map_region_loop.simps) simp
next
  case (Suc d)
  then have kN: "k < N" "N \<le> 2 ^ 27" by auto
  define m1 where "m1 = vmm_map_page (virt + of_nat (k * 4096)) (phys + of_nat (k * 4096)) flags m"
  note S = map_page_step [OF Suc.prems(1) m1_def]
  have u: "unat (of_nat (k * 4096) :: u64) = k * 4096" using kN by (intro of_nat_unat_less) auto
  have "k * 4096 < unat sz" using kN(1) Suc.prems(5) by auto
  with u have lt: "of_nat (k * 4096) < sz" by (simp only: word_less_nat_alt)
  have c: "2 * (N - Suc k) < card (free_set (pmm_of m1))"
    using S(6) Suc.prems(4) kN(1) by linarith
  then have nl: "\<not> vmm_lock m1" using S(3) by auto
  have "vmm_map_region_loop virt phys sz flags (of_nat (k * 4096)) m =
      vmm_map_region_loop virt phys sz flags (of_nat (k * 4096) + PAGE_SIZE) m1"
    using lt Suc.prems(2) by (subst vmm_map_region_loop.simps) (simp add: m1_def)
  also have "of_nat (k * 4096) + PAGE_SIZE = of_nat (Suc k * 4096)" by simp
  finally have eq: "vmm_map_region_loop virt phys sz flags (of_nat (k * 4096)) m =
      vmm_map_region_loop virt phys sz flags (of_nat (Suc k * 4096)) m1" .
  have R: "region_mapped virt phys flags (Suc k) m1"
    using region_mapped_step [OF Suc.prems(1,7) _ m1_def nl] kN by simp
  have "\<exists>m'. vmm_map_region_loop virt phys sz flags (of_nat (Suc k * 4096)) m1 = Some m' \<and>
    pt_ok (root_table m') m' \<and> \<not> vmm_lock m' \<and> root_table m' = root_table m1 \<and>
    region_mapped virt phys flags N m'"
    by (rule Suc.hyps(1)) (use Suc.hyps(2) S(1,2) nl Suc.prems(3,5) c R kN in simp_all)
  then show ?case unfolding eq S(1) .
qed

subsection \<open>Properties\<close>

text \<open>The witnesses start from a root table in frame \<open>0x40004000\<close> of the small machine.\<close>

definition demo_pmem :: pmem where
  "demo_pmem = memset_zero_page 0x40004000
     \<lparr>frames = (\<lambda>_ _. 0xDEAD), pmm_of = snd (pmm_alloc_frame demo_pmm), vmm_lock = False,
       root_table = 0x40004000\<rparr>"

lemma demo_pmem_ok: "pt_ok 0x40004000 demo_pmem"
proof -
  have a: "pmm_alloc_frame demo_pmm = (0x40004000, pmm_of demo_pmem)"
    by (simp add: demo_pmem_def memset_zero_page_def demo_pmm_alloc)
  note A = pf.alloc_frame [OF demo_pmm_inv a]
  have f: "frames demo_pmem 0x40004000 = (\<lambda>_. 0)"
    by (simp add: demo_pmem_def memset_zero_page_def)
  then have l: "l2_tables (frames demo_pmem) 0x40004000 = {}" "l3_tables (frames demo_pmem) 0x40004000 = {}"
    by (auto simp: l2_tables_def l3_tables_def)
  show ?thesis
    unfolding pt_ok_def pt_tree_def pt_tables_def l using A f by simp
qed

lemma demo_free: "free_set (pmm_of demo_pmem) = {0x40001000, 0x40002000, 0x40003000}"
proof -
  have "free_list (pmm_of demo_pmem) = [1, 2, 3]"
    by (simp add: demo_pmem_def memset_zero_page_def demo_pmm_alloc free_list_def)
  then show ?thesis by (auto simp: free_set_def index_to_phys_def)
qed

text \<open>
  C7. The allocating walk keeps the tables a tree of held frames and every existing
  translation with its entry. The tree only grows: every frame taken from the free frames is
  now a table, every new table was a free frame, and a page that is neither a table nor free
  keeps its contents. When the walk succeeds, the plain walk finds the entry it returned
  (empty if it was missing before), and it fails only when no frame is left.
\<close>

theorem vmm_walk_alloc_correct:
  assumes "pt_ok r m" and "vmm_get_pte_from_table_alloc r virt m = (res, m')"
  shows "pt_ok r m' \<and>
    (\<forall>v q. vmm_get_pte_from_table r v m = Some q \<longrightarrow>
       vmm_get_pte_from_table r v m' = Some q \<and> read_pte m' q = read_pte m q) \<and>
    pt_tables (frames m) r \<subseteq> pt_tables (frames m') r \<and>
    pt_tables (frames m') r - pt_tables (frames m) r = free_set (pmm_of m) - free_set (pmm_of m') \<and>
    free_set (pmm_of m') \<subseteq> free_set (pmm_of m) \<and>
    (\<forall>a. a \<notin> pt_tables (frames m) r \<longrightarrow> a \<notin> free_set (pmm_of m) \<longrightarrow> frames m' a = frames m a) \<and>
    (case res of
       None \<Rightarrow> free_set (pmm_of m') = {} \<and> vmm_get_pte_from_table r virt m = None
     | Some q \<Rightarrow> vmm_get_pte_from_table r virt m' = Some q \<and>
         (vmm_get_pte_from_table r virt m = None \<longrightarrow> read_pte m' q = 0))"
proof -
  note A = walk_alloc [OF assms] and D = pt_growD [OF walk_alloc(2) [OF assms]]
  have n: "res = None \<Longrightarrow> vmm_get_pte_from_table r virt m = None"
    using walk_alloc_present [OF pt_okD(5) [OF assms(1)], of virt m] assms(2)
    by (cases "vmm_get_pte_from_table r virt m") auto
  have "pt_tables (frames m') r - pt_tables (frames m) r = free_set (pmm_of m) - free_set (pmm_of m')"
    using D(5,6,7,8) pt_okD(4) [OF assms(1)] pt_okD(4) [OF A(1)] by blast
  then show ?thesis
    using A(1) D(1,2,4,6,7) A(3) n A(4) D(3) by (cases res) simp_all
qed

theorem vmm_walk_alloc_correct_witness:
  "pt_ok 0x40004000 demo_pmem \<and>
   (let (res, m') = vmm_get_pte_from_table_alloc 0x40004000 0x5000 demo_pmem
    in pt_ok 0x40004000 m' \<and>
       (\<forall>v q. vmm_get_pte_from_table 0x40004000 v demo_pmem = Some q \<longrightarrow>
          vmm_get_pte_from_table 0x40004000 v m' = Some q \<and> read_pte m' q = read_pte demo_pmem q) \<and>
       pt_tables (frames m') 0x40004000 - pt_tables (frames demo_pmem) 0x40004000 = free_set (pmm_of demo_pmem) - free_set (pmm_of m') \<and>
       (case res of
          None \<Rightarrow> free_set (pmm_of m') = {} \<and> vmm_get_pte_from_table 0x40004000 0x5000 demo_pmem = None
        | Some q \<Rightarrow> vmm_get_pte_from_table 0x40004000 0x5000 m' = Some q \<and>
            (vmm_get_pte_from_table 0x40004000 0x5000 demo_pmem = None \<longrightarrow> read_pte m' q = 0)))"
proof -
  obtain res m' where w: "vmm_get_pte_from_table_alloc 0x40004000 0x5000 demo_pmem = (res, m')"
    by (cases "vmm_get_pte_from_table_alloc 0x40004000 0x5000 demo_pmem")
  show ?thesis using demo_pmem_ok vmm_walk_alloc_correct [OF demo_pmem_ok w]
    unfolding w by (simp only: Let_def prod.case) blast
qed

text \<open>
  The kernel walk \<open>vmm_get_pte\<close> and the walk of a user table are the same function on a
  well-formed root table, whatever \<open>vmm_get_pte\<close> is told by its parameter \<open>allocate\<close>.
\<close>

theorem vmm_get_pte_equiv:
  assumes "pt_ok (root_table m) m"
  shows "vmm_get_pte virt allocate m = vmm_get_pte_from_table_alloc (root_table m) virt m"
  using assms by (rule vmm_get_pte_alloc)

theorem vmm_get_pte_equiv_witness:
  "pt_ok (root_table demo_pmem) demo_pmem \<and>
   vmm_get_pte 0x5000 False demo_pmem = vmm_get_pte_from_table_alloc (root_table demo_pmem) 0x5000 demo_pmem"
proof -
  have "root_table demo_pmem = 0x40004000" by (simp add: demo_pmem_def memset_zero_page_def)
  then have h: "pt_ok (root_table demo_pmem) demo_pmem" using demo_pmem_ok by simp
  show ?thesis using h vmm_get_pte_equiv [OF h] by blast
qed

lemma masked_or_and:
  assumes "p AND ADDR_MASK = p" "f AND ADDR_MASK = 0"
  shows "(p OR a) AND f = a AND f"
proof -
  have "p AND f = (p AND ADDR_MASK) AND f" by (simp only: assms(1))
  also have "\<dots> = p AND (f AND ADDR_MASK)" by (simp only: and.assoc and.commute [of f])
  finally have "p AND f = 0" by (simp only: assms(2) and_zero_eq)
  then show ?thesis by (simp add: bit.conj_disj_distrib2)
qed


lemma has_numeral: "has (numeral a) f \<longleftrightarrow> numeral a AND f \<noteq> 0"
  by (simp add: has_def)

text \<open>The attribute bits of the entry, as a function of the five flags the code tests.\<close>

definition attr_of :: "bool \<Rightarrow> bool \<Rightarrow> bool \<Rightarrow> bool \<Rightarrow> bool \<Rightarrow> u64" where
  "attr_of dev usr nx cow wr =
     (0x703 OR (if dev then PT_PXN OR PT_UXN else MT_NORMAL_ATTR)) OR
     (if usr then (if nx then PT_UXN else 0) OR
        (if cow then PT_AP_RO_EL0 OR PT_SW_COW else if wr then PT_AP_RW_EL0 else PT_AP_RO_EL0)
      else PT_UXN OR (if wr then PT_AP_RW_EL1 else PT_AP_RO_EL1))"

lemma map_entry_attr:
  "map_entry phys flags = phys OR attr_of (has flags VM_DEVICE) (has flags VM_USER)
     (has flags VM_NO_EXEC) (has flags PT_SW_COW) (has flags VM_WRITABLE)"
proof -
  have r: "phys OR PT_PAGE OR PT_VALID OR PT_AF OR PT_SH_INNER = phys OR 0x703" by (simp add: or.assoc)
  show ?thesis
    unfolding map_entry_def attr_of_def Let_def r
    by (cases "has flags VM_DEVICE"; cases "has flags VM_USER"; cases "has flags VM_NO_EXEC";
        cases "has flags PT_SW_COW"; cases "has flags VM_WRITABLE";
        simp only: if_True if_False or.assoc; simp only: or.right_neutral or.left_neutral)
qed

lemma attr_of_facts:
  "attr_of dev usr nx cow wr AND ADDR_MASK = 0"
  "has (attr_of dev usr nx cow wr) PT_VALID"
  "attr_of dev usr nx cow wr AND PT_AP_RO_EL0 = PT_AP_RW_EL0 \<longleftrightarrow> usr \<and> wr \<and> \<not> cow"
  "has (attr_of dev usr nx cow wr) PT_UXN \<longleftrightarrow> \<not> usr \<or> dev \<or> nx"
  "has (attr_of dev usr nx cow wr) PT_PXN \<longleftrightarrow> dev"
  "has (attr_of dev usr nx cow wr) PT_SW_COW \<longleftrightarrow> usr \<and> cow"
  by (cases dev; cases usr; cases nx; cases cow; cases wr; simp add: attr_of_def has_numeral)+

text \<open>
  The entry built for a frame is a valid page descriptor for exactly that frame. It is
  writable from user space only for a writable user mapping that is not copy-on-write,
  kernel mappings and device mappings are never executable from user space, and device
  mappings are not executable by the kernel.
\<close>

theorem map_entry_permissions:
  assumes "phys AND ADDR_MASK = phys"
  shows "map_entry phys flags AND ADDR_MASK = phys \<and> has (map_entry phys flags) PT_VALID \<and>
    (map_entry phys flags AND PT_AP_RO_EL0 = PT_AP_RW_EL0 \<longleftrightarrow>
       has flags VM_USER \<and> has flags VM_WRITABLE \<and> \<not> has flags PT_SW_COW) \<and>
    (has (map_entry phys flags) PT_UXN \<longleftrightarrow>
       \<not> has flags VM_USER \<or> has flags VM_DEVICE \<or> has flags VM_NO_EXEC) \<and>
    (has (map_entry phys flags) PT_PXN \<longleftrightarrow> has flags VM_DEVICE) \<and>
    (has (map_entry phys flags) PT_SW_COW \<longleftrightarrow> has flags VM_USER \<and> has flags PT_SW_COW)"
proof -
  let ?attr = "attr_of (has flags VM_DEVICE) (has flags VM_USER) (has flags VM_NO_EXEC)
     (has flags PT_SW_COW) (has flags VM_WRITABLE)"
  have attr: "map_entry phys flags AND f = ?attr AND f" if "f AND ADDR_MASK = 0" for f
    using masked_or_and [OF assms that] by (simp add: map_entry_attr)
  have addr: "map_entry phys flags AND ADDR_MASK = phys"
    using assms attr_of_facts(1) by (simp add: map_entry_attr bit.conj_disj_distrib2)
  have h: "has (map_entry phys flags) f = has ?attr f" if "f AND ADDR_MASK = 0" for f
    using attr [OF that] by (simp add: has_def)
  have "has (map_entry phys flags) PT_VALID = has ?attr PT_VALID"
    "has (map_entry phys flags) PT_UXN = has ?attr PT_UXN"
    "has (map_entry phys flags) PT_PXN = has ?attr PT_PXN"
    "has (map_entry phys flags) PT_SW_COW = has ?attr PT_SW_COW"
    "map_entry phys flags AND PT_AP_RO_EL0 = ?attr AND PT_AP_RO_EL0"
    by (rule h, simp)+ (rule attr, simp)
  with addr show ?thesis by (simp only: attr_of_facts)
qed

theorem map_entry_permissions_witness:
  "(0x40001000 :: u64) AND ADDR_MASK = 0x40001000 \<and>
   map_entry 0x40001000 (VM_USER OR VM_WRITABLE) AND ADDR_MASK = 0x40001000 \<and>
   map_entry 0x40001000 (VM_USER OR VM_WRITABLE) AND PT_AP_RO_EL0 = PT_AP_RW_EL0"
proof -
  have h: "(0x40001000 :: u64) AND ADDR_MASK = 0x40001000" by simp
  show ?thesis using h map_entry_permissions [OF h, of "VM_USER OR VM_WRITABLE"] by (simp add: has_def)
qed

text \<open>
  C8. \<open>vmm_map_region\<close> of at most 512 GB, given more than two free frames for each page,
  returns with the lock free and with every page of the region mapped to its frame with
  the entry for the flags: when the frame is page aligned and below \<open>2 ^ 48\<close>, a valid entry that holds the
  frame's address, that user code can write through exactly if the flags say user, writable and
  not copy-on-write, and that it can execute exactly if they say user, not device and not no-exec.
\<close>

theorem vmm_map_region_correct:
  assumes "pt_ok (root_table m) m" and "\<not> vmm_lock m" and "unat sz \<le> 2 ^ 39"
    and "2 * ((unat sz + 4095) div 4096) < card (free_set (pmm_of m))"
  shows "\<exists>m'. vmm_map_region virt phys sz flags m = Some m' \<and> pt_ok (root_table m') m' \<and>
    \<not> vmm_lock m' \<and> root_table m' = root_table m \<and>
    (\<forall>i < (unat sz + 4095) div 4096.
       \<exists>q. vmm_get_pte_from_table (root_table m') (virt + of_nat (i * 4096)) m' = Some q \<and>
           read_pte m' q = map_entry (phys + of_nat (i * 4096)) flags \<and>
           (phys + of_nat (i * 4096) = (phys + of_nat (i * 4096)) AND ADDR_MASK \<longrightarrow>
              read_pte m' q AND ADDR_MASK = phys + of_nat (i * 4096) \<and> has (read_pte m' q) PT_VALID \<and>
              (read_pte m' q AND PT_AP_RO_EL0 = PT_AP_RW_EL0 \<longleftrightarrow>
                 has flags VM_USER \<and> has flags VM_WRITABLE \<and> \<not> has flags PT_SW_COW) \<and>
              (has (read_pte m' q) PT_UXN \<longleftrightarrow> \<not> has flags VM_USER \<or> has flags VM_DEVICE \<or> has flags VM_NO_EXEC) \<and>
              (has (read_pte m' q) PT_PXN \<longleftrightarrow> has flags VM_DEVICE)))"
proof -
  have "region_mapped virt phys flags 0 m" by (simp add: region_mapped_def)
  from map_region_loop [OF assms(1-3) _ refl le0 this] assms(4)
  obtain m' where m': "vmm_map_region virt phys sz flags m = Some m' \<and> pt_ok (root_table m') m' \<and>
    \<not> vmm_lock m' \<and> root_table m' = root_table m" "region_mapped virt phys flags ((unat sz + 4095) div 4096) m'"
    by (auto simp: vmm_map_region_def)
  show ?thesis
  proof (intro exI [of _ m'] conjI allI impI)
    fix i assume "i < (unat sz + 4095) div 4096"
    then obtain q where q: "vmm_get_pte_from_table (root_table m') (virt + of_nat (i * 4096)) m' = Some q"
      "read_pte m' q = map_entry (phys + of_nat (i * 4096)) flags" using m'(2) unfolding region_mapped_def by blast
    let ?p = "phys + of_nat (i * 4096)"
    have "has (map_entry ?p flags) PT_VALID \<and> map_entry ?p flags AND ADDR_MASK = ?p \<and>
        (map_entry ?p flags AND PT_AP_RO_EL0 = PT_AP_RW_EL0 \<longleftrightarrow> has flags VM_USER \<and> has flags VM_WRITABLE \<and> \<not> has flags PT_SW_COW) \<and>
        (has (map_entry ?p flags) PT_UXN \<longleftrightarrow> \<not> has flags VM_USER \<or> has flags VM_DEVICE \<or> has flags VM_NO_EXEC) \<and>
        (has (map_entry ?p flags) PT_PXN \<longleftrightarrow> has flags VM_DEVICE)" if "?p = ?p AND ADDR_MASK"
      using map_entry_permissions [OF that [symmetric], of flags] by blast
    then show "\<exists>q. vmm_get_pte_from_table (root_table m') (virt + of_nat (i * 4096)) m' = Some q \<and>
           read_pte m' q = map_entry ?p flags \<and>
           (?p = ?p AND ADDR_MASK \<longrightarrow>
              read_pte m' q AND ADDR_MASK = ?p \<and> has (read_pte m' q) PT_VALID \<and>
              (read_pte m' q AND PT_AP_RO_EL0 = PT_AP_RW_EL0 \<longleftrightarrow>
                 has flags VM_USER \<and> has flags VM_WRITABLE \<and> \<not> has flags PT_SW_COW) \<and>
              (has (read_pte m' q) PT_UXN \<longleftrightarrow> \<not> has flags VM_USER \<or> has flags VM_DEVICE \<or> has flags VM_NO_EXEC) \<and>
              (has (read_pte m' q) PT_PXN \<longleftrightarrow> has flags VM_DEVICE))" using q by (intro exI [of _ q]) simp
  qed (use m' in blast)+
qed

theorem vmm_map_region_correct_witness:
  "pt_ok (root_table demo_pmem) demo_pmem \<and> \<not> vmm_lock demo_pmem \<and> unat (0x1000 :: u64) \<le> 2 ^ 39 \<and>
   2 * ((unat (0x1000 :: u64) + 4095) div 4096) < card (free_set (pmm_of demo_pmem)) \<and>
   (\<exists>m'. vmm_map_region 0x9000 0x40001000 0x1000 1 demo_pmem = Some m' \<and> pt_ok (root_table m') m' \<and>
    \<not> vmm_lock m' \<and> root_table m' = root_table demo_pmem \<and>
    (\<forall>i < (unat (0x1000 :: u64) + 4095) div 4096.
       \<exists>q. vmm_get_pte_from_table (root_table m') (0x9000 + of_nat (i * 4096)) m' = Some q \<and>
           read_pte m' q = map_entry (0x40001000 + of_nat (i * 4096)) 1))"
proof -
  have r: "root_table demo_pmem = 0x40004000" by (simp add: demo_pmem_def memset_zero_page_def)
  have h: "pt_ok (root_table demo_pmem) demo_pmem" using demo_pmem_ok r by simp
  have l: "\<not> vmm_lock demo_pmem" by (simp add: demo_pmem_def memset_zero_page_def)
  have s: "unat (0x1000 :: u64) \<le> 2 ^ 39" by simp
  have c: "2 * ((unat (0x1000 :: u64) + 4095) div 4096) < card (free_set (pmm_of demo_pmem))"
    unfolding demo_free by simp
  show ?thesis using h l s c vmm_map_region_correct [OF h l s c, of "0x9000" "0x40001000" 1] by blast
qed

text \<open>
  When no frame is free and a table is missing, \<open>vmm_map_page\<close> returns with
  \<open>vmm_lock\<close> taken, so a following page of the same region waits for the lock forever.
\<close>

theorem vmm_map_page_leaks_lock:
  assumes "pt_ok (root_table m) m" and "free_set (pmm_of m) = {}" and "\<not> vmm_lock m"
    and "vmm_get_pte_from_table (root_table m) virt m = None"
  shows "vmm_lock (vmm_map_page virt phys flags m) \<and>
         vmm_map_region virt phys (2 * PAGE_SIZE) flags m = None"
proof -
  define m' where "m' = vmm_map_page virt phys flags m"
  have "vmm_get_pte_from_table (root_table m) virt m' = None" if l: "\<not> vmm_lock m'"
  proof -
    obtain res n where w: "vmm_get_pte_from_table_alloc (root_table m) virt (m\<lparr>vmm_lock := True\<rparr>) = (res, n)"
      by (cases "vmm_get_pte_from_table_alloc (root_table m) virt (m\<lparr>vmm_lock := True\<rparr>)")
    have "pmm_alloc_frame (pmm_of m) = (0, pmm_of m)"
      using pf.alloc_none_iff [OF pt_okD(1) [OF assms(1)]] pf.alloc_fails [OF pt_okD(1) [OF assms(1)]] assms(2)
      by (cases "pmm_alloc_frame (pmm_of m)") auto
    then have "res = None"
      using w assms(4) pt_okD(5) [OF assms(1)]
      by (auto simp: vmm_get_pte_from_table_alloc_def vmm_get_pte_from_table_def ensure_table_def alloc_frame_def
          read_pte_def Let_def split: if_splits)
    with l w vmm_map_page_alt [OF assms(1), of virt phys flags] walk_alloc_fields [OF w]
    show ?thesis by (simp add: m'_def)
  qed
  then have leak: "vmm_lock m'" using map_page_step(4) [OF assms(1) m'_def] by auto
  have "vmm_map_region virt phys (2 * PAGE_SIZE) flags m =
      vmm_map_region_loop virt phys (2 * PAGE_SIZE) flags PAGE_SIZE m'"
    using assms(3) by (simp add: vmm_map_region_def m'_def vmm_map_region_loop.simps [of _ _ _ _ 0])
  also have "\<dots> = None" using leak by (subst vmm_map_region_loop.simps) simp
  finally show ?thesis using leak by (simp add: m'_def)
qed

definition demo_full :: pmem where
  "demo_full = demo_pmem\<lparr>pmm_of := snd (pmm_alloc_frame (snd (pmm_alloc_frame
     (snd (pmm_alloc_frame (pmm_of demo_pmem))))))\<rparr>"

lemma demo_full_facts: "pt_ok (root_table demo_full) demo_full" "free_set (pmm_of demo_full) = {}"
  "\<not> vmm_lock demo_full" "vmm_get_pte_from_table (root_table demo_full) 0 demo_full = None"
proof -
  note K = pf.alloc_keeps [OF _ prod.collapse [symmetric]]
  have inv: "pmm_inv (pmm_of demo_full)" and sub: "free_set (pmm_of demo_full) \<subseteq> free_set (pmm_of demo_pmem)"
    using K [OF pt_okD(1) [OF demo_pmem_ok]] K by (auto simp: demo_full_def) (meson subsetD)+
  have "stack_top (pmm_of demo_full) = 0"
    by (simp add: demo_full_def demo_pmem_def memset_zero_page_def demo_pmm_alloc) code_simp
  then show e: "free_set (pmm_of demo_full) = {}" by (simp add: free_set_def free_list_def)
  have r: "root_table demo_full = 0x40004000" "frames demo_full = frames demo_pmem"
    by (simp_all add: demo_full_def) (simp add: demo_pmem_def memset_zero_page_def)
  show "pt_ok (root_table demo_full) demo_full"
    using pt_okD(2,3) [OF demo_pmem_ok] inv e unfolding pt_ok_def r by simp
  show "\<not> vmm_lock demo_full" by (simp add: demo_full_def demo_pmem_def memset_zero_page_def)
  have "frames demo_pmem 0x40004000 = (\<lambda>_. 0)" by (simp add: demo_pmem_def memset_zero_page_def)
  then show "vmm_get_pte_from_table (root_table demo_full) 0 demo_full = None"
    by (simp add: vmm_get_pte_from_table_def read_pte_def r)
qed

theorem vmm_map_page_leaks_lock_witness:
  "pt_ok (root_table demo_full) demo_full \<and> free_set (pmm_of demo_full) = {} \<and>
   vmm_lock (vmm_map_page 0 0x40000000 1 demo_full) \<and>
   vmm_map_region 0 0x40000000 (2 * PAGE_SIZE) 1 demo_full = None"
  using demo_full_facts vmm_map_page_leaks_lock [OF demo_full_facts] by blast

end
