(* ===== verification/Vma.thy ===== *)
theory Vma
  imports Vmm
begin

section \<open>User address spaces\<close>

text \<open>
  A model of \<^verbatim>\<open>kernel/mm/vma.c\<close> and of the fault handler of
  \<^verbatim>\<open>kernel/mm/vmm.c\<close>. The singly linked list \<open>vma_list\<close> is a HOL list of its
  nodes; the page tables live in the memory of the theory of page tables. \<open>kmalloc\<close> may
  fail at any call, so each operation takes the outcome of its \<open>kmalloc\<close> as an argument
  \<open>heap_ok\<close>. The spin lock of the file makes each operation one step. The call of
  \<open>vfs_read\<close> that fills a page from a file is the argument \<open>vfs_read_page\<close>, a change of the memory: besides the page
  it may take frames for the page cache; \<open>page_reader\<close> says what the fault handler relies on.

  \<open>vma_unmap_loop\<close> goes on after the second half of a split area as after any other one. The source sets its \<open>prev\<close> to
  the first half there, so a later removal would unlink the second one; the areas are sorted and disjoint, no later area lies
  below the end of the range, and the removal cannot come.
\<close>

abbreviation VMA_READ :: u32 where "VMA_READ \<equiv> 1"
abbreviation VMA_WRITE :: u32 where "VMA_WRITE \<equiv> 2"
abbreviation VMA_EXEC :: u32 where "VMA_EXEC \<equiv> 4"
abbreviation VMA_SHARED :: u32 where "VMA_SHARED \<equiv> 8"
abbreviation VMA_GROWSDN :: u32 where "VMA_GROWSDN \<equiv> 64"
abbreviation VMA_ANONYMOUS :: u8 where "VMA_ANONYMOUS \<equiv> 0"
abbreviation VMA_FILE :: u8 where "VMA_FILE \<equiv> 1"
abbreviation VMA_DEVICE :: u8 where "VMA_DEVICE \<equiv> 2"
abbreviation USER_SPACE_END :: u64 where "USER_SPACE_END \<equiv> 0x4000000000"
abbreviation USER_STACK_TOP :: u64 where "USER_STACK_TOP \<equiv> 0x3FFFFF0000"
abbreviation USER_STACK_SIZE :: u64 where "USER_STACK_SIZE \<equiv> 0x800000"
abbreviation USER_HEAP_START :: u64 where "USER_HEAP_START \<equiv> 0x10000000"
abbreviation USER_MMAP_BASE :: u64 where "USER_MMAP_BASE \<equiv> 0x2000000000"

record vma =
  vm_start :: u64
  vm_end :: u64
  vm_flags :: u32
  vm_type :: u8
  vm_file :: "nat option"
  vm_pgoff :: u64

record mm_struct =
  page_table :: u64
  vma_list :: "vma list"
  heap_start :: u64
  heap_end :: u64
  stack_start :: u64
  mmap_base :: u64

text \<open>\<open>(x + PAGE_SIZE - 1) & ~(PAGE_SIZE - 1)\<close> and \<open>x & ~(PAGE_SIZE - 1)\<close>.\<close>

definition page_up :: "u64 \<Rightarrow> u64" where
  "page_up x = (x + PAGE_SIZE - 1) AND NOT (PAGE_SIZE - 1)"

definition page_down :: "u64 \<Rightarrow> u64" where
  "page_down x = x AND NOT (PAGE_SIZE - 1)"

text \<open>\<open>USER_SPACE_START\<close> is 0, so the guard \<open>start < USER_SPACE_START\<close> never holds.\<close>

definition vma_create :: "bool \<Rightarrow> u64 \<Rightarrow> u64 \<Rightarrow> u32 \<Rightarrow> u8 \<Rightarrow> vma option" where
  "vma_create heap_ok start endd flags typ =
     (if start \<ge> endd \<or> start < 0 \<or> endd > USER_SPACE_END then None
      else if \<not> heap_ok then None
      else Some \<lparr>vm_start = start, vm_end = endd, vm_flags = flags, vm_type = typ,
                 vm_file = None, vm_pgoff = 0\<rparr>)"

text \<open>The two loops of \<open>vma_insert\<close>: the overlap check, and the walk to the insertion point.\<close>

definition vma_overlaps :: "vma \<Rightarrow> vma \<Rightarrow> bool" where
  "vma_overlaps n v \<longleftrightarrow> \<not> (vm_end n \<le> vm_start v \<or> vm_start n \<ge> vm_end v)"

fun insert_after :: "vma \<Rightarrow> vma \<Rightarrow> vma list \<Rightarrow> vma list" where
  "insert_after n prev [] = [prev, n]"
| "insert_after n prev (v # vs) =
     (if vm_start v < vm_start n then prev # insert_after n v vs else prev # n # v # vs)"

definition vma_insert :: "mm_struct \<Rightarrow> vma \<Rightarrow> int \<times> mm_struct" where
  "vma_insert mm n =
     (if list_ex (vma_overlaps n) (vma_list mm) then (-1, mm)
      else case vma_list mm of
        [] \<Rightarrow> (0, mm\<lparr>vma_list := [n]\<rparr>)
      | h # vs \<Rightarrow>
          if vm_start n < vm_start h then (0, mm\<lparr>vma_list := n # h # vs\<rparr>)
          else (0, mm\<lparr>vma_list := insert_after n h vs\<rparr>))"

definition vma_find :: "mm_struct \<Rightarrow> u64 \<Rightarrow> vma option" where
  "vma_find mm addr = find (\<lambda>v. addr \<ge> vm_start v \<and> addr < vm_end v) (vma_list mm)"

text \<open>
  The addresses that a loop \<open>for (addr = s; addr < e; addr += PAGE_SIZE)\<close> visits. No area ends
  above \<open>USER_SPACE_END\<close>, so the counter does not wrap around.
\<close>

definition page_addrs :: "u64 \<Rightarrow> u64 \<Rightarrow> u64 list" where
  "page_addrs s e = map (\<lambda>i. s + of_nat (i * 4096)) [0..<(unat e - unat s + 4095) div 4096]"

text \<open>One iteration of the macro \<open>FREE_PAGES\<close>; \<open>mm_destroy\<close> has no test of the type.\<close>

definition free_page :: "bool \<Rightarrow> u64 \<Rightarrow> u64 \<Rightarrow> pmem \<Rightarrow> pmem" where
  "free_page device pt addr m =
     (case vmm_get_pte_from_table pt addr m of
        None \<Rightarrow> m
      | Some pte \<Rightarrow>
          if has (read_pte m pte) PT_VALID
          then let phys = read_pte m pte AND ADDR_MASK;
                   m = (if \<not> device then free_frame phys m else m)
               in write_pte pte 0 m
          else m)"

definition free_pages :: "bool \<Rightarrow> u64 \<Rightarrow> u64 \<Rightarrow> u64 \<Rightarrow> pmem \<Rightarrow> pmem" where
  "free_pages device pt s e m = fold (free_page device pt) (page_addrs s e) m"

definition mm_create :: "bool \<Rightarrow> bool \<Rightarrow> pmem \<Rightarrow> mm_struct option \<times> pmem" where
  "mm_create heap_ok1 heap_ok2 m =
     (if \<not> heap_ok1 then (None, m)
      else let (pt_phys, m) = alloc_frame m
           in if pt_phys = 0 then (None, m)
              else let m = memset_zero_page pt_phys m;
                       mm = \<lparr>page_table = pt_phys, vma_list = [], heap_start = USER_HEAP_START,
                             heap_end = USER_HEAP_START, stack_start = USER_STACK_TOP,
                             mmap_base = USER_MMAP_BASE\<rparr>
                   in case vma_create heap_ok2 (USER_STACK_TOP - USER_STACK_SIZE) USER_STACK_TOP
                             (VMA_READ OR VMA_WRITE OR VMA_GROWSDN) VMA_ANONYMOUS of
                        None \<Rightarrow> (Some mm, m)
                      | Some stack \<Rightarrow> (Some (snd (vma_insert mm stack)), m))"

definition free_l3_tables :: "u64 \<Rightarrow> pmem \<Rightarrow> pmem" where
  "free_l3_tables l2_table m =
     fold (\<lambda>j m. if has (read_pte m (l2_table, of_nat j)) PT_VALID
                 then free_frame (read_pte m (l2_table, of_nat j) AND ADDR_MASK) m else m)
       [0..<512] m"

definition free_tables :: "u64 \<Rightarrow> pmem \<Rightarrow> pmem" where
  "free_tables l1_table m =
     free_frame l1_table
       (fold (\<lambda>i m. if has (read_pte m (l1_table, of_nat i)) PT_VALID
                    then let l2_table = read_pte m (l1_table, of_nat i) AND ADDR_MASK
                         in free_frame l2_table (free_l3_tables l2_table m)
                    else m)
         [0..<512] m)"

definition mm_destroy :: "mm_struct \<Rightarrow> pmem \<Rightarrow> pmem" where
  "mm_destroy mm m =
     free_tables (page_table mm)
       (fold (\<lambda>v. free_pages False (page_table mm) (vm_start v) (vm_end v)) (vma_list mm) m)"

fun vma_unmap_loop ::
  "bool \<Rightarrow> u64 \<Rightarrow> u64 \<Rightarrow> u64 \<Rightarrow> vma list \<Rightarrow> pmem \<Rightarrow> int \<times> vma list \<times> pmem" where
  "vma_unmap_loop heap_ok pt s e [] m = (0, [], m)"
| "vma_unmap_loop heap_ok pt s e (v # vs) m =
     (if vm_end v \<le> s \<or> vm_start v \<ge> e
      then let (r, l, m) = vma_unmap_loop heap_ok pt s e vs m in (r, v # l, m)
      else let device = (vm_type v = VMA_DEVICE)
      in if s \<le> vm_start v \<and> e \<ge> vm_end v
      then vma_unmap_loop heap_ok pt s e vs (free_pages device pt (vm_start v) (vm_end v) m)
      else if s \<le> vm_start v \<and> e < vm_end v
      then let m = free_pages device pt (vm_start v) e m;
               (r, l, m) = vma_unmap_loop heap_ok pt s e vs m
           in (r, v\<lparr>vm_start := e\<rparr> # l, m)
      else if s > vm_start v \<and> e \<ge> vm_end v
      then let m = free_pages device pt s (vm_end v) m;
               (r, l, m) = vma_unmap_loop heap_ok pt s e vs m
           in (r, v\<lparr>vm_end := s\<rparr> # l, m)
      else case vma_create heap_ok e (vm_end v) (vm_flags v) (vm_type v) of
             None \<Rightarrow> (-1, v # vs, m)
           | Some n \<Rightarrow>
               let m = free_pages device pt s e m;
                   (r, l, m) = vma_unmap_loop heap_ok pt s e vs m
               in (r, v\<lparr>vm_end := s\<rparr> # n # l, m))"

definition vma_unmap :: "bool \<Rightarrow> mm_struct \<Rightarrow> u64 \<Rightarrow> u64 \<Rightarrow> pmem \<Rightarrow> int \<times> mm_struct \<times> pmem" where
  "vma_unmap heap_ok mm s e m =
     (if s \<ge> e then (-1, mm, m)
      else let (r, l, m) = vma_unmap_loop heap_ok (page_table mm) s e (vma_list mm) m
           in (r, mm\<lparr>vma_list := l\<rparr>, m))"

fun find_gap :: "u64 \<Rightarrow> u64 \<Rightarrow> vma list \<Rightarrow> u64" where
  "find_gap addr len [] = addr"
| "find_gap addr len (v # vs) =
     (if addr + len \<le> vm_start v then addr
      else find_gap (if addr < vm_end v then vm_end v else addr) len vs)"

text \<open>
  \<open>vma_allocate\<close> and \<open>vma_allocate_file\<close> differ in the type and in the file fields of the
  new area.
\<close>

definition vma_allocate_as ::
  "u8 \<Rightarrow> nat option \<Rightarrow> u64 \<Rightarrow> bool \<Rightarrow> mm_struct \<Rightarrow> u64 \<Rightarrow> u64 \<Rightarrow> u32 \<Rightarrow> u64 \<times> mm_struct" where
  "vma_allocate_as typ file offset heap_ok mm addr len flags =
     (if len = 0 then (0, mm)
      else let len = page_up len;
               addr' = (if addr = 0 then find_gap (mmap_base mm) len (vma_list mm) else addr)
           in if addr = 0 \<and> addr' + len > USER_SPACE_END then (0, mm)
              else case vma_create heap_ok addr' (addr' + len) flags typ of
                     None \<Rightarrow> (0, mm)
                   | Some n \<Rightarrow>
                       let (r, mm') = vma_insert mm (n\<lparr>vm_file := file, vm_pgoff := offset\<rparr>)
                       in if r < 0 then (0, mm) else (addr', mm'))"

definition vma_allocate :: "bool \<Rightarrow> mm_struct \<Rightarrow> u64 \<Rightarrow> u64 \<Rightarrow> u32 \<Rightarrow> u64 \<times> mm_struct" where
  "vma_allocate = vma_allocate_as VMA_ANONYMOUS None 0"

definition vma_allocate_file ::
  "nat option \<Rightarrow> u64 \<Rightarrow> bool \<Rightarrow> mm_struct \<Rightarrow> u64 \<Rightarrow> u64 \<Rightarrow> u32 \<Rightarrow> u64 \<times> mm_struct" where
  "vma_allocate_file file offset = vma_allocate_as VMA_FILE file offset"

fun expand_first :: "u64 \<Rightarrow> vma list \<Rightarrow> vma list option" where
  "expand_first new_start [] = None"
| "expand_first new_start (v # vs) =
     (if has (vm_flags v) VMA_GROWSDN then Some (v\<lparr>vm_start := new_start\<rparr> # vs)
      else map_option ((#) v) (expand_first new_start vs))"

definition vma_expand_stack :: "mm_struct \<Rightarrow> u64 \<Rightarrow> int \<times> mm_struct" where
  "vma_expand_stack mm addr =
     (case expand_first (page_down addr) (vma_list mm) of
        None \<Rightarrow> (-1, mm)
      | Some l \<Rightarrow>
          if page_down addr < USER_STACK_TOP - USER_STACK_SIZE * 2 then (-1, mm)
          else (0, mm\<lparr>vma_list := l\<rparr>))"

text \<open>The entry of a page that a fault fills in, and of a private copy.\<close>

definition user_entry :: "u64 \<Rightarrow> u32 \<Rightarrow> u64" where
  "user_entry phys flags =
     (let entry = phys OR PT_VALID OR PT_AF OR PT_PAGE OR PT_SH_INNER;
          entry = entry OR MT_NORMAL_ATTR;
          entry = entry OR PT_AP_RW_EL0;
          entry = (if \<not> has flags VMA_WRITE then (entry AND NOT 0x80) OR PT_AP_RO_EL0 else entry)
      in if \<not> has flags VMA_EXEC then entry OR PT_UXN else entry)"

definition cow_entry :: "u64 \<Rightarrow> u32 \<Rightarrow> u64" where
  "cow_entry phys flags =
     (let entry = phys OR PT_VALID OR PT_AF OR PT_PAGE OR PT_SH_INNER;
          entry = entry OR MT_NORMAL_ATTR;
          entry = entry OR PT_AP_RW_EL0
      in if \<not> has flags VMA_EXEC then entry OR PT_UXN else entry)"

definition copy_page :: "u64 \<Rightarrow> u64 \<Rightarrow> pmem \<Rightarrow> pmem" where
  "copy_page dst src m = m\<lparr>frames := (frames m)(dst := frames m src)\<rparr>"

definition fill_page :: "(nat \<Rightarrow> u64 \<Rightarrow> u64 \<Rightarrow> pmem \<Rightarrow> pmem) \<Rightarrow> vma \<Rightarrow> u64 \<Rightarrow> u64 \<Rightarrow> pmem \<Rightarrow> pmem" where
  "fill_page vfs_read_page v addr phys m =
     (case vm_file v of
        Some f \<Rightarrow>
          if vm_type v = VMA_FILE
          then let page_offset = page_down addr - vm_start v;
                   file_offset = vm_pgoff v + page_offset
               in vfs_read_page f file_offset phys m
          else m
      | None \<Rightarrow> m)"

definition vma_page_fault ::
  "(nat \<Rightarrow> u64 \<Rightarrow> u64 \<Rightarrow> pmem \<Rightarrow> pmem) \<Rightarrow> mm_struct \<Rightarrow> u64 \<Rightarrow> bool \<Rightarrow> pmem \<Rightarrow> int \<times> mm_struct \<times> pmem" where
  "vma_page_fault vfs_read_page mm addr is_write m =
     (case vma_find mm addr of
        None \<Rightarrow>
          if addr < USER_STACK_TOP \<and> addr \<ge> USER_STACK_TOP - USER_STACK_SIZE * 2
          then let (r, mm) = vma_expand_stack mm addr in (r, mm, m)
          else (-1, mm, m)
      | Some v \<Rightarrow>
          if is_write \<and> \<not> has (vm_flags v) VMA_WRITE then (-1, mm, m)
          else (case vmm_get_pte_from_table_alloc (page_table mm) addr m of
                  (None, m) \<Rightarrow> (-1, mm, m)
                | (Some pte, m) \<Rightarrow>
                    if \<not> has (read_pte m pte) PT_VALID
                    then let (phys, m) = alloc_frame m
                         in if phys = 0 then (-1, mm, m)
                            else let m = memset_zero_page phys m;
                                     m = fill_page vfs_read_page v addr phys m
                                 in (0, mm, write_pte pte (user_entry phys (vm_flags v)) m)
                    else if is_write \<and> has (read_pte m pte) PT_SW_COW
                    then let old_phys = read_pte m pte AND ADDR_MASK;
                             (new_phys, m) = alloc_frame m
                         in if new_phys = 0 then (-1, mm, m)
                            else let m = copy_page new_phys old_phys m;
                                     m = write_pte pte (cow_entry new_phys (vm_flags v)) m
                                 in (0, mm, free_frame old_phys m)
                    else (-1, mm, m)))"

definition dup_page :: "bool \<Rightarrow> u64 \<Rightarrow> u64 \<Rightarrow> u64 \<Rightarrow> pmem \<Rightarrow> pmem" where
  "dup_page shared old_pt new_pt addr m =
     (case vmm_get_pte_from_table old_pt addr m of
        None \<Rightarrow> m
      | Some old_pte \<Rightarrow>
          if \<not> has (read_pte m old_pte) PT_VALID then m
          else (case vmm_get_pte_from_table_alloc new_pt addr m of
                  (None, m) \<Rightarrow> m
                | (Some new_pte, m) \<Rightarrow>
                    let phys = read_pte m old_pte AND ADDR_MASK;
                        m = (if \<not> shared \<and> (has (read_pte m old_pte) PT_AP_RW_EL0 \<or>
                                             has (read_pte m old_pte) PT_AP_RW_EL1)
                             then write_pte old_pte
                                    ((read_pte m old_pte AND NOT 0xC0) OR PT_AP_RO_EL0 OR PT_SW_COW) m
                             else m);
                        m = write_pte new_pte (read_pte m old_pte) m
                    in m\<lparr>pmm_of := pmm_inc_ref phys (pmm_of m)\<rparr>))"

fun dup_vmas ::
  "(nat \<Rightarrow> bool) \<Rightarrow> nat \<Rightarrow> u64 \<Rightarrow> vma list \<Rightarrow> mm_struct \<Rightarrow> pmem \<Rightarrow> mm_struct option \<times> pmem" where
  "dup_vmas heap_ok i old_pt [] new_mm m = (Some new_mm, m)"
| "dup_vmas heap_ok i old_pt (v # vs) new_mm m =
     (case vma_create (heap_ok i) (vm_start v) (vm_end v) (vm_flags v) (vm_type v) of
        None \<Rightarrow> (None, mm_destroy new_mm m)
      | Some n \<Rightarrow>
          let n = n\<lparr>vm_file := vm_file v, vm_pgoff := vm_pgoff v\<rparr>;
              new_mm = snd (vma_insert new_mm n);
              m = fold (dup_page (has (vm_flags v) VMA_SHARED) old_pt (page_table new_mm))
                    (page_addrs (vm_start v) (vm_end v)) m
          in dup_vmas heap_ok (Suc i) old_pt vs new_mm m)"

definition mm_duplicate :: "(nat \<Rightarrow> bool) \<Rightarrow> mm_struct \<Rightarrow> pmem \<Rightarrow> mm_struct option \<times> pmem" where
  "mm_duplicate heap_ok old_mm m =
     (if \<not> heap_ok 0 then (None, m)
      else let (pt_phys, m) = alloc_frame m
           in if pt_phys = 0 then (None, m)
              else let m = memset_zero_page pt_phys m;
                       new_mm = \<lparr>page_table = pt_phys, vma_list = [], heap_start = heap_start old_mm,
                                 heap_end = heap_end old_mm, stack_start = stack_start old_mm,
                                 mmap_base = mmap_base old_mm\<rparr>
                   in dup_vmas heap_ok 1 (page_table old_mm) (vma_list old_mm) new_mm m)"

text \<open>
  The fault handler of \<^verbatim>\<open>vmm.c\<close>; \<open>cur\<close> is \<open>current_task->proc->mm\<close>, or None when one
  of the three pointers is NULL.
\<close>

definition vmm_handle_page_fault ::
  "(nat \<Rightarrow> u64 \<Rightarrow> u64 \<Rightarrow> pmem \<Rightarrow> pmem) \<Rightarrow> mm_struct option \<Rightarrow> u64 \<Rightarrow> bool \<Rightarrow> pmem \<Rightarrow> int \<times> mm_struct option \<times> pmem" where
  "vmm_handle_page_fault vfs_read_page cur virt is_write m =
     (if virt < USER_SPACE_END
      then (case cur of
              None \<Rightarrow> (-1, None, m)
            | Some mm \<Rightarrow>
                let (r, mm, m) = vma_page_fault vfs_read_page mm virt is_write m in (r, Some mm, m))
      else (case vmm_get_pte virt False m of
              (None, m) \<Rightarrow> (-1, cur, m)
            | (Some pte, m) \<Rightarrow>
                let entry = read_pte m pte
                in if \<not> has entry PT_VALID
                   then let (new_frame, m) = alloc_frame m
                        in if new_frame = 0 then (-1, cur, m)
                           else let m = memset_zero_page new_frame m;
                                    new_entry = new_frame OR PT_PAGE OR PT_VALID OR PT_AF OR PT_SH_INNER;
                                    new_entry = new_entry OR MT_NORMAL_ATTR;
                                    new_entry = new_entry OR PT_AP_RW_EL1;
                                    new_entry = new_entry OR (PT_UXN OR PT_PXN)
                                in (0, cur, write_pte pte new_entry m)
                   else if has entry PT_VALID \<and> is_write \<and> has entry PT_SW_COW
                   then let old_phys = entry AND ADDR_MASK;
                            (new_phys, m) = alloc_frame m
                        in if new_phys = 0 then (-1, cur, m)
                           else let m = copy_page new_phys old_phys m;
                                    new_entry = entry AND NOT ADDR_MASK;
                                    new_entry = new_entry OR new_phys;
                                    new_entry = new_entry AND NOT PT_SW_COW;
                                    new_entry = new_entry AND NOT 0x80;
                                    m = write_pte pte new_entry m
                                in (0, cur, free_frame old_phys m)
                   else (-1, cur, m)))"


subsection \<open>The list of areas\<close>

definition covers :: "vma \<Rightarrow> u64 \<Rightarrow> bool" where
  "covers v a \<longleftrightarrow> vm_start v \<le> a \<and> a < vm_end v"

definition vma_ok :: "vma \<Rightarrow> bool" where
  "vma_ok v \<longleftrightarrow> vm_start v < vm_end v \<and> vm_end v \<le> USER_SPACE_END"

text \<open>The invariant of the list: areas in the user half, sorted and disjoint.\<close>

definition vmas_ok :: "vma list \<Rightarrow> bool" where
  "vmas_ok vs \<longleftrightarrow> (\<forall>v \<in> set vs. vma_ok v) \<and> sorted_wrt (\<lambda>v w. vm_end v \<le> vm_start w) vs"

text \<open>What the list means: the protection and the kind of each address.\<close>

definition area_at :: "vma list \<Rightarrow> u64 \<Rightarrow> (u32 \<times> u8) option" where
  "area_at vs a = map_option (\<lambda>v. (vm_flags v, vm_type v)) (find (\<lambda>v. a \<ge> vm_start v \<and> a < vm_end v) vs)"

lemma vmas_ok_Nil [simp]: "vmas_ok []"
  by (simp add: vmas_ok_def)

lemma vmas_ok_Cons [simp]:
  "vmas_ok (v # vs) \<longleftrightarrow> vma_ok v \<and> (\<forall>w \<in> set vs. vm_end v \<le> vm_start w) \<and> vmas_ok vs"
  by (auto simp: vmas_ok_def)

lemma area_at_Nil [simp]: "area_at [] a = None"
  by (simp add: area_at_def)

lemma area_at_Cons [simp]:
  "area_at (v # vs) a = (if covers v a then Some (vm_flags v, vm_type v) else area_at vs a)"
  by (simp add: area_at_def covers_def)

lemma area_at_None: "area_at vs a = None \<longleftrightarrow> (\<forall>v \<in> set vs. \<not> covers v a)"
  by (induction vs) auto

text \<open>Below the first area of a sorted list there is nothing.\<close>

lemma area_at_below:
  assumes "\<forall>w \<in> set vs. b \<le> vm_start w" "a < b"
  shows "area_at vs a = None"
  using assms by (force simp: area_at_None covers_def)

lemma insert_after_set: "set (insert_after n p vs) = insert n (insert p (set vs))"
  by (induction n p vs rule: insert_after.induct) auto

lemma insert_after_ok:
  assumes "vmas_ok (p # vs)" "vma_ok n" "vm_end p \<le> vm_start n"
    "\<forall>v \<in> set vs. \<not> vma_overlaps n v"
  shows "vmas_ok (insert_after n p vs) \<and>
    area_at (insert_after n p vs) a = (if covers n a then Some (vm_flags n, vm_type n) else area_at (p # vs) a)"
  using assms
proof (induction n p vs rule: insert_after.induct)
  case (1 n prev)
  then show ?case by (auto simp: covers_def)
next
  case (2 n prev v vs)
  from 2(5) have d: "vm_end n \<le> vm_start v \<or> vm_start n \<ge> vm_end v" by (auto simp: vma_overlaps_def)
  show ?case
  proof (cases "vm_start v < vm_start n")
    case True
    with d 2(3) have e: "vm_end v \<le> vm_start n" by (auto simp: vma_ok_def)
    note IH = 2(1) [OF True _ 2(3) e]
    have ih: "vmas_ok (insert_after n v vs)"
      "area_at (insert_after n v vs) a = (if covers n a then Some (vm_flags n, vm_type n) else area_at (v # vs) a)"
      using IH 2(2,5) by auto
    have np: "\<not> (covers n a \<and> covers prev a)" using 2(4) by (auto simp: covers_def)
    show ?thesis using ih np 2(2,4) True by (auto simp: insert_after_set)
  next
    case False
    with d 2(2) have e: "vm_end n \<le> vm_start v" by (auto simp: vma_ok_def)
    have "\<forall>w \<in> set vs. vm_end n \<le> vm_start w"
      using e 2(2) by (fastforce simp: vma_ok_def)
    moreover have "\<not> (covers n a \<and> covers prev a)" using 2(4) by (auto simp: covers_def)
    ultimately show ?thesis using False e 2(2-4) by auto
  qed
qed

lemma vma_insert_ok:
  assumes "vmas_ok (vma_list mm)" "vma_ok n" "vma_insert mm n = (r, mm')"
  shows "r = -1 \<and> mm' = mm \<and> (\<exists>v \<in> set (vma_list mm). vma_overlaps n v) \<or>
    r = 0 \<and> vmas_ok (vma_list mm') \<and> mm' = mm\<lparr>vma_list := vma_list mm'\<rparr> \<and>
      (\<forall>v \<in> set (vma_list mm). \<not> vma_overlaps n v) \<and>
      set (vma_list mm') = insert n (set (vma_list mm)) \<and>
      (\<forall>a. area_at (vma_list mm') a =
         (if covers n a then Some (vm_flags n, vm_type n) else area_at (vma_list mm) a))"
proof (cases "list_ex (vma_overlaps n) (vma_list mm)")
  case True
  with assms(3) show ?thesis by (auto simp: vma_insert_def list_ex_iff)
next
  case False
  then have no: "\<forall>v \<in> set (vma_list mm). \<not> vma_overlaps n v" by (auto simp: list_ex_iff)
  show ?thesis
  proof (cases "vma_list mm")
    case Nil
    with assms False show ?thesis by (auto simp: vma_insert_def)
  next
    case (Cons h vs)
    show ?thesis
    proof (cases "vm_start n < vm_start h")
      case True
      have e: "vm_end n \<le> vm_start h" using no True assms(1) Cons by (auto simp: vma_overlaps_def vma_ok_def)
      have "\<forall>w \<in> set vs. vm_end n \<le> vm_start w" using e assms(1) Cons by (fastforce simp: vma_ok_def)
      with False True e Cons assms no show ?thesis by (auto simp: vma_insert_def)
    next
      case False2: False
      have e: "vm_end h \<le> vm_start n"
        using no False2 assms(2) Cons by (auto simp: vma_overlaps_def vma_ok_def)
      have r: "r = 0" "mm' = mm\<lparr>vma_list := insert_after n h vs\<rparr>"
        using assms(3) False False2 Cons by (auto simp: vma_insert_def)
      have "vmas_ok (insert_after n h vs)"
        "area_at (insert_after n h vs) a = (if covers n a then Some (vm_flags n, vm_type n) else area_at (h # vs) a)"
        for a
        using insert_after_ok [OF _ assms(2) e] assms(1) no Cons by auto
      then show ?thesis using no r Cons by (simp add: insert_after_set insert_commute)
    qed
  qed
qed

lemma vma_create_Some:
  "vma_create ok s e fl ty = Some n \<longleftrightarrow>
     ok \<and> s < e \<and> e \<le> USER_SPACE_END \<and>
     n = \<lparr>vm_start = s, vm_end = e, vm_flags = fl, vm_type = ty, vm_file = None, vm_pgoff = 0\<rparr>"
  by (auto simp: vma_create_def not_le not_less)

lemma vma_create_None:
  "vma_create ok s e fl ty = None \<longleftrightarrow> \<not> ok \<or> e \<le> s \<or> USER_SPACE_END < e"
  by (auto simp: vma_create_def not_le not_less)

text \<open>What a loop result says of the list; the loop fails only inside a single area.\<close>

definition unmap_spec :: "bool \<Rightarrow> u64 \<Rightarrow> u64 \<Rightarrow> vma list \<Rightarrow> int \<Rightarrow> vma list \<Rightarrow> bool" where
  "unmap_spec ok s e vs r l \<longleftrightarrow>
     r = -1 \<and> \<not> ok \<and> l = vs \<and> (\<exists>w \<in> set vs. vm_start w < s \<and> e < vm_end w) \<or>
     r = 0 \<and> vmas_ok l \<and>
       (\<forall>b. (\<forall>v \<in> set vs. b \<le> vm_start v) \<longrightarrow> (\<forall>v \<in> set l. b \<le> vm_start v)) \<and>
       (\<forall>a. area_at l a = (if s \<le> a \<and> a < e then None else area_at vs a))"

lemma area_at_append:
  "area_at (xs @ ys) a = (case area_at xs a of None \<Rightarrow> area_at ys a | Some p \<Rightarrow> Some p)"
  by (induction xs) auto

lemma vmas_ok_append:
  "vmas_ok xs \<Longrightarrow> vmas_ok ys \<Longrightarrow> (\<And>x y. x \<in> set xs \<Longrightarrow> y \<in> set ys \<Longrightarrow> vm_end x \<le> vm_start y) \<Longrightarrow>
    vmas_ok (xs @ ys)"
  by (induction xs) auto

lemma unmap_spec_Cons:
  assumes spec: "unmap_spec ok s e vs r l" and ok: "vmas_ok (v # vs)"
    and hole: "(\<exists>w \<in> set vs. vm_start w < s \<and> e < vm_end w) \<longrightarrow> hs = [v]"
    and hs: "vmas_ok hs" "\<forall>h \<in> set hs. vm_start v \<le> vm_start h \<and> vm_end h \<le> vm_end v"
    and at: "\<forall>a. area_at hs a = (if s \<le> a \<and> a < e then None else area_at [v] a)"
  shows "unmap_spec ok s e (v # vs) r (hs @ l)"
proof -
  from spec [unfolded unmap_spec_def] show ?thesis
  proof (elim disjE conjE)
    assume f: "r = -1" "\<not> ok" "l = vs" "\<exists>w \<in> set vs. vm_start w < s \<and> e < vm_end w"
    then have "hs @ l = v # vs" using hole by simp
    with f show ?thesis unfolding unmap_spec_def by simp
  next
    assume fin: "r = 0" "vmas_ok l"
      "\<forall>b. (\<forall>v \<in> set vs. b \<le> vm_start v) \<longrightarrow> (\<forall>v \<in> set l. b \<le> vm_start v)"
      "\<forall>a. area_at l a = (if s \<le> a \<and> a < e then None else area_at vs a)"
    have low: "\<forall>w \<in> set l. vm_end v \<le> vm_start w" using fin(3) [rule_format, of "vm_end v"] ok by simp
    have "vm_end x \<le> vm_start y" if "x \<in> set hs" "y \<in> set l" for x y
      by (rule order_trans [of _ "vm_end v"]) (use that hs(2) low in auto)
    then have "vmas_ok (hs @ l)" by (rule vmas_ok_append [OF hs(1) fin(2)])
    moreover have "\<forall>w \<in> set (hs @ l). b \<le> vm_start w" if "\<forall>w \<in> set (v # vs). b \<le> vm_start w" for b
    proof
      fix w assume "w \<in> set (hs @ l)"
      moreover have "b \<le> vm_start w" if "w \<in> set l"
        using fin(3) that \<open>\<forall>w \<in> set (v # vs). b \<le> vm_start w\<close> by (meson list.set_intros(2))
      moreover have "b \<le> vm_start w" if "w \<in> set hs"
        using hs(2) that \<open>\<forall>w \<in> set (v # vs). b \<le> vm_start w\<close> by (meson list.set_intros(1) order_trans)
      ultimately show "b \<le> vm_start w" by auto
    qed
    moreover have "area_at (hs @ l) a = (if s \<le> a \<and> a < e then None else area_at (v # vs) a)" for a
      using at [rule_format, of a] fin(4) [rule_format, of a]
      by (simp add: area_at_append split: option.splits)
    ultimately show ?thesis using fin(1) unfolding unmap_spec_def by blast
  qed
qed

lemma order_False:
  fixes a b :: "'a :: linorder"
  shows "a < b \<Longrightarrow> (b \<le> a) = False" "b \<le> a \<Longrightarrow> (a < b) = False"
  by auto

lemma unmap_loop_ok:
  assumes "vmas_ok vs" "s < e" "vma_unmap_loop ok pt s e vs m = (r, l, m')"
  shows "unmap_spec ok s e vs r l" "r \<noteq> 0 \<Longrightarrow> m' = m"
proof -
  have "unmap_spec ok s e vs r l \<and> (r \<noteq> 0 \<longrightarrow> m' = m)"
    using assms
  proof (induction vs arbitrary: m r l m')
    case Nil
    then show ?case by (auto simp: unmap_spec_def)
  next
    case (Cons v vs)
    have v: "vm_start v < vm_end v" "vm_end v \<le> USER_SPACE_END" "vmas_ok vs" "\<forall>w \<in> set vs. vm_end v \<le> vm_start w"
      using Cons.prems(1) by (auto simp: vma_ok_def)
    note IH = Cons.IH [OF v(3) Cons.prems(2)] and C = unmap_spec_Cons [OF _ Cons.prems(1)]
    have later: "\<not> (\<exists>w \<in> set vs. vm_start w < s \<and> e < vm_end w)" if "s < vm_end v"
    proof (safe)
      fix w assume "w \<in> set vs" "vm_start w < s"
      with v(4) that show False by (auto dest!: bspec)
    qed
    have zero: "r' = 0" if "unmap_spec ok s e vs r' l'" "s < vm_end v" for r' l'
      using that later by (auto simp: unmap_spec_def)
    consider (out) "vm_end v \<le> s \<or> vm_start v \<ge> e"
      | (all) "s < vm_end v" "vm_start v < e" "s \<le> vm_start v" "e \<ge> vm_end v"
      | (low) "s < vm_end v" "vm_start v < e" "s \<le> vm_start v" "e < vm_end v"
      | (high) "s < vm_end v" "vm_start v < e" "s > vm_start v" "e \<ge> vm_end v"
      | (hole) "s < vm_end v" "vm_start v < e" "s > vm_start v" "e < vm_end v"
      by (meson not_le)
    then show ?case
    proof cases
      case out
      then obtain l1 where l: "vma_unmap_loop ok pt s e vs m = (r, l1, m')" "l = v # l1"
        using Cons.prems(3) by (auto simp: order_False split: prod.splits)
      have "\<forall>a. area_at [v] a = (if s \<le> a \<and> a < e then None else area_at [v] a)"
        using out by (auto simp: covers_def)
      from C [of ok s e r l1 "[v]", OF _ _ _ _ this] IH [OF l(1)] v(1,2) l(2)
      show ?thesis by (auto simp: vma_ok_def)
    next
      case all
      then obtain m1 where l: "vma_unmap_loop ok pt s e vs m1 = (r, l, m')"
        using Cons.prems(3) by (auto simp: Let_def order_False)
      have "\<forall>a. area_at [] a = (if s \<le> a \<and> a < e then None else area_at [v] a)"
        using all by (auto simp: covers_def)
      from C [of ok s e r l "[]", OF _ _ _ _ this] IH [OF l] later [OF all(1)] zero [of r l] all(1)
      show ?thesis by auto
    next
      case low
      then obtain m1 l1 where l: "vma_unmap_loop ok pt s e vs m1 = (r, l1, m')" "l = v\<lparr>vm_start := e\<rparr> # l1"
        using Cons.prems(3) by (auto simp: Let_def order_False split: prod.splits)
      have "\<forall>a. area_at [v\<lparr>vm_start := e\<rparr>] a = (if s \<le> a \<and> a < e then None else area_at [v] a)"
        using low by (auto simp: covers_def)
      from C [of ok s e r l1 "[v\<lparr>vm_start := e\<rparr>]", OF _ _ _ _ this] IH [OF l(1)] later [OF low(1)] zero [of r l1] low v(2) l(2)
      show ?thesis by (auto simp: vma_ok_def)
    next
      case high
      then obtain m1 l1 where l: "vma_unmap_loop ok pt s e vs m1 = (r, l1, m')" "l = v\<lparr>vm_end := s\<rparr> # l1"
        using Cons.prems(3) by (auto simp: Let_def order_False split: prod.splits)
      have "\<forall>a. area_at [v\<lparr>vm_end := s\<rparr>] a = (if s \<le> a \<and> a < e then None else area_at [v] a)"
        using high by (auto simp: covers_def)
      from C [of ok s e r l1 "[v\<lparr>vm_end := s\<rparr>]", OF _ _ _ _ this] IH [OF l(1)] later [OF high(1)] zero [of r l1] high v(2) l(2)
      show ?thesis by (auto simp: vma_ok_def)
    next
      case hole
      define n where "n = \<lparr>vm_start = e, vm_end = vm_end v, vm_flags = vm_flags v, vm_type = vm_type v,
        vm_file = None, vm_pgoff = 0\<rparr>"
      show ?thesis
      proof (cases ok)
        case True
        then have "vma_create ok e (vm_end v) (vm_flags v) (vm_type v) = Some n"
          using hole v(2) by (simp add: vma_create_Some n_def)
        then obtain m1 l1 where l: "vma_unmap_loop ok pt s e vs m1 = (r, l1, m')" "l = v\<lparr>vm_end := s\<rparr> # n # l1"
          using Cons.prems(3) hole by (auto simp: Let_def order_False split: prod.splits)
        have "\<forall>a. area_at [v\<lparr>vm_end := s\<rparr>, n] a = (if s \<le> a \<and> a < e then None else area_at [v] a)"
          using hole by (auto simp: covers_def n_def)
        moreover have "s \<le> USER_SPACE_END" "s \<le> e" "s \<le> vm_end v" "vm_start v \<le> e"
          using hole v(2) Cons.prems(2) by auto
        moreover note C [of ok s e r l1 "[v\<lparr>vm_end := s\<rparr>, n]", OF _ _ _ _ calculation(1)] IH [OF l(1)] later [OF hole(1)]
          zero [of r l1] hole v(2) l(2) Cons.prems(2)
        ultimately show ?thesis by (auto simp: vma_ok_def n_def)
      next
        case False
        then have "vma_create ok e (vm_end v) (vm_flags v) (vm_type v) = None" by (simp add: vma_create_None)
        then have "r = -1" "l = v # vs" "m' = m" using Cons.prems(3) hole by (auto simp: Let_def order_False)
        with False hole show ?thesis by (auto simp: unmap_spec_def)
      qed
    qed
  qed
  then show "unmap_spec ok s e vs r l" "r \<noteq> 0 \<Longrightarrow> m' = m" by auto
qed

subsection \<open>Placing a new area\<close>

lemma find_gap_free:
  assumes "vmas_ok vs"
  shows "addr \<le> find_gap addr len vs \<and>
    (\<forall>v \<in> set vs. vm_end v \<le> find_gap addr len vs \<or> find_gap addr len vs + len \<le> vm_start v)"
  using assms
proof (induction addr len vs rule: find_gap.induct)
  case (1 addr len)
  then show ?case by simp
next
  case (2 addr len v vs)
  show ?case
  proof (cases "addr + len \<le> vm_start v")
    case True
    have "addr + len \<le> vm_start w" if "w \<in> set vs" for w
    proof -
      have "vm_start v < vm_end v" "vm_end v \<le> vm_start w" using 2(2) that by (auto simp: vma_ok_def)
      with True show ?thesis by order
    qed
    with True show ?thesis by simp
  next
    case False
    have ok: "vmas_ok vs" using 2(2) by simp
    show ?thesis using 2(1) [OF False ok] False by (auto split: if_splits)
  qed
qed

lemma below_no_wrap:
  fixes g x len :: u64
  assumes "g \<le> x" "x < x + len"
  shows "g < g + len \<and> g + len \<le> x + len"
proof -
  have "unat x + unat len < 2 ^ 64" using no_olen_add_nat [of x len] assms(2) by (simp add: order.strict_implies_order)
  then show ?thesis using assms by (simp add: word_le_nat_alt word_less_nat_alt unat_word_ariths)
qed

text \<open>It is the first one: no address before it has room for the area.\<close>

lemma find_gap_first:
  assumes "addr \<le> x" "x < x + len" "\<forall>v \<in> set vs. vm_end v \<le> x \<or> x + len \<le> vm_start v"
  shows "find_gap addr len vs \<le> x"
  using assms
proof (induction addr len vs rule: find_gap.induct)
  case (2 addr len v vs)
  show ?case
  proof (cases "addr + len \<le> vm_start v")
    case False
    have "addr + len \<le> x + len" using below_no_wrap [OF 2(2,3)] by simp
    then have "\<not> x + len \<le> vm_start v" using False by order
    then have "(if addr < vm_end v then vm_end v else addr) \<le> x" using 2(2,4) by auto
    then show ?thesis using 2(1) [OF False _ 2(3)] 2(4) False by simp
  qed (use 2(2) in simp)
qed simp

lemma gap_of_areas:
  assumes ok: "vmas_ok vs" and x: "x < x + len" and free: "\<And>y. x \<le> y \<Longrightarrow> y < x + len \<Longrightarrow> area_at vs y = None" and v: "v \<in> set vs"
  shows "vm_end v \<le> x \<or> x + len \<le> vm_start v"
proof (rule ccontr)
  assume "\<not> ?thesis"
  then have c: "x < vm_end v" "vm_start v < x + len" by (auto simp: not_le)
  have "vm_start v < vm_end v" using ok v by (auto simp: vmas_ok_def vma_ok_def)
  then have "covers v (max x (vm_start v))" "x \<le> max x (vm_start v)" "max x (vm_start v) < x + len"
    using c x by (auto simp: covers_def max_def)
  then show False using free v by (auto simp: area_at_None)
qed

lemma unat_END: "unat USER_SPACE_END = 2 ^ 38" by simp

text \<open>The result of a placement, for both kinds of area.\<close>

lemma vma_allocate_as_ok:
  assumes ok: "vmas_ok (vma_list mm)" and base: "mmap_base mm \<noteq> 0"
    and al: "vma_allocate_as ty fi off hp mm addr len fl = (a, mm')"
  shows "a = 0 \<and> mm' = mm \<or>
    a \<noteq> 0 \<and> a < a + page_up len \<and> a + page_up len \<le> USER_SPACE_END \<and> vmas_ok (vma_list mm') \<and>
      page_table mm' = page_table mm \<and> (addr = 0 \<longrightarrow> mmap_base mm \<le> a) \<and> (addr \<noteq> 0 \<longrightarrow> a = addr) \<and>
      (\<forall>x. a \<le> x \<and> x < a + page_up len \<longrightarrow> area_at (vma_list mm) x = None) \<and>
      (\<forall>x. area_at (vma_list mm') x =
         (if a \<le> x \<and> x < a + page_up len then Some (fl, ty) else area_at (vma_list mm) x))"
proof (cases "a = 0 \<and> mm' = mm")
  case False
  let ?len = "page_up len"
  define g where "g = (if addr = 0 then find_gap (mmap_base mm) ?len (vma_list mm) else addr)"
  obtain n where n: "vma_create hp g (g + ?len) fl ty = Some n" "len \<noteq> 0"
    using al False by (auto simp: vma_allocate_as_def Let_def g_def split: if_splits option.splits prod.splits)
  define n' where "n' = n\<lparr>vm_file := fi, vm_pgoff := off\<rparr>"
  obtain r mm1 where i: "vma_insert mm n' = (r, mm1)" by (cases "vma_insert mm n'")
  have gm: "mmap_base mm \<le> g" if "addr = 0" using find_gap_free [OF ok] that by (simp add: g_def)
  then have g0: "g \<noteq> 0" using base by (cases "addr = 0") (auto simp: g_def)
  note N = n(1) [unfolded vma_create_Some]
  have n'_ok: "vma_ok n'" "vm_start n' = g" "vm_end n' = g + ?len" "vm_flags n' = fl" "vm_type n' = ty"
    using N by (auto simp: n'_def vma_ok_def)
  have "a = g \<and> mm' = mm1 \<and> r \<ge> 0"
    using al False n i by (auto simp: vma_allocate_as_def Let_def g_def n'_def split: if_splits)
  with vma_insert_ok [OF ok n'_ok(1) i]
  have R: "a = g" "vmas_ok (vma_list mm')" "mm' = mm\<lparr>vma_list := vma_list mm'\<rparr>"
    "\<forall>v \<in> set (vma_list mm). \<not> vma_overlaps n' v"
    "\<forall>x. area_at (vma_list mm') x = (if covers n' x then Some (fl, ty) else area_at (vma_list mm) x)"
    using n'_ok by auto
  have "area_at (vma_list mm) x = None" if "g \<le> x" "x < g + ?len" for x
    unfolding area_at_None
  proof
    fix v assume "v \<in> set (vma_list mm)"
    with R(4) n'_ok(2,3) have "g + ?len \<le> vm_start v \<or> vm_end v \<le> g" by (auto simp: vma_overlaps_def)
    then show "\<not> covers v x"
      unfolding covers_def using that by (elim disjE) (auto dest: leD)
  qed
  moreover have "page_table mm' = page_table mm" using arg_cong [OF R(3), of page_table] by simp
  moreover have "addr \<noteq> 0 \<Longrightarrow> g = addr" by (simp add: g_def)
  moreover have "covers n' x \<longleftrightarrow> g \<le> x \<and> x < g + ?len" for x by (simp add: covers_def n'_ok)
  ultimately show ?thesis using R(1,2,5) g0 gm N by simp
qed simp

lemma vma_allocate_as_succeeds:
  assumes ok: "vmas_ok (vma_list mm)" and hp: "hp" "len \<noteq> 0"
    and g: "g = find_gap (mmap_base mm) (page_up len) (vma_list mm)"
    and room: "g < g + page_up len" "g + page_up len \<le> USER_SPACE_END"
  shows "fst (vma_allocate_as ty fi off hp mm 0 len fl) = g"
proof -
  obtain n where n: "vma_create hp g (g + page_up len) fl ty = Some n"
    using hp room by (simp add: vma_create_Some)
  define n' where "n' = n\<lparr>vm_file := fi, vm_pgoff := off\<rparr>"
  have n'_ok: "vma_ok n'" "vm_start n' = g" "vm_end n' = g + page_up len"
    using n [unfolded vma_create_Some] by (auto simp: n'_def vma_ok_def)
  obtain r mm1 where i: "vma_insert mm n' = (r, mm1)" by (cases "vma_insert mm n'")
  have "\<not> vma_overlaps n' v" if "v \<in> set (vma_list mm)" for v
    using find_gap_free [OF ok, of "mmap_base mm" "page_up len"] that n'_ok
    by (auto simp: vma_overlaps_def g)
  then have "r = 0" using vma_insert_ok [OF ok n'_ok(1) i] by auto
  then show ?thesis using n i room hp(2) by (simp add: vma_allocate_as_def Let_def g [symmetric] n'_def order_False)
qed

subsection \<open>Releasing pages\<close>

lemma page_count_Suc:
  assumes "s < (e :: nat)"
  shows "(e - s + 4095) div 4096 = Suc ((e - (s + 4096) + 4095) div 4096)"
proof -
  obtain d where d: "e = s + Suc d" using assms less_iff_Suc_add by auto
  have l: "e - s + 4095 = d + 4096" and r: "e - (s + 4096) + 4095 = (d - 4095) + 4095"
    using d by linarith+
  have "(d - 4095 + 4095) div 4096 = d div 4096"
  proof (cases "d < 4096")
    case True
    then have "d - 4095 + 4095 < 4096" by linarith
    with True show ?thesis by (simp only: div_less)
  next
    case False
    then have "d - 4095 + 4095 = d" by linarith
    then show ?thesis by (simp only:)
  qed
  moreover have "(d + 4096) div 4096 = Suc (d div 4096)" by (subst div_add_self2) simp_all
  ultimately show ?thesis unfolding l r by (simp only:)
qed

text \<open>\<open>page_addrs\<close> is the loop of the source.\<close>

lemma page_addrs_loop:
  assumes "e \<le> USER_SPACE_END"
  shows "page_addrs s e = (if s < e then s # page_addrs (s + PAGE_SIZE) e else [])"
proof (cases "s < e")
  case True
  have e: "unat e \<le> 2 ^ 38" using assms by (simp add: word_le_nat_alt)
  have se: "unat s < unat e" using True by (simp add: word_less_nat_alt)
  have s': "unat (s + PAGE_SIZE) = unat s + 4096"
    using e se by (subst unat_add_no_overflow) auto
  define k where "k = (unat e - unat (s + PAGE_SIZE) + 4095) div 4096"
  have "(unat e - unat s + 4095) div 4096 = Suc k" using page_count_Suc [OF se] s' by (simp add: k_def)
  then have "page_addrs s e = map (\<lambda>i. s + of_nat (i * 4096)) (0 # map Suc [0..<k])"
    unfolding page_addrs_def by (simp only: map_Suc_upt upt_conv_Cons zero_less_Suc)
  also have "\<dots> = s # map (\<lambda>i. s + PAGE_SIZE + of_nat (i * 4096)) [0..<k]"
    by (simp add: algebra_simps)
  finally show ?thesis using True by (simp add: page_addrs_def k_def)
next
  case False
  then have "unat e - unat s = 0" by (simp add: word_less_nat_alt)
  with False show ?thesis by (simp add: page_addrs_def)
qed

definition page_aligned :: "u64 \<Rightarrow> bool" where
  "page_aligned a \<longleftrightarrow> unat a mod 4096 = 0"

lemma vpn_user: "a \<le> USER_SPACE_END \<Longrightarrow> vpn a = unat a div 4096"
  unfolding vpn_def by (subst mod_less) (auto simp: word_le_nat_alt)

lemma vpn_page_addrs:
  assumes "page_aligned s" "s \<le> e" "e \<le> USER_SPACE_END" "page_aligned e"
  shows "map vpn (page_addrs s e) = [unat s div 4096..<unat e div 4096]"
proof -
  have e: "unat e \<le> 2 ^ 38" and se: "unat s \<le> unat e" using assms by (simp_all add: word_le_nat_alt)
  obtain S E where S: "unat s = 4096 * S" "unat e = 4096 * E"
    using assms(1,4) unfolding page_aligned_def by (metis mod_0_imp_dvd dvdE)
  then have "unat e - unat s + 4095 = 4095 + 4096 * (E - S)" by (simp add: diff_mult_distrib2)
  then have n: "(unat e - unat s + 4095) div 4096 = unat e div 4096 - unat s div 4096"
    by (simp only: div_mult_self2 [of 4096, simplified]) (simp add: S)
  have "vpn (s + of_nat (i * 4096)) = unat s div 4096 + i" if "i < unat e div 4096 - unat s div 4096" for i
    unfolding vpn_add using that e vpn_user [of s] assms(2,3) by (subst mod_less) (auto simp: vpn_user)
  then have "map vpn (page_addrs s e) = map (\<lambda>i. unat s div 4096 + i) [0..<unat e div 4096 - unat s div 4096]"
    unfolding page_addrs_def n by simp
  also have "\<dots> = [unat s div 4096..<unat e div 4096]"
    using se by (simp add: map_add_upt [of "unat s div 4096"] add.commute div_le_mono)
  finally show ?thesis .
qed

lemma vpn_in_pages:
  assumes "page_aligned s" "s \<le> e" "e \<le> USER_SPACE_END" "page_aligned e" "w < USER_SPACE_END"
  shows "vpn w \<in> vpn ` set (page_addrs s e) \<longleftrightarrow> s \<le> w \<and> w < e"
proof -
  have "vpn ` set (page_addrs s e) = {unat s div 4096..<unat e div 4096}"
    using arg_cong [OF vpn_page_addrs [OF assms(1-4)], of set] by (simp only: set_map set_upt)
  moreover have "unat s div 4096 \<le> unat w div 4096 \<and> unat w div 4096 < unat e div 4096 \<longleftrightarrow>
      unat s \<le> unat w \<and> unat w < unat e"
  proof -
    obtain S E where S: "unat s = 4096 * S" "unat e = 4096 * E"
      using assms(1,4) unfolding page_aligned_def by (metis mod_0_imp_dvd dvdE)
    then have d: "unat s div 4096 = S" "unat e div 4096 = E" by simp_all
    have "S \<le> unat w div 4096 \<longleftrightarrow> S * 4096 \<le> unat w" by (rule less_eq_div_iff_mult_less_eq) simp
    moreover have "unat w div 4096 < E \<longleftrightarrow> unat w < E * 4096" by (rule div_less_iff_less_mult) simp
    ultimately show ?thesis unfolding d by (simp only: S mult.commute)
  qed
  ultimately show ?thesis using vpn_user [of w] assms(5) by (auto simp: word_le_nat_alt word_less_nat_alt)
qed

lemma free_frame_frames [simp]: "frames (free_frame a m) = frames m"
  by (simp add: free_frame_def)

lemma walk_frames:
  "frames m = frames m' \<Longrightarrow> vmm_get_pte_from_table r v m = vmm_get_pte_from_table r v m'"
  by (simp add: vmm_get_pte_from_table_def read_pte_def Let_def)

lemma free_page_ok:
  assumes T: "pt_tree (frames m) r" "r \<noteq> 0"
  shows "pt_tree (frames (free_page d r a m)) r"
    and "pt_tables (frames (free_page d r a m)) r = pt_tables (frames m) r"
    and "entry_of r (free_page d r a m) w =
      (if vpn w = vpn a \<and> has (entry_of r m w) PT_VALID then 0 else entry_of r m w)"
    and "pmm_of (free_page d r a m) =
      (if \<not> d \<and> has (entry_of r m a) PT_VALID then pmm_free_frame (entry_of r m a AND ADDR_MASK) (pmm_of m)
       else pmm_of m)"
proof -
  have "pt_tree (frames (free_page d r a m)) r \<and>
    pt_tables (frames (free_page d r a m)) r = pt_tables (frames m) r \<and>
    entry_of r (free_page d r a m) w =
      (if vpn w = vpn a \<and> has (entry_of r m w) PT_VALID then 0 else entry_of r m w) \<and>
    pmm_of (free_page d r a m) =
      (if \<not> d \<and> has (entry_of r m a) PT_VALID then pmm_free_frame (entry_of r m a AND ADDR_MASK) (pmm_of m)
       else pmm_of m)"
  proof (cases "vmm_get_pte_from_table r a m")
    case None
    then have "entry_of r m a = 0" by (simp add: entry_of_def)
    then show ?thesis using None T entry_of_vpn [of w a r m] by (simp add: free_page_def)
  next
    case (Some q)
    then have q: "entry_of r m a = read_pte m q" by (rule entry_of_Some)
    show ?thesis
    proof (cases "has (read_pte m q) PT_VALID")
      case True
      define m1 where "m1 = (if d then m else free_frame (read_pte m q AND ADDR_MASK) m)"
      have f: "frames m1 = frames m" by (simp add: m1_def)
      have w: "vmm_get_pte_from_table r a m1 = Some q" using Some walk_frames [OF f] by simp
      have T1: "pt_tree (frames m1) r" using T f by simp
      have fp: "free_page d r a m = write_pte q 0 m1"
        using Some True by (simp add: free_page_def Let_def m1_def)
      have "pmm_of (write_pte q 0 m1) = pmm_of m1" by (simp add: write_pte_def)
      then show ?thesis
        using write_leaf_tree(1,2) [OF T1 T(2) w, of 0] entry_of_write [OF T1 T(2) w, of 0 w]
          entry_of_frames [OF f, of r] entry_of_vpn [of w a r m] True q f
        unfolding fp by (auto simp: m1_def free_frame_def)
    next
      case False
      then show ?thesis using Some T q entry_of_vpn [of w a r m] by (auto simp: free_page_def)
    qed
  qed
  then show "pt_tree (frames (free_page d r a m)) r"
    "pt_tables (frames (free_page d r a m)) r = pt_tables (frames m) r"
    "entry_of r (free_page d r a m) w =
      (if vpn w = vpn a \<and> has (entry_of r m w) PT_VALID then 0 else entry_of r m w)"
    "pmm_of (free_page d r a m) =
      (if \<not> d \<and> has (entry_of r m a) PT_VALID then pmm_free_frame (entry_of r m a AND ADDR_MASK) (pmm_of m)
       else pmm_of m)"
    by blast+
qed

text \<open>The frames that a list of pages maps, in order.\<close>

definition mapped_frames :: "u64 \<Rightarrow> pmem \<Rightarrow> u64 list \<Rightarrow> u64 list" where
  "mapped_frames r m as = map (\<lambda>a. entry_of r m a AND ADDR_MASK) (filter (\<lambda>a. has (entry_of r m a) PT_VALID) as)"

lemma fold_free_page:
  assumes "pt_tree (frames m) r" "r \<noteq> 0" "distinct (map vpn as)"
  shows "pt_tree (frames (fold (free_page d r) as m)) r \<and>
    pt_tables (frames (fold (free_page d r) as m)) r = pt_tables (frames m) r \<and>
    (\<forall>w. entry_of r (fold (free_page d r) as m) w =
      (if vpn w \<in> vpn ` set as \<and> has (entry_of r m w) PT_VALID then 0 else entry_of r m w)) \<and>
    pmm_of (fold (free_page d r) as m) =
      (if d then pmm_of m else fold pmm_free_frame (mapped_frames r m as) (pmm_of m))"
  using assms
proof (induction as arbitrary: m)
  case Nil
  then show ?case by (simp add: mapped_frames_def)
next
  case (Cons a as)
  note F = free_page_ok [OF Cons.prems(1,2), of d a]
  have "vpn x \<noteq> vpn a" if "x \<in> set as" for x using Cons.prems(3) that by (auto simp: rev_image_eqI)
  then have same: "entry_of r (free_page d r a m) x = entry_of r m x" if "x \<in> set as" for x
    using F(3) that by simp
  then have mf: "mapped_frames r (free_page d r a m) as = mapped_frames r m as"
    unfolding mapped_frames_def by (auto intro!: map_cong filter_cong)
  have "distinct (map vpn as)" using Cons.prems(3) by simp
  note IH = Cons.IH [OF F(1) Cons.prems(2) this, unfolded mf]
  have "entry_of r (fold (free_page d r) (a # as) m) w =
      (if vpn w \<in> vpn ` set (a # as) \<and> has (entry_of r m w) PT_VALID then 0 else entry_of r m w)" for w
    using IH F(3) [of w] by auto
  moreover have "pmm_of (fold (free_page d r) (a # as) m) =
      (if d then pmm_of m else fold pmm_free_frame (mapped_frames r m (a # as)) (pmm_of m))"
    using IH F(4) by (cases d) (simp_all add: mapped_frames_def)
  ultimately show ?case using IH F(2) by simp
qed

lemma free_pages_ok:
  assumes "pt_tree (frames m) r" "r \<noteq> 0" "page_aligned s" "s \<le> e" "e \<le> USER_SPACE_END" "page_aligned e"
  shows "pt_tree (frames (free_pages d r s e m)) r"
    and "pt_tables (frames (free_pages d r s e m)) r = pt_tables (frames m) r"
    and "w < USER_SPACE_END \<Longrightarrow> entry_of r (free_pages d r s e m) w =
      (if s \<le> w \<and> w < e \<and> has (entry_of r m w) PT_VALID then 0 else entry_of r m w)"
    and "pmm_of (free_pages d r s e m) =
      (if d then pmm_of m else fold pmm_free_frame (mapped_frames r m (page_addrs s e)) (pmm_of m))"
proof -
  have "distinct (map vpn (page_addrs s e))" unfolding vpn_page_addrs [OF assms(3-6)] by simp
  note F = fold_free_page [OF assms(1,2) this, of d, folded free_pages_def]
  from F show "pt_tree (frames (free_pages d r s e m)) r"
    "pt_tables (frames (free_pages d r s e m)) r = pt_tables (frames m) r"
    "pmm_of (free_pages d r s e m) =
      (if d then pmm_of m else fold pmm_free_frame (mapped_frames r m (page_addrs s e)) (pmm_of m))"
    by simp_all
  show "entry_of r (free_pages d r s e m) w =
      (if s \<le> w \<and> w < e \<and> has (entry_of r m w) PT_VALID then 0 else entry_of r m w)"
    if "w < USER_SPACE_END"
    using F vpn_in_pages [OF assms(3-6) that] by simp
qed

lemma unmap_loop_entries:
  assumes "vmas_ok vs" "\<forall>v \<in> set vs. page_aligned (vm_start v) \<and> page_aligned (vm_end v)"
    "page_aligned s" "page_aligned e" "s < e" "pt_tree (frames m) pt" "pt \<noteq> 0"
    "vma_unmap_loop ok pt s e vs m = (0, l, m')"
  shows "pt_tree (frames m') pt \<and>
    (\<forall>w < USER_SPACE_END. entry_of pt m' w =
       (if s \<le> w \<and> w < e \<and> area_at vs w \<noteq> None \<and> has (entry_of pt m w) PT_VALID then 0 else entry_of pt m w))"
  using assms
proof (induction vs arbitrary: m l m')
  case Nil
  then show ?case by simp
next
  case (Cons v vs)
  have v: "vm_start v < vm_end v" "vm_end v \<le> USER_SPACE_END" "vmas_ok vs"
    "\<forall>v \<in> set vs. page_aligned (vm_start v) \<and> page_aligned (vm_end v)"
    "page_aligned (vm_start v)" "page_aligned (vm_end v)"
    using Cons.prems(1,2) by (auto simp: vma_ok_def)
  note IH = Cons.IH [OF v(3,4) Cons.prems(3-5) _ Cons.prems(7)]
  have step: ?case
    if fp: "x \<le> y" "page_aligned x" "page_aligned y" "y \<le> USER_SPACE_END"
      and xy: "\<forall>w. x \<le> w \<and> w < y \<longleftrightarrow> s \<le> w \<and> w < e \<and> covers v w"
      and l: "vma_unmap_loop ok pt s e vs (free_pages d pt x y m) = (0, l1, m')" for x y d l1
  proof -
    note F = free_pages_ok [OF Cons.prems(6,7) fp(2,1,4,3), where d = d]
    have T: "pt_tree (frames m') pt" and E: "entry_of pt m' w =
       (if s \<le> w \<and> w < e \<and> area_at vs w \<noteq> None \<and> has (entry_of pt (free_pages d pt x y m) w) PT_VALID then 0
        else entry_of pt (free_pages d pt x y m) w)" if "w < USER_SPACE_END" for w
      using IH [OF F(1) l] that by simp_all
    show ?thesis
    proof (intro conjI allI impI)
      show "pt_tree (frames m') pt" using IH [OF F(1) l] by simp
      fix w :: u64 assume w: "w < USER_SPACE_END"
      show "entry_of pt m' w = (if s \<le> w \<and> w < e \<and> area_at (v # vs) w \<noteq> None \<and> has (entry_of pt m w) PT_VALID
          then 0 else entry_of pt m w)"
        using E [OF w] F(3) [OF w] xy [rule_format, of w] by auto
    qed
  qed
  consider (out) "vm_end v \<le> s \<or> vm_start v \<ge> e"
    | (all) "s < vm_end v" "vm_start v < e" "s \<le> vm_start v" "e \<ge> vm_end v"
    | (low) "s < vm_end v" "vm_start v < e" "s \<le> vm_start v" "e < vm_end v"
    | (high) "s < vm_end v" "vm_start v < e" "s > vm_start v" "e \<ge> vm_end v"
    | (hole) "s < vm_end v" "vm_start v < e" "s > vm_start v" "e < vm_end v"
    by (meson not_le)
  then show ?case
  proof cases
    case out
    then obtain l1 where l: "vma_unmap_loop ok pt s e vs m = (0, l1, m')"
      using Cons.prems(8) by (auto simp: order_False split: prod.splits)
    have "\<not> (s \<le> w \<and> w < e \<and> covers v w)" for w using out by (auto simp: covers_def)
    then show ?thesis using IH [OF Cons.prems(6) l] by auto
  next
    case all
    have "\<forall>w. vm_start v \<le> w \<and> w < vm_end v \<longleftrightarrow> s \<le> w \<and> w < e \<and> covers v w"
      using all by (auto simp: covers_def)
    moreover obtain d l1 where "vma_unmap_loop ok pt s e vs (free_pages d pt (vm_start v) (vm_end v) m) = (0, l1, m')"
      using Cons.prems(8) all by (auto simp: Let_def order_False)
    ultimately show ?thesis using v by (intro step [of "vm_start v" "vm_end v"]) auto
  next
    case low
    have "\<forall>w. vm_start v \<le> w \<and> w < e \<longleftrightarrow> s \<le> w \<and> w < e \<and> covers v w"
      using low by (auto simp: covers_def)
    moreover obtain d l1 where "vma_unmap_loop ok pt s e vs (free_pages d pt (vm_start v) e m) = (0, l1, m')"
      using Cons.prems(8) low by (auto simp: Let_def order_False split: prod.splits)
    ultimately show ?thesis using v low Cons.prems(4) by (intro step [of "vm_start v" e]) auto
  next
    case high
    have "\<forall>w. s \<le> w \<and> w < vm_end v \<longleftrightarrow> s \<le> w \<and> w < e \<and> covers v w"
      using high by (auto simp: covers_def)
    moreover obtain d l1 where "vma_unmap_loop ok pt s e vs (free_pages d pt s (vm_end v) m) = (0, l1, m')"
      using Cons.prems(8) high by (auto simp: Let_def order_False split: prod.splits)
    ultimately show ?thesis using v high Cons.prems(3) by (intro step [of s "vm_end v"]) auto
  next
    case hole
    have "\<forall>w. s \<le> w \<and> w < e \<longleftrightarrow> s \<le> w \<and> w < e \<and> covers v w"
      using hole by (auto simp: covers_def)
    moreover obtain d l1 where "vma_unmap_loop ok pt s e vs (free_pages d pt s e m) = (0, l1, m')"
      using Cons.prems(8) hole by (auto simp: Let_def order_False split: prod.splits option.splits)
    ultimately show ?thesis using v hole Cons.prems(3-5) by (intro step [of s e]) auto
  qed
qed

text \<open>The invariant of an address space.\<close>

definition mm_ok :: "mm_struct \<Rightarrow> pmem \<Rightarrow> bool" where
  "mm_ok mm m \<longleftrightarrow> vmas_ok (vma_list mm) \<and>
     (\<forall>v \<in> set (vma_list mm). page_aligned (vm_start v) \<and> page_aligned (vm_end v)) \<and>
     mmap_base mm \<noteq> 0 \<and> page_table mm \<noteq> 0 \<and> pt_tree (frames m) (page_table mm)"

lemma vma_find_area: "area_at (vma_list mm) a = map_option (\<lambda>v. (vm_flags v, vm_type v)) (vma_find mm a)"
  by (simp add: area_at_def vma_find_def)

subsection \<open>Page faults\<close>

text \<open>Only the frames of the tables matter to the walks.\<close>

lemma walk_tables_cong:
  assumes r: "r \<noteq> 0" and eq: "\<forall>t \<in> pt_tables (frames m) r. frames m' t = frames m t"
  shows "vmm_get_pte_from_table r v m' = vmm_get_pte_from_table r v m"
    and "entry_of r m' v = entry_of r m v"
    and "pt_tables (frames m') r = pt_tables (frames m) r"
    and "pt_tree (frames m') r \<longleftrightarrow> pt_tree (frames m) r"
proof -
  have e1: "frames m' r = frames m r" using eq by (simp add: pt_tables_def)
  have e2: "frames m' t = frames m t" if "t \<in> l2_tables (frames m) r" for t
    using eq that by (simp add: pt_tables_def)
  have e2': "frames m' (frames m r i AND ADDR_MASK) = frames m (frames m r i AND ADDR_MASK)"
    if "has (frames m r i) PT_VALID" for i
    using e2 that by (auto simp: l2_tables_def)
  show w: "vmm_get_pte_from_table r v m' = vmm_get_pte_from_table r v m"
    by (auto simp: vmm_get_pte_from_table_def read_pte_def Let_def e1 e2')
  have t2: "l2_tables (frames m') r = l2_tables (frames m) r" by (simp add: l2_tables_def e1)
  have t3: "l3_tables (frames m') r = l3_tables (frames m) r"
    unfolding l3_tables_def t2 using e2 by force
  show "pt_tables (frames m') r = pt_tables (frames m) r" by (simp add: pt_tables_def t2 t3)
  show "pt_tree (frames m') r \<longleftrightarrow> pt_tree (frames m) r"
    unfolding pt_tree_def t2 t3 e1 by (simp add: e2)
  have "fst q \<in> pt_tables (frames m) r" if "vmm_get_pte_from_table r v m = Some q" for q
    using walk_in_l3(1) [OF r that] by (simp add: pt_tables_def)
  then show "entry_of r m' v = entry_of r m v"
    using eq by (auto simp: entry_of_def w read_pte_def split: option.splits)
qed

text \<open>A fresh frame with any contents, as every fault handler allocates one.\<close>

lemma fresh_frame:
  assumes ok: "pt_ok r m" and a: "alloc_frame m = (p, m1)" "p \<noteq> 0"
    and m2: "m2 = m1\<lparr>frames := (frames m1)(p := g)\<rparr>"
  shows "pt_ok r m2" "entry_of r m2 v = entry_of r m v"
    "vmm_get_pte_from_table r v m2 = vmm_get_pte_from_table r v m"
    "p \<in> free_set (pmm_of m)" "p AND ADDR_MASK = p" "free_set (pmm_of m2) = free_set (pmm_of m) - {p}"
    "frame_addrs (pmm_of m2) = frame_addrs (pmm_of m)" "frames m2 = (frames m)(p := g)"
    "p \<notin> pt_tables (frames m) r" "pt_tables (frames m2) r = pt_tables (frames m) r"
proof -
  note O = pt_okD [OF ok]
  obtain s where s: "pmm_alloc_frame (pmm_of m) = (p, s)" "m1 = m\<lparr>pmm_of := s\<rparr>"
    using alloc_frame_cases [OF a(1)] by auto
  note F = pf.alloc_frame [OF O(1) s(1) a(2)]
  show p: "p \<in> free_set (pmm_of m)" using F by simp
  show f: "frames m2 = (frames m)(p := g)" by (simp add: m2 s)
  show nt: "p \<notin> pt_tables (frames m) r" using p O(4) by auto
  then have eq: "\<forall>t \<in> pt_tables (frames m) r. frames m2 t = frames m t" by (auto simp: f)
  note W = walk_tables_cong [OF O(5) eq]
  show "entry_of r m2 v = entry_of r m v" "vmm_get_pte_from_table r v m2 = vmm_get_pte_from_table r v m"
    "pt_tables (frames m2) r = pt_tables (frames m) r"
    by (rule W)+
  show "p AND ADDR_MASK = p"
    using frame_addrs_masked pf.alloc_aligned(1) [OF O(1) s(1) a(2)] by blast
  show fs: "free_set (pmm_of m2) = free_set (pmm_of m) - {p}"
    "frame_addrs (pmm_of m2) = frame_addrs (pmm_of m)" using F by (simp_all add: m2 s)
  show "pt_ok r m2" using O W(3,4) F fs unfolding pt_ok_def by (auto simp: m2 s)
qed

lemma alloc_frame_succeeds:
  assumes "pmm_inv (pmm_of m)" "free_set (pmm_of m) \<noteq> {}"
  shows "fst (alloc_frame m) \<noteq> 0"
  using pf.alloc_none_iff [OF assms(1)] assms(2) by (simp add: alloc_frame_def case_prod_beta)

lemma free_set_left: "finite F \<Longrightarrow> card F \<le> card G + n \<Longrightarrow> n < card F \<Longrightarrow> G \<noteq> {}"
  by auto

lemma ensure_table_taken:
  assumes "pmm_inv (pmm_of m)" "ensure_table t i m = (b, m')"
  shows "pmm_inv (pmm_of m') \<and> pmm_taken (pmm_of m) (pmm_of m')"
proof -
  obtain a s where a: "pmm_alloc_frame (pmm_of m) = (a, s)" by (cases "pmm_alloc_frame (pmm_of m)")
  show ?thesis
    using assms a pmm_alloc_taken [OF assms(1) a] pf.alloc_keeps [OF assms(1) a]
    by (auto simp: ensure_table_def alloc_frame_def write_pte_def memset_zero_page_def Let_def split: if_splits)
qed

lemma walk_alloc_taken:
  assumes inv: "pmm_inv (pmm_of m)" and w: "vmm_get_pte_from_table_alloc r v m = (q, m')"
  shows "pmm_taken (pmm_of m) (pmm_of m')"
proof -
  obtain b1 m1 where e1: "ensure_table r (l1_idx v) m = (b1, m1)" by (cases "ensure_table r (l1_idx v) m")
  note T1 = ensure_table_taken [OF inv e1]
  define t where "t = read_pte m1 (r, l1_idx v) AND ADDR_MASK"
  obtain b2 m2 where e2: "ensure_table t (l2_idx v) m1 = (b2, m2)" by (cases "ensure_table t (l2_idx v) m1")
  have "pmm_taken (pmm_of m1) (pmm_of m2)" using ensure_table_taken [OF _ e2] T1 by simp
  with T1 pmm_taken_trans w e1 e2 show ?thesis
    by (auto simp: vmm_get_pte_from_table_alloc_def Let_def t_def split: if_splits)
qed


text \<open>The bits of the entries that the fault handler builds.\<close>

lemma user_entry_facts:
  assumes "p AND ADDR_MASK = p"
  shows "user_entry p fl AND ADDR_MASK = p" "has (user_entry p fl) PT_VALID"
    "user_entry p fl AND PT_AP_RO_EL0 = (if has fl VMA_WRITE then PT_AP_RW_EL0 else PT_AP_RO_EL0)"
    "has (user_entry p fl) PT_UXN \<longleftrightarrow> \<not> has fl VMA_EXEC"
    "\<not> has (user_entry p fl) PT_SW_COW"
proof -
  define attr :: u64 where "attr = (if has fl VMA_WRITE then if has fl VMA_EXEC then 0x747 else 0x40000000000747
     else if has fl VMA_EXEC then 0x7C7 else 0x400000000007C7)"
  have p7: "p AND NOT 0x80 = p"
  proof -
    have "p AND NOT 0x80 = (p AND ADDR_MASK) AND NOT 0x80" by (simp only: assms)
    also have "\<dots> = p AND (ADDR_MASK AND NOT 0x80)" by (simp only: and.assoc)
    also have "ADDR_MASK AND NOT 0x80 = ADDR_MASK" by simp
    finally show ?thesis using assms by simp
  qed
  have e: "user_entry p fl = p OR attr"
    unfolding user_entry_def Let_def attr_def
    by (cases "has fl VMA_WRITE"; cases "has fl VMA_EXEC";
        simp only: if_True if_False not_True_eq_False not_False_eq_True or.assoc bit.conj_disj_distrib2 p7; simp)
  have m: "(p OR attr) AND f = attr AND f" if "f AND ADDR_MASK = 0" for f
    by (rule masked_or_and [OF assms that])
  have a0: "attr AND ADDR_MASK = 0" by (simp add: attr_def)
  show "user_entry p fl AND ADDR_MASK = p"
    unfolding e using assms a0 by (simp add: bit.conj_disj_distrib2)
  show "has (user_entry p fl) PT_VALID" unfolding e has_def by (subst m) (simp_all add: attr_def)
  show "user_entry p fl AND PT_AP_RO_EL0 = (if has fl VMA_WRITE then PT_AP_RW_EL0 else PT_AP_RO_EL0)"
    unfolding e by (subst m) (simp_all add: attr_def)
  show "has (user_entry p fl) PT_UXN \<longleftrightarrow> \<not> has fl VMA_EXEC"
    unfolding e has_def [of "p OR attr"] by (subst m) (simp_all add: attr_def)
  show "\<not> has (user_entry p fl) PT_SW_COW" unfolding e has_def [of "p OR attr"] by (subst m) (simp_all add: attr_def)
qed

lemma cow_entry_user: "has fl VMA_WRITE \<Longrightarrow> cow_entry p fl = user_entry p fl"
  by (simp add: cow_entry_def user_entry_def Let_def)





lemma page_fault_cow:
  assumes ok: "pt_ok (page_table mm) m" and v: "vma_find mm a = Some v" "has (vm_flags v) VMA_WRITE"
    and e: "has (entry_of (page_table mm) m a) PT_VALID" "has (entry_of (page_table mm) m a) PT_SW_COW"
    and old: "old = entry_of (page_table mm) m a AND ADDR_MASK" "old \<in> frame_addrs (pmm_of m)"
      "old \<notin> free_set (pmm_of m)" "old \<notin> pt_tables (frames m) (page_table mm)" "1 < ref_of (pmm_of m) old"
    and c: "free_set (pmm_of m) \<noteq> {}"
  obtains m' p where "vma_page_fault rd mm a True m = (0, mm, m')" "pt_ok (page_table mm) m'"
    "p \<in> free_set (pmm_of m)" "p AND ADDR_MASK = p" "p \<noteq> old"
    "\<And>w. entry_of (page_table mm) m' w =
       (if vpn w = vpn a then user_entry p (vm_flags v) else entry_of (page_table mm) m w)"
    "frames m' p = frames m old" "frames m' old = frames m old"
    "ref_of (pmm_of m') old = ref_of (pmm_of m) old - 1" "free_set (pmm_of m') = free_set (pmm_of m) - {p}"
proof -
  let ?r = "page_table mm"
  note O = pt_okD [OF ok]
  obtain q where q: "vmm_get_pte_from_table ?r a m = Some q"
    using e(1) by (cases "vmm_get_pte_from_table ?r a m") (auto simp: entry_of_def)
  then have w: "vmm_get_pte_from_table_alloc ?r a m = (Some q, m)" "read_pte m q = entry_of ?r m a"
    using walk_alloc_present [OF O(5) q] entry_of_Some [OF q] by auto
  obtain p m2 where p: "alloc_frame m = (p, m2)" by (cases "alloc_frame m")
  have p0: "p \<noteq> 0" using alloc_frame_succeeds [OF O(1) c] p by simp
  have fr2: "frames m2 = frames m" using alloc_frame_cases [OF p] by auto
  define m3 where "m3 = copy_page p old m2"
  have m3: "m3 = m2\<lparr>frames := (frames m2)(p := frames m old)\<rparr>" by (simp add: m3_def copy_page_def fr2)
  note F = fresh_frame [OF ok p p0 m3]
  define m4 where "m4 = write_pte q (cow_entry p (vm_flags v)) m3"
  define m5 where "m5 = free_frame old m4"
  have q3: "vmm_get_pte_from_table ?r a m3 = Some q" using F(3) q by simp
  have run: "vma_page_fault rd mm a True m = (0, mm, m5)"
    using v w e p p0 old(1) by (auto simp: vma_page_fault_def Let_def m3_def m4_def m5_def)
  have po: "p \<noteq> old" using F(4) old(3) by auto
  have tq: "fst q \<in> pt_tables (frames m) ?r" using walk_in_l3(1) [OF O(5) q] by (simp add: pt_tables_def)
  have pm: "pmm_of m4 = pmm_of m3" by (simp add: m4_def write_pte_def)
  note O4 = pt_okD [OF write_leaf(1) [OF F(1) q3, of "cow_entry p (vm_flags v)"], folded m4_def]
  have held: "old \<in> frame_addrs (pmm_of m4)" "old \<notin> free_set (pmm_of m4)"
    using old(2,3) F(6,7) by (auto simp: pm)
  have ref4: "ref_of (pmm_of m4) old = ref_of (pmm_of m) old"
    using alloc_frame_cases [OF p] pmm_alloc_taken [OF O(1)] old(2,3)
    by (auto simp: pm m3 pmm_taken_def)
  note R = pmm_free_frame_inv [OF O4(1) held]
  have fs: "free_set (pmm_of m5) = free_set (pmm_of m) - {p}"
    using R(2) ref4 old(5) F(6) by (simp add: m5_def free_frame_def pm order_False)
  show thesis
  proof (rule that [OF run])
    show "pt_ok ?r m5" using O4 R fs F(6) unfolding pt_ok_def m5_def by (simp add: free_frame_def pm)
    show "p \<in> free_set (pmm_of m)" "p AND ADDR_MASK = p" "p \<noteq> old" using F(4,5) po by auto
    show "entry_of ?r m5 w' = (if vpn w' = vpn a then user_entry p (vm_flags v) else entry_of ?r m w')" for w'
    proof -
      have "entry_of ?r m5 w' = entry_of ?r m4 w'" by (rule entry_of_frames) (simp add: m5_def)
      then show ?thesis
        unfolding m4_def entry_of_write [OF pt_okD(2,5) [OF F(1)] q3] using F(2) cow_entry_user [OF v(2)] by simp
    qed
    show "frames m5 p = frames m old" "frames m5 old = frames m old"
      using F(8,9) tq old(4) po by (auto simp: m5_def m4_def write_pte_def)
    have pos: "0 < ref_of (pmm_of m4) old" using old(5) ref4 by (simp add: word_less_nat_alt)
    show "ref_of (pmm_of m5) old = ref_of (pmm_of m) old - 1"
      using pmm_free_frame_ref(1) [OF O4(1) held(1) pos] ref4 by (simp add: m5_def free_frame_def)
    show "free_set (pmm_of m5) = free_set (pmm_of m) - {p}" by (rule fs)
  qed
qed


subsection \<open>Copying an address space\<close>

text \<open>What \<open>mm_duplicate\<close> does to the entry of a private page that the user can read.\<close>

definition cow_mark :: "bool \<Rightarrow> u64 \<Rightarrow> u64" where
  "cow_mark shared e =
     (if \<not> shared \<and> has e PT_AP_RW_EL0 then (e AND NOT 0xC0) OR PT_AP_RO_EL0 OR PT_SW_COW else e)"

lemma has_nothing [simp]: "\<not> has e 0"
  by (simp add: has_def)

lemma cow_mark_facts:
  "cow_mark sh e AND ADDR_MASK = e AND ADDR_MASK" "has (cow_mark sh e) PT_VALID \<longleftrightarrow> has e PT_VALID"
  "\<not> sh \<Longrightarrow> cow_mark sh e AND PT_AP_RO_EL0 \<noteq> PT_AP_RW_EL0"
proof -
  let ?c = "(e AND NOT 0xC0) OR PT_AP_RO_EL0 OR PT_SW_COW"
  have c: "?c AND f = (e AND (NOT 0xC0 AND f)) OR ((PT_AP_RO_EL0 OR PT_SW_COW) AND f)" for f
    by (simp only: bit.conj_disj_distrib2 and.assoc or.assoc)
  have "?c AND ADDR_MASK = e AND ADDR_MASK" by (simp only: c) simp
  then show "cow_mark sh e AND ADDR_MASK = e AND ADDR_MASK" by (simp add: cow_mark_def)
  have "?c AND PT_VALID = e AND PT_VALID" by (simp only: c) simp
  then show "has (cow_mark sh e) PT_VALID \<longleftrightarrow> has e PT_VALID" by (simp add: cow_mark_def has_def)
  show "cow_mark sh e AND PT_AP_RO_EL0 \<noteq> PT_AP_RW_EL0" if "\<not> sh"
  proof (cases "has e PT_AP_RW_EL0")
    case True
    have "?c AND PT_AP_RO_EL0 = PT_AP_RO_EL0" by (simp only: c) simp
    with True that show ?thesis by (simp add: cow_mark_def)
  next
    case False
    then have z: "(e AND PT_AP_RO_EL0) AND PT_AP_RW_EL0 = 0" by (simp add: has_def and.assoc)
    have "e AND PT_AP_RO_EL0 \<noteq> PT_AP_RW_EL0"
    proof
      assume "e AND PT_AP_RO_EL0 = PT_AP_RW_EL0"
      from z [unfolded this] show False by simp
    qed
    with False that show ?thesis by (simp add: cow_mark_def)
  qed
qed

text \<open>Two address spaces with separate tables.\<close>

definition two_ok :: "u64 \<Rightarrow> u64 \<Rightarrow> pmem \<Rightarrow> bool" where
  "two_ok ro rn m \<longleftrightarrow> pt_ok ro m \<and> pt_ok rn m \<and> pt_tables (frames m) ro \<inter> pt_tables (frames m) rn = {}"

text \<open>The frames of the mapped user pages are held and are no tables.\<close>

definition leaves_held :: "u64 \<Rightarrow> pmem \<Rightarrow> bool" where
  "leaves_held r m \<longleftrightarrow>
     (\<forall>w. has (entry_of r m w) PT_VALID \<longrightarrow>
        entry_of r m w AND ADDR_MASK \<in> frame_addrs (pmm_of m) - free_set (pmm_of m) - pt_tables (frames m) r)"

lemma grow_other:
  assumes ok: "pt_ok ro m" and g: "pt_grow rn m m'" and ok': "pt_ok rn m'" and d: "pt_tables (frames m) ro \<inter> pt_tables (frames m) rn = {}"
  shows "pt_ok ro m'" "\<And>v. vmm_get_pte_from_table ro v m' = vmm_get_pte_from_table ro v m"
    "\<And>v. entry_of ro m' v = entry_of ro m v" "pt_tables (frames m') ro = pt_tables (frames m) ro"
    "pt_tables (frames m') ro \<inter> pt_tables (frames m') rn = {}"
proof -
  note O = pt_okD [OF ok] and G = pt_growD [OF g]
  have eq: "\<forall>t \<in> pt_tables (frames m) ro. frames m' t = frames m t"
    using G(4) d O(4) by blast
  note W = walk_tables_cong [OF O(5) eq]
  have fs: "free_set (pmm_of m') \<subseteq> free_set (pmm_of m)" using g by (simp add: pt_grow_def)
  show "vmm_get_pte_from_table ro v m' = vmm_get_pte_from_table ro v m" for v by (rule W)
  show "entry_of ro m' v = entry_of ro m v" for v by (rule W)
  show t: "pt_tables (frames m') ro = pt_tables (frames m) ro" by (rule W)
  show "pt_ok ro m'" using O W(4) t fs pt_okD(1) [OF ok'] unfolding pt_ok_def by auto
  show "pt_tables (frames m') ro \<inter> pt_tables (frames m') rn = {}"
    unfolding t using G(5) d O(4) by blast
qed

lemma write_other:
  assumes o: "two_ok ro rn m" and w: "vmm_get_pte_from_table ro v m = Some q"
  shows "two_ok ro rn (write_pte q x m)" "entry_of rn (write_pte q x m) u = entry_of rn m u"
    "vmm_get_pte_from_table rn u (write_pte q x m) = vmm_get_pte_from_table rn u m"
    "entry_of ro (write_pte q x m) u = (if vpn u = vpn v then x else entry_of ro m u)"
    "pt_tables (frames (write_pte q x m)) ro = pt_tables (frames m) ro"
    "pt_tables (frames (write_pte q x m)) rn = pt_tables (frames m) rn"
proof -
  from o have ok: "pt_ok ro m" "pt_ok rn m" and d: "pt_tables (frames m) ro \<inter> pt_tables (frames m) rn = {}"
    by (auto simp: two_ok_def)
  note O = pt_okD [OF ok(1)] and N = pt_okD [OF ok(2)]
  have "fst q \<in> pt_tables (frames m) ro" using walk_in_l3(1) [OF O(5) w] by (simp add: pt_tables_def)
  then have eq: "\<forall>t \<in> pt_tables (frames m) rn. frames (write_pte q x m) t = frames m t"
    using d by (auto simp: write_pte_def)
  note W = walk_tables_cong [OF N(5) eq] and L = write_leaf_tree [OF O(2,5) w, where v = x]
  show "entry_of rn (write_pte q x m) u = entry_of rn m u"
    "vmm_get_pte_from_table rn u (write_pte q x m) = vmm_get_pte_from_table rn u m" by (rule W)+
  show t: "pt_tables (frames (write_pte q x m)) ro = pt_tables (frames m) ro"
    "pt_tables (frames (write_pte q x m)) rn = pt_tables (frames m) rn" by (rule L W)+
  show "entry_of ro (write_pte q x m) u = (if vpn u = vpn v then x else entry_of ro m u)"
    by (rule entry_of_write [OF O(2,5) w])
  have "pmm_of (write_pte q x m) = pmm_of m" by (simp add: write_pte_def)
  then have "pt_ok rn (write_pte q x m)" using N W(4) t(2) unfolding pt_ok_def by simp
  then show "two_ok ro rn (write_pte q x m)" using write_leaf(1) [OF ok(1) w] d t unfolding two_ok_def by simp
qed

lemma two_ok_sym: "two_ok a b m \<longleftrightarrow> two_ok b a m"
  by (auto simp: two_ok_def)

text \<open>
  One page: it is skipped, or it is shared with the mark, or the tables of the copy cannot be
  built because no frame is free.
\<close>

definition refs_up :: "pmem \<Rightarrow> pmem \<Rightarrow> bool" where
  "refs_up m m' \<longleftrightarrow> free_set (pmm_of m') \<subseteq> free_set (pmm_of m) \<and>
     frame_addrs (pmm_of m') = frame_addrs (pmm_of m) \<and>
     (\<forall>b \<in> frame_addrs (pmm_of m) - free_set (pmm_of m). ref_of (pmm_of m) b \<le> ref_of (pmm_of m') b)"

definition dup_shared :: "bool \<Rightarrow> u64 \<Rightarrow> u64 \<Rightarrow> u64 \<Rightarrow> pmem \<Rightarrow> pmem \<Rightarrow> bool" where
  "dup_shared sh ro rn a m m' \<longleftrightarrow>
     entry_of ro m' a = cow_mark sh (entry_of ro m a) \<and> entry_of rn m' a = entry_of ro m' a \<and>
     (let b = entry_of ro m a AND ADDR_MASK
      in ref_of (pmm_of m) b < ref_of (pmm_of m') b \<or> ref_of (pmm_of m') b = 255)"

definition dup_failed :: "u64 \<Rightarrow> u64 \<Rightarrow> u64 \<Rightarrow> pmem \<Rightarrow> pmem \<Rightarrow> bool" where
  "dup_failed ro rn a m m' \<longleftrightarrow>
     entry_of ro m' a = entry_of ro m a \<and> entry_of rn m' a = entry_of rn m a \<and> free_set (pmm_of m') = {}"

lemma leaves_held_step:
  assumes H: "leaves_held ro m" and fs: "refs_up m m'" and t: "pt_tables (frames m') ro = pt_tables (frames m) ro"
    and e: "\<And>w. entry_of ro m' w AND ADDR_MASK = entry_of ro m w AND ADDR_MASK \<and>
      (has (entry_of ro m' w) PT_VALID \<longleftrightarrow> has (entry_of ro m w) PT_VALID)"
  shows "leaves_held ro m'"
  using H fs unfolding leaves_held_def t refs_up_def by (auto simp: e)

lemma dup_page_ok:
  assumes o: "two_ok ro rn m" and H: "leaves_held ro m" and m': "m' = dup_page sh ro rn a m"
  shows "two_ok ro rn m'" "leaves_held ro m'" "refs_up m m'"
    and "vpn w \<noteq> vpn a \<Longrightarrow> entry_of ro m' w = entry_of ro m w \<and> entry_of rn m' w = entry_of rn m w"
    and "\<not> has (entry_of ro m a) PT_VALID \<Longrightarrow> entry_of ro m' a = entry_of ro m a \<and> entry_of rn m' a = entry_of rn m a"
    and "has (entry_of ro m a) PT_VALID \<Longrightarrow> dup_shared sh ro rn a m m' \<or> dup_failed ro rn a m m'"
proof -
  from o have ok: "pt_ok ro m" "pt_ok rn m" and d: "pt_tables (frames m) ro \<inter> pt_tables (frames m) rn = {}"
    by (auto simp: two_ok_def)
  note O = pt_okD [OF ok(1)]
  have "two_ok ro rn m' \<and> leaves_held ro m' \<and> refs_up m m' \<and>
    (\<forall>w. vpn w \<noteq> vpn a \<longrightarrow> entry_of ro m' w = entry_of ro m w \<and> entry_of rn m' w = entry_of rn m w) \<and>
    (\<not> has (entry_of ro m a) PT_VALID \<longrightarrow> entry_of ro m' a = entry_of ro m a \<and> entry_of rn m' a = entry_of rn m a) \<and>
    (has (entry_of ro m a) PT_VALID \<longrightarrow> dup_shared sh ro rn a m m' \<or> dup_failed ro rn a m m')"
  proof (cases "has (entry_of ro m a) PT_VALID")
    case False
    then have "m' = m" unfolding m' dup_page_def by (auto simp: entry_of_def split: option.splits)
    with False o H show ?thesis by (simp add: refs_up_def)
  next
    case True
    then obtain qo where qo: "vmm_get_pte_from_table ro a m = Some qo"
      by (cases "vmm_get_pte_from_table ro a m") (auto simp: entry_of_def)
    obtain res m1 where w: "vmm_get_pte_from_table_alloc rn a m = (res, m1)"
      by (cases "vmm_get_pte_from_table_alloc rn a m")
    note A = walk_alloc [OF ok(2) w]
    note G = grow_other [OF ok(1) A(2,1) d]
    have en: "entry_of rn m1 w = entry_of rn m w" for w by (rule entry_of_grow [OF A(2)])
    have o1: "two_ok ro rn m1" using G A(1) by (simp add: two_ok_def)
    note tk = walk_alloc_taken [OF O(1) w, unfolded pmm_taken_def]
    have up1: "refs_up m m1" using tk by (auto simp: refs_up_def)
    have H1: "leaves_held ro m1" by (rule leaves_held_step [OF H up1 G(4)]) (simp add: G(3))
    have eqo: "read_pte m qo = entry_of ro m a" using entry_of_Some [OF qo] by simp
    show ?thesis
    proof (cases res)
      case None
      have "m' = m1" using qo True w None eqo by (simp add: m' dup_page_def)
      moreover have "dup_failed ro rn a m m1" using A(3) [OF None] G(3) en by (simp add: dup_failed_def)
      ultimately show ?thesis using o1 H1 up1 G(3) en True by simp
    next
      case (Some qn)
      have qo1: "vmm_get_pte_from_table ro a m1 = Some qo" using G(2) qo by simp
      have e1: "read_pte m1 qo = entry_of ro m a" using entry_of_Some [OF qo1] G(3) by simp
      define c where "c = cow_mark sh (entry_of ro m a)"
      define m2 where "m2 = write_pte qo c m1"
      note W2 = write_other [OF o1 qo1, where x = c, folded m2_def]
      have qn2: "vmm_get_pte_from_table rn a m2 = Some qn" using W2(3) A(4) [OF Some] by simp
      have r2: "read_pte m2 qo = c" by (simp add: m2_def write_pte_def read_pte_def)
      define m3 where "m3 = write_pte qn c m2"
      note W3 = write_other [OF W2(1) [THEN two_ok_sym [THEN iffD1]] qn2, where x = c, folded m3_def]
      define b where "b = entry_of ro m a AND ADDR_MASK"
      have same: "write_pte qo (entry_of ro m a) m1 = m1"
        using e1 [symmetric] by (simp add: write_pte_def read_pte_def)
      have m'3: "m' = m3\<lparr>pmm_of := pmm_inc_ref b (pmm_of m3)\<rparr>"
        using qo True w Some eqo e1 r2 same
        by (auto simp: m' dup_page_def m3_def m2_def c_def cow_mark_def b_def Let_def)
      have pm: "pmm_of m3 = pmm_of m1" by (simp add: m3_def m2_def write_pte_def)
      have bh: "b \<in> frame_addrs (pmm_of m3)" "b \<notin> free_set (pmm_of m3)"
        using H1 True G(3) unfolding leaves_held_def pm b_def by (metis DiffD1 DiffD2)+
      have o3: "two_ok ro rn m3" using W3(1) two_ok_sym by blast
      then have inv3: "pmm_inv (pmm_of m3)" using pt_okD(1) by (auto simp: two_ok_def)
      note I = pmm_inc_ref_inv [OF inv3 bh]
      have fr: "frames m' = frames m3" by (simp add: m'3)
      have eo: "entry_of ro m' w = (if vpn w = vpn a then c else entry_of ro m w)" for w
        using entry_of_frames [OF fr] W3(2) W2(4) G(3) by simp
      have en': "entry_of rn m' w = (if vpn w = vpn a then c else entry_of rn m w)" for w
        using entry_of_frames [OF fr] W3(4) W2(2) en by simp
      have o': "two_ok ro rn m'"
        using o3 I(1,2) unfolding two_ok_def pt_ok_def fr by (simp add: m'3)
      have rb: "ref_of (pmm_of m3) x \<le> ref_of (pmm_of m') x" if "x \<in> frame_addrs (pmm_of m3)" for x
      proof (cases "x = b")
        case True
        have "ref_of (pmm_of m3) b \<le> ref_of (pmm_of m3) b + 1" if "ref_of (pmm_of m3) b < 255"
          using unat_inc [OF that] by (simp add: word_le_nat_alt)
        then show ?thesis using I(3) True by (simp add: m'3)
      qed (use I(4) that m'3 in simp)
      have fa: "frame_addrs (pmm_of m') = frame_addrs (pmm_of m3)" using I(5) by (simp add: m'3 frame_addrs_def)
      have up: "refs_up m m'"
        using up1 rb I(2) fa unfolding refs_up_def pm [symmetric]
        by (simp add: m'3) (metis DiffD1 Diff_iff order_trans)
      have lt: "ref_of (pmm_of m) b < ref_of (pmm_of m') b \<or> ref_of (pmm_of m') b = 255"
      proof -
        have m3b: "ref_of (pmm_of m3) b = ref_of (pmm_of m) b"
          using tk H True unfolding pm leaves_held_def b_def by (metis DiffD1 DiffD2)
        show ?thesis
        proof (cases "ref_of (pmm_of m3) b < 255")
          case True
          then show ?thesis using I(3) unat_inc [OF True] m3b by (simp add: m'3 word_less_nat_alt)
        next
          case False
          then have "unat (ref_of (pmm_of m3) b) = 255"
            using unat_lt2p [of "ref_of (pmm_of m3) b"] by (simp add: word_less_nat_alt)
          then have "ref_of (pmm_of m3) b = 255" by (intro word_eq_unatI) simp
          with False I(3) show ?thesis by (simp add: m'3)
        qed
      qed
      have ds: "dup_shared sh ro rn a m m'"
        using eo [of a] en' [of a] lt by (simp add: dup_shared_def c_def b_def)
      have ce: "c AND ADDR_MASK = entry_of ro m a AND ADDR_MASK" "has c PT_VALID \<longleftrightarrow> has (entry_of ro m a) PT_VALID"
        by (simp_all add: c_def cow_mark_facts)
      have "leaves_held ro m'"
      proof (rule leaves_held_step [OF H up])
        show "pt_tables (frames m') ro = pt_tables (frames m) ro" unfolding fr using W3(6) W2(5) G(4) by simp
        fix w show "entry_of ro m' w AND ADDR_MASK = entry_of ro m w AND ADDR_MASK \<and>
          (has (entry_of ro m' w) PT_VALID \<longleftrightarrow> has (entry_of ro m w) PT_VALID)"
          using eo [of w] ce entry_of_vpn [of w a ro m] by auto
      qed
      with o' up ds eo en' True show ?thesis by simp
    qed
  qed
  then show "two_ok ro rn m'" "leaves_held ro m'" "refs_up m m'"
    "vpn w \<noteq> vpn a \<Longrightarrow> entry_of ro m' w = entry_of ro m w \<and> entry_of rn m' w = entry_of rn m w"
    "\<not> has (entry_of ro m a) PT_VALID \<Longrightarrow> entry_of ro m' a = entry_of ro m a \<and> entry_of rn m' a = entry_of rn m a"
    "has (entry_of ro m a) PT_VALID \<Longrightarrow> dup_shared sh ro rn a m m' \<or> dup_failed ro rn a m m'"
    by blast+
qed

definition page_dup :: "bool \<Rightarrow> u64 \<Rightarrow> u64 \<Rightarrow> pmem \<Rightarrow> pmem \<Rightarrow> u64 \<Rightarrow> bool" where
  "page_dup sh ro rn m m' a \<longleftrightarrow>
     (if has (entry_of ro m a) PT_VALID then dup_shared sh ro rn a m m' \<or> dup_failed ro rn a m m'
      else entry_of ro m' a = entry_of ro m a \<and> entry_of rn m' a = entry_of rn m a)"

lemma refs_up_trans:
  assumes "refs_up m m1" "refs_up m1 m2"
  shows "refs_up m m2"
proof -
  have "ref_of (pmm_of m) b \<le> ref_of (pmm_of m2) b" if "b \<in> frame_addrs (pmm_of m) - free_set (pmm_of m)" for b
    by (rule order_trans [of _ "ref_of (pmm_of m1) b"]) (use assms that in \<open>auto simp: refs_up_def\<close>)
  then show ?thesis using assms by (auto simp: refs_up_def)
qed

lemma leaf_held:
  assumes "leaves_held r m" "has (entry_of r m a) PT_VALID"
  shows "entry_of r m a AND ADDR_MASK \<in> frame_addrs (pmm_of m) - free_set (pmm_of m)"
  using assms by (auto simp: leaves_held_def)

lemma u8_255: "(255 :: u8) \<le> x \<Longrightarrow> x = 255"
  using unat_lt2p [of x] by (intro word_eq_unatI) (simp add: word_le_nat_alt)

lemma page_dup_later:
  assumes p: "page_dup sh ro rn m m1 a" and H: "leaves_held ro m" and u: "refs_up m m1" "refs_up m1 m2"
    and e: "entry_of ro m2 a = entry_of ro m1 a" "entry_of rn m2 a = entry_of rn m1 a"
  shows "page_dup sh ro rn m m2 a"
proof (cases "has (entry_of ro m a) PT_VALID")
  case True
  define b where "b = entry_of ro m a AND ADDR_MASK"
  have "b \<in> frame_addrs (pmm_of m1) - free_set (pmm_of m1)"
    using leaf_held [OF H True] u(1) by (auto simp: refs_up_def b_def)
  then have le: "ref_of (pmm_of m1) b \<le> ref_of (pmm_of m2) b" using u(2) by (simp add: refs_up_def)
  have "ref_of (pmm_of m) b < ref_of (pmm_of m2) b \<or> ref_of (pmm_of m2) b = 255"
    if "ref_of (pmm_of m) b < ref_of (pmm_of m1) b \<or> ref_of (pmm_of m1) b = 255"
    using that le by (auto dest: u8_255 order_less_le_trans)
  moreover have "free_set (pmm_of m2) = {}" if "free_set (pmm_of m1) = {}"
    using u(2) that by (auto simp: refs_up_def)
  ultimately show ?thesis
    using p True by (auto simp: page_dup_def dup_shared_def dup_failed_def e Let_def b_def)
qed (use p e in \<open>simp add: page_dup_def\<close>)

lemma page_dup_earlier:
  assumes p: "page_dup sh ro rn m1 m2 a" and H: "leaves_held ro m" and u: "refs_up m m1"
    and e: "entry_of ro m1 a = entry_of ro m a" "entry_of rn m1 a = entry_of rn m a"
  shows "page_dup sh ro rn m m2 a"
proof (cases "has (entry_of ro m a) PT_VALID")
  case True
  have "ref_of (pmm_of m) (entry_of ro m a AND ADDR_MASK) \<le> ref_of (pmm_of m1) (entry_of ro m a AND ADDR_MASK)"
    using leaf_held [OF H True] u by (simp add: refs_up_def)
  then show ?thesis
    using p True by (auto simp: page_dup_def dup_shared_def dup_failed_def e Let_def dest: order_le_less_trans)
qed (use p e in \<open>simp add: page_dup_def\<close>)

definition dup_steps :: "u64 \<Rightarrow> u64 \<Rightarrow> (bool \<times> u64) list \<Rightarrow> pmem \<Rightarrow> pmem" where
  "dup_steps ro rn ps m = fold (\<lambda>(sh, a). dup_page sh ro rn a) ps m"

lemma dup_steps_ok:
  assumes "two_ok ro rn m" "leaves_held ro m" "distinct (map (\<lambda>(sh, a). vpn a) ps)"
  shows "two_ok ro rn (dup_steps ro rn ps m) \<and> leaves_held ro (dup_steps ro rn ps m) \<and>
    refs_up m (dup_steps ro rn ps m) \<and>
    (\<forall>w. vpn w \<notin> (\<lambda>(sh, a). vpn a) ` set ps \<longrightarrow>
       entry_of ro (dup_steps ro rn ps m) w = entry_of ro m w \<and>
       entry_of rn (dup_steps ro rn ps m) w = entry_of rn m w) \<and>
    (\<forall>(sh, a) \<in> set ps. page_dup sh ro rn m (dup_steps ro rn ps m) a)"
  using assms
proof (induction ps arbitrary: m)
  case Nil
  then show ?case by (simp add: dup_steps_def refs_up_def)
next
  case (Cons p ps)
  obtain sh a where p: "p = (sh, a)" by (cases p)
  define m1 where "m1 = dup_page sh ro rn a m"
  define m2 where "m2 = dup_steps ro rn ps m1"
  note D = dup_page_ok [OF Cons.prems(1,2) m1_def]
  have m2: "dup_steps ro rn (p # ps) m = m2" by (simp add: dup_steps_def p m1_def m2_def)
  have nin: "vpn a \<notin> (\<lambda>(sh, a). vpn a) ` set ps" and "distinct (map (\<lambda>(sh, a). vpn a) ps)"
    using Cons.prems(3) by (auto simp: p)
  from Cons.IH [OF D(1,2) this(2), folded m2_def]
  have IH: "two_ok ro rn m2" "leaves_held ro m2" "refs_up m1 m2"
    "\<And>w. vpn w \<notin> (\<lambda>(sh, a). vpn a) ` set ps \<Longrightarrow> entry_of ro m2 w = entry_of ro m1 w \<and> entry_of rn m2 w = entry_of rn m1 w"
    "\<And>s x. (s, x) \<in> set ps \<Longrightarrow> page_dup s ro rn m1 m2 x"
    by blast+
  have "page_dup sh ro rn m m1 a" using D(5,6) by (simp add: page_dup_def)
  then have "page_dup sh ro rn m m2 a"
    using page_dup_later Cons.prems(2) D(3) IH(3) IH(4) [OF nin] by blast
  moreover have "page_dup s ro rn m m2 x" if "(s, x) \<in> set ps" for s x
  proof -
    have "vpn x \<noteq> vpn a" using nin that by force
    then show ?thesis using page_dup_earlier [OF IH(5) [OF that] Cons.prems(2) D(3)] D(4) by blast
  qed
  moreover have "entry_of ro m2 w = entry_of ro m w \<and> entry_of rn m2 w = entry_of rn m w"
    if "vpn w \<notin> (\<lambda>(sh, a). vpn a) ` set (p # ps)" for w
    using that IH(4) [of w] D(4) [of w] by (simp add: p)
  ultimately show ?case using IH(1-3) refs_up_trans [OF D(3) IH(3)] unfolding m2 by (auto simp: p)
qed

text \<open>The pages of all areas, and their numbers.\<close>

definition vma_pages :: "vma list \<Rightarrow> (bool \<times> u64) list" where
  "vma_pages vs = concat (map (\<lambda>v. map (Pair (has (vm_flags v) VMA_SHARED)) (page_addrs (vm_start v) (vm_end v))) vs)"

lemma vma_pages_distinct:
  assumes "vmas_ok vs" "\<forall>v \<in> set vs. page_aligned (vm_start v) \<and> page_aligned (vm_end v)"
  shows "distinct (map (\<lambda>(sh, a). vpn a) (vma_pages vs)) \<and>
    (\<lambda>(sh, a). vpn a) ` set (vma_pages vs) = (\<Union>v \<in> set vs. {unat (vm_start v) div 4096..<unat (vm_end v) div 4096})"
  using assms
proof (induction vs)
  case Nil
  then show ?case by (simp add: vma_pages_def)
next
  case (Cons v vs)
  have v: "page_aligned (vm_start v)" "vm_start v \<le> vm_end v" "vm_end v \<le> USER_SPACE_END" "page_aligned (vm_end v)"
    using Cons.prems by (auto simp: vma_ok_def)
  let ?hd = "map (Pair (has (vm_flags v) VMA_SHARED)) (page_addrs (vm_start v) (vm_end v))"
  have hd: "map (\<lambda>(sh, a). vpn a) ?hd = [unat (vm_start v) div 4096..<unat (vm_end v) div 4096]"
    using vpn_page_addrs [OF v] by (simp add: comp_def)
  have split: "vma_pages (v # vs) = ?hd @ vma_pages vs" by (simp add: vma_pages_def)
  have sep: "{unat (vm_start v) div 4096..<unat (vm_end v) div 4096} \<inter>
      (\<Union>v \<in> set vs. {unat (vm_start v) div 4096..<unat (vm_end v) div 4096}) = {}"
  proof -
    have "unat (vm_end v) div 4096 \<le> unat (vm_start w) div 4096" if "w \<in> set vs" for w
      using Cons.prems(1) that by (intro div_le_mono) (auto simp: word_le_nat_alt)
    then show ?thesis by fastforce
  qed
  have IH: "distinct (map (\<lambda>(sh, a). vpn a) (vma_pages vs))"
    "(\<lambda>(sh, a). vpn a) ` set (vma_pages vs) = (\<Union>v \<in> set vs. {unat (vm_start v) div 4096..<unat (vm_end v) div 4096})"
    using Cons by auto
  have set_hd: "(\<lambda>(sh, a). vpn a) ` set ?hd = {unat (vm_start v) div 4096..<unat (vm_end v) div 4096}"
    using arg_cong [OF hd, of set] by (simp only: set_map set_upt)
  have set_tl: "set (map (\<lambda>(sh, a). vpn a) (vma_pages vs)) =
      (\<Union>v \<in> set vs. {unat (vm_start v) div 4096..<unat (vm_end v) div 4096})"
    by (simp only: set_map IH(2))
  have "distinct (map (\<lambda>(sh, a). vpn a) (vma_pages (v # vs)))"
    by (simp only: split map_append distinct_append hd distinct_upt set_upt set_tl IH(1) sep simp_thms)
  moreover have "(\<lambda>(sh, a). vpn a) ` set (vma_pages (v # vs)) =
      (\<Union>v \<in> set (v # vs). {unat (vm_start v) div 4096..<unat (vm_end v) div 4096})"
    by (simp only: split set_append image_Un set_hd IH(2) list.set UN_insert)
  ultimately show ?case by blast
qed

lemma insert_after_end:
  assumes "vma_ok n" "\<forall>v \<in> set (p # vs). vm_end v \<le> vm_start n \<and> vma_ok v"
  shows "insert_after n p vs = p # vs @ [n]"
  using assms
proof (induction n p vs rule: insert_after.induct)
  case (2 n prev v vs)
  then have "vm_start v < vm_start n" by (force simp: vma_ok_def)
  with 2 show ?case by simp
qed simp

lemma vma_insert_end:
  assumes "vma_ok n" "\<forall>v \<in> set (vma_list mm). vm_end v \<le> vm_start n \<and> vma_ok v"
  shows "vma_insert mm n = (0, mm\<lparr>vma_list := vma_list mm @ [n]\<rparr>)"
proof -
  have "\<not> list_ex (vma_overlaps n) (vma_list mm)" using assms(2) by (auto simp: list_ex_iff vma_overlaps_def)
  moreover have "\<not> vm_start n < vm_start h" if "vma_list mm = h # vs" for h vs
    using assms(2) that by (force simp: vma_ok_def)
  ultimately show ?thesis
    using insert_after_end [OF assms(1)] assms(2)
    by (auto simp: vma_insert_def split: list.splits)
qed

lemma dup_vmas_ok:
  assumes "\<forall>i. heap_ok i" "vmas_ok (vma_list nm @ vs)"
  shows "dup_vmas heap_ok i ro vs nm m =
    (Some (nm\<lparr>vma_list := vma_list nm @ vs\<rparr>), dup_steps ro (page_table nm) (vma_pages vs) m)"
  using assms(2)
proof (induction vs arbitrary: i nm m)
  case Nil
  then show ?case by (simp add: vma_pages_def dup_steps_def)
next
  case (Cons v vs)
  have split: "sorted_wrt (\<lambda>v w. vm_end v \<le> vm_start w) (vma_list nm @ v # vs)"
    using Cons.prems by (simp add: vmas_ok_def)
  have v: "vma_ok v" "\<forall>u \<in> set (vma_list nm). vm_end u \<le> vm_start v \<and> vma_ok u"
    using Cons.prems split by (auto simp: vmas_ok_def sorted_wrt_append)
  define n where "n = \<lparr>vm_start = vm_start v, vm_end = vm_end v, vm_flags = vm_flags v, vm_type = vm_type v,
    vm_file = None, vm_pgoff = 0\<rparr>"
  have c: "vma_create (heap_ok i) (vm_start v) (vm_end v) (vm_flags v) (vm_type v) = Some n"
    using assms(1) v(1) by (simp add: vma_create_Some vma_ok_def n_def)
  have n: "n\<lparr>vm_file := vm_file v, vm_pgoff := vm_pgoff v\<rparr> = v" by (simp add: n_def)
  define nm' where "nm' = nm\<lparr>vma_list := vma_list nm @ [v]\<rparr>"
  have i: "vma_insert nm v = (0, nm')" unfolding nm'_def by (rule vma_insert_end [OF v])
  have ok: "vmas_ok (vma_list nm' @ vs)" using Cons.prems by (simp add: nm'_def)
  have "dup_steps ro (page_table nm) (vma_pages vs)
      (fold (dup_page (has (vm_flags v) VMA_SHARED) ro (page_table nm)) (page_addrs (vm_start v) (vm_end v)) m) =
      dup_steps ro (page_table nm) (vma_pages (v # vs)) m"
    by (simp add: dup_steps_def vma_pages_def fold_map comp_def)
  then show ?case using Cons.IH [OF ok] by (simp add: c n i) (simp add: nm'_def)
qed

lemma fresh_root:
  assumes ok: "pt_ok ro m" and a: "alloc_frame m = (p, m1)" "p \<noteq> 0"
  defines "m2 \<equiv> memset_zero_page p m1"
  shows "two_ok ro p m2" "entry_of p m2 w = 0" "entry_of ro m2 w = entry_of ro m w"
    "pt_tables (frames m2) ro = pt_tables (frames m) ro" "refs_up m m2" "\<And>b. b \<noteq> p \<Longrightarrow> frames m2 b = frames m b"
proof -
  have m2: "m2 = m1\<lparr>frames := (frames m1)(p := (\<lambda>_. 0))\<rparr>" by (simp add: m2_def memset_zero_page_def)
  note F = fresh_frame [OF ok a m2]
  have z: "frames m2 p = (\<lambda>_. 0)" using F(8) by simp
  have l2: "l2_tables (frames m2) p = {}" by (simp add: l2_tables_def z)
  then have l3: "l3_tables (frames m2) p = {}" by (simp add: l3_tables_def)
  have t: "pt_tables (frames m2) p = {p}" by (simp add: pt_tables_def l2 l3)
  have "pt_tree (frames m2) p" by (simp add: pt_tree_def l2 l3 z)
  then have "pt_ok p m2" using pt_okD(1) [OF F(1)] a(2) F(6) by (simp add: pt_ok_def t)
  then show "two_ok ro p m2" using F(1,9,10) by (simp add: two_ok_def t)
  show "entry_of p m2 w = 0" by (simp add: entry_of_def vmm_get_pte_from_table_def read_pte_def z)
  show "entry_of ro m2 w = entry_of ro m w" "pt_tables (frames m2) ro = pt_tables (frames m) ro"
    by (rule F)+
  show "frames m2 b = frames m b" if "b \<noteq> p" for b using F(8) that by simp
  obtain s where s: "pmm_alloc_frame (pmm_of m) = (p, s)" "m1 = m\<lparr>pmm_of := s\<rparr>"
    using alloc_frame_cases [OF a(1)] by auto
  show "refs_up m m2"
    using pmm_alloc_taken [OF pt_okD(1) [OF ok] s(1)] by (auto simp: refs_up_def pmm_taken_def m2 s(2))
qed

lemma mm_duplicate_ok:
  assumes ok: "pt_ok (page_table mm) m" "vmas_ok (vma_list mm)" "leaves_held (page_table mm) m"
    "\<forall>v \<in> set (vma_list mm). page_aligned (vm_start v) \<and> page_aligned (vm_end v)"
    and hp: "\<forall>i. heap_ok i" and f: "free_set (pmm_of m) \<noteq> {}"
  obtains nm m2 m' where "mm_duplicate heap_ok mm m = (Some nm, m')" "vma_list nm = vma_list mm"
    "two_ok (page_table mm) (page_table nm) m2" "refs_up m m2" "leaves_held (page_table mm) m2"
    "\<And>w. entry_of (page_table mm) m2 w = entry_of (page_table mm) m w" "\<And>w. entry_of (page_table nm) m2 w = 0"
    "m' = dup_steps (page_table mm) (page_table nm) (vma_pages (vma_list mm)) m2"
proof -
  obtain p m1 where p: "alloc_frame m = (p, m1)" by (cases "alloc_frame m")
  have p0: "p \<noteq> 0" using alloc_frame_succeeds [OF pt_okD(1) [OF ok(1)] f] p by simp
  define m2 where "m2 = memset_zero_page p m1"
  note R = fresh_root [OF ok(1) p p0, folded m2_def]
  define nm where "nm = \<lparr>page_table = p, vma_list = vma_list mm, heap_start = heap_start mm,
    heap_end = heap_end mm, stack_start = stack_start mm, mmap_base = mmap_base mm\<rparr>"
  have "mm_duplicate heap_ok mm m = (Some nm, dup_steps (page_table mm) p (vma_pages (vma_list mm)) m2)"
    using hp [rule_format, of 0] p p0 dup_vmas_ok [OF hp, of "nm\<lparr>vma_list := []\<rparr>" "vma_list mm" 1 "page_table mm" m2] ok(2)
    by (simp add: mm_duplicate_def Let_def m2_def nm_def)
  moreover have "leaves_held (page_table mm) m2"
    by (rule leaves_held_step [OF ok(3) R(5,4)]) (simp add: R(3))
  ultimately show thesis using that [of nm _ m2] R(1-3,5) by (simp add: nm_def)
qed


subsection \<open>Properties\<close>

lemma unmap_loop_aligned:
  assumes "\<forall>v \<in> set vs. page_aligned (vm_start v) \<and> page_aligned (vm_end v)" "page_aligned s" "page_aligned e"
    "vma_unmap_loop ok pt s e vs m = (r, l, m')"
  shows "\<forall>v \<in> set l. page_aligned (vm_start v) \<and> page_aligned (vm_end v)"
  using assms
proof (induction vs arbitrary: m r l m')
  case (Cons v vs)
  have a: "page_aligned (vm_start v)" "page_aligned (vm_end v)"
    and as: "\<forall>v \<in> set vs. page_aligned (vm_start v) \<and> page_aligned (vm_end v)" using Cons.prems(1) by auto
  note IH = Cons.IH [OF as Cons.prems(2,3)]
  have "l = v # vs \<or> (\<exists>hs l1 m1 r1 m2. l = hs @ l1 \<and> vma_unmap_loop ok pt s e vs m1 = (r1, l1, m2) \<and>
      (\<forall>h \<in> set hs. page_aligned (vm_start h) \<and> page_aligned (vm_end h)))"
  proof (cases "vm_end v \<le> s \<or> vm_start v \<ge> e")
    case True
    then obtain l1 where "vma_unmap_loop ok pt s e vs m = (r, l1, m')" "l = [v] @ l1"
      using Cons.prems(4) by (auto split: prod.splits)
    moreover have "\<forall>h \<in> set [v]. page_aligned (vm_start h) \<and> page_aligned (vm_end h)" using a by simp
    ultimately show ?thesis by blast
  next
    case False
    note run = Cons.prems(4) [unfolded vma_unmap_loop.simps if_not_P [OF False] Let_def]
    consider (all) "s \<le> vm_start v \<and> e \<ge> vm_end v"
      | (low) "\<not> (s \<le> vm_start v \<and> e \<ge> vm_end v)" "s \<le> vm_start v \<and> e < vm_end v"
      | (high) "\<not> (s \<le> vm_start v \<and> e \<ge> vm_end v)" "\<not> (s \<le> vm_start v \<and> e < vm_end v)" "s > vm_start v \<and> e \<ge> vm_end v"
      | (hole) "\<not> (s \<le> vm_start v \<and> e \<ge> vm_end v)" "\<not> (s \<le> vm_start v \<and> e < vm_end v)" "\<not> (s > vm_start v \<and> e \<ge> vm_end v)"
      by blast
    then show ?thesis
    proof cases
      case all
      have "\<forall>h \<in> set ([] :: vma list). page_aligned (vm_start h) \<and> page_aligned (vm_end h)" by simp
      moreover obtain m1 where "vma_unmap_loop ok pt s e vs m1 = (r, l, m')" "l = [] @ l"
        using run [unfolded if_P [OF all]] by simp
      ultimately show ?thesis by blast
    next
      case low
      obtain m1 l1 where "vma_unmap_loop ok pt s e vs m1 = (r, l1, m')" "l = [v\<lparr>vm_start := e\<rparr>] @ l1"
        using run [unfolded if_not_P [OF low(1)] if_P [OF low(2)]] by (auto split: prod.splits)
      moreover have "\<forall>h \<in> set [v\<lparr>vm_start := e\<rparr>]. page_aligned (vm_start h) \<and> page_aligned (vm_end h)"
        using a Cons.prems(3) by simp
      ultimately show ?thesis by blast
    next
      case high
      obtain m1 l1 where "vma_unmap_loop ok pt s e vs m1 = (r, l1, m')" "l = [v\<lparr>vm_end := s\<rparr>] @ l1"
        using run [unfolded if_not_P [OF high(1)] if_not_P [OF high(2)] if_P [OF high(3)]] by (auto split: prod.splits)
      moreover have "\<forall>h \<in> set [v\<lparr>vm_end := s\<rparr>]. page_aligned (vm_start h) \<and> page_aligned (vm_end h)"
        using a Cons.prems(2) by simp
      ultimately show ?thesis by blast
    next
      case hole
      note run' = run [unfolded if_not_P [OF hole(1)] if_not_P [OF hole(2)] if_not_P [OF hole(3)]]
      show ?thesis
      proof (cases "vma_create ok e (vm_end v) (vm_flags v) (vm_type v)")
        case None
        then show ?thesis using run' by simp
      next
        case (Some n)
        then obtain m1 l1 where "vma_unmap_loop ok pt s e vs m1 = (r, l1, m')" "l = [v\<lparr>vm_end := s\<rparr>, n] @ l1"
          using run' by (auto split: prod.splits)
        moreover have "\<forall>h \<in> set [v\<lparr>vm_end := s\<rparr>, n]. page_aligned (vm_start h) \<and> page_aligned (vm_end h)"
          using a Cons.prems(2,3) Some by (auto simp: vma_create_Some)
        ultimately show ?thesis by blast
      qed
    qed
  qed
  then show ?case
  proof (elim disjE exE conjE)
    assume "l = v # vs"
    with a as show ?thesis by simp
  next
    fix hs l1 m1 r1 m2
    assume "l = hs @ l1" "vma_unmap_loop ok pt s e vs m1 = (r1, l1, m2)"
      "\<forall>h \<in> set hs. page_aligned (vm_start h) \<and> page_aligned (vm_end h)"
    with IH show ?thesis by (metis Un_iff set_append)
  qed
qed simp

text \<open>
  C9. \<open>vma_unmap\<close> of a page-aligned range makes exactly that range unmapped: the list of areas
  stays sorted, disjoint and aligned, every address outside the range keeps its area and its
  translation, and no address of the range has an area or, if it had one, a valid
  translation. It fails only when the node for a split cannot be allocated, and then nothing
  has changed.
\<close>

theorem vma_unmap_correct:
  assumes "mm_ok mm m" and "page_aligned s" and "page_aligned e" and "s < e"
    and "vma_unmap heap_ok mm s e m = (r, mm', m')"
  shows "r = -1 \<and> \<not> heap_ok \<and> mm' = mm \<and> m' = m \<or>
    r = 0 \<and> mm_ok mm' m' \<and> page_table mm' = page_table mm \<and>
    (\<forall>a. area_at (vma_list mm') a = (if s \<le> a \<and> a < e then None else area_at (vma_list mm) a)) \<and>
    (\<forall>w < USER_SPACE_END. entry_of (page_table mm) m' w =
       (if s \<le> w \<and> w < e \<and> area_at (vma_list mm) w \<noteq> None \<and> has (entry_of (page_table mm) m w) PT_VALID
        then 0 else entry_of (page_table mm) m w))"
proof -
  obtain l where l: "vma_unmap_loop heap_ok (page_table mm) s e (vma_list mm) m = (r, l, m')"
    "mm' = mm\<lparr>vma_list := l\<rparr>"
    using assms(4,5) by (auto simp: vma_unmap_def order_False split: prod.splits)
  from assms(1) have M: "vmas_ok (vma_list mm)"
    "\<forall>v \<in> set (vma_list mm). page_aligned (vm_start v) \<and> page_aligned (vm_end v)"
    "mmap_base mm \<noteq> 0" "page_table mm \<noteq> 0" "pt_tree (frames m) (page_table mm)"
    by (auto simp: mm_ok_def)
  note U = unmap_loop_ok [OF M(1) assms(4) l(1)]
  show ?thesis
  proof (cases "r = 0")
    case True
    note E = unmap_loop_entries [OF M(1,2) assms(2-4) M(5,4) l(1) [unfolded True]]
    note al = unmap_loop_aligned [OF M(2) assms(2,3) l(1)]
    from U(1) True have S: "vmas_ok l" "\<forall>a. area_at l a = (if s \<le> a \<and> a < e then None else area_at (vma_list mm) a)"
      by (auto simp: unmap_spec_def)
    show ?thesis
      unfolding l(2) by (rule disjI2) (use True E al S M in \<open>simp add: mm_ok_def\<close>)
  next
    case False
    then have "r = -1" "\<not> heap_ok" "l = vma_list mm" using U(1) by (auto simp: unmap_spec_def)
    then show ?thesis using U(2) [OF False] l(2) by simp
  qed
qed

text \<open>A small address space for the witnesses: three heap pages, two file pages and the stack.\<close>

definition demo_mm :: mm_struct where
  "demo_mm = \<lparr>page_table = 0x40004000,
     vma_list =
       [\<lparr>vm_start = 0x10000000, vm_end = 0x10003000, vm_flags = 3, vm_type = VMA_ANONYMOUS,
         vm_file = None, vm_pgoff = 0\<rparr>,
        \<lparr>vm_start = 0x20000000, vm_end = 0x20002000, vm_flags = 1, vm_type = VMA_FILE,
         vm_file = Some 7, vm_pgoff = 0x4000\<rparr>,
        \<lparr>vm_start = 0x3FFF7F0000, vm_end = USER_STACK_TOP, vm_flags = 0x43, vm_type = VMA_ANONYMOUS,
         vm_file = None, vm_pgoff = 0\<rparr>],
     heap_start = USER_HEAP_START, heap_end = USER_HEAP_START, stack_start = USER_STACK_TOP,
     mmap_base = USER_MMAP_BASE\<rparr>"

lemma demo_mm_ok: "mm_ok demo_mm demo_pmem"
  using pt_okD(2) [OF demo_pmem_ok]
  by (simp add: mm_ok_def demo_mm_def vma_ok_def page_aligned_def)

theorem vma_unmap_correct_witness:
  "mm_ok demo_mm demo_pmem \<and>
   (let (r, mm', m') = vma_unmap True demo_mm 0x10001000 0x10002000 demo_pmem
    in r = 0 \<and> mm_ok mm' m' \<and> area_at (vma_list mm') 0x10001000 = None \<and>
       area_at (vma_list mm') 0x10002000 = Some (3, VMA_ANONYMOUS))"
proof -
  obtain r mm' m' where u: "vma_unmap True demo_mm 0x10001000 0x10002000 demo_pmem = (r, mm', m')"
    by (cases "vma_unmap True demo_mm 0x10001000 0x10002000 demo_pmem")
  have al: "page_aligned 0x10001000" "page_aligned 0x10002000" "(0x10001000 :: u64) < 0x10002000"
    by (simp_all add: page_aligned_def)
  have "area_at (vma_list demo_mm) 0x10002000 = Some (3, VMA_ANONYMOUS)"
    by (simp add: demo_mm_def covers_def)
  with demo_mm_ok vma_unmap_correct [OF demo_mm_ok al u] show ?thesis
    unfolding u by simp
qed

text \<open>
  C10. \<open>vma_allocate\<close> either changes nothing and returns 0, or places a new area of the rounded
  length, inside user space, over addresses that had no area, at the address asked for or, if
  none was given, at or above \<open>mmap_base\<close>; every other address keeps its area. Without a hint
  it is first fit: if at some address \<open>x\<close> from \<open>mmap_base\<close> on the rounded length fits below the end of
  user space with no area in its way, the call succeeds, and at \<open>x\<close> or before it.
\<close>

theorem vma_allocate_correct:
  assumes "mm_ok mm m" and "vma_allocate heap_ok mm addr len flags = (a, mm')"
  shows "(a = 0 \<and> mm' = mm \<or>
     a \<noteq> 0 \<and> a < a + page_up len \<and> a + page_up len \<le> USER_SPACE_END \<and> vmas_ok (vma_list mm') \<and>
     (if addr = 0 then mmap_base mm \<le> a else a = addr) \<and>
     (\<forall>x. a \<le> x \<and> x < a + page_up len \<longrightarrow> area_at (vma_list mm) x = None) \<and>
     (\<forall>x. area_at (vma_list mm') x =
        (if a \<le> x \<and> x < a + page_up len then Some (flags, VMA_ANONYMOUS) else area_at (vma_list mm) x))) \<and>
    (\<forall>x. addr = 0 \<and> heap_ok \<and> len \<noteq> 0 \<and> mmap_base mm \<le> x \<and> x < x + page_up len \<and> x + page_up len \<le> USER_SPACE_END \<and>
       (\<forall>y. x \<le> y \<and> y < x + page_up len \<longrightarrow> area_at (vma_list mm) y = None) \<longrightarrow> a \<noteq> 0 \<and> a \<le> x)"
proof -
  have M: "vmas_ok (vma_list mm)" "mmap_base mm \<noteq> 0" using assms(1) by (auto simp: mm_ok_def)
  note A = vma_allocate_as_ok [OF M assms(2) [unfolded vma_allocate_def]]
  have G: "a = g" if "g = find_gap (mmap_base mm) (page_up len) (vma_list mm)" "addr = 0" "heap_ok" "len \<noteq> 0"
    "g < g + page_up len" "g + page_up len \<le> USER_SPACE_END" for g
    using vma_allocate_as_succeeds [OF M(1) that(3,4,1,5,6), of VMA_ANONYMOUS None 0 flags] that(2) assms(2)
    by (simp add: vma_allocate_def)
  have "a \<noteq> 0 \<and> a \<le> x" if x: "addr = 0" "heap_ok" "len \<noteq> 0" "mmap_base mm \<le> x" "x < x + page_up len"
      "x + page_up len \<le> USER_SPACE_END" "\<forall>y. x \<le> y \<and> y < x + page_up len \<longrightarrow> area_at (vma_list mm) y = None" for x
  proof -
    define g where "g = find_gap (mmap_base mm) (page_up len) (vma_list mm)"
    have gx: "g \<le> x" unfolding g_def
      by (rule find_gap_first [OF x(4,5)]) (use gap_of_areas [OF M(1) x(5)] x(7) in blast)
    have "mmap_base mm \<le> g" using find_gap_free [OF M(1)] by (simp add: g_def)
    then have "g \<noteq> 0" using M(2) by auto
    moreover have w: "g < g + page_up len \<and> g + page_up len \<le> x + page_up len" using gx x(5) by (rule below_no_wrap)
    moreover have "g + page_up len \<le> USER_SPACE_END" using conjunct2 [OF w] x(6) by (rule order_trans)
    ultimately show ?thesis using G [OF g_def x(1,2,3)] x(6) gx by auto
  qed
  then have S: "\<forall>x. addr = 0 \<and> heap_ok \<and> len \<noteq> 0 \<and> mmap_base mm \<le> x \<and> x < x + page_up len \<and> x + page_up len \<le> USER_SPACE_END \<and>
       (\<forall>y. x \<le> y \<and> y < x + page_up len \<longrightarrow> area_at (vma_list mm) y = None) \<longrightarrow> a \<noteq> 0 \<and> a \<le> x" by blast
  show ?thesis using A by (intro conjI [OF _ S]) auto
qed

text \<open>The gap between the first two areas of \<open>demo_mm\<close>, which the new area fills exactly.\<close>

lemma demo_gap: "area_at (vma_list demo_mm) y = None" if "0x10003000 \<le> y \<and> y < 0x10003000 + page_up 0xFFFCFFF"
proof -
  have "page_up (0xFFFCFFF :: u64) = 0xFFFD000" by (simp add: page_up_def)
  then have "0x10003000 \<le> y" "y < 0x20000000" using that by simp_all
  moreover from this(2) have "y < 0x3FFF7F0000" by (rule order.strict_trans) simp
  ultimately show ?thesis by (auto simp: demo_mm_def covers_def not_le not_less)
qed

theorem vma_allocate_correct_witness:
  "mm_ok demo_mm demo_pmem \<and> mm_ok (demo_mm\<lparr>mmap_base := 0x10001000\<rparr>) demo_pmem \<and>
   fst (vma_allocate True (demo_mm\<lparr>mmap_base := 0x10001000\<rparr>) 0 0xFFFCFFF 3) = 0x10003000 \<and>
   area_at (vma_list demo_mm) 0x10003000 = None \<and>
   area_at (vma_list (snd (vma_allocate True (demo_mm\<lparr>mmap_base := 0x10001000\<rparr>) 0 0xFFFCFFF 3))) 0x10003000 = Some (3, VMA_ANONYMOUS) \<and>
   area_at (vma_list (snd (vma_allocate True (demo_mm\<lparr>mmap_base := 0x10001000\<rparr>) 0 0xFFFCFFF 3))) 0x20000000 = area_at (vma_list demo_mm) 0x20000000"
proof -
  let ?mm = "demo_mm\<lparr>mmap_base := 0x10001000\<rparr>"
  obtain a mm' where u: "vma_allocate True ?mm 0 0xFFFCFFF 3 = (a, mm')" by (cases "vma_allocate True ?mm 0 0xFFFCFFF 3")
  have ok: "mm_ok ?mm demo_pmem" using demo_mm_ok by (simp add: mm_ok_def)
  have pu: "page_up (0xFFFCFFF :: u64) = 0xFFFD000" by (simp add: page_up_def)
  note T = vma_allocate_correct [OF ok u]
  have "\<forall>y. 0x10003000 \<le> y \<and> y < 0x10003000 + page_up 0xFFFCFFF \<longrightarrow> area_at (vma_list demo_mm) y = None" using demo_gap by blast
  then have a: "a \<noteq> 0 \<and> a \<le> 0x10003000" using T [THEN conjunct2, rule_format, of "0x10003000"] by (simp add: pu)
  have A: "a < a + 0xFFFD000 \<and> 0x10001000 \<le> a \<and> (\<forall>x. a \<le> x \<and> x < a + 0xFFFD000 \<longrightarrow> area_at (vma_list demo_mm) x = None) \<and>
     (\<forall>x. area_at (vma_list mm') x = (if a \<le> x \<and> x < a + 0xFFFD000 then Some (3, VMA_ANONYMOUS) else area_at (vma_list demo_mm) x))"
    using T a by (simp add: pu)
  have "a = 0x10003000"
  proof (rule ccontr)
    assume "a \<noteq> 0x10003000"
    with conjunct2 [OF a] have "a < 0x10003000" by (rule order.not_eq_order_implies_strict [rotated])
    moreover have "0x10000000 \<le> a" using A order_trans [of "0x10000000" "0x10001000" a] by simp
    ultimately have "area_at (vma_list demo_mm) a \<noteq> None" by (simp add: demo_mm_def covers_def)
    moreover have "area_at (vma_list demo_mm) a = None" using A by (elim conjE allE [of _ a]) simp
    ultimately show False by simp
  qed
  then show ?thesis using A demo_mm_ok ok u by simp
qed






text \<open>
  C12. Copy on write: a write fault on a present copy-on-write page of a writable area, whose frame has another
  owner, gives the process a private writable copy. The new frame has the contents of
  the old one, the old frame keeps its contents and loses one reference, no other
  translation changes.
\<close>

theorem vma_page_fault_cow:
  assumes "pt_ok (page_table mm) m" and "vma_find mm a = Some v" and "has (vm_flags v) VMA_WRITE"
    and "has (entry_of (page_table mm) m a) PT_VALID" and "has (entry_of (page_table mm) m a) PT_SW_COW"
    and "old = entry_of (page_table mm) m a AND ADDR_MASK" and "old \<in> frame_addrs (pmm_of m)"
    and "old \<notin> free_set (pmm_of m)" and "old \<notin> pt_tables (frames m) (page_table mm)"
    and "1 < ref_of (pmm_of m) old" and "free_set (pmm_of m) \<noteq> {}"
  shows "\<exists>m' p e. vma_page_fault rd mm a True m = (0, mm, m') \<and> pt_ok (page_table mm) m' \<and>
    p \<in> free_set (pmm_of m) \<and> p \<noteq> old \<and> entry_of (page_table mm) m' a = e \<and> e AND ADDR_MASK = p \<and>
    e AND PT_AP_RO_EL0 = PT_AP_RW_EL0 \<and> \<not> has e PT_SW_COW \<and>
    frames m' p = frames m old \<and> frames m' old = frames m old \<and>
    ref_of (pmm_of m') old = ref_of (pmm_of m) old - 1 \<and>
    (\<forall>w. vpn w \<noteq> vpn a \<longrightarrow> entry_of (page_table mm) m' w = entry_of (page_table mm) m w)"
proof -
  obtain m' p where P: "vma_page_fault rd mm a True m = (0, mm, m')" "pt_ok (page_table mm) m'"
    "p \<in> free_set (pmm_of m)" "p AND ADDR_MASK = p" "p \<noteq> old"
    "\<And>w. entry_of (page_table mm) m' w =
       (if vpn w = vpn a then user_entry p (vm_flags v) else entry_of (page_table mm) m w)"
    "frames m' p = frames m old" "frames m' old = frames m old"
    "ref_of (pmm_of m') old = ref_of (pmm_of m) old - 1"
    by (rule page_fault_cow [OF assms, of rd]) blast
  note U = user_entry_facts [OF P(4), of "vm_flags v"]
  show ?thesis
    by (rule exI [of _ m'], rule exI [of _ p], rule exI [of _ "user_entry p (vm_flags v)"])
      (use P U assms(3) in simp)
qed

text \<open>A machine with one shared page at the start of the heap, for the witnesses.\<close>

definition demo_cow :: pmem where
  "demo_cow = \<lparr>frames = (\<lambda>_ _. 42)(0x40004000 := (\<lambda>_. 0)(0 := 0x40005003),
       0x40005000 := (\<lambda>_. 0)(128 := 0x40006003),
       0x40006000 := (\<lambda>_. 0)(0 := 0xC00000400077C7)),
     pmm_of = \<lparr>frame_stack = [1, 2, 3, 0, 0, 0, 0, 0], stack_top = 3, stack_capacity = 8, used_frames = 5,
       phy_ram_size = 0x8000, phy_ram_end = 0x40008000, total_frames = 8, ref_counts = [1, 0, 0, 0, 1, 1, 1, 2]\<rparr>,
     vmm_lock = False, root_table = 0x40004000\<rparr>"

lemma demo_cow_tables:
  "l2_tables (frames demo_cow) 0x40004000 = {0x40005000}"
  "l3_tables (frames demo_cow) 0x40004000 = {0x40006000}"
proof -
  show l2: "l2_tables (frames demo_cow) 0x40004000 = {0x40005000}"
    by (auto simp: l2_tables_def demo_cow_def has_numeral split: if_splits)
  have f: "frames demo_cow 0x40005000 = (\<lambda>_. 0)(128 := 0x40006003)" by (simp add: demo_cow_def)
  show "l3_tables (frames demo_cow) 0x40004000 = {0x40006000}"
    unfolding l3_tables_def l2 by (auto simp: f has_numeral split: if_splits)
qed

lemma demo_cow_free: "free_set (pmm_of demo_cow) = {0x40001000, 0x40002000, 0x40003000}"
  by (auto simp: free_set_def free_list_def demo_cow_def index_to_phys_def)

lemma demo_cow_inv: "pmm_inv (pmm_of demo_cow)"
  by (simp add: pmm_inv_def pmm_geometry_def free_list_def demo_cow_def)

lemma demo_cow_ok: "pt_ok 0x40004000 demo_cow"
proof -
  have "pt_tree (frames demo_cow) 0x40004000"
    unfolding pt_tree_def demo_cow_tables by (auto simp: demo_cow_def has_numeral split: if_splits)
  then show ?thesis using demo_cow_inv demo_cow_free by (simp add: pt_ok_def pt_tables_def demo_cow_tables)
qed

lemma demo_cow_entry: "entry_of 0x40004000 demo_cow 0x10000008 = 0xC00000400077C7"
  by (simp add: entry_of_def vmm_get_pte_from_table_def read_pte_def l1_idx_def l2_idx_def l3_idx_def
      demo_cow_def has_numeral)

theorem vma_page_fault_cow_witness:
  "pt_ok (page_table demo_mm) demo_cow \<and> 1 < ref_of (pmm_of demo_cow) 0x40007000 \<and>
   (\<exists>m' p. vma_page_fault (\<lambda>_ _ _ m. m) demo_mm 0x10000008 True demo_cow = (0, demo_mm, m') \<and>
      p \<noteq> 0x40007000 \<and> frames m' p = frames demo_cow 0x40007000 \<and>
      entry_of (page_table demo_mm) m' 0x10000008 AND ADDR_MASK = p)"
proof -
  have pt: "page_table demo_mm = 0x40004000" by (simp add: demo_mm_def)
  have ok: "pt_ok (page_table demo_mm) demo_cow" using demo_cow_ok pt by simp
  define v where "v = hd (vma_list demo_mm)"
  have v: "vma_find demo_mm 0x10000008 = Some v" by (simp add: vma_find_def demo_mm_def v_def)
  have w: "has (vm_flags v) VMA_WRITE" by (simp add: v_def demo_mm_def has_def)
  have e: "has (entry_of (page_table demo_mm) demo_cow 0x10000008) PT_VALID"
    "has (entry_of (page_table demo_mm) demo_cow 0x10000008) PT_SW_COW"
    "0x40007000 = entry_of (page_table demo_mm) demo_cow 0x10000008 AND ADDR_MASK"
    by (simp_all add: pt demo_cow_entry has_numeral)
  have "(0x40007000 :: u64) = index_to_phys 7" by (simp add: index_to_phys_def)
  then have h: "0x40007000 \<in> frame_addrs (pmm_of demo_cow)" by (simp add: frame_addrs_def demo_cow_def)
  have f: "0x40007000 \<notin> free_set (pmm_of demo_cow)" "free_set (pmm_of demo_cow) \<noteq> {}" by (simp_all add: demo_cow_free)
  have t: "0x40007000 \<notin> pt_tables (frames demo_cow) (page_table demo_mm)"
    by (simp add: pt pt_tables_def demo_cow_tables)
  have r: "1 < ref_of (pmm_of demo_cow) 0x40007000" by (simp add: ref_of_def phys_to_index_def demo_cow_def)
  show ?thesis
    using ok r vma_page_fault_cow [OF ok v w e h f(1) t r f(2), of "\<lambda>_ _ _ m. m"] by blast
qed

text \<open>
  C13. Fork: \<open>mm_duplicate\<close> gives the child the same areas and separate well-formed tables. After it,
  a page of a private area that is present in the child is mapped to the frame of the parent with the
  parent's new entry, and that entry does not allow the user to write, so neither process can change
  what the other one sees; the frame has one more reference (or its count is saturated). A present page
  is missing in the child only if the memory is exhausted.
\<close>

theorem mm_duplicate_isolates:
  assumes "mm_ok mm m" and "pt_ok (page_table mm) m" and "leaves_held (page_table mm) m"
    and "\<forall>i. heap_ok i" and "free_set (pmm_of m) \<noteq> {}"
  shows "\<exists>nm m'. mm_duplicate heap_ok mm m = (Some nm, m') \<and> vma_list nm = vma_list mm \<and>
    two_ok (page_table mm) (page_table nm) m' \<and>
    (\<forall>v \<in> set (vma_list mm). \<forall>a \<in> set (page_addrs (vm_start v) (vm_end v)).
       let e = entry_of (page_table mm) m a; e' = entry_of (page_table mm) m' a;
           c = entry_of (page_table nm) m' a; b = e AND ADDR_MASK
       in (e' AND ADDR_MASK = b) \<and>
          (has c PT_VALID \<longrightarrow> has e PT_VALID \<and> c = e' \<and>
             (\<not> has (vm_flags v) VMA_SHARED \<longrightarrow> e' AND PT_AP_RO_EL0 \<noteq> PT_AP_RW_EL0) \<and>
             (ref_of (pmm_of m) b < ref_of (pmm_of m') b \<or> ref_of (pmm_of m') b = 255)) \<and>
          (has e PT_VALID \<and> \<not> has c PT_VALID \<longrightarrow> free_set (pmm_of m') = {}))"
proof -
  have M: "vmas_ok (vma_list mm)" "\<forall>v \<in> set (vma_list mm). page_aligned (vm_start v) \<and> page_aligned (vm_end v)"
    using assms(1) by (auto simp: mm_ok_def)
  obtain nm m2 m' where R: "mm_duplicate heap_ok mm m = (Some nm, m')" "vma_list nm = vma_list mm"
    "two_ok (page_table mm) (page_table nm) m2" "refs_up m m2" "leaves_held (page_table mm) m2"
    "\<And>w. entry_of (page_table mm) m2 w = entry_of (page_table mm) m w" "\<And>w. entry_of (page_table nm) m2 w = 0"
    "m' = dup_steps (page_table mm) (page_table nm) (vma_pages (vma_list mm)) m2"
    by (rule mm_duplicate_ok [OF assms(2) M(1) assms(3) M(2) assms(4,5)]) blast
  note D = dup_steps_ok [OF R(3,5) conjunct1 [OF vma_pages_distinct [OF M]], folded R(8)]
  have "let e = entry_of (page_table mm) m a; e' = entry_of (page_table mm) m' a;
           c = entry_of (page_table nm) m' a; b = e AND ADDR_MASK
       in (e' AND ADDR_MASK = b) \<and>
          (has c PT_VALID \<longrightarrow> has e PT_VALID \<and> c = e' \<and>
             (\<not> has (vm_flags v) VMA_SHARED \<longrightarrow> e' AND PT_AP_RO_EL0 \<noteq> PT_AP_RW_EL0) \<and>
             (ref_of (pmm_of m) b < ref_of (pmm_of m') b \<or> ref_of (pmm_of m') b = 255)) \<and>
          (has e PT_VALID \<and> \<not> has c PT_VALID \<longrightarrow> free_set (pmm_of m') = {})"
    if v: "v \<in> set (vma_list mm)" "a \<in> set (page_addrs (vm_start v) (vm_end v))" for v a
  proof -
    let ?sh = "has (vm_flags v) VMA_SHARED"
    have "(?sh, a) \<in> set (vma_pages (vma_list mm))" using v by (auto simp: vma_pages_def)
    then have "page_dup ?sh (page_table mm) (page_table nm) m2 m' a" using D by blast
    then consider (no) "\<not> has (entry_of (page_table mm) m a) PT_VALID" "entry_of (page_table mm) m' a = entry_of (page_table mm) m a"
        "entry_of (page_table nm) m' a = 0"
      | (yes) "has (entry_of (page_table mm) m a) PT_VALID" "dup_shared ?sh (page_table mm) (page_table nm) a m2 m'"
      | (failed) "entry_of (page_table mm) m' a = entry_of (page_table mm) m a"
        "entry_of (page_table nm) m' a = 0" "free_set (pmm_of m') = {}"
      unfolding page_dup_def dup_failed_def R(6,7) by presburger
    then show ?thesis
    proof cases
      case yes
      have "ref_of (pmm_of m) (entry_of (page_table mm) m a AND ADDR_MASK) \<le>
          ref_of (pmm_of m2) (entry_of (page_table mm) m a AND ADDR_MASK)"
        using leaf_held [OF assms(3) yes(1)] R(4) by (simp add: refs_up_def)
      with yes show ?thesis
        unfolding dup_shared_def R(6) Let_def
        by (auto simp: cow_mark_facts dest: order_le_less_trans)
    qed (simp_all add: Let_def)
  qed
  then show ?thesis using R(1,2) D by blast
qed

theorem mm_duplicate_isolates_witness:
  "mm_ok demo_mm demo_cow \<and> leaves_held (page_table demo_mm) demo_cow \<and>
   (\<exists>nm m'. mm_duplicate (\<lambda>_. True) demo_mm demo_cow = (Some nm, m') \<and> vma_list nm = vma_list demo_mm \<and>
      two_ok (page_table demo_mm) (page_table nm) m')"
proof -
  have pt: "page_table demo_mm = 0x40004000" by (simp add: demo_mm_def)
  have ok: "pt_ok (page_table demo_mm) demo_cow" using demo_cow_ok pt by simp
  have M: "mm_ok demo_mm demo_cow"
    using pt_okD(2) [OF demo_cow_ok] by (simp add: mm_ok_def demo_mm_def vma_ok_def page_aligned_def)
  have e: "has (entry_of 0x40004000 demo_cow w) PT_VALID \<Longrightarrow> entry_of 0x40004000 demo_cow w = 0xC00000400077C7" for w
    by (auto simp: entry_of_def vmm_get_pte_from_table_def read_pte_def demo_cow_def has_numeral Let_def split: if_splits)
  have "(0x40007000 :: u64) = index_to_phys 7" by (simp add: index_to_phys_def)
  then have h: "0x40007000 \<in> frame_addrs (pmm_of demo_cow)" by (simp add: frame_addrs_def demo_cow_def)
  have H: "leaves_held (page_table demo_mm) demo_cow"
    unfolding leaves_held_def pt using e h by (force simp: demo_cow_free pt_tables_def demo_cow_tables)
  have f: "free_set (pmm_of demo_cow) \<noteq> {}" by (simp add: demo_cow_free)
  show ?thesis using M H mm_duplicate_isolates [OF M ok H _ f, of "\<lambda>_. True"] by auto
qed

text \<open>
  \<open>vma_expand_stack\<close> looks at no other area: when a process has an area below its stack and
  touches a free address below that area, the stack grows over it and the areas overlap.
\<close>

theorem vma_expand_stack_overlaps:
  assumes "vma_list mm = [w, v]" and "vmas_ok [w, v]" and "has (vm_flags v) VMA_GROWSDN"
    and "\<not> has (vm_flags w) VMA_GROWSDN" and "vm_end v = USER_STACK_TOP" and "a < vm_start w"
    and "USER_STACK_TOP - USER_STACK_SIZE * 2 \<le> page_down a" and "page_down a \<le> a"
  shows "\<exists>mm'. vma_page_fault rd mm a is_write m = (0, mm', m) \<and> \<not> vmas_ok (vma_list mm') \<and>
    (\<exists>v' \<in> set (vma_list mm'). \<exists>x. v' \<noteq> w \<and> covers v' x \<and> covers w x)"
proof -
  define v' where "v' = v\<lparr>vm_start := page_down a\<rparr>"
  have o: "vm_start w < vm_end w" "vm_end w \<le> vm_start v" "vm_start v < vm_end v"
    using assms(2) by (auto simp: vma_ok_def)
  have low: "USER_STACK_TOP - USER_STACK_SIZE * 2 \<le> a" "a < USER_STACK_TOP" "a < vm_start v"
    using assms(5-8) o by (order, order, order)
  have f: "vma_find mm a = None" using assms(1,6) low(3) by (simp add: vma_find_def order_False)
  have "vma_expand_stack mm a = (0, mm\<lparr>vma_list := [w, v']\<rparr>)"
    using assms(1,3,4,7) by (simp add: vma_expand_stack_def v'_def order_False)
  then have run: "vma_page_fault rd mm a is_write m = (0, mm\<lparr>vma_list := [w, v']\<rparr>, m)"
    using f low by (simp add: vma_page_fault_def)
  have c: "covers v' (vm_start w)" "covers w (vm_start w)" "v' \<noteq> w"
    using assms(3-8) o low by (auto simp: covers_def v'_def)
  then have "\<not> vmas_ok [w, v']" by (auto simp: covers_def)
  with run c show ?thesis by fastforce
qed

theorem vma_expand_stack_overlaps_witness:
  "\<exists>mm'. vma_page_fault (\<lambda>_ _ _ m. m)
      (demo_mm\<lparr>vma_list := [\<lparr>vm_start = 0x3FFF000000, vm_end = 0x3FFF100000, vm_flags = 3,
          vm_type = VMA_ANONYMOUS, vm_file = None, vm_pgoff = 0\<rparr>, last (vma_list demo_mm)]\<rparr>)
      0x3FFEFFF010 True demo_pmem = (0, mm', demo_pmem) \<and> \<not> vmas_ok (vma_list mm')"
proof -
  let ?w = "\<lparr>vm_start = 0x3FFF000000, vm_end = 0x3FFF100000, vm_flags = 3,
          vm_type = VMA_ANONYMOUS, vm_file = None, vm_pgoff = 0\<rparr> :: vma"
  let ?v = "last (vma_list demo_mm)"
  let ?mm = "demo_mm\<lparr>vma_list := [?w, ?v]\<rparr>"
  have h: "vma_list ?mm = [?w, ?v]" "vmas_ok [?w, ?v]" "has (vm_flags ?v) VMA_GROWSDN" "\<not> has (vm_flags ?w) VMA_GROWSDN"
    "vm_end ?v = USER_STACK_TOP" "(0x3FFEFFF010 :: u64) < vm_start ?w"
    "USER_STACK_TOP - USER_STACK_SIZE * 2 \<le> page_down 0x3FFEFFF010" "page_down 0x3FFEFFF010 \<le> 0x3FFEFFF010"
    by (simp_all add: demo_mm_def vma_ok_def has_def page_down_def)
  show ?thesis using vma_expand_stack_overlaps [OF h, of "\<lambda>_ _ _ m. m" True demo_pmem] by blast
qed

text \<open>
  \<open>vma_unmap\<close> does not move the file offset with the start of an area: after the first pages
  of a file mapping are unmapped, a fault on one of the pages that are left reads the file at another
  offset than before.
\<close>

theorem vma_unmap_shifts_file:
  assumes "vma_list mm = [v]" and "vma_ok v" and "vm_type v = VMA_FILE" and "vm_file v = Some f"
    and "vm_start v < e" and "e < vm_end v" and "e \<le> a" and "a < vm_end v"
  shows "\<exists>mm' m' v'. vma_unmap heap_ok mm (vm_start v) e m = (0, mm', m') \<and>
    vma_find mm a = Some v \<and> vma_find mm' a = Some v' \<and> vm_type v' = VMA_FILE \<and> vm_file v' = Some f \<and>
    vm_pgoff v' + (page_down a - vm_start v') \<noteq> vm_pgoff v + (page_down a - vm_start v)"
proof -
  define v' where "v' = v\<lparr>vm_start := e\<rparr>"
  define m' where "m' = free_pages False (page_table mm) (vm_start v) e m"
  have r: "\<not> (vm_end v \<le> vm_start v \<or> e \<le> vm_start v)" "\<not> vm_end v \<le> e"
    using assms(5,6) by (auto dest: order_less_trans)
  have "vma_unmap heap_ok mm (vm_start v) e m = (0, mm\<lparr>vma_list := [v']\<rparr>, m')"
    using assms(1,3,5,6) r by (simp add: vma_unmap_def v'_def m'_def order_False)
  moreover have "vma_find mm a = Some v" "vma_find (mm\<lparr>vma_list := [v']\<rparr>) a = Some v'"
    using assms(1,5,7,8) by (auto simp: vma_find_def v'_def)
  moreover have "page_down a - vm_start v' \<noteq> page_down a - vm_start v"
    using assms(5) by (auto simp: v'_def)
  ultimately show ?thesis using assms(3,4) by (auto simp: v'_def)
qed

theorem vma_unmap_shifts_file_witness:
  "\<exists>mm' m' v'. vma_unmap True (demo_mm\<lparr>vma_list := [vma_list demo_mm ! 1]\<rparr>) 0x20000000 0x20001000 demo_pmem = (0, mm', m') \<and>
     vma_find mm' 0x20001000 = Some v' \<and>
     vm_pgoff v' + (page_down 0x20001000 - vm_start v') \<noteq> 0x4000 + (page_down 0x20001000 - 0x20000000)"
proof -
  let ?v = "vma_list demo_mm ! 1"
  have h: "vma_list (demo_mm\<lparr>vma_list := [?v]\<rparr>) = [?v]" "vma_ok ?v" "vm_type ?v = VMA_FILE" "vm_file ?v = Some 7"
    "vm_start ?v < 0x20001000" "(0x20001000 :: u64) < vm_end ?v" "(0x20001000 :: u64) \<le> 0x20001000" "(0x20001000 :: u64) < vm_end ?v"
    by (simp_all add: demo_mm_def vma_ok_def)
  have s: "vm_start ?v = 0x20000000" "vm_pgoff ?v = 0x4000" by (simp_all add: demo_mm_def)
  show ?thesis using vma_unmap_shifts_file [OF h, of True demo_pmem] unfolding s by blast
qed

end
