(* ===== verification/Kstring.thy ===== *)
theory Kstring
  imports Prelude
begin

section \<open>The string library of the kernel\<close>

text \<open>
  A model of \<^verbatim>\<open>lib/src/string.c\<close> over byte-addressed memory. Pointers are 64-bit words and
  memory is a function from addresses to bytes, so pointer arithmetic wraps around as it does
  in the machine and overlapping buffers behave as they do in the code. A loop over a counter \<open>n\<close>
  is recursion on its value; a loop that stops at a zero byte only is a \<open>partial_function\<close>,
  which is \<open>None\<close> when it never meets one. Where the source replaces a NULL argument by the
  literal \<open>""\<close>, the argument \<open>lit\<close> is the address of that literal.
\<close>

type_synonym mem = "u64 \<Rightarrow> u8"

partial_function (option) strlen_loop :: "mem \<Rightarrow> u64 \<Rightarrow> u64 \<Rightarrow> u64 option" where
  "strlen_loop m str len = (if m (str + len) \<noteq> 0 then strlen_loop m str (len + 1) else Some len)"

definition strlen :: "mem \<Rightarrow> u64 \<Rightarrow> u64 option" where
  "strlen m str = (if str = 0 then Some 0 else strlen_loop m str 0)"

text \<open>\<open>(*a > *b) - (*a < *b)\<close>\<close>

definition byte_sign :: "u8 \<Rightarrow> u8 \<Rightarrow> int" where
  "byte_sign a b = of_bool (a > b) - of_bool (a < b)"

partial_function (option) strcmp_loop :: "mem \<Rightarrow> u64 \<Rightarrow> u64 \<Rightarrow> int option" where
  "strcmp_loop m a b =
     (if m a \<noteq> 0 \<and> m a = m b then strcmp_loop m (a + 1) (b + 1) else Some (byte_sign (m a) (m b)))"

definition strcmp :: "u64 \<Rightarrow> mem \<Rightarrow> u64 \<Rightarrow> u64 \<Rightarrow> int option" where
  "strcmp lit m s1 s2 =
     strcmp_loop m (if s1 \<noteq> 0 then s1 else lit) (if s2 \<noteq> 0 then s2 else lit)"

fun strncmp_loop :: "mem \<Rightarrow> nat \<Rightarrow> u64 \<Rightarrow> u64 \<Rightarrow> int" where
  "strncmp_loop m 0 a b = 0"
| "strncmp_loop m (Suc n) a b =
     (if m a \<noteq> m b then byte_sign (m a) (m b)
      else if m a = 0 then 0
      else strncmp_loop m n (a + 1) (b + 1))"

definition strncmp :: "u64 \<Rightarrow> mem \<Rightarrow> u64 \<Rightarrow> u64 \<Rightarrow> u64 \<Rightarrow> int" where
  "strncmp lit m s1 s2 n =
     strncmp_loop m (unat n) (if s1 \<noteq> 0 then s1 else lit) (if s2 \<noteq> 0 then s2 else lit)"

fun copy_up :: "nat \<Rightarrow> u64 \<Rightarrow> u64 \<Rightarrow> mem \<Rightarrow> mem" where
  "copy_up 0 d s m = m"
| "copy_up (Suc n) d s m = copy_up n (d + 1) (s + 1) (m(d := m s))"

definition memcpy :: "u64 \<Rightarrow> u64 \<Rightarrow> u64 \<Rightarrow> mem \<Rightarrow> mem" where
  "memcpy dest src n m = copy_up (unat n) dest src m"

fun set_up :: "nat \<Rightarrow> u64 \<Rightarrow> u8 \<Rightarrow> mem \<Rightarrow> mem" where
  "set_up 0 d c m = m"
| "set_up (Suc n) d c m = set_up n (d + 1) c (m(d := c))"

definition memset :: "u64 \<Rightarrow> u8 \<Rightarrow> u64 \<Rightarrow> mem \<Rightarrow> mem" where
  "memset dest c n m = set_up (unat n) dest c m"

fun memcmp_loop :: "mem \<Rightarrow> nat \<Rightarrow> u64 \<Rightarrow> u64 \<Rightarrow> int" where
  "memcmp_loop m 0 a b = 0"
| "memcmp_loop m (Suc n) a b =
     (if m a \<noteq> m b then byte_sign (m a) (m b) else memcmp_loop m n (a + 1) (b + 1))"

definition memcmp :: "mem \<Rightarrow> u64 \<Rightarrow> u64 \<Rightarrow> u64 \<Rightarrow> int" where
  "memcmp m s1 s2 n = memcmp_loop m (unat n) s1 s2"

text \<open>
  The first loop of \<open>strncpy\<close> and \<open>strncat\<close>, \<open>while (n && (*d++ = *src++)) n--\<close>, gives back
  the value of \<open>n\<close> and of \<open>d\<close>: the byte that ends the loop is copied and skipped, but not
  counted.
\<close>

fun copy_str :: "nat \<Rightarrow> u64 \<Rightarrow> u64 \<Rightarrow> mem \<Rightarrow> nat \<times> u64 \<times> mem" where
  "copy_str 0 d s m = (0, d, m)"
| "copy_str (Suc n) d s m =
     (let b = m s; m = m(d := b)
      in if b \<noteq> 0 then copy_str n (d + 1) (s + 1) m else (Suc n, d + 1, m))"

definition strncpy :: "u64 \<Rightarrow> u64 \<Rightarrow> u64 \<Rightarrow> mem \<Rightarrow> mem" where
  "strncpy dest src n m =
     (let (n, d, m) = copy_str (unat n) dest src m
      in if n \<noteq> 0 then set_up (n - 1) d 0 m else m)"

definition strncat :: "u64 \<Rightarrow> u64 \<Rightarrow> u64 \<Rightarrow> mem \<Rightarrow> mem option" where
  "strncat dest src n m =
     (case strlen m dest of
        None \<Rightarrow> None
      | Some len \<Rightarrow>
          let (n, d, m) = copy_str (unat n) (dest + len) src m
          in Some (if n \<noteq> 0 then m(d := 0) else m))"

partial_function (option) copy_z :: "u64 \<Rightarrow> u64 \<Rightarrow> mem \<Rightarrow> mem option" where
  "copy_z d s m =
     (let b = m s; m = m(d := b) in if b \<noteq> 0 then copy_z (d + 1) (s + 1) m else Some m)"

definition strcpy :: "u64 \<Rightarrow> u64 \<Rightarrow> mem \<Rightarrow> mem option" where
  "strcpy dest src m = copy_z dest src m"

definition strcat :: "u64 \<Rightarrow> u64 \<Rightarrow> mem \<Rightarrow> mem option" where
  "strcat dest src m =
     (case strlen m dest of None \<Rightarrow> None | Some len \<Rightarrow> copy_z (dest + len) src m)"

text \<open>\<open>Some 0\<close> is the NULL that \<open>strchr\<close> and \<open>strrchr\<close> return.\<close>

partial_function (option) strchr :: "mem \<Rightarrow> u64 \<Rightarrow> u8 \<Rightarrow> u64 option" where
  "strchr m str c =
     (if m str \<noteq> 0 then if m str = c then Some str else strchr m (str + 1) c else Some 0)"

partial_function (option) strrchr_loop :: "mem \<Rightarrow> u64 \<Rightarrow> u8 \<Rightarrow> u64 \<Rightarrow> u64 option" where
  "strrchr_loop m str c lst =
     (if m str \<noteq> 0 then strrchr_loop m (str + 1) c (if m str = c then str else lst) else Some lst)"

definition strrchr :: "mem \<Rightarrow> u64 \<Rightarrow> u8 \<Rightarrow> u64 option" where
  "strrchr m str c = strrchr_loop m str c 0"

text \<open>The two scanning loops of \<open>strtok\<close>; \<open>want\<close> tells which of them it is.\<close>

partial_function (option) tok_scan :: "bool \<Rightarrow> mem \<Rightarrow> u64 \<Rightarrow> u64 \<Rightarrow> u64 option" where
  "tok_scan want m delim str =
     (if m str = 0 then Some str
      else case strchr m delim (m str) of
             None \<Rightarrow> None
           | Some r \<Rightarrow> if (r \<noteq> 0) = want then tok_scan want m delim (str + 1) else Some str)"

text \<open>The common part of \<open>strtok\<close> and \<open>strtok_r\<close>: the token, the new save pointer, memory.\<close>

definition tok_from :: "u64 \<Rightarrow> u64 \<Rightarrow> u64 \<Rightarrow> mem \<Rightarrow> (u64 \<times> u64 \<times> mem) option" where
  "tok_from str delim save m =
     (case tok_scan True m delim str of
        None \<Rightarrow> None
      | Some start \<Rightarrow>
          if m start = 0 then Some (0, save, m)
          else case tok_scan False m delim start of
                 None \<Rightarrow> None
               | Some fin \<Rightarrow>
                   if m fin \<noteq> 0 then Some (start, fin + 1, m(fin := 0)) else Some (start, fin, m))"

definition strtok_r :: "u64 \<Rightarrow> u64 \<Rightarrow> u64 \<Rightarrow> mem \<Rightarrow> (u64 \<times> u64 \<times> mem) option" where
  "strtok_r str delim save m =
     (let str = (if str = 0 then save else str)
      in if str = 0 then Some (0, save, m) else tok_from str delim save m)"

text \<open>\<open>strtok\<close> keeps its save pointer in a static variable and does not test it for NULL.\<close>

definition strtok :: "u64 \<Rightarrow> u64 \<Rightarrow> u64 \<Rightarrow> mem \<Rightarrow> (u64 \<times> u64 \<times> mem) option" where
  "strtok str delim lst m = tok_from (if str = 0 then lst else str) delim lst m"

fun copy_down :: "nat \<Rightarrow> u64 \<Rightarrow> u64 \<Rightarrow> mem \<Rightarrow> mem" where
  "copy_down 0 d s m = m"
| "copy_down (Suc n) d s m = (let d = d - 1; s = s - 1 in copy_down n d s (m(d := m s)))"

definition memmove :: "u64 \<Rightarrow> u64 \<Rightarrow> u64 \<Rightarrow> mem \<Rightarrow> mem" where
  "memmove dest src n m =
     (if dest < src then copy_up (unat n) dest src m
      else copy_down (unat n) (dest + n) (src + n) m)"


subsection \<open>Byte ranges\<close>

text \<open>The offset of an address in a block, and the block of \<open>n\<close> bytes at an address.\<close>

abbreviation off :: "u64 \<Rightarrow> u64 \<Rightarrow> nat" where "off a d \<equiv> unat (a - d)"

lemma off_Suc: "a \<noteq> d \<Longrightarrow> off a d = Suc (off a (d + 1))"
proof -
  assume "a \<noteq> d"
  then have "a - d \<noteq> 0" by simp
  then have "unat (a - d - 1) = unat (a - d) - 1" by (rule unat_dec)
  moreover have "0 < unat (a - d)" using \<open>a \<noteq> d\<close> by (simp add: unat_gt_0)
  ultimately show ?thesis by (simp add: algebra_simps)
qed

lemma off_in: "off a (d + 1) < n \<Longrightarrow> Suc n < 2 ^ 64 \<Longrightarrow> a \<noteq> d"
  by (auto simp: unat_minus1)

lemma off_add: "off (d + of_nat k) d = k" if "k < 2 ^ 64"
  using that by (simp add: unat_of_nat)

lemma addr_off: "d + of_nat (off a d) = a"
  by simp

lemma set_up_byte:
  assumes "n < 2 ^ 64"
  shows "set_up n d c m a = (if off a d < n then c else m a)"
  using assms
proof (induction n arbitrary: d m)
  case (Suc n)
  show ?case
  proof (cases "a = d")
    case True
    have "\<not> off d (d + 1) < n" using Suc.prems by (simp add: unat_minus1)
    with Suc True show ?thesis by simp
  next
    case False
    with Suc off_Suc [OF False] show ?thesis by simp
  qed
qed simp

text \<open>
  An ascending copy is right unless the target starts inside the source, a descending one unless
  the source starts inside the target.
\<close>

lemma copy_up_byte:
  assumes "n < 2 ^ 64" "d = s \<or> n \<le> off d s"
  shows "copy_up n d s m a = (if off a d < n then m (s + (a - d)) else m a)"
  using assms
proof (induction n arbitrary: d s m)
  case (Suc n)
  have IH: "copy_up n (d + 1) (s + 1) (m(d := m s)) a =
      (if off a (d + 1) < n then (m(d := m s)) (s + 1 + (a - (d + 1))) else (m(d := m s)) a)"
    by (rule Suc.IH) (use Suc.prems in auto)
  show ?case
  proof (cases "a = d")
    case True
    have "\<not> off d (d + 1) < n" using Suc.prems(1) by (simp add: unat_minus1)
    with IH True show ?thesis by simp
  next
    case False
    have e: "s + 1 + (a - (d + 1)) = s + (a - d)" by simp
    have "(m(d := m s)) (s + (a - d)) = m (s + (a - d))" if lt: "off a (d + 1) < n"
    proof (cases "s + (a - d) = d")
      case True
      then have "a - d = d - s" by (simp add: algebra_simps)
      with lt off_Suc [OF False] Suc.prems(2) have "d = s" by auto
      with True show ?thesis by simp
    qed simp
    with IH False off_Suc [OF False] show ?thesis unfolding e by simp
  qed
qed simp

lemma copy_down_byte:
  assumes "n < 2 ^ 64" "d = s \<or> n \<le> off s d"
  shows "copy_down n (d + of_nat n) (s + of_nat n) m a = (if off a d < n then m (s + (a - d)) else m a)"
  using assms
proof (induction n arbitrary: m)
  case (Suc n)
  let ?m = "m(d + of_nat n := m (s + of_nat n))"
  have "copy_down (Suc n) (d + of_nat (Suc n)) (s + of_nat (Suc n)) m a =
      copy_down n (d + of_nat n) (s + of_nat n) ?m a"
    by (simp add: Let_def algebra_simps)
  also have "\<dots> = (if off a d < n then ?m (s + (a - d)) else ?m a)"
    by (rule Suc.IH) (use Suc.prems in auto)
  also have "\<dots> = (if off a d < Suc n then m (s + (a - d)) else m a)"
  proof -
    have "?m (s + (a - d)) = m (s + (a - d))" if lt: "off a d < n"
    proof (cases "s + (a - d) = d + of_nat n")
      case True
      then have "s - d = of_nat (n - off a d)" using lt by (simp add: algebra_simps of_nat_diff)
      then have "off s d = n - off a d" using Suc.prems(1) by (simp add: unat_of_nat)
      with Suc.prems(2) lt have "d = s" by auto
      then show ?thesis using True by simp
    qed simp
    moreover have "a = d + of_nat n \<longleftrightarrow> off a d = n"
      using Suc.prems(1) addr_off [of d a] off_add [of n d] by auto
    ultimately show ?thesis by (auto simp: less_Suc_eq)
  qed
  finally show ?case .
qed simp

subsection \<open>Strings in memory\<close>

fun cstr :: "mem \<Rightarrow> u64 \<Rightarrow> u8 list \<Rightarrow> bool" where
  "cstr m p [] \<longleftrightarrow> m p = 0"
| "cstr m p (x # xs) \<longleftrightarrow> x \<noteq> 0 \<and> m p = x \<and> cstr m (p + 1) xs"

lemma cstr_byte: "cstr m p xs \<Longrightarrow> k < length xs \<Longrightarrow> m (p + of_nat k) = xs ! k \<and> xs ! k \<noteq> 0"
proof (induction xs arbitrary: p k)
  case (Cons x xs)
  then show ?case by (cases k) (force simp: algebra_simps)+
qed simp

lemma cstr_end: "cstr m p xs \<Longrightarrow> m (p + of_nat (length xs)) = 0"
  by (induction xs arbitrary: p) (force simp: algebra_simps)+

lemma cstr_unique: "cstr m p xs \<Longrightarrow> cstr m p ys \<Longrightarrow> xs = ys"
  by (induction xs arbitrary: p ys) (case_tac ys; force)+

text \<open>A string does not change under writes outside of it.\<close>

lemma cstr_cong:
  assumes "cstr m p xs" "\<And>k. k \<le> length xs \<Longrightarrow> m' (p + of_nat k) = m (p + of_nat k)"
  shows "cstr m' p xs"
  using assms
proof (induction xs arbitrary: p)
  case Nil
  then show ?case using Nil(2) [of 0] by simp
next
  case (Cons x xs)
  have "m' (p + 1 + of_nat k) = m (p + 1 + of_nat k)" if "k \<le> length xs" for k
    using Cons.prems(2) [of "Suc k"] that by (simp add: algebra_simps)
  with Cons show ?case using Cons.prems(2) [of 0] by simp
qed

lemma strlen_loop_ok: "cstr m (p + of_nat k) xs \<Longrightarrow> strlen_loop m p (of_nat k) = Some (of_nat (k + length xs))"
proof (induction xs arbitrary: k)
  case Nil
  then show ?case by (subst strlen_loop.simps) simp
next
  case (Cons x xs)
  then show ?case using Cons.IH [of "Suc k"] by (subst strlen_loop.simps) (simp add: algebra_simps)
qed

lemma strlen_ok: "cstr m p xs \<Longrightarrow> p \<noteq> 0 \<Longrightarrow> strlen m p = Some (of_nat (length xs))"
  using strlen_loop_ok [of m p 0 xs] by (simp add: strlen_def)

lemma strcmp_loop_ok:
  "cstr m a xs \<Longrightarrow> cstr m b ys \<Longrightarrow>
    \<exists>r. strcmp_loop m a b = Some r \<and> (r = 0 \<longleftrightarrow> xs = ys) \<and> (r < 0 \<longleftrightarrow> ord_class.lexordp xs ys)"
proof (induction xs arbitrary: a b ys)
  case Nil
  have u: "strcmp_loop m a b = Some (byte_sign 0 (m b))"
    using Nil by (subst strcmp_loop.simps) simp
  show ?case unfolding u using Nil by (cases ys) (auto simp: byte_sign_def word_neq_0_conv)
next
  case (Cons x xs)
  show ?case
  proof (cases "ys \<noteq> [] \<and> x = hd ys")
    case True
    then obtain ys' where y: "ys = x # ys'" by (cases ys) auto
    have u: "strcmp_loop m a b = strcmp_loop m (a + 1) (b + 1)"
      using Cons.prems y by (subst strcmp_loop.simps) simp
    show ?thesis unfolding u using Cons.IH [of "a + 1" "b + 1" ys'] Cons.prems y by simp
  next
    case False
    have ne: "x \<noteq> m b" using False Cons.prems by (cases ys) auto
    have u: "strcmp_loop m a b = Some (byte_sign x (m b))"
      using Cons.prems ne by (subst strcmp_loop.simps) simp
    show ?thesis
      unfolding u using Cons.prems False by (cases ys) (auto simp: byte_sign_def word_neq_0_conv)
  qed
qed

lemma unat_of_nat_small: "k < 2 ^ 64 \<Longrightarrow> unat (of_nat k :: u64) = k"
  unfolding unat_of_nat by (intro mod_less) simp

lemma copy_str_ok:
  assumes "n < 2 ^ 64" "cstr m s xs" "\<And>k. k \<le> length xs \<Longrightarrow> n \<le> off (s + of_nat k) d"
  shows "\<exists>m'. copy_str n d s m =
      (if length xs < n then (n - length xs, d + of_nat (Suc (length xs)), m') else (0, d + of_nat n, m')) \<and>
    (\<forall>a. m' a = (if off a d < n \<and> off a d \<le> length xs then (xs @ [0]) ! off a d else m a))"
  using assms
proof (induction n arbitrary: d s m xs)
  case 0
  then show ?case by simp
next
  case (Suc n)
  have ds: "s + of_nat k \<noteq> d" if "k \<le> length xs" for k using Suc.prems(3) [OF that] by auto
  show ?case
  proof (cases xs)
    case Nil
    then have "m s = 0" using Suc.prems(2) by simp
    then have "copy_str (Suc n) d s m = (Suc n, d + 1, m(d := 0))" by (simp add: Let_def)
    moreover have "off a d = 0 \<longleftrightarrow> a = d" for a by (simp add: unat_eq_zero)
    ultimately show ?thesis using Nil by (intro exI [of _ "m(d := 0)"]) auto
  next
    case (Cons x xs')
    let ?m = "m(d := m s)"
    have x: "m s = x" "x \<noteq> 0" "cstr m (s + 1) xs'" using Suc.prems(2) Cons by auto
    have c: "cstr ?m (s + 1) xs'"
    proof (rule cstr_cong [OF x(3)])
      show "?m (s + 1 + of_nat k) = m (s + 1 + of_nat k)" if "k \<le> length xs'" for k
        using ds [of "Suc k"] that Cons by (simp add: algebra_simps)
    qed
    have o: "n \<le> off (s + 1 + of_nat k) (d + 1)" if "k \<le> length xs'" for k
      using Suc.prems(3) [of "Suc k"] off_Suc [OF ds [of "Suc k"]] that Cons by (simp add: algebra_simps)
    have n1: "n < 2 ^ 64" using Suc.prems(1) by simp
    from Suc.IH [OF n1 c o] obtain m' where m': "copy_str n (d + 1) (s + 1) ?m =
        (if length xs' < n then (n - length xs', d + 1 + of_nat (Suc (length xs')), m') else (0, d + 1 + of_nat n, m'))"
      "\<And>a. m' a = (if off a (d + 1) < n \<and> off a (d + 1) \<le> length xs' then (xs' @ [0]) ! off a (d + 1) else ?m a)"
      by blast
    have "m' a = (if off a d < Suc n \<and> off a d \<le> length xs then (xs @ [0]) ! off a d else m a)" for a
    proof (cases "a = d")
      case True
      have "\<not> off d (d + 1) < n" using Suc.prems(1) by (simp add: unat_minus1)
      then show ?thesis using True m'(2) [of a] x(1) Cons by simp
    next
      case False
      then show ?thesis using m'(2) [of a] off_Suc [OF False] Cons by simp
    qed
    moreover have "copy_str (Suc n) d s m = copy_str n (d + 1) (s + 1) ?m" using x by (simp add: Let_def)
    ultimately show ?thesis using m'(1) Cons by (intro exI [of _ m']) (simp add: algebra_simps)
  qed
qed

lemma strncpy_byte:
  assumes "cstr m src xs" "\<And>k. k \<le> length xs \<Longrightarrow> unat n \<le> off (src + of_nat k) dest"
  shows "strncpy dest src n m a =
    (if off a dest < unat n then if off a dest < length xs then xs ! off a dest else 0 else m a)"
proof -
  have n: "unat n < 2 ^ 64" using unat_lt2p [of n] by simp
  from copy_str_ok [OF n assms] obtain m' where m':
    "copy_str (unat n) dest src m = (if length xs < unat n then (unat n - length xs, dest + of_nat (Suc (length xs)), m')
       else (0, dest + of_nat (unat n), m'))"
    "\<And>a. m' a = (if off a dest < unat n \<and> off a dest \<le> length xs then (xs @ [0]) ! off a dest else m a)"
    by blast
  show ?thesis
  proof (cases "length xs < unat n")
    case False
    then show ?thesis by (simp add: strncpy_def m'(1)) (simp add: m'(2) nth_append)
  next
    case True
    let ?d = "dest + of_nat (Suc (length xs))" and ?k = "unat n - length xs - 1"
    have pad: "set_up ?k ?d 0 m' a = (if off a ?d < ?k then 0 else m' a)"
      by (rule set_up_byte) (use n in linarith)
    have "strncpy dest src n m a = (if off a ?d < ?k then 0 else m' a)"
      using True pad by (simp add: strncpy_def m'(1))
    moreover have "off a ?d < ?k \<longleftrightarrow> length xs < off a dest \<and> off a dest < unat n"
    proof
      assume lt: "off a ?d < ?k"
      have e: "a - dest = of_nat (Suc (length xs) + off a ?d)" by simp
      have "off a dest = Suc (length xs) + off a ?d" unfolding e by (rule unat_of_nat_small) (use lt n in simp)
      with lt show "length xs < off a dest \<and> off a dest < unat n" by simp
    next
      assume a: "length xs < off a dest \<and> off a dest < unat n"
      have e: "a - ?d = of_nat (off a dest - Suc (length xs))" using a by (simp add: of_nat_diff)
      have "off a ?d = off a dest - Suc (length xs)" unfolding e by (rule unat_of_nat_small) (use a n in linarith)
      with a show "off a ?d < ?k" by linarith
    qed
    ultimately show ?thesis using m'(2) [of a] by (auto simp: nth_append)
  qed
qed

lemma strchr_ok:
  assumes "cstr m p ds" "p \<noteq> 0" "unat p + length ds < 2 ^ 64"
  shows "\<exists>r. strchr m p c = Some r \<and> (r \<noteq> 0 \<longleftrightarrow> c \<in> set ds)"
  using assms
proof (induction ds arbitrary: p)
  case Nil
  then show ?case by (subst strchr.simps) simp
next
  case (Cons x xs)
  have u: "unat (p + 1) = unat p + 1" using Cons.prems(3) by (subst unat_add_no_overflow) auto
  then have "p + 1 \<noteq> 0" by (metis add_is_0 unat_0 zero_neq_one)
  with Cons u show ?case by (subst strchr.simps) auto
qed

lemma tok_scan_ok:
  assumes "cstr m p xs" and d: "cstr m delim ds" "delim \<noteq> 0" "unat delim + length ds < 2 ^ 64"
  shows "tok_scan want m delim p = Some (p + of_nat (length (takeWhile (\<lambda>x. (x \<in> set ds) = want) xs)))"
  using assms(1)
proof (induction xs arbitrary: p)
  case Nil
  then show ?case by (subst tok_scan.simps) simp
next
  case (Cons x xs)
  obtain r where r: "strchr m delim x = Some r" "r \<noteq> 0 \<longleftrightarrow> x \<in> set ds" using strchr_ok [OF d, of x] by blast
  have x: "m p = x" "x \<noteq> 0" "cstr m (p + 1) xs" using Cons.prems by auto
  show ?case
    using r x Cons.IH [OF x(3)] by (subst tok_scan.simps) (simp add: algebra_simps)
qed

lemma cstr_drop: "cstr m p xs \<Longrightarrow> k \<le> length xs \<Longrightarrow> cstr m (p + of_nat k) (drop k xs)"
proof (induction xs arbitrary: p k)
  case (Cons x xs)
  then show ?case using Cons.IH [of "p + 1" "k - 1"] by (cases k) (simp_all add: algebra_simps)
qed simp

lemma cstr_cut:
  assumes "cstr m p xs" "k \<le> length xs" "length xs < 2 ^ 64"
  shows "cstr (m(p + of_nat k := 0)) p (take k xs)"
  using assms
proof (induction xs arbitrary: p k)
  case (Cons x xs)
  show ?case
  proof (cases k)
    case (Suc j)
    define a where "a = p + of_nat k"
    have e: "p + 1 + of_nat j = a" using Suc by (simp add: a_def)
    have ne: "a \<noteq> p"
    proof
      assume "a = p"
      then have z: "(of_nat k :: u64) = 0" by (simp add: a_def)
      have "unat (of_nat k :: u64) = k"
        unfolding unat_of_nat using Cons.prems(2,3) by (intro mod_less) simp
      with z Suc show False by simp
    qed
    have "cstr (m(p + 1 + of_nat j := 0)) (p + 1) (take j xs)"
      by (rule Cons.IH) (use Cons.prems Suc in simp_all)
    then have "cstr (m(a := 0)) (p + 1) (take j xs)" unfolding e .
    moreover have "take k (x # xs) = x # take j xs" by (simp add: Suc)
    ultimately show ?thesis using Cons.prems(1) ne unfolding a_def [symmetric] fun_upd_def by simp
  qed simp
qed simp

subsection \<open>Properties\<close>

text \<open>
  C14. \<open>memmove\<close> copies correctly whether or not the buffers overlap: each byte of the target
  holds what the corresponding source byte held before the call, and no other byte changes.
\<close>

theorem memmove_correct:
  assumes "unat dest + unat n \<le> 2 ^ 64" and "unat src + unat n \<le> 2 ^ 64"
  shows "memmove dest src n m a =
    (if unat (a - dest) < unat n then m (src + (a - dest)) else m a)"
proof -
  have n: "unat n < 2 ^ 64" using unat_lt2p [of n] by simp
  show ?thesis
  proof (cases "dest < src")
    case True
    have "unat n \<le> off dest src"
      using True assms(2) by (simp add: unat_sub_if' word_less_nat_alt)
    then show ?thesis using True copy_up_byte [OF n, of dest src m a] by (simp add: memmove_def)
  next
    case False
    have "dest = src \<or> unat n \<le> off src dest"
    proof (cases "dest = src")
      case ne: False
      then have "src < dest" using False by simp
      then have "unat src < unat dest" by (simp add: word_less_nat_alt)
      then have "off src dest = unat src + 2 ^ 64 - unat dest" by (simp add: unat_sub_if')
      then show ?thesis using assms(1) by linarith
    qed simp
    then show ?thesis using False copy_down_byte [OF n, of dest src m a] by (simp add: memmove_def)
  qed
qed

theorem memmove_correct_witness:
  "unat (0x1002 :: u64) + unat (8 :: u64) \<le> 2 ^ 64 \<and>
   memmove 0x1002 0x1000 8 (\<lambda>a. ucast a) 0x1005 = 3 \<and> memmove 0x1002 0x1000 8 (\<lambda>a. ucast a) 0x100A = 0xA"
proof -
  have h: "unat (0x1002 :: u64) + unat (8 :: u64) \<le> 2 ^ 64" "unat (0x1000 :: u64) + unat (8 :: u64) \<le> 2 ^ 64" by simp_all
  show ?thesis using h memmove_correct [OF h, of "\<lambda>a. ucast a"] by simp
qed

text \<open>
  \<open>strcmp\<close> returns on terminated strings, and its result is 0 exactly for equal strings and
  negative exactly when the first string is lexicographically smaller by unsigned bytes.
\<close>

theorem strcmp_correct:
  assumes "cstr m s1 xs" and "cstr m s2 ys" and "s1 \<noteq> 0" and "s2 \<noteq> 0"
  shows "\<exists>r. strcmp lit m s1 s2 = Some r \<and> (r = 0 \<longleftrightarrow> xs = ys) \<and> (r < 0 \<longleftrightarrow> ord_class.lexordp xs ys)"
  using strcmp_loop_ok [OF assms(1,2)] assms(3,4) by (simp add: strcmp_def)

lemma le_2_all: "(\<forall>k \<le> length [a, b]. P k) \<longleftrightarrow> P 0 \<and> P 1 \<and> P 2"
proof -
  have e: "k \<le> length [a, b] \<longleftrightarrow> k = 0 \<or> k = 1 \<or> k = 2" for k :: nat by auto
  show ?thesis by (simp only: e imp_disjL all_conj_distrib all_simps simp_thms)
qed

definition demo_mem :: mem where
  "demo_mem = (\<lambda>_. 0)(0x100 := 97, 0x101 := 32, 0x102 := 98, 0x103 := 99, 0x104 := 0, 0x105 := 7,
     0x200 := 97, 0x201 := 33, 0x300 := 32, 0x110 := 120, 0x111 := 0, 0x112 := 1, 0x113 := 1, 0x114 := 1)"

lemma demo_strings:
  "cstr demo_mem 0x100 [97, 32, 98, 99]" "cstr demo_mem 0x200 [97, 33]" "cstr demo_mem 0x300 [32]"
  "cstr demo_mem 0x110 [120]"
  by (simp_all add: demo_mem_def)

theorem strcmp_correct_witness:
  "\<exists>r. strcmp 0 demo_mem 0x100 0x200 = Some r \<and> r < 0"
proof -
  have h: "(0x100 :: u64) \<noteq> 0" "(0x200 :: u64) \<noteq> 0" by simp_all
  have "ord_class.lexordp [97 :: u8, 32, 98, 99] [97, 33]" by simp
  then show ?thesis using strcmp_correct [OF demo_strings(1,2) h, of 0] by blast
qed

text \<open>
  \<open>strncpy\<close> into a buffer that the source string does not touch writes exactly \<open>n\<close> bytes: the
  first bytes of the string, then zeros; no other byte changes.
\<close>

theorem strncpy_correct:
  assumes "cstr m src xs" and "\<forall>k \<le> length xs. unat n \<le> unat (src + of_nat k - dest)"
  shows "strncpy dest src n m a =
    (if unat (a - dest) < unat n
     then if unat (a - dest) < length xs then xs ! unat (a - dest) else 0 else m a)"
  using strncpy_byte [OF assms(1)] assms(2) by blast

theorem strncpy_correct_witness:
  "cstr demo_mem 0x200 [97, 33] \<and> strncpy 0x100 0x200 5 demo_mem 0x101 = 33 \<and>
   strncpy 0x100 0x200 5 demo_mem 0x103 = 0 \<and> strncpy 0x100 0x200 5 demo_mem 0x105 = 7"
proof -
  have h: "\<forall>k \<le> length [97 :: u8, 33]. unat (5 :: u64) \<le> unat (0x200 + of_nat k - 0x100 :: u64)"
    by (simp only: le_2_all) simp
  show ?thesis using demo_strings(2) strncpy_correct [OF demo_strings(2) h] by (simp add: demo_mem_def)
qed

text \<open>
  \<open>strtok_r\<close> splits: it skips leading delimiters, returns the first token as a terminated string
  and leaves the save pointer at the rest of the string; without a token it returns NULL
  and changes nothing.
\<close>

theorem strtok_r_correct:
  assumes "cstr m str xs" and "str \<noteq> 0" and "cstr m delim ds" and "delim \<noteq> 0"
    and "unat delim + length ds < 2 ^ 64" and "length xs < 2 ^ 64"
  shows "let rest = dropWhile (\<lambda>x. x \<in> set ds) xs;
             start = str + of_nat (length (takeWhile (\<lambda>x. x \<in> set ds) xs));
             tok = takeWhile (\<lambda>x. x \<notin> set ds) rest
         in if rest = [] then strtok_r str delim save m = Some (0, save, m)
            else \<exists>save' m'. strtok_r str delim save m = Some (start, save', m') \<and>
                   cstr m' start tok \<and> cstr m' save' (drop (Suc (length tok)) rest)"
proof -
  define lead rest where "lead = takeWhile (\<lambda>x. x \<in> set ds) xs" and "rest = dropWhile (\<lambda>x. x \<in> set ds) xs"
  define start where "start = str + of_nat (length lead)"
  define tok where "tok = takeWhile (\<lambda>x. x \<notin> set ds) rest"
  define fin where "fin = start + of_nat (length tok)"
  have xs: "xs = lead @ rest" by (simp add: lead_def rest_def)
  have crest: "cstr m start rest" using cstr_drop [OF assms(1), of "length lead"] by (simp add: xs start_def)
  have s1: "tok_scan True m delim str = Some start"
    using tok_scan_ok [OF assms(1,3-5), of True] by (simp add: start_def lead_def)
  have s2: "tok_scan False m delim start = Some fin"
    using tok_scan_ok [OF crest assms(3-5), of False] by (simp add: fin_def tok_def)
  have unf: "strtok_r str delim save m = tok_from str delim save m" using assms(2) by (simp add: strtok_r_def)
  have len: "length tok \<le> length rest" by (simp add: tok_def length_takeWhile_le)
  have lr: "length rest < 2 ^ 64" using assms(6) by (simp add: xs)
  show ?thesis
  proof (cases rest)
    case Nil
    then have "m start = 0" using crest by simp
    then show ?thesis using Nil s1 by (simp add: unf tok_from_def rest_def [symmetric])
  next
    case (Cons y ys)
    have nz: "m start \<noteq> 0" using crest Cons by auto
    have cut: "cstr (m(fin := 0)) start tok"
      using cstr_cut [OF crest len lr] takeWhile_eq_take [of _ rest] by (simp add: fin_def tok_def)
    show ?thesis
    proof (cases "length tok = length rest")
      case True
      then have z: "m fin = 0" using cstr_end [OF crest] by (simp add: fin_def)
      then have "m(fin := 0) = m" by auto
      then have "cstr m start tok \<and> cstr m fin (drop (Suc (length tok)) rest)" using cut z True by simp
      moreover have "strtok_r str delim save m = Some (start, fin, m)"
        using s1 s2 nz z by (simp add: unf tok_from_def)
      ultimately show ?thesis using Cons
        unfolding Let_def rest_def [symmetric] lead_def [symmetric] start_def [symmetric] tok_def [symmetric] by auto
    next
      case False
      then have lt: "length tok < length rest" using len by simp
      have nz2: "m fin \<noteq> 0" using cstr_byte [OF crest lt] by (auto simp: fin_def)
      have tail: "cstr m (fin + 1) (drop (Suc (length tok)) rest)"
        using cstr_drop [OF crest, of "Suc (length tok)"] lt by (simp add: fin_def algebra_simps)
      have "cstr (m(fin := 0)) (fin + 1) (drop (Suc (length tok)) rest)"
      proof (rule cstr_cong [OF tail])
        fix k assume k: "k \<le> length (drop (Suc (length tok)) rest)"
        have "unat (of_nat (Suc k) :: u64) = Suc k" by (rule unat_of_nat_small) (use k lr lt in simp)
        then have "(of_nat (Suc k) :: u64) \<noteq> 0" by (metis Zero_not_Suc unat_0)
        then show "(m(fin := 0)) (fin + 1 + of_nat k) = m (fin + 1 + of_nat k)" by (simp add: algebra_simps)
      qed
      moreover have "strtok_r str delim save m = Some (start, fin + 1, m(fin := 0))"
        using s1 s2 nz nz2 by (simp add: unf tok_from_def)
      ultimately show ?thesis using Cons cut
        unfolding Let_def rest_def [symmetric] lead_def [symmetric] start_def [symmetric] tok_def [symmetric] by auto
    qed
  qed
qed

theorem strtok_r_correct_witness:
  "\<exists>save' m'. strtok_r 0x100 0x300 0 demo_mem = Some (0x100, save', m') \<and>
     cstr m' 0x100 [97] \<and> cstr m' save' [98, 99]"
proof -
  have h: "(0x100 :: u64) \<noteq> 0" "(0x300 :: u64) \<noteq> 0" "unat (0x300 :: u64) + length [32 :: u8] < 2 ^ 64"
    "length [97 :: u8, 32, 98, 99] < 2 ^ 64" by simp_all
  show ?thesis
    using strtok_r_correct [OF demo_strings(1) h(1) demo_strings(3) h(2-4), of 0] by (simp add: Let_def)
qed

text \<open>
  \<open>strncat\<close> with a source of at least \<open>n\<close> bytes does not terminate the result: the bytes are
  appended, but the byte after them keeps its old value.
\<close>

theorem strncat_unterminated:
  assumes "cstr m dest ys" and "dest \<noteq> 0" and "cstr m src xs" and "unat n \<le> length xs"
    and "\<forall>k \<le> length xs. unat n \<le> unat (src + of_nat k - (dest + of_nat (length ys)))"
    and "m (dest + of_nat (length ys) + n) \<noteq> 0"
  shows "\<exists>m'. strncat dest src n m = Some m' \<and>
    (\<forall>i < unat n. m' (dest + of_nat (length ys) + of_nat i) = xs ! i) \<and>
    m' (dest + of_nat (length ys) + n) = m (dest + of_nat (length ys) + n) \<and>
    \<not> cstr m' dest (ys @ take (unat n) xs)"
proof -
  let ?d = "dest + of_nat (length ys)"
  have n: "unat n < 2 ^ 64" using unat_lt2p [of n] by simp
  from copy_str_ok [OF n assms(3), of ?d] assms(4,5)
  obtain m' where m': "copy_str (unat n) ?d src m = (0, ?d + of_nat (unat n), m')"
    "\<And>a. m' a = (if off a ?d < unat n \<and> off a ?d \<le> length xs then (xs @ [0]) ! off a ?d else m a)"
    by (auto simp: not_less)
  have run: "strncat dest src n m = Some m'"
    using strlen_ok [OF assms(1,2)] m'(1) by (simp add: strncat_def)
  have b: "m' (?d + of_nat i) = xs ! i" if "i < unat n" for i
    using m'(2) [of "?d + of_nat i"] off_add [of i ?d] that n assms(4) by (simp add: nth_append)
  have e: "m' (?d + n) = m (?d + n)" using m'(2) [of "?d + n"] by simp
  have "\<not> cstr m' dest (ys @ take (unat n) xs)"
  proof
    assume "cstr m' dest (ys @ take (unat n) xs)"
    from cstr_end [OF this] have "m' (?d + n) = 0" using assms(4) by (simp add: algebra_simps)
    with e assms(6) show False by simp
  qed
  with run b e show ?thesis by blast
qed

theorem strncat_unterminated_witness:
  "\<exists>m'. strncat 0x110 0x200 2 demo_mem = Some m' \<and> \<not> cstr m' 0x110 [120, 97, 33]"
proof -
  have h: "(0x110 :: u64) \<noteq> 0" "unat (2 :: u64) \<le> length [97 :: u8, 33]"
    "\<forall>k \<le> length [97 :: u8, 33]. unat (2 :: u64) \<le> unat (0x200 + of_nat k - (0x110 + of_nat (length [120 :: u8])) :: u64)"
    "demo_mem (0x110 + of_nat (length [120 :: u8]) + 2) \<noteq> 0"
    by (simp, simp, (simp only: le_2_all, simp), simp add: demo_mem_def)
  show ?thesis
    using strncat_unterminated [OF demo_strings(4) h(1) demo_strings(2) h(2-4)] by auto
qed

end
