(* ===== verification/Ustring.thy ===== *)
theory Ustring
  imports Kstring
begin

section \<open>The string library of user programs\<close>

text \<open>
  A model of \<^verbatim>\<open>user/src/string.c\<close> over the byte memory of the kernel's string library. The copying
  and filling loops work on blocks of 16 bytes (\<open>vld1q_u8\<close>, \<open>vst1q_u8\<close>, \<open>vdupq_n_u8\<close>, which load
  and store a block at once) and finish byte by byte. Functions whose text is the one of the
  kernel's library (\<open>memmove\<close>, \<open>strcpy\<close>, \<open>strncat\<close>, \<open>strncpy\<close>, \<open>strtok_r\<close>) are not
  repeated.
\<close>

fun memccpy_loop :: "nat \<Rightarrow> u64 \<Rightarrow> u64 \<Rightarrow> u8 \<Rightarrow> mem \<Rightarrow> u64 \<times> mem" where
  "memccpy_loop 0 d s c m = (0, m)"
| "memccpy_loop (Suc n) d s c m =
     (let m = m(d := m s) in if m d = c then (d + 1, m) else memccpy_loop n (d + 1) (s + 1) c m)"

definition memccpy :: "u64 \<Rightarrow> u64 \<Rightarrow> u8 \<Rightarrow> u64 \<Rightarrow> mem \<Rightarrow> u64 \<times> mem" where
  "memccpy s1 s2 c n m = memccpy_loop (unat n) s1 s2 c m"

fun memchr_loop :: "mem \<Rightarrow> nat \<Rightarrow> u64 \<Rightarrow> u8 \<Rightarrow> u64" where
  "memchr_loop m 0 a c = 0"
| "memchr_loop m (Suc n) a c = (if m a = c then a else memchr_loop m n (a + 1) c)"

definition memchr :: "mem \<Rightarrow> u64 \<Rightarrow> u8 \<Rightarrow> u64 \<Rightarrow> u64" where
  "memchr m s c n = memchr_loop m (unat n) s c"

text \<open>\<open>(int)(*a - *b)\<close> on unsigned bytes.\<close>

definition byte_diff :: "u8 \<Rightarrow> u8 \<Rightarrow> int" where
  "byte_diff a b = int (unat a) - int (unat b)"

fun u_memcmp_loop :: "mem \<Rightarrow> nat \<Rightarrow> u64 \<Rightarrow> u64 \<Rightarrow> int" where
  "u_memcmp_loop m 0 a b = 0"
| "u_memcmp_loop m (Suc n) a b =
     (if m a \<noteq> m b then byte_diff (m a) (m b) else u_memcmp_loop m n (a + 1) (b + 1))"

definition u_memcmp :: "mem \<Rightarrow> u64 \<Rightarrow> u64 \<Rightarrow> u64 \<Rightarrow> int" where
  "u_memcmp m s1 s2 n = u_memcmp_loop m (unat n) s1 s2"

definition store16 :: "u64 \<Rightarrow> (u64 \<Rightarrow> u8) \<Rightarrow> mem \<Rightarrow> mem" where
  "store16 d chunk m = (\<lambda>a. if unat (a - d) < 16 then chunk (a - d) else m a)"

function u_copy :: "nat \<Rightarrow> u64 \<Rightarrow> u64 \<Rightarrow> mem \<Rightarrow> mem" where
  "u_copy n d s m =
     (if n \<ge> 16 then u_copy (n - 16) (d + 16) (s + 16) (store16 d (\<lambda>i. m (s + i)) m)
      else copy_up n d s m)"
  by pat_completeness auto
termination by (relation "measure fst") auto

declare u_copy.simps [simp del]

definition u_memcpy :: "u64 \<Rightarrow> u64 \<Rightarrow> u64 \<Rightarrow> mem \<Rightarrow> mem" where
  "u_memcpy s1 s2 n m = u_copy (unat n) s1 s2 m"

function u_fill :: "nat \<Rightarrow> u64 \<Rightarrow> u8 \<Rightarrow> mem \<Rightarrow> mem" where
  "u_fill n a c m =
     (if n \<ge> 16 then u_fill (n - 16) (a + 16) c (store16 a (\<lambda>_. c) m) else set_up n a c m)"
  by pat_completeness auto
termination by (relation "measure fst") auto

declare u_fill.simps [simp del]

definition u_memset :: "u64 \<Rightarrow> u8 \<Rightarrow> u64 \<Rightarrow> mem \<Rightarrow> mem" where
  "u_memset s c n m = u_fill (unat n) s c m"

text \<open>\<open>stpcpy\<close> gives back the address of the zero byte it wrote.\<close>

partial_function (option) stpcpy :: "u64 \<Rightarrow> u64 \<Rightarrow> mem \<Rightarrow> (u64 \<times> mem) option" where
  "stpcpy d s m = (let b = m s; m = m(d := b) in if b \<noteq> 0 then stpcpy (d + 1) (s + 1) m else Some (d, m))"

fun stpncpy_loop :: "nat \<Rightarrow> u64 \<Rightarrow> u64 \<Rightarrow> mem \<Rightarrow> nat \<times> u64 \<times> mem" where
  "stpncpy_loop 0 d s m = (0, d, m)"
| "stpncpy_loop (Suc n) d s m =
     (if m s \<noteq> 0 then stpncpy_loop n (d + 1) (s + 1) (m(d := m s)) else (Suc n, d, m))"

text \<open>The result is \<open>&s1[n]\<close> in every case.\<close>

definition stpncpy :: "u64 \<Rightarrow> u64 \<Rightarrow> u64 \<Rightarrow> mem \<Rightarrow> u64 \<times> mem" where
  "stpncpy s1 s2 n m =
     (let (left, d, m) = stpncpy_loop (unat n) s1 s2 m;
          m = (if 0 < left then set_up (left - 1) (d + 1) 0 (m(d := 0)) else m)
      in (s1 + n, m))"

partial_function (option) skip_str :: "mem \<Rightarrow> u64 \<Rightarrow> u64 option" where
  "skip_str m d = (if m d \<noteq> 0 then skip_str m (d + 1) else Some d)"

definition u_strcat :: "u64 \<Rightarrow> u64 \<Rightarrow> mem \<Rightarrow> mem option" where
  "u_strcat s1 s2 m = (case skip_str m s1 of None \<Rightarrow> None | Some d \<Rightarrow> copy_z d s2 m)"

partial_function (option) u_strchr :: "mem \<Rightarrow> u64 \<Rightarrow> u8 \<Rightarrow> u64 option" where
  "u_strchr m s c = (if m s = c then Some s else if m s = 0 then Some 0 else u_strchr m (s + 1) c)"

partial_function (option) u_strcmp_loop :: "mem \<Rightarrow> u64 \<Rightarrow> u64 \<Rightarrow> int option" where
  "u_strcmp_loop m a b =
     (if m a \<noteq> 0 \<and> m a = m b then u_strcmp_loop m (a + 1) (b + 1) else Some (byte_diff (m a) (m b)))"

definition u_strcmp :: "u64 \<Rightarrow> mem \<Rightarrow> u64 \<Rightarrow> u64 \<Rightarrow> int option" where
  "u_strcmp lit m s1 s2 =
     u_strcmp_loop m (if s1 \<noteq> 0 then s1 else lit) (if s2 \<noteq> 0 then s2 else lit)"

partial_function (option) in_reject :: "mem \<Rightarrow> u8 \<Rightarrow> u64 \<Rightarrow> bool option" where
  "in_reject m c r = (if m r \<noteq> 0 then if c = m r then Some True else in_reject m c (r + 1) else Some False)"

partial_function (option) strcspn_loop :: "mem \<Rightarrow> u64 \<Rightarrow> u64 \<Rightarrow> u64 \<Rightarrow> u64 option" where
  "strcspn_loop m str reject s =
     (if m s \<noteq> 0
      then case in_reject m (m s) reject of
             None \<Rightarrow> None
           | Some hit \<Rightarrow> if hit then Some (s - str) else strcspn_loop m str reject (s + 1)
      else Some (s - str))"

definition strcspn :: "mem \<Rightarrow> u64 \<Rightarrow> u64 \<Rightarrow> u64 option" where
  "strcspn m str reject = strcspn_loop m str reject str"

definition u_strlen :: "mem \<Rightarrow> u64 \<Rightarrow> u64 option" where
  "u_strlen m s = strlen_loop m s 0"

text \<open>\<open>strdup\<close>; \<open>p\<close> is what \<open>malloc\<close> returns.\<close>

definition strdup :: "u64 \<Rightarrow> mem \<Rightarrow> u64 \<Rightarrow> (u64 \<times> mem) option" where
  "strdup p m s =
     (if s = 0 then Some (0, m)
      else case u_strlen m s of
             None \<Rightarrow> None
           | Some len \<Rightarrow> if p = 0 then Some (0, m) else Some (p, u_memcpy p s (len + 1) m))"

fun u_strncmp_loop :: "mem \<Rightarrow> nat \<Rightarrow> u64 \<Rightarrow> u64 \<Rightarrow> int" where
  "u_strncmp_loop m 0 a b = 0"
| "u_strncmp_loop m (Suc n) a b =
     (if m a \<noteq> m b then byte_diff (m a) (m b)
      else if m a = 0 then 0
      else u_strncmp_loop m n (a + 1) (b + 1))"

definition u_strncmp :: "u64 \<Rightarrow> mem \<Rightarrow> u64 \<Rightarrow> u64 \<Rightarrow> u64 \<Rightarrow> int" where
  "u_strncmp lit m s1 s2 n =
     u_strncmp_loop m (unat n) (if s1 \<noteq> 0 then s1 else lit) (if s2 \<noteq> 0 then s2 else lit)"

partial_function (option) u_strrchr_loop :: "mem \<Rightarrow> u64 \<Rightarrow> u8 \<Rightarrow> u64 \<Rightarrow> u64 option" where
  "u_strrchr_loop m p c lst =
     (let lst = (if m p = c then p else lst) in if m p = 0 then Some lst else u_strrchr_loop m (p + 1) c lst)"

definition u_strrchr :: "mem \<Rightarrow> u64 \<Rightarrow> u8 \<Rightarrow> u64 option" where
  "u_strrchr m str c = u_strrchr_loop m str c 0"


subsection \<open>The block loops\<close>

lemma off_16: "\<not> off a d < 16 \<Longrightarrow> off a (d + 16) = off a d - 16"
proof -
  assume a: "\<not> off a d < 16"
  have e: "a - (d + 16) = (a - d) - 16" by simp
  have "unat (a - d - 16) = unat (a - d) - unat (16 :: u64)"
    by (rule unat_sub_le) (use a in \<open>simp add: word_le_nat_alt\<close>)
  then show ?thesis unfolding e by simp
qed

lemma off_16_low: "off a d < 16 \<Longrightarrow> 2 ^ 64 - 16 \<le> off a (d + 16)"
proof -
  assume a: "off a d < 16"
  have "off a (d + 16) = unat ((a - d) - 16)" by (simp add: algebra_simps)
  also have "\<dots> = unat (a - d) + 2 ^ 64 - 16" using a by (simp add: unat_sub_if')
  finally show ?thesis by simp
qed

lemma u_copy_byte:
  assumes "n < 2 ^ 64" "d = s \<or> n \<le> off d s"
  shows "u_copy n d s m a = (if off a d < n then m (s + (a - d)) else m a)"
  using assms
proof (induction n d s m rule: u_copy.induct)
  case (1 n d s m)
  show ?case
  proof (cases "n \<ge> 16")
    case False
    then show ?thesis using copy_up_byte [OF 1(2,3)] by (simp add: u_copy.simps)
  next
    case True
    let ?m = "store16 d (\<lambda>i. m (s + i)) m"
    have "u_copy n d s m a = u_copy (n - 16) (d + 16) (s + 16) ?m a" using True by (subst u_copy.simps) simp
    also have "\<dots> = (if off a (d + 16) < n - 16 then ?m (s + 16 + (a - (d + 16))) else ?m a)"
      by (rule 1(1) [OF True]) (use 1(2,3) in auto)
    also have "\<dots> = (if off a d < n then m (s + (a - d)) else m a)"
    proof (cases "off a d < 16")
      case lo: True
      then have "\<not> off a (d + 16) < n - 16" using off_16_low [OF lo] 1(2) by linarith
      then show ?thesis using lo True by (simp add: store16_def)
    next
      case hi: False
      have e: "s + 16 + (a - (d + 16)) = s + (a - d)" by simp
      have "?m (s + (a - d)) = m (s + (a - d))" if lt: "off a d < n"
      proof (cases "off (s + (a - d)) d < 16")
        case in16: True
        show ?thesis
        proof (cases "d = s")
          case False
          define x j where "x = off a d" and "j = off (s + (a - d)) d"
          have "d - s = of_nat x - of_nat j" by (simp add: x_def j_def)
          then have "d - s = of_nat (x - j)" using in16 hi by (simp add: x_def j_def of_nat_diff)
          then have "off d s = x - j" using lt 1(2) unat_of_nat_small [of "x - j"] by (simp add: x_def)
          moreover have "0 < x - j" using in16 hi by (simp add: x_def j_def)
          ultimately have "off d s < n" using lt by (simp add: x_def)
          with False 1(3) show ?thesis by simp
        qed (use in16 in \<open>simp add: store16_def\<close>)
      qed (simp add: store16_def)
      then show ?thesis using off_16 [OF hi] hi True unfolding e by (auto simp: store16_def)
    qed
    finally show ?thesis .
  qed
qed

lemma u_fill_byte:
  assumes "n < 2 ^ 64"
  shows "u_fill n d c m a = (if off a d < n then c else m a)"
  using assms
proof (induction n d c m rule: u_fill.induct)
  case (1 n d c m)
  show ?case
  proof (cases "n \<ge> 16")
    case False
    then show ?thesis using set_up_byte [OF 1(2)] by (simp add: u_fill.simps)
  next
    case True
    let ?m = "store16 d (\<lambda>_. c) m"
    have "u_fill n d c m a = u_fill (n - 16) (d + 16) c ?m a" using True by (subst u_fill.simps) simp
    also have "\<dots> = (if off a (d + 16) < n - 16 then c else ?m a)" by (rule 1(1) [OF True]) (use 1(2) in simp)
    also have "\<dots> = (if off a d < n then c else m a)"
    proof (cases "off a d < 16")
      case lo: True
      then have "\<not> off a (d + 16) < n - 16" using off_16_low [OF lo] 1(2) by linarith
      then show ?thesis using lo True by (simp add: store16_def)
    next
      case hi: False
      then show ?thesis using off_16 [OF hi] True by (auto simp: store16_def)
    qed
    finally show ?thesis .
  qed
qed

subsection \<open>Properties\<close>

text \<open>
  C15. The 16-byte block versions of \<open>memcpy\<close> and \<open>memset\<close> in the user library compute the same memory as the
  byte loops of the kernel library; for \<open>memcpy\<close> this holds whenever the target does not start
  inside the source.
\<close>

theorem u_memcpy_equiv:
  assumes "s1 = s2 \<or> unat n \<le> unat (s1 - s2)"
  shows "u_memcpy s1 s2 n m = memcpy s1 s2 n m \<and> u_memset s1 c n m = memset s1 c n m"
proof -
  have n: "unat n < 2 ^ 64" using unat_lt2p [of n] by simp
  show ?thesis
    using u_copy_byte [OF n assms] copy_up_byte [OF n assms] u_fill_byte [OF n] set_up_byte [OF n]
    by (auto simp: u_memcpy_def memcpy_def u_memset_def memset_def)
qed

theorem u_memcpy_equiv_witness:
  "unat (37 :: u64) \<le> unat (0x2000 - 0x1000 :: u64) \<and>
   u_memcpy 0x2000 0x1000 37 demo_mem = memcpy 0x2000 0x1000 37 demo_mem"
proof -
  have h: "unat (37 :: u64) \<le> unat (0x2000 - 0x1000 :: u64)" by simp
  show ?thesis using h u_memcpy_equiv [OF disjI2 [OF h], of demo_mem 0] by blast
qed

end
