(* ===== verification/Dll.thy ===== *)
theory Dll
  imports Prelude
begin

section \<open>Doubly linked lists\<close>

text \<open>
  The doubly linked lists that the scheduler and other parts of the kernel keep, as a relation between the two
  link functions of the nodes and a HOL list. Nodes are natural numbers, 0 is NULL.
  \<open>dseg nx pv h p xs t n\<close> says that, starting at \<open>h\<close>, the nodes are \<open>xs\<close>, the last one is
  \<open>t\<close>, the node before is \<open>p\<close> and the node after is \<open>n\<close>.
\<close>

type_synonym link = "nat \<Rightarrow> nat"

fun dseg :: "link \<Rightarrow> link \<Rightarrow> nat \<Rightarrow> nat \<Rightarrow> nat list \<Rightarrow> nat \<Rightarrow> nat \<Rightarrow> bool" where
  "dseg nx pv h p [] t n \<longleftrightarrow> h = n \<and> t = p"
| "dseg nx pv h p (x # xs) t n \<longleftrightarrow> h = x \<and> x \<noteq> 0 \<and> pv x = p \<and> dseg nx pv (nx x) x xs t n"

definition dll :: "link \<Rightarrow> link \<Rightarrow> nat \<Rightarrow> nat list \<Rightarrow> nat \<Rightarrow> bool" where
  "dll nx pv h xs t \<longleftrightarrow> dseg nx pv h 0 xs t 0 \<and> distinct xs"

lemma dseg_append:
  "dseg nx pv h p (xs @ ys) t n \<longleftrightarrow> (\<exists>k m. dseg nx pv h p xs k m \<and> dseg nx pv m k ys t n)"
  by (induction xs arbitrary: h p) auto

lemma dseg_cong:
  assumes "\<And>x. x \<in> set xs \<Longrightarrow> nx' x = nx x \<and> pv' x = pv x"
  shows "dseg nx' pv' h p xs t n \<longleftrightarrow> dseg nx pv h p xs t n"
  using assms by (induction xs arbitrary: h p) auto

lemma dseg_nonzero: "dseg nx pv h p xs t n \<Longrightarrow> 0 \<notin> set xs"
  by (induction xs arbitrary: h p) auto

lemma dseg_snoc:
  "dseg nx pv h p (xs @ [x]) t n \<longleftrightarrow> t = x \<and> x \<noteq> 0 \<and> nx x = n \<and> (\<exists>k. dseg nx pv h p xs k x \<and> pv x = k)"
  by (auto simp: dseg_append)

lemma dseg_head: "dseg nx pv h p xs t n \<Longrightarrow> h = (case xs of [] \<Rightarrow> n | x # _ \<Rightarrow> x)"
  by (cases xs) auto

lemma dseg_last: "dseg nx pv h p xs t n \<Longrightarrow> t = (if xs = [] then p else last xs)"
  by (induction xs arbitrary: h p) auto

text \<open>A change of the link after the last node.\<close>

lemma dseg_relink:
  assumes "dseg nx pv h p xs t n" "distinct xs" "xs \<noteq> []"
  shows "dseg (nx(t := n')) pv h p xs t n'"
proof -
  obtain ys y where y: "xs = ys @ [y]" using assms(3) by (metis rev_exhaust)
  with assms have d: "t = y" "y \<noteq> 0" "dseg nx pv h p ys (pv y) y" "y \<notin> set ys" by (auto simp: dseg_snoc)
  then have "dseg (nx(y := n')) pv h p ys (pv y) y"
    by (subst dseg_cong [where nx = nx and pv = pv]) auto
  with y d show ?thesis by (simp add: dseg_snoc)
qed

text \<open>A change of the link before the first node.\<close>

lemma dseg_reback:
  assumes "dseg nx pv h p xs t n" "distinct xs" "xs \<noteq> []"
  shows "dseg nx (pv(h := p')) h p' xs t n"
proof -
  obtain x ys where x: "xs = x # ys" using assms(3) by (cases xs) auto
  with assms have d: "h = x" "x \<noteq> 0" "dseg nx pv (nx x) x ys t n" "x \<notin> set ys" by auto
  then have "dseg nx (pv(x := p')) (nx x) x ys t n"
    by (subst dseg_cong [where nx = nx and pv = pv]) auto
  with x d show ?thesis by simp
qed

text \<open>Appending a node at the tail.\<close>

lemma dll_push_back:
  assumes "dll nx pv h xs t" "x \<notin> set xs" "x \<noteq> 0"
  shows "dll ((nx(x := 0))(t := if t = 0 then (nx(x := 0)) t else x)) (pv(x := t)) (if h = 0 then x else h) (xs @ [x]) x"
proof -
  note D = assms(1) [unfolded dll_def]
  show ?thesis
  proof (cases "xs = []")
    case True
    then show ?thesis using D assms(3) by (simp add: dll_def)
  next
    case False
    have t: "t = last xs" "t \<in> set xs" using dseg_last [OF conjunct1 [OF D]] False by auto
    have t0: "t \<noteq> 0" using t dseg_nonzero [OF conjunct1 [OF D]] by metis
    have h0: "h \<noteq> 0" using D False dseg_nonzero by (cases xs) auto
    have "dseg (nx(t := x)) pv h 0 xs t x" using dseg_relink D False by blast
    then have "dseg ((nx(x := 0))(t := x)) (pv(x := t)) h 0 xs t x"
      using assms(2) by (subst dseg_cong [where nx = "nx(t := x)" and pv = pv]) auto
    moreover have "x \<noteq> t" using t(2) assms(2) by auto
    ultimately show ?thesis using D assms(2,3) t0 h0 by (auto simp: dll_def dseg_snoc)
  qed
qed

text \<open>Putting a node in front.\<close>

lemma dll_push_front:
  assumes "dll nx pv h xs t" "x \<notin> set xs" "x \<noteq> 0"
  shows "dll (nx(x := h)) ((pv(x := 0))(h := if h = 0 then (pv(x := 0)) h else x)) x (x # xs) (if t = 0 then x else t)"
proof (cases xs)
  case Nil
  then show ?thesis using assms by (auto simp: dll_def)
next
  case (Cons y ys)
  have D: "dseg nx pv h 0 xs t 0" "distinct xs" using assms(1) by (simp_all add: dll_def)
  then have h: "h = y" "y \<noteq> 0" "y \<noteq> x" using Cons assms(2) by auto
  have "t \<in> set xs" using dseg_last [OF D(1)] Cons by simp
  then have h: "h = y" "y \<noteq> 0" "y \<noteq> x" "t \<noteq> 0" using h dseg_nonzero [OF D(1)] by (metis)+
  have "dseg nx (pv(h := x)) h x xs t 0" by (rule dseg_reback [OF D]) (simp add: Cons)
  then have "dseg (nx(x := h)) ((pv(x := 0))(h := x)) h x xs t 0"
    using assms(2) by (subst dseg_cong [where nx = nx and pv = "pv(h := x)"]) auto
  then show ?thesis using h D assms(2,3) by (simp add: dll_def)
qed

text \<open>Unlinking a node.\<close>

definition unlink_nx :: "link \<Rightarrow> link \<Rightarrow> nat \<Rightarrow> link" where
  "unlink_nx nx pv x = (if pv x \<noteq> 0 then nx(pv x := nx x) else nx)"

definition unlink_pv :: "link \<Rightarrow> link \<Rightarrow> nat \<Rightarrow> link" where
  "unlink_pv nx pv x = (if nx x \<noteq> 0 then pv(nx x := pv x) else pv)"

lemma dll_unlink:
  assumes D: "dll nx pv h (as @ x # bs) t"
  shows "dll (unlink_nx nx pv x) (unlink_pv nx pv x) (if pv x = 0 then nx x else h) (as @ bs)
    (if nx x = 0 then pv x else t)"
    and "pv x = 0 \<longleftrightarrow> as = []" "nx x = 0 \<longleftrightarrow> bs = []" "pv x = 0 \<longleftrightarrow> h = x" "nx x = 0 \<longleftrightarrow> t = x"
proof -
  from D obtain m where a: "dseg nx pv h 0 as m x" "pv x = m" "x \<noteq> 0" and b: "dseg nx pv (nx x) x bs t 0"
    and dist: "distinct (as @ x # bs)"
    by (auto simp: dll_def dseg_append)
  have nz: "0 \<notin> set as" "0 \<notin> set bs" using dseg_nonzero a(1) b by metis+
  have ka: "pv x = (if as = [] then 0 else last as)" using dseg_last [OF a(1)] a(2) by simp
  have hb: "nx x = (case bs of [] \<Rightarrow> 0 | y # _ \<Rightarrow> y)" using dseg_head [OF b] .
  show p0: "pv x = 0 \<longleftrightarrow> as = []" using ka nz(1) by (metis last_in_set)
  show n0: "nx x = 0 \<longleftrightarrow> bs = []" using hb nz(2) by (auto split: list.splits)
  show "pv x = 0 \<longleftrightarrow> h = x"
    using p0 dseg_head [OF a(1)] dist by (cases as) auto
  show "nx x = 0 \<longleftrightarrow> t = x"
    using n0 dseg_last [OF b] dist by (auto split: if_splits)
  define nx' pv' where "nx' = unlink_nx nx pv x" and "pv' = unlink_pv nx pv x"
  have A: "dseg nx' pv' (if as = [] then nx x else h) 0 as m (nx x)"
  proof (cases "as = []")
    case True
    then show ?thesis using a by simp
  next
    case False
    have m: "pv x \<noteq> 0" "m = pv x" "pv x \<in> set as" using False p0 ka a(2) by auto
    have "dseg (nx(m := nx x)) pv h 0 as m (nx x)" using dseg_relink [OF a(1) _ False] dist by simp
    moreover have "nx' = nx(m := nx x)" using m by (simp add: nx'_def unlink_nx_def)
    moreover have "pv' y = pv y" if "y \<in> set as" for y
      using that hb dist by (auto simp: pv'_def unlink_pv_def split: list.splits)
    ultimately show ?thesis using False by (subst dseg_cong [where nx = nx' and pv = pv]) auto
  qed
  have B: "dseg nx' pv' (nx x) m bs (if bs = [] then m else t) 0"
  proof (cases "bs = []")
    case True
    then show ?thesis using b n0 by simp
  next
    case False
    have h: "nx x \<noteq> 0" "nx x \<in> set bs" using False n0 hb by (auto split: list.splits)
    have "dseg nx (pv(nx x := m)) (nx x) m bs t 0" using dseg_reback [OF b _ False] dist by simp
    moreover have "pv' = pv(nx x := m)" using h a(2) by (simp add: pv'_def unlink_pv_def)
    moreover have "nx' y = nx y" if "y \<in> set bs" for y
      using that ka dist last_in_set [of as] by (fastforce simp: nx'_def unlink_nx_def)
    ultimately show ?thesis using False by (subst dseg_cong [where nx = nx and pv = pv']) auto
  qed
  have "dseg nx' pv' (if pv x = 0 then nx x else h) 0 (as @ bs) (if nx x = 0 then pv x else t) 0"
    unfolding dseg_append p0 n0
    by (rule exI [of _ m], rule exI [of _ "nx x"]) (use A B a(2) in \<open>auto split: if_splits\<close>)
  then show "dll (unlink_nx nx pv x) (unlink_pv nx pv x) (if pv x = 0 then nx x else h) (as @ bs)
    (if nx x = 0 then pv x else t)"
    using dist by (simp add: dll_def nx'_def pv'_def)
qed

lemma dll_cong:
  assumes "\<And>x. x \<in> set xs \<Longrightarrow> nx' x = nx x \<and> pv' x = pv x"
  shows "dll nx' pv' h xs t \<longleftrightarrow> dll nx pv h xs t"
  unfolding dll_def by (simp add: dseg_cong [of xs nx' nx pv' pv] assms)

lemma dll_empty_iff: "dll nx pv h xs t \<Longrightarrow> h = 0 \<longleftrightarrow> xs = []"
  by (cases xs) (auto simp: dll_def)

lemma dll_nonzero: "dll nx pv h xs t \<Longrightarrow> 0 \<notin> set xs"
  using dseg_nonzero by (auto simp: dll_def)

lemma dll_head: "dll nx pv h (x # xs) t \<Longrightarrow> h = x"
  by (simp add: dll_def)

end
