(* ===== verification/Sched.thy ===== *)
theory Sched
  imports Dll
begin

section \<open>Tasks, run queues and wait queues\<close>

text \<open>
  A model of \<^verbatim>\<open>kernel/threading/sched.c\<close> and of the blocking operations of
  \<^verbatim>\<open>kernel/threading/sync.c\<close>. Task and process pointers are natural numbers, 0 is NULL; the
  links \<open>next\<close> (here \<open>nxt\<close>), \<open>prev\<close>, \<open>next_wait\<close>, \<open>sleep_next\<close> and \<open>thread_next\<close> are fields of the tasks, as in
  the source, so aliasing of lists is visible. The scheduler lock makes each operation one step.
  \<open>schedule\<close> stands for its effect on the scheduler's data: the context switch itself is assembly code.
\<close>

datatype task_state =
  TASK_RUNNING | TASK_READY | TASK_EXITED | TASK_BLOCKED | TASK_STOPPED | TASK_SLEEPING

text \<open>Priorities are the numbers \<open>IDLE = 0\<close> to \<open>REALTIME = 4\<close>.\<close>

abbreviation (input) COUNT :: nat where "COUNT \<equiv> 5"
abbreviation (input) IDLE :: nat where "IDLE \<equiv> 0"
abbreviation (input) NORMAL :: nat where "NORMAL \<equiv> 2"
abbreviation (input) TASK_TIMEOUT :: u32 where "TASK_TIMEOUT \<equiv> 1"
abbreviation (input) TASK_TIMEDOUT :: u32 where "TASK_TIMEDOUT \<equiv> 2"

record task =
  state :: task_state
  priority :: nat
  nxt :: nat
  prev :: nat
  next_wait :: nat
  thread_next :: nat
  sleep_next :: nat
  wake_tick :: u64
  flags :: u32
  proc :: nat

record sched =
  tasks :: "nat \<Rightarrow> task"
  runqueues :: "nat \<Rightarrow> nat"
  runqueues_tail :: "nat \<Rightarrow> nat"
  active_priorities :: u32
  sleep_queue :: nat
  current_task :: nat
  threads :: "nat \<Rightarrow> nat"
  jiffies :: u64

abbreviation upd_task :: "nat \<Rightarrow> (task \<Rightarrow> task) \<Rightarrow> sched \<Rightarrow> sched" where
  "upd_task t f s \<equiv> s\<lparr>tasks := (tasks s)(t := f (tasks s t))\<rparr>"

definition prio_bit :: "nat \<Rightarrow> u32" where
  "prio_bit p = push_bit p 1"

definition sched_enqueue_task :: "nat \<Rightarrow> sched \<Rightarrow> sched" where
  "sched_enqueue_task t s =
     (let prio = priority (tasks s t);
          s = upd_task t (\<lambda>k. k\<lparr>nxt := 0, prev := 0\<rparr>) s;
          s = (if runqueues s prio = 0
               then s\<lparr>runqueues := (runqueues s)(prio := t), runqueues_tail := (runqueues_tail s)(prio := t)\<rparr>
               else let s = upd_task t (\<lambda>k. k\<lparr>prev := runqueues_tail s prio\<rparr>) s;
                        s = upd_task (runqueues_tail s prio) (\<lambda>k. k\<lparr>nxt := t\<rparr>) s
                    in s\<lparr>runqueues_tail := (runqueues_tail s)(prio := t)\<rparr>)
      in s\<lparr>active_priorities := active_priorities s OR prio_bit prio\<rparr>)"

text \<open>\<open>sched_dequeue_task\<close> in the steps of its text: the forward link, the backward link, the task's own links.\<close>

definition dequeue_next :: "nat \<Rightarrow> sched \<Rightarrow> sched" where
  "dequeue_next t s =
     (if prev (tasks s t) \<noteq> 0
      then upd_task (prev (tasks s t)) (\<lambda>k. k\<lparr>nxt := nxt (tasks s t)\<rparr>) s
      else if runqueues s (priority (tasks s t)) = t
      then s\<lparr>runqueues := (runqueues s)(priority (tasks s t) := nxt (tasks s t))\<rparr>
      else s)"

definition dequeue_prev :: "nat \<Rightarrow> sched \<Rightarrow> sched" where
  "dequeue_prev t s =
     (if nxt (tasks s t) \<noteq> 0
      then upd_task (nxt (tasks s t)) (\<lambda>k. k\<lparr>prev := prev (tasks s t)\<rparr>) s
      else if runqueues_tail s (priority (tasks s t)) = t
      then s\<lparr>runqueues_tail := (runqueues_tail s)(priority (tasks s t) := prev (tasks s t))\<rparr>
      else s)"

definition sched_dequeue_task :: "nat \<Rightarrow> sched \<Rightarrow> sched" where
  "sched_dequeue_task t s =
     (let prio = priority (tasks s t);
          s = upd_task t (\<lambda>k. k\<lparr>nxt := 0, prev := 0\<rparr>) (dequeue_prev t (dequeue_next t s))
      in if runqueues s prio = 0
         then s\<lparr>active_priorities := active_priorities s AND NOT (prio_bit prio)\<rparr>
         else s)"

text \<open>
  \<open>task_create\<close>: \<open>t\<close> is the address that \<open>kmalloc\<close> gives the task, 0 if it fails, and
  \<open>stack_ok\<close> the outcome of the allocation of the stack.
\<close>

definition task_create :: "nat \<Rightarrow> bool \<Rightarrow> nat \<Rightarrow> nat \<Rightarrow> sched \<Rightarrow> sched" where
  "task_create t stack_ok prio p s =
     (let prio = (if prio \<ge> COUNT then NORMAL else prio)
      in if t = 0 \<or> \<not> stack_ok then s
         else let s = upd_task t (\<lambda>_. \<lparr>state = TASK_READY, priority = prio, nxt = 0, prev = 0, next_wait = 0,
                        thread_next = 0, sleep_next = 0, wake_tick = 0, flags = 0, proc = p\<rparr>) s;
                  s = (if p \<noteq> 0
                       then (upd_task t (\<lambda>k. k\<lparr>thread_next := threads s p\<rparr>) s)\<lparr>threads := (threads s)(p := t)\<rparr>
                       else s)
              in sched_enqueue_task t s)"

definition rotate_queue :: "nat \<Rightarrow> sched \<Rightarrow> sched" where
  "rotate_queue prio s =
     (let head = runqueues s prio
      in if head = 0 \<or> nxt (tasks s head) = 0 then s
         else sched_enqueue_task head (sched_dequeue_task head s))"

text \<open>\<open>31 - __builtin_clz(x)\<close> for a non-zero 32-bit \<open>x\<close>: the highest bit that is set.\<close>

definition highest_bit :: "u32 \<Rightarrow> nat" where
  "highest_bit x = (case filter (bit x) (rev [0..<32]) of [] \<Rightarrow> 0 | i # _ \<Rightarrow> i)"

definition schedule :: "sched \<Rightarrow> sched" where
  "schedule s =
     (let prev_task = current_task s;
          s = (if prev_task \<noteq> 0 \<and> state (tasks s prev_task) = TASK_RUNNING
               then rotate_queue (priority (tasks s prev_task)) s else s);
          next_task = (if active_priorities s = 0 then runqueues s IDLE
                       else let p = highest_bit (active_priorities s)
                            in runqueues s (if p \<ge> COUNT then COUNT - 1 else p));
          next_task = (if next_task = 0 then runqueues s IDLE else next_task)
      in if next_task \<noteq> prev_task
         then let s = s\<lparr>current_task := next_task\<rparr>
              in if state (tasks s next_task) = TASK_READY
                 then upd_task next_task (\<lambda>k. k\<lparr>state := TASK_RUNNING\<rparr>) s else s
         else s)"

text \<open>
  A wait queue is the address of its first task; \<open>sleep_on\<close> and \<open>wake_up\<close> give back the new
  value of the queue.
\<close>

definition sleep_on :: "nat \<Rightarrow> sched \<Rightarrow> nat \<times> sched" where
  "sleep_on queue s =
     (let c = current_task s;
          s = upd_task c (\<lambda>k. k\<lparr>state := TASK_BLOCKED, next_wait := queue\<rparr>) s
      in (c, schedule (sched_dequeue_task c s)))"

definition wake_up :: "nat \<Rightarrow> sched \<Rightarrow> nat \<times> sched" where
  "wake_up queue s =
     (if queue = 0 then (queue, s)
      else let t = queue;
               queue = next_wait (tasks s t);
               s = upd_task t (\<lambda>k. k\<lparr>next_wait := 0, state := TASK_READY\<rparr>) s
           in (queue, sched_enqueue_task t s))"

text \<open>The walk along \<open>thread_next\<close> ends if the list of threads is well formed.\<close>

partial_function (option) wake_threads :: "nat \<Rightarrow> sched \<Rightarrow> sched option" where
  "wake_threads t s =
     (if t = 0 then Some s
      else let s = (if state (tasks s t) = TASK_STOPPED
                    then sched_enqueue_task t (upd_task t (\<lambda>k. k\<lparr>state := TASK_READY\<rparr>) s) else s)
           in wake_threads (thread_next (tasks s t)) s)"

definition task_wake_up_process :: "nat \<Rightarrow> sched \<Rightarrow> sched option" where
  "task_wake_up_process p s = (if p = 0 then Some s else wake_threads (threads s p) s)"

definition task_exit :: "sched \<Rightarrow> sched" where
  "task_exit s =
     (let c = current_task s;
          s = upd_task c (\<lambda>k. k\<lparr>state := TASK_EXITED\<rparr>) s
      in schedule (sched_dequeue_task c s))"

text \<open>
  The walk of \<open>sched_check_sleeping_tasks\<close> over \<open>sleep_queue\<close>, which follows and rewrites
  \<open>next_wait\<close>; \<open>pred\<close> is the task whose \<open>next_wait\<close> is \<open>*curr\<close>, 0 for the queue head.
\<close>

partial_function (option) check_sleeping :: "u64 \<Rightarrow> nat \<Rightarrow> nat \<Rightarrow> sched \<Rightarrow> sched option" where
  "check_sleeping now pred t s =
     (if t = 0 then Some s
      else if now \<ge> wake_tick (tasks s t)
      then let succ = next_wait (tasks s t);
               s = (if pred = 0 then s\<lparr>sleep_queue := succ\<rparr> else upd_task pred (\<lambda>k. k\<lparr>next_wait := succ\<rparr>) s);
               s = upd_task t (\<lambda>k. k\<lparr>next_wait := 0, state := TASK_READY\<rparr>) s
           in check_sleeping now pred succ (sched_enqueue_task t s)
      else check_sleeping now t (next_wait (tasks s t)) s)"

definition sched_check_sleeping_tasks :: "u64 \<Rightarrow> sched \<Rightarrow> sched option" where
  "sched_check_sleeping_tasks now s = check_sleeping now 0 (sleep_queue s) s"

definition task_sleep_ticks :: "u64 \<Rightarrow> sched \<Rightarrow> sched" where
  "task_sleep_ticks ticks s =
     (let c = current_task s;
          s = upd_task c (\<lambda>k. k\<lparr>wake_tick := jiffies s + ticks, state := TASK_SLEEPING\<rparr>) s;
          s = sched_dequeue_task c s;
          s = upd_task c (\<lambda>k. k\<lparr>next_wait := sleep_queue s\<rparr>) s
      in schedule (s\<lparr>sleep_queue := c\<rparr>))"

text \<open>The part of \<open>sleep_on_timeout\<close> before the task is switched away.\<close>

definition sleep_on_timeout :: "nat \<Rightarrow> u64 \<Rightarrow> sched \<Rightarrow> nat \<times> sched" where
  "sleep_on_timeout queue timeout_ticks s =
     (if timeout_ticks = 0 then (queue, s)
      else let c = current_task s;
               s = upd_task c (\<lambda>k. k\<lparr>wake_tick := jiffies s + timeout_ticks, state := TASK_BLOCKED,
                     flags := flags k OR TASK_TIMEOUT, next_wait := queue, sleep_next := sleep_queue s\<rparr>) s;
               s = s\<lparr>sleep_queue := c\<rparr>
           in (c, schedule (sched_dequeue_task c s)))"


subsection \<open>The run queues as lists\<close>

abbreviation nx :: "sched \<Rightarrow> link" where "nx s \<equiv> \<lambda>t. nxt (tasks s t)"
abbreviation pv :: "sched \<Rightarrow> link" where "pv s \<equiv> \<lambda>t. prev (tasks s t)"

text \<open>
  \<open>rq_ok qs s\<close>: the run queue of each priority \<open>p\<close> is the list \<open>qs p\<close> of tasks of that
  priority, and the bit mask tells which queues are not empty.
\<close>

definition rq_ok :: "(nat \<Rightarrow> nat list) \<Rightarrow> sched \<Rightarrow> bool" where
  "rq_ok qs s \<longleftrightarrow>
     (\<forall>p < COUNT. dll (nx s) (pv s) (runqueues s p) (qs p) (runqueues_tail s p) \<and>
        (\<forall>t \<in> set (qs p). priority (tasks s t) = p)) \<and>
     (\<forall>i. bit (active_priorities s) i \<longleftrightarrow> i < COUNT \<and> qs i \<noteq> [])"

lemma rq_okD:
  assumes "rq_ok qs s" "p < COUNT"
  shows "dll (nx s) (pv s) (runqueues s p) (qs p) (runqueues_tail s p)"
    "t \<in> set (qs p) \<Longrightarrow> priority (tasks s t) = p"
    "runqueues s p = 0 \<longleftrightarrow> qs p = []" "0 \<notin> set (qs p)"
  using assms dll_empty_iff [of "nx s" "pv s"] dll_nonzero [of "nx s" "pv s"] by (auto simp: rq_ok_def)

lemma bit_prio: "p < 32 \<Longrightarrow> bit (prio_bit p) i \<longleftrightarrow> i = p"
  unfolding prio_bit_def bit_push_bit_iff bit_1_iff by auto

lemma bit_or_prio: "p < 32 \<Longrightarrow> bit (x OR prio_bit p) i \<longleftrightarrow> bit x i \<or> i = p"
  by (auto simp: bit_or_iff bit_prio)

lemma bit_and_not_prio: "p < 32 \<Longrightarrow> bit (x AND NOT (prio_bit p)) i \<longleftrightarrow> bit x i \<and> i \<noteq> p"
  by (auto simp: bit_and_iff bit_not_iff bit_prio dest: bit_imp_le_length)

lemma enqueue_fields [simp]:
  "priority (tasks (sched_enqueue_task t s) x) = priority (tasks s x)"
  "state (tasks (sched_enqueue_task t s) x) = state (tasks s x)"
  "next_wait (tasks (sched_enqueue_task t s) x) = next_wait (tasks s x)"
  "wake_tick (tasks (sched_enqueue_task t s) x) = wake_tick (tasks s x)"
  "thread_next (tasks (sched_enqueue_task t s) x) = thread_next (tasks s x)"
  "sleep_next (tasks (sched_enqueue_task t s) x) = sleep_next (tasks s x)"
  "proc (tasks (sched_enqueue_task t s) x) = proc (tasks s x)"
  "current_task (sched_enqueue_task t s) = current_task s"
  "sleep_queue (sched_enqueue_task t s) = sleep_queue s"
  "threads (sched_enqueue_task t s) = threads s"
  by (simp_all add: sched_enqueue_task_def Let_def)

lemma dequeue_next_fields [simp]:
  "priority (tasks (dequeue_next t s) x) = priority (tasks s x)"
  "state (tasks (dequeue_next t s) x) = state (tasks s x)"
  "next_wait (tasks (dequeue_next t s) x) = next_wait (tasks s x)"
  "wake_tick (tasks (dequeue_next t s) x) = wake_tick (tasks s x)"
  "thread_next (tasks (dequeue_next t s) x) = thread_next (tasks s x)"
  "sleep_next (tasks (dequeue_next t s) x) = sleep_next (tasks s x)"
  "proc (tasks (dequeue_next t s) x) = proc (tasks s x)"
  "current_task (dequeue_next t s) = current_task s"
  "sleep_queue (dequeue_next t s) = sleep_queue s"
  "threads (dequeue_next t s) = threads s"
  "prev (tasks (dequeue_next t s) x) = prev (tasks s x)"
  "runqueues_tail (dequeue_next t s) = runqueues_tail s"
  "active_priorities (dequeue_next t s) = active_priorities s"
  by (simp_all add: dequeue_next_def)

lemma dequeue_prev_fields [simp]:
  "priority (tasks (dequeue_prev t s) x) = priority (tasks s x)"
  "state (tasks (dequeue_prev t s) x) = state (tasks s x)"
  "next_wait (tasks (dequeue_prev t s) x) = next_wait (tasks s x)"
  "wake_tick (tasks (dequeue_prev t s) x) = wake_tick (tasks s x)"
  "thread_next (tasks (dequeue_prev t s) x) = thread_next (tasks s x)"
  "sleep_next (tasks (dequeue_prev t s) x) = sleep_next (tasks s x)"
  "proc (tasks (dequeue_prev t s) x) = proc (tasks s x)"
  "current_task (dequeue_prev t s) = current_task s"
  "sleep_queue (dequeue_prev t s) = sleep_queue s"
  "threads (dequeue_prev t s) = threads s"
  "nxt (tasks (dequeue_prev t s) x) = nxt (tasks s x)"
  "runqueues (dequeue_prev t s) = runqueues s"
  "active_priorities (dequeue_prev t s) = active_priorities s"
  by (simp_all add: dequeue_prev_def)

lemma dequeue_fields [simp]:
  "priority (tasks (sched_dequeue_task t s) x) = priority (tasks s x)"
  "state (tasks (sched_dequeue_task t s) x) = state (tasks s x)"
  "next_wait (tasks (sched_dequeue_task t s) x) = next_wait (tasks s x)"
  "wake_tick (tasks (sched_dequeue_task t s) x) = wake_tick (tasks s x)"
  "thread_next (tasks (sched_dequeue_task t s) x) = thread_next (tasks s x)"
  "sleep_next (tasks (sched_dequeue_task t s) x) = sleep_next (tasks s x)"
  "proc (tasks (sched_dequeue_task t s) x) = proc (tasks s x)"
  "current_task (sched_dequeue_task t s) = current_task s"
  "sleep_queue (sched_dequeue_task t s) = sleep_queue s"
  "threads (sched_dequeue_task t s) = threads s"
  by (simp_all add: sched_dequeue_task_def Let_def)

lemma enqueue_ok:
  assumes ok: "rq_ok qs s" and p: "p = priority (tasks s t)" "p < COUNT"
    and t: "t \<noteq> 0" "t \<notin> set (qs p)"
  shows "rq_ok (qs(p := qs p @ [t])) (sched_enqueue_task t s)"
proof -
  let ?s = "sched_enqueue_task t s"
  note D = rq_okD [OF ok p(2)]
  let ?tl = "runqueues_tail s p"
  have tl: "?tl = (if qs p = [] then 0 else last (qs p))"
    using dseg_last [OF conjunct1 [OF D(1) [unfolded dll_def]]] .
  have tlt: "?tl \<noteq> t" using tl t D(4) by (metis last_in_set)
  have tl0: "?tl = 0 \<longleftrightarrow> runqueues s p = 0" using tl D(3,4) by (metis last_in_set)
  have nx': "nx ?s = ((nx s)(t := 0))(?tl := if ?tl = 0 then ((nx s)(t := 0)) ?tl else t)"
    using tl0 tlt t(1) by (auto simp: sched_enqueue_task_def Let_def p(1) [symmetric] fun_eq_iff)
  have pv': "pv ?s = (pv s)(t := ?tl)"
    using tl0 tlt t(1) by (auto simp: sched_enqueue_task_def Let_def p(1) [symmetric] fun_eq_iff)
  have hd': "runqueues ?s = (runqueues s)(p := if runqueues s p = 0 then t else runqueues s p)"
    "runqueues_tail ?s = (runqueues_tail s)(p := t)"
    "active_priorities ?s = active_priorities s OR prio_bit p"
    by (auto simp: sched_enqueue_task_def Let_def p(1) [symmetric])
  have "dll (nx ?s) (pv ?s) (runqueues ?s q) ((qs(p := qs p @ [t])) q) (runqueues_tail ?s q)" if q: "q < COUNT" for q
  proof (cases "q = p")
    case True
    then show ?thesis using dll_push_back [OF D(1) t(2,1)] unfolding nx' pv' hd' by simp
  next
    case False
    have "t \<notin> set (qs q)" using rq_okD(2) [OF ok q, of t] False p(1) by auto
    moreover have "?tl \<noteq> 0 \<Longrightarrow> ?tl \<notin> set (qs q)"
      using rq_okD(2) [OF ok q, of ?tl] D(2) [of ?tl] False tl last_in_set [of "qs p"] by (metis (full_types))
    ultimately have "nx ?s x = nx s x \<and> pv ?s x = pv s x" if "x \<in> set (qs q)" for x
      using that rq_okD(4) [OF ok q] fun_cong [OF nx', of x] fun_cong [OF pv', of x] by (auto split: if_splits)
    then have "dll (nx ?s) (pv ?s) (runqueues s q) (qs q) (runqueues_tail s q)"
      using rq_okD(1) [OF ok q] dll_cong [of "qs q" "nx ?s" "nx s" "pv ?s" "pv s"] by simp
    then show ?thesis using False unfolding hd' by simp
  qed
  moreover have "bit (active_priorities ?s) i \<longleftrightarrow> i < COUNT \<and> (qs(p := qs p @ [t])) i \<noteq> []" for i
    using ok p(2) unfolding hd' by (subst bit_or_prio) (auto simp: rq_ok_def)
  moreover have "priority (tasks ?s x) = q" if "q < COUNT" "x \<in> set ((qs(p := qs p @ [t])) q)" for q x
    using that rq_okD(2) [OF ok that(1), of x] p(1) by (auto split: if_splits)
  ultimately show ?thesis by (auto simp: rq_ok_def)
qed

lemma dequeue_ok:
  assumes ok: "rq_ok qs s" and p: "p = priority (tasks s t)" "p < COUNT" and t: "t \<in> set (qs p)"
  shows "rq_ok (qs(p := remove1 t (qs p))) (sched_dequeue_task t s)"
proof -
  let ?s = "sched_dequeue_task t s"
  note D = rq_okD [OF ok p(2)]
  obtain as bs where ab: "qs p = as @ t # bs" "t \<notin> set as" using split_list_first [OF t] by auto
  have dist: "distinct (qs p)" using D(1) by (simp add: dll_def)
  have rem: "remove1 t (qs p) = as @ bs" using ab by (simp add: remove1_append)
  note U = dll_unlink [OF D(1) [unfolded ab(1)]]
  from D(1) ab(1) obtain m where a: "dseg (nx s) (pv s) (runqueues s p) 0 as (pv s t) t"
    and b: "dseg (nx s) (pv s) (nx s t) t bs m 0"
    by (auto simp: dll_def dseg_append)
  have pvt: "pv s t = (if as = [] then 0 else last as)" using dseg_last [OF a] .
  have nxt: "nx s t = (if bs = [] then 0 else hd bs)" using dseg_head [OF b] by (simp split: list.splits)
  have ne: "pv s t \<noteq> t" "nx s t \<noteq> t"
    using pvt nxt dist ab D(4) by (auto split: if_splits)
  have nb: "pv s t \<noteq> 0 \<Longrightarrow> pv s t \<in> set (qs p)" "nx s t \<noteq> 0 \<Longrightarrow> nx s t \<in> set (qs p)"
    using pvt nxt ab(1) by (auto split: if_splits)
  have n1: "nx (dequeue_next t s) = unlink_nx (nx s) (pv s) t"
    by (simp add: dequeue_next_def unlink_nx_def fun_eq_iff)
  have n1t: "nx (dequeue_next t s) t = nx s t" using fun_cong [OF n1, of t] ne(1) by (simp add: unlink_nx_def)
  have p1: "pv (dequeue_prev t (dequeue_next t s)) = unlink_pv (nx s) (pv s) t"
    using n1t by (simp add: dequeue_prev_def unlink_pv_def fun_eq_iff)
  have nx': "nx ?s = (unlink_nx (nx s) (pv s) t)(t := 0)"
    unfolding n1 [symmetric] by (simp add: sched_dequeue_task_def Let_def fun_eq_iff)
  have pv': "pv ?s = (unlink_pv (nx s) (pv s) t)(t := 0)"
    unfolding p1 [symmetric] by (simp add: sched_dequeue_task_def Let_def fun_eq_iff)
  have hd': "runqueues ?s = (runqueues s)(p := if pv s t = 0 then nx s t else runqueues s p)"
  proof -
    have "runqueues ?s = runqueues (dequeue_next t s)" by (simp add: sched_dequeue_task_def Let_def)
    then show ?thesis using U(4) p(1) by (cases "pv s t = 0") (simp_all add: dequeue_next_def)
  qed
  have tl': "runqueues_tail ?s = (runqueues_tail s)(p := if nx s t = 0 then pv s t else runqueues_tail s p)"
  proof -
    have "runqueues_tail ?s = runqueues_tail (dequeue_prev t (dequeue_next t s))"
      by (simp add: sched_dequeue_task_def Let_def)
    then show ?thesis using U(5) p(1) n1t by (cases "nx s t = 0") (simp_all add: dequeue_prev_def)
  qed
  have D': "dll (nx ?s) (pv ?s) (runqueues ?s q) ((qs(p := as @ bs)) q) (runqueues_tail ?s q)" if q: "q < COUNT" for q
  proof (cases "q = p")
    case True
    have "t \<notin> set (as @ bs)" using dist ab(1) by auto
    then have "dll (nx ?s) (pv ?s) h (as @ bs) tl = dll (unlink_nx (nx s) (pv s) t) (unlink_pv (nx s) (pv s) t) h (as @ bs) tl" for h tl
      unfolding nx' pv' by (intro dll_cong) auto
    then show ?thesis using True U(1) unfolding hd' tl' by simp
  next
    case False
    have "set (qs p) \<inter> set (qs q) = {}" using rq_okD(2) [OF ok q] D(2) False by auto
    then have "nx ?s x = nx s x \<and> pv ?s x = pv s x" if "x \<in> set (qs q)" for x
      using that t nb fun_cong [OF nx', of x] fun_cong [OF pv', of x] unfolding unlink_nx_def unlink_pv_def
      by (auto split: if_splits)
    then have "dll (nx ?s) (pv ?s) (runqueues s q) (qs q) (runqueues_tail s q)"
      using rq_okD(1) [OF ok q] dll_cong [of "qs q" "nx ?s" "nx s" "pv ?s" "pv s"] by simp
    then show ?thesis using False unfolding hd' tl' by simp
  qed
  have e: "runqueues ?s p = 0 \<longleftrightarrow> as @ bs = []" using dll_empty_iff D' [OF p(2)] by fastforce
  have ap: "active_priorities ?s = (if runqueues ?s p = 0 then active_priorities s AND NOT (prio_bit p) else active_priorities s)"
    by (simp add: sched_dequeue_task_def Let_def p(1) [symmetric])
  have "bit (active_priorities ?s) i \<longleftrightarrow> i < COUNT \<and> (qs(p := as @ bs)) i \<noteq> []" for i
    using ok p(2) e ab(1) bit_and_not_prio [of p "active_priorities s" i] unfolding ap by (auto simp: rq_ok_def)
  moreover have "priority (tasks ?s x) = q" if "q < COUNT" "x \<in> set ((qs(p := as @ bs)) q)" for q x
    using that rq_okD(2) [OF ok that(1), of x] ab(1) by (auto split: if_splits)
  ultimately show ?thesis using D' unfolding rem by (auto simp: rq_ok_def)
qed


subsection \<open>The contract of the run queues\<close>

text \<open>
  What the users of the run queues rely on: a relation to lists of tasks, one per priority, and the two
  operations on them. Moving a task to the back of its queue, the round robin step, follows from it.
\<close>

locale run_queues =
  fixes rel :: "(nat \<Rightarrow> nat list) \<Rightarrow> 's \<Rightarrow> bool"
    and prio :: "'s \<Rightarrow> nat \<Rightarrow> nat"
    and enq :: "nat \<Rightarrow> 's \<Rightarrow> 's"
    and deq :: "nat \<Rightarrow> 's \<Rightarrow> 's"
    and levels :: nat
  assumes enq_rel: "rel qs s \<Longrightarrow> prio s t < levels \<Longrightarrow> t \<noteq> 0 \<Longrightarrow> t \<notin> set (qs (prio s t)) \<Longrightarrow>
      rel (qs(prio s t := qs (prio s t) @ [t])) (enq t s)"
    and deq_rel: "rel qs s \<Longrightarrow> prio s t < levels \<Longrightarrow> t \<in> set (qs (prio s t)) \<Longrightarrow>
      rel (qs(prio s t := remove1 t (qs (prio s t)))) (deq t s)"
    and prio_deq: "prio (deq t s) = prio s"
    and rel_prio: "rel qs s \<Longrightarrow> p < levels \<Longrightarrow> t \<in> set (qs p) \<Longrightarrow> prio s t = p"
    and rel_distinct: "rel qs s \<Longrightarrow> p < levels \<Longrightarrow> distinct (qs p) \<and> 0 \<notin> set (qs p)"
begin

lemma requeue_rel:
  assumes r: "rel qs s" and p: "p < levels" and q: "qs p = t # ts"
  shows "rel (qs(p := ts @ [t])) (enq t (deq t s))"
proof -
  have pt: "prio s t = p" using rel_prio [OF r p] q by simp
  have d: "rel (qs(p := ts)) (deq t s)" using deq_rel [OF r] pt p q by fastforce
  have "t \<noteq> 0" "t \<notin> set ts" using rel_distinct [OF r p] q by auto
  then show ?thesis using enq_rel [OF d, of t] pt p by (simp add: prio_deq)
qed

lemma block_wake_rel:
  assumes r: "rel qs s" and p: "p < levels" and q: "qs p = t # ts"
  shows "rel (qs(p := ts)) (deq t s) \<and> rel (qs(p := ts @ [t])) (enq t (deq t s))"
proof -
  have "prio s t = p" using rel_prio [OF r p] q by simp
  then show ?thesis using deq_rel [OF r, of t] requeue_rel [OF assms] p q by simp
qed

end

interpretation rq: run_queues rq_ok "\<lambda>s t. priority (tasks s t)" sched_enqueue_task sched_dequeue_task COUNT
proof unfold_locales
  show "distinct (qs p) \<and> 0 \<notin> set (qs p)" if "rq_ok qs s" "p < COUNT" for qs s p
    using rq_okD(1,4) [OF that] by (simp add: dll_def)
qed (auto intro: enqueue_ok dequeue_ok rq_okD(2))

lemma rotate_ok:
  assumes ok: "rq_ok qs s" and p: "p < COUNT"
  shows "rq_ok (qs(p := rotate1 (qs p))) (rotate_queue p s)"
proof (cases "qs p")
  case Nil
  then show ?thesis using ok rq_okD(3) [OF assms] by (simp add: rotate_queue_def fun_upd_idem)
next
  case (Cons t ts)
  have h: "runqueues s p = t" "t \<noteq> 0" using rq_okD(1,4) [OF assms] Cons dll_head by auto
  have "nx s t = 0 \<longleftrightarrow> ts = []"
    using dll_unlink(3) [of "nx s" "pv s" "runqueues s p" "[]" t ts] rq_okD(1) [OF assms] Cons by simp
  then show ?thesis using rq.requeue_rel [OF ok p Cons] ok h Cons
    by (cases "ts = []") (simp_all add: rotate_queue_def Let_def fun_upd_idem)
qed

lemma rotate_fields [simp]:
  "priority (tasks (rotate_queue p s) x) = priority (tasks s x)"
  "state (tasks (rotate_queue p s) x) = state (tasks s x)"
  "next_wait (tasks (rotate_queue p s) x) = next_wait (tasks s x)"
  "wake_tick (tasks (rotate_queue p s) x) = wake_tick (tasks s x)"
  "current_task (rotate_queue p s) = current_task s"
  "sleep_queue (rotate_queue p s) = sleep_queue s"
  by (simp_all add: rotate_queue_def Let_def)

subsection \<open>The choice of the next task\<close>

lemma highest_bit_eq:
  assumes "bit x p" "\<And>q. p < q \<Longrightarrow> \<not> bit x q" "p < 32"
  shows "highest_bit x = p"
proof -
  have "[0..<32] = [0..<p] @ p # [Suc p..<32]" using upt_add_eq_append [of 0 p "32 - p"] upt_conv_Cons assms(3) by simp
  moreover have "filter (bit x) (rev [Suc p..<32]) = []" using assms(2) by (simp add: filter_empty_conv)
  ultimately have "filter (bit x) (rev [0..<32]) = p # filter (bit x) (rev [0..<p])"
    using assms(1) by simp
  then show ?thesis by (simp add: highest_bit_def)
qed

text \<open>\<open>highest qs p\<close>: priority \<open>p\<close> is the highest one with a task to run.\<close>

definition highest :: "(nat \<Rightarrow> nat list) \<Rightarrow> nat \<Rightarrow> bool" where
  "highest qs p \<longleftrightarrow> p < COUNT \<and> qs p \<noteq> [] \<and> (\<forall>q < COUNT. p < q \<longrightarrow> qs q = [])"

definition pick :: "sched \<Rightarrow> nat" where
  "pick s = (let n = (if active_priorities s = 0 then runqueues s IDLE
                      else let p = highest_bit (active_priorities s)
                           in runqueues s (if p \<ge> COUNT then COUNT - 1 else p))
             in if n = 0 then runqueues s IDLE else n)"

lemma pick_highest:
  assumes ok: "rq_ok qs s" and h: "highest qs p"
  shows "pick s = hd (qs p)" "pick s \<noteq> 0"
proof -
  have b: "bit (active_priorities s) i \<longleftrightarrow> i < COUNT \<and> qs i \<noteq> []" for i using ok by (simp add: rq_ok_def)
  have hb: "highest_bit (active_priorities s) = p"
    by (rule highest_bit_eq) (use h b in \<open>auto simp: highest_def\<close>)
  have "bit (active_priorities s) p" using h b by (simp add: highest_def)
  then have "active_priorities s \<noteq> 0" by auto
  moreover have p: "p < COUNT" "qs p \<noteq> []" using h by (auto simp: highest_def)
  moreover have "runqueues s p = hd (qs p)" "runqueues s p \<noteq> 0"
    using rq_okD(1,3) [OF ok p(1)] p(2) dll_head by (metis list.collapse)+
  ultimately show "pick s = hd (qs p)" "pick s \<noteq> 0" using hb by (simp_all add: pick_def)
qed

lemma rq_ok_cong:
  assumes "\<And>x. nxt (tasks s' x) = nxt (tasks s x) \<and> prev (tasks s' x) = prev (tasks s x) \<and>
      priority (tasks s' x) = priority (tasks s x)"
    and "runqueues s' = runqueues s" "runqueues_tail s' = runqueues_tail s"
    "active_priorities s' = active_priorities s"
  shows "rq_ok qs s' = rq_ok qs s"
  unfolding rq_ok_def by (simp add: assms)

lemma rq_ok_state:
  "rq_ok qs (s\<lparr>current_task := c\<rparr>) = rq_ok qs s"
  "rq_ok qs (upd_task t (\<lambda>k. k\<lparr>state := st\<rparr>) s) = rq_ok qs s"
  "rq_ok qs (upd_task t (\<lambda>k. k\<lparr>state := st, next_wait := w\<rparr>) s) = rq_ok qs s"
  "rq_ok qs (upd_task t (\<lambda>k. k\<lparr>next_wait := w\<rparr>) s) = rq_ok qs s"
  "rq_ok qs (upd_task t (\<lambda>k. k\<lparr>next_wait := w, state := st\<rparr>) s) = rq_ok qs s"
  "rq_ok qs (s\<lparr>sleep_queue := c\<rparr>) = rq_ok qs s"
  by (rule rq_ok_cong; simp)+

lemma schedule_eq:
  "schedule s =
     (let s' = (if current_task s \<noteq> 0 \<and> state (tasks s (current_task s)) = TASK_RUNNING
                then rotate_queue (priority (tasks s (current_task s))) s else s);
          n = pick s'
      in if n \<noteq> current_task s
         then (if state (tasks s n) = TASK_READY then upd_task n (\<lambda>k. k\<lparr>state := TASK_RUNNING\<rparr>) (s'\<lparr>current_task := n\<rparr>)
               else s'\<lparr>current_task := n\<rparr>)
         else s')"
  by (simp add: schedule_def pick_def Let_def)


text \<open>The case in which the current task does not run any more: the head of the highest queue becomes current.\<close>

lemma schedule_switch:
  assumes ok: "rq_ok qs s" and h: "highest qs p"
    and c: "current_task s = 0 \<or> state (tasks s (current_task s)) \<noteq> TASK_RUNNING" "current_task s \<noteq> hd (qs p)"
  shows "rq_ok qs (schedule s)" "current_task (schedule s) = hd (qs p)"
    "state (tasks (schedule s) t) =
       (if t = hd (qs p) \<and> state (tasks s t) = TASK_READY then TASK_RUNNING else state (tasks s t))"
    "next_wait (tasks (schedule s) t) = next_wait (tasks s t)"
    "wake_tick (tasks (schedule s) t) = wake_tick (tasks s t)"
    "priority (tasks (schedule s) t) = priority (tasks s t)"
    "sleep_queue (schedule s) = sleep_queue s"
proof -
  let ?n = "hd (qs p)"
  have e: "schedule s = (if state (tasks s ?n) = TASK_READY
      then upd_task ?n (\<lambda>k. k\<lparr>state := TASK_RUNNING\<rparr>) (s\<lparr>current_task := ?n\<rparr>) else s\<lparr>current_task := ?n\<rparr>)"
    using c pick_highest(1) [OF ok h] by (auto simp: schedule_eq Let_def)
  show "rq_ok qs (schedule s)" using ok rq_ok_cong [of "schedule s" s qs] unfolding e by simp
  show "current_task (schedule s) = ?n"
    "state (tasks (schedule s) t) = (if t = ?n \<and> state (tasks s t) = TASK_READY then TASK_RUNNING else state (tasks s t))"
    "next_wait (tasks (schedule s) t) = next_wait (tasks s t)"
    "wake_tick (tasks (schedule s) t) = wake_tick (tasks s t)"
    "priority (tasks (schedule s) t) = priority (tasks s t)"
    "sleep_queue (schedule s) = sleep_queue s"
    unfolding e by auto
qed

subsection \<open>Round robin\<close>

text \<open>
  \<open>rr qs p s\<close>: the current task heads the queue of the highest priority \<open>p\<close> that has tasks,
  and all tasks of that queue can run.
\<close>

definition rr :: "(nat \<Rightarrow> nat list) \<Rightarrow> nat \<Rightarrow> sched \<Rightarrow> bool" where
  "rr qs p s \<longleftrightarrow> rq_ok qs s \<and> highest qs p \<and> current_task s = hd (qs p) \<and>
     state (tasks s (current_task s)) = TASK_RUNNING \<and>
     (\<forall>t \<in> set (qs p). state (tasks s t) = TASK_READY \<or> state (tasks s t) = TASK_RUNNING)"

lemma schedule_rr:
  assumes "rr qs p s"
  shows "rr (qs(p := rotate1 (qs p))) p (schedule s)"
proof -
  let ?q = "qs(p := rotate1 (qs p))"
  let ?s = "rotate_queue p s"
  from assms have ok: "rq_ok qs s" and h: "highest qs p" and c: "current_task s = hd (qs p)"
    and st: "state (tasks s (current_task s)) = TASK_RUNNING"
    and all: "\<And>t. t \<in> set (qs p) \<Longrightarrow> state (tasks s t) = TASK_READY \<or> state (tasks s t) = TASK_RUNNING"
    by (auto simp: rr_def)
  have p: "p < COUNT" "qs p \<noteq> []" using h by (auto simp: highest_def)
  have cp: "priority (tasks s (current_task s)) = p" "current_task s \<noteq> 0"
    using rq_okD(2,4) [OF ok p(1)] c p(2) by (metis hd_in_set)+
  have ok': "rq_ok ?q ?s" using rotate_ok [OF ok p(1)] .
  have h': "highest ?q p" using h by (auto simp: highest_def)
  note n = pick_highest [OF ok' h']
  have "hd (rotate1 (qs p)) \<in> set (qs p)" using p(2) by (metis hd_in_set rotate1_is_Nil_conv set_rotate1)
  then have r: "state (tasks s (pick ?s)) = TASK_READY \<or> state (tasks s (pick ?s)) = TASK_RUNNING" using all n(1) by simp
  have e: "schedule s = (if pick ?s \<noteq> current_task s
      then (if state (tasks s (pick ?s)) = TASK_READY
            then upd_task (pick ?s) (\<lambda>k. k\<lparr>state := TASK_RUNNING\<rparr>) (?s\<lparr>current_task := pick ?s\<rparr>)
            else ?s\<lparr>current_task := pick ?s\<rparr>)
      else ?s)"
    by (simp add: schedule_eq cp st Let_def)
  have "rq_ok ?q (schedule s)" unfolding e using ok' by (simp only: rq_ok_state if_bool_eq_disj split: if_split) simp
  moreover have "current_task (schedule s) = hd (?q p)" unfolding e using n(1) by simp
  moreover have "state (tasks (schedule s) (current_task (schedule s))) = TASK_RUNNING" unfolding e using r st by auto
  moreover have "state (tasks (schedule s) t) = TASK_READY \<or> state (tasks (schedule s) t) = TASK_RUNNING"
    if "t \<in> set (qs p)" for t unfolding e using all [OF that] by auto
  ultimately show ?thesis using h' by (simp add: rr_def)
qed

lemma funpow_schedule_rr:
  "rr qs p s \<Longrightarrow> rr (qs(p := rotate k (qs p))) p ((schedule ^^ k) s)"
proof (induction k)
  case (Suc k)
  from schedule_rr [OF Suc.IH [OF Suc.prems]] show ?case
    by (simp only: funpow.simps o_apply rotate_Suc fun_upd_upd fun_upd_same)
qed simp

text \<open>
  C16. Round robin never starves a task of the highest priority: when the current task heads the highest
  non-empty queue, whose tasks can all run, the \<open>k\<close>-th call of \<open>schedule\<close> gives the processor to the
  task at position \<open>k\<close> of the queue, modulo its length, so every task of the queue runs once in every round.
\<close>

theorem schedule_round_robin:
  assumes "rr qs p s"
  shows "current_task ((schedule ^^ k) s) = qs p ! (k mod length (qs p))"
proof -
  have r: "rr (qs(p := rotate k (qs p))) p ((schedule ^^ k) s)" using funpow_schedule_rr [OF assms] .
  have "qs p \<noteq> []" using assms by (simp add: rr_def highest_def)
  with r show ?thesis by (simp add: rr_def hd_rotate_conv_nth)
qed

definition task0 :: "nat \<Rightarrow> task" where
  "task0 p = \<lparr>state = TASK_READY, priority = p, nxt = 0, prev = 0, next_wait = 0, thread_next = 0,
     sleep_next = 0, wake_tick = 0, flags = 0, proc = 0\<rparr>"

definition sched0 :: sched where
  "sched0 = \<lparr>tasks = (\<lambda>_. task0 2), runqueues = (\<lambda>_. 0), runqueues_tail = (\<lambda>_. 0), active_priorities = 0,
     sleep_queue = 0, current_task = 0, threads = (\<lambda>_. 0), jiffies = 0\<rparr>"

lemma sched0_ok: "rq_ok (\<lambda>_. []) sched0"
  by (simp add: rq_ok_def sched0_def dll_def)

text \<open>Three tasks of the same priority, the first of which runs.\<close>

definition sched3 :: sched where
  "sched3 = schedule (task_create 9 True 2 0 (task_create 8 True 2 0 (task_create 7 True 2 0 sched0)))"

lemma task_create_ok:
  assumes ok: "rq_ok qs s" and t: "t \<noteq> 0" "\<And>q. q < COUNT \<Longrightarrow> t \<notin> set (qs q)"
    and p: "p = (if prio \<ge> COUNT then NORMAL else prio)"
  shows "rq_ok (qs(p := qs p @ [t])) (task_create t True prio pr s)"
proof -
  define s1 where "s1 = upd_task t (\<lambda>_. \<lparr>state = TASK_READY, priority = p, nxt = 0, prev = 0, next_wait = 0,
    thread_next = if pr \<noteq> 0 then threads s pr else 0, sleep_next = 0, wake_tick = 0, flags = 0, proc = pr\<rparr>) s"
  define s2 where "s2 = (if pr \<noteq> 0 then s1\<lparr>threads := (threads s)(pr := t)\<rparr> else s1)"
  have "dll (nx s1) (pv s1) (runqueues s q) (qs q) (runqueues_tail s q)" if q: "q < COUNT" for q
  proof -
    have "nx s1 x = nx s x \<and> pv s1 x = pv s x" if "x \<in> set (qs q)" for x
      using that t(2) [OF q] by (auto simp: s1_def)
    then show ?thesis using rq_okD(1) [OF ok q] dll_cong [of "qs q" "nx s1" "nx s" "pv s1" "pv s"] by blast
  qed
  then have "rq_ok qs s1" using ok t(2) by (auto simp: rq_ok_def s1_def)
  then have "rq_ok qs s2" using rq_ok_cong [of s2 s1 qs] by (simp add: s2_def)
  then have "rq_ok (qs(p := qs p @ [t])) (sched_enqueue_task t s2)"
    by (rule enqueue_ok) (use t p in \<open>auto simp: s2_def s1_def\<close>)
  moreover have "task_create t True prio pr s = sched_enqueue_task t s2"
    using t(1) p by (auto simp: task_create_def s2_def s1_def Let_def)
  ultimately show ?thesis by simp
qed

lemma task_create_fields:
  "current_task (task_create t b prio p s) = current_task s"
  "state (tasks (task_create t True prio p s) x) = (if x = t \<and> t \<noteq> 0 then TASK_READY else state (tasks s x))"
  by (simp_all add: task_create_def Let_def)

lemma sched3_rr: "rr ((\<lambda>_. [])(2 := [7, 8, 9])) 2 sched3"
proof -
  let ?q = "(\<lambda>_. [])(2 := [7, 8, 9])"
  let ?s = "task_create 9 True 2 0 (task_create 8 True 2 0 (task_create 7 True 2 0 sched0))"
  have "rq_ok ((\<lambda>_. [])(2 := [7])) (task_create 7 True 2 0 sched0)"
    using task_create_ok [OF sched0_ok, of 7 2 2 0] by simp
  from task_create_ok [OF this, of 8 2 2 0]
  have "rq_ok ((\<lambda>_. [])(2 := [7, 8])) (task_create 8 True 2 0 (task_create 7 True 2 0 sched0))" by simp
  from task_create_ok [OF this, of 9 2 2 0]
  have ok: "rq_ok ?q ?s" by simp
  have h: "highest ?q 2" by (simp add: highest_def)
  have c: "current_task ?s = 0" by (simp add: task_create_fields sched0_def)
  have st: "state (tasks ?s x) = TASK_READY" for x by (simp add: task_create_fields sched0_def task0_def)
  note S = schedule_switch [OF ok h]
  show ?thesis unfolding rr_def sched3_def using S h c st by auto
qed

theorem schedule_round_robin_witness:
  "current_task ((schedule ^^ 5) sched3) = 9"
  using schedule_round_robin [OF sched3_rr, of 5] by simp


subsection \<open>Wait queues\<close>

text \<open>A wait queue is a list linked through \<open>next_wait\<close>.\<close>

fun wlist :: "link \<Rightarrow> nat \<Rightarrow> nat list \<Rightarrow> bool" where
  "wlist nw h [] \<longleftrightarrow> h = 0"
| "wlist nw h (x # xs) \<longleftrightarrow> h = x \<and> x \<noteq> 0 \<and> wlist nw (nw x) xs"

lemma wlist_cong: "(\<And>x. x \<in> set xs \<Longrightarrow> nw' x = nw x) \<Longrightarrow> wlist nw' h xs = wlist nw h xs"
  by (induction xs arbitrary: h) auto

abbreviation nw :: "sched \<Rightarrow> link" where "nw s \<equiv> \<lambda>t. next_wait (tasks s t)"

text \<open>
  The abstract scheduler: the run queues \<open>qs\<close> and the tasks \<open>ws\<close> blocked on one wait queue. The
  relation to the tasks' links says that no blocked task is on a run queue.
\<close>

definition wq_rel :: "(nat \<Rightarrow> nat list) \<Rightarrow> nat list \<Rightarrow> nat \<Rightarrow> sched \<Rightarrow> bool" where
  "wq_rel qs ws queue s \<longleftrightarrow> rq_ok qs s \<and> wlist (nw s) queue ws \<and> distinct ws \<and>
     (\<forall>t \<in> set ws. state (tasks s t) = TASK_BLOCKED \<and> priority (tasks s t) < COUNT \<and> t \<notin> set (qs (priority (tasks s t))))"

lemma wq_relD:
  assumes "wq_rel qs ws queue s"
  shows "rq_ok qs s" "wlist (nw s) queue ws" "distinct ws"
    "t \<in> set ws \<Longrightarrow> state (tasks s t) = TASK_BLOCKED"
    "t \<in> set ws \<Longrightarrow> q < COUNT \<Longrightarrow> t \<notin> set (qs q)"
    "t \<in> set ws \<Longrightarrow> priority (tasks s t) < COUNT"
proof -
  show "t \<in> set ws \<Longrightarrow> q < COUNT \<Longrightarrow> t \<notin> set (qs q)"
    using assms rq_okD(2) [of qs s q t] by (auto simp: wq_rel_def)
qed (use assms in \<open>auto simp: wq_rel_def\<close>)

lemma sleep_on_rel:
  assumes R: "wq_rel qs ws queue s" and c: "c = current_task s" and p: "p < COUNT" "c \<in> set (qs p)"
    and h: "highest (qs(p := remove1 c (qs p))) n"
  shows "fst (sleep_on queue s) = c"
    "wq_rel (qs(p := remove1 c (qs p))) (c # ws) c (snd (sleep_on queue s))"
    "current_task (snd (sleep_on queue s)) = hd ((qs(p := remove1 c (qs p))) n)"
proof -
  let ?q = "qs(p := remove1 c (qs p))"
  define s1 where "s1 = upd_task c (\<lambda>k. k\<lparr>state := TASK_BLOCKED, next_wait := queue\<rparr>) s"
  define s2 where "s2 = sched_dequeue_task c s1"
  have e: "sleep_on queue s = (c, schedule s2)" by (simp add: sleep_on_def s1_def s2_def c Let_def)
  then show "fst (sleep_on queue s) = c" by simp
  note D = wq_relD [OF R]
  have c0: "c \<noteq> 0" using rq_okD(4) [OF D(1) p(1)] p(2) by metis
  have cp: "priority (tasks s c) = p" "c \<noteq> 0" "distinct (qs p)"
    using rq_okD(1,2) [OF D(1) p(1)] p(2) c0 by (auto simp: dll_def)
  have "rq_ok qs s1" unfolding s1_def using D(1) by (simp only: rq_ok_state)
  moreover have "priority (tasks s1 c) = p" using cp(1) by (simp add: s1_def)
  ultimately have ok2: "rq_ok ?q s2" unfolding s2_def using dequeue_ok [of qs s1 p c] p by simp
  have f2: "state (tasks s2 t) = (if t = c then TASK_BLOCKED else state (tasks s t))"
    "next_wait (tasks s2 t) = (if t = c then queue else next_wait (tasks s t))"
    "priority (tasks s2 t) = priority (tasks s t)" "current_task s2 = c" for t
    by (simp_all add: s2_def s1_def c)
  have n: "n < COUNT" "?q n \<noteq> []" using h by (auto simp: highest_def)
  have nin: "hd (?q n) \<in> set (?q n)" using n(2) by simp
  have cq: "c \<notin> set (?q q)" if "q < COUNT" for q
    using cp rq_okD(2) [OF D(1) that, of c] by (auto split: if_splits)
  have wsq: "t \<notin> set (?q q)" if "t \<in> set ws" "q < COUNT" for t q
    using D(5) [OF that] notin_set_remove1 by (auto split: if_splits)
  note S = schedule_switch [OF ok2 h]
  have cn: "current_task s2 = 0 \<or> state (tasks s2 (current_task s2)) \<noteq> TASK_RUNNING" "current_task s2 \<noteq> hd (?q n)"
    using f2 cq [OF n(1)] nin by auto
  show "current_task (snd (sleep_on queue s)) = hd (?q n)" unfolding e using S(2) [OF cn] by simp
  have cw: "c \<notin> set ws" using D(5) p by blast
  have "wlist (nw (schedule s2)) queue ws = wlist (nw s) queue ws"
    by (rule wlist_cong) (use S(4) [OF cn] f2(2) cw in auto)
  then have "wlist (nw (schedule s2)) c (c # ws)" using D(2) cp(2) S(4) [OF cn] f2(2) by simp
  moreover have "state (tasks (schedule s2) t) = TASK_BLOCKED \<and> priority (tasks (schedule s2) t) < COUNT \<and>
      t \<notin> set (?q (priority (tasks (schedule s2) t)))" if "t \<in> set (c # ws)" for t
  proof -
    have pr: "priority (tasks (schedule s2) t) = priority (tasks s t)" using S(6) [OF cn] f2(3) by simp
    have st: "state (tasks (schedule s2) t) = TASK_BLOCKED" using that S(3) [OF cn] f2(1) D(4) by auto
    have lt: "priority (tasks s t) < COUNT" using that D(6) cp(1) p(1) by auto
    have "t \<notin> set (?q (priority (tasks s t)))" using that cq [OF lt] wsq [OF _ lt] by auto
    then show ?thesis unfolding pr using st lt by blast
  qed
  ultimately show "wq_rel ?q (c # ws) c (snd (sleep_on queue s))"
    unfolding e wq_rel_def using S(1) [OF cn] cw D(3) by simp
qed

lemma wake_up_rel:
  assumes R: "wq_rel qs (t # ws) queue s" and p: "p = priority (tasks s t)"
  shows "wq_rel (qs(p := qs p @ [t])) ws (fst (wake_up queue s)) (snd (wake_up queue s))"
    "state (tasks (snd (wake_up queue s)) t) = TASK_READY"
proof -
  note D = wq_relD [OF R]
  have q: "queue = t" "t \<noteq> 0" using D(2) by auto
  define s1 where "s1 = upd_task t (\<lambda>k. k\<lparr>next_wait := 0, state := TASK_READY\<rparr>) s"
  have e: "wake_up queue s = (next_wait (tasks s t), sched_enqueue_task t s1)"
    using q by (simp add: wake_up_def s1_def Let_def)
  have "rq_ok qs s1" unfolding s1_def using D(1) by (simp only: rq_ok_state)
  moreover have "priority (tasks s1 t) = p" using p by (simp add: s1_def)
  moreover have P: "p < COUNT" "t \<notin> set (qs p)" using D(5,6) p by auto
  ultimately have "rq_ok (qs(p := qs p @ [t])) (sched_enqueue_task t s1)" using enqueue_ok [of qs s1 p t] q(2) by simp
  moreover have "wlist (nw (sched_enqueue_task t s1)) (next_wait (tasks s t)) ws"
    using D(2,3) by (subst wlist_cong [of ws _ "nw s"]) (auto simp: s1_def)
  moreover have "state (tasks (sched_enqueue_task t s1) x) = TASK_BLOCKED \<and> priority (tasks (sched_enqueue_task t s1) x) < COUNT \<and>
      x \<notin> set ((qs(p := qs p @ [t])) (priority (tasks (sched_enqueue_task t s1) x)))" if "x \<in> set ws" for x
    using that D(3,4,5,6) by (auto simp: s1_def)
  ultimately show "wq_rel (qs(p := qs p @ [t])) ws (fst (wake_up queue s)) (snd (wake_up queue s))"
    unfolding e wq_rel_def using D(3) by simp
  show "state (tasks (snd (wake_up queue s)) t) = TASK_READY" unfolding e by (simp add: s1_def)
qed

text \<open>
  C17. Blocking and waking refine list operations: \<open>sleep_on\<close> takes the current task off its run queue,
  puts it in front of the tasks waiting and gives the processor to the head of the highest queue that
  is left; a following \<open>wake_up\<close> makes that task ready again, at the back of its run queue, and leaves
  the tasks that waited before; \<open>wake_up\<close> on an empty queue changes nothing.
\<close>

theorem sleep_on_wake_up_refines:
  assumes "wq_rel qs ws queue s" "c = current_task s" "p < COUNT" "c \<in> set (qs p)"
    "highest (qs(p := remove1 c (qs p))) n"
  shows "let (queue', s') = sleep_on queue s; (queue'', s'') = wake_up queue' s' in
     wq_rel (qs(p := remove1 c (qs p))) (c # ws) queue' s' \<and>
     state (tasks s' c) = TASK_BLOCKED \<and>
     current_task s' = hd ((qs(p := remove1 c (qs p))) n) \<and>
     wq_rel (qs(p := remove1 c (qs p) @ [c])) ws queue'' s'' \<and>
     state (tasks s'' c) = TASK_READY \<and> wake_up 0 s = (0, s)"
proof -
  note S = sleep_on_rel [OF assms]
  have "priority (tasks s c) = p" using rq_okD(2) wq_relD(1) assms(1,3,4) by blast
  then have P: "priority (tasks (snd (sleep_on queue s)) c) = p"
    using schedule_switch(6) S by (simp add: sleep_on_def Let_def schedule_eq)
  obtain s' where s': "sleep_on queue s = (c, s')" using S(1) by (metis prod.collapse)
  obtain q'' s'' where w: "wake_up c s' = (q'', s'')" by fastforce
  have R: "wq_rel (qs(p := remove1 c (qs p))) (c # ws) c s'" using S(2) s' by simp
  note W = wake_up_rel [OF R refl]
  have z: "wake_up 0 s = (0, s)" by (simp add: wake_up_def)
  show ?thesis using S(3) R W P wq_relD(4) [OF R, of c] unfolding s' w by (simp add: s' w z)
qed

theorem sleep_on_wake_up_refines_witness:
  "let (queue', s') = sleep_on 0 sched3; (queue'', s'') = wake_up queue' s' in
     current_task s' = 8 \<and> wq_rel ((\<lambda>_. [])(2 := [8, 9, 7])) [] queue'' s''"
proof -
  have r: "rr ((\<lambda>_. [])(2 := [7, 8, 9])) 2 sched3" by (rule sched3_rr)
  then have "wq_rel ((\<lambda>_. [])(2 := [7, 8, 9])) [] 0 sched3" "7 = current_task sched3"
    by (simp_all add: wq_rel_def rr_def)
  from sleep_on_wake_up_refines [OF this, where p = 2 and n = 2] show ?thesis
    by (simp add: highest_def Let_def case_prod_beta)
qed

subsection \<open>Sleeping with a timeout\<close>

text \<open>The tasks that the timer's walk visits are those linked through \<open>next_wait\<close>.\<close>

lemma check_sleeping_end: "check_sleeping now pr 0 s = Some s"
  by (subst check_sleeping.simps) simp

lemma schedule_fields:
  "next_wait (tasks (schedule s) x) = next_wait (tasks s x)"
  "sleep_queue (schedule s) = sleep_queue s"
  "priority (tasks (schedule s) x) = priority (tasks s x)"
  "state (tasks s x) \<noteq> TASK_READY \<Longrightarrow> state (tasks (schedule s) x) = state (tasks s x)"
proof -
  define r where "r = (if current_task s \<noteq> 0 \<and> state (tasks s (current_task s)) = TASK_RUNNING
    then rotate_queue (priority (tasks s (current_task s))) s else s)"
  have f: "next_wait (tasks r x) = next_wait (tasks s x)" "sleep_queue r = sleep_queue s"
    "priority (tasks r x) = priority (tasks s x)" "state (tasks r x) = state (tasks s x)" for x
    by (simp_all add: r_def)
  have e: "schedule s = (if pick r \<noteq> current_task s
      then (if state (tasks s (pick r)) = TASK_READY
            then upd_task (pick r) (\<lambda>k. k\<lparr>state := TASK_RUNNING\<rparr>) (r\<lparr>current_task := pick r\<rparr>)
            else r\<lparr>current_task := pick r\<rparr>)
      else r)"
    unfolding schedule_eq r_def [symmetric] by (simp add: Let_def)
  show "next_wait (tasks (schedule s) x) = next_wait (tasks s x)" "sleep_queue (schedule s) = sleep_queue s"
    "priority (tasks (schedule s) x) = priority (tasks s x)"
    "state (tasks s x) \<noteq> TASK_READY \<Longrightarrow> state (tasks (schedule s) x) = state (tasks s x)"
    unfolding e using f by (auto split: if_splits)
qed

lemma task_sleep_ticks_rel:
  assumes ok: "rq_ok qs s" and c: "c = current_task s" and p: "p < COUNT" "c \<in> set (qs p)"
    and h: "highest (qs(p := remove1 c (qs p))) n"
  shows "rq_ok (qs(p := remove1 c (qs p))) (task_sleep_ticks ticks s)"
    "current_task (task_sleep_ticks ticks s) = hd ((qs(p := remove1 c (qs p))) n)"
    "state (tasks (task_sleep_ticks ticks s) c) = TASK_SLEEPING"
proof -
  let ?q = "qs(p := remove1 c (qs p))"
  define s1 where "s1 = upd_task c (\<lambda>k. k\<lparr>wake_tick := jiffies s + ticks, state := TASK_SLEEPING\<rparr>) s"
  define s2 where "s2 = sched_dequeue_task c s1"
  define s3 where "s3 = (upd_task c (\<lambda>k. k\<lparr>next_wait := sleep_queue s\<rparr>) s2)\<lparr>sleep_queue := c\<rparr>"
  have e: "task_sleep_ticks ticks s = schedule s3" by (simp add: task_sleep_ticks_def s1_def s2_def s3_def c Let_def)
  have pc: "priority (tasks s c) = p" using rq_okD(2) [OF ok p(1)] p(2) by simp
  have "rq_ok qs s1" using ok rq_ok_cong [of s1 s qs] by (simp add: s1_def)
  then have "rq_ok ?q s2" unfolding s2_def using dequeue_ok [of qs s1 p c] p pc by (simp add: s1_def)
  then have ok3: "rq_ok ?q s3" using rq_ok_cong [of s3 s2 ?q] by (simp add: s3_def)
  have f3: "state (tasks s3 c) = TASK_SLEEPING" "current_task s3 = c" by (simp_all add: s3_def s2_def s1_def c)
  have "c \<notin> set (?q n)" using rq_okD(1) [OF ok p(1)] rq_okD(2) [OF ok, of n c] pc h by (auto simp: highest_def dll_def)
  moreover have "hd (?q n) \<in> set (?q n)" using h by (simp add: highest_def)
  ultimately have n: "current_task s3 \<noteq> hd (?q n)" using f3(2) by metis
  note S = schedule_switch [OF ok3 h _ n]
  have nr: "current_task s3 = 0 \<or> state (tasks s3 (current_task s3)) \<noteq> TASK_RUNNING" using f3 by simp
  show "rq_ok ?q (task_sleep_ticks ticks s)" unfolding e by (rule S(1) [OF nr])
  show "current_task (task_sleep_ticks ticks s) = hd (?q n)" unfolding e by (rule S(2) [OF nr])
  show "state (tasks (task_sleep_ticks ticks s) c) = TASK_SLEEPING" unfolding e using S(3) [OF nr, of c] f3(1) by simp
qed

text \<open>A sleeping task that the walk cannot reach: the sleep queue is empty or ends with its first task.\<close>

definition unreachable_sleeper :: "nat \<Rightarrow> nat \<Rightarrow> sched \<Rightarrow> bool" where
  "unreachable_sleeper c t s \<longleftrightarrow> t \<noteq> c \<and> state (tasks s t) = TASK_SLEEPING \<and> next_wait (tasks s c) = 0 \<and>
     (sleep_queue s = 0 \<or> sleep_queue s = c)"

lemma unreachable_stays:
  assumes "unreachable_sleeper c t s"
  shows "\<exists>s'. sched_check_sleeping_tasks now s = Some s' \<and> unreachable_sleeper c t s'"
proof (cases "sleep_queue s = 0")
  case True
  then show ?thesis using assms by (simp add: sched_check_sleeping_tasks_def check_sleeping_end)
next
  case False
  then have c: "sleep_queue s = c" "c \<noteq> 0" using assms by (auto simp: unreachable_sleeper_def)
  show ?thesis using assms c
    by (auto simp: sched_check_sleeping_tasks_def check_sleeping.simps [of now 0 c s] check_sleeping_end
        unreachable_sleeper_def Let_def)
qed

text \<open>
  \<open>sleep_on_timeout\<close> links the caller to the sleeping tasks through \<open>sleep_next\<close>, but the timer
  walks \<open>next_wait\<close>: after a call on an empty wait queue, no task that was asleep before is woken by any
  later sequence of timer ticks, whatever its wake-up time.
\<close>

theorem sleep_on_timeout_loses_sleepers:
  assumes "ticks \<noteq> 0" "c = current_task s" "t \<noteq> c" "state (tasks s t) = TASK_SLEEPING"
  shows "\<exists>s'. fold (\<lambda>now r. Option.bind r (sched_check_sleeping_tasks now)) nows
      (Some (snd (sleep_on_timeout 0 ticks s))) = Some s' \<and> state (tasks s' t) = TASK_SLEEPING"
proof -
  have "unreachable_sleeper c t (snd (sleep_on_timeout 0 ticks s))"
    using assms by (simp add: unreachable_sleeper_def sleep_on_timeout_def schedule_fields Let_def)
  then have "\<exists>s'. fold (\<lambda>now r. Option.bind r (sched_check_sleeping_tasks now)) nows
      (Some (snd (sleep_on_timeout 0 ticks s))) = Some s' \<and> unreachable_sleeper c t s'"
  proof (induction nows arbitrary: s rule: rev_induct)
    case (snoc now nows)
    then show ?case using unreachable_stays by fastforce
  qed simp
  then show ?thesis by (auto simp: unreachable_sleeper_def)
qed

text \<open>Task 7 sleeps for one tick; then task 8 waits with a timeout.\<close>

theorem sleep_on_timeout_loses_sleepers_witness:
  "\<exists>s'. fold (\<lambda>now r. Option.bind r (sched_check_sleeping_tasks now)) [1, 2, 3, 1000]
     (Some (snd (sleep_on_timeout 0 5 (task_sleep_ticks 1 sched3)))) = Some s' \<and> state (tasks s' 7) = TASK_SLEEPING"
proof -
  have r: "rq_ok ((\<lambda>_. [])(2 := [7, 8, 9])) sched3" "7 = current_task sched3" using sched3_rr by (simp_all add: rr_def)
  have "highest ((\<lambda>_. [])(2 := [8, 9])) 2" by (simp add: highest_def)
  note S = task_sleep_ticks_rel [OF r, where p = 2 and n = 2 and ticks = 1]
  show ?thesis by (rule sleep_on_timeout_loses_sleepers [where c = 8]) (use S in \<open>simp_all add: highest_def\<close>)
qed

end
