(* ===== verification/Proc.thy ===== *)
theory Proc
  imports Sched
begin

section \<open>Processes and the table of process ids\<close>

text \<open>
  The process structure of \<^verbatim>\<open>kernel/lib/sched.h\<close> and the part of
  \<^verbatim>\<open>kernel/threading/sched.c\<close> that creates processes and finds them by their id. A process
  pointer is a natural number, 0 is NULL. \<open>live\<close> tells which process structures the kernel heap has
  handed out and not got back, so that a pointer to a freed structure can be recognised.
\<close>

abbreviation (input) PID_HASH_SIZE :: u64 where "PID_HASH_SIZE \<equiv> 1024"
abbreviation (input) NSIG :: nat where "NSIG \<equiv> 32"
abbreviation (input) NGROUPS_MAX :: nat where "NGROUPS_MAX \<equiv> 32"

datatype process_state = PROCESS_ACTIVE | PROCESS_ZOMBIE | PROCESS_KILLED | PROCESS_STOPPED

record sigaction =
  sa_handler :: u64
  sa_mask :: u32
  sa_flags :: u32

record signal_struct =
  actions :: "sigaction list"
  pending :: u32
  blocked :: u32

record process =
  pid :: u64
  sid :: u64
  pgid :: u64
  session_leader :: bool
  groups :: "u32 list"
  ngroups :: nat
  uid :: u32
  gid :: u32
  euid :: u32
  egid :: u32
  parent :: nat
  p_state :: process_state
  exit_code :: int
  p_wait_queue :: nat
  hash_next :: nat
  signals :: "signal_struct option"
  controlling_tty :: nat

record kernel =
  procs :: "nat \<Rightarrow> process"
  live :: "nat \<Rightarrow> bool"
  pid_hash :: "u64 \<Rightarrow> nat"
  pid_counter :: u64
  sch :: sched

abbreviation upd_proc :: "nat \<Rightarrow> (process \<Rightarrow> process) \<Rightarrow> kernel \<Rightarrow> kernel" where
  "upd_proc p f k \<equiv> k\<lparr>procs := (procs k)(p := f (procs k p))\<rparr>"

text \<open>The process of the current task: 0 when there is no current task or it has no process.\<close>

definition current_proc :: "kernel \<Rightarrow> nat" where
  "current_proc k = (if current_task (sch k) = 0 then 0 else proc (tasks (sch k) (current_task (sch k))))"

definition pid_hash_insert :: "nat \<Rightarrow> kernel \<Rightarrow> kernel" where
  "pid_hash_insert p k =
     (let idx = pid (procs k p) mod PID_HASH_SIZE;
          k = upd_proc p (\<lambda>q. q\<lparr>hash_next := pid_hash k idx\<rparr>) k
      in k\<lparr>pid_hash := (pid_hash k)(idx := p)\<rparr>)"

text \<open>
  The walk of \<open>pid_hash_remove\<close>: \<open>pred\<close> is the process whose \<open>hash_next\<close> is
  \<open>*curr\<close>, 0 when that is the head of the bucket. A walk that does not end is None.
\<close>

partial_function (option) hash_remove_loop :: "u64 \<Rightarrow> nat \<Rightarrow> nat \<Rightarrow> nat \<Rightarrow> kernel \<Rightarrow> kernel option" where
  "hash_remove_loop idx p pred c k =
     (if c = 0 then Some k
      else if c = p
      then let succ = hash_next (procs k p);
               k = (if pred = 0 then k\<lparr>pid_hash := (pid_hash k)(idx := succ)\<rparr>
                    else upd_proc pred (\<lambda>q. q\<lparr>hash_next := succ\<rparr>) k)
           in Some (upd_proc p (\<lambda>q. q\<lparr>hash_next := 0\<rparr>) k)
      else hash_remove_loop idx p c (hash_next (procs k c)) k)"

definition pid_hash_remove :: "nat \<Rightarrow> kernel \<Rightarrow> kernel option" where
  "pid_hash_remove p k =
     (let idx = pid (procs k p) mod PID_HASH_SIZE in hash_remove_loop idx p 0 (pid_hash k idx) k)"

partial_function (option) find_loop :: "u64 \<Rightarrow> nat \<Rightarrow> kernel \<Rightarrow> nat option" where
  "find_loop i p k =
     (if p = 0 then Some 0
      else if pid (procs k p) = i then Some p
      else find_loop i (hash_next (procs k p)) k)"

definition find_process_by_pid :: "u64 \<Rightarrow> kernel \<Rightarrow> nat option" where
  "find_process_by_pid i k = find_loop i (pid_hash k (i mod PID_HASH_SIZE)) k"

definition signal_struct0 :: signal_struct where
  "signal_struct0 = \<lparr>actions = replicate NSIG \<lparr>sa_handler = 0, sa_mask = 0, sa_flags = 0\<rparr>, pending = 0, blocked = 0\<rparr>"

definition process0 :: process where
  "process0 = \<lparr>pid = 0, sid = 0, pgid = 0, session_leader = False, groups = replicate NGROUPS_MAX 0, ngroups = 0,
     uid = 0, gid = 0, euid = 0, egid = 0, parent = 0, p_state = PROCESS_ACTIVE, exit_code = 0, p_wait_queue = 0,
     hash_next = 0, signals = None, controlling_tty = 0\<rparr>"

text \<open>
  \<open>process_create\<close>: \<open>p\<close> is the address that \<open>kmalloc\<close> gives the process (0 if it fails),
  \<open>mm_ok\<close> and \<open>sig_ok\<close> tell whether \<open>mm_create\<close> and \<open>signal_create\<close> succeed, \<open>t\<close> and
  \<open>stack_ok\<close> are the allocations of \<open>task_create\<close> and \<open>tty_console\<close> is the address of the
  console. The name, the working directory and the standard descriptors are left out.
\<close>

definition process_create ::
  "nat \<Rightarrow> bool \<Rightarrow> bool \<Rightarrow> nat \<Rightarrow> bool \<Rightarrow> nat \<Rightarrow> nat \<Rightarrow> kernel \<Rightarrow> nat \<times> kernel" where
  "process_create p mm_ok sig_ok t stack_ok tty_console prio k =
     (if p = 0 then (0, k)
      else let k = (upd_proc p (\<lambda>_. process0\<lparr>pid := pid_counter k\<rparr>) k)
                     \<lparr>live := (live k)(p := True), pid_counter := pid_counter k + 1\<rparr>;
               k = pid_hash_insert p k
           in if \<not> mm_ok then (0, k\<lparr>live := (live k)(p := False)\<rparr>)
              else if \<not> sig_ok then (0, k\<lparr>live := (live k)(p := False)\<rparr>)
              else let k = upd_proc p (\<lambda>q. q\<lparr>signals := Some signal_struct0\<rparr>) k;
                       k = k\<lparr>sch := task_create t stack_ok prio p (sch k)\<rparr>
                   in (p, upd_proc p (\<lambda>q. q\<lparr>gid := 0, uid := 0, pgid := pid q, sid := pid q,
                         session_leader := True, controlling_tty := tty_console\<rparr>) k))"

subsection \<open>The table as a map\<close>

text \<open>
  \<open>hash_ok tbl k\<close>: bucket \<open>idx\<close> is the list \<open>tbl idx\<close> of processes, linked through
  \<open>hash_next\<close>, whose ids fall into it. Ids are unique.
\<close>

abbreviation hn :: "kernel \<Rightarrow> link" where "hn k \<equiv> \<lambda>p. hash_next (procs k p)"

definition hash_ok :: "(u64 \<Rightarrow> nat list) \<Rightarrow> kernel \<Rightarrow> bool" where
  "hash_ok tbl k \<longleftrightarrow>
     (\<forall>idx. wlist (hn k) (pid_hash k idx) (tbl idx) \<and> distinct (tbl idx) \<and>
        (\<forall>p \<in> set (tbl idx). pid (procs k p) mod PID_HASH_SIZE = idx)) \<and>
     (\<forall>i j p q. p \<in> set (tbl i) \<longrightarrow> q \<in> set (tbl j) \<longrightarrow> pid (procs k p) = pid (procs k q) \<longrightarrow> p = q)"

lemma hash_okD:
  assumes "hash_ok tbl k"
  shows "wlist (hn k) (pid_hash k idx) (tbl idx)" "distinct (tbl idx)"
    "p \<in> set (tbl idx) \<Longrightarrow> pid (procs k p) mod PID_HASH_SIZE = idx"
    "p \<in> set (tbl i) \<Longrightarrow> q \<in> set (tbl j) \<Longrightarrow> pid (procs k p) = pid (procs k q) \<Longrightarrow> p = q"
  using assms unfolding hash_ok_def by blast+

text \<open>The processes that the table holds.\<close>

definition registered :: "(u64 \<Rightarrow> nat list) \<Rightarrow> nat \<Rightarrow> kernel \<Rightarrow> bool" where
  "registered tbl p k \<longleftrightarrow> p \<in> set (tbl (pid (procs k p) mod PID_HASH_SIZE))"

lemma wlist_nonzero: "wlist l h xs \<Longrightarrow> 0 \<notin> set xs"
  by (induction xs arbitrary: h) auto

lemma find_loop_eq:
  "wlist (hn k) h xs \<Longrightarrow>
   find_loop i h k = Some (case filter (\<lambda>p. pid (procs k p) = i) xs of [] \<Rightarrow> 0 | p # _ \<Rightarrow> p)"
  by (induction xs arbitrary: h) (subst find_loop.simps; simp)+

lemma find_registered:
  assumes ok: "hash_ok tbl k" and p: "registered tbl p k"
  shows "find_process_by_pid (pid (procs k p)) k = Some p"
proof -
  let ?idx = "pid (procs k p) mod PID_HASH_SIZE"
  have "q = p" if "q \<in> set (tbl ?idx)" "pid (procs k q) = pid (procs k p)" for q
    using hash_okD(4) [OF ok that(1)] that(2) p by (auto simp: registered_def)
  then have "set (filter (\<lambda>q. pid (procs k q) = pid (procs k p)) (tbl ?idx)) = {p}"
    using p by (auto simp: registered_def)
  then obtain ys where "filter (\<lambda>q. pid (procs k q) = pid (procs k p)) (tbl ?idx) = p # ys"
    by (metis (no_types, lifting) list.set_intros(1) list.set(1) neq_Nil_conv singletonD insert_not_empty)
  then show ?thesis using find_loop_eq [OF hash_okD(1) [OF ok]] by (simp add: find_process_by_pid_def)
qed

lemma find_unregistered:
  assumes ok: "hash_ok tbl k" and n: "\<And>p j. p \<in> set (tbl j) \<Longrightarrow> pid (procs k p) \<noteq> i"
  shows "find_process_by_pid i k = Some 0"
proof -
  have "filter (\<lambda>q. pid (procs k q) = i) (tbl (i mod PID_HASH_SIZE)) = []"
    using n by (auto simp: filter_empty_conv)
  then show ?thesis using find_loop_eq [OF hash_okD(1) [OF ok]] by (simp add: find_process_by_pid_def)
qed

lemma insert_ok:
  assumes ok: "hash_ok tbl k" and p: "p \<noteq> 0" and fresh: "\<And>j. p \<notin> set (tbl j)"
    and uniq: "\<And>q j. q \<in> set (tbl j) \<Longrightarrow> pid (procs k q) \<noteq> pid (procs k p)"
    and idx: "idx = pid (procs k p) mod PID_HASH_SIZE"
  shows "hash_ok (tbl(idx := p # tbl idx)) (pid_hash_insert p k)"
proof -
  let ?k = "pid_hash_insert p k"
  have f: "pid_hash ?k = (pid_hash k)(idx := p)" "\<And>q. pid (procs ?k q) = pid (procs k q)"
    "hn ?k p = pid_hash k idx" "\<And>q. q \<noteq> p \<Longrightarrow> hn ?k q = hn k q"
    by (simp_all add: pid_hash_insert_def idx Let_def)
  have m: "x \<in> set ((tbl(idx := p # tbl idx)) i) \<Longrightarrow> x = p \<or> x \<in> set (tbl i)" for x i
    by (cases "i = idx") auto
  have "wlist (hn ?k) (pid_hash k j) (tbl j)" for j
  proof -
    have "hn ?k q = hn k q" if "q \<in> set (tbl j)" for q using that fresh [of j] f(4) by (cases "q = p") auto
    then show ?thesis using hash_okD(1) [OF ok, of j] wlist_cong [of "tbl j" "hn ?k" "hn k" "pid_hash k j"] by blast
  qed
  then have "wlist (hn ?k) (pid_hash ?k j) ((tbl(idx := p # tbl idx)) j)" for j
    using p by (cases "j = idx") (simp_all add: f(1,3))
  moreover have "distinct ((tbl(idx := p # tbl idx)) j)" for j
    using hash_okD(2) [OF ok] fresh by simp
  moreover have "q \<in> set ((tbl(idx := p # tbl idx)) j) \<Longrightarrow> pid (procs ?k q) mod PID_HASH_SIZE = j" for q j
    using hash_okD(3) [OF ok, of q j] idx by (cases "j = idx") (auto simp: f(2))
  moreover have "q \<in> set ((tbl(idx := p # tbl idx)) i) \<Longrightarrow> r \<in> set ((tbl(idx := p # tbl idx)) j) \<Longrightarrow>
      pid (procs ?k q) = pid (procs ?k r) \<Longrightarrow> q = r" for q r i j
    using m [of q i] m [of r j] hash_okD(4) [OF ok, of q i r j] uniq [of q i] uniq [of r j] unfolding f(2) by fastforce
  ultimately show ?thesis unfolding hash_ok_def by blast
qed

definition hash_unlink :: "u64 \<Rightarrow> nat \<Rightarrow> nat \<Rightarrow> kernel \<Rightarrow> kernel" where
  "hash_unlink idx p q k =
     upd_proc p (\<lambda>x. x\<lparr>hash_next := 0\<rparr>)
       (if q = 0 then k\<lparr>pid_hash := (pid_hash k)(idx := hn k p)\<rparr> else upd_proc q (\<lambda>x. x\<lparr>hash_next := hn k p\<rparr>) k)"

lemma hash_remove_loop_eq:
  assumes "wlist (hn k) c (as @ p # bs)" "p \<notin> set as"
  shows "hash_remove_loop idx p pr c k = Some (hash_unlink idx p (if as = [] then pr else last as) k)"
  using assms
proof (induction as arbitrary: pr c)
  case Nil
  then show ?case by (subst hash_remove_loop.simps) (simp add: Let_def hash_unlink_def)
next
  case (Cons a as)
  then have "c = a" "a \<noteq> 0" "a \<noteq> p" by auto
  moreover have "hash_remove_loop idx p a (hn k a) k = Some (hash_unlink idx p (if as = [] then a else last as) k)"
    using Cons.IH [of "hn k a" a] Cons.prems by simp
  ultimately show ?case by (subst hash_remove_loop.simps) simp
qed

lemma hash_remove_loop_absent:
  assumes "wlist (hn k) c xs" "p \<notin> set xs"
  shows "hash_remove_loop idx p pr c k = Some k"
  using assms
proof (induction xs arbitrary: pr c)
  case Nil
  then show ?case by (subst hash_remove_loop.simps) simp
next
  case (Cons x xs)
  then show ?case by (subst hash_remove_loop.simps) simp
qed

lemma wlist_unlink:
  assumes "wlist l h (as @ p # bs)" "distinct (as @ p # bs)" "as \<noteq> []"
    and "\<And>x. l' x = (if x = p then 0 else if x = last as then l p else l x)"
  shows "wlist l' h (as @ bs)"
  using assms(1-3) assms(4)
proof (induction as arbitrary: h)
  case (Cons a as)
  show ?case
  proof (cases "as = []")
    case True
    have "wlist l' (l p) bs = wlist l (l p) bs" by (rule wlist_cong) (use Cons.prems True in auto)
    moreover have "l' a = l p" using Cons.prems(2,4) True by auto
    ultimately show ?thesis using Cons.prems(1) True by simp
  next
    case False
    then have "a \<noteq> last as" "a \<noteq> p" using Cons.prems by auto
    moreover have "l' a = l a" using Cons.prems(4) [of a] False calculation by simp
    moreover have "wlist l' (l a) (as @ bs)"
      by (rule Cons.IH) (use Cons.prems(1,2) Cons.prems(4) False in auto)
    ultimately show ?thesis using Cons.prems(1) by simp
  qed
qed simp

lemma remove_ok:
  assumes ok: "hash_ok tbl k" and p: "registered tbl p k" and idx: "idx = pid (procs k p) mod PID_HASH_SIZE"
  obtains k' where "pid_hash_remove p k = Some k'" "hash_ok (tbl(idx := remove1 p (tbl idx))) k'"
    "\<And>q. pid (procs k' q) = pid (procs k q)"
proof -
  from p obtain as bs where ab: "tbl idx = as @ p # bs" "p \<notin> set as"
    using split_list_first [of p "tbl idx"] by (auto simp: registered_def idx)
  note D = hash_okD [OF ok]
  define q where "q = (if as = [] then 0 else last as)"
  have q0: "q = 0 \<longleftrightarrow> as = []" using wlist_nonzero [OF D(1) [of idx]] ab(1) last_in_set [of as]
    by (metis q_def Un_iff set_append)
  define k' where "k' = hash_unlink idx p q k"
  have r: "pid_hash_remove p k = Some k'"
    using hash_remove_loop_eq [of k "pid_hash k idx" as p bs idx 0] D(1) [of idx] ab
    by (simp add: pid_hash_remove_def idx [symmetric] k'_def q_def Let_def)
  have rem: "remove1 p (tbl idx) = as @ bs" using ab by (simp add: remove1_append)
  have dist: "distinct (as @ p # bs)" using D(2) [of idx] ab(1) by simp
  have pids: "pid (procs k' x) = pid (procs k x)" for x by (simp add: k'_def hash_unlink_def)
  have h: "hn k' = (if q = 0 then (hn k)(p := 0) else (hn k)(q := hn k p, p := 0))"
    using dist by (auto simp: k'_def hash_unlink_def fun_eq_iff q_def)
  have ph: "pid_hash k' = (if q = 0 then (pid_hash k)(idx := hn k p) else pid_hash k)" by (simp add: k'_def hash_unlink_def)
  have W: "wlist (hn k') (pid_hash k' idx) (as @ bs)"
  proof (cases "as = []")
    case True
    then have "wlist (hn k) (hn k p) bs" using D(1) [of idx] ab(1) by simp
    moreover have "wlist ((hn k)(p := 0)) (hn k p) bs = wlist (hn k) (hn k p) bs"
      by (rule wlist_cong) (use dist in auto)
    ultimately show ?thesis using True q0 unfolding h ph by simp
  next
    case False
    have "wlist (hn k') (pid_hash k idx) (as @ bs)"
      by (rule wlist_unlink [OF D(1) [of idx, unfolded ab(1)] dist False]) (use False q0 h in \<open>simp add: q_def fun_eq_iff\<close>)
    then show ?thesis using False q0 unfolding ph by simp
  qed
  have W': "wlist (hn k') (pid_hash k' j) (tbl j)" if j: "j \<noteq> idx" for j
  proof -
    have "x \<noteq> p" "x \<noteq> q \<or> q = 0" if "x \<in> set (tbl j)" for x
      using D(3) [of x j] D(3) [of x idx] that j ab(1) last_in_set [of as] by (auto simp: q_def split: if_splits)
    then have "hn k' x = hn k x" if "x \<in> set (tbl j)" for x
      using that fun_cong [OF h, of x] by (auto split: if_splits)
    then show ?thesis using D(1) [of j] j wlist_cong [of "tbl j" "hn k'" "hn k" "pid_hash k j"] unfolding ph by simp
  qed
  have sub: "set ((tbl(idx := as @ bs)) j) \<subseteq> set (tbl j)" for j using ab(1) by (cases "j = idx") auto
  have "hash_ok (tbl(idx := as @ bs)) k'"
    unfolding hash_ok_def
  proof (intro conjI allI)
    fix j
    show "wlist (hn k') (pid_hash k' j) ((tbl(idx := as @ bs)) j)" using W W' by (cases "j = idx") auto
    show "distinct ((tbl(idx := as @ bs)) j)" using D(2) [of j] dist by (cases "j = idx") auto
    show "\<forall>x \<in> set ((tbl(idx := as @ bs)) j). pid (procs k' x) mod PID_HASH_SIZE = j"
      using D(3) sub pids by fastforce
  next
    fix i j x y
    show "x \<in> set ((tbl(idx := as @ bs)) i) \<longrightarrow> y \<in> set ((tbl(idx := as @ bs)) j) \<longrightarrow>
      pid (procs k' x) = pid (procs k' y) \<longrightarrow> x = y"
      using D(4) [of x i y j] sub [of i] sub [of j] unfolding pids by blast
  qed
  then show thesis using that [OF r] pids unfolding rem by simp
qed


subsection \<open>The contract of the table\<close>

text \<open>What signal delivery and the session calls rely on when they look up a process by its id.\<close>

locale pid_table =
  fixes inv :: "'k \<Rightarrow> bool"
    and reg :: "nat \<Rightarrow> 'k \<Rightarrow> bool"
    and key :: "'k \<Rightarrow> nat \<Rightarrow> u64"
    and find :: "u64 \<Rightarrow> 'k \<Rightarrow> nat option"
  assumes find_reg: "inv k \<Longrightarrow> reg p k \<Longrightarrow> find (key k p) k = Some p"
    and find_unreg: "inv k \<Longrightarrow> \<forall>p. reg p k \<longrightarrow> key k p \<noteq> i \<Longrightarrow> find i k = Some 0"
    and reg_nonzero: "inv k \<Longrightarrow> reg p k \<Longrightarrow> p \<noteq> 0"
begin

text \<open>A lookup always returns, and what it returns is a process with that id or NULL.\<close>

lemma find_total: "inv k \<Longrightarrow> \<exists>p. find i k = Some p \<and> (p = 0 \<or> reg p k \<and> key k p = i)"
proof (cases "\<exists>p. reg p k \<and> key k p = i")
  case True
  then obtain p where "reg p k" "key k p = i" by blast
  then show "inv k \<Longrightarrow> ?thesis" using find_reg by blast
next
  case False
  then show "inv k \<Longrightarrow> ?thesis" using find_unreg by blast
qed

lemma find_iff: "inv k \<Longrightarrow> p \<noteq> 0 \<Longrightarrow> find i k = Some p \<longleftrightarrow> reg p k \<and> key k p = i"
proof
  assume "inv k" "p \<noteq> 0" "find i k = Some p"
  then show "reg p k \<and> key k p = i" using find_total [of k i] by simp
next
  assume "inv k" "reg p k \<and> key k p = i"
  then show "find i k = Some p" using find_reg [of k p] by simp
qed

end

lemma find_unreg':
  assumes "hash_ok tbl k" "\<forall>p. registered tbl p k \<longrightarrow> pid (procs k p) \<noteq> i"
  shows "find_process_by_pid i k = Some 0"
proof (rule find_unregistered [OF assms(1)])
  show "pid (procs k p) \<noteq> i" if "p \<in> set (tbl j)" for p j
    using assms(2) hash_okD(3) [OF assms(1) that] that by (auto simp: registered_def)
qed

lemma registered_nonzero: "hash_ok tbl k \<Longrightarrow> registered tbl p k \<Longrightarrow> p \<noteq> 0"
  using wlist_nonzero [OF hash_okD(1), of tbl k "pid (procs k p) mod PID_HASH_SIZE"]
  unfolding registered_def by (cases "p = 0") blast+

interpretation pt: pid_table "hash_ok tbl" "registered tbl" "\<lambda>k p. pid (procs k p)" find_process_by_pid for tbl
proof (unfold_locales, goal_cases)
  case (1 k p)
  then show ?case by (simp add: find_registered)
next
  case (2 k i)
  then show ?case by (simp add: find_unreg')
next
  case (3 k p)
  then show ?case by (rule registered_nonzero)
qed

lemma insert_fields [simp]:
  "pid (procs (pid_hash_insert p k) q) = pid (procs k q)" "live (pid_hash_insert p k) = live k"
  "pid_counter (pid_hash_insert p k) = pid_counter k"
  by (simp_all add: pid_hash_insert_def Let_def)

text \<open>What a lookup returns, from the processes that the table holds.\<close>

lemma find_after:
  assumes ok: "hash_ok tbl k" "hash_ok tbl' k'" and reg: "\<And>q. q \<noteq> p \<Longrightarrow> registered tbl' q k' \<longleftrightarrow> registered tbl q k"
    and keys: "\<And>q. pid (procs k' q) = pid (procs k q)" and other: "registered tbl p k \<or> registered tbl' p k' \<Longrightarrow> i \<noteq> pid (procs k p)"
  shows "find_process_by_pid i k' = find_process_by_pid i k"
proof -
  obtain q where q: "find_process_by_pid i k = Some q" "q = 0 \<or> registered tbl q k \<and> pid (procs k q) = i"
    using pt.find_total [OF ok(1), of i] by blast
  show ?thesis
  proof (cases "\<exists>r. registered tbl' r k' \<and> pid (procs k' r) = i")
    case True
    then obtain r where r: "registered tbl' r k'" "pid (procs k r) = i" using keys by auto
    then have "r \<noteq> p" using other by blast
    then have "registered tbl r k" using reg r(1) by blast
    then show ?thesis using find_registered [OF ok(1), of r] find_registered [OF ok(2) r(1)] r(2) keys by simp
  next
    case False
    then have "find_process_by_pid i k' = Some 0" using find_unreg' [OF ok(2)] by blast
    moreover have "q = 0"
    proof (rule ccontr)
      assume "q \<noteq> 0"
      then have r: "registered tbl q k" "pid (procs k q) = i" using q(2) by blast+
      then have "q \<noteq> p" using other by blast
      then show False using False reg r keys by blast
    qed
    ultimately show ?thesis using q(1) by simp
  qed
qed

text \<open>
  C19. The table of process ids implements a map. In a consistent table, every lookup returns: the process registered under the
  id, or NULL if there is none. The insertion of a process with a fresh id changes the lookup of that id only, which now returns
  the process. The removal of any registered process, wherever it stands in its bucket, changes the lookup of its id
  only, which then returns NULL. Both keep the table consistent.
\<close>

theorem pid_table_correct:
  assumes "hash_ok tbl k"
  shows "(\<forall>q. registered tbl q k \<longrightarrow> find_process_by_pid (pid (procs k q)) k = Some q) \<and>
    (\<forall>i. (\<forall>q. registered tbl q k \<longrightarrow> pid (procs k q) \<noteq> i) \<longrightarrow> find_process_by_pid i k = Some 0) \<and>
    (\<forall>p. p \<noteq> 0 \<and> (\<forall>j. p \<notin> set (tbl j)) \<and> (\<forall>q. registered tbl q k \<longrightarrow> pid (procs k q) \<noteq> pid (procs k p)) \<longrightarrow>
       (\<exists>tbl'. hash_ok tbl' (pid_hash_insert p k) \<and> registered tbl' p (pid_hash_insert p k)) \<and>
       (\<forall>i. find_process_by_pid i (pid_hash_insert p k) = (if i = pid (procs k p) then Some p else find_process_by_pid i k))) \<and>
    (\<forall>p. registered tbl p k \<longrightarrow>
       (\<exists>k' tbl'. pid_hash_remove p k = Some k' \<and> hash_ok tbl' k' \<and> (\<forall>j. p \<notin> set (tbl' j)) \<and>
          (\<forall>i. find_process_by_pid i k' = (if i = pid (procs k p) then Some 0 else find_process_by_pid i k))))"
proof (intro conjI allI impI)
  show "find_process_by_pid (pid (procs k q)) k = Some q" if "registered tbl q k" for q using find_registered [OF assms that] .
  show "find_process_by_pid i k = Some 0" if "\<forall>q. registered tbl q k \<longrightarrow> pid (procs k q) \<noteq> i" for i using find_unreg' [OF assms that] .
next
  fix p assume p: "p \<noteq> 0 \<and> (\<forall>j. p \<notin> set (tbl j)) \<and> (\<forall>q. registered tbl q k \<longrightarrow> pid (procs k q) \<noteq> pid (procs k p))"
  let ?k = "pid_hash_insert p k"
  define idx where "idx = pid (procs k p) mod PID_HASH_SIZE"
  have u: "pid (procs k q) \<noteq> pid (procs k p)" if "q \<in> set (tbl j)" for q j
    using p hash_okD(3) [OF assms that] that by (auto simp: registered_def)
  have ok: "hash_ok (tbl(idx := p # tbl idx)) ?k" by (rule insert_ok [OF assms _ _ _ idx_def]) (use p u in auto)
  have r: "registered (tbl(idx := p # tbl idx)) p ?k" by (simp add: registered_def idx_def)
  show "\<exists>tbl'. hash_ok tbl' ?k \<and> registered tbl' p ?k" using ok r by blast
  have "find_process_by_pid i ?k = find_process_by_pid i k" if "i \<noteq> pid (procs k p)" for i
    by (rule find_after [OF assms ok]) (use that in \<open>auto simp: registered_def\<close>)
  then show "find_process_by_pid i ?k = (if i = pid (procs k p) then Some p else find_process_by_pid i k)" for i
    using find_registered [OF ok r] by simp
next
  fix p assume p: "registered tbl p k"
  define idx where "idx = pid (procs k p) mod PID_HASH_SIZE"
  obtain k' where k': "pid_hash_remove p k = Some k'" "hash_ok (tbl(idx := remove1 p (tbl idx))) k'" "\<And>q. pid (procs k' q) = pid (procs k q)"
    using remove_ok [OF assms p idx_def] by blast
  let ?t = "tbl(idx := remove1 p (tbl idx))"
  have n: "p \<notin> set (?t j)" for j
    using hash_okD(2) [OF assms, of idx] hash_okD(3) [OF assms, of p j] by (auto simp: idx_def)
  have "registered ?t q k' \<longleftrightarrow> registered tbl q k" if "q \<noteq> p" for q
    using that by (simp add: registered_def k'(3))
  then have "find_process_by_pid i k' = find_process_by_pid i k" if "i \<noteq> pid (procs k p)" for i
    using that by (intro find_after [OF assms k'(2) _ k'(3)]) auto
  moreover have "find_process_by_pid (pid (procs k p)) k' = Some 0"
  proof (rule find_unregistered [OF k'(2)])
    fix q j assume q: "q \<in> set (?t j)"
    then have "q \<noteq> p" "q \<in> set (tbl j)" using n [of j] set_remove1_subset [of p "tbl idx"] by (auto split: if_splits)
    then show "pid (procs k' q) \<noteq> pid (procs k p)" using hash_okD(4) [OF assms, of q j p idx] p k'(3) by (auto simp: registered_def idx_def)
  qed
  ultimately have "pid_hash_remove p k = Some k' \<and> hash_ok ?t k' \<and> (\<forall>j. p \<notin> set (?t j)) \<and>
      (\<forall>i. find_process_by_pid i k' = (if i = pid (procs k p) then Some 0 else find_process_by_pid i k))" using k'(1,2) n by simp
  then show "\<exists>k' tbl'. pid_hash_remove p k = Some k' \<and> hash_ok tbl' k' \<and> (\<forall>j. p \<notin> set (tbl' j)) \<and>
      (\<forall>i. find_process_by_pid i k' = (if i = pid (procs k p) then Some 0 else find_process_by_pid i k))" by blast
qed

definition kernel0 :: kernel where
  "kernel0 = \<lparr>procs = (\<lambda>_. process0), live = (\<lambda>_. False), pid_hash = (\<lambda>_. 0), pid_counter = 1, sch = sched0\<rparr>"

lemma kernel0_ok: "hash_ok (\<lambda>_. []) kernel0"
  by (simp add: hash_ok_def kernel0_def)

text \<open>Three processes with ids 1, 1025 and 2049, which fall into the same bucket; the one in the middle of the chain is removed.\<close>

definition kernel3 :: kernel where
  "kernel3 = pid_hash_insert 7 (pid_hash_insert 6 (pid_hash_insert 5
     (upd_proc 5 (\<lambda>_. process0\<lparr>pid := 1\<rparr>) (upd_proc 6 (\<lambda>_. process0\<lparr>pid := 1025\<rparr>) (upd_proc 7 (\<lambda>_. process0\<lparr>pid := 2049\<rparr>) kernel0)))))"

lemma kernel3_pids: "pid (procs kernel3 5) = 1" "pid (procs kernel3 6) = 1025" "pid (procs kernel3 7) = 2049"
  by (simp_all add: kernel3_def)

lemma kernel3_ok: "hash_ok ((\<lambda>_. [])(1 := [7, 6, 5])) kernel3"
proof -
  let ?k = "upd_proc 5 (\<lambda>_. process0\<lparr>pid := 1\<rparr>) (upd_proc 6 (\<lambda>_. process0\<lparr>pid := 1025\<rparr>) (upd_proc 7 (\<lambda>_. process0\<lparr>pid := 2049\<rparr>) kernel0))"
  have 0: "hash_ok (\<lambda>_. []) ?k" by (simp add: hash_ok_def kernel0_def)
  have 1: "hash_ok ((\<lambda>_. [])(1 := [5])) (pid_hash_insert 5 ?k)" using insert_ok [OF 0, of 5 1] by simp
  have 2: "hash_ok ((\<lambda>_. [])(1 := [6, 5])) (pid_hash_insert 6 (pid_hash_insert 5 ?k))"
    using insert_ok [OF 1, of 6 1] by (simp split: if_splits)
  have "hash_ok (((\<lambda>_. [])(1 := [6, 5]))(1 := 7 # ((\<lambda>_ :: u64. [])(1 := [6, 5])) 1)) (pid_hash_insert 7 (pid_hash_insert 6 (pid_hash_insert 5 ?k)))"
    by (rule insert_ok [OF 2, where idx = 1 and p = 7]) (auto split: if_splits)
  then show ?thesis by (simp add: kernel3_def)
qed

theorem pid_table_correct_witness:
  "\<exists>k'. pid_hash_remove 6 kernel3 = Some k' \<and> find_process_by_pid 1025 kernel3 = Some 6 \<and>
     find_process_by_pid 1025 k' = Some 0 \<and> find_process_by_pid 1 k' = Some 5 \<and> find_process_by_pid 2049 k' = Some 7"
proof -
  note T = pid_table_correct [OF kernel3_ok]
  have r: "registered ((\<lambda>_. [])(1 := [7, 6, 5])) q kernel3" if "q \<in> {5, 6, 7}" for q
    using that kernel3_pids by (auto simp: registered_def)
  have f: "find_process_by_pid 1 kernel3 = Some 5" "find_process_by_pid 1025 kernel3 = Some 6" "find_process_by_pid 2049 kernel3 = Some 7"
    using T [THEN conjunct1, rule_format, OF r, of 5] T [THEN conjunct1, rule_format, OF r, of 6] T [THEN conjunct1, rule_format, OF r, of 7]
    by (simp_all add: kernel3_pids)
  have "registered ((\<lambda>_. [])(1 := [7, 6, 5])) 6 kernel3" using r by simp
  then have "\<exists>k' tbl'. pid_hash_remove 6 kernel3 = Some k' \<and> hash_ok tbl' k' \<and> (\<forall>j. 6 \<notin> set (tbl' j)) \<and>
      (\<forall>i. find_process_by_pid i k' = (if i = pid (procs kernel3 6) then Some 0 else find_process_by_pid i kernel3))"
    using T by blast
  then obtain k' where k': "pid_hash_remove 6 kernel3 = Some k'"
    "\<forall>i. find_process_by_pid i k' = (if i = 1025 then Some 0 else find_process_by_pid i kernel3)" using kernel3_pids by auto
  then show ?thesis using f by (intro exI [of _ k']) simp
qed

text \<open>
  A process whose address space or signal state cannot be allocated is freed but stays in the table:
  \<open>process_create\<close> returns NULL, and afterwards \<open>find_process_by_pid\<close> returns the freed structure.
\<close>

theorem process_create_dangling:
  assumes "hash_ok tbl k" "p \<noteq> 0" "\<And>j. p \<notin> set (tbl j)" "\<And>q j. q \<in> set (tbl j) \<Longrightarrow> pid (procs k q) \<noteq> pid_counter k"
    "\<not> mm_ok \<or> \<not> sig_ok"
  shows "\<exists>k'. process_create p mm_ok sig_ok t stack_ok tty_console prio k = (0, k') \<and>
    find_process_by_pid (pid_counter k) k' = Some p \<and> \<not> live k' p"
proof -
  define k1 where "k1 = (upd_proc p (\<lambda>_. process0\<lparr>pid := pid_counter k\<rparr>) k)
                     \<lparr>live := (live k)(p := True), pid_counter := pid_counter k + 1\<rparr>"
  define idx where "idx = pid (procs k1 p) mod PID_HASH_SIZE"
  have q: "procs k1 q = procs k q" if "q \<in> set (tbl j)" for q j using that assms(3) by (auto simp: k1_def)
  have "wlist (hn k1) h (tbl j) = wlist (hn k) h (tbl j)" for h j by (rule wlist_cong) (simp add: q)
  moreover have "pid_hash k1 = pid_hash k" by (simp add: k1_def)
  ultimately have ok1: "hash_ok tbl k1"
    unfolding hash_ok_def using hash_okD [OF assms(1)] q by auto
  have p1: "pid (procs k1 p) = pid_counter k" by (simp add: k1_def)
  have u: "pid (procs k1 r) \<noteq> pid (procs k1 p)" if "r \<in> set (tbl j)" for r j
    using assms(4) [OF that] q [OF that] p1 by simp
  have ok2: "hash_ok (tbl(idx := p # tbl idx)) (pid_hash_insert p k1)"
    by (rule insert_ok [OF ok1 assms(2,3) u idx_def])
  let ?k2 = "(pid_hash_insert p k1)\<lparr>live := (live (pid_hash_insert p k1))(p := False)\<rparr>"
  have "hash_ok (tbl(idx := p # tbl idx)) ?k2" using ok2 by (simp add: hash_ok_def)
  moreover have "registered (tbl(idx := p # tbl idx)) p ?k2" by (simp add: registered_def idx_def)
  ultimately have "find_process_by_pid (pid (procs ?k2 p)) ?k2 = Some p" by (rule find_registered)
  moreover have "process_create p mm_ok sig_ok t stack_ok tty_console prio k = (0, ?k2)"
    using assms(2,5) by (auto simp: process_create_def Let_def k1_def)
  ultimately show ?thesis using p1 by simp
qed

theorem process_create_dangling_witness:
  "\<exists>k'. process_create 7 False True 9 True 3 2 kernel0 = (0, k') \<and> find_process_by_pid 1 k' = Some 7 \<and> \<not> live k' 7"
proof -
  have "pid_counter kernel0 = 1" by (simp add: kernel0_def)
  then show ?thesis using process_create_dangling [OF kernel0_ok, of 7 False True 9 True 3 2] by simp
qed

end
