(* ===== verification/Cred.thy ===== *)
theory Cred
  imports Proc
begin

section \<open>Credentials, sessions and file ownership\<close>

text \<open>
  A model of \<^verbatim>\<open>kernel/syscalls/getuid.c\<close> and of the permission check of
  \<^verbatim>\<open>kernel/fs/vfs.c\<close>. A call gives back its result and the new state; the calls that look up a
  process return an option, None if the lookup does not end. The result of \<open>copy_from_user\<close> is an
  argument of the calls that read user memory, None when it fails, and so are the results of the
  allocation of the path buffer and of \<open>namei\<close> (0 for NULL).
\<close>

record inode =
  i_flags :: u32
  i_uid :: u32
  i_gid :: u32
  i_mode :: u32
  i_size :: u64

type_synonym inodes = "nat \<Rightarrow> inode"

definition sys_getuid :: "kernel \<Rightarrow> int" where
  "sys_getuid k = (if current_proc k = 0 then -1 else uint (uid (procs k (current_proc k))))"

definition sys_setuid :: "u32 \<Rightarrow> kernel \<Rightarrow> int \<times> kernel" where
  "sys_setuid u k =
     (let p = current_proc k
      in if p = 0 then (-1, k)
         else if euid (procs k p) \<noteq> 0 then (-1, k)
         else (0, upd_proc p (\<lambda>q. q\<lparr>uid := u, euid := u\<rparr>) k))"

definition sys_seteuid :: "u32 \<Rightarrow> kernel \<Rightarrow> int \<times> kernel" where
  "sys_seteuid e k =
     (let p = current_proc k
      in if p = 0 then (-1, k)
         else if euid (procs k p) \<noteq> 0 \<and> e \<noteq> uid (procs k p) then (-1, k)
         else (0, upd_proc p (\<lambda>q. q\<lparr>euid := e\<rparr>) k))"

definition sys_getgid :: "kernel \<Rightarrow> int" where
  "sys_getgid k = (if current_proc k = 0 then -1 else uint (gid (procs k (current_proc k))))"

definition sys_setgid :: "u32 \<Rightarrow> kernel \<Rightarrow> int \<times> kernel" where
  "sys_setgid g k =
     (let p = current_proc k
      in if p = 0 then (-1, k)
         else if euid (procs k p) \<noteq> 0 then (-1, k)
         else (0, upd_proc p (\<lambda>q. q\<lparr>gid := g, egid := g\<rparr>) k))"

definition sys_setegid :: "u32 \<Rightarrow> kernel \<Rightarrow> int \<times> kernel" where
  "sys_setegid e k =
     (let p = current_proc k
      in if p = 0 then (-1, k)
         else if euid (procs k p) \<noteq> 0 \<and> e \<noteq> gid (procs k p) then (-1, k)
         else (0, upd_proc p (\<lambda>q. q\<lparr>egid := e\<rparr>) k))"

text \<open>Both arms of the conditional expression have the type of \<open>euid\<close>, so without a process the result is \<open>(u32)-1\<close>.\<close>

definition sys_geteuid :: "kernel \<Rightarrow> int" where
  "sys_geteuid k = uint (if current_proc k \<noteq> 0 then euid (procs k (current_proc k)) else (-1 :: u32))"

definition sys_getegid :: "kernel \<Rightarrow> int" where
  "sys_getegid k = uint (if current_proc k \<noteq> 0 then egid (procs k (current_proc k)) else (-1 :: u32))"

definition sys_setsid :: "kernel \<Rightarrow> int \<times> kernel" where
  "sys_setsid k =
     (let p = current_proc k
      in if p = 0 then (-1, k)
         else if session_leader (procs k p) then (-1, k)
         else if pgid (procs k p) = pid (procs k p) then (-1, k)
         else (sint (pid (procs k p)),
               upd_proc p (\<lambda>q. q\<lparr>sid := pid q, pgid := pid q, session_leader := True, controlling_tty := 0\<rparr>) k))"

definition sys_getsid :: "u64 \<Rightarrow> kernel \<Rightarrow> int option" where
  "sys_getsid i k =
     (if i = 0 then Some (if current_proc k = 0 then -1 else sint (sid (procs k (current_proc k))))
      else map_option (\<lambda>t. if t = 0 then -1 else sint (sid (procs k t))) (find_process_by_pid i k))"

definition sys_getpgid :: "u64 \<Rightarrow> kernel \<Rightarrow> int option" where
  "sys_getpgid i k =
     (if i = 0 then Some (if current_proc k = 0 then -1 else sint (pgid (procs k (current_proc k))))
      else map_option (\<lambda>t. if t = 0 then -1 else sint (pgid (procs k t))) (find_process_by_pid i k))"

definition setpgid_target :: "nat \<Rightarrow> nat \<Rightarrow> u64 \<Rightarrow> kernel \<Rightarrow> int \<times> kernel" where
  "setpgid_target caller target g k =
     (if session_leader (procs k target) then (-1, k)
      else let g = (if g = 0 then pid (procs k target) else g)
           in if sid (procs k target) \<noteq> sid (procs k caller) then (-1, k)
              else (0, upd_proc target (\<lambda>q. q\<lparr>pgid := g\<rparr>) k))"

definition sys_setpgid :: "u64 \<Rightarrow> u64 \<Rightarrow> kernel \<Rightarrow> (int \<times> kernel) option" where
  "sys_setpgid i g k =
     (let caller = current_proc k
      in if caller = 0 then Some (-1, k)
         else if i = 0 \<or> i = pid (procs k caller) then Some (setpgid_target caller caller g k)
         else map_option (\<lambda>target. if target = 0 then (-1, k)
                                   else if parent (procs k target) \<noteq> caller then (-1, k)
                                   else setpgid_target caller target g k)
                (find_process_by_pid i k))"

definition sys_getpgrp :: "kernel \<Rightarrow> int" where
  "sys_getpgrp k = (if current_proc k = 0 then -1 else sint (pgid (procs k (current_proc k))))"

text \<open>\<open>sys_getgroups\<close> returns the number of groups and what it has copied out; \<open>copy_ok\<close> is the copy's outcome.\<close>

definition sys_getgroups :: "int \<Rightarrow> bool \<Rightarrow> kernel \<Rightarrow> int \<times> u32 list" where
  "sys_getgroups sz copy_ok k =
     (let p = procs k (current_proc k)
      in if current_proc k = 0 then (-1, [])
         else if sz = 0 then (int (ngroups p), [])
         else if sz < int (ngroups p) then (-1, [])
         else if \<not> copy_ok then (-1, [])
         else (int (ngroups p), take (ngroups p) (groups p)))"

definition sys_setgroups :: "int \<Rightarrow> u32 list option \<Rightarrow> kernel \<Rightarrow> int \<times> kernel" where
  "sys_setgroups sz list k =
     (let p = current_proc k
      in if p = 0 then (-1, k)
         else if euid (procs k p) \<noteq> 0 then (-1, k)
         else if sz < 0 \<or> sz > int NGROUPS_MAX then (-1, k)
         else (case list of
                 None \<Rightarrow> (-1, k)
               | Some new_groups \<Rightarrow>
                   (0, upd_proc p (\<lambda>q. q\<lparr>groups := take (nat sz) new_groups @ drop (nat sz) (groups q),
                                        ngroups := nat sz\<rparr>) k)))"

text \<open>The common first half of the calls that take a path: the file, 0 when the call fails.\<close>

definition path_file :: "bool \<Rightarrow> bool \<Rightarrow> nat \<Rightarrow> kernel \<Rightarrow> nat" where
  "path_file heap_ok copy_ok file k = (if current_proc k = 0 \<or> \<not> heap_ok \<or> \<not> copy_ok then 0 else file)"

definition chown_inode :: "nat \<Rightarrow> u64 \<Rightarrow> u64 \<Rightarrow> kernel \<Rightarrow> inodes \<Rightarrow> int \<times> inodes" where
  "chown_inode f owner grp k ns =
     (if euid (procs k (current_proc k)) \<noteq> 0 then (-1, ns)
      else let n = ns f;
               n = (if owner \<noteq> -1 then n\<lparr>i_uid := ucast owner\<rparr> else n);
               n = (if grp \<noteq> -1 then n\<lparr>i_gid := ucast grp\<rparr> else n)
           in (0, ns(f := n)))"

definition sys_chown :: "bool \<Rightarrow> bool \<Rightarrow> nat \<Rightarrow> u64 \<Rightarrow> u64 \<Rightarrow> kernel \<Rightarrow> inodes \<Rightarrow> int \<times> inodes" where
  "sys_chown heap_ok copy_ok file owner grp k ns =
     (let f = path_file heap_ok copy_ok file k in if f = 0 then (-1, ns) else chown_inode f owner grp k ns)"

definition chmod_inode :: "nat \<Rightarrow> u32 \<Rightarrow> kernel \<Rightarrow> inodes \<Rightarrow> int \<times> inodes" where
  "chmod_inode f mode k ns =
     (let e = euid (procs k (current_proc k))
      in if e \<noteq> 0 \<and> i_uid (ns f) \<noteq> e then (-1, ns)
         else (0, ns(f := (ns f)\<lparr>i_mode := (i_mode (ns f) AND NOT 0xFFF) OR (mode AND 0xFFF)\<rparr>)))"

definition sys_chmod :: "bool \<Rightarrow> bool \<Rightarrow> nat \<Rightarrow> u32 \<Rightarrow> kernel \<Rightarrow> inodes \<Rightarrow> int \<times> inodes" where
  "sys_chmod heap_ok copy_ok file mode k ns =
     (let f = path_file heap_ok copy_ok file k in if f = 0 then (-1, ns) else chmod_inode f mode k ns)"

text \<open>The flags of an inode are 32 bits wide, those of the call 64.\<close>

definition chflags_inode :: "nat \<Rightarrow> u64 \<Rightarrow> kernel \<Rightarrow> inodes \<Rightarrow> int \<times> inodes" where
  "chflags_inode f fl k ns =
     (let e = euid (procs k (current_proc k))
      in if e \<noteq> 0
         then if i_uid (ns f) \<noteq> e then (-1, ns)
              else if fl AND NOT 0xFFFF \<noteq> 0 then (-1, ns)
              else (0, ns(f := (ns f)\<lparr>i_flags := ucast ((ucast (i_flags (ns f)) AND NOT 0xFFFF) OR (fl AND 0xFFFF) :: u64)\<rparr>))
         else (0, ns(f := (ns f)\<lparr>i_flags := ucast fl\<rparr>)))"

definition sys_chflags :: "bool \<Rightarrow> bool \<Rightarrow> nat \<Rightarrow> u64 \<Rightarrow> kernel \<Rightarrow> inodes \<Rightarrow> int \<times> inodes" where
  "sys_chflags heap_ok copy_ok file fl k ns =
     (let f = path_file heap_ok copy_ok file k in if f = 0 then (-1, ns) else chflags_inode f fl k ns)"

text \<open>The variants on a descriptor: \<open>file\<close> is the inode of \<open>fd_get\<close>, 0 if there is none.\<close>

definition sys_fchown :: "nat \<Rightarrow> u64 \<Rightarrow> u64 \<Rightarrow> kernel \<Rightarrow> inodes \<Rightarrow> int \<times> inodes" where
  "sys_fchown file owner grp k ns =
     (if current_proc k = 0 \<or> file = 0 then (-1, ns) else chown_inode file owner grp k ns)"

definition sys_fchmod :: "nat \<Rightarrow> u32 \<Rightarrow> kernel \<Rightarrow> inodes \<Rightarrow> int \<times> inodes" where
  "sys_fchmod file mode k ns =
     (if current_proc k = 0 \<or> file = 0 then (-1, ns) else chmod_inode file mode k ns)"

definition sys_fchflags :: "nat \<Rightarrow> u64 \<Rightarrow> kernel \<Rightarrow> inodes \<Rightarrow> int \<times> inodes" where
  "sys_fchflags file fl k ns =
     (if current_proc k = 0 \<or> file = 0 then (-1, ns) else chflags_inode file fl k ns)"

definition vfs_check_permission :: "inode option \<Rightarrow> u32 \<Rightarrow> kernel \<Rightarrow> int" where
  "vfs_check_permission node msk k =
     (case node of
        None \<Rightarrow> -1
      | Some n \<Rightarrow>
          let p = procs k (current_proc k)
          in if current_proc k = 0 then 0
             else if euid p = 0 then 0
             else let mode = (if euid p = i_uid n then drop_bit 6 (i_mode n)
                              else if egid p = i_gid n then drop_bit 3 (i_mode n)
                              else i_mode n)
                  in if mode AND msk = msk then 0 else -1)"

subsection \<open>The calls of a process\<close>

text \<open>Every call of the running process that can change its credentials or the files.\<close>

inductive cred_step :: "kernel \<times> inodes \<Rightarrow> kernel \<times> inodes \<Rightarrow> bool" where
  setuid: "sys_setuid u k = (r, k') \<Longrightarrow> cred_step (k, ns) (k', ns)"
| seteuid: "sys_seteuid u k = (r, k') \<Longrightarrow> cred_step (k, ns) (k', ns)"
| setgid: "sys_setgid u k = (r, k') \<Longrightarrow> cred_step (k, ns) (k', ns)"
| setegid: "sys_setegid u k = (r, k') \<Longrightarrow> cred_step (k, ns) (k', ns)"
| setsid: "sys_setsid k = (r, k') \<Longrightarrow> cred_step (k, ns) (k', ns)"
| setpgid: "sys_setpgid i g k = Some (r, k') \<Longrightarrow> cred_step (k, ns) (k', ns)"
| setgroups: "sys_setgroups n gs k = (r, k') \<Longrightarrow> cred_step (k, ns) (k', ns)"
| chown: "sys_chown h c f u g k ns = (r, ns') \<Longrightarrow> cred_step (k, ns) (k, ns')"
| fchown: "sys_fchown f u g k ns = (r, ns') \<Longrightarrow> cred_step (k, ns) (k, ns')"
| chmod: "sys_chmod h c f m k ns = (r, ns') \<Longrightarrow> cred_step (k, ns) (k, ns')"
| fchmod: "sys_fchmod f m k ns = (r, ns') \<Longrightarrow> cred_step (k, ns) (k, ns')"
| chflags: "sys_chflags h c f fl k ns = (r, ns') \<Longrightarrow> cred_step (k, ns) (k, ns')"
| fchflags: "sys_fchflags f fl k ns = (r, ns') \<Longrightarrow> cred_step (k, ns) (k, ns')"


text \<open>
  What an unprivileged process \<open>p\<close> can have changed since the state \<open>(k0, ns0)\<close>: its effective ids
  only to its real ones, nobody else's credentials, no owner of a file, and the mode and flags only of its own files.
\<close>

definition same_creds :: "process \<Rightarrow> process \<Rightarrow> bool" where
  "same_creds q q0 \<longleftrightarrow> uid q = uid q0 \<and> gid q = gid q0 \<and> groups q = groups q0 \<and> ngroups q = ngroups q0"

definition confined :: "nat \<Rightarrow> kernel \<Rightarrow> inodes \<Rightarrow> kernel \<Rightarrow> inodes \<Rightarrow> bool" where
  "confined p k0 ns0 k ns \<longleftrightarrow>
     sch k = sch k0 \<and>
     (\<forall>q. same_creds (procs k q) (procs k0 q)) \<and>
     (\<forall>q. q \<noteq> p \<longrightarrow> euid (procs k q) = euid (procs k0 q) \<and> egid (procs k q) = egid (procs k0 q)) \<and>
     (euid (procs k p) = euid (procs k0 p) \<or> euid (procs k p) = uid (procs k0 p)) \<and>
     (egid (procs k p) = egid (procs k0 p) \<or> egid (procs k p) = gid (procs k0 p)) \<and>
     (\<forall>f. i_uid (ns f) = i_uid (ns0 f) \<and> i_gid (ns f) = i_gid (ns0 f) \<and> i_size (ns f) = i_size (ns0 f) \<and>
        i_mode (ns f) AND NOT 0xFFF = i_mode (ns0 f) AND NOT 0xFFF \<and>
        (i_uid (ns0 f) \<noteq> euid (procs k0 p) \<longrightarrow> i_uid (ns0 f) \<noteq> uid (procs k0 p) \<longrightarrow> ns f = ns0 f))"

lemma current_proc_upd [simp]: "current_proc (upd_proc q f k) = current_proc k"
  by (simp add: current_proc_def)

lemma and_or_not: "((m AND NOT a) OR (x AND a)) AND NOT a = (m :: 'a :: len word) AND NOT a"
  by (intro bit_word_eqI) (auto simp: bit_or_iff bit_and_iff bit_not_iff)

lemmas and_or_mask = and_or_not [of _ "0xFFF :: u32", simplified]

lemma confined_files:
  assumes C: "confined p k0 ns0 k ns" and p: "p = current_proc k" "euid (procs k p) \<noteq> 0"
  shows "chown_inode f u g k ns = (-1, ns)"
    "chmod_inode f m k ns = (r, ns') \<Longrightarrow> confined p k0 ns0 k ns'"
    "chflags_inode f fl k ns = (r, ns') \<Longrightarrow> confined p k0 ns0 k ns'"
proof -
  show "chown_inode f u g k ns = (-1, ns)" using p by (simp add: chown_inode_def)
  have own: "i_uid (ns f) = euid (procs k p) \<Longrightarrow> i_uid (ns0 f) = euid (procs k0 p) \<or> i_uid (ns0 f) = uid (procs k0 p)" for f
    using C by (auto simp: confined_def)
  show "confined p k0 ns0 k ns'" if "chmod_inode f m k ns = (r, ns')"
    using that C own [of f] p by (auto simp: chmod_inode_def confined_def and_or_mask Let_def split: if_splits)
  show "confined p k0 ns0 k ns'" if "chflags_inode f fl k ns = (r, ns')"
    using that C own [of f] p by (auto simp: chflags_inode_def confined_def Let_def split: if_splits)
qed

lemma confined_step:
  assumes st: "cred_step (k, ns) (k', ns')" and C: "confined p k0 ns0 k ns" and p: "p = current_proc k0" "p \<noteq> 0"
    and e: "euid (procs k0 p) \<noteq> 0" "uid (procs k0 p) \<noteq> 0"
  shows "confined p k0 ns0 k' ns'"
proof -
  have cp: "current_proc k = p" using C p(1) by (simp add: confined_def current_proc_def)
  have ek: "euid (procs k p) \<noteq> 0" using C e unfolding confined_def by (elim conjE disjE) simp_all
  have uk: "uid (procs k p) = uid (procs k0 p)" "gid (procs k p) = gid (procs k0 p)"
    using C by (simp_all add: confined_def same_creds_def)
  have upd: "confined p k0 ns0 (k\<lparr>procs := (procs k)(q := x)\<rparr>) ns"
    if "same_creds x (procs k q)" "euid x = euid (procs k q)" "egid x = egid (procs k q)" for q x
    using C that unfolding confined_def same_creds_def by (auto simp: fun_upd_def)
  note F = confined_files [OF C cp [symmetric] ek]
  from st show ?thesis
  proof cases
    case (setuid u r)
    then show ?thesis using C ek cp by (simp add: sys_setuid_def Let_def split: if_splits)
  next
    case (seteuid u r)
    then consider "k' = k" | "k' = upd_proc p (\<lambda>q. q\<lparr>euid := uid q\<rparr>) k"
      using ek cp by (auto simp: sys_seteuid_def Let_def split: if_splits)
    then show ?thesis
    proof cases
      case 2
      then show ?thesis using C uk seteuid(1) unfolding confined_def same_creds_def by simp
    qed (use C seteuid in simp)
  next
    case (setgid u r)
    then show ?thesis using C ek cp by (simp add: sys_setgid_def Let_def split: if_splits)
  next
    case (setegid u r)
    then consider "k' = k" | "k' = upd_proc p (\<lambda>q. q\<lparr>egid := gid q\<rparr>) k"
      using ek cp by (auto simp: sys_setegid_def Let_def split: if_splits)
    then show ?thesis
    proof cases
      case 2
      then show ?thesis using C uk setegid(1) unfolding confined_def same_creds_def by simp
    qed (use C setegid in simp)
  next
    case (setsid r)
    then show ?thesis using C by (auto simp: cp sys_setsid_def Let_def same_creds_def intro!: upd split: if_splits)
  next
    case (setpgid i g r)
    then show ?thesis using C
      by (auto simp: sys_setpgid_def setpgid_target_def Let_def same_creds_def intro!: upd split: if_splits option.splits)
  next
    case (setgroups n gs r)
    then show ?thesis using C ek cp by (simp add: sys_setgroups_def Let_def split: if_splits)
  next
    case (chown h c f u g r)
    then show ?thesis using C F(1) by (auto simp: sys_chown_def Let_def split: if_splits)
  next
    case (fchown f u g r)
    then show ?thesis using C F(1) by (auto simp: sys_fchown_def split: if_splits)
  next
    case (chmod h c f m r)
    then show ?thesis using C F(2) by (auto simp: sys_chmod_def Let_def split: if_splits)
  next
    case (fchmod f m r)
    then show ?thesis using C F(2) by (auto simp: sys_fchmod_def split: if_splits)
  next
    case (chflags h c f fl r)
    then show ?thesis using C F(3) by (auto simp: sys_chflags_def Let_def split: if_splits)
  next
    case (fchflags f fl r)
    then show ?thesis using C F(3) by (auto simp: sys_fchflags_def split: if_splits)
  qed
qed

lemma confined_refl: "confined p k ns k ns"
  by (simp add: confined_def same_creds_def)

lemma confined_steps:
  assumes "cred_step\<^sup>*\<^sup>* x y" "x = (k, ns)" "y = (k', ns')" "p = current_proc k" "p \<noteq> 0"
    "euid (procs k p) \<noteq> 0" "uid (procs k p) \<noteq> 0"
  shows "confined p k ns k' ns'"
  using assms(1,3)
proof (induction arbitrary: k' ns' rule: rtranclp_induct)
  case base
  then show ?case using assms(2) confined_refl by simp
next
  case (step y z)
  obtain k1 ns1 where y: "y = (k1, ns1)" by (cases y)
  show ?case using confined_step [OF _ step.IH [OF y] assms(4-7)] step.hyps(2) step.prems y by simp
qed

text \<open>
  C22. No sequence of credential, session and ownership calls gives an unprivileged process more rights.
  If neither its real nor its effective user id is 0, then afterwards its real ids and its groups are unchanged, its
  effective ids are the old ones or the real ones (so never 0), no other process has other credentials, no file
  has another owner, group or type, and only the mode and flags of files owned by those ids may differ.
\<close>

theorem cred_no_escalation:
  assumes "cred_step\<^sup>*\<^sup>* (k, ns) (k', ns')" "p = current_proc k" "p \<noteq> 0"
    "euid (procs k p) \<noteq> 0" "uid (procs k p) \<noteq> 0"
  shows "confined p k ns k' ns' \<and> euid (procs k' p) \<noteq> 0"
proof -
  have "confined p k ns k' ns'" using confined_steps [OF assms(1) refl refl assms(2-5)] .
  then show ?thesis using assms(4,5) unfolding confined_def by auto
qed

text \<open>A process of user 1000 that still has the effective user id 5, and one of its calls.\<close>

definition kernel_user :: kernel where
  "kernel_user = (upd_proc 5 (\<lambda>_. process0\<lparr>pid := 1, uid := 1000, euid := 5\<rparr>) kernel0)
     \<lparr>sch := sched0\<lparr>tasks := (\<lambda>_. (task0 2)\<lparr>proc := 5\<rparr>), current_task := 7\<rparr>\<rparr>"

theorem cred_no_escalation_witness:
  "\<exists>k'. cred_step\<^sup>*\<^sup>* (kernel_user, \<lambda>_. \<lparr>i_flags = 1, i_uid = 0, i_gid = 0, i_mode = 511, i_size = 0\<rparr>)
      (k', \<lambda>_. \<lparr>i_flags = 1, i_uid = 0, i_gid = 0, i_mode = 511, i_size = 0\<rparr>) \<and>
    euid (procs k' 5) = 1000 \<and> euid (procs k' 5) \<noteq> 0"
proof -
  let ?ns = "\<lambda>_. \<lparr>i_flags = 1, i_uid = 0, i_gid = 0, i_mode = 511, i_size = 0\<rparr>"
  have cp: "current_proc kernel_user = 5" by (simp add: current_proc_def kernel_user_def)
  have u: "uid (procs kernel_user 5) = 1000" "euid (procs kernel_user 5) = 5" by (simp_all add: kernel_user_def)
  let ?k = "snd (sys_seteuid 1000 kernel_user)"
  have st: "cred_step\<^sup>*\<^sup>* (kernel_user, ?ns) (?k, ?ns)"
    by (rule r_into_rtranclp) (rule cred_step.seteuid [where r = "fst (sys_seteuid 1000 kernel_user)"], simp)
  have "euid (procs ?k 5) = 1000" by (simp add: sys_seteuid_def cp u Let_def)
  moreover have "euid (procs ?k 5) \<noteq> 0"
    using cred_no_escalation [OF st cp [symmetric]] u by simp
  ultimately show ?thesis using st by blast
qed

end
