(* ===== verification/Sync.thy ===== *)
theory Sync
  imports Sched
begin

section \<open>Semaphores and mutexes\<close>

text \<open>
  A model of \<^verbatim>\<open>kernel/threading/sync.c\<close>. The spin lock of a semaphore makes one pass of its
  loop a step: \<open>sem_wait_pass\<close> and \<open>mutex_acquire_pass\<close> give back True when the loop returns and
  False when the task has gone to sleep, after which it starts the next pass when it runs again. The
  counter keeps its width.
\<close>

record semaphore =
  count :: "32 word"
  sem_wait_list :: nat

record mutex =
  locked :: bool
  mutex_wait_list :: nat

definition sem_init :: "32 word \<Rightarrow> semaphore" where
  "sem_init n = \<lparr>count = n, sem_wait_list = 0\<rparr>"

definition sem_wait_pass :: "semaphore \<Rightarrow> sched \<Rightarrow> bool \<times> semaphore \<times> sched" where
  "sem_wait_pass sem s =
     (if sint (count sem) > 0 then (True, sem\<lparr>count := count sem - 1\<rparr>, s)
      else let (q, s) = sleep_on (sem_wait_list sem) s in (False, sem\<lparr>sem_wait_list := q\<rparr>, s))"

definition sem_signal :: "semaphore \<Rightarrow> sched \<Rightarrow> semaphore \<times> sched" where
  "sem_signal sem s =
     (let sem = sem\<lparr>count := count sem + 1\<rparr>;
          (q, s) = wake_up (sem_wait_list sem) s
      in (sem\<lparr>sem_wait_list := q\<rparr>, s))"

definition mutex_init :: mutex where
  "mutex_init = \<lparr>locked = False, mutex_wait_list = 0\<rparr>"

definition mutex_acquire_pass :: "mutex \<Rightarrow> sched \<Rightarrow> bool \<times> mutex \<times> sched" where
  "mutex_acquire_pass m s =
     (if \<not> locked m then (True, m\<lparr>locked := True\<rparr>, s)
      else let (q, s) = sleep_on (mutex_wait_list m) s in (False, m\<lparr>mutex_wait_list := q\<rparr>, s))"

definition mutex_release :: "mutex \<Rightarrow> sched \<Rightarrow> mutex \<times> sched" where
  "mutex_release m s =
     (let m = m\<lparr>locked := False\<rparr>;
          (q, s) = wake_up (mutex_wait_list m) s
      in (m\<lparr>mutex_wait_list := q\<rparr>, s))"

text \<open>
  The system around one semaphore or mutex. \<open>W\<close> is the set of tasks that a signal has woken and that
  have not started their next pass. The idle task never waits. Holders of the mutex are recorded in
  \<open>H\<close>; only a holder releases it.
\<close>

inductive sem_step :: "nat \<Rightarrow> semaphore \<times> sched \<times> nat set \<Rightarrow> semaphore \<times> sched \<times> nat set \<Rightarrow> bool" for idle where
  wait: "current_task s \<noteq> idle \<Longrightarrow> sem_wait_pass sem s = (b, sem', s') \<Longrightarrow>
    sem_step idle (sem, s, W) (sem', s', W - {current_task s})"
| signal: "sem_signal sem s = (sem', s') \<Longrightarrow>
    sem_step idle (sem, s, W) (sem', s', if sem_wait_list sem = 0 then W else insert (sem_wait_list sem) W)"
| switch: "sem_step idle (sem, s, W) (sem, schedule s, W)"

inductive mutex_step ::
  "nat \<Rightarrow> mutex \<times> sched \<times> nat set \<times> nat set \<Rightarrow> mutex \<times> sched \<times> nat set \<times> nat set \<Rightarrow> bool" for idle where
  acquire: "current_task s \<noteq> idle \<Longrightarrow> mutex_acquire_pass m s = (b, m', s') \<Longrightarrow>
    mutex_step idle (m, s, W, H) (m', s', W - {current_task s}, if b then insert (current_task s) H else H)"
| release: "current_task s \<in> H \<Longrightarrow> mutex_release m s = (m', s') \<Longrightarrow>
    mutex_step idle (m, s, W, H)
      (m', s', if mutex_wait_list m = 0 then W else insert (mutex_wait_list m) W, H - {current_task s})"
| switch: "mutex_step idle (m, s, W, H) (m, schedule s, W, H)"

subsection \<open>The invariant of the scheduler around a wait queue\<close>

definition queued :: "(nat \<Rightarrow> nat list) \<Rightarrow> nat \<Rightarrow> bool" where
  "queued qs t \<longleftrightarrow> (\<exists>p < COUNT. t \<in> set (qs p))"

text \<open>
  \<open>avail\<close> units are free, the tasks waiting are those of the list \<open>wl\<close>. If any task waits, there is
  a woken task on a run queue for every unit.
\<close>

definition wait_inv :: "nat \<Rightarrow> nat \<Rightarrow> nat \<Rightarrow> sched \<Rightarrow> nat set \<Rightarrow> bool" where
  "wait_inv idle avail wl s W \<longleftrightarrow>
     (\<exists>qs ws. wq_rel qs ws wl s \<and> (ws \<noteq> [] \<longrightarrow> avail \<le> card W) \<and> finite W \<and> W \<inter> set ws = {} \<and>
        (\<forall>t \<in> W. queued qs t) \<and> queued qs (current_task s) \<and> idle \<in> set (qs IDLE))"

lemma ex_highest:
  assumes "qs 0 \<noteq> []"
  shows "\<exists>n. highest qs n"
proof -
  let ?A = "{p. p < COUNT \<and> qs p \<noteq> []}"
  have "finite ?A" "0 \<in> ?A" using assms by auto
  then have m: "Max ?A \<in> ?A" "\<And>p. p \<in> ?A \<Longrightarrow> p \<le> Max ?A" using Max_in [of ?A] Max_ge [of ?A] by blast+
  then have "highest qs (Max ?A)" unfolding highest_def using not_le by blast
  then show ?thesis ..
qed

lemma queued_current:
  assumes "highest qs n" "c = hd (qs n)"
  shows "queued qs c"
  using assms by (auto simp: highest_def queued_def)

lemma wait_inv_sleep:
  assumes I: "wait_inv idle 0 wl s W" and ni: "current_task s \<noteq> idle" and e: "sleep_on wl s = (q, s')"
  shows "wait_inv idle 0 q s' (W - {current_task s})"
proof -
  let ?c = "current_task s"
  from I obtain qs ws p where R: "wq_rel qs ws wl s" and W: "finite W" "W \<inter> set ws = {}" "\<forall>t \<in> W. queued qs t"
    and p: "p < COUNT" "?c \<in> set (qs p)" and i: "idle \<in> set (qs 0)"
    unfolding wait_inv_def queued_def by blast
  let ?q = "qs(p := remove1 ?c (qs p))"
  have i': "idle \<in> set (?q 0)" using i ni by (cases "p = 0") auto
  then obtain n where n: "highest ?q n" using ex_highest [of ?q] by fastforce
  note S = sleep_on_rel [OF R refl p n, unfolded e fst_conv snd_conv]
  have "queued ?q t" if t: "t \<in> W - {?c}" for t
  proof -
    obtain r where "r < COUNT" "t \<in> set (qs r)" using t W(3) by (auto simp: queued_def)
    then show ?thesis using t unfolding queued_def by (intro exI [of _ r]) (cases "r = p"; simp)
  qed
  moreover have "queued ?q (current_task s')" using queued_current [OF n S(3)] .
  ultimately show ?thesis unfolding wait_inv_def
    using S(1,2) W i' by (intro exI [of _ ?q] exI [of _ "?c # ws"]) auto
qed

lemma wait_inv_wake:
  assumes I: "wait_inv idle a wl s W" and e: "wake_up wl s = (q, s')" and a: "a' \<le> a + 1"
  shows "wait_inv idle a' q s' (if wl = 0 then W else insert wl W)"
proof -
  from I obtain qs ws where R: "wq_rel qs ws wl s" and W: "finite W" "W \<inter> set ws = {}" "\<forall>t \<in> W. queued qs t"
    and c: "queued qs (current_task s)" and i: "idle \<in> set (qs 0)" and av: "ws \<noteq> [] \<longrightarrow> a \<le> card W"
    unfolding wait_inv_def by blast
  show ?thesis
  proof (cases ws)
    case Nil
    then have "wl = 0" using wq_relD(2) [OF R] by simp
    then have "q = 0" "s' = s" using e by (simp_all add: wake_up_def)
    then show ?thesis using R W c i Nil \<open>wl = 0\<close> unfolding wait_inv_def
      by (intro exI [of _ qs] exI [of _ "[]"]) auto
  next
    case (Cons t ws')
    have wl: "wl = t" "t \<noteq> 0" using wq_relD(2) [OF R] Cons by auto
    define p where "p = priority (tasks s t)"
    let ?q = "qs(p := qs p @ [t])"
    note K = wake_up_rel [OF R [unfolded Cons] p_def, unfolded e fst_conv snd_conv]
    have pc: "p < COUNT" using wq_relD(6) [OF R, of t] Cons p_def by simp
    have mono: "queued ?q x" if "queued qs x" for x
      using that unfolding queued_def by (auto split: if_splits)
    have "queued ?q t" using pc unfolding queued_def by (intro exI [of _ p]) simp
    moreover have "current_task s' = current_task s" using e wl by (auto simp: wake_up_def Let_def)
    moreover have "t \<notin> W" "t \<notin> set ws'" using W(2) Cons wq_relD(3) [OF R] by auto
    moreover have "ws' \<noteq> [] \<longrightarrow> a' \<le> card (insert t W)"
      using av a W(1) \<open>t \<notin> W\<close> Cons by simp
    ultimately show ?thesis unfolding wait_inv_def
      using K(1) W c i wl mono Cons by (intro exI [of _ ?q] exI [of _ ws']) auto
  qed
qed


lemma schedule_any:
  assumes ok: "rq_ok qs s" and c: "queued qs (current_task s)" and n: "qs 0 \<noteq> []"
  obtains qs' where "rq_ok qs' (schedule s)" "\<And>p. set (qs' p) = set (qs p)" "queued qs' (current_task (schedule s))"
proof -
  from c obtain p where p: "p < COUNT" "current_task s \<in> set (qs p)" by (auto simp: queued_def)
  have pr: "priority (tasks s (current_task s)) = p" using rq_okD(2) [OF ok p(1)] p(2) by simp
  define r where "r = (if current_task s \<noteq> 0 \<and> state (tasks s (current_task s)) = TASK_RUNNING
    then rotate_queue (priority (tasks s (current_task s))) s else s)"
  define qs' where "qs' = (if current_task s \<noteq> 0 \<and> state (tasks s (current_task s)) = TASK_RUNNING
    then qs(p := rotate1 (qs p)) else qs)"
  have okr: "rq_ok qs' r" using ok rotate_ok [OF ok p(1)] by (simp add: r_def qs'_def pr)
  have sets: "set (qs' q) = set (qs q)" for q by (simp add: qs'_def)
  have "qs' 0 \<noteq> []" using n sets [of 0] by (metis set_empty)
  then obtain m where m: "highest qs' m" using ex_highest by blast
  have e: "schedule s = (if pick r \<noteq> current_task s
      then (if state (tasks s (pick r)) = TASK_READY
            then upd_task (pick r) (\<lambda>k. k\<lparr>state := TASK_RUNNING\<rparr>) (r\<lparr>current_task := pick r\<rparr>)
            else r\<lparr>current_task := pick r\<rparr>)
      else r)"
    unfolding schedule_eq r_def [symmetric] by (simp add: Let_def)
  have "current_task r = current_task s" by (simp add: r_def)
  then have "current_task (schedule s) = hd (qs' m)" using pick_highest(1) [OF okr m] unfolding e by auto
  then have "queued qs' (current_task (schedule s))" by (rule queued_current [OF m])
  moreover have "rq_ok qs' (schedule s)" using okr rq_ok_cong [of "schedule s" r qs'] unfolding e by simp
  ultimately show thesis using that sets by blast
qed

lemma wait_inv_schedule:
  assumes "wait_inv idle a wl s W"
  shows "wait_inv idle a wl (schedule s) W"
proof -
  from assms obtain qs ws where R: "wq_rel qs ws wl s" and W: "finite W" "W \<inter> set ws = {}" "\<forall>t \<in> W. queued qs t"
    and c: "queued qs (current_task s)" and i: "idle \<in> set (qs 0)" and av: "ws \<noteq> [] \<longrightarrow> a \<le> card W"
    unfolding wait_inv_def by blast
  have n: "qs 0 \<noteq> []" using i by auto
  obtain qs' where q: "rq_ok qs' (schedule s)" "\<And>p. set (qs' p) = set (qs p)" "queued qs' (current_task (schedule s))"
    using schedule_any [OF wq_relD(1) [OF R] c n] by blast
  have "wlist (nw (schedule s)) wl ws" using wq_relD(2) [OF R] by (simp add: schedule_fields)
  moreover have "state (tasks (schedule s) t) = TASK_BLOCKED" if "t \<in> set ws" for t
    using wq_relD(4) [OF R that] by (simp add: schedule_fields)
  ultimately have "wq_rel qs' ws wl (schedule s)"
    unfolding wq_rel_def using q(1,2) wq_relD [OF R] by (simp add: schedule_fields(3))
  moreover have "queued qs' t = queued qs t" for t using q(2) by (simp add: queued_def)
  ultimately show ?thesis unfolding wait_inv_def using W c i av q
    by (intro exI [of _ qs'] exI [of _ ws]) auto
qed

subsection \<open>The contract of a blocking resource\<close>

text \<open>
  Semaphores and mutexes keep a number of free units and a wait list. A pass takes a unit or sleeps, a
  release adds at most one unit and wakes one task. That no wake-up is lost follows for both.
\<close>

locale wait_resource =
  fixes avail :: "'r \<Rightarrow> nat"
    and wl :: "'r \<Rightarrow> nat"
    and pass :: "'r \<Rightarrow> sched \<Rightarrow> bool \<times> 'r \<times> sched"
    and give :: "'r \<Rightarrow> sched \<Rightarrow> 'r \<times> sched"
  assumes pass_take: "avail r > 0 \<Longrightarrow> pass r s = (b, r', s') \<Longrightarrow>
      b \<and> s' = s \<and> avail r' + 1 = avail r \<and> wl r' = wl r"
    and pass_block: "avail r = 0 \<Longrightarrow> pass r s = (b, r', s') \<Longrightarrow>
      \<not> b \<and> avail r' = 0 \<and> sleep_on (wl r) s = (wl r', s')"
    and give_wake: "give r s = (r', s') \<Longrightarrow> avail r' \<le> avail r + 1 \<and> wake_up (wl r) s = (wl r', s')"
begin

lemma pass_inv:
  assumes I: "wait_inv idle (avail r) (wl r) s W" and ni: "current_task s \<noteq> idle" and e: "pass r s = (b, r', s')"
  shows "wait_inv idle (avail r') (wl r') s' (W - {current_task s})"
proof (cases "avail r = 0")
  case True
  then show ?thesis using wait_inv_sleep [OF _ ni, of "wl r" W "wl r'" s'] I pass_block [OF True e] by simp
next
  case False
  then have t: "s' = s" "avail r' + 1 = avail r" "wl r' = wl r" using pass_take [OF _ e] by auto
  from I obtain qs ws where R: "wq_rel qs ws (wl r) s" and W: "finite W" "W \<inter> set ws = {}" "\<forall>t \<in> W. queued qs t"
    and c: "queued qs (current_task s)" and i: "idle \<in> set (qs 0)" and av: "ws \<noteq> [] \<longrightarrow> avail r \<le> card W"
    unfolding wait_inv_def by blast
  have "ws \<noteq> [] \<longrightarrow> avail r' \<le> card (W - {current_task s})"
    using av t(2) W(1) by (cases "current_task s \<in> W") (auto simp: card_Diff_singleton)
  then show ?thesis unfolding wait_inv_def t(1,3) using R W c i by (intro exI [of _ qs] exI [of _ ws]) auto
qed

lemma give_inv:
  assumes "wait_inv idle (avail r) (wl r) s W" "give r s = (r', s')"
  shows "wait_inv idle (avail r') (wl r') s' (if wl r = 0 then W else insert (wl r) W)"
  using wait_inv_wake [OF assms(1)] give_wake [OF assms(2)] by blast

end

definition sem_avail :: "semaphore \<Rightarrow> nat" where
  "sem_avail sem = nat (sint (count sem))"

definition mutex_avail :: "mutex \<Rightarrow> nat" where
  "mutex_avail m = (if locked m then 0 else 1)"

lemma sint_minus1: "0 < sint (w :: 32 word) \<Longrightarrow> sint (w - 1) = sint w - 1"
  using sint_lt [of w] by (simp add: sint_word_ariths(2) signed_take_bit_int_eq_self)

lemma sint_plus1: "sint (w + 1 :: 32 word) = sint w + 1 \<or> sint (w + 1) = - (2 ^ 31)"
proof (cases "sint w + 1 < 2 ^ 31")
  case True
  then show ?thesis using sint_ge [of w] by (simp add: sint_word_ariths(1) signed_take_bit_int_eq_self)
next
  case False
  then have "sint w = 2 ^ 31 - 1" using sint_lt [of w] by simp
  then show ?thesis by (simp add: sint_word_ariths(1) signed_take_bit_int_greater_eq)
qed

interpretation sr: wait_resource sem_avail sem_wait_list sem_wait_pass sem_signal
proof (unfold_locales, goal_cases)
  case (1 r s b r' s')
  then show ?case using sint_minus1 [of "count r"] by (auto simp: sem_wait_pass_def sem_avail_def)
next
  case (2 r s b r' s')
  then show ?case by (auto simp: sem_wait_pass_def sem_avail_def split: prod.splits if_splits)
next
  case (3 r s r' s')
  then show ?case using sint_plus1 [of "count r"] by (auto simp: sem_signal_def sem_avail_def split: prod.splits)
qed

interpretation mr: wait_resource mutex_avail mutex_wait_list mutex_acquire_pass mutex_release
  by unfold_locales
    (auto simp: mutex_acquire_pass_def mutex_release_def mutex_avail_def Let_def split: prod.splits if_splits)

subsection \<open>No lost wake-up\<close>

lemma sem_step_inv:
  assumes "sem_step idle (sem, s, W) (sem', s', W')" "wait_inv idle (sem_avail sem) (sem_wait_list sem) s W"
  shows "wait_inv idle (sem_avail sem') (sem_wait_list sem') s' W'"
  using assms(1)
proof cases
  case (wait b)
  then show ?thesis using sr.pass_inv [OF assms(2)] by blast
next
  case signal
  then show ?thesis using sr.give_inv [OF assms(2)] by blast
next
  case switch
  then show ?thesis using wait_inv_schedule [OF assms(2)] by blast
qed

definition mutex_inv :: "nat \<Rightarrow> mutex \<Rightarrow> sched \<Rightarrow> nat set \<Rightarrow> nat set \<Rightarrow> bool" where
  "mutex_inv idle m s W H \<longleftrightarrow> wait_inv idle (mutex_avail m) (mutex_wait_list m) s W \<and>
     (if locked m then \<exists>t. H = {t} else H = {})"

lemma mutex_step_inv:
  assumes st: "mutex_step idle (m, s, W, H) (m', s', W', H')" and I: "mutex_inv idle m s W H"
  shows "mutex_inv idle m' s' W' H'"
proof -
  have w: "wait_inv idle (mutex_avail m) (mutex_wait_list m) s W" and h: "if locked m then \<exists>t. H = {t} else H = {}"
    using I by (simp_all add: mutex_inv_def)
  from st show ?thesis
  proof cases
    case (acquire b)
    have "if locked m' then \<exists>t. H' = {t} else H' = {}"
      using acquire h by (auto simp: mutex_acquire_pass_def split: if_splits prod.splits)
    moreover have "wait_inv idle (mutex_avail m') (mutex_wait_list m') s' W'" using mr.pass_inv [OF w] acquire by simp
    ultimately show ?thesis by (simp only: mutex_inv_def)
  next
    case release
    have "\<not> locked m'" "H' = {}" using release h by (auto simp: mutex_release_def Let_def split: if_splits prod.splits)
    then show ?thesis using mr.give_inv [OF w] release by (simp add: mutex_inv_def)
  next
    case switch
    then show ?thesis using wait_inv_schedule [OF w] h by (simp add: mutex_inv_def)
  qed
qed

lemma mutex_reachable_inv:
  assumes "(mutex_step idle)\<^sup>*\<^sup>* x y" "x = (m0, s0, W0, H0)" "mutex_inv idle m0 s0 W0 H0" "y = (m, s, W, H)"
  shows "mutex_inv idle m s W H"
  using assms
proof (induction arbitrary: m s W H rule: rtranclp_induct)
  case (step y z)
  obtain m1 s1 W1 H1 where y: "y = (m1, s1, W1, H1)" by (cases y)
  have "mutex_step idle (m1, s1, W1, H1) (m, s, W, H)" using step.hyps(2) step.prems(3) y by simp
  moreover have "mutex_inv idle m1 s1 W1 H1" using step.IH [OF step.prems(1,2) y] .
  ultimately show ?case by (rule mutex_step_inv)
qed simp

text \<open>
  C18. A mutex is held by at most one task, and no wake-up is lost. In every state reachable from a free
  mutex without waiters, in any interleaving of acquire passes, releases and context switches: at most one
  task holds the mutex, it is held exactly when it is marked locked, and if it is free while tasks wait, then some
  task that a release has woken is on a run queue, about to try again.
\<close>

theorem mutex_exclusive_no_lost_wakeup:
  assumes "(mutex_step idle)\<^sup>*\<^sup>* (mutex_init, s0, {}, {}) (m, s, W, H)"
    "rq_ok qs0 s0" "idle \<in> set (qs0 IDLE)" "queued qs0 (current_task s0)"
  shows "(locked m \<longleftrightarrow> H \<noteq> {}) \<and> card H \<le> 1 \<and>
    (\<exists>qs. rq_ok qs s \<and> (\<not> locked m \<and> mutex_wait_list m \<noteq> 0 \<longrightarrow> (\<exists>t \<in> W. queued qs t)))"
proof -
  have "wq_rel qs0 [] 0 s0" using assms(2) by (simp add: wq_rel_def)
  then have "mutex_inv idle mutex_init s0 {} {}"
    unfolding mutex_inv_def wait_inv_def mutex_init_def using assms(3,4) by fastforce
  from mutex_reachable_inv [OF assms(1) refl this refl]
  have h: "if locked m then \<exists>t. H = {t} else H = {}" and w: "wait_inv idle (mutex_avail m) (mutex_wait_list m) s W"
    by (simp_all add: mutex_inv_def)
  from w obtain qs ws where q: "wq_rel qs ws (mutex_wait_list m) s" "ws \<noteq> [] \<longrightarrow> mutex_avail m \<le> card W"
    "\<forall>t \<in> W. queued qs t" unfolding wait_inv_def by blast
  have "\<exists>t \<in> W. queued qs t" if "\<not> locked m" "mutex_wait_list m \<noteq> 0"
  proof -
    have "ws \<noteq> []" using that(2) wq_relD(2) [OF q(1)] by auto
    then have "card W \<noteq> 0" using q(2) that(1) by (simp add: mutex_avail_def)
    then have "W \<noteq> {}" by auto
    then show ?thesis using q(3) by blast
  qed
  then show ?thesis using h wq_relD(1) [OF q(1)] by (auto split: if_splits)
qed

text \<open>Task 7 acquires the mutex, is preempted, and task 8 goes to sleep on it.\<close>

definition sched4 :: sched where
  "sched4 = schedule (task_create 8 True 2 0 (task_create 7 True 2 0 (task_create 1 True 0 0 sched0)))"

text \<open>The idle task 1 and two tasks, the first of which runs.\<close>

lemma sched4_ok:
  "rq_ok ((\<lambda>_. [])(0 := [1], 2 := [7, 8])) sched4" "current_task sched4 = 7"
proof -
  let ?q = "(\<lambda>_. [])(0 := [1], 2 := [7, 8])"
  let ?s = "task_create 8 True 2 0 (task_create 7 True 2 0 (task_create 1 True 0 0 sched0))"
  have "rq_ok ((\<lambda>_. [])(0 := [1])) (task_create 1 True 0 0 sched0)"
    using task_create_ok [OF sched0_ok, of 1 0 0 0] by simp
  from task_create_ok [OF this, of 7 2 2 0]
  have "rq_ok ((\<lambda>_. [])(0 := [1], 2 := [7])) (task_create 7 True 2 0 (task_create 1 True 0 0 sched0))" by simp
  from task_create_ok [OF this, of 8 2 2 0] have ok: "rq_ok ?q ?s" by simp
  have h: "highest ?q 2" by (simp add: highest_def)
  have "current_task ?s = 0" by (simp add: task_create_fields sched0_def)
  then show "rq_ok ?q sched4" "current_task sched4 = 7"
    unfolding sched4_def using schedule_switch(1,2) [OF ok h] by simp_all
qed

theorem mutex_exclusive_no_lost_wakeup_witness:
  "\<exists>m s W H. (mutex_step 1)\<^sup>*\<^sup>* (mutex_init, sched4, {}, {}) (m, s, W, H) \<and> locked m \<and> H \<noteq> {} \<and> card H \<le> 1"
proof -
  have st: "mutex_step 1 (mutex_init, sched4, {}, {}) (\<lparr>locked = True, mutex_wait_list = 0\<rparr>, sched4, {}, {7})"
    using mutex_step.acquire [of sched4 1 mutex_init True "\<lparr>locked = True, mutex_wait_list = 0\<rparr>" sched4 "{}" "{}"]
      sched4_ok(2) by (simp add: mutex_acquire_pass_def mutex_init_def)
  have "queued ((\<lambda>_. [])(0 := [1], 2 := [7, 8])) (current_task sched4)"
    using sched4_ok(2) by (auto simp: queued_def intro: exI [of _ 2])
  from mutex_exclusive_no_lost_wakeup [OF r_into_rtranclp [of "mutex_step 1", OF st] sched4_ok(1) _ this]
  have "card {7 :: nat} \<le> 1" by simp
  then show ?thesis using r_into_rtranclp [of "mutex_step 1", OF st] by fastforce
qed

text \<open>The same for a semaphore: a free unit and a waiting task imply a woken task on a run queue.\<close>

lemma sem_no_lost_wakeup:
  assumes "(sem_step idle)\<^sup>*\<^sup>* x y" "x = (sem_init n, s0, {})" "y = (sem, s, W)"
    "rq_ok qs0 s0" "idle \<in> set (qs0 IDLE)" "queued qs0 (current_task s0)"
  shows "\<exists>qs. rq_ok qs s \<and> (0 < sem_avail sem \<and> sem_wait_list sem \<noteq> 0 \<longrightarrow> (\<exists>t \<in> W. queued qs t))"
proof -
  have "wq_rel qs0 [] 0 s0" using assms(4) by (simp add: wq_rel_def)
  then have I: "wait_inv idle (sem_avail (sem_init n)) (sem_wait_list (sem_init n)) s0 {}"
    unfolding wait_inv_def sem_init_def using assms(5,6) by fastforce
  have "wait_inv idle (sem_avail sem) (sem_wait_list sem) s W"
    using assms(1-3)
  proof (induction arbitrary: sem s W rule: rtranclp_induct)
    case base
    then show ?case using I by simp
  next
    case (step y z)
    obtain sem1 s1 W1 where y: "y = (sem1, s1, W1)" by (cases y)
    have "sem_step idle (sem1, s1, W1) (sem, s, W)" using step.hyps(2) step.prems(2) y by simp
    moreover have "wait_inv idle (sem_avail sem1) (sem_wait_list sem1) s1 W1" using step.IH [OF step.prems(1) y] .
    ultimately show ?case by (rule sem_step_inv)
  qed
  then obtain qs ws where q: "wq_rel qs ws (sem_wait_list sem) s" "ws \<noteq> [] \<longrightarrow> sem_avail sem \<le> card W"
    "\<forall>t \<in> W. queued qs t" unfolding wait_inv_def by blast
  have "\<exists>t \<in> W. queued qs t" if "0 < sem_avail sem" "sem_wait_list sem \<noteq> 0"
  proof -
    have "ws \<noteq> []" using that(2) wq_relD(2) [OF q(1)] by auto
    then have "card W \<noteq> 0" using q(2) that(1) by simp
    then have "W \<noteq> {}" by auto
    then show ?thesis using q(3) by blast
  qed
  then show ?thesis using wq_relD(1) [OF q(1)] by (intro exI [of _ qs]) simp
qed

end
