(* ===== verification/Ring.thy ===== *)
theory Ring
  imports Prelude
begin

section \<open>Ring buffers\<close>

text \<open>
  Pipes and terminals keep their bytes in an array of a fixed size that they use as a ring. The locale
  \<open>ring_buffer\<close> states what both rely on: for a ring of \<open>cap\<close> cells the bytes stored are the
  list \<open>ring_list\<close>, storing behind the last one appends to it and reading the first one takes its head.
\<close>

definition ring_list :: "nat \<Rightarrow> 'a list \<Rightarrow> nat \<Rightarrow> nat \<Rightarrow> 'a list" where
  "ring_list cap buf rp n = map (\<lambda>i. buf ! ((rp + i) mod cap)) [0..<n]"

lemma length_ring_list [simp]: "length (ring_list cap buf rp n) = n"
  by (simp add: ring_list_def)

locale ring_buffer =
  fixes cap :: nat
  assumes cap_pos: "0 < cap"
begin

lemma put_list:
  assumes "length buf = cap" "n < cap"
  shows "ring_list cap (buf[(rp + n) mod cap := b]) rp (Suc n) = ring_list cap buf rp n @ [b]"
proof -
  have "(rp + i) mod cap \<noteq> (rp + n) mod cap" if "i < n" for i
  proof
    assume "(rp + i) mod cap = (rp + n) mod cap"
    then have "cap dvd n - i" using mod_eq_dvd_iff_nat [of "rp + i" "rp + n" cap] that by simp
    then show False using that assms(2) nat_dvd_not_less [of "n - i" cap] by simp
  qed
  then have "buf[(rp + n) mod cap := b] ! ((rp + i) mod cap) = buf ! ((rp + i) mod cap)" if "i < n" for i
    using that by (intro nth_list_update_neq) metis
  then show ?thesis using assms cap_pos by (simp add: ring_list_def)
qed

lemma get_list:
  assumes "rp < cap" "0 < n"
  shows "ring_list cap buf rp n = buf ! rp # ring_list cap buf ((rp + 1) mod cap) (n - 1)"
proof -
  have "((rp + 1) mod cap + i) mod cap = (rp + Suc i) mod cap" for i
    by (metis add_Suc_right add.commute mod_add_left_eq plus_1_eq_Suc add.assoc)
  moreover have "[0..<n] = 0 # map Suc [0..<n - 1]" using assms(2) by (cases n) (simp_all add: map_Suc_upt upt_conv_Cons del: upt_Suc)
  ultimately show ?thesis using assms(1) by (simp add: ring_list_def o_def)
qed

lemma next_end: "((rp + n) mod cap + 1) mod cap = (rp + Suc n) mod cap"
  by (simp add: mod_Suc_eq)

lemma end_after_get: "0 < n \<Longrightarrow> ((rp + 1) mod cap + (n - 1)) mod cap = (rp + n) mod cap"
  by (cases n) (simp_all add: mod_Suc_eq mod_add_left_eq [of "rp + 1", simplified])

end

interpretation ring4096: ring_buffer 4096
  by unfold_locales simp

end
