(* ===== verification/Pipe.thy ===== *)
theory Pipe
  imports Sync Ring
begin

section \<open>Pipes\<close>

text \<open>
  A model of \<^verbatim>\<open>kernel/syscalls/pipe.c\<close>. The mutex of a pipe makes what happens between
  taking and releasing it one step, so each pass of the loops in \<open>pipe_read\<close> and \<open>pipe_write\<close> is a
  definition; between a pass that finds nothing to do and the following \<open>sleep_on\<close> the mutex is free.
  Positions and the byte count keep their 64 bits, the end counters their 32.
\<close>

abbreviation (input) PIPE_BUF_SIZE :: u64 where "PIPE_BUF_SIZE \<equiv> 4096"

record pipe =
  buffer :: "u8 list"
  read_pos :: u64
  write_pos :: u64
  p_count :: u64
  readers :: "32 word"
  writers :: "32 word"
  read_wait :: nat
  write_wait :: nat

text \<open>A pass puts the caller to sleep, or ends the call with its result.\<close>

datatype 'a pass = Sleep | Return 'a

fun pipe_copy_out :: "nat \<Rightarrow> pipe \<Rightarrow> u8 list \<times> pipe" where
  "pipe_copy_out 0 p = ([], p)"
| "pipe_copy_out (Suc n) p =
     (let b = buffer p ! unat (read_pos p);
          p = p\<lparr>read_pos := (read_pos p + 1) mod PIPE_BUF_SIZE\<rparr>;
          (bs, p) = pipe_copy_out n p
      in (b # bs, p))"

fun pipe_copy_in :: "u8 list \<Rightarrow> pipe \<Rightarrow> pipe" where
  "pipe_copy_in [] p = p"
| "pipe_copy_in (b # bs) p =
     pipe_copy_in bs (p\<lparr>buffer := (buffer p)[unat (write_pos p) := b],
                        write_pos := (write_pos p + 1) mod PIPE_BUF_SIZE\<rparr>)"

definition pipe_read_pass :: "u64 \<Rightarrow> pipe \<Rightarrow> sched \<Rightarrow> u8 list pass \<times> pipe \<times> sched" where
  "pipe_read_pass sz p s =
     (if p_count p = 0 \<and> sint (writers p) > 0 then (Sleep, p, s)
      else if p_count p = 0 \<and> writers p = 0 then (Return [], p, s)
      else let to_read = (if sz > p_count p then p_count p else sz);
               (bs, p) = pipe_copy_out (unat to_read) p;
               p = p\<lparr>p_count := p_count p - to_read\<rparr>;
               (q, s) = wake_up (write_wait p) s
           in (Return bs, p\<lparr>write_wait := q\<rparr>, s))"

definition pipe_read_sleep :: "pipe \<Rightarrow> sched \<Rightarrow> pipe \<times> sched" where
  "pipe_read_sleep p s = (let (q, s) = sleep_on (read_wait p) s in (p\<lparr>read_wait := q\<rparr>, s))"

text \<open>
  The result of a write pass is the number of bytes written, or None when there is no reader, in which case
  the caller gets SIGPIPE and \<open>-1\<close>. The test before the loop and the test after a sleep are the same.
\<close>

definition pipe_write_pass :: "u8 list \<Rightarrow> pipe \<Rightarrow> sched \<Rightarrow> u64 option pass \<times> pipe \<times> sched" where
  "pipe_write_pass bs p s =
     (if readers p = 0 then (Return None, p, s)
      else if p_count p = PIPE_BUF_SIZE \<and> sint (readers p) > 0 then (Sleep, p, s)
      else let available = PIPE_BUF_SIZE - p_count p
           in if available = 0 then (Return (Some 0), p, s)
              else let to_write = (if word_of_nat (length bs) > available then available else word_of_nat (length bs));
                       p = pipe_copy_in (take (unat to_write) bs) p;
                       p = p\<lparr>p_count := p_count p + to_write\<rparr>;
                       (q, s) = wake_up (read_wait p) s
                   in (Return (Some to_write), p\<lparr>read_wait := q\<rparr>, s))"

definition pipe_write_sleep :: "pipe \<Rightarrow> sched \<Rightarrow> pipe \<times> sched" where
  "pipe_write_sleep p s = (let (q, s) = sleep_on (write_wait p) s in (p\<lparr>write_wait := q\<rparr>, s))"

text \<open>Closing an end; the flag tells that the pipe is freed.\<close>

definition pipe_close_read :: "pipe \<Rightarrow> sched \<Rightarrow> bool \<times> pipe \<times> sched" where
  "pipe_close_read p s =
     (let p = p\<lparr>readers := readers p - 1\<rparr>;
          (q, s) = wake_up (write_wait p) s;
          p = p\<lparr>write_wait := q\<rparr>
      in (sint (readers p) \<le> 0 \<and> sint (writers p) \<le> 0, p, s))"

definition pipe_close_write :: "pipe \<Rightarrow> sched \<Rightarrow> bool \<times> pipe \<times> sched" where
  "pipe_close_write p s =
     (let p = p\<lparr>writers := writers p - 1\<rparr>;
          (q, s) = wake_up (read_wait p) s;
          p = p\<lparr>read_wait := q\<rparr>
      in (sint (readers p) \<le> 0 \<and> sint (writers p) \<le> 0, p, s))"

definition pipe_new :: pipe where
  "pipe_new = \<lparr>buffer = replicate 4096 0, read_pos = 0, write_pos = 0, p_count = 0, readers = 1, writers = 1,
     read_wait = 0, write_wait = 0\<rparr>"

subsection \<open>The bytes in a pipe\<close>

definition pipe_ok :: "pipe \<Rightarrow> bool" where
  "pipe_ok p \<longleftrightarrow> length (buffer p) = 4096 \<and> read_pos p < PIPE_BUF_SIZE \<and> p_count p \<le> PIPE_BUF_SIZE \<and>
     unat (write_pos p) = (unat (read_pos p) + unat (p_count p)) mod 4096"

definition pipe_bytes :: "pipe \<Rightarrow> u8 list" where
  "pipe_bytes p = ring_list 4096 (buffer p) (unat (read_pos p)) (unat (p_count p))"

lemma unat_succ_mod: "w < 4096 \<Longrightarrow> unat ((w + 1) mod 4096 :: u64) = (unat w + 1) mod 4096"
  by (simp add: unat_mod unat_add_no_overflow word_less_nat_alt)

lemma copy_out:
  assumes "unat (read_pos p) < 4096" "n \<le> m"
  shows "let (bs, p') = pipe_copy_out n p in
    bs = take n (ring_list 4096 (buffer p) (unat (read_pos p)) m) \<and>
    p' = p\<lparr>read_pos := read_pos p'\<rparr> \<and> unat (read_pos p') = (unat (read_pos p) + n) mod 4096 \<and>
    ring_list 4096 (buffer p) (unat (read_pos p')) (m - n) =
      drop n (ring_list 4096 (buffer p) (unat (read_pos p)) m)"
  using assms
proof (induction n arbitrary: p m)
  case (Suc n)
  let ?p = "p\<lparr>read_pos := (read_pos p + 1) mod PIPE_BUF_SIZE\<rparr>"
  obtain bs p' where e: "pipe_copy_out n ?p = (bs, p')" by fastforce
  have r: "unat (read_pos ?p) = (unat (read_pos p) + 1) mod 4096"
    using Suc.prems(1) by (simp add: unat_succ_mod word_less_nat_alt)
  have l: "ring_list 4096 (buffer p) (unat (read_pos p)) m =
      buffer p ! unat (read_pos p) # ring_list 4096 (buffer p) (unat (read_pos ?p)) (m - 1)"
    using ring4096.get_list [OF Suc.prems(1), of m "buffer p"] Suc.prems(2) unfolding r by simp
  have "unat (read_pos ?p) < 4096" "n \<le> m - 1" using r Suc.prems(2) by simp_all
  have b: "buffer ?p = buffer p" by simp
  note I = Suc.IH [OF \<open>unat (read_pos ?p) < 4096\<close> \<open>n \<le> m - 1\<close>, unfolded e Let_def prod.case]
  have IH: "bs = take n (ring_list 4096 (buffer p) (unat (read_pos ?p)) (m - 1))"
    "p' = ?p\<lparr>read_pos := read_pos p'\<rparr>" "unat (read_pos p') = (unat (read_pos ?p) + n) mod 4096"
    "ring_list 4096 (buffer p) (unat (read_pos p')) (m - 1 - n) =
      drop n (ring_list 4096 (buffer p) (unat (read_pos ?p)) (m - 1))"
    using I [unfolded b] by blast+
  have "unat (read_pos p') = (unat (read_pos p) + Suc n) mod 4096"
    using IH(3) r by (simp add: mod_Suc_eq mod_add_left_eq [of "unat (read_pos p) + 1", simplified])
  then show ?case using IH(1,2,4) l e by (simp add: Let_def)
qed simp

lemma copy_in:
  assumes "length (buffer p) = 4096" "unat (write_pos p) = (rp + m) mod 4096" "m + length bs \<le> 4096"
  shows "let p' = pipe_copy_in bs p in
    p' = p\<lparr>buffer := buffer p', write_pos := write_pos p'\<rparr> \<and> length (buffer p') = 4096 \<and>
    unat (write_pos p') = (rp + m + length bs) mod 4096 \<and>
    ring_list 4096 (buffer p') rp (m + length bs) = ring_list 4096 (buffer p) rp m @ bs"
  using assms
proof (induction bs arbitrary: p m)
  case (Cons b bs)
  let ?p = "p\<lparr>buffer := (buffer p)[unat (write_pos p) := b], write_pos := (write_pos p + 1) mod PIPE_BUF_SIZE\<rparr>"
  have "write_pos p < 4096" using Cons.prems(2) by (simp add: word_less_nat_alt)
  then have w: "unat (write_pos ?p) = (rp + Suc m) mod 4096"
    using Cons.prems(2) by (simp add: unat_succ_mod mod_Suc_eq)
  have "ring_list 4096 (buffer ?p) rp (Suc m) = ring_list 4096 (buffer p) rp m @ [b]"
    using ring4096.put_list [OF Cons.prems(1), of m rp b] Cons.prems(2,3) by simp
  then show ?case using Cons.IH [of ?p "Suc m"] Cons.prems w by (simp add: Let_def)
qed simp

lemma copy_in_count: "p_count (pipe_copy_in bs p) = p_count p \<and> read_pos (pipe_copy_in bs p) = read_pos p \<and>
   read_wait (pipe_copy_in bs p) = read_wait p"
  by (induction bs arbitrary: p) auto

lemma pipe_okD:
  assumes "pipe_ok p"
  shows "length (buffer p) = 4096" "unat (read_pos p) < 4096" "unat (p_count p) \<le> 4096"
    "unat (write_pos p) = (unat (read_pos p) + unat (p_count p)) mod 4096"
    "unat (PIPE_BUF_SIZE - p_count p) = 4096 - unat (p_count p)"
  using assms by (auto simp: pipe_ok_def word_less_nat_alt word_le_nat_alt unat_sub_le)

lemma pipe_write_fifo:
  assumes "pipe_ok p"
  shows "case pipe_write_pass bs p s of
      (Return (Some n), p', s') \<Rightarrow> length bs < 2 ^ 64 \<longrightarrow>
        pipe_ok p' \<and> unat n = min (length bs) (4096 - length (pipe_bytes p)) \<and>
        pipe_bytes p' = pipe_bytes p @ take (unat n) bs
    | (Return None, p', s') \<Rightarrow> readers p = 0 \<and> p' = p \<and> s' = s
    | (Sleep, p', s') \<Rightarrow> p' = p \<and> s' = s \<and> length (pipe_bytes p) = 4096"
proof (cases "readers p = 0 \<or> p_count p = PIPE_BUF_SIZE")
  case True
  then show ?thesis using assms by (auto simp: pipe_write_pass_def pipe_bytes_def)
next
  case False
  define w where "w = (if word_of_nat (length bs) > PIPE_BUF_SIZE - p_count p then PIPE_BUF_SIZE - p_count p
    else word_of_nat (length bs))"
  define p1 where "p1 = pipe_copy_in (take (unat w) bs) p"
  obtain q s' where q: "wake_up (read_wait p1) s = (q, s')" by fastforce
  have e: "pipe_write_pass bs p s = (Return (Some w), p1\<lparr>p_count := p_count p1 + w, read_wait := q\<rparr>, s')"
    using False q by (simp add: pipe_write_pass_def w_def p1_def Let_def)
  show ?thesis unfolding e prod.case pass.case option.case
  proof
    assume len: "length bs < 2 ^ 64"
    have w: "unat w = min (length bs) (4096 - unat (p_count p))"
      using len pipe_okD(5) [OF assms] by (auto simp: w_def word_less_nat_alt unat_of_nat)
    have c: "unat (p_count p) + length (take (unat w) bs) \<le> 4096" "length (take (unat w) bs) = unat w" using w pipe_okD(3) [OF assms] by auto
    note I = copy_in [OF pipe_okD(1,4) [OF assms] c(1), folded p1_def, unfolded Let_def c(2)]
    have pc: "p_count p1 = p_count p" "read_pos p1 = read_pos p" using copy_in_count p1_def by auto
    have "unat (p_count p + w) = unat (p_count p) + unat w" using w pipe_okD(3) [OF assms] by (intro unat_add_no_overflow) auto
    then show "pipe_ok (p1\<lparr>p_count := p_count p1 + w, read_wait := q\<rparr>) \<and>
        unat w = min (length bs) (4096 - length (pipe_bytes p)) \<and>
        pipe_bytes (p1\<lparr>p_count := p_count p1 + w, read_wait := q\<rparr>) = pipe_bytes p @ take (unat w) bs"
      using I pc w pipe_okD(2,3) [OF assms] c by (simp add: pipe_ok_def pipe_bytes_def word_less_nat_alt word_le_nat_alt add.assoc)
  qed
qed

lemma pipe_read_fifo:
  assumes "pipe_ok p"
  shows "case pipe_read_pass sz p s of
      (Return r, p', s') \<Rightarrow> pipe_ok p' \<and> r = take (unat sz) (pipe_bytes p) \<and> pipe_bytes p = r @ pipe_bytes p'
    | (Sleep, p', s') \<Rightarrow> p' = p \<and> s' = s \<and> pipe_bytes p = []"
proof (cases "p_count p = 0 \<and> (sint (writers p) > 0 \<or> writers p = 0)")
  case True
  then show ?thesis using assms by (auto simp: pipe_read_pass_def pipe_bytes_def ring_list_def)
next
  case False
  define t where "t = (if sz > p_count p then p_count p else sz)"
  obtain r p1 where c: "pipe_copy_out (unat t) p = (r, p1)" by fastforce
  obtain q s' where q: "wake_up (write_wait p1) s = (q, s')" by fastforce
  have e: "pipe_read_pass sz p s = (Return r, p1\<lparr>p_count := p_count p1 - t, write_wait := q\<rparr>, s')"
    using False q c by (auto simp: pipe_read_pass_def t_def Let_def)
  have t: "unat t \<le> unat (p_count p)" "t \<le> p_count p" "unat t = min (unat sz) (unat (p_count p))"
    by (auto simp: t_def word_less_nat_alt word_le_nat_alt)
  note I = copy_out [OF pipe_okD(2) [OF assms] t(1), unfolded c Let_def prod.case]
  have pc: "p_count p1 = p_count p" "buffer p1 = buffer p" "write_pos p1 = write_pos p"
    using I by (metis pipe.select_convs pipe.surjective pipe.update_convs)+
  have d: "unat (p_count p - t) = unat (p_count p) - unat t" using t(2) by (rule unat_sub_le)
  have "(unat (read_pos p1) + (unat (p_count p) - unat t)) mod 4096 = (unat (read_pos p) + unat (p_count p)) mod 4096"
    using I t(1) mod_add_left_eq [of "unat (read_pos p) + unat t" 4096 "unat (p_count p) - unat t"] by simp
  then have "pipe_ok (p1\<lparr>p_count := p_count p1 - t, write_wait := q\<rparr>)"
    using pipe_okD [OF assms] pc d I t(1) by (simp add: pipe_ok_def word_less_nat_alt word_le_nat_alt)
  moreover have "r = take (unat sz) (pipe_bytes p)" using I t(3) by (simp add: pipe_bytes_def min_def)
  moreover have "pipe_bytes p = r @ pipe_bytes (p1\<lparr>p_count := p_count p1 - t, write_wait := q\<rparr>)"
  proof -
    have "ring_list 4096 (buffer p) (unat (read_pos p1)) (unat (p_count p) - unat t) = drop (unat t) (pipe_bytes p)"
      using I unfolding pipe_bytes_def by blast
    moreover have "r = take (unat t) (pipe_bytes p)" using I unfolding pipe_bytes_def by blast
    ultimately show ?thesis by (simp add: pipe_bytes_def pc d)
  qed
  ultimately show ?thesis unfolding e by simp
qed

text \<open>
  C20. A pipe is a bounded queue of bytes: when a write pass does not sleep and there is a reader, it appends
  as many of the given bytes as there is room for, up to 4096 in the pipe, and returns their number; a read
  pass that does not sleep takes the first bytes, at most as many as asked for, and none only if
  nothing was asked or the pipe is empty without writers. Both keep the invariant of the ring buffer.
\<close>

theorem pipe_fifo:
  assumes "pipe_ok p"
  shows "(case pipe_write_pass bs p s of
      (Return (Some n), p', s') \<Rightarrow> length bs < 2 ^ 64 \<longrightarrow>
        pipe_ok p' \<and> unat n = min (length bs) (4096 - length (pipe_bytes p)) \<and>
        pipe_bytes p' = pipe_bytes p @ take (unat n) bs
    | (Return None, p', s') \<Rightarrow> readers p = 0 \<and> p' = p \<and> s' = s
    | (Sleep, p', s') \<Rightarrow> p' = p \<and> s' = s \<and> length (pipe_bytes p) = 4096) \<and>
   (case pipe_read_pass sz p s of
      (Return r, p', s') \<Rightarrow> pipe_ok p' \<and> r = take (unat sz) (pipe_bytes p) \<and> pipe_bytes p = r @ pipe_bytes p'
    | (Sleep, p', s') \<Rightarrow> p' = p \<and> s' = s \<and> pipe_bytes p = [])"
  by (rule conjI [OF pipe_write_fifo [OF assms] pipe_read_fifo [OF assms]])

lemma pipe_new_ok: "pipe_ok pipe_new" "pipe_bytes pipe_new = []"
  by (simp_all add: pipe_ok_def pipe_new_def pipe_bytes_def ring_list_def)

theorem pipe_fifo_witness:
  "case pipe_write_pass [104, 105] pipe_new sched0 of
     (Return (Some n), p', s') \<Rightarrow> pipe_bytes p' = [104, 105] | _ \<Rightarrow> False"
proof -
  have e: "pipe_write_pass [104, 105] pipe_new sched0 = (Return (Some 2), snd (pipe_write_pass [104, 105] pipe_new sched0))"
    by (simp add: pipe_write_pass_def pipe_new_def wake_up_def)
  from pipe_fifo [OF pipe_new_ok(1), where bs = "[104, 105]" and s = sched0 and sz = 0]
  show ?thesis by (subst e, subst (asm) e) (simp add: pipe_new_ok(2) split: prod.splits)
qed

subsection \<open>A lost wake-up\<close>

text \<open>
  A wake-up can be lost, because a reader that finds the pipe empty releases the mutex before it puts
  itself on the wait queue. If a writer's pass falls between the two, the writer finds no one to wake and the
  reader goes to sleep although its bytes are in the pipe. Here the reader \<open>c\<close> has had its pass, a writer
  on another processor has its own, which changes nothing in the scheduler as no task waits, and then \<open>c\<close>
  continues with its \<open>sleep_on\<close>: \<open>c\<close> is blocked and on no run queue, while the pipe holds bytes.
\<close>

theorem pipe_read_lost_wakeup:
  assumes "pipe_ok p" "pipe_bytes p = []" "sint (writers p) > 0" "readers p \<noteq> 0" "read_wait p = 0"
    "bs \<noteq> []" "length bs < 2 ^ 64"
    "rq_ok qs s" "c = current_task s" "q < COUNT" "c \<in> set (qs q)" "highest (qs(q := remove1 c (qs q))) n"
  shows "case pipe_read_pass sz p s of (r, p1, s1) \<Rightarrow>
    (case pipe_write_pass bs p1 s1 of (v, p2, s2) \<Rightarrow>
      (case pipe_read_sleep p2 s2 of (p3, s3) \<Rightarrow>
        r = Sleep \<and> (\<exists>k. v = Return (Some k)) \<and> pipe_bytes p3 \<noteq> [] \<and> read_wait p3 = c \<and>
        state (tasks s3 c) = TASK_BLOCKED \<and> wq_rel (qs(q := remove1 c (qs q))) [c] c s3))"
proof -
  have c0: "p_count p = 0" using assms(2) by (simp add: pipe_bytes_def ring_list_def unat_eq_zero)
  then have r: "pipe_read_pass sz p s = (Sleep, p, s)" using assms(3) by (simp add: pipe_read_pass_def)
  define w where "w = (if word_of_nat (length bs) > (PIPE_BUF_SIZE) then PIPE_BUF_SIZE else word_of_nat (length bs))"
  define p2 where "p2 = (pipe_copy_in (take (unat w) bs) p)\<lparr>p_count := w\<rparr>"
  have v: "pipe_write_pass bs p s = (Return (Some w), p2, s)"
    using assms(4,5) c0 copy_in_count [of "take (unat w) bs" p]
    by (simp add: pipe_write_pass_def w_def p2_def wake_up_def Let_def)
  have "pipe_bytes p2 = take (unat w) bs \<and> unat w = min (length bs) 4096"
    using pipe_write_fifo [OF assms(1), where bs = bs and s = s] assms(2,7) unfolding v by simp
  moreover have "wq_rel qs [] 0 s" using assms(8) by (simp add: wq_rel_def)
  note S = sleep_on_rel [OF this assms(9-12)]
  have "read_wait p2 = 0" using assms(5) copy_in_count by (simp add: p2_def)
  then have "pipe_read_sleep p2 s = (p2\<lparr>read_wait := c\<rparr>, snd (sleep_on 0 s))"
    using S(1) by (cases "sleep_on 0 s") (simp add: pipe_read_sleep_def)
  moreover have "pipe_bytes (p2\<lparr>read_wait := c\<rparr>) = pipe_bytes p2" by (simp add: pipe_bytes_def)
  ultimately show ?thesis unfolding r prod.case v
    using S(2) assms(6) wq_relD(4) [OF S(2), of c] by (simp add: min_def)
qed

theorem pipe_read_lost_wakeup_witness:
  "case pipe_read_pass 10 pipe_new sched4 of (r, p1, s1) \<Rightarrow>
    (case pipe_write_pass [1, 2, 3] p1 s1 of (v, p2, s2) \<Rightarrow>
      (case pipe_read_sleep p2 s2 of (p3, s3) \<Rightarrow>
        r = Sleep \<and> pipe_bytes p3 \<noteq> [] \<and> state (tasks s3 7) = TASK_BLOCKED))"
  using pipe_read_lost_wakeup [OF pipe_new_ok _ _ _ _ _ sched4_ok(1) sched4_ok(2) [symmetric],
      where bs = "[1, 2, 3]" and q = 2 and n = 2 and sz = 10]
  by (simp add: pipe_new_def highest_def split: prod.splits)

end
