(* ===== verification/Files.thy ===== *)
theory Files
  imports Cred Pipe
begin

section \<open>Open files and descriptors\<close>

text \<open>
  A model of \<^verbatim>\<open>kernel/fs/file.c\<close>, \<^verbatim>\<open>kernel/syscalls/dup.c\<close>, of the reference counts of
  inodes in \<^verbatim>\<open>kernel/fs/vfs.c\<close>, and of the calls that create and close descriptors in
  \<^verbatim>\<open>open.c\<close> and \<^verbatim>\<open>pipe.c\<close>. File and inode pointers are natural numbers, 0 is NULL. The
  addresses that \<open>kmalloc\<close> returns are arguments. A store outside the descriptor table, which the C code
  does not prevent, sets \<open>corrupt\<close>. \<open>closed\<close> collects the inodes whose close hook has run.
\<close>

abbreviation (input) MAX_FD :: int where "MAX_FD \<equiv> 1024"

record file_t =
  f_inode :: nat
  f_offset :: u64
  f_ref :: int

record fstate =
  files :: "nat \<Rightarrow> file_t"
  live_files :: "nat \<Rightarrow> bool"
  fd_table :: "int \<Rightarrow> nat"
  ref_count :: "nat \<Rightarrow> int"
  temporary :: "nat \<Rightarrow> bool"
  closed :: "nat list"
  corrupt :: bool

definition fd_set :: "int \<Rightarrow> nat \<Rightarrow> fstate \<Rightarrow> fstate" where
  "fd_set fd f s = (if 0 \<le> fd \<and> fd < MAX_FD then s\<lparr>fd_table := (fd_table s)(fd := f)\<rparr> else s\<lparr>corrupt := True\<rparr>)"

definition vfs_open :: "nat \<Rightarrow> fstate \<Rightarrow> fstate" where
  "vfs_open n s = (if n = 0 then s else s\<lparr>ref_count := (ref_count s)(n := ref_count s n + 1)\<rparr>)"

definition vfs_close :: "nat \<Rightarrow> fstate \<Rightarrow> fstate" where
  "vfs_close n s =
     (if n = 0 then s
      else let s = s\<lparr>ref_count := (ref_count s)(n := ref_count s n - 1)\<rparr>
           in if ref_count s n \<le> 0 \<and> temporary s n then s\<lparr>closed := closed s @ [n]\<rparr> else s)"

fun fd_alloc_from :: "nat \<Rightarrow> int \<Rightarrow> fstate \<Rightarrow> int" where
  "fd_alloc_from 0 i s = -1"
| "fd_alloc_from (Suc n) i s = (if fd_table s i = 0 then i else fd_alloc_from n (i + 1) s)"

definition fd_alloc :: "fstate \<Rightarrow> int" where
  "fd_alloc s = fd_alloc_from 1024 0 s"

definition fd_free :: "int \<Rightarrow> fstate \<Rightarrow> fstate" where
  "fd_free fd s = (if fd < 0 \<or> fd \<ge> MAX_FD then s else fd_set fd 0 s)"

definition fd_get :: "int \<Rightarrow> fstate \<Rightarrow> nat" where
  "fd_get fd s = (if fd < 0 \<or> fd \<ge> MAX_FD then 0 else fd_table s fd)"

definition file_new :: "nat \<Rightarrow> nat \<Rightarrow> fstate \<Rightarrow> nat \<times> fstate" where
  "file_new f inode s =
     (if f = 0 then (0, s)
      else (f, vfs_open inode
                 (s\<lparr>files := (files s)(f := \<lparr>f_inode = inode, f_offset = 0, f_ref = 1\<rparr>),
                    live_files := (live_files s)(f := True)\<rparr>)))"

definition file_close :: "nat \<Rightarrow> fstate \<Rightarrow> fstate" where
  "file_close f s =
     (if f = 0 then s
      else let s = s\<lparr>files := (files s)(f := (files s f)\<lparr>f_ref := f_ref (files s f) - 1\<rparr>)\<rparr>
           in if f_ref (files s f) \<le> 0
              then (vfs_close (f_inode (files s f)) s)\<lparr>live_files := (live_files s)(f := False)\<rparr>
              else s)"


definition sys_dup2 :: "int \<Rightarrow> int \<Rightarrow> fstate \<Rightarrow> int \<times> fstate" where
  "sys_dup2 oldfd newfd s =
     (if newfd < 0 \<or> newfd > MAX_FD then (-1, s)
      else let f = fd_get oldfd s
           in if f = 0 then (-1, s)
              else if oldfd = newfd then (newfd, s)
              else let existing = fd_get newfd s;
                       s = (if existing \<noteq> 0 then fd_set newfd 0 (file_close existing s) else s);
                       s = s\<lparr>files := (files s)(f := (files s f)\<lparr>f_ref := f_ref (files s f) + 1\<rparr>)\<rparr>
                   in (newfd, fd_set newfd f s))"

datatype whence = SEEK_SET | SEEK_CUR | SEEK_END | SEEK_OTHER

text \<open>\<open>chardev\<close> and \<open>sz\<close> are the flag test and the size of the inode; offsets are 64-bit signed numbers.\<close>

definition sys_lseek :: "bool \<Rightarrow> u64 \<Rightarrow> int \<Rightarrow> u64 \<Rightarrow> whence \<Rightarrow> fstate \<Rightarrow> int \<times> fstate" where
  "sys_lseek chardev sz fd offset w s =
     (let f = fd_get fd s
      in if f = 0 then (-1, s)
         else if chardev then (-1, s)
         else let new_off = (case w of SEEK_SET \<Rightarrow> Some offset
                               | SEEK_CUR \<Rightarrow> Some (f_offset (files s f) + offset)
                               | SEEK_END \<Rightarrow> Some (sz + offset)
                               | SEEK_OTHER \<Rightarrow> None)
              in (case new_off of
                    None \<Rightarrow> (-1, s)
                  | Some o' \<Rightarrow>
                      if sint o' < 1 then (-1, s)
                      else (sint o', s\<lparr>files := (files s)(f := (files s f)\<lparr>f_offset := o'\<rparr>)\<rparr>)))"

text \<open>\<open>sys_open\<close> from the label \<open>success\<close> on: \<open>inode\<close> is what the lookup or the creation has given.\<close>

definition sys_open_fd :: "nat \<Rightarrow> nat \<Rightarrow> fstate \<Rightarrow> int \<times> fstate" where
  "sys_open_fd inode f s =
     (let fd = fd_alloc s
      in if fd < 0 then (-1, vfs_close inode s)
         else case file_new f inode s of
                (file, s) \<Rightarrow>
                  if file = 0 then (-1, vfs_close inode (fd_free fd s))
                  else (fd, vfs_close inode (fd_set fd file s)))"

definition sys_close :: "int \<Rightarrow> fstate \<Rightarrow> int \<times> fstate" where
  "sys_close fd s =
     (let f = fd_get fd s in if f = 0 then (-1, s) else (0, file_close f (fd_free fd s)))"

text \<open>An end of a pipe: a temporary regular file of user and group 0 with mode \<open>0600\<close> and one reference.\<close>

definition pipe_inode :: inode where
  "pipe_inode = \<lparr>i_flags = 0x81, i_uid = 0, i_gid = 0, i_mode = 0x180, i_size = 0\<rparr>"

definition pipe_create_endpoint :: "nat \<Rightarrow> fstate \<Rightarrow> fstate" where
  "pipe_create_endpoint n s =
     (if n = 0 then s else s\<lparr>ref_count := (ref_count s)(n := 1), temporary := (temporary s)(n := True)\<rparr>)"

text \<open>
  \<open>sys_pipe\<close>: \<open>pipe\<close>, \<open>r\<close>, \<open>w\<close>, \<open>f1\<close> and \<open>f2\<close> are the addresses of the pipe, its two
  inodes and its two files. The result carries the descriptors that are copied out.
\<close>

definition sys_pipe ::
  "nat \<Rightarrow> nat \<Rightarrow> nat \<Rightarrow> nat \<Rightarrow> nat \<Rightarrow> bool \<Rightarrow> fstate \<Rightarrow> (int \<times> int) option \<times> fstate" where
  "sys_pipe pipe r w f1 f2 copy_ok s =
     (if pipe = 0 then (None, s)
      else let s = pipe_create_endpoint w (pipe_create_endpoint r s)
           in if r = 0 \<or> w = 0 then (None, s)
              else let kfd0 = fd_alloc s;
                       (file1, s) = file_new f1 r s;
                       s = fd_set kfd0 file1 s
                   in if kfd0 < 0 then (None, s)
                      else let kfd1 = fd_alloc s;
                               (file2, s) = file_new f2 w s;
                               s = fd_set kfd1 file2 s
                           in if kfd1 < 0 then (None, fd_free kfd0 s)
                              else if \<not> copy_ok then (None, fd_free kfd1 (fd_free kfd0 s))
                              else (Some (kfd0, kfd1), s))"


subsection \<open>Reference counts\<close>




lemma fd_alloc_from:
  "0 \<le> i \<Longrightarrow> 0 \<le> fd_alloc_from n i s \<Longrightarrow>
   i \<le> fd_alloc_from n i s \<and> fd_alloc_from n i s < i + int n \<and> fd_table s (fd_alloc_from n i s) = 0"
proof (induction n arbitrary: i)
  case (Suc n)
  show ?case
  proof (cases "fd_table s i = 0")
    case True
    then show ?thesis by simp
  next
    case False
    then have "0 \<le> fd_alloc_from n (i + 1) s" using Suc.prems(2) by simp
    then show ?thesis using Suc.IH [of "i + 1"] Suc.prems(1) False by simp
  qed
qed simp


lemma vfs_fields [simp]:
  "files (vfs_close n s) = files s" "live_files (vfs_close n s) = live_files s" "fd_table (vfs_close n s) = fd_table s"
  "files (vfs_open n s) = files s" "live_files (vfs_open n s) = live_files s" "fd_table (vfs_open n s) = fd_table s"
  by (simp_all add: vfs_close_def vfs_open_def Let_def)











definition fs0 :: fstate where
  "fs0 = \<lparr>files = (\<lambda>_. \<lparr>f_inode = 0, f_offset = 0, f_ref = 0\<rparr>), live_files = (\<lambda>_. False), fd_table = (\<lambda>_. 0),
     ref_count = (\<lambda>_. 0), temporary = (\<lambda>_. False), closed = [], corrupt = False\<rparr>"


lemma fd_alloc_first: "fd_table s 0 = 0 \<Longrightarrow> fd_alloc s = 0"
  by (simp add: fd_alloc_def numeral_eq_Suc)

lemma fd_alloc_second: "fd_table s 0 \<noteq> 0 \<Longrightarrow> fd_table s 1 = 0 \<Longrightarrow> fd_alloc s = 1"
  by (simp add: fd_alloc_def numeral_eq_Suc)


text \<open>
  C24. \<open>sys_dup2\<close> accepts the descriptor 1024, one past the end of the table: it stores the file pointer behind the
  table and reports success, with a reference that no close can drop.
\<close>

theorem sys_dup2_overruns:
  assumes "fd_get a s \<noteq> 0" "a \<noteq> MAX_FD"
  shows "fst (sys_dup2 a MAX_FD s) = MAX_FD \<and> corrupt (snd (sys_dup2 a MAX_FD s)) \<and>
    fst (sys_close MAX_FD (snd (sys_dup2 a MAX_FD s))) = -1"
  using assms by (simp add: sys_dup2_def sys_close_def fd_get_def fd_set_def Let_def)

theorem sys_dup2_overruns_witness:
  "corrupt (snd (sys_dup2 0 1024 (snd (sys_open_fd 3 8 fs0))))"
proof -
  have "fd_alloc fs0 = 0" by (rule fd_alloc_first) (simp add: fs0_def)
  then have "fd_get 0 (snd (sys_open_fd 3 8 fs0)) \<noteq> 0" by (simp add: sys_open_fd_def file_new_def fd_set_def fd_get_def)
  then show ?thesis using sys_dup2_overruns [where a = 0] by simp
qed

subsection \<open>Pipes through descriptors\<close>

text \<open>
  The ends of a pipe are never closed and are of no use to an unprivileged process. \<open>sys_pipe\<close> takes one
  reference for the inode itself and one for the file, but closing a descriptor drops only one: after both
  descriptors are closed no close hook has run, so the pipe still counts one reader and one writer. And
  since the inodes belong to user 0 with mode \<open>0600\<close>, reading or writing them is refused to every process
  with another effective user id.
\<close>

theorem pipe_ends_never_closed:
  assumes "fd_table s 0 = 0" "fd_table s 1 = 0" "distinct [r, w]" "distinct [f1, f2]"
    "pipe \<noteq> 0" "r \<noteq> 0" "w \<noteq> 0" "f1 \<noteq> 0" "f2 \<noteq> 0"
  shows "\<exists>s'. sys_pipe pipe r w f1 f2 True s = (Some (0, 1), s') \<and>
    closed (snd (sys_close 1 (snd (sys_close 0 s')))) = closed s \<and>
    (current_proc k \<noteq> 0 \<and> euid (procs k (current_proc k)) \<noteq> 0 \<longrightarrow>
       vfs_check_permission (Some pipe_inode) 4 k = -1 \<and> vfs_check_permission (Some pipe_inode) 2 k = -1)"
proof -
  define s1 where "s1 = pipe_create_endpoint w (pipe_create_endpoint r s)"
  define s2 where "s2 = fd_set 0 f1 (snd (file_new f1 r s1))"
  define s3 where "s3 = fd_set 1 f2 (snd (file_new f2 w s2))"
  have a1: "fd_alloc s1 = 0" by (rule fd_alloc_first) (use assms in \<open>simp add: s1_def pipe_create_endpoint_def\<close>)
  have a2: "fd_alloc s2 = 1"
    by (rule fd_alloc_second) (use assms in \<open>simp_all add: s2_def s1_def fd_set_def file_new_def pipe_create_endpoint_def\<close>)
  have e: "sys_pipe pipe r w f1 f2 True s = (Some (0, 1), s3)"
    using assms a1 a2 by (simp add: sys_pipe_def s1_def [symmetric] file_new_def Let_def)
      (simp add: s3_def s2_def file_new_def)
  have c: "closed (snd (sys_close 1 (snd (sys_close 0 s3)))) = closed s"
    using assms by (simp add: s3_def s2_def s1_def sys_close_def fd_get_def fd_free_def fd_set_def file_new_def
        file_close_def vfs_open_def vfs_close_def pipe_create_endpoint_def Let_def)
  have "vfs_check_permission (Some pipe_inode) 4 k = -1 \<and> vfs_check_permission (Some pipe_inode) 2 k = -1"
    if "current_proc k \<noteq> 0 \<and> euid (procs k (current_proc k)) \<noteq> 0"
    using that by (simp add: vfs_check_permission_def pipe_inode_def Let_def drop_bit_eq_div)
  then show ?thesis using e c by blast
qed

theorem pipe_ends_never_closed_witness:
  "\<exists>s'. sys_pipe 2 3 4 5 6 True fs0 = (Some (0, 1), s') \<and> closed (snd (sys_close 1 (snd (sys_close 0 s')))) = []"
  using pipe_ends_never_closed [of fs0 3 4 5 6 2 kernel0] by (auto simp: fs0_def)

end
