(* ===== verification/Console.thy ===== *)
theory Console
  imports Prelude
begin

section \<open>The console\<close>

text \<open>
  A model of the text console in \<^verbatim>\<open>kernel/arch/aarch64/firmware/ramfb.c\<close> and of the output half of
  \<^verbatim>\<open>kernel/drivers/tty.c\<close>. The frame buffer maps pixel numbers to colours; the font, a table of
  eight bytes for each character, is an argument of the functions that draw. Cursor positions and parameters of control sequences are C integers, kept within
  32 bits by \<open>i32\<close>. The serial port is the list of bytes sent to it, newest first.
\<close>

abbreviation (input) WIDTH :: int where "WIDTH \<equiv> 1366"
abbreviation (input) HEIGHT :: int where "HEIGHT \<equiv> 768"
abbreviation (input) CHAR_WIDTH :: int where "CHAR_WIDTH \<equiv> 8"
abbreviation (input) CHAR_HEIGHT :: int where "CHAR_HEIGHT \<equiv> 10"
abbreviation (input) MAX_COLS :: int where "MAX_COLS \<equiv> 170"
abbreviation (input) MAX_ROWS :: int where "MAX_ROWS \<equiv> 76"

type_synonym font = "u8 \<Rightarrow> nat \<Rightarrow> u8"

record console =
  fb_addr :: "int \<Rightarrow> u32"
  cursor_x :: int
  cursor_y :: int
  fg_color :: u32
  bg_color :: u32
  uart_sent :: "u8 list"

definition i32 :: "int \<Rightarrow> int" where
  "i32 n = signed_take_bit 31 n"

text \<open>The remainder of C has the sign of the dividend.\<close>

definition c_rem :: "int \<Rightarrow> int \<Rightarrow> int" where
  "c_rem a b = sgn a * (abs a mod abs b)"

definition put_pixel :: "int \<Rightarrow> int \<Rightarrow> u32 \<Rightarrow> console \<Rightarrow> console" where
  "put_pixel x y c s =
     (if x < 0 \<or> x \<ge> WIDTH \<or> y < 0 \<or> y \<ge> HEIGHT then s
      else s\<lparr>fb_addr := (fb_addr s)(y * WIDTH + x := c)\<rparr>)"

definition draw_row :: "u8 \<Rightarrow> int \<Rightarrow> int \<Rightarrow> u32 \<Rightarrow> u32 \<Rightarrow> console \<Rightarrow> console" where
  "draw_row bits x y fg bg s =
     fold (\<lambda>col. put_pixel (x + int col) y (if bit bits (7 - col) then fg else bg)) [0..<8] s"

definition draw_char_bitmap :: "font \<Rightarrow> int \<Rightarrow> int \<Rightarrow> u8 \<Rightarrow> u32 \<Rightarrow> u32 \<Rightarrow> console \<Rightarrow> console" where
  "draw_char_bitmap font x y c fg bg s =
     fold (\<lambda>row. draw_row (font c row) x (y + int row) fg bg) [0..<8] s"

definition ramfb_clear :: "console \<Rightarrow> console" where
  "ramfb_clear s =
     s\<lparr>fb_addr := (\<lambda>i. if 0 \<le> i \<and> i < WIDTH * HEIGHT then bg_color s else fb_addr s i),
       cursor_x := 0, cursor_y := 0\<rparr>"

text \<open>The first loop of \<open>ramfb_scroll\<close> reads only pixels that it has not overwritten yet.\<close>

definition ramfb_scroll :: "console \<Rightarrow> console" where
  "ramfb_scroll s =
     (let total_pixels = WIDTH * HEIGHT;
          scroll_pixels = WIDTH * CHAR_HEIGHT
      in s\<lparr>fb_addr := (\<lambda>i. if 0 \<le> i \<and> i < total_pixels - scroll_pixels then fb_addr s (i + scroll_pixels)
                            else if total_pixels - scroll_pixels \<le> i \<and> i < total_pixels then bg_color s
                            else fb_addr s i)\<rparr>)"

definition draw_at_cursor :: "font \<Rightarrow> u8 \<Rightarrow> console \<Rightarrow> console" where
  "draw_at_cursor font c s =
     draw_char_bitmap font (cursor_x s * CHAR_WIDTH) (cursor_y s * CHAR_HEIGHT) c (fg_color s) (bg_color s) s"

text \<open>The end of \<open>ramfb_putc\<close>: the cursor wraps at the right margin, and the screen scrolls at the bottom.\<close>

definition wrap_cursor :: "console \<Rightarrow> console" where
  "wrap_cursor s =
     (let s = (if cursor_x s \<ge> MAX_COLS then s\<lparr>cursor_x := 0, cursor_y := cursor_y s + 1\<rparr> else s)
      in if cursor_y s \<ge> MAX_ROWS then (ramfb_scroll s)\<lparr>cursor_y := MAX_ROWS - 1\<rparr> else s)"

definition ramfb_putc1 :: "font \<Rightarrow> u8 \<Rightarrow> console \<Rightarrow> console" where
  "ramfb_putc1 font c s =
     (if c = 10 then wrap_cursor (s\<lparr>cursor_x := 0, cursor_y := cursor_y s + 1\<rparr>)
      else if c = 8
      then draw_at_cursor font 32
             (if cursor_x s > 0 then s\<lparr>cursor_x := cursor_x s - 1\<rparr>
              else if cursor_y s > 0 then s\<lparr>cursor_y := cursor_y s - 1, cursor_x := MAX_COLS - 1\<rparr>
              else s)
      else let s = draw_at_cursor font c s in wrap_cursor (s\<lparr>cursor_x := cursor_x s + 1\<rparr>))"

text \<open>A tab is four spaces.\<close>

definition ramfb_putc :: "font \<Rightarrow> u8 \<Rightarrow> console \<Rightarrow> console" where
  "ramfb_putc font c s = (if c = 9 then (ramfb_putc1 font 32 ^^ 4) s else ramfb_putc1 font c s)"

definition ramfb_get_cursor :: "console \<Rightarrow> int \<times> int" where
  "ramfb_get_cursor s = (cursor_x s, cursor_y s)"

definition ramfb_set_cursor :: "int \<Rightarrow> int \<Rightarrow> console \<Rightarrow> console" where
  "ramfb_set_cursor x y s = s\<lparr>cursor_x := x, cursor_y := y\<rparr>"

subsection \<open>Terminals\<close>

text \<open>
  A terminal. Its output function is the frame buffer's, the serial port's or missing; \<open>is_console\<close> is the
  comparison of its address with that of \<open>tty_console\<close>. The queues of the readers and writers and the
  foreground group belong to the line discipline.
\<close>

datatype putc_fun = Ramfb_putc | Uart_putc

datatype tty_state = TTY_STATE_NORMAL | TTY_STATE_ESC | TTY_STATE_CSI

record termios =
  c_iflag :: u32
  c_oflag :: u32
  c_cflag :: u32
  c_lflag :: u32
  c_line :: u8
  c_cc :: "u8 list"

record tty =
  is_console :: bool
  tty_count :: int
  tty_flags :: u32
  read_buf :: "u8 list"
  read_head :: nat
  read_tail :: nat
  read_cnt :: int
  canon_buf :: "u8 list"
  canon_head :: nat
  canon_column :: int
  column :: int
  canon_lines :: int
  tty_st :: tty_state
  csi_params :: "int list"
  csi_param_count :: nat
  tty_fg :: nat
  tty_bg :: nat
  tty_putc :: "putc_fun option"
  read_wait :: nat
  write_wait :: nat
  session :: nat
  session_id :: u64
  tty_pgrp :: u64
  termios :: termios
  ws_row :: u16
  ws_col :: u16

abbreviation (input) MAX_CSI_PARAMS :: nat where "MAX_CSI_PARAMS \<equiv> 8"
abbreviation (input) TTY_STOPPED :: u32 where "TTY_STOPPED \<equiv> 0x02"
abbreviation (input) TTY_EXCLUSIVE :: u32 where "TTY_EXCLUSIVE \<equiv> 0x04"
abbreviation (input) TTY_HUPPED :: u32 where "TTY_HUPPED \<equiv> 0x08"
abbreviation (input) TTY_LNEXT :: u32 where "TTY_LNEXT \<equiv> 0x20"
abbreviation (input) TTY_FLUSHING :: u32 where "TTY_FLUSHING \<equiv> 0x40"
abbreviation (input) OPOST :: u32 where "OPOST \<equiv> 1"
abbreviation (input) OLCUC :: u32 where "OLCUC \<equiv> 2"
abbreviation (input) ONLCR :: u32 where "ONLCR \<equiv> 4"
abbreviation (input) OCRNL :: u32 where "OCRNL \<equiv> 8"
abbreviation (input) ONOCR :: u32 where "ONOCR \<equiv> 0x10"
abbreviation (input) TABDLY :: u32 where "TABDLY \<equiv> 0x1800"

definition putc :: "font \<Rightarrow> putc_fun option \<Rightarrow> u8 \<Rightarrow> console \<Rightarrow> console" where
  "putc font f c s =
     (case f of
        None \<Rightarrow> s
      | Some Ramfb_putc \<Rightarrow> ramfb_putc font c s
      | Some Uart_putc \<Rightarrow> s\<lparr>uart_sent := c # uart_sent s\<rparr>)"

definition ramfb_ansi_colors :: "u32 list" where
  "ramfb_ansi_colors = [0x00000000, 0x00FF0000, 0x0000FF00, 0x00FFFF00, 0x000000FF, 0x00FF00FF, 0x0000FFFF, 0x00FFFFFF]"

definition tty_update_color :: "tty \<Rightarrow> console \<Rightarrow> console" where
  "tty_update_color t s =
     (let s = (if tty_fg t < 8 then s\<lparr>fg_color := ramfb_ansi_colors ! tty_fg t\<rparr> else s)
      in if tty_bg t < 8 then s\<lparr>bg_color := ramfb_ansi_colors ! tty_bg t\<rparr> else s)"

definition clamp :: "int \<Rightarrow> int \<Rightarrow> int \<Rightarrow> int" where
  "clamp val lo hi = (if val < lo then lo else if val > hi then hi else val)"

definition sgr_param :: "int \<Rightarrow> tty \<Rightarrow> tty" where
  "sgr_param param t =
     (if param = 0 then t\<lparr>tty_fg := 7, tty_bg := 0\<rparr>
      else if param = 1 then (if tty_fg t < 8 then t\<lparr>tty_fg := tty_fg t + 8\<rparr> else t)
      else if 30 \<le> param \<and> param \<le> 37 then t\<lparr>tty_fg := nat (param - 30)\<rparr>
      else if param = 39 then t\<lparr>tty_fg := 7\<rparr>
      else if 40 \<le> param \<and> param \<le> 47 then t\<lparr>tty_bg := nat (param - 40)\<rparr>
      else if param = 49 then t\<lparr>tty_bg := 0\<rparr>
      else if 90 \<le> param \<and> param \<le> 97 then t\<lparr>tty_fg := nat (param - 90 + 8)\<rparr>
      else if 100 \<le> param \<and> param \<le> 107 then t\<lparr>tty_bg := nat (param - 100 + 8)\<rparr>
      else t)"

definition handle_sgr :: "tty \<Rightarrow> console \<Rightarrow> tty \<times> console" where
  "handle_sgr t s =
     (let t = (if csi_param_count t = 0 then t\<lparr>tty_fg := 7, tty_bg := 0\<rparr>
               else fold sgr_param (take (csi_param_count t) (csi_params t)) t)
      in (t, tty_update_color t s))"

definition rmline :: "font \<Rightarrow> console \<Rightarrow> console" where
  "rmline font s =
     (let (x, y) = ramfb_get_cursor s;
          s = ramfb_set_cursor 0 y s;
          s = (ramfb_putc font 32 ^^ nat MAX_COLS) s
      in ramfb_set_cursor x y s)"

text \<open>One row of an erasure: \<open>n\<close> spaces from column \<open>x\<close> of row \<open>y\<close> on.\<close>

definition erase_row :: "font \<Rightarrow> putc_fun option \<Rightarrow> int \<Rightarrow> int \<Rightarrow> int \<Rightarrow> console \<Rightarrow> console" where
  "erase_row font f x n y s = (putc font f 32 ^^ nat n) (ramfb_set_cursor x y s)"

text \<open>\<open>ESC [ n J\<close> and \<open>ESC [ n K\<close>, with the cursor at \<open>(ox, oy)\<close>; the result is the new cursor.\<close>

definition erase_display :: "font \<Rightarrow> int \<Rightarrow> int \<Rightarrow> int \<Rightarrow> tty \<Rightarrow> console \<Rightarrow> (int \<times> int) \<times> console" where
  "erase_display font p1 ox oy t s =
     (if p1 = 2 then ((0, 0), ramfb_clear s)
      else if p1 = 0
      then let s = fold (\<lambda>y. let start_col = (if y = oy then ox else 0)
                              in erase_row font (tty_putc t) start_col (uint (ws_col t) - start_col) y)
                        [oy..uint (ws_row t) - 1] s
           in ((ox, oy), ramfb_set_cursor ox oy s)
      else if p1 = 1
      then let s = fold (\<lambda>y. let end_col = (if y = oy then ox else uint (ws_col t) - 1)
                              in erase_row font (tty_putc t) 0 (end_col + 1) y)
                        [0..oy] s
           in ((ox, oy), ramfb_set_cursor ox oy s)
      else ((ox, oy), s))"

definition erase_in_line :: "font \<Rightarrow> int \<Rightarrow> int \<Rightarrow> int \<Rightarrow> tty \<Rightarrow> console \<Rightarrow> console" where
  "erase_in_line font p1 ox oy t s =
     (if p1 = 2 then rmline font s
      else if p1 = 0 then ramfb_set_cursor ox oy (erase_row font (tty_putc t) ox (uint (ws_col t) - ox) oy s)
      else if p1 = 1 then ramfb_set_cursor ox oy (erase_row font (tty_putc t) 0 (ox + 1) oy s)
      else s)"

definition handle_csi_command :: "font \<Rightarrow> u8 \<Rightarrow> tty \<Rightarrow> console \<Rightarrow> tty \<times> console" where
  "handle_csi_command font c t s =
     (let n = csi_param_count t;
          ps = csi_params t;
          p1 = (if n > 0 \<and> ps ! 0 > 0 then ps ! 0 else 1);
          p2 = (if n > 1 \<and> ps ! 1 > 0 then ps ! 1 else 1);
          q1 = (if n = 0 then 0 else ps ! 0);
          (x, y) = ramfb_get_cursor s;
          finish = (\<lambda>x y s. (t\<lparr>column := x\<rparr>, ramfb_set_cursor x y s))
      in if c = 65 then finish x (clamp (i32 (y - p1)) 0 (uint (ws_row t) - 1)) s
         else if c = 66 then finish x (clamp (i32 (y + p1)) 0 (uint (ws_row t) - 1)) s
         else if c = 67 then finish (clamp (i32 (x + p1)) 0 (uint (ws_col t) - 1)) y s
         else if c = 68 then finish (clamp (i32 (x - p1)) 0 (uint (ws_col t) - 1)) y s
         else if c = 72 \<or> c = 102 then finish (clamp (p2 - 1) 0 (uint (ws_col t) - 1)) (clamp (p1 - 1) 0 (uint (ws_row t) - 1)) s
         else if c = 74 then (case erase_display font q1 x y t s of ((x, y), s) \<Rightarrow> finish x y s)
         else if c = 75 then finish x y (erase_in_line font q1 x y t s)
         else if c = 109 then handle_sgr t s
         else finish x y s)"

definition plain_output :: "font \<Rightarrow> u8 \<Rightarrow> tty \<Rightarrow> console \<Rightarrow> tty \<times> console" where
  "plain_output font c t s =
     (let t = (if c = 10 \<or> c = 13 then t\<lparr>column := 0\<rparr>
               else if c = 9 then t\<lparr>column := (column t + 8) AND NOT 7\<rparr>
               else if c = 8 then (if column t > 0 then t\<lparr>column := column t - 1\<rparr> else t)
               else if c \<ge> 32 then t\<lparr>column := i32 (column t + 1)\<rparr> else t)
      in (t, putc font (tty_putc t) c s))"

definition do_output_char :: "font \<Rightarrow> u8 \<Rightarrow> tty \<Rightarrow> console \<Rightarrow> tty \<times> console" where
  "do_output_char font c t s =
     (if \<not> is_console t then plain_output font c t s
      else case tty_st t of
             TTY_STATE_NORMAL \<Rightarrow>
               if c = 0x1B then (t\<lparr>tty_st := TTY_STATE_ESC\<rparr>, s) else plain_output font c t s
           | TTY_STATE_ESC \<Rightarrow>
               if c = 91 then (t\<lparr>tty_st := TTY_STATE_CSI, csi_param_count := 0, csi_params := (csi_params t)[0 := 0]\<rparr>, s)
               else plain_output font c (t\<lparr>tty_st := TTY_STATE_NORMAL\<rparr>) s
           | TTY_STATE_CSI \<Rightarrow>
               if 48 \<le> c \<and> c \<le> 57
               then let t = (if csi_param_count t = 0 then t\<lparr>csi_param_count := 1\<rparr> else t);
                        i = csi_param_count t - 1
                    in (t\<lparr>csi_params := (csi_params t)[i := i32 (csi_params t ! i * 10 + (uint c - 48))]\<rparr>, s)
               else if c = 59
               then if csi_param_count t < MAX_CSI_PARAMS
                    then (t\<lparr>csi_param_count := csi_param_count t + 1,
                            csi_params := (csi_params t)[csi_param_count t := 0]\<rparr>, s)
                    else (t, s)
               else case handle_csi_command font c t s of (t, s) \<Rightarrow> (t\<lparr>tty_st := TTY_STATE_NORMAL\<rparr>, s))"

definition tty_put_char :: "font \<Rightarrow> u8 \<Rightarrow> tty \<Rightarrow> console \<Rightarrow> tty \<times> console" where
  "tty_put_char font c t s =
     (let oflag = c_oflag (termios t);
          out = (\<lambda>c (t, s). do_output_char font c t s)
      in if has (tty_flags t) TTY_FLUSHING then (t, s)
         else if \<not> has oflag OPOST then out c (t, s)
         else if c = 10 then out 10 (if has oflag ONLCR then out 13 (t, s) else (t, s))
         else if c = 13 \<and> has oflag OCRNL then out 10 (t, s)
         else if c = 13 \<and> has oflag ONOCR \<and> column t = 0 then (t, s)
         else if c = 9 \<and> has oflag TABDLY then (out 32 ^^ nat (8 - c_rem (column t) 8)) (t, s)
         else if has oflag OLCUC \<and> 97 \<le> c \<and> c \<le> 122 then out (c - 32) (t, s)
         else out c (t, s))"

definition tty_write_string :: "font \<Rightarrow> u8 list \<Rightarrow> tty \<times> console \<Rightarrow> tty \<times> console" where
  "tty_write_string font cs ts = fold (\<lambda>c (t, s). tty_put_char font c t s) cs ts"


subsection \<open>The terminals after initialisation\<close>

definition tty_std_termios :: termios where
  "tty_std_termios =
     \<lparr>c_iflag = 0x100 OR 0x400 OR 0x1000 OR 0x4000, c_oflag = OPOST OR ONLCR, c_cflag = 0xF OR 0x30 OR 0x80 OR 0x400,
      c_lflag = 1 OR 2 OR 8 OR 0x10 OR 0x20 OR 0x200 OR 0x800 OR 0x8000, c_line = 0,
      c_cc = [3, 28, 127, 21, 4, 0, 1, 0, 17, 19, 26, 0, 18, 15, 23, 22, 0] @ replicate 15 0\<rparr>"

definition init_tty_struct :: tty where
  "init_tty_struct =
     \<lparr>is_console = False, tty_count = 0, tty_flags = 0, read_buf = replicate 4096 0, read_head = 0, read_tail = 0,
      read_cnt = 0, canon_buf = replicate 255 0, canon_head = 0, canon_column = 0, column = 0, canon_lines = 0,
      tty_st = TTY_STATE_NORMAL, csi_params = replicate 8 0, csi_param_count = 0, tty_fg = 7, tty_bg = 0,
      tty_putc = None, read_wait = 0, write_wait = 0, session = 0, session_id = 0, tty_pgrp = 0,
      termios = tty_std_termios, ws_row = 25, ws_col = 80\<rparr>"

definition tty_init :: "tty \<times> tty" where
  "tty_init =
     (init_tty_struct\<lparr>is_console := True, tty_putc := Some Ramfb_putc, ws_row := 76, ws_col := 170\<rparr>,
      init_tty_struct\<lparr>tty_putc := Some Uart_putc\<rparr>)"

text \<open>The console after \<open>ramfb_init\<close>.\<close>

definition console0 :: console where
  "console0 = ramfb_clear \<lparr>fb_addr = (\<lambda>_. 0), cursor_x = 0, cursor_y = 0, fg_color = 0x00FFFFFF, bg_color = 0, uart_sent = []\<rparr>"

subsection \<open>The cursor and the parameters stay in range\<close>

text \<open>
  \<open>con_ok\<close>: the cursor is on the screen. \<open>out_ok\<close>: the parameters of control sequences are within
  their array and the window is not larger than the screen, as \<open>tty_init\<close> leaves it.
\<close>

definition con_ok :: "console \<Rightarrow> bool" where
  "con_ok s \<longleftrightarrow> 0 \<le> cursor_x s \<and> cursor_x s < MAX_COLS \<and> 0 \<le> cursor_y s \<and> cursor_y s < MAX_ROWS"

definition out_ok :: "tty \<Rightarrow> bool" where
  "out_ok t \<longleftrightarrow> length (csi_params t) = MAX_CSI_PARAMS \<and> csi_param_count t \<le> MAX_CSI_PARAMS \<and>
     tty_fg t < 16 \<and> tty_bg t < 16 \<and> 1 \<le> ws_row t \<and> ws_row t \<le> 76 \<and> 1 \<le> ws_col t \<and> ws_col t \<le> 170"

text \<open>\<open>con_frame s s'\<close>: from \<open>s\<close> to \<open>s'\<close> nothing outside the frame buffer was written.\<close>

definition con_frame :: "console \<Rightarrow> console \<Rightarrow> bool" where
  "con_frame s s' \<longleftrightarrow> (\<forall>i. i < 0 \<or> WIDTH * HEIGHT \<le> i \<longrightarrow> fb_addr s' i = fb_addr s i)"

lemma con_frame_refl [simp]: "con_frame s s"
  by (simp add: con_frame_def)

lemma con_frame_trans: "con_frame s s' \<Longrightarrow> con_frame s' s'' \<Longrightarrow> con_frame s s''"
  by (simp add: con_frame_def)

text \<open>\<open>con_keeps f\<close>: \<open>f\<close> keeps the cursor on the screen and writes within the frame buffer.\<close>

definition con_keeps :: "(console \<Rightarrow> console) \<Rightarrow> bool" where
  "con_keeps f \<longleftrightarrow> (\<forall>s. con_ok s \<longrightarrow> con_ok (f s) \<and> con_frame s (f s))"

lemma con_keepsI: "(\<And>s. con_ok s \<Longrightarrow> con_ok (f s) \<and> con_frame s (f s)) \<Longrightarrow> con_keeps f"
  by (simp add: con_keeps_def)

lemma con_keepsD: "con_keeps f \<Longrightarrow> con_ok s \<Longrightarrow> con_ok (f s) \<and> con_frame s (f s)"
  by (simp add: con_keeps_def)

lemma con_keeps_comp: "con_keeps f \<Longrightarrow> con_keeps g \<Longrightarrow> con_keeps (\<lambda>s. g (f s))"
  unfolding con_keeps_def using con_frame_trans by blast

lemma con_keeps_funpow: "con_keeps f \<Longrightarrow> con_keeps (f ^^ n)"
proof (induction n)
  case (Suc n)
  then show ?case using con_keeps_comp [of "f ^^ n" f] by (simp add: comp_def)
qed (simp add: con_keeps_def)

lemma con_keeps_fold: "(\<And>x. x \<in> set xs \<Longrightarrow> con_keeps (f x)) \<Longrightarrow> con_keeps (fold f xs)"
proof (induction xs)
  case (Cons x xs)
  then show ?case using con_keeps_comp [of "f x" "fold f xs"] by (simp add: comp_def)
qed (simp add: con_keeps_def)

text \<open>\<open>only_draws f\<close>: \<open>f\<close> changes pixels of the frame buffer only.\<close>

definition only_draws :: "(console \<Rightarrow> console) \<Rightarrow> bool" where
  "only_draws f \<longleftrightarrow> (\<forall>s. cursor_x (f s) = cursor_x s \<and> cursor_y (f s) = cursor_y s \<and>
     fg_color (f s) = fg_color s \<and> bg_color (f s) = bg_color s \<and> con_frame s (f s))"

lemma only_draws_fold: "(\<And>x. only_draws (f x)) \<Longrightarrow> only_draws (fold f xs)"
proof (induction xs)
  case (Cons x xs)
  then show ?case unfolding only_draws_def using con_frame_trans by fastforce
qed (simp add: only_draws_def)

lemma only_draws_put_pixel: "only_draws (put_pixel x y c)"
proof -
  have "con_frame s (put_pixel x y c s)" for s
  proof (cases "x < 0 \<or> x \<ge> WIDTH \<or> y < 0 \<or> y \<ge> HEIGHT")
    case False
    then have "0 \<le> y * WIDTH + x" "y * WIDTH + x < WIDTH * HEIGHT" by linarith+
    then show ?thesis using False by (auto simp: put_pixel_def con_frame_def)
  qed (simp add: put_pixel_def con_frame_def)
  then show ?thesis by (simp add: only_draws_def) (simp add: put_pixel_def)
qed

lemma only_draws_char: "only_draws (draw_char_bitmap font x y c fg bg)"
proof -
  have "only_draws (draw_row b x y fg bg)" for b y
    using only_draws_fold [OF only_draws_put_pixel] by (simp add: draw_row_def [abs_def])
  then show ?thesis using only_draws_fold [of "\<lambda>row. draw_row (font c row) x (y + int row) fg bg"]
    by (simp add: draw_char_bitmap_def [abs_def])
qed

lemma draw_at_cursor_same [simp]:
  "cursor_x (draw_at_cursor font c s) = cursor_x s" "cursor_y (draw_at_cursor font c s) = cursor_y s"
  "fg_color (draw_at_cursor font c s) = fg_color s" "bg_color (draw_at_cursor font c s) = bg_color s"
  "con_frame s (draw_at_cursor font c s)"
  using only_draws_char by (simp_all add: only_draws_def draw_at_cursor_def)

lemma scroll_frame: "con_frame s (ramfb_scroll s)"
  by (simp add: con_frame_def ramfb_scroll_def)

lemma wrap_cursor_keeps:
  assumes "0 \<le> cursor_x s" "cursor_x s \<le> MAX_COLS" "0 \<le> cursor_y s" "cursor_y s < MAX_ROWS \<or> cursor_x s = 0"
  shows "con_ok (wrap_cursor s) \<and> con_frame s (wrap_cursor s)"
proof -
  have "con_frame s (s\<lparr>cursor_x := x, cursor_y := y\<rparr>)" "con_frame s ((ramfb_scroll s)\<lparr>cursor_y := y\<rparr>)"
    "con_frame s ((ramfb_scroll (s\<lparr>cursor_x := x, cursor_y := y\<rparr>))\<lparr>cursor_y := y\<rparr>)" for x y
    by (simp_all add: con_frame_def ramfb_scroll_def)
  then show ?thesis using assms unfolding wrap_cursor_def con_ok_def Let_def
    by (cases "cursor_x s \<ge> MAX_COLS"; cases "cursor_y s + 1 \<ge> MAX_ROWS"; cases "cursor_y s \<ge> MAX_ROWS")
      (simp_all add: ramfb_scroll_def Let_def con_frame_def)
qed

lemma ramfb_putc1_keeps: "con_keeps (ramfb_putc1 font c)"
proof (rule con_keepsI)
  fix s assume ok: "con_ok s"
  consider "c = 10" | "c = 8" | "c \<noteq> 10" "c \<noteq> 8" by blast
  then show "con_ok (ramfb_putc1 font c s) \<and> con_frame s (ramfb_putc1 font c s)"
  proof cases
    case 1
    then show ?thesis using wrap_cursor_keeps [of "s\<lparr>cursor_x := 0, cursor_y := cursor_y s + 1\<rparr>"] ok
      by (simp add: ramfb_putc1_def con_ok_def con_frame_def)
  next
    case 2
    define s' where "s' = (if cursor_x s > 0 then s\<lparr>cursor_x := cursor_x s - 1\<rparr>
              else if cursor_y s > 0 then s\<lparr>cursor_y := cursor_y s - 1, cursor_x := MAX_COLS - 1\<rparr> else s)"
    have "con_ok s'" "con_frame s s'" using ok by (simp_all add: s'_def con_ok_def con_frame_def)
    moreover have "ramfb_putc1 font c s = draw_at_cursor font 32 s'" using 2 by (simp add: ramfb_putc1_def s'_def)
    ultimately show ?thesis using con_frame_trans [of s s'] by (simp add: con_ok_def)
  next
    case 3
    let ?s = "(draw_at_cursor font c s)\<lparr>cursor_x := cursor_x s + 1\<rparr>"
    have "con_frame s ?s" using draw_at_cursor_same(5) [of s font c] by (simp add: con_frame_def)
    moreover have "con_ok (wrap_cursor ?s) \<and> con_frame ?s (wrap_cursor ?s)"
      using ok by (intro wrap_cursor_keeps) (simp_all add: con_ok_def)
    moreover have "ramfb_putc1 font c s = wrap_cursor ?s" using 3 by (simp add: ramfb_putc1_def Let_def)
    ultimately show ?thesis using con_frame_trans by auto
  qed
qed

lemma ramfb_putc_keeps: "con_keeps (ramfb_putc font c)"
  using ramfb_putc1_keeps con_keeps_funpow by (cases "c = 9") (auto simp: ramfb_putc_def [abs_def])

lemma putc_keeps: "con_keeps (putc font f c)"
proof (cases f)
  case (Some g)
  then show ?thesis using ramfb_putc_keeps [of font c]
    by (cases g) (auto simp: putc_def [abs_def] con_keeps_def con_ok_def con_frame_def)
qed (simp add: putc_def [abs_def] con_keeps_def)

text \<open>A function that starts by placing the cursor somewhere on the screen.\<close>

lemma con_keeps_set_cursor:
  assumes "con_keeps f" "0 \<le> x" "x < MAX_COLS" "0 \<le> y" "y < MAX_ROWS"
  shows "con_keeps (\<lambda>s. f (ramfb_set_cursor x y s))"
proof -
  have "con_keeps (ramfb_set_cursor x y)"
    using assms(2-) by (intro con_keepsI) (simp add: ramfb_set_cursor_def con_ok_def con_frame_def)
  then show ?thesis using con_keeps_comp assms(1) by blast
qed

lemma con_keeps_id: "con_keeps (\<lambda>s. s)"
  by (simp add: con_keeps_def)

lemmas set_cursor_keeps = con_keeps_set_cursor [OF con_keeps_id]

lemma erase_row_keeps:
  "0 \<le> x \<Longrightarrow> x < MAX_COLS \<Longrightarrow> 0 \<le> y \<Longrightarrow> y < MAX_ROWS \<Longrightarrow> con_keeps (erase_row font f x n y)"
  unfolding erase_row_def by (intro con_keeps_set_cursor con_keeps_funpow putc_keeps)


lemma out_ok_window:
  assumes "out_ok t"
  shows "1 \<le> uint (ws_row t)" "uint (ws_row t) \<le> MAX_ROWS" "1 \<le> uint (ws_col t)" "uint (ws_col t) \<le> MAX_COLS"
  using assms by (auto simp: out_ok_def word_le_def)

lemma erase_display_keeps:
  assumes t: "out_ok t" and s: "con_ok s" and o: "0 \<le> ox" "ox < MAX_COLS" "0 \<le> oy" "oy < MAX_ROWS"
    and e: "erase_display font p1 ox oy t s = ((x, y), s')"
  shows "con_ok s' \<and> con_frame s s' \<and> 0 \<le> x \<and> x < MAX_COLS \<and> 0 \<le> y \<and> y < MAX_ROWS"
proof -
  note w = out_ok_window [OF t]
  have down: "con_keeps (fold (\<lambda>y. let start_col = (if y = oy then ox else 0)
      in erase_row font (tty_putc t) start_col (uint (ws_col t) - start_col) y) [oy..uint (ws_row t) - 1])"
    using o w by (intro con_keeps_fold) (auto simp: Let_def intro!: erase_row_keeps)
  have up: "con_keeps (fold (\<lambda>y. let end_col = (if y = oy then ox else uint (ws_col t) - 1)
      in erase_row font (tty_putc t) 0 (end_col + 1) y) [0..oy])"
    using o w by (intro con_keeps_fold) (auto simp: Let_def intro!: erase_row_keeps)
  have clear: "con_keeps ramfb_clear" by (intro con_keepsI) (simp add: ramfb_clear_def con_ok_def con_frame_def)
  note K = con_keepsD [OF con_keeps_comp [OF down set_cursor_keeps [OF o]] s]
    con_keepsD [OF con_keeps_comp [OF up set_cursor_keeps [OF o]] s] con_keepsD [OF clear s]
  consider "p1 = 2" | "p1 = 0" | "p1 = 1" | "p1 \<noteq> 0" "p1 \<noteq> 1" "p1 \<noteq> 2" by blast
  then show ?thesis
  proof cases
    case 1
    then have "x = 0 \<and> y = 0 \<and> s' = ramfb_clear s" using e by (simp add: erase_display_def)
    then show ?thesis using K(3) by simp
  next
    case 2
    have "erase_display font p1 ox oy t s = ((ox, oy), ramfb_set_cursor ox oy (fold (\<lambda>y. let start_col = (if y = oy then ox else 0)
      in erase_row font (tty_putc t) start_col (uint (ws_col t) - start_col) y) [oy..uint (ws_row t) - 1] s))"
      unfolding erase_display_def 2 by (simp only: Let_def zero_neq_numeral simp_thms if_False if_True prod.inject)
    then show ?thesis using K(1) o e by auto
  next
    case 3
    have "erase_display font p1 ox oy t s = ((ox, oy), ramfb_set_cursor ox oy (fold (\<lambda>y. let end_col = (if y = oy then ox else uint (ws_col t) - 1)
      in erase_row font (tty_putc t) 0 (end_col + 1) y) [0..oy] s))"
      unfolding erase_display_def 3 by (simp only: Let_def one_neq_zero one_eq_numeral_iff num.distinct simp_thms if_False if_True prod.inject)
    then show ?thesis using K(2) o e by auto
  next
    case 4
    then show ?thesis using e o s by (simp add: erase_display_def)
  qed
qed

lemma erase_back_keeps:
  assumes "con_keeps f" "0 \<le> x" "x < MAX_COLS" and o: "0 \<le> ox" "ox < MAX_COLS" "0 \<le> oy" "oy < MAX_ROWS"
  shows "con_keeps (\<lambda>s. ramfb_set_cursor ox oy ((f ^^ n) (ramfb_set_cursor x oy s)))"
proof -
  have "con_keeps (\<lambda>s. (f ^^ n) (ramfb_set_cursor x oy s))"
    by (rule con_keeps_set_cursor [OF con_keeps_funpow [OF assms(1)]]) (use assms in auto)
  from con_keeps_comp [OF this set_cursor_keeps [OF o]] show ?thesis .
qed

lemma rmline_keeps: "con_ok s \<Longrightarrow> con_ok (rmline font s) \<and> con_frame s (rmline font s)"
proof -
  assume s: "con_ok s"
  then have o: "0 \<le> cursor_x s" "cursor_x s < MAX_COLS" "0 \<le> cursor_y s" "cursor_y s < MAX_ROWS"
    by (simp_all add: con_ok_def)
  have "con_keeps (\<lambda>s'. ramfb_set_cursor (cursor_x s) (cursor_y s)
      ((ramfb_putc font 32 ^^ nat MAX_COLS) (ramfb_set_cursor 0 (cursor_y s) s')))"
    by (rule erase_back_keeps [OF ramfb_putc_keeps _ _ o]) simp_all
  from con_keepsD [OF this s] show ?thesis unfolding rmline_def ramfb_get_cursor_def Let_def prod.case .
qed

lemma erase_in_line_keeps:
  assumes s: "con_ok s" and o: "0 \<le> ox" "ox < MAX_COLS" "0 \<le> oy" "oy < MAX_ROWS"
  shows "con_ok (erase_in_line font p1 ox oy t s) \<and> con_frame s (erase_in_line font p1 ox oy t s)"
proof -
  note K = con_keepsD [OF erase_back_keeps [OF putc_keeps o(1,2) o] s]
    con_keepsD [OF erase_back_keeps [OF putc_keeps _ _ o, of 0] s]
  show ?thesis using K rmline_keeps [OF s] s by (simp add: erase_in_line_def erase_row_def)
qed

lemma clamp_range: "0 \<le> hi \<Longrightarrow> 0 \<le> clamp v 0 hi \<and> clamp v 0 hi \<le> hi"
  by (simp add: clamp_def)

text \<open>\<open>keeps t s (t', s')\<close>: what every output operation guarantees.\<close>

definition keeps :: "tty \<Rightarrow> console \<Rightarrow> tty \<times> console \<Rightarrow> bool" where
  "keeps t s r \<longleftrightarrow> out_ok (fst r) \<and> con_ok (snd r) \<and> con_frame s (snd r) \<and>
     is_console (fst r) = is_console t \<and> termios (fst r) = termios t \<and> tty_putc (fst r) = tty_putc t \<and>
     ws_row (fst r) = ws_row t \<and> ws_col (fst r) = ws_col t"

lemma keeps_if: "(P \<Longrightarrow> keeps t s a) \<Longrightarrow> (\<not> P \<Longrightarrow> keeps t s b) \<Longrightarrow> keeps t s (if P then a else b)"
  by simp

lemma handle_sgr_keeps:
  assumes "out_ok t" "con_ok s"
  shows "keeps t s (handle_sgr t s)"
proof -
  have p: "out_ok (sgr_param n u) \<and> is_console (sgr_param n u) = is_console u \<and> termios (sgr_param n u) = termios u \<and>
      tty_putc (sgr_param n u) = tty_putc u \<and> ws_row (sgr_param n u) = ws_row u \<and> ws_col (sgr_param n u) = ws_col u" if "out_ok u" for n u
    using that by (auto simp: sgr_param_def out_ok_def)
  have f: "out_ok u \<Longrightarrow> out_ok (fold sgr_param ns u) \<and> is_console (fold sgr_param ns u) = is_console u \<and>
      termios (fold sgr_param ns u) = termios u \<and> tty_putc (fold sgr_param ns u) = tty_putc u \<and>
      ws_row (fold sgr_param ns u) = ws_row u \<and> ws_col (fold sgr_param ns u) = ws_col u" for ns u
    by (induction ns arbitrary: u) (use p in auto)
  have u: "con_ok (tty_update_color u s) \<and> con_frame s (tty_update_color u s)" for u
    using assms(2) by (auto simp: tty_update_color_def con_ok_def con_frame_def Let_def)
  show ?thesis using f [OF assms(1)] u assms(1) by (auto simp: handle_sgr_def keeps_def Let_def out_ok_def)
qed

lemma handle_csi_keeps:
  assumes t: "out_ok t" and s: "con_ok s"
  shows "keeps t s (handle_csi_command font c t s)"
proof -
  note w = out_ok_window [OF t]
  have cur: "0 \<le> cursor_x s" "cursor_x s < MAX_COLS" "0 \<le> cursor_y s" "cursor_y s < MAX_ROWS"
    using s by (simp_all add: con_ok_def)
  have fin: "keeps t s (t\<lparr>column := x\<rparr>, ramfb_set_cursor x y s')"
    if "con_frame s s'" "0 \<le> x" "x < MAX_COLS" "0 \<le> y" "y < MAX_ROWS" for x y s'
    using that t by (auto simp: keeps_def out_ok_def con_ok_def con_frame_def ramfb_set_cursor_def)
  have row: "0 \<le> clamp v 0 (uint (ws_row t) - 1)" "clamp v 0 (uint (ws_row t) - 1) < MAX_ROWS" for v
    using clamp_range [of "uint (ws_row t) - 1" v] w by linarith+
  have col: "0 \<le> clamp v 0 (uint (ws_col t) - 1)" "clamp v 0 (uint (ws_col t) - 1) < MAX_COLS" for v
    using clamp_range [of "uint (ws_col t) - 1" v] w by linarith+
  have disp: "keeps t s (case erase_display font q (cursor_x s) (cursor_y s) t s of
      ((x, y), s') \<Rightarrow> (t\<lparr>column := x\<rparr>, ramfb_set_cursor x y s'))" for q
    using erase_display_keeps [OF t s cur] by (auto split: prod.split intro!: fin)
  show ?thesis unfolding handle_csi_command_def Let_def ramfb_get_cursor_def prod.case
    using handle_sgr_keeps [OF t s] disp erase_in_line_keeps [OF s cur] cur row col
    by (intro keeps_if) (auto intro!: fin)
qed

lemma plain_output_keeps: "out_ok t \<Longrightarrow> con_ok s \<Longrightarrow> keeps t s (plain_output font c t s)"
  using con_keepsD [OF putc_keeps] by (auto simp: plain_output_def keeps_def out_ok_def Let_def)

lemma do_output_char_keeps:
  assumes t: "out_ok t" and s: "con_ok s"
  shows "keeps t s (do_output_char font c t s)"
proof (cases "is_console t")
  case True
  show ?thesis
  proof (cases "tty_st t")
    case TTY_STATE_NORMAL
    then show ?thesis using True plain_output_keeps [OF t s] t s
      by (auto simp: do_output_char_def keeps_def out_ok_def)
  next
    case TTY_STATE_ESC
    have "keeps t s (plain_output font c (t\<lparr>tty_st := TTY_STATE_NORMAL\<rparr>) s)"
      using plain_output_keeps [of "t\<lparr>tty_st := TTY_STATE_NORMAL\<rparr>" s font c] t s by (simp add: keeps_def out_ok_def)
    then show ?thesis using True TTY_STATE_ESC t s by (auto simp: do_output_char_def keeps_def out_ok_def)
  next
    case TTY_STATE_CSI
    obtain t' s' where h: "handle_csi_command font c t s = (t', s')" by (cases "handle_csi_command font c t s")
    show ?thesis using True TTY_STATE_CSI t s handle_csi_keeps [OF t s, of font c] h
      by (auto simp: do_output_char_def keeps_def out_ok_def Let_def)
  qed
qed (simp add: do_output_char_def plain_output_keeps t s)

lemma keeps_trans: "keeps t s (t', s') \<Longrightarrow> keeps t' s' r \<Longrightarrow> keeps t s r"
  using con_frame_trans by (auto simp: keeps_def)

lemma tty_put_char_keeps:
  assumes t: "out_ok t" and s: "con_ok s"
  shows "keeps t s (tty_put_char font c t s)"
proof -
  let ?out = "\<lambda>c (t, s). do_output_char font c t s"
  have z: "keeps t s (t, s)" using assms by (simp add: keeps_def)
  have o: "keeps t s (?out d r)" if "keeps t s r" for d r
  proof -
    obtain t' s' where r: "r = (t', s')" by (cases r)
    then have "out_ok t'" "con_ok s'" using that by (auto simp: keeps_def)
    then show ?thesis using keeps_trans [of t s t' s'] do_output_char_keeps that r by simp
  qed
  have p: "keeps t s ((?out d ^^ n) (t, s))" for d n by (induction n) (use z o in auto)
  show ?thesis unfolding tty_put_char_def Let_def by (intro keeps_if o p z)
qed

text \<open>
  C27. As long as the window size of a terminal is not larger than the 170 x 76 screen, as \<open>tty_init\<close> sets it, whatever bytes are
  written to the terminal, control sequences of any form included, the cursor stays on the
  screen, the parameters of control sequences stay within their array of eight, the colours are among the
  sixteen, and no store goes outside the frame buffer; the settings and the window size of the terminal are unchanged.
\<close>

theorem tty_output_safe:
  assumes "length (csi_params t) = MAX_CSI_PARAMS" "csi_param_count t \<le> MAX_CSI_PARAMS" "tty_fg t < 16" "tty_bg t < 16"
    and "1 \<le> ws_row t" "ws_row t \<le> 76" "1 \<le> ws_col t" "ws_col t \<le> 170"
    and "0 \<le> cursor_x s" "cursor_x s < 170" "0 \<le> cursor_y s" "cursor_y s < 76"
  shows "case tty_write_string font cs (t, s) of (t', s') \<Rightarrow>
    length (csi_params t') = MAX_CSI_PARAMS \<and> csi_param_count t' \<le> MAX_CSI_PARAMS \<and> tty_fg t' < 16 \<and> tty_bg t' < 16 \<and>
    ws_row t' = ws_row t \<and> ws_col t' = ws_col t \<and> termios t' = termios t \<and>
    0 \<le> cursor_x s' \<and> cursor_x s' < 170 \<and> 0 \<le> cursor_y s' \<and> cursor_y s' < 76 \<and>
    (\<forall>i. i < 0 \<or> 1366 * 768 \<le> i \<longrightarrow> fb_addr s' i = fb_addr s i)"
proof -
  have ok: "out_ok t" "con_ok s" using assms by (simp_all add: out_ok_def con_ok_def)
  have "keeps t s (fold (\<lambda>c (t, s). tty_put_char font c t s) cs r)" if "keeps t s r" for r
    using that
  proof (induction cs arbitrary: r)
    case (Cons c cs)
    obtain t' s' where r: "r = (t', s')" by (cases r)
    then have "out_ok t'" "con_ok s'" using Cons.prems by (auto simp: keeps_def)
    then have "keeps t s (tty_put_char font c t' s')" using keeps_trans tty_put_char_keeps Cons.prems r by blast
    then show ?case using Cons.IH r by simp
  qed simp
  from this [of "(t, s)"] show ?thesis using ok
    by (auto simp: tty_write_string_def keeps_def out_ok_def con_ok_def con_frame_def split: prod.splits)
qed


lemma tty_init_out_ok: "out_ok (fst tty_init)"
  by (simp add: tty_init_def init_tty_struct_def out_ok_def)

lemma console0_ok: "con_ok console0"
  by (simp add: console0_def con_ok_def ramfb_clear_def)

text \<open>A sequence with a parameter that overflows, \<open>ESC [ 9999999999 B\<close>, and an unfinished one.\<close>

theorem tty_output_safe_witness:
  "case tty_write_string (\<lambda>_ _. 0) ([0x1B, 91] @ replicate 10 57 @ [66, 0x1B, 91, 59, 59]) (fst tty_init, console0) of
     (t', s') \<Rightarrow> csi_param_count t' \<le> MAX_CSI_PARAMS \<and> 0 \<le> cursor_y s' \<and> cursor_y s' < 76"
  using tty_output_safe [of "fst tty_init" console0 "\<lambda>_ _. 0" "[0x1B, 91] @ replicate 10 57 @ [66, 0x1B, 91, 59, 59]"]
    tty_init_out_ok console0_ok
  by (simp only: split_beta out_ok_def con_ok_def)

text \<open>
  The condition on the window is needed: \<open>TIOCSWINSZ\<close> stores any size, and then a control sequence moves the cursor to a row
  that the screen does not have. Here the window has 200 rows, and \<open>ESC [ 999 B\<close> moves the cursor to row 199.
\<close>

lemma window_moves_cursor_off:
  "cursor_y (snd (tty_write_string (\<lambda>_ _. 0) [0x1B, 91, 57, 57, 57, 66] ((fst tty_init)\<lparr>ws_row := 200\<rparr>, console0))) = 199"
  by (simp add: tty_write_string_def tty_put_char_def do_output_char_def handle_csi_command_def tty_init_def init_tty_struct_def
      console0_def tty_std_termios_def Let_def split_beta has_def clamp_def ramfb_clear_def ramfb_set_cursor_def ramfb_get_cursor_def i32_def)

subsection \<open>The screen as text\<close>

text \<open>
  What a user sees: a screen of cells. A cell shows a character in two colours, or is blank in the background colour
  of the time it was cleared. Below the last row of text the frame buffer has eight more rows of pixels; \<open>strip\<close> is
  the colour they have, which a scroll moves into the last row of text.
\<close>

datatype cell = Glyph u8 u32 u32 | Blank u32

record screen =
  cells :: "int \<Rightarrow> int \<Rightarrow> cell"
  cx :: int
  cy :: int
  fg :: u32
  bg :: u32
  strip :: u32

definition cell_pixel :: "font \<Rightarrow> cell \<Rightarrow> nat \<Rightarrow> nat \<Rightarrow> u32" where
  "cell_pixel font ce row col =
     (case ce of Glyph c f b \<Rightarrow> if bit (font c row) (7 - col) then f else b | Blank b \<Rightarrow> b)"

definition displays :: "font \<Rightarrow> console \<Rightarrow> screen \<Rightarrow> bool" where
  "displays font s d \<longleftrightarrow> cx d = cursor_x s \<and> cy d = cursor_y s \<and> fg d = fg_color s \<and> bg d = bg_color s \<and>
     (\<forall>x y row col. 0 \<le> x \<and> x < MAX_COLS \<and> 0 \<le> y \<and> y < MAX_ROWS \<and> row < 8 \<and> col < 8 \<longrightarrow>
        fb_addr s ((y * CHAR_HEIGHT + int row) * WIDTH + (x * CHAR_WIDTH + int col)) = cell_pixel font (cells d x y) row col) \<and>
     (\<forall>x row. 0 \<le> x \<and> x < MAX_COLS * CHAR_WIDTH \<and> row < 8 \<longrightarrow>
        fb_addr s ((MAX_ROWS * CHAR_HEIGHT + int row) * WIDTH + x) = strip d)"

definition a_scroll :: "screen \<Rightarrow> screen" where
  "a_scroll d = d\<lparr>cells := (\<lambda>x y. if y < MAX_ROWS - 1 then cells d x (y + 1) else Blank (strip d)), strip := bg d\<rparr>"

definition a_draw :: "u8 \<Rightarrow> screen \<Rightarrow> screen" where
  "a_draw c d = d\<lparr>cells := (\<lambda>x y. if x = cx d \<and> y = cy d then Glyph c (fg d) (bg d) else cells d x y)\<rparr>"

definition a_wrap :: "screen \<Rightarrow> screen" where
  "a_wrap d =
     (let d = (if cx d \<ge> MAX_COLS then d\<lparr>cx := 0, cy := cy d + 1\<rparr> else d)
      in if cy d \<ge> MAX_ROWS then (a_scroll d)\<lparr>cy := MAX_ROWS - 1\<rparr> else d)"

definition a_putc1 :: "u8 \<Rightarrow> screen \<Rightarrow> screen" where
  "a_putc1 c d =
     (if c = 10 then a_wrap (d\<lparr>cx := 0, cy := cy d + 1\<rparr>)
      else if c = 8
      then a_draw 32 (if cx d > 0 then d\<lparr>cx := cx d - 1\<rparr>
                      else if cy d > 0 then d\<lparr>cy := cy d - 1, cx := MAX_COLS - 1\<rparr> else d)
      else let d = a_draw c d in a_wrap (d\<lparr>cx := cx d + 1\<rparr>))"

definition a_putc :: "u8 \<Rightarrow> screen \<Rightarrow> screen" where
  "a_putc c d = (if c = 9 then (a_putc1 32 ^^ 4) d else a_putc1 c d)"

lemma pixel_inj:
  assumes "0 \<le> x" "x < WIDTH" "0 \<le> x'" "x' < WIDTH"
  shows "y * WIDTH + x = y' * WIDTH + x' \<longleftrightarrow> y = y' \<and> x = x'"
proof
  assume e: "y * WIDTH + x = y' * WIDTH + x'"
  have "(y * WIDTH + x) div WIDTH = y" "(y' * WIDTH + x') div WIDTH = y'" using assms by simp_all
  then show "y = y' \<and> x = x'" using e by simp
qed simp

lemma put_pixel_fb:
  assumes "0 \<le> x" "x < WIDTH" "0 \<le> y" "y < HEIGHT" "0 \<le> px" "px < WIDTH"
  shows "fb_addr (put_pixel x y c s) (py * WIDTH + px) = (if py = y \<and> px = x then c else fb_addr s (py * WIDTH + px))"
  using assms pixel_inj [of px x py y] by (auto simp: put_pixel_def)

lemma draw_row_fb:
  assumes "0 \<le> x" "x + 8 \<le> WIDTH" "0 \<le> y" "y < HEIGHT" "0 \<le> px" "px < WIDTH"
  shows "fb_addr (draw_row bits x y f g s) (py * WIDTH + px) =
    (if py = y \<and> x \<le> px \<and> px < x + 8 then if bit bits (7 - nat (px - x)) then f else g else fb_addr s (py * WIDTH + px))"
proof -
  have "n \<le> 8 \<Longrightarrow> fb_addr (fold (\<lambda>col. put_pixel (x + int col) y (if bit bits (7 - col) then f else g)) [0..<n] s) (py * WIDTH + px) =
    (if py = y \<and> x \<le> px \<and> px < x + int n then if bit bits (7 - nat (px - x)) then f else g else fb_addr s (py * WIDTH + px))" for n
  proof (induction n)
    case (Suc n)
    have "px = x + int n \<Longrightarrow> nat (px - x) = n" by simp
    then show ?case using Suc assms put_pixel_fb [of "x + int n" y px] by auto
  qed auto
  from this [of 8] show ?thesis by (simp add: draw_row_def)
qed

lemma draw_char_fb:
  assumes "0 \<le> x" "x + 8 \<le> WIDTH" "0 \<le> y" "y + 8 \<le> HEIGHT" "0 \<le> px" "px < WIDTH"
  shows "fb_addr (draw_char_bitmap font x y c f g s) (py * WIDTH + px) =
    (if y \<le> py \<and> py < y + 8 \<and> x \<le> px \<and> px < x + 8 then if bit (font c (nat (py - y))) (7 - nat (px - x)) then f else g
     else fb_addr s (py * WIDTH + px))"
proof -
  have "n \<le> 8 \<Longrightarrow> fb_addr (fold (\<lambda>row. draw_row (font c row) x (y + int row) f g) [0..<n] s) (py * WIDTH + px) =
    (if y \<le> py \<and> py < y + int n \<and> x \<le> px \<and> px < x + 8 then if bit (font c (nat (py - y))) (7 - nat (px - x)) then f else g
     else fb_addr s (py * WIDTH + px))" for n
  proof (induction n)
    case (Suc n)
    have "py = y + int n \<Longrightarrow> nat (py - y) = n" by simp
    then show ?case using Suc assms draw_row_fb [of x "y + int n" px] by auto
  qed auto
  from this [of 8] show ?thesis by (simp add: draw_char_bitmap_def)
qed

lemma displaysD:
  assumes "displays font s d"
  shows "cx d = cursor_x s" "cy d = cursor_y s" "fg d = fg_color s" "bg d = bg_color s"
    "\<And>x y row col. 0 \<le> x \<Longrightarrow> x < MAX_COLS \<Longrightarrow> 0 \<le> y \<Longrightarrow> y < MAX_ROWS \<Longrightarrow> row < 8 \<Longrightarrow> col < 8 \<Longrightarrow>
       fb_addr s ((y * CHAR_HEIGHT + int row) * WIDTH + (x * CHAR_WIDTH + int col)) = cell_pixel font (cells d x y) row col"
    "\<And>x row. 0 \<le> x \<Longrightarrow> x < MAX_COLS * CHAR_WIDTH \<Longrightarrow> row < 8 \<Longrightarrow>
       fb_addr s ((MAX_ROWS * CHAR_HEIGHT + int row) * WIDTH + x) = strip d"
  using assms by (simp_all add: displays_def)

lemma displaysI:
  assumes "cx d = cursor_x s" "cy d = cursor_y s" "fg d = fg_color s" "bg d = bg_color s"
    "\<And>x y row col. 0 \<le> x \<Longrightarrow> x < MAX_COLS \<Longrightarrow> 0 \<le> y \<Longrightarrow> y < MAX_ROWS \<Longrightarrow> row < 8 \<Longrightarrow> col < 8 \<Longrightarrow>
       fb_addr s ((y * CHAR_HEIGHT + int row) * WIDTH + (x * CHAR_WIDTH + int col)) = cell_pixel font (cells d x y) row col"
    "\<And>x row. 0 \<le> x \<Longrightarrow> x < MAX_COLS * CHAR_WIDTH \<Longrightarrow> row < 8 \<Longrightarrow>
       fb_addr s ((MAX_ROWS * CHAR_HEIGHT + int row) * WIDTH + x) = strip d"
  shows "displays font s d"
  using assms by (simp add: displays_def)

lemma displays_cursor:
  "displays font s d \<Longrightarrow> displays font (s\<lparr>cursor_x := x, cursor_y := y\<rparr>) (d\<lparr>cx := x, cy := y\<rparr>)"
  "displays font s d \<Longrightarrow> displays font (s\<lparr>cursor_x := x\<rparr>) (d\<lparr>cx := x\<rparr>)"
  "displays font s d \<Longrightarrow> displays font (s\<lparr>cursor_y := y\<rparr>) (d\<lparr>cy := y\<rparr>)"
  by (simp_all add: displays_def)

lemma displays_draw:
  assumes d: "displays font s d" and ok: "con_ok s"
  shows "displays font (draw_at_cursor font c s) (a_draw c d)"
proof (rule displaysI)
  let ?x = "cursor_x s * CHAR_WIDTH" and ?y = "cursor_y s * CHAR_HEIGHT"
  have o: "0 \<le> ?x" "?x + 8 \<le> WIDTH" "0 \<le> ?y" "?y + 8 \<le> HEIGHT" "?y + 8 \<le> MAX_ROWS * CHAR_HEIGHT"
    using ok by (auto simp: con_ok_def)
  show "fb_addr (draw_at_cursor font c s) ((y * CHAR_HEIGHT + int row) * WIDTH + (x * CHAR_WIDTH + int col)) =
      cell_pixel font (cells (a_draw c d) x y) row col"
    if b: "0 \<le> x" "x < MAX_COLS" "0 \<le> y" "y < MAX_ROWS" "row < 8" "col < 8" for x y row col
  proof (cases "x = cursor_x s \<and> y = cursor_y s")
    case True
    then show ?thesis using draw_char_fb [OF o(1-4), of "x * CHAR_WIDTH + int col" font c "fg_color s" "bg_color s" s
        "y * CHAR_HEIGHT + int row"] b displaysD(1-4) [OF d]
      by (simp add: draw_at_cursor_def a_draw_def cell_pixel_def)
  next
    case False
    then have n: "\<not> (?y \<le> y * CHAR_HEIGHT + int row \<and> y * CHAR_HEIGHT + int row < ?y + 8 \<and>
        ?x \<le> x * CHAR_WIDTH + int col \<and> x * CHAR_WIDTH + int col < ?x + 8)"
    proof -
      have "x < cursor_x s \<or> x > cursor_x s \<or> y < cursor_y s \<or> y > cursor_y s" using False by linarith
      then show ?thesis using b by (elim disjE) simp_all
    qed
    have "0 \<le> x * CHAR_WIDTH + int col" "x * CHAR_WIDTH + int col < WIDTH" using b by linarith+
    from draw_char_fb [OF o(1-4) this, of font c "fg_color s" "bg_color s" s "y * CHAR_HEIGHT + int row"]
    show ?thesis using n False displaysD(5) [OF d b] displaysD(1,2) [OF d] by (auto simp add: draw_at_cursor_def a_draw_def)
  qed
  show "fb_addr (draw_at_cursor font c s) ((MAX_ROWS * CHAR_HEIGHT + int row) * WIDTH + x) = strip (a_draw c d)"
    if b: "0 \<le> x" "x < MAX_COLS * CHAR_WIDTH" "row < 8" for x row
    using draw_char_fb [OF o(1-4), of x font c "fg_color s" "bg_color s" s "MAX_ROWS * CHAR_HEIGHT + int row"] b o(5)
      displaysD(6) [OF d b] by (simp add: draw_at_cursor_def a_draw_def)
qed (simp_all add: a_draw_def displaysD(1-4) [OF d])

lemma displays_scroll:
  assumes d: "displays font s d"
  shows "displays font (ramfb_scroll s) (a_scroll d)"
proof (rule displaysI)
  show "fb_addr (ramfb_scroll s) ((y * CHAR_HEIGHT + int row) * WIDTH + (x * CHAR_WIDTH + int col)) =
      cell_pixel font (cells (a_scroll d) x y) row col"
    if b: "0 \<le> x" "x < MAX_COLS" "0 \<le> y" "y < MAX_ROWS" "row < 8" "col < 8" for x y row col
  proof -
    let ?i = "(y * CHAR_HEIGHT + int row) * WIDTH + (x * CHAR_WIDTH + int col)"
    have "int row \<le> 7" "int col \<le> 7" using b by simp_all
    then have "0 \<le> ?i" "?i < WIDTH * HEIGHT - WIDTH * CHAR_HEIGHT" using b by simp_all
    then have e: "fb_addr (ramfb_scroll s) ?i = fb_addr s (?i + WIDTH * CHAR_HEIGHT)" by (simp add: ramfb_scroll_def)
    show ?thesis
    proof (cases "y < MAX_ROWS - 1")
      case True
      then show ?thesis using displaysD(5) [OF d, of x "y + 1" row col] b e by (simp add: a_scroll_def algebra_simps)
    next
      case False
      then have "y = 75" using b by simp
      then show ?thesis using displaysD(6) [OF d, of "x * CHAR_WIDTH + int col" row] b e
        by (simp add: a_scroll_def cell_pixel_def algebra_simps)
    qed
  qed
  show "fb_addr (ramfb_scroll s) ((MAX_ROWS * CHAR_HEIGHT + int row) * WIDTH + x) = strip (a_scroll d)"
    if b: "0 \<le> x" "x < MAX_COLS * CHAR_WIDTH" "row < 8" for x row
    using b displaysD(4) [OF d] by (simp add: ramfb_scroll_def a_scroll_def)
qed (simp_all add: ramfb_scroll_def a_scroll_def displaysD(1-4) [OF d])

lemma displays_wrap:
  assumes "displays font s d"
  shows "displays font (wrap_cursor s) (a_wrap d)"
proof -
  define s1 where "s1 = (if cursor_x s \<ge> MAX_COLS then s\<lparr>cursor_x := 0, cursor_y := cursor_y s + 1\<rparr> else s)"
  define d1 where "d1 = (if cx d \<ge> MAX_COLS then d\<lparr>cx := 0, cy := cy d + 1\<rparr> else d)"
  have D: "displays font s1 d1" using displays_cursor(1) [OF assms] assms displaysD(1,2) [OF assms] by (simp add: s1_def d1_def)
  have "wrap_cursor s = (if cursor_y s1 \<ge> MAX_ROWS then (ramfb_scroll s1)\<lparr>cursor_y := MAX_ROWS - 1\<rparr> else s1)"
    "a_wrap d = (if cy d1 \<ge> MAX_ROWS then (a_scroll d1)\<lparr>cy := MAX_ROWS - 1\<rparr> else d1)"
    by (simp_all add: wrap_cursor_def a_wrap_def s1_def d1_def Let_def)
  then show ?thesis using D displaysD(2) [OF D] displays_cursor(3) [OF displays_scroll [OF D]] by simp
qed

lemma displays_putc1:
  assumes d: "displays font s d" and ok: "con_ok s"
  shows "displays font (ramfb_putc1 font c s) (a_putc1 c d)"
proof -
  consider "c = 10" | "c = 8" | "c \<noteq> 10" "c \<noteq> 8" by blast
  then show ?thesis
  proof cases
    case 1
    then show ?thesis using displays_wrap [OF displays_cursor(1) [OF d, where x = 0 and y = "cursor_y s + 1"]] displaysD(2) [OF d]
      by (simp add: ramfb_putc1_def a_putc1_def)
  next
    case 2
    define s' where "s' = (if cursor_x s > 0 then s\<lparr>cursor_x := cursor_x s - 1\<rparr>
        else if cursor_y s > 0 then s\<lparr>cursor_y := cursor_y s - 1, cursor_x := MAX_COLS - 1\<rparr> else s)"
    define d' where "d' = (if cx d > 0 then d\<lparr>cx := cx d - 1\<rparr>
        else if cy d > 0 then d\<lparr>cy := cy d - 1, cx := MAX_COLS - 1\<rparr> else d)"
    have "displays font s' d'" unfolding s'_def d'_def displaysD(1,2) [OF d]
      using d by (auto intro: displays_cursor(2) simp: displays_def)
    moreover have "con_ok s'" using ok by (simp add: s'_def con_ok_def)
    ultimately have "displays font (draw_at_cursor font 32 s') (a_draw 32 d')" by (rule displays_draw)
    then show ?thesis using 2 by (simp add: ramfb_putc1_def a_putc1_def s'_def d'_def)
  next
    case 3
    have "displays font (draw_at_cursor font c s) (a_draw c d)" using displays_draw [OF d ok] .
    from displays_wrap [OF displays_cursor(2) [OF this, of "cursor_x s + 1"]] show ?thesis
      using 3 displaysD(1) [OF d] by (simp add: ramfb_putc1_def a_putc1_def Let_def a_draw_def)
  qed
qed

lemma displays_funpow:
  assumes step: "\<And>s d. displays font s d \<Longrightarrow> con_ok s \<Longrightarrow> displays font (f s) (g d)" and k: "con_keeps f"
    and d: "displays font s d" and ok: "con_ok s"
  shows "displays font ((f ^^ n) s) ((g ^^ n) d) \<and> con_ok ((f ^^ n) s)"
  by (induction n) (use d ok step con_keepsD [OF k] in auto)

lemma displays_putc:
  assumes d: "displays font s d" and ok: "con_ok s"
  shows "displays font (ramfb_putc font c s) (a_putc c d)"
proof (cases "c = 9")
  case True
  have "displays font ((ramfb_putc1 font 32 ^^ 4) s) ((a_putc1 32 ^^ 4) d)"
    using displays_funpow [of font "ramfb_putc1 font 32" "a_putc1 32", OF displays_putc1 ramfb_putc1_keeps d ok] by blast
  then show ?thesis using True by (simp only: ramfb_putc_def a_putc_def simp_thms if_True)
next
  case False
  then show ?thesis using displays_putc1 [OF d ok] by (simp only: ramfb_putc_def a_putc_def if_False)
qed

text \<open>
  C28. The console implements a teletype. If the frame buffer displays a screen of text, then after
  \<open>ramfb_putc\<close> it displays the screen after the abstract operation: the character is in its cell in
  the current colours and all other cells are as before, the cursor has moved on, wrapped or gone back, and at the bottom
  the text has moved up by one line.
\<close>

theorem ramfb_putc_refines:
  assumes d: "displays font s d" and ok: "con_ok s"
  shows "displays font (ramfb_putc font c s) (a_putc c d) \<and> con_ok (ramfb_putc font c s)"
  using displays_putc [OF d ok] con_keepsD [OF ramfb_putc_keeps ok] by blast

text \<open>The cleared screen after initialisation.\<close>

definition screen0 :: screen where
  "screen0 = \<lparr>cells = (\<lambda>_ _. Blank 0), cx = 0, cy = 0, fg = 0x00FFFFFF, bg = 0, strip = 0\<rparr>"

lemma displays0: "displays font console0 screen0"
  by (rule displaysI) (simp_all add: console0_def screen0_def ramfb_clear_def cell_pixel_def)

theorem ramfb_putc_refines_witness:
  "\<exists>d. displays (\<lambda>_ _. 0x18) (ramfb_putc (\<lambda>_ _. 0x18) 65 console0) d \<and> cells d 0 0 = Glyph 65 0x00FFFFFF 0 \<and> cx d = 1"
  by (rule exI [of _ "a_putc 65 screen0"])
    (use ramfb_putc_refines [OF displays0 console0_ok, of "\<lambda>_ _. 0x18" 65] in
      \<open>simp add: a_putc_def a_putc1_def a_draw_def a_wrap_def screen0_def Let_def\<close>)

subsection \<open>Erasing the last line\<close>

lemma a_putc_space: "a_putc 32 d = a_wrap ((a_draw 32 d)\<lparr>cx := cx d + 1\<rparr>)"
  by (simp add: a_putc_def a_putc1_def a_draw_def Let_def)

lemma a_spaces:
  assumes "cx d + int n < MAX_COLS" "cy d < MAX_ROWS"
  shows "cx ((a_putc 32 ^^ n) d) = cx d + int n \<and> cy ((a_putc 32 ^^ n) d) = cy d \<and>
    (\<forall>x y. y \<noteq> cy d \<longrightarrow> cells ((a_putc 32 ^^ n) d) x y = cells d x y)"
  using assms
proof (induction n)
  case (Suc n)
  then show ?case by (simp add: a_putc_space a_wrap_def a_draw_def)
qed simp

lemma a_spaces_to_margin:
  assumes "cx d + int (Suc n) = MAX_COLS" "cy d = MAX_ROWS - 1" "y < MAX_ROWS - 2"
  shows "cells ((a_putc 32 ^^ Suc n) d) x y = cells d x (y + 1)"
proof -
  define e where "e = (a_putc 32 ^^ n) d"
  have e: "cx e = 169" "cy e = 75" "cells e x (y + 1) = cells d x (y + 1)"
    using a_spaces [of d n] assms by (auto simp: e_def)
  have "(a_putc 32 ^^ Suc n) d = a_putc 32 e" by (simp add: e_def)
  moreover have "cells (a_putc 32 e) x y = cells d x (y + 1)"
    using e assms(3) by (simp add: a_putc_space a_wrap_def a_draw_def a_scroll_def Let_def)
  ultimately show ?thesis by simp
qed

lemma write_csi_letter:
  assumes "is_console t" "tty_st t = TTY_STATE_NORMAL" "\<not> has (tty_flags t) TTY_FLUSHING" "64 \<le> c" "c < 97"
  shows "tty_write_string font [0x1B, 91, c] (t, s) =
    (case handle_csi_command font c (t\<lparr>tty_st := TTY_STATE_CSI, csi_param_count := 0, csi_params := (csi_params t)[0 := 0]\<rparr>) s of
       (t', s') \<Rightarrow> (t'\<lparr>tty_st := TTY_STATE_NORMAL\<rparr>, s'))"
proof -
  have c: "\<not> (48 \<le> c \<and> c \<le> 57)" "c \<noteq> 59" "c \<noteq> 10" "c \<noteq> 13" "c \<noteq> 9" "\<not> 97 \<le> c"
    using assms(4,5) by (auto simp: word_le_nat_alt word_less_nat_alt)
  have out: "tty_put_char font b u r = do_output_char font b u r"
    if "\<not> has (tty_flags u) TTY_FLUSHING" "b \<noteq> 10" "b \<noteq> 13" "b \<noteq> 9" "\<not> 97 \<le> b" for b u r
    using that by (simp add: tty_put_char_def Let_def)
  show ?thesis unfolding tty_write_string_def using assms(1-3) c by (auto simp add: out do_output_char_def)
qed

text \<open>
  Clearing to the end of the line on the last line of the screen, \<open>ESC [ K\<close>, scrolls the screen.
  The command writes spaces up to the right margin, the last of them wraps the cursor, and the whole text moves up one
  line while the cursor is put back to where it was: every line now shows what the line below it showed.
\<close>

theorem erase_line_scrolls:
  assumes d: "displays font s d" and ok: "con_ok s" and last: "cursor_y s = MAX_ROWS - 1"
    and t: "is_console t" "tty_putc t = Some Ramfb_putc" "ws_col t = 170" "tty_st t = TTY_STATE_NORMAL"
      "\<not> has (tty_flags t) TTY_FLUSHING"
  shows "\<exists>t' s' d'. tty_write_string font [0x1B, 91, 75] (t, s) = (t', s') \<and> displays font s' d' \<and>
    cursor_x s' = cursor_x s \<and> cursor_y s' = cursor_y s \<and> (\<forall>x y. y < MAX_ROWS - 2 \<longrightarrow> cells d' x y = cells d x (y + 1))"
proof -
  define n where "n = nat (MAX_COLS - cursor_x s)"
  have ox: "0 \<le> cursor_x s" "cursor_x s < MAX_COLS" using ok by (simp_all add: con_ok_def)
  define s1 where "s1 = ramfb_set_cursor (cursor_x s) (cursor_y s) ((ramfb_putc font 32 ^^ n) (ramfb_set_cursor (cursor_x s) (cursor_y s) s))"
  have "ramfb_set_cursor (cursor_x s) (cursor_y s) s = s" by (simp add: ramfb_set_cursor_def)
  then have s1: "s1 = ramfb_set_cursor (cursor_x s) (cursor_y s) ((ramfb_putc font 32 ^^ n) s)" by (simp add: s1_def)
  have "displays font ((ramfb_putc font 32 ^^ n) s) ((a_putc 32 ^^ n) d)"
    using displays_funpow [of font "ramfb_putc font 32" "a_putc 32", OF displays_putc ramfb_putc_keeps d ok] by blast
  then have D: "displays font s1 (((a_putc 32 ^^ n) d)\<lparr>cx := cursor_x s, cy := cursor_y s\<rparr>)"
    unfolding s1 ramfb_set_cursor_def by (rule displays_cursor(1))
  have c: "cells ((a_putc 32 ^^ n) d) x y = cells d x (y + 1)" if "y < MAX_ROWS - 2" for x y
  proof -
    obtain k where "n = Suc k" using ox by (cases n) (auto simp: n_def)
    then show ?thesis using a_spaces_to_margin [of d k y x] that displaysD(1,2) [OF d] last ox by (simp add: n_def)
  qed
  have "\<exists>t'. tty_write_string font [0x1B, 91, 75] (t, s) = (t', ramfb_set_cursor (cursor_x s) (cursor_y s) s1)"
    using write_csi_letter [of t 75 font s] t
    by (simp add: handle_csi_command_def ramfb_get_cursor_def erase_in_line_def erase_row_def putc_def [abs_def] s1_def n_def
        Let_def)
  moreover have "ramfb_set_cursor (cursor_x s) (cursor_y s) s1 = s1" by (simp add: s1 ramfb_set_cursor_def)
  ultimately obtain t' where "tty_write_string font [0x1B, 91, 75] (t, s) = (t', s1)" by auto
  moreover have "cursor_x s1 = cursor_x s" "cursor_y s1 = cursor_y s" by (simp_all add: s1 ramfb_set_cursor_def)
  moreover have "\<forall>x y. y < MAX_ROWS - 2 \<longrightarrow> cells (((a_putc 32 ^^ n) d)\<lparr>cx := cursor_x s, cy := cursor_y s\<rparr>) x y = cells d x (y + 1)"
    using c by simp
  ultimately show ?thesis using D by blast
qed

text \<open>A cleared screen with the cursor near the end of the last line.\<close>

theorem erase_line_scrolls_witness:
  "\<exists>t' s' d'. tty_write_string (\<lambda>_ _. 0) [0x1B, 91, 75] (fst tty_init, console0\<lparr>cursor_x := 160, cursor_y := 75\<rparr>) = (t', s') \<and>
     displays (\<lambda>_ _. 0) s' d' \<and> cursor_x s' = 160 \<and> cells d' 0 0 = Blank 0"
proof -
  let ?s = "console0\<lparr>cursor_x := 160, cursor_y := 75\<rparr>"
  have d: "displays (\<lambda>_ _. 0) ?s (screen0\<lparr>cx := 160, cy := 75\<rparr>)" by (rule displays_cursor(1) [OF displays0])
  have "con_ok ?s" "cursor_y ?s = 76 - 1" "is_console (fst tty_init)" "tty_putc (fst tty_init) = Some Ramfb_putc"
    "ws_col (fst tty_init) = 170" "tty_st (fst tty_init) = TTY_STATE_NORMAL" "\<not> has (tty_flags (fst tty_init)) 0x40"
    by (simp_all add: con_ok_def tty_init_def init_tty_struct_def has_def)
  from erase_line_scrolls [OF d this]
  obtain t' s' d' where "tty_write_string (\<lambda>_ _. 0) [0x1B, 91, 75] (fst tty_init, ?s) = (t', s')"
    "displays (\<lambda>_ _. 0) s' d'" "cursor_x s' = 160"
    "\<forall>x y. y < 76 - 2 \<longrightarrow> cells d' x y = cells (screen0\<lparr>cx := 160, cy := 75\<rparr>) x (y + 1)" by auto
  moreover from this(4) have "cells d' 0 0 = Blank 0" by (simp add: screen0_def)
  ultimately show ?thesis by blast
qed

end
