(* ===== verification/Uaccess.thy ===== *)
theory Uaccess
  imports Vmm
begin

section \<open>Copies between the kernel and user memory\<close>

text \<open>
  A model of \<open>copy_from_user\<close> and \<open>copy_to_user\<close> in \<^verbatim>\<open>kernel/syscalls/write.c\<close>: byte loops
  that translate each user address through the page tables of the process and access the direct map. Physical
  memory is the one of the page tables, pages of 64-bit words, so a byte is a part of a word (little-endian). The
  page table of the current process is the argument \<open>pt\<close>, None when there is no current process
  or it has no address space.
\<close>

definition get_byte :: "u64 \<Rightarrow> nat \<Rightarrow> u8" where
  "get_byte w i = ucast (drop_bit (8 * i) w)"

definition set_byte :: "u64 \<Rightarrow> nat \<Rightarrow> u8 \<Rightarrow> u64" where
  "set_byte w i b = (w AND NOT (push_bit (8 * i) 0xFF)) OR push_bit (8 * i) (ucast b)"

text \<open>The byte at offset \<open>off\<close> of the frame at \<open>base\<close>.\<close>

definition load8 :: "u64 \<Rightarrow> u64 \<Rightarrow> pmem \<Rightarrow> u8" where
  "load8 base off m = get_byte (frames m base (ucast (drop_bit 3 off))) (unat (off AND 7))"

definition store8 :: "u64 \<Rightarrow> u64 \<Rightarrow> u8 \<Rightarrow> pmem \<Rightarrow> pmem" where
  "store8 base off b m =
     (let i = ucast (drop_bit 3 off)
      in m\<lparr>frames := (frames m)(base := (frames m base)(i := set_byte (frames m base i) (unat (off AND 7)) b))\<rparr>)"

abbreviation page_off :: "u64 \<Rightarrow> u64" where "page_off a \<equiv> a AND 0xFFF"
abbreviation page_base :: "u64 \<Rightarrow> u64" where "page_base a \<equiv> a AND NOT 0xFFF"

fun copy_from_loop :: "u64 \<Rightarrow> u64 \<Rightarrow> nat \<Rightarrow> pmem \<Rightarrow> u8 list option" where
  "copy_from_loop pt addr 0 m = Some []"
| "copy_from_loop pt addr (Suc n) m =
     (case vmm_get_pte_from_table pt (page_base addr) m of
        None \<Rightarrow> None
      | Some pte \<Rightarrow>
          if \<not> has (read_pte m pte) PT_VALID then None
          else let b = load8 (read_pte m pte AND ADDR_MASK) (page_off addr) m
               in map_option (\<lambda>bs. b # bs) (copy_from_loop pt (addr + 1) n m))"

text \<open>The result is None for \<open>-1\<close>; the first byte is always looked up, even for a size of 0.\<close>

definition copy_from_user :: "u64 option \<Rightarrow> u64 \<Rightarrow> nat \<Rightarrow> pmem \<Rightarrow> u8 list option" where
  "copy_from_user pt src n m =
     (case pt of
        None \<Rightarrow> None
      | Some pt \<Rightarrow>
          (case vmm_get_pte_from_table pt (page_base src) m of
             None \<Rightarrow> None
           | Some pte \<Rightarrow> if \<not> has (read_pte m pte) PT_VALID then None else copy_from_loop pt src n m))"

fun copy_to_loop :: "u64 \<Rightarrow> u64 \<Rightarrow> u8 list \<Rightarrow> pmem \<Rightarrow> bool \<times> pmem" where
  "copy_to_loop pt addr [] m = (True, m)"
| "copy_to_loop pt addr (b # bs) m =
     (case vmm_get_pte_from_table pt (page_base addr) m of
        None \<Rightarrow> (False, m)
      | Some pte \<Rightarrow>
          if \<not> has (read_pte m pte) PT_VALID then (False, m)
          else copy_to_loop pt (addr + 1) bs (store8 (read_pte m pte AND ADDR_MASK) (page_off addr) b m))"

definition copy_to_user :: "u64 option \<Rightarrow> u64 \<Rightarrow> u8 list \<Rightarrow> pmem \<Rightarrow> bool \<times> pmem" where
  "copy_to_user pt dst bs m = (case pt of None \<Rightarrow> (False, m) | Some pt \<Rightarrow> copy_to_loop pt dst bs m)"

subsection \<open>Bytes of a word\<close>

lemma get_set_byte:
  assumes "i < 8" "j < 8"
  shows "get_byte (set_byte w i b) j = (if i = j then b else get_byte w j)"
proof (rule bit_word_eqI)
  fix n assume n: "n < LENGTH(8)"
  have ff: "(0xFF :: u64) = mask 8" by (simp add: mask_eq_exp_minus_1)
  have "bit (set_byte w i b) (8 * j + n) =
      (if i = j then bit b n else bit w (8 * j + n))"
    unfolding set_byte_def ff using n assms
    by (cases "i < j") (auto simp: bit_or_iff bit_and_iff bit_not_iff bit_push_bit_iff bit_mask_iff bit_ucast_iff
        dest: bit_imp_le_length)
  then show "bit (get_byte (set_byte w i b) j) n = bit (if i = j then b else get_byte w j) n"
    using n assms by (simp add: get_byte_def bit_ucast_iff bit_drop_bit_eq add.commute)
qed

lemma unat_and7_eq: "unat (x AND 7) = unat (y AND 7) \<longleftrightarrow> x AND 7 = y AND (7 :: u64)"
  by (rule word_unat_eq_iff [symmetric])

lemma load_store:
  "load8 f o2 (store8 f' o1 b m) =
     (if f = f' \<and> (ucast (drop_bit 3 o1) :: pt_idx) = ucast (drop_bit 3 o2) \<and> o1 AND 7 = o2 AND 7 then b
      else load8 f o2 m)"
proof -
  have u: "unat (x AND 7) < 8" for x :: u64
  proof -
    have "x AND 7 \<le> 7" by (rule word_and_le1)
    then show ?thesis by (simp add: word_le_nat_alt)
  qed
  show ?thesis
    by (simp add: load8_def store8_def Let_def get_set_byte [OF u u] unat_and7_eq)
qed


lemma off_eq:
  "(ucast (drop_bit 3 (page_off a)) :: pt_idx) = ucast (drop_bit 3 (page_off b)) \<and> page_off a AND 7 = page_off b AND 7
   \<longleftrightarrow> page_off a = page_off b"
proof (intro iffI, elim conjE)
  assume A: "(ucast (drop_bit 3 (page_off a)) :: pt_idx) = ucast (drop_bit 3 (page_off b))"
    and B: "page_off a AND 7 = page_off b AND 7"
  have m: "(0xFFF :: u64) = mask 12" "(7 :: u64) = mask 3" by (simp_all add: mask_eq_exp_minus_1)
  show "page_off a = page_off b"
  proof (rule bit_word_eqI)
    fix n assume "n < LENGTH(64)"
    show "bit (page_off a) n = bit (page_off b) n"
    proof (cases "n < 3")
      case True
      have "bit (page_off a AND 7) n = bit (page_off b AND 7) n" by (simp only: B)
      then show ?thesis using True by (simp add: m(2) bit_and_iff bit_mask_iff)
    next
      case False
      have "bit (ucast (drop_bit 3 (page_off a)) :: pt_idx) (n - 3) = bit (ucast (drop_bit 3 (page_off b)) :: pt_idx) (n - 3)"
        by (simp only: A)
      then show ?thesis using False
        by (cases "n < 12") (auto simp: m(1) bit_ucast_iff bit_drop_bit_eq bit_and_iff bit_mask_iff)
    qed
  qed
qed simp

lemma load_store_page:
  "load8 f (page_off a) (store8 f' (page_off a') b m) =
     (if f = f' \<and> page_off a = page_off a' then b else load8 f (page_off a) m)"
  unfolding load_store using off_eq [of a' a] by auto

lemma page_off_mod: "unat (page_off a) = unat a mod 4096"
proof -
  have "(0xFFF :: u64) = mask 12" by (simp add: mask_eq_exp_minus_1)
  then show ?thesis by (simp only: take_bit_eq_mask [symmetric] unsigned_take_bit_eq) (simp add: take_bit_eq_mod)
qed

lemma vpn_page_base: "vpn (page_base a) = vpn a"
proof -
  have "drop_bit 12 (page_base a) = drop_bit 12 a"
  proof -
    have m: "(0xFFF :: u64) = mask 12" by (simp add: mask_eq_exp_minus_1)
    show ?thesis unfolding m by (intro bit_word_eqI) (auto simp: bit_drop_bit_eq bit_and_iff bit_not_iff bit_mask_iff dest: bit_imp_le_length)
  qed
  then have "unat (page_base a) div 2 ^ 12 = unat a div 2 ^ 12" by (metis unat_drop_bit)
  then show ?thesis by (simp add: vpn_def)
qed

text \<open>Two addresses of a range shorter than the address space differ in their page or in their offset.\<close>

lemma range_distinct:
  assumes "i < j" "j < 2 ^ 39" "vpn (a + of_nat i) = vpn (a + of_nat j)"
    "page_off (a + of_nat i) = page_off (a + of_nat j)"
  shows False
proof -
  let ?x = "unat (a + of_nat i)" and ?y = "unat (a + of_nat j)"
  have "?x mod 2 ^ 39 = ?y mod 2 ^ 39"
  proof -
    have "?x mod (4096 * 2 ^ 27) = 4096 * (?x div 4096 mod 2 ^ 27) + ?x mod 4096"
      "?y mod (4096 * 2 ^ 27) = 4096 * (?y div 4096 mod 2 ^ 27) + ?y mod 4096" by (simp_all only: mod_mult2_eq)
    moreover have "?x div 4096 mod 2 ^ 27 = ?y div 4096 mod 2 ^ 27" using assms(3) by (simp add: vpn_def)
    moreover have "?x mod 4096 = ?y mod 4096" using assms(4) page_off_mod by metis
    ultimately show ?thesis by simp
  qed
  moreover have "?x mod 2 ^ 39 = (unat a + i) mod 2 ^ 39" "?y mod 2 ^ 39 = (unat a + j) mod 2 ^ 39"
    using assms(1,2) by (simp_all add: unat_word_ariths unat_of_nat mod_mod_cancel)
  ultimately have "2 ^ 39 dvd j - i" using mod_eq_dvd_iff_nat [of "unat a + i" "unat a + j" "2 ^ 39"] assms(1) by simp
  moreover have "0 < j - i" "j - i < 2 ^ 39" using assms(1,2) by linarith+
  ultimately show False using nat_dvd_not_less by blast
qed

subsection \<open>Translations and stores\<close>

text \<open>A store into a frame that holds no page table changes no translation.\<close>

lemma data_write_tables:
  assumes "f \<notin> pt_tables (frames m) r" and m': "frames m' = (frames m)(f := g)"
  shows "pt_tables (frames m') r = pt_tables (frames m) r"
    "vmm_get_pte_from_table r v m' = vmm_get_pte_from_table r v m"
    "entry_of r m' v = entry_of r m v"
proof -
  have fr: "frames m' x = frames m x" if "x \<noteq> f" for x using that m' by simp
  have r: "r \<noteq> f" "\<And>t. t \<in> l2_tables (frames m) r \<Longrightarrow> t \<noteq> f" "\<And>t. t \<in> l3_tables (frames m) r \<Longrightarrow> t \<noteq> f"
    using assms by (auto simp: pt_tables_def)
  have l2: "l2_tables (frames m') r = l2_tables (frames m) r" by (simp add: l2_tables_def fr [OF r(1)])
  have l3: "l3_tables (frames m') r = l3_tables (frames m) r"
    unfolding l3_tables_def l2 using fr r(2) by (intro Collect_cong) metis
  show "pt_tables (frames m') r = pt_tables (frames m) r" by (simp add: pt_tables_def l2 l3)
  have t2: "frames m r (l1_idx v) AND ADDR_MASK \<noteq> f" if "has (frames m r (l1_idx v)) PT_VALID"
    using that r(2) by (auto simp: l2_tables_def)
  show w: "vmm_get_pte_from_table r v m' = vmm_get_pte_from_table r v m"
    using t2 fr [OF r(1)] fr by (auto simp: vmm_get_pte_from_table_def read_pte_def Let_def)
  show "entry_of r m' v = entry_of r m v"
  proof (cases "vmm_get_pte_from_table r v m")
    case (Some q)
    have "r \<noteq> 0" using Some by (auto simp: vmm_get_pte_from_table_def)
    then have "fst q \<noteq> f" using walk_in_l3(1) [OF _ Some] r(3) by blast
    then show ?thesis using Some w fr by (simp add: entry_of_def read_pte_def)
  qed (simp add: entry_of_def w)
qed

lemma store8_tables:
  assumes "f \<notin> pt_tables (frames m) r"
  shows "pt_tables (frames (store8 f off b m)) r = pt_tables (frames m) r"
    "vmm_get_pte_from_table r v (store8 f off b m) = vmm_get_pte_from_table r v m"
    "entry_of r (store8 f off b m) v = entry_of r m v"
  by (rule data_write_tables [OF assms]; simp add: store8_def Let_def)+

lemma copy_to_eq:
  "copy_to_loop pt addr (b # bs) m =
     (if has (entry_of pt m addr) PT_VALID
      then copy_to_loop pt (addr + 1) bs (store8 (entry_of pt m addr AND ADDR_MASK) (page_off addr) b m)
      else (False, m))"
  using walk_vpn_cong [OF vpn_page_base, of pt addr m] by (auto simp: entry_of_def split: option.splits)

lemma copy_from_eq:
  "copy_from_loop pt addr (Suc n) m =
     (if has (entry_of pt m addr) PT_VALID
      then map_option (\<lambda>bs. load8 (entry_of pt m addr AND ADDR_MASK) (page_off addr) m # bs)
             (copy_from_loop pt (addr + 1) n m)
      else None)"
  using walk_vpn_cong [OF vpn_page_base, of pt addr m] by (auto simp: entry_of_def Let_def split: option.splits)

subsection \<open>The loops\<close>

lemma copy_to_loop_fields: "copy_to_loop pt a bs m = (r, m') \<Longrightarrow> m' = m\<lparr>frames := frames m'\<rparr>"
proof (induction bs arbitrary: a m)
  case (Cons b bs)
  have s: "store8 f off c m = m\<lparr>frames := frames (store8 f off c m)\<rparr>" for f off c by (simp add: store8_def Let_def)
  show ?case
  proof (cases "has (entry_of pt m a) PT_VALID")
    case True
    let ?m = "store8 (entry_of pt m a AND ADDR_MASK) (page_off a) b m"
    have "m' = ?m\<lparr>frames := frames m'\<rparr>" using Cons.IH [of "a + 1" ?m] Cons.prems True by (simp add: copy_to_eq del: copy_to_loop.simps)
    also have "\<dots> = m\<lparr>frames := frames m'\<rparr>" by (subst s) simp
    finally show ?thesis .
  qed (use Cons.prems in \<open>auto simp: copy_to_eq simp del: copy_to_loop.simps\<close>)
qed simp

abbreviation uframe :: "u64 \<Rightarrow> pmem \<Rightarrow> u64 \<Rightarrow> u64" where
  "uframe pt m v \<equiv> entry_of pt m v AND ADDR_MASK"

text \<open>All pages of a range are mapped, to frames that hold no page table, and different pages to different frames.\<close>

definition user_range :: "u64 \<Rightarrow> u64 \<Rightarrow> nat \<Rightarrow> pmem \<Rightarrow> bool" where
  "user_range pt a n m \<longleftrightarrow>
     (\<forall>i < n. has (entry_of pt m (a + of_nat i)) PT_VALID \<and> uframe pt m (a + of_nat i) \<notin> pt_tables (frames m) pt \<and>
        (\<forall>j < n. uframe pt m (a + of_nat i) = uframe pt m (a + of_nat j) \<longrightarrow> vpn (a + of_nat i) = vpn (a + of_nat j)))"

lemma copy_to_loop_ok:
  assumes "\<And>i. i < length bs \<Longrightarrow> has (entry_of pt m (a + of_nat i)) PT_VALID \<and>
      uframe pt m (a + of_nat i) \<notin> pt_tables (frames m) pt"
    "\<And>i j. i < j \<Longrightarrow> j < length bs \<Longrightarrow>
      \<not> (uframe pt m (a + of_nat i) = uframe pt m (a + of_nat j) \<and> page_off (a + of_nat i) = page_off (a + of_nat j))"
  obtains m' where "copy_to_loop pt a bs m = (True, m')" "\<And>v. entry_of pt m' v = entry_of pt m v"
    "\<And>i. i < length bs \<Longrightarrow> load8 (uframe pt m (a + of_nat i)) (page_off (a + of_nat i)) m' = bs ! i"
    "\<And>f. (\<And>i. i < length bs \<Longrightarrow> f \<noteq> uframe pt m (a + of_nat i)) \<Longrightarrow> frames m' f = frames m f"
    "\<And>f c. (\<And>i. i < length bs \<Longrightarrow> \<not> (f = uframe pt m (a + of_nat i) \<and> page_off c = page_off (a + of_nat i))) \<Longrightarrow>
      load8 f (page_off c) m' = load8 f (page_off c) m"
  using assms
proof (induction bs arbitrary: a m thesis)
  case Nil
  show ?case by (rule Nil.prems(1) [of m]) simp_all
next
  case (Cons b bs)
  let ?f = "uframe pt m a"
  let ?m = "store8 ?f (page_off a) b m"
  have v0: "has (entry_of pt m a) PT_VALID" "?f \<notin> pt_tables (frames m) pt" using Cons.prems(2) [of 0] by simp_all
  note S = store8_tables [OF v0(2), where off = "page_off a" and b = b]
  have idx: "a + of_nat (Suc i) = a + 1 + of_nat i" for i by (simp add: add.commute add.left_commute)
  have P1: "has (entry_of pt ?m (a + 1 + of_nat i)) PT_VALID \<and> uframe pt ?m (a + 1 + of_nat i) \<notin> pt_tables (frames ?m) pt"
    if "i < length bs" for i using Cons.prems(2) [of "Suc i"] that unfolding idx S by simp
  have P2: "\<not> (uframe pt ?m (a + 1 + of_nat i) = uframe pt ?m (a + 1 + of_nat j) \<and>
      page_off (a + 1 + of_nat i) = page_off (a + 1 + of_nat j))" if "i < j" "j < length bs" for i j
    using Cons.prems(3) [of "Suc i" "Suc j"] that unfolding idx S by simp
  obtain m' where M: "copy_to_loop pt (a + 1) bs ?m = (True, m')" "\<And>v. entry_of pt m' v = entry_of pt ?m v"
    "\<And>i. i < length bs \<Longrightarrow> load8 (uframe pt ?m (a + 1 + of_nat i)) (page_off (a + 1 + of_nat i)) m' = bs ! i"
    "\<And>f. (\<And>i. i < length bs \<Longrightarrow> f \<noteq> uframe pt ?m (a + 1 + of_nat i)) \<Longrightarrow> frames m' f = frames ?m f"
    "\<And>f c. (\<And>i. i < length bs \<Longrightarrow> \<not> (f = uframe pt ?m (a + 1 + of_nat i) \<and> page_off c = page_off (a + 1 + of_nat i))) \<Longrightarrow>
      load8 f (page_off c) m' = load8 f (page_off c) ?m"
    using Cons.IH [where m = ?m and a = "a + 1", OF _ P1 P2] by blast
  show ?case
  proof (rule Cons.prems(1) [of m'])
    show "copy_to_loop pt a (b # bs) m = (True, m')" using M(1) v0(1) by (simp only: copy_to_eq if_True)
    show "entry_of pt m' v = entry_of pt m v" for v using M(2) S(3) by simp
    show "load8 (uframe pt m (a + of_nat i)) (page_off (a + of_nat i)) m' = (b # bs) ! i" if "i < length (b # bs)" for i
    proof (cases i)
      case 0
      have "\<not> (?f = uframe pt ?m (a + 1 + of_nat j) \<and> page_off a = page_off (a + 1 + of_nat j))" if "j < length bs" for j
        using Cons.prems(3) [of 0 "Suc j"] that unfolding idx S by simp
      from M(5) [of ?f a, OF this] show ?thesis using 0 by (simp add: load_store_page)
    next
      case (Suc j)
      then show ?thesis using M(3) [of j] that unfolding S Suc idx by simp
    qed
    show "frames m' f = frames m f" if "\<And>i. i < length (b # bs) \<Longrightarrow> f \<noteq> uframe pt m (a + of_nat i)" for f
    proof -
      have "f \<noteq> uframe pt ?m (a + 1 + of_nat i)" if "i < length bs" for i
        using \<open>\<And>i. i < length (b # bs) \<Longrightarrow> f \<noteq> uframe pt m (a + of_nat i)\<close> [of "Suc i"] that unfolding idx S by simp
      moreover have "f \<noteq> ?f" using that [of 0] by simp
      ultimately show ?thesis using M(4) [of f] by (simp add: store8_def Let_def)
    qed
    show "load8 f (page_off c) m' = load8 f (page_off c) m"
      if *: "\<And>i. i < length (b # bs) \<Longrightarrow> \<not> (f = uframe pt m (a + of_nat i) \<and> page_off c = page_off (a + of_nat i))" for f c
    proof -
      have "\<not> (f = uframe pt ?m (a + 1 + of_nat i) \<and> page_off c = page_off (a + 1 + of_nat i))" if "i < length bs" for i
        using * [of "Suc i"] that unfolding idx S by simp
      then have "load8 f (page_off c) m' = load8 f (page_off c) ?m" using M(5) by blast
      then show ?thesis using * [of 0] by (auto simp: load_store_page)
    qed
  qed
qed

lemma copy_from_loop_ok:
  assumes "\<And>i. i < n \<Longrightarrow> has (entry_of pt m (a + of_nat i)) PT_VALID"
  shows "copy_from_loop pt a n m = Some (map (\<lambda>i. load8 (uframe pt m (a + of_nat i)) (page_off (a + of_nat i)) m) [0..<n])"
  using assms
proof (induction n arbitrary: a)
  case (Suc n)
  have idx: "a + of_nat (Suc i) = a + 1 + of_nat i" for i by (simp add: add.commute add.left_commute)
  have "has (entry_of pt m a) PT_VALID" using Suc.prems [of 0] by simp
  moreover have "copy_from_loop pt (a + 1) n m =
      Some (map (\<lambda>i. load8 (uframe pt m (a + 1 + of_nat i)) (page_off (a + 1 + of_nat i)) m) [0..<n])"
  proof (rule Suc.IH)
    show "has (entry_of pt m (a + 1 + of_nat i)) PT_VALID" if "i < n" for i
      using Suc.prems [of "Suc i"] that unfolding idx by simp
  qed
  moreover have "[0..<Suc n] = 0 # map Suc [0..<n]" by (simp add: map_Suc_upt upt_conv_Cons del: upt_Suc)
  ultimately show ?case by (simp only: copy_from_eq if_True option.map list.map map_map o_def idx) simp
qed simp

text \<open>
  C21. What the kernel copies to user memory it reads back unchanged: if the pages of the range are
  mapped to different frames that hold no page table, \<open>copy_to_user\<close> succeeds, \<open>copy_from_user\<close> then returns
  the same bytes, no translation changes, and no other byte of memory is written: every other frame is the same, and so is
  every byte of the written frames outside the range. The range may cross pages.
\<close>

theorem user_copy_roundtrip:
  assumes "user_range pt a (length bs) m" "bs \<noteq> []" "length bs \<le> 2 ^ 39"
  shows "\<exists>m'. copy_to_user (Some pt) a bs m = (True, m') \<and> copy_from_user (Some pt) a (length bs) m' = Some bs \<and>
    (\<forall>v. entry_of pt m' v = entry_of pt m v) \<and> m' = m\<lparr>frames := frames m'\<rparr> \<and>
    (\<forall>f. (\<forall>i < length bs. f \<noteq> uframe pt m (a + of_nat i)) \<longrightarrow> frames m' f = frames m f) \<and>
    (\<forall>f c. (\<forall>i < length bs. \<not> (f = uframe pt m (a + of_nat i) \<and> page_off c = page_off (a + of_nat i))) \<longrightarrow>
       load8 f (page_off c) m' = load8 f (page_off c) m)"
proof -
  have R: "has (entry_of pt m (a + of_nat i)) PT_VALID" "uframe pt m (a + of_nat i) \<notin> pt_tables (frames m) pt"
    "j < length bs \<Longrightarrow> uframe pt m (a + of_nat i) = uframe pt m (a + of_nat j) \<Longrightarrow> vpn (a + of_nat i) = vpn (a + of_nat j)"
    if "i < length bs" for i j
    using assms(1) that unfolding user_range_def by blast+
  have D: "\<not> (uframe pt m (a + of_nat i) = uframe pt m (a + of_nat j) \<and> page_off (a + of_nat i) = page_off (a + of_nat j))"
    if "i < j" "j < length bs" for i j
  proof
    assume e: "uframe pt m (a + of_nat i) = uframe pt m (a + of_nat j) \<and> page_off (a + of_nat i) = page_off (a + of_nat j)"
    have "vpn (a + of_nat i) = vpn (a + of_nat j)" by (rule R(3)) (use e that in simp_all)
    moreover have "j < 2 ^ 39" using that(2) assms(3) by simp
    ultimately show False using range_distinct [OF that(1)] e by blast
  qed
  obtain m' where M: "copy_to_loop pt a bs m = (True, m')" "\<And>v. entry_of pt m' v = entry_of pt m v"
    "\<And>i. i < length bs \<Longrightarrow> load8 (uframe pt m (a + of_nat i)) (page_off (a + of_nat i)) m' = bs ! i"
    "\<And>f. (\<And>i. i < length bs \<Longrightarrow> f \<noteq> uframe pt m (a + of_nat i)) \<Longrightarrow> frames m' f = frames m f"
    "\<And>f c. (\<And>i. i < length bs \<Longrightarrow> \<not> (f = uframe pt m (a + of_nat i) \<and> page_off c = page_off (a + of_nat i))) \<Longrightarrow>
      load8 f (page_off c) m' = load8 f (page_off c) m"
  proof (rule copy_to_loop_ok [of bs pt m a], goal_cases)
    case (1 i)
    then show ?case using R(1,2) by blast
  next
    case (2 i j)
    then show ?case using D by blast
  next
    case (3 m')
    show ?case by (rule that [of m']) (fact 3)+
  qed
  have "copy_from_loop pt a (length bs) m' = Some (map (\<lambda>i. bs ! i) [0..<length bs])"
    using copy_from_loop_ok [of "length bs" pt m' a] R(1) M(2,3) by simp
  then have L: "copy_from_loop pt a (length bs) m' = Some bs" by (simp only: map_nth)
  obtain n where n: "length bs = Suc n" using assms(2) by (cases bs) auto
  have "has (entry_of pt m' a) PT_VALID" using R(1) [of 0] n M(2) by simp
  then have "copy_from_user (Some pt) a (length bs) m' = Some bs"
    using L walk_vpn_cong [OF vpn_page_base, of pt a m'] by (auto simp: copy_from_user_def entry_of_def split: option.splits)
  moreover have "copy_to_user (Some pt) a bs m = (True, m')" using M(1) by (simp add: copy_to_user_def)
  moreover have "m' = m\<lparr>frames := frames m'\<rparr>" using copy_to_loop_fields [OF M(1)] .
  ultimately show ?thesis using M(2,4,5) by (intro exI [of _ m'] conjI) blast+
qed

text \<open>An address space with two pages, at 0 and 4096, in the frames \<open>0x4000\<close> and \<open>0x5000\<close>.\<close>

definition two_pages :: pmem where
  "two_pages = \<lparr>frames = (\<lambda>f i. if i = 0 \<and> f = 0x1000 then 0x2003 else if i = 0 \<and> f = 0x2000 then 0x3003
       else if i = 0 \<and> f = 0x3000 then 0x800000000040C3 else if i = 1 \<and> f = 0x3000 then 0x5043 else 0),
     pmm_of = pmm_of demo_pmem, vmm_lock = False, root_table = 0x1000\<rparr>"

lemma two_pages_tables: "pt_tables (frames two_pages) 0x1000 = {0x1000, 0x2000, 0x3000}"
proof -
  have "l2_tables (frames two_pages) 0x1000 = {0x2000}"
    by (auto simp: l2_tables_def two_pages_def has_def)
  moreover from this have "l3_tables (frames two_pages) 0x1000 = {0x3000}"
    by (auto simp: l3_tables_def two_pages_def has_def)
  ultimately show ?thesis by (auto simp: pt_tables_def)
qed

lemma two_pages_entry:
  "v < 0x1000 \<Longrightarrow> entry_of 0x1000 two_pages v = 0x800000000040C3"
  "0x1000 \<le> v \<Longrightarrow> v < 0x2000 \<Longrightarrow> entry_of 0x1000 two_pages v = 0x5043"
proof -
  have i: "l1_idx 0 = 0" "l2_idx 0 = 0" "l3_idx 0 = 0" "l1_idx 0x1000 = 0" "l2_idx 0x1000 = 0" "l3_idx 0x1000 = 1"
    by (simp_all add: l1_idx_def l2_idx_def l3_idx_def drop_bit_eq_div)
  have e: "entry_of 0x1000 two_pages 0 = 0x800000000040C3" "entry_of 0x1000 two_pages 0x1000 = 0x5043"
    by (simp_all add: entry_of_def vmm_get_pte_from_table_def read_pte_def i two_pages_def has_def Let_def)
  show "v < 0x1000 \<Longrightarrow> entry_of 0x1000 two_pages v = 0x800000000040C3"
    using entry_of_vpn [of v 0] e(1) by (simp add: vpn_def word_less_nat_alt)
  show "0x1000 \<le> v \<Longrightarrow> v < 0x2000 \<Longrightarrow> entry_of 0x1000 two_pages v = 0x5043"
  proof -
    assume a: "0x1000 \<le> v" "v < 0x2000"
    then have "unat v div 4096 = 1" by (intro div_nat_eqI) (simp_all add: word_less_nat_alt word_le_nat_alt)
    then have "vpn v = vpn 0x1000" by (simp add: vpn_def)
    then show ?thesis using entry_of_vpn [of v "0x1000"] e(2) by metis
  qed
qed

theorem user_copy_roundtrip_witness:
  "\<exists>m'. copy_to_user (Some 0x1000) 0xFFE [1, 2, 3, 4] two_pages = (True, m') \<and>
     copy_from_user (Some 0x1000) 0xFFE 4 m' = Some [1, 2, 3, 4]"
proof -
  have "user_range 0x1000 0xFFE (length [1, 2, 3, 4 :: u8]) two_pages"
    by (simp add: user_range_def All_less_Suc two_pages_tables two_pages_entry has_def vpn_def)
  from user_copy_roundtrip [OF this]
  obtain m' where "copy_to_user (Some 0x1000) 0xFFE [1, 2, 3, 4] two_pages = (True, m')"
    "copy_from_user (Some 0x1000) 0xFFE (length [1, 2, 3, 4 :: u8]) m' = Some [1, 2, 3, 4]" by auto
  moreover have "length [1, 2, 3, 4 :: u8] = 4" by simp
  ultimately show ?thesis by metis
qed

text \<open>
  \<open>copy_to_user\<close> looks only at the valid bit of an entry, not at its permissions. If two address
  spaces share a read-only copy-on-write frame, as they do after fork, a byte that the kernel stores for one
  process is what the other process then reads at that address, and the entries stay copy-on-write.
\<close>

theorem copy_to_user_ignores_cow:
  assumes "has (entry_of pt m a) PT_VALID" "has (entry_of pt m a) PT_SW_COW" "has (entry_of pt' m a) PT_VALID"
    "uframe pt' m a = uframe pt m a" "uframe pt m a \<notin> pt_tables (frames m) pt" "uframe pt m a \<notin> pt_tables (frames m) pt'"
  shows "\<exists>m'. copy_to_user (Some pt) a [b] m = (True, m') \<and> copy_from_user (Some pt') a 1 m' = Some [b] \<and>
    has (entry_of pt m' a) PT_SW_COW"
proof -
  let ?m = "store8 (uframe pt m a) (page_off a) b m"
  note S = store8_tables [OF assms(5), where off = "page_off a" and b = b]
    and S' = store8_tables [OF assms(6), where off = "page_off a" and b = b]
  have "copy_to_user (Some pt) a [b] m = (True, ?m)" using assms(1) by (simp add: copy_to_user_def copy_to_eq del: copy_to_loop.simps(2))
  moreover have "copy_from_loop pt' a 1 ?m = Some [b]"
    using assms(3,4) S'(3) copy_from_eq [of pt' a 0 ?m] by (simp add: load_store_page)
  then have "copy_from_user (Some pt') a 1 ?m = Some [b]"
    using assms(3) S'(3) walk_vpn_cong [OF vpn_page_base, of pt' a ?m]
    by (auto simp: copy_from_user_def entry_of_def split: option.splits)
  ultimately show ?thesis using S(3) assms(2) by auto
qed

text \<open>The first page of \<open>two_pages\<close> is copy-on-write; a second root table with the same tables shares it.\<close>

theorem copy_to_user_ignores_cow_witness:
  "let m = two_pages\<lparr>frames := (frames two_pages)(0x6000 := frames two_pages 0x1000)\<rparr> in
   \<exists>m'. copy_to_user (Some 0x1000) 0x10 [7] m = (True, m') \<and> copy_from_user (Some 0x6000) 0x10 1 m' = Some [7]"
proof -
  let ?m = "two_pages\<lparr>frames := (frames two_pages)(0x6000 := frames two_pages 0x1000)\<rparr>"
  have i: "l1_idx 0x10 = 0" "l2_idx 0x10 = 0" "l3_idx 0x10 = 0"
    by (simp_all add: l1_idx_def l2_idx_def l3_idx_def drop_bit_eq_div)
  have e: "entry_of 0x1000 ?m 0x10 = 0x800000000040C3" "entry_of 0x6000 ?m 0x10 = 0x800000000040C3"
    by (simp_all add: entry_of_def vmm_get_pte_from_table_def read_pte_def i two_pages_def has_def Let_def)
  have l2: "l2_tables (frames ?m) 0x1000 = {0x2000}" "l2_tables (frames ?m) 0x6000 = {0x2000}"
    by (auto simp: l2_tables_def two_pages_def has_def)
  then have "l3_tables (frames ?m) 0x1000 = {0x3000}" "l3_tables (frames ?m) 0x6000 = {0x3000}"
    by (auto simp: l3_tables_def two_pages_def has_def)
  then have t: "0x4000 \<notin> pt_tables (frames ?m) 0x1000" "0x4000 \<notin> pt_tables (frames ?m) 0x6000"
    using l2 by (simp_all add: pt_tables_def)
  have "\<exists>m'. copy_to_user (Some 0x1000) 0x10 [7] ?m = (True, m') \<and> copy_from_user (Some 0x6000) 0x10 1 m' = Some [7] \<and>
      has (entry_of 0x1000 m' 0x10) PT_SW_COW"
    by (rule copy_to_user_ignores_cow) (use t in \<open>simp_all add: e has_def\<close>)
  then show ?thesis unfolding Let_def by blast
qed

end
