(* ===== verification/Signal.thy ===== *)
theory Signal
  imports Proc Uaccess
begin

section \<open>Signals\<close>

text \<open>
  A model of \<^verbatim>\<open>kernel/syscalls/kill.c\<close> and of \<open>signal_send_group\<close> in
  \<^verbatim>\<open>kernel/threading/sched.c\<close>. A signal number is an integer, a set of signals a 32-bit word as in
  the source. Operations that walk a list, or that wait for \<open>sched_lock\<close>, return an option: None means that they do
  not return. The user stack is the memory of the page tables; the signal frame, 37 words of 8 bytes, is
  written and read word by word, which is possible as its address is a multiple of 16.
\<close>

abbreviation (input) SIGKILL :: nat where "SIGKILL \<equiv> 9"
abbreviation (input) SIGCHLD :: nat where "SIGCHLD \<equiv> 17"
abbreviation (input) SIGCONT :: nat where "SIGCONT \<equiv> 18"
abbreviation (input) SIGSTOP :: nat where "SIGSTOP \<equiv> 19"
abbreviation (input) SIG_DFL :: u64 where "SIG_DFL \<equiv> 0"
abbreviation (input) SIG_IGN :: u64 where "SIG_IGN \<equiv> 1"
abbreviation (input) SA_NODEFER :: u32 where "SA_NODEFER \<equiv> 0x40000000"
abbreviation (input) SA_RESETHAND :: u32 where "SA_RESETHAND \<equiv> 0x80000000"

definition sigmask :: "nat \<Rightarrow> u32" where
  "sigmask sig = push_bit (sig - 1) 1"

definition SIG_KERNEL_ONLY_MASK :: u32 where
  "SIG_KERNEL_ONLY_MASK = sigmask SIGKILL OR sigmask SIGSTOP"

definition SIG_STOP_MASK :: u32 where
  "SIG_STOP_MASK = sigmask SIGSTOP OR sigmask 20 OR sigmask 21 OR sigmask 22"

datatype sig_action = SIG_ACTION_TERM | SIG_ACTION_IGN | SIG_ACTION_CORE | SIG_ACTION_STOP | SIG_ACTION_CONT

text \<open>The table of default actions; entries that the initialiser does not name are 0, which is \<open>SIG_ACTION_TERM\<close>.\<close>

definition signal_get_default_action :: "int \<Rightarrow> sig_action" where
  "signal_get_default_action sig =
     (if sig < 1 \<or> sig > int NSIG then SIG_ACTION_IGN
      else if sig \<in> {3, 4, 5, 6, 7, 8, 11, 24, 25, 31} then SIG_ACTION_CORE
      else if sig \<in> {17, 23, 28} then SIG_ACTION_IGN
      else if sig = 18 then SIG_ACTION_CONT
      else if sig \<in> {19, 20, 21, 22} then SIG_ACTION_STOP
      else SIG_ACTION_TERM)"



abbreviation upd_sig :: "nat \<Rightarrow> signal_struct \<Rightarrow> kernel \<Rightarrow> kernel" where
  "upd_sig p ss k \<equiv> upd_proc p (\<lambda>q. q\<lparr>signals := Some ss\<rparr>) k"

text \<open>
  \<open>signal_send\<close>; \<open>held\<close> tells that the caller holds \<open>sched_lock\<close>, which \<open>task_wake_up_process\<close>
  takes: with the lock held it spins forever.
\<close>

definition signal_send :: "bool \<Rightarrow> nat \<Rightarrow> int \<Rightarrow> kernel \<Rightarrow> (int \<times> kernel) option" where
  "signal_send held p sig k =
     (if p = 0 \<or> sig < 1 \<or> sig > int NSIG then Some (-1, k)
      else case signals (procs k p) of
             None \<Rightarrow> Some (-1, k)
           | Some ss \<Rightarrow>
               let sg = nat sig;
                   deliver = (\<lambda>ss k. let ss = (if has (sigmask sg) SIG_STOP_MASK
                                               then ss\<lparr>pending := pending ss AND NOT (sigmask SIGCONT)\<rparr> else ss)
                                     in (0, upd_sig p (ss\<lparr>pending := pending ss OR sigmask sg\<rparr>) k))
               in if sg = SIGCONT
                  then if held then None
                       else let ss = ss\<lparr>pending := pending ss AND NOT SIG_STOP_MASK\<rparr>;
                                k = upd_proc p (\<lambda>q. q\<lparr>p_state := PROCESS_ACTIVE, signals := Some ss\<rparr>) k
                            in map_option (\<lambda>s. deliver ss (k\<lparr>sch := s\<rparr>)) (task_wake_up_process p (sch k))
                  else Some (deliver ss k))"

definition signal_send_pid :: "u64 \<Rightarrow> int \<Rightarrow> kernel \<Rightarrow> (int \<times> kernel) option" where
  "signal_send_pid i sig k =
     Option.bind (find_process_by_pid i k)
       (\<lambda>p. if p = 0 then Some (-1, k) else signal_send False p sig k)"

text \<open>The two nested loops of \<open>signal_send_group\<close>, with the number of signals sent.\<close>

partial_function (option) send_bucket :: "u64 \<Rightarrow> int \<Rightarrow> nat \<Rightarrow> nat \<Rightarrow> kernel \<Rightarrow> (nat \<times> kernel) option" where
  "send_bucket g sig p cnt k =
     (if p = 0 then Some (cnt, k)
      else if pgid (procs k p) = g
      then Option.bind (signal_send True p sig k)
             (\<lambda>(r, k). send_bucket g sig (hash_next (procs k p)) (if r = 0 then cnt + 1 else cnt) k)
      else send_bucket g sig (hash_next (procs k p)) cnt k)"

fun send_buckets :: "u64 \<Rightarrow> int \<Rightarrow> nat \<Rightarrow> u64 \<Rightarrow> nat \<Rightarrow> kernel \<Rightarrow> (nat \<times> kernel) option" where
  "send_buckets g sig 0 i cnt k = Some (cnt, k)"
| "send_buckets g sig (Suc n) i cnt k =
     Option.bind (send_bucket g sig (pid_hash k i) cnt k) (\<lambda>(cnt, k). send_buckets g sig n (i + 1) cnt k)"

definition signal_send_group :: "u64 \<Rightarrow> int \<Rightarrow> kernel \<Rightarrow> (int \<times> kernel) option" where
  "signal_send_group g sig k =
     (if sig < 0 \<or> sig > int NSIG then Some (-1, k)
      else map_option (\<lambda>(cnt, k). (if cnt > 0 then 0 else -1, k)) (send_buckets g sig 1024 0 0 k))"

text \<open>The result 0 means that no signal can be delivered.\<close>

definition signal_dequeue :: "signal_struct \<Rightarrow> nat \<times> signal_struct" where
  "signal_dequeue ss =
     (let pend = pending ss AND NOT (blocked ss);
          pend = pend OR (pending ss AND SIG_KERNEL_ONLY_MASK)
      in if pend = 0 then (0, ss)
         else case filter (\<lambda>i. has pend (sigmask i)) [1..<Suc NSIG] of
                [] \<Rightarrow> (0, ss)
              | i # _ \<Rightarrow> (i, ss\<lparr>pending := pending ss AND NOT (sigmask i)\<rparr>))"

subsection \<open>The signal frame\<close>

record trapframe =
  xr :: "u64 list"
  sp_el0 :: u64
  elr :: u64
  spsr :: u64

definition sigframe :: "trapframe \<Rightarrow> u32 \<Rightarrow> nat \<Rightarrow> u64 list" where
  "sigframe tf old_mask sig =
     take 31 (xr tf) @ [sp_el0 tf, elr tf, spsr tf, ucast old_mask OR push_bit 32 (of_nat sig), 0xD2800CE8, 0xD4000001]"

text \<open>The words \<open>ws\<close> in the page at \<open>base\<close>, from word \<open>i\<close> on.\<close>

definition store_words :: "u64 \<Rightarrow> nat \<Rightarrow> u64 list \<Rightarrow> pmem \<Rightarrow> pmem" where
  "store_words base i ws m =
     m\<lparr>frames := (frames m)(base := (\<lambda>j. if i \<le> unat j \<and> unat j < i + length ws then ws ! (unat j - i)
                                         else frames m base j))\<rparr>"

definition load_words :: "u64 \<Rightarrow> nat \<Rightarrow> nat \<Rightarrow> pmem \<Rightarrow> u64 list" where
  "load_words base i n m = map (\<lambda>j. frames m base (word_of_nat (i + j))) [0..<n]"

definition user_stack_entry :: "u64 \<Rightarrow> u64" where
  "user_stack_entry phys = phys OR PT_VALID OR PT_AF OR PT_PAGE OR PT_SH_INNER OR MT_NORMAL_ATTR OR PT_AP_RW_EL0 OR PT_UXN"

text \<open>The store of the frame at \<open>sp\<close>, whose first page has the entry at \<open>pte\<close>; False when the second page is missing.\<close>

definition store_frame :: "u64 \<Rightarrow> u64 \<Rightarrow> pte_ref \<Rightarrow> u64 list \<Rightarrow> pmem \<Rightarrow> bool \<times> pmem" where
  "store_frame pt sp pte fr m =
     (let base = read_pte m pte AND ADDR_MASK;
          i = unat (page_off sp) div 8;
          first = (4096 - unat (page_off sp)) div 8
      in if first \<ge> length fr then (True, store_words base i fr m)
         else let m = store_words base i (take first fr) m
              in case vmm_get_pte_from_table_alloc pt (page_base sp + PAGE_SIZE) m of
                   (None, m) \<Rightarrow> (False, m)
                 | (Some pte, m) \<Rightarrow>
                     if \<not> has (read_pte m pte) PT_VALID then (False, m)
                     else (True, store_words (read_pte m pte AND ADDR_MASK) 0 (drop first fr) m))"

text \<open>The change of the signal state when a handler is entered.\<close>

definition enter_handler :: "nat \<Rightarrow> signal_struct \<Rightarrow> signal_struct" where
  "enter_handler sig ss =
     (let act = actions ss ! (sig - 1);
          ss = ss\<lparr>blocked := blocked ss OR sa_mask act\<rparr>;
          ss = (if has (sa_flags act) SA_NODEFER then ss else ss\<lparr>blocked := blocked ss OR sigmask sig\<rparr>)
      in if has (sa_flags act) SA_RESETHAND
         then ss\<lparr>actions := (actions ss)[sig - 1 := act\<lparr>sa_handler := SIG_DFL\<rparr>]\<rparr>
         else ss)"

definition setup_signal_frame ::
  "u64 option \<Rightarrow> nat \<Rightarrow> trapframe \<Rightarrow> signal_struct \<Rightarrow> pmem \<Rightarrow> int \<times> trapframe \<times> signal_struct \<times> pmem" where
  "setup_signal_frame pt sig tf ss m =
     (case pt of
        None \<Rightarrow> (-1, tf, ss, m)
      | Some pt \<Rightarrow>
          let act = actions ss ! (sig - 1);
              sp = (sp_el0 tf - 296) AND NOT 15
          in case vmm_get_pte_from_table_alloc pt sp m of
               (None, m) \<Rightarrow> (-1, tf, ss, m)
             | (Some pte, m) \<Rightarrow>
                 (case (if has (read_pte m pte) PT_VALID then (True, m)
                        else let (phys, m) = alloc_frame m
                             in if phys = 0 then (False, m)
                                else (True, write_pte pte (user_stack_entry phys) (memset_zero_page phys m))) of
                    (False, m) \<Rightarrow> (-1, tf, ss, m)
                  | (True, m) \<Rightarrow>
                      (case store_frame pt sp pte (sigframe tf (blocked ss) sig) m of
                         (False, m) \<Rightarrow> (-1, tf, ss, m)
                       | (True, m) \<Rightarrow>
                           let tf = tf\<lparr>elr := sa_handler act, sp_el0 := sp,
                                      xr := (xr tf)[0 := of_nat sig, 30 := sp + 280]\<rparr>
                           in (0, tf, enter_handler sig ss, m))))"

definition load_frame :: "u64 \<Rightarrow> u64 \<Rightarrow> pmem \<Rightarrow> u64 list option" where
  "load_frame pt sp m =
     (case vmm_get_pte_from_table pt sp m of
        None \<Rightarrow> None
      | Some pte \<Rightarrow>
          if \<not> has (read_pte m pte) PT_VALID then None
          else let base = read_pte m pte AND ADDR_MASK;
                   i = unat (page_off sp) div 8;
                   first = (4096 - unat (page_off sp)) div 8
               in if first \<ge> 37 then Some (load_words base i 37 m)
                  else case vmm_get_pte_from_table pt (page_base sp + PAGE_SIZE) m of
                         None \<Rightarrow> None
                       | Some pte \<Rightarrow>
                           if \<not> has (read_pte m pte) PT_VALID then None
                           else Some (load_words base i first m @
                                      load_words (read_pte m pte AND ADDR_MASK) 0 (37 - first) m))"

definition sys_sigreturn :: "u64 option \<Rightarrow> trapframe \<Rightarrow> signal_struct \<Rightarrow> pmem \<Rightarrow> (trapframe \<times> signal_struct) option" where
  "sys_sigreturn pt tf ss m =
     (case pt of
        None \<Rightarrow> None
      | Some pt \<Rightarrow>
          (case load_frame pt (sp_el0 tf) m of
             None \<Rightarrow> None
           | Some fr \<Rightarrow>
               Some (tf\<lparr>xr := take 31 fr @ drop 31 (xr tf), sp_el0 := fr ! 31, elr := fr ! 32, spsr := fr ! 33\<rparr>,
                     ss\<lparr>blocked := ucast (fr ! 34) AND NOT SIG_KERNEL_ONLY_MASK\<rparr>)))"

subsection \<open>System calls\<close>



text \<open>The set that \<open>sys_sigpending\<close> copies out.\<close>

definition sys_sigpending :: "nat \<Rightarrow> kernel \<Rightarrow> u32 option" where
  "sys_sigpending p k = (if p = 0 then None else map_option pending (signals (procs k p)))"

fun kill_all :: "nat \<Rightarrow> u64 \<Rightarrow> int \<Rightarrow> nat \<Rightarrow> kernel \<Rightarrow> (nat \<times> kernel) option" where
  "kill_all 0 i sig ret k = Some (ret, k)"
| "kill_all (Suc n) i sig ret k =
     Option.bind (find_process_by_pid i k)
       (\<lambda>p. if p = 0 then kill_all n (i + 1) sig ret k
            else Option.bind (signal_send_pid i sig k)
                   (\<lambda>(r, k). kill_all n (i + 1) sig (if r = 0 then ret + 1 else ret) k))"

definition sys_kill :: "int \<Rightarrow> int \<Rightarrow> kernel \<Rightarrow> (int \<times> kernel) option" where
  "sys_kill i sig k =
     (if sig < 0 \<or> sig > int NSIG then Some (-1, k)
      else if sig = 0
      then if i > 0 then map_option (\<lambda>p. (if p \<noteq> 0 then 0 else -1, k)) (find_process_by_pid (word_of_int i) k)
           else Some (-1, k)
      else if i > 0 then signal_send_pid (word_of_int i) sig k
      else if i = 0
      then if current_proc k = 0 then Some (-1, k) else signal_send_group (pgid (procs k (current_proc k))) sig k
      else if i = -1
      then map_option (\<lambda>(ret, k). (if ret > 0 then 0 else -1, k)) (kill_all 1022 2 sig 0 k)
      else signal_send_group (word_of_int (- i)) sig k)"

text \<open>
  One pass of the loop of \<open>signal_check_pending\<close> in process \<open>p\<close> with current task \<open>c\<close>. \<open>Exit\<close> is the
  call of \<open>sys_exit\<close>; after a stop the loop continues when \<open>schedule\<close> returns.
\<close>

datatype check_result = Finished | Again | Exit int

definition signal_check_pass ::
  "u64 option \<Rightarrow> nat \<Rightarrow> trapframe \<Rightarrow> kernel \<Rightarrow> pmem \<Rightarrow> (check_result \<times> trapframe \<times> kernel \<times> pmem) option" where
  "signal_check_pass pt p tf k m =
     (case signals (procs k p) of
        None \<Rightarrow> Some (Finished, tf, k, m)
      | Some ss \<Rightarrow>
          (case signal_dequeue ss of
             (sig, ss) \<Rightarrow>
               let k = upd_sig p ss k;
                   act = actions ss ! (sig - 1)
               in if sig = 0 then Some (Finished, tf, k, m)
                  else if sa_handler act = SIG_IGN \<and> sig \<noteq> SIGKILL \<and> sig \<noteq> SIGSTOP then Some (Again, tf, k, m)
                  else if sa_handler act = SIG_DFL
                  then (case signal_get_default_action (int sig) of
                          SIG_ACTION_TERM \<Rightarrow> Some (Exit (128 + int sig), tf, k, m)
                        | SIG_ACTION_CORE \<Rightarrow> Some (Exit (128 + int sig), tf, k, m)
                        | SIG_ACTION_STOP \<Rightarrow>
                            let k = upd_proc p (\<lambda>q. q\<lparr>p_state := PROCESS_STOPPED\<rparr>) k;
                                c = current_task (sch k);
                                k = k\<lparr>sch := upd_task c (\<lambda>t. t\<lparr>state := TASK_STOPPED\<rparr>) (sch k)\<rparr>;
                                par = parent (procs k p)
                            in Option.bind
                                 (if par = 0 then Some k
                                  else map_option
                                         (\<lambda>(_, k). let (q, s) = wake_up (p_wait_queue (procs k par)) (sch k)
                                                   in (upd_proc par (\<lambda>x. x\<lparr>p_wait_queue := q\<rparr>) k)\<lparr>sch := s\<rparr>)
                                         (signal_send False par (int SIGCHLD) k))
                                 (\<lambda>k. Some (Again, tf, k\<lparr>sch := schedule (sch k)\<rparr>, m))
                        | SIG_ACTION_CONT \<Rightarrow> Some (Again, tf, k, m)
                        | SIG_ACTION_IGN \<Rightarrow> Some (Again, tf, k, m))
                  else (case setup_signal_frame pt sig tf ss m of
                          (r, tf, ss, m) \<Rightarrow>
                            if r < 0 then Some (Exit (128 + int sig), tf, upd_sig p ss k, m)
                            else Some (Finished, tf, upd_sig p ss k, m))))"

partial_function (option) signal_check_pending ::
  "u64 option \<Rightarrow> nat \<Rightarrow> trapframe \<Rightarrow> kernel \<Rightarrow> pmem \<Rightarrow> (check_result \<times> trapframe \<times> kernel \<times> pmem) option" where
  "signal_check_pending pt p tf k m =
     (case signal_check_pass pt p tf k m of
        None \<Rightarrow> None
      | Some (r, tf, k, m) \<Rightarrow> if r = Again then signal_check_pending pt p tf k m else Some (r, tf, k, m))"


subsection \<open>Signals that cannot be blocked\<close>


lemma bit_sigmask: "1 \<le> sig \<Longrightarrow> sig \<le> 32 \<Longrightarrow> bit (sigmask sig) n \<longleftrightarrow> n = sig - 1"
  unfolding sigmask_def bit_push_bit_iff bit_1_iff by auto

lemma kernel_only_bits: "bit SIG_KERNEL_ONLY_MASK n \<longleftrightarrow> n = 8 \<or> n = 18"
  unfolding SIG_KERNEL_ONLY_MASK_def bit_or_iff by (simp add: bit_sigmask)



lemma sig_ok_mask: "bit (x AND NOT SIG_KERNEL_ONLY_MASK) n \<Longrightarrow> n \<noteq> 8 \<and> n \<noteq> 18"
  by (auto simp: bit_and_iff bit_not_iff kernel_only_bits)
















subsection \<open>Return from a handler\<close>

lemma unat_idx9: "n < 512 \<Longrightarrow> unat (word_of_nat n :: pt_idx) = n"
  by (simp add: unat_of_nat)

lemma load_store_words:
  assumes "i + length ws \<le> 512"
  shows "load_words base i (length ws) (store_words base i ws m) = ws"
proof (intro nth_equalityI)
  fix j assume "j < length (load_words base i (length ws) (store_words base i ws m))"
  then have j: "j < length ws" by (simp add: load_words_def)
  then have u: "unat (word_of_nat (i + j) :: pt_idx) = i + j" using assms by (intro unat_idx9) simp
  show "load_words base i (length ws) (store_words base i ws m) ! j = ws ! j"
    using j by (simp add: load_words_def store_words_def u del: of_nat_add)
qed (simp add: load_words_def)

lemma load_store_words_other: "base' \<noteq> base \<Longrightarrow> load_words base' i n (store_words base j ws m) = load_words base' i n m"
  by (simp add: load_words_def store_words_def)

lemma mask_low: "ucast (ucast (b :: u32) OR push_bit 32 (x :: u64)) = b"
  by (intro bit_word_eqI) (auto simp: bit_ucast_iff bit_or_iff bit_push_bit_iff)

lemma aligned16: "unat (page_off (x AND NOT 15)) mod 8 = 0"
proof -
  have m: "(15 :: u64) = mask 4" "(7 :: u64) = mask 3" by (simp_all add: mask_eq_exp_minus_1)
  have "page_off (x AND NOT 15) AND 7 = 0" unfolding m
    by (intro bit_word_eqI) (auto simp: bit_and_iff bit_not_iff bit_mask_iff)
  then have "take_bit 3 (page_off (x AND NOT 15)) = 0" by (simp only: take_bit_eq_mask m(2))
  then have "unat (take_bit 3 (page_off (x AND NOT 15))) = 0" by (simp only: unsigned_0)
  then have "take_bit 3 (unat (page_off (x AND NOT 15))) = 0" by (simp only: unsigned_take_bit_eq)
  then show ?thesis by (simp only: take_bit_eq_mod) simp
qed

text \<open>The pages of the stack that the frame at \<open>sp\<close> touches are mapped, to different frames that hold no table.\<close>

definition stack_mapped :: "u64 \<Rightarrow> u64 \<Rightarrow> pmem \<Rightarrow> bool" where
  "stack_mapped pt sp m \<longleftrightarrow>
     (let next_page = page_base sp + PAGE_SIZE
      in has (entry_of pt m sp) PT_VALID \<and> uframe pt m sp \<notin> pt_tables (frames m) pt \<and>
         has (entry_of pt m next_page) PT_VALID \<and> uframe pt m next_page \<notin> pt_tables (frames m) pt \<and>
         uframe pt m sp \<noteq> uframe pt m next_page)"

lemma entry_walk:
  assumes "has (entry_of pt m v) PT_VALID"
  obtains q where "vmm_get_pte_from_table pt v m = Some q" "read_pte m q = entry_of pt m v" "pt \<noteq> 0"
proof (cases "vmm_get_pte_from_table pt v m")
  case None
  then show ?thesis using assms by (simp add: entry_of_def has_def)
next
  case (Some q)
  have "vmm_get_pte_from_table 0 v m = None" by (simp add: vmm_get_pte_from_table_def)
  then have "pt \<noteq> 0" using Some by auto
  then show ?thesis using that [OF Some entry_of_Some [OF Some, symmetric]] by simp
qed

lemma frame_roundtrip:
  assumes st: "stack_mapped pt sp m" and al: "unat (page_off sp) mod 8 = 0" and len: "length fr = 37"
    and q: "vmm_get_pte_from_table pt sp m = Some q"
  obtains m' where "store_frame pt sp q fr m = (True, m')" "load_frame pt sp m' = Some fr"
proof -
  define b1 b2 i first where "b1 = uframe pt m sp" and "b2 = uframe pt m (page_base sp + PAGE_SIZE)"
    and "i = unat (page_off sp) div 8" and "first = (4096 - unat (page_off sp)) div 8"
  have S: "has (entry_of pt m sp) PT_VALID" "b1 \<notin> pt_tables (frames m) pt"
    "has (entry_of pt m (page_base sp + PAGE_SIZE)) PT_VALID" "b2 \<notin> pt_tables (frames m) pt" "b1 \<noteq> b2"
    using st by (auto simp: stack_mapped_def b1_def b2_def Let_def)
  have off: "unat (page_off sp) < 4096" by (simp add: page_off_mod)
  have fi: "first = 512 - i" "i \<le> 512" using al off by (auto simp: first_def i_def)
  have rq: "read_pte m q = entry_of pt m sp" using entry_of_Some [OF q] by simp
  have ld: "load_frame pt sp m' = (if first \<ge> 37 then Some (load_words b1 i 37 m')
      else Some (load_words b1 i first m' @ load_words b2 0 (37 - first) m'))"
    if E: "\<And>v. entry_of pt m' v = entry_of pt m v" for m'
  proof -
    obtain q1 where q1: "vmm_get_pte_from_table pt sp m' = Some q1" "read_pte m' q1 = entry_of pt m sp"
      using entry_walk [of pt m' sp] S(1) E by metis
    obtain q2 where q2: "vmm_get_pte_from_table pt (page_base sp + PAGE_SIZE) m' = Some q2"
      "read_pte m' q2 = entry_of pt m (page_base sp + PAGE_SIZE)"
      using entry_walk [of pt m' "page_base sp + PAGE_SIZE"] S(3) E by metis
    show ?thesis unfolding load_frame_def q1(1) option.case
      using q1(2) q2 S(1,3) by (simp add: Let_def b1_def b2_def i_def first_def)
  qed
  show thesis
  proof (cases "first \<ge> 37")
    case True
    let ?m = "store_words b1 i fr m"
    have e: "entry_of pt ?m v = entry_of pt m v" for v
      by (rule data_write_tables(3) [OF S(2)]) (simp add: store_words_def)
    have "load_words b1 i 37 ?m = fr" using load_store_words [of i fr b1 m] fi True len by simp
    then have "load_frame pt sp ?m = Some fr" using ld [OF e] True by simp
    moreover have "store_frame pt sp q fr m = (True, ?m)"
      using True len rq by (simp add: store_frame_def b1_def i_def first_def Let_def)
    ultimately show ?thesis using that by blast
  next
    case False
    let ?m1 = "store_words b1 i (take first fr) m"
    let ?m = "store_words b2 0 (drop first fr) ?m1"
    have e1: "entry_of pt ?m1 v = entry_of pt m v" "pt_tables (frames ?m1) pt = pt_tables (frames m) pt" for v
      by (rule data_write_tables(3,1) [OF S(2)]; simp add: store_words_def)+
    have e: "entry_of pt ?m v = entry_of pt m v" for v
      using data_write_tables(3) [of b2 ?m1 pt ?m] S(4) e1 by (simp add: store_words_def)
    obtain q2 where q2: "vmm_get_pte_from_table pt (page_base sp + PAGE_SIZE) ?m1 = Some q2"
      "read_pte ?m1 q2 = entry_of pt ?m1 (page_base sp + PAGE_SIZE)" "pt \<noteq> 0"
      using entry_walk [of pt ?m1 "page_base sp + PAGE_SIZE"] S(3) e1(1) by metis
    have "store_frame pt sp q fr m = (True, ?m)"
      using False len rq S(3) walk_alloc_present [OF q2(3,1)] q2(2) e1(1)
      by (simp add: store_frame_def b1_def i_def first_def b2_def Let_def)
    moreover have "load_words b1 i first ?m = take first fr"
      using load_store_words [of i "take first fr" b1 m] load_store_words_other [OF S(5)] fi len False by simp
    moreover have "load_words b2 0 (37 - first) ?m = drop first fr"
      using load_store_words [of 0 "drop first fr" b2 ?m1] len by simp
    ultimately show ?thesis using that ld [OF e] False by simp
  qed
qed


text \<open>
  C26. A handler that returns resumes what the signal interrupted. If the pages under the frame are mapped,
  \<open>setup_signal_frame\<close> succeeds, the user continues in the handler with the signal number as its argument and the
  stack below the old one; and a later \<open>sys_sigreturn\<close> with the same stack pointer, in any memory that still
  holds the frame, restores the 31 registers, the stack pointer, the program counter, the processor state and the
  mask of blocked signals, less SIGKILL and SIGSTOP. This holds also when the frame crosses a page boundary.
\<close>

theorem sigreturn_restores:
  assumes sp: "sp = (sp_el0 tf - 296) AND NOT 15" and st: "stack_mapped pt sp m" and x: "length (xr tf) = 32"
  shows "\<exists>tf' ss' m'. setup_signal_frame (Some pt) sig tf ss m = (0, tf', ss', m') \<and>
    elr tf' = sa_handler (actions ss ! (sig - 1)) \<and> xr tf' ! 0 = of_nat sig \<and> sp_el0 tf' = sp \<and>
    (\<forall>tf1 ss1 m1. sp_el0 tf1 = sp \<and> load_frame pt sp m1 = load_frame pt sp m' \<longrightarrow>
       (\<exists>tf2 ss2. sys_sigreturn (Some pt) tf1 ss1 m1 = Some (tf2, ss2) \<and>
          take 31 (xr tf2) = take 31 (xr tf) \<and> sp_el0 tf2 = sp_el0 tf \<and> elr tf2 = elr tf \<and> spsr tf2 = spsr tf \<and>
          blocked ss2 = blocked ss AND NOT SIG_KERNEL_ONLY_MASK))"
proof -
  let ?fr = "sigframe tf (blocked ss) sig"
  have S: "has (entry_of pt m sp) PT_VALID" using st by (auto simp: stack_mapped_def Let_def)
  obtain q where q: "vmm_get_pte_from_table pt sp m = Some q" "read_pte m q = entry_of pt m sp" "pt \<noteq> 0"
    using entry_walk [OF S] .
  have len: "length ?fr = 37" using x by (simp add: sigframe_def)
  obtain m' where F: "store_frame pt sp q ?fr m = (True, m')" "load_frame pt sp m' = Some ?fr"
    using frame_roundtrip [OF st _ len q(1)] aligned16 [of "sp_el0 tf - 296"] sp by metis
  have nth: "take 31 ?fr = take 31 (xr tf)" "?fr ! 31 = sp_el0 tf" "?fr ! 32 = elr tf" "?fr ! 33 = spsr tf"
    "?fr ! 34 = ucast (blocked ss) OR push_bit 32 (of_nat sig)"
    using x by (simp_all add: sigframe_def nth_append)
  have ret: "\<exists>tf2 ss2. sys_sigreturn (Some pt) tf1 ss1 m1 = Some (tf2, ss2) \<and>
          take 31 (xr tf2) = take 31 (xr tf) \<and> sp_el0 tf2 = sp_el0 tf \<and> elr tf2 = elr tf \<and> spsr tf2 = spsr tf \<and>
          blocked ss2 = blocked ss AND NOT SIG_KERNEL_ONLY_MASK"
    if "sp_el0 tf1 = sp" "load_frame pt sp m1 = load_frame pt sp m'" for tf1 ss1 m1
    using that F(2) nth x by (simp add: sys_sigreturn_def mask_low)
  have "setup_signal_frame (Some pt) sig tf ss m = (0, tf\<lparr>elr := sa_handler (actions ss ! (sig - 1)), sp_el0 := sp,
      xr := (xr tf)[0 := of_nat sig, 30 := sp + 280]\<rparr>, enter_handler sig ss, m')"
    unfolding setup_signal_frame_def option.case Let_def sp [symmetric] walk_alloc_present [OF q(3,1)]
    using q(2) S F(1) by simp
  then show ?thesis using ret x by simp
qed

text \<open>A stack that ends at \<open>0x1100\<close>: the frame at \<open>0xFD0\<close> lies in two pages.\<close>

theorem sigreturn_restores_witness:
  "\<exists>tf' ss' m' tf2 ss2. setup_signal_frame (Some 0x1000) 15
       \<lparr>xr = replicate 32 5, sp_el0 = 0x1100, elr = 0x400, spsr = 0\<rparr> signal_struct0 two_pages = (0, tf', ss', m') \<and>
     sys_sigreturn (Some 0x1000) tf' ss' m' = Some (tf2, ss2) \<and> elr tf2 = 0x400 \<and> take 31 (xr tf2) = replicate 31 5"
proof -
  let ?tf = "\<lparr>xr = replicate 32 5, sp_el0 = 0x1100, elr = 0x400, spsr = 0\<rparr> :: trapframe"
  have s: "(0xFD0 :: u64) = (sp_el0 ?tf - 296) AND NOT 15" by simp
  have pb: "page_base 0xFD0 = 0" by simp
  have "stack_mapped 0x1000 0xFD0 two_pages"
    by (simp add: stack_mapped_def pb two_pages_tables two_pages_entry has_def Let_def)
  from sigreturn_restores [OF s this, of 15 signal_struct0]
  show ?thesis by fastforce
qed

end
