(* ===== verification/Tty.thy ===== *)
theory Tty
  imports Console Ring Signal
begin

section \<open>The line discipline of terminals\<close>

text \<open>
  A model of the input half of \<^verbatim>\<open>kernel/drivers/tty.c\<close>: received characters, echo and line editing, reading,
  writing and the control requests. Operations act on the terminal, the console it echoes to and the kernel
  with its scheduler; those that send a signal to a process group return an option, as \<open>signal_send_group\<close> does. Copies
  from and to user memory are arguments: the value read, or None if the copy fails. The spin lock
  of the terminal makes every operation, and every pass of the reading loop, one step. \<open>canon_lines\<close>, a C int that counts
  the complete lines in a buffer of 4096 characters, is an unbounded integer.
\<close>

type_synonym tstate = "tty \<times> console \<times> kernel"

abbreviation (input) BUF_SIZE :: nat where "BUF_SIZE \<equiv> 4096"
abbreviation (input) MAX_CANON :: nat where "MAX_CANON \<equiv> 255"
abbreviation (input) ISTRIP :: u32 where "ISTRIP \<equiv> 0x20"
abbreviation (input) INLCR :: u32 where "INLCR \<equiv> 0x40"
abbreviation (input) IGNCR :: u32 where "IGNCR \<equiv> 0x80"
abbreviation (input) ICRNL :: u32 where "ICRNL \<equiv> 0x100"
abbreviation (input) IUCLC :: u32 where "IUCLC \<equiv> 0x200"
abbreviation (input) IXON :: u32 where "IXON \<equiv> 0x400"
abbreviation (input) IXANY :: u32 where "IXANY \<equiv> 0x800"
abbreviation (input) IMAXBEL :: u32 where "IMAXBEL \<equiv> 0x2000"
abbreviation (input) ISIG :: u32 where "ISIG \<equiv> 1"
abbreviation (input) ICANON :: u32 where "ICANON \<equiv> 2"
abbreviation (input) ECHO :: u32 where "ECHO \<equiv> 8"
abbreviation (input) ECHOE :: u32 where "ECHOE \<equiv> 0x10"
abbreviation (input) ECHOK :: u32 where "ECHOK \<equiv> 0x20"
abbreviation (input) ECHONL :: u32 where "ECHONL \<equiv> 0x40"
abbreviation (input) NOFLSH :: u32 where "NOFLSH \<equiv> 0x80"
abbreviation (input) TOSTOP :: u32 where "TOSTOP \<equiv> 0x100"
abbreviation (input) ECHOCTL :: u32 where "ECHOCTL \<equiv> 0x200"
abbreviation (input) ECHOKE :: u32 where "ECHOKE \<equiv> 0x800"
abbreviation (input) IEXTEN :: u32 where "IEXTEN \<equiv> 0x8000"
abbreviation (input) VINTR :: nat where "VINTR \<equiv> 0"
abbreviation (input) VQUIT :: nat where "VQUIT \<equiv> 1"
abbreviation (input) VERASE :: nat where "VERASE \<equiv> 2"
abbreviation (input) VKILL :: nat where "VKILL \<equiv> 3"
abbreviation (input) VEOF :: nat where "VEOF \<equiv> 4"
abbreviation (input) VTIME :: nat where "VTIME \<equiv> 5"
abbreviation (input) VMIN :: nat where "VMIN \<equiv> 6"
abbreviation (input) VSTART :: nat where "VSTART \<equiv> 8"
abbreviation (input) VSTOP :: nat where "VSTOP \<equiv> 9"
abbreviation (input) VSUSP :: nat where "VSUSP \<equiv> 10"
abbreviation (input) VEOL :: nat where "VEOL \<equiv> 11"
abbreviation (input) VREPRINT :: nat where "VREPRINT \<equiv> 12"
abbreviation (input) VDISCARD :: nat where "VDISCARD \<equiv> 13"
abbreviation (input) VWERASE :: nat where "VWERASE \<equiv> 14"
abbreviation (input) VLNEXT :: nat where "VLNEXT \<equiv> 15"
abbreviation (input) VEOL2 :: nat where "VEOL2 \<equiv> 16"

abbreviation lflag :: "tty \<Rightarrow> u32 \<Rightarrow> bool" where "lflag t f \<equiv> has (c_lflag (termios t)) f"
abbreviation iflag :: "tty \<Rightarrow> u32 \<Rightarrow> bool" where "iflag t f \<equiv> has (c_iflag (termios t)) f"
abbreviation cc :: "tty \<Rightarrow> nat \<Rightarrow> u8" where "cc t i \<equiv> c_cc (termios t) ! i"

definition is_ctrl_char :: "u8 \<Rightarrow> bool" where
  "is_ctrl_char c \<longleftrightarrow> c < 32 \<or> c = 127"

definition char_width :: "u8 \<Rightarrow> tty \<Rightarrow> int" where
  "char_width c t =
     (if c = 9 then 8 - c_rem (canon_column t) 8
      else if is_ctrl_char c then (if lflag t ECHOCTL then 2 else 0)
      else 1)"

definition input_available :: "tty \<Rightarrow> nat" where
  "input_available t = (read_head t + BUF_SIZE - read_tail t) mod BUF_SIZE"

definition read_buf_empty :: "tty \<Rightarrow> bool" where
  "read_buf_empty t \<longleftrightarrow> read_head t = read_tail t"

definition read_buf_full :: "tty \<Rightarrow> bool" where
  "read_buf_full t \<longleftrightarrow> (read_head t + 1) mod BUF_SIZE = read_tail t"

definition read_buf_put :: "u8 \<Rightarrow> tty \<Rightarrow> tty" where
  "read_buf_put c t =
     (if read_buf_full t then t
      else t\<lparr>read_buf := (read_buf t)[read_head t := c], read_head := (read_head t + 1) mod BUF_SIZE,
             read_cnt := read_cnt t + 1\<rparr>)"

definition read_buf_get :: "tty \<Rightarrow> u8 \<times> tty" where
  "read_buf_get t =
     (if read_buf_empty t then (0, t)
      else (read_buf t ! read_tail t,
            t\<lparr>read_tail := (read_tail t + 1) mod BUF_SIZE, read_cnt := read_cnt t - 1\<rparr>))"

subsection \<open>Echo\<close>

definition put :: "font \<Rightarrow> u8 \<Rightarrow> tty \<times> console \<Rightarrow> tty \<times> console" where
  "put font c ts = tty_put_char font c (fst ts) (snd ts)"

definition tty_echo_char :: "font \<Rightarrow> u8 \<Rightarrow> tty \<times> console \<Rightarrow> tty \<times> console" where
  "tty_echo_char font c ts =
     (let t = fst ts
      in if \<not> lflag t ECHO then if c = 10 \<and> lflag t ECHONL then put font 10 ts else ts
         else if c = 10 then put font 10 ts
         else if c = 9 then put font 9 ts
         else if is_ctrl_char c then if lflag t ECHOCTL then put font (c + 64) (put font 94 ts) else ts
         else put font c ts)"

definition rubout :: "font \<Rightarrow> tty \<times> console \<Rightarrow> tty \<times> console" where
  "rubout font ts = put font 8 (put font 32 (put font 8 ts))"

definition erase_char :: "font \<Rightarrow> u8 \<Rightarrow> tty \<times> console \<Rightarrow> tty \<times> console" where
  "erase_char font c ts =
     (let t = fst ts
      in if \<not> lflag t ECHO then ts
         else if \<not> lflag t ECHOE then tty_echo_char font (cc t VERASE) ts
         else if c = 9
         then let width = 8 - c_rem (canon_column t - 8) 8;
                  width = (if width = 0 then 8 else width)
              in (rubout font ^^ nat width) ts
         else if is_ctrl_char c \<and> lflag t ECHOCTL then rubout font (rubout font ts)
         else rubout font ts)"

text \<open>The loops that erase characters from the end of the line, the first \<open>n\<close> of which are left, while they satisfy \<open>P\<close>.\<close>

fun erase_while :: "font \<Rightarrow> (u8 \<Rightarrow> bool) \<Rightarrow> nat \<Rightarrow> tty \<times> console \<Rightarrow> tty \<times> console" where
  "erase_while font P 0 ts = ts"
| "erase_while font P (Suc n) ts =
     (let c = canon_buf (fst ts) ! n
      in if P c then erase_while font P n (erase_char font c ((fst ts)\<lparr>canon_head := n\<rparr>, snd ts)) else ts)"

definition erase_line :: "font \<Rightarrow> tty \<times> console \<Rightarrow> tty \<times> console" where
  "erase_line font ts =
     (if \<not> lflag (fst ts) ECHO then ts
      else let (t, s) = (if lflag (fst ts) ECHOKE then erase_while font (\<lambda>_. True) (canon_head (fst ts)) ts
                         else if lflag (fst ts) ECHOK then put font 10 ts
                         else tty_echo_char font (cc (fst ts) VKILL) ts)
           in (t\<lparr>canon_head := 0, canon_column := 0\<rparr>, s))"

definition reprint_line :: "font \<Rightarrow> tty \<times> console \<Rightarrow> tty \<times> console" where
  "reprint_line font ts =
     (if \<not> lflag (fst ts) ECHO then ts
      else fold (tty_echo_char font) (take (canon_head (fst ts)) (canon_buf (fst ts)))
             (put font 10 (put font 82 (put font 94 ts))))"

subsection \<open>Signals and waking\<close>

definition tty_signal_session :: "tty \<Rightarrow> int \<Rightarrow> kernel \<Rightarrow> (int \<times> kernel) option" where
  "tty_signal_session t sig k = (if tty_pgrp t > 0 then signal_send_group (tty_pgrp t) sig k else Some (-1, k))"

text \<open>The handler of signal 22 is looked up at index 22, which is that of signal 23.\<close>

definition tty_check_change :: "tty \<Rightarrow> kernel \<Rightarrow> (int \<times> kernel) option" where
  "tty_check_change t k =
     (let p = current_proc k
      in if p = 0 then Some (0, k)
         else if pgid (procs k p) = tty_pgrp t then Some (0, k)
         else if lflag t TOSTOP
         then let (blk, ign) = (case signals (procs k p) of
                                  None \<Rightarrow> (False, False)
                                | Some ss \<Rightarrow> (has (blocked ss) (sigmask 22), sa_handler (actions ss ! 22) = SIG_IGN))
              in if \<not> blk \<and> \<not> ign then map_option (\<lambda>(_, k). (-1, k)) (signal_send_group (pgid (procs k p)) 22 k)
                 else Some (-1, k)
         else Some (0, k))"

definition wake_readers :: "tty \<Rightarrow> kernel \<Rightarrow> tty \<times> kernel" where
  "wake_readers t k = (let (q, s) = wake_up (read_wait t) (sch k) in (t\<lparr>read_wait := q\<rparr>, k\<lparr>sch := s\<rparr>))"

definition wake_writers :: "tty \<Rightarrow> kernel \<Rightarrow> tty \<times> kernel" where
  "wake_writers t k = (let (q, s) = wake_up (write_wait t) (sch k) in (t\<lparr>write_wait := q\<rparr>, k\<lparr>sch := s\<rparr>))"

definition finish_canonical_line :: "tty \<Rightarrow> kernel \<Rightarrow> tty \<times> kernel" where
  "finish_canonical_line t k =
     (let t = fold read_buf_put (take (canon_head t) (canon_buf t)) t
      in wake_readers (t\<lparr>canon_lines := canon_lines t + 1, canon_head := 0, canon_column := 0\<rparr>) k)"

definition tty_flush_input :: "tty \<Rightarrow> tty" where
  "tty_flush_input t = t\<lparr>read_head := read_tail t, read_cnt := 0, canon_head := 0, canon_lines := 0\<rparr>"


subsection \<open>Received characters\<close>

text \<open>The input mappings; None means that the character is ignored.\<close>

definition map_input :: "tty \<Rightarrow> u8 \<Rightarrow> u8 option" where
  "map_input t c =
     (let c = (if iflag t ISTRIP then c AND 0x7F else c)
      in if c = 13 \<and> iflag t IGNCR then None
         else let c = (if c = 13 then if iflag t ICRNL then 10 else c
                       else if c = 10 \<and> iflag t INLCR then 13 else c)
              in Some (if iflag t IUCLC \<and> 65 \<le> c \<and> c \<le> 90 then c + 32 else c))"

definition signal_char :: "tty \<Rightarrow> u8 \<Rightarrow> int" where
  "signal_char t c =
     (if \<not> lflag t ISIG then 0
      else if c = cc t VINTR then 2
      else if c = cc t VQUIT then 3
      else if c = cc t VSUSP then 20
      else 0)"

definition receive_signal :: "font \<Rightarrow> u8 \<Rightarrow> int \<Rightarrow> tstate \<Rightarrow> tstate option" where
  "receive_signal font c sig st =
     (case st of
        (t, s, k) \<Rightarrow>
          let (t, s) = (if lflag t ECHO then put font 10 (put font (c + 64) (put font 94 (t, s))) else (t, s));
              t = (if lflag t NOFLSH then t else (tty_flush_input t)\<lparr>canon_column := 0\<rparr>)
          in map_option (\<lambda>(_, k). let (t, k) = wake_readers t k in (t, s, k)) (tty_signal_session t sig k))"

text \<open>Flow control; the result Inl is that the character is consumed.\<close>

definition receive_flow :: "u8 \<Rightarrow> tty \<Rightarrow> kernel \<Rightarrow> (tty \<times> kernel) + (tty \<times> kernel)" where
  "receive_flow c t k =
     (if \<not> iflag t IXON then Inr (t, k)
      else if c = cc t VSTOP then Inl (t\<lparr>tty_flags := tty_flags t OR TTY_STOPPED\<rparr>, k)
      else if c = cc t VSTART then Inl (wake_writers (t\<lparr>tty_flags := tty_flags t AND NOT TTY_STOPPED\<rparr>) k)
      else if iflag t IXANY \<and> has (tty_flags t) TTY_STOPPED
      then Inr (wake_writers (t\<lparr>tty_flags := tty_flags t AND NOT TTY_STOPPED\<rparr>) k)
      else Inr (t, k))"

definition canon_put :: "u8 \<Rightarrow> tty \<Rightarrow> tty" where
  "canon_put c t = t\<lparr>canon_buf := (canon_buf t)[canon_head t := c], canon_head := canon_head t + 1\<rparr>"

definition erase_last :: "font \<Rightarrow> tty \<times> console \<Rightarrow> tty \<times> console" where
  "erase_last font ts =
     (case ts of
        (t, s) \<Rightarrow>
          if canon_head t > 0
          then let t = t\<lparr>canon_head := canon_head t - 1\<rparr>;
                   erased = canon_buf t ! canon_head t;
                   col = canon_column t - char_width erased t
               in erase_char font erased (t\<lparr>canon_column := (if col < 0 then 0 else col)\<rparr>, s)
          else (t, s))"

definition erase_word :: "font \<Rightarrow> tty \<times> console \<Rightarrow> tty \<times> console" where
  "erase_word font ts =
     (let ts = erase_while font (\<lambda>c. c = 32) (canon_head (fst ts)) ts
      in erase_while font (\<lambda>c. c \<noteq> 32) (canon_head (fst ts)) ts)"

text \<open>The special characters of canonical mode; None means that the character is an ordinary one.\<close>

definition receive_canon :: "font \<Rightarrow> u8 \<Rightarrow> tstate \<Rightarrow> tstate option" where
  "receive_canon font c st =
     (case st of
        (t, s, k) \<Rightarrow>
          let ext = lflag t IEXTEN;
              ret = (\<lambda>(t, s). Some (t, s, k));
              finish = (\<lambda>(t, s). let (t, k) = finish_canonical_line t k in Some (t, s, k))
          in if ext \<and> c = cc t VLNEXT
             then let t = t\<lparr>tty_flags := tty_flags t OR TTY_LNEXT\<rparr>
                  in ret (if lflag t ECHO then put font 8 (put font 94 (t, s)) else (t, s))
             else if c = cc t VERASE \<or> c = 8 \<or> c = 127 then ret (erase_last font (t, s))
             else if ext \<and> c = cc t VWERASE then ret (erase_word font (t, s))
             else if c = cc t VKILL then ret (erase_line font (t, s))
             else if ext \<and> c = cc t VREPRINT then ret (reprint_line font (t, s))
             else if ext \<and> c = cc t VDISCARD
             then let t = t\<lparr>tty_flags := tty_flags t XOR TTY_FLUSHING\<rparr>
                  in ret (if lflag t ECHO then put font 79 (put font 94 (t, s)) else (t, s))
             else if c = cc t VEOF
             then if canon_head t > 0 then finish (t, s)
                  else let (t, k) = wake_readers (t\<lparr>canon_lines := canon_lines t + 1\<rparr>) k in Some (t, s, k)
             else if c = cc t VEOL \<or> ext \<and> c = cc t VEOL2
             then if c \<noteq> 0
                  then finish (if canon_head t < MAX_CANON - 1 then tty_echo_char font c (canon_put c t, s) else (t, s))
                  else ret (t, s)
             else if c = 10
             then finish (tty_echo_char font 10 (if canon_head t < MAX_CANON - 1 then canon_put 10 t else t, s))
             else None)"

definition store_char :: "font \<Rightarrow> u8 \<Rightarrow> tstate \<Rightarrow> tstate" where
  "store_char font c st =
     (case st of
        (t, s, k) \<Rightarrow>
          if lflag t ICANON
          then if canon_head t < MAX_CANON - 1
               then let t = canon_put c t;
                        t = t\<lparr>canon_column := canon_column t + char_width c t\<rparr>;
                        (t, s) = tty_echo_char font c (t, s)
                    in (t, s, k)
               else if iflag t IMAXBEL then let (t, s) = put font 7 (t, s) in (t, s, k)
               else (t, s, k)
          else let (t, s) = tty_echo_char font c (read_buf_put c t, s);
                   (t, k) = wake_readers t k
               in (t, s, k))"

definition tty_receive_char :: "font \<Rightarrow> u8 \<Rightarrow> tstate \<Rightarrow> tstate option" where
  "tty_receive_char font c st =
     (case st of
        (t, s, k) \<Rightarrow>
          if has (tty_flags t) TTY_LNEXT
          then Some (store_char font c (t\<lparr>tty_flags := tty_flags t AND NOT TTY_LNEXT\<rparr>, s, k))
          else case map_input t c of
                 None \<Rightarrow> Some (t, s, k)
               | Some c \<Rightarrow>
                   if signal_char t c \<noteq> 0 then receive_signal font c (signal_char t c) (t, s, k)
                   else case receive_flow c t k of
                          Inl (t, k) \<Rightarrow> Some (t, s, k)
                        | Inr (t, k) \<Rightarrow>
                            if lflag t ICANON
                            then case receive_canon font c (t, s, k) of
                                   Some st \<Rightarrow> Some st
                                 | None \<Rightarrow> Some (store_char font c (t, s, k))
                            else Some (store_char font c (t, s, k)))"

fun tty_receive_buf :: "font \<Rightarrow> u8 list \<Rightarrow> tstate \<Rightarrow> tstate option" where
  "tty_receive_buf font [] st = Some st"
| "tty_receive_buf font (c # cs) st = Option.bind (tty_receive_char font c st) (tty_receive_buf font cs)"

subsection \<open>Reading and writing\<close>

function canon_read :: "nat \<Rightarrow> u8 list \<Rightarrow> tty \<Rightarrow> bool \<times> u8 list \<times> tty" where
  "canon_read count got t =
     (if length got < count \<and> \<not> read_buf_empty t
      then let (c, t) = read_buf_get t
           in if c = cc t VEOF then (True, got, t\<lparr>canon_lines := canon_lines t - 1\<rparr>)
              else if c = 10 \<or> c = cc t VEOL \<or> c = cc t VEOL2
              then (True, got @ [c], t\<lparr>canon_lines := canon_lines t - 1\<rparr>)
              else canon_read count (got @ [c]) t
      else (False, got, t))"
  by pat_completeness auto
termination
  by (relation "measure (\<lambda>(count, got, t). count - length got)") auto

declare canon_read.simps [simp del]

fun raw_read :: "nat \<Rightarrow> tty \<Rightarrow> u8 list \<times> tty" where
  "raw_read 0 t = ([], t)"
| "raw_read (Suc n) t = (let (c, t) = read_buf_get t; (cs, t) = raw_read n t in (c # cs, t))"

text \<open>
  The outcome of one pass of the loop of \<open>n_tty_read\<close>: the call returns with the bytes read, it
  returns \<open>-EINTR\<close>, the reader sleeps, with a timeout or without, or the loop continues at once.
\<close>

datatype read_result = Returns "u8 list" | Interrupted | Sleeps "u8 list" | Sleeps_timeout nat "u8 list" | Loops "u8 list"

definition signal_waiting :: "kernel \<Rightarrow> bool" where
  "signal_waiting k \<longleftrightarrow>
     current_proc k \<noteq> 0 \<and>
     (case signals (procs k (current_proc k)) of None \<Rightarrow> False | Some ss \<Rightarrow> pending ss AND NOT (blocked ss) \<noteq> 0)"

definition timeout_ticks :: "nat \<Rightarrow> u8 \<Rightarrow> nat" where
  "timeout_ticks current_interval vtime =
     (let n = (unat vtime * 100) div current_interval in if n = 0 then 1 else n)"

definition noncanon_pass :: "nat \<Rightarrow> nat \<Rightarrow> u8 list \<Rightarrow> tty \<Rightarrow> read_result \<times> tty" where
  "noncanon_pass current_interval count got t =
     (let vmin = unat (cc t VMIN);
          vtime = cc t VTIME;
          available = input_available t;
          to_read = (if available < count - length got then available else count - length got)
      in if vmin = 0 \<and> vtime = 0
         then if available > 0 then let (cs, t) = raw_read to_read t in (Returns (got @ cs), t) else (Returns got, t)
         else if vmin > 0 \<and> vtime = 0
         then if available < vmin \<and> available < count - length got then (Sleeps got, t)
              else let (cs, t) = raw_read to_read t;
                       got = got @ cs
                   in if length got \<ge> vmin then (Returns got, t)
                      else if available > 0
                      then let (cs, t) = raw_read (if available < count - length got then available else count - length got) t
                           in (Returns (got @ cs), t)
                      else (Sleeps got, t)
         else if vmin = 0
         then if available > 0 then let (cs, t) = raw_read to_read t in (Returns (got @ cs), t)
              else (Sleeps_timeout (timeout_ticks current_interval vtime) got, t)
         else if got = [] \<and> available = 0 then (Sleeps got, t)
         else let (cs, t) = (if available > 0 then raw_read to_read t else ([], t));
                  got = got @ cs
              in if length got \<ge> vmin \<or> length got \<ge> count then (Returns got, t)
                 else (Sleeps_timeout (timeout_ticks current_interval vtime) got, t))"

definition n_tty_read_pass :: "nat \<Rightarrow> nat \<Rightarrow> u8 list \<Rightarrow> tty \<Rightarrow> kernel \<Rightarrow> read_result \<times> tty" where
  "n_tty_read_pass current_interval count got t k =
     (if signal_waiting k then (if got = [] then Interrupted else Returns got, t)
      else if lflag t ICANON
      then if canon_lines t = 0 then (Sleeps got, t)
           else case canon_read count got t of (done_flag, got, t) \<Rightarrow> (if done_flag then Returns got else Loops got, t)
      else noncanon_pass current_interval count got t)"

text \<open>The passes that follow each other without sleeping. A loop that neither returns nor sleeps is None.\<close>

partial_function (option) n_tty_read :: "nat \<Rightarrow> nat \<Rightarrow> u8 list \<Rightarrow> tty \<Rightarrow> kernel \<Rightarrow> (read_result \<times> tty) option" where
  "n_tty_read current_interval count got t k =
     (if length got \<ge> count then Some (Returns got, t)
      else case n_tty_read_pass current_interval count got t k of
             (Loops got, t) \<Rightarrow> n_tty_read current_interval count got t k
           | (r, t) \<Rightarrow> Some (r, t))"

text \<open>
  The sleeps of a reader and of a writer whose terminal is stopped. Bytes are written until the terminal is stopped;
  the result gives the bytes left, at which the writer sleeps.
\<close>

definition tty_read_sleep :: "tty \<Rightarrow> kernel \<Rightarrow> tty \<times> kernel" where
  "tty_read_sleep t k = (let (q, s) = sleep_on (read_wait t) (sch k) in (t\<lparr>read_wait := q\<rparr>, k\<lparr>sch := s\<rparr>))"

definition tty_write_sleep :: "tty \<Rightarrow> kernel \<Rightarrow> tty \<times> kernel" where
  "tty_write_sleep t k = (let (q, s) = sleep_on (write_wait t) (sch k) in (t\<lparr>write_wait := q\<rparr>, k\<lparr>sch := s\<rparr>))"

fun write_bytes :: "font \<Rightarrow> u8 list \<Rightarrow> tty \<times> console \<Rightarrow> u8 list \<times> tty \<times> console" where
  "write_bytes font [] ts = ([], ts)"
| "write_bytes font (c # cs) ts =
     (if has (tty_flags (fst ts)) TTY_STOPPED then (c # cs, ts) else write_bytes font cs (put font c ts))"

text \<open>The result None is \<open>-EINTR\<close>.\<close>

definition n_tty_write :: "font \<Rightarrow> u8 list \<Rightarrow> tstate \<Rightarrow> (u8 list option \<times> tstate) option" where
  "n_tty_write font cs st =
     (case st of
        (t, s, k) \<Rightarrow>
          map_option (\<lambda>(r, k). if r < 0 then (None, t, s, k)
                               else case write_bytes font cs (t, s) of (rest, t, s) \<Rightarrow> (Some rest, t, s, k))
            (tty_check_change t k))"

subsection \<open>Control requests\<close>

text \<open>
  What a request reads from user memory, None when the copy fails, and what it writes there. \<open>copy_ok\<close> tells that the
  copy to the user succeeds.
\<close>

datatype user_value = U_termios termios | U_winsize u16 u16 | U_u64 u64 | U_int int | U_char u8

definition to_user :: "bool \<Rightarrow> user_value \<Rightarrow> tstate \<Rightarrow> (int \<times> user_value option \<times> tstate) option" where
  "to_user copy_ok v st = Some (if copy_ok then (0, Some v, st) else (-1, None, st))"

definition ioctl_set_termios :: "bool \<Rightarrow> user_value option \<Rightarrow> tstate \<Rightarrow> (int \<times> user_value option \<times> tstate) option" where
  "ioctl_set_termios flush u st =
     (case (u, st) of
        (Some (U_termios kt), (t, s, k)) \<Rightarrow>
          let t = (if flush then tty_flush_input t else t) in Some (0, None, t\<lparr>termios := kt\<rparr>, s, k)
      | _ \<Rightarrow> Some (-1, None, st))"

definition ioctl_set_winsize :: "user_value option \<Rightarrow> tstate \<Rightarrow> (int \<times> user_value option \<times> tstate) option" where
  "ioctl_set_winsize u st =
     (case (u, st) of
        (Some (U_winsize row col), (t, s, k)) \<Rightarrow>
          let t' = t\<lparr>ws_row := row, ws_col := col\<rparr>
          in if ws_row t \<noteq> row \<or> ws_col t \<noteq> col
             then map_option (\<lambda>(_, k). (0, None, t', s, k)) (tty_signal_session t' 28 k)
             else Some (0, None, t', s, k)
      | _ \<Rightarrow> Some (-1, None, st))"

definition ioctl_set_pgrp :: "user_value option \<Rightarrow> tstate \<Rightarrow> (int \<times> user_value option \<times> tstate) option" where
  "ioctl_set_pgrp u st =
     (case (u, st) of
        (Some (U_u64 g), (t, s, k)) \<Rightarrow>
          if current_proc k = 0 \<or> sid (procs k (current_proc k)) \<noteq> session_id t then Some (-25, None, st)
          else Some (0, None, t\<lparr>tty_pgrp := g\<rparr>, s, k)
      | _ \<Rightarrow> Some (-1, None, st))"

text \<open>The address that stands for the terminal in \<open>controlling_tty\<close>.\<close>

definition tty_addr :: "tty \<Rightarrow> nat" where
  "tty_addr t = (if is_console t then 1 else 2)"

definition become_controlling :: "nat \<Rightarrow> tty \<Rightarrow> kernel \<Rightarrow> tty \<times> kernel" where
  "become_controlling p t k =
     (t\<lparr>session := p, session_id := sid (procs k p), tty_pgrp := pgid (procs k p)\<rparr>,
      upd_proc p (\<lambda>q. q\<lparr>controlling_tty := tty_addr t\<rparr>) k)"

definition ioctl_xonc :: "font \<Rightarrow> u64 \<Rightarrow> tstate \<Rightarrow> int \<times> tstate" where
  "ioctl_xonc font arg st =
     (case st of
        (t, s, k) \<Rightarrow>
          if arg = 0 then (0, t\<lparr>tty_flags := tty_flags t OR TTY_STOPPED\<rparr>, s, k)
          else if arg = 1
          then let (t, k) = wake_writers (t\<lparr>tty_flags := tty_flags t AND NOT TTY_STOPPED\<rparr>) k in (0, t, s, k)
          else if arg = 2 then let (t, s) = put font (cc t VSTOP) (t, s) in (0, t, s, k)
          else if arg = 3 then let (t, s) = put font (cc t VSTART) (t, s) in (0, t, s, k)
          else (-1, t, s, k))"

text \<open>The requests from \<open>TIOCEXCL\<close> on.\<close>

definition ioctl_more ::
  "font \<Rightarrow> u64 \<Rightarrow> u64 \<Rightarrow> user_value option \<Rightarrow> bool \<Rightarrow> tstate \<Rightarrow> (int \<times> user_value option \<times> tstate) option" where
  "ioctl_more font request arg u copy_ok st =
     (case st of
        (t, s, k) \<Rightarrow>
          let ok = (\<lambda>t. Some (0, None, t, s, k))
          in if request = 0x540C then ok (t\<lparr>tty_flags := tty_flags t OR TTY_EXCLUSIVE\<rparr>)
             else if request = 0x540D then ok (t\<lparr>tty_flags := tty_flags t AND NOT TTY_EXCLUSIVE\<rparr>)
             else if request = 0x540A then (case ioctl_xonc font arg st of (r, st) \<Rightarrow> Some (r, None, st))
             else if request = 0x540B
             then if arg = 0 \<or> arg = 2 then ok (tty_flush_input t) else if arg = 1 then ok t else Some (-1, None, st)
             else if request = 0x541B then to_user copy_ok (U_int (int (input_available t))) st
             else if request = 0x5411 then to_user copy_ok (U_int 0) st
             else if request = 0x5409 \<or> request = 0x5425 then ok t
             else if request = 0x5412
             then (case u of
                     Some (U_char c) \<Rightarrow> map_option (\<lambda>st. (0, None, st)) (tty_receive_char font c st)
                   | _ \<Rightarrow> Some (-1, None, st))
             else if request = 0x5421 then ok t
             else if request = 0x5424 then to_user copy_ok (U_int (uint (c_line (termios t)))) st
             else if request = 0x5423
             then (case u of
                     Some (U_int l) \<Rightarrow> ok (t\<lparr>termios := (termios t)\<lparr>c_line := word_of_int l\<rparr>\<rparr>)
                   | _ \<Rightarrow> Some (-1, None, st))
             else Some (-25, None, st))"

definition tty_ioctl ::
  "font \<Rightarrow> u64 \<Rightarrow> u64 \<Rightarrow> user_value option \<Rightarrow> bool \<Rightarrow> tstate \<Rightarrow> (int \<times> user_value option \<times> tstate) option" where
  "tty_ioctl font request arg u copy_ok st =
     (case st of
        (t, s, k) \<Rightarrow>
          let p = current_proc k;
              ok = (\<lambda>t. Some (0, None, t, s, k))
          in if request = 0x5401 then to_user copy_ok (U_termios (termios t)) st
             else if request = 0x5402 \<or> request = 0x5403 then ioctl_set_termios False u st
             else if request = 0x5404 then ioctl_set_termios True u st
             else if request = 0x5413 then to_user copy_ok (U_winsize (ws_row t) (ws_col t)) st
             else if request = 0x5414 then ioctl_set_winsize u st
             else if request = 0x540F then to_user copy_ok (U_u64 (tty_pgrp t)) st
             else if request = 0x5410 then ioctl_set_pgrp u st
             else if request = 0x5429 then to_user copy_ok (U_u64 (session_id t)) st
             else if request = 0x540E
             then if p \<noteq> 0 \<and> session_leader (procs k p)
                  then let (t, k) = become_controlling p t k in Some (0, None, t, s, k)
                  else Some (-1, None, st)
             else if request = 0x5422
             then if p \<noteq> 0 \<and> session_id t = sid (procs k p) then ok (t\<lparr>session := 0, session_id := 0, tty_pgrp := 0\<rparr>)
                  else ok t
             else ioctl_more font request arg u copy_ok st)"

subsection \<open>Opening, closing and hanging up\<close>

definition tty_open :: "tty \<Rightarrow> kernel \<Rightarrow> tty \<times> kernel" where
  "tty_open t k =
     (let t = t\<lparr>tty_count := tty_count t + 1\<rparr>;
          p = current_proc k
      in if p \<noteq> 0 \<and> session_leader (procs k p) \<and> controlling_tty (procs k p) = 0 then become_controlling p t k
         else (t, k))"

definition tty_close :: "tty \<Rightarrow> kernel \<Rightarrow> (tty \<times> kernel) option" where
  "tty_close t k =
     (let t = t\<lparr>tty_count := tty_count t - 1\<rparr>
      in if tty_count t = 0 \<and> session t \<noteq> 0
         then map_option (\<lambda>(_, k). (t\<lparr>session := 0, session_id := 0, tty_pgrp := 0\<rparr>, k)) (tty_signal_session t 1 k)
         else Some (t, k))"

definition tty_hangup :: "tty \<Rightarrow> kernel \<Rightarrow> (tty \<times> kernel) option" where
  "tty_hangup t k =
     (let t = tty_flush_input (t\<lparr>tty_flags := tty_flags t OR TTY_HUPPED\<rparr>)
      in map_option (\<lambda>k. let (t, k) = wake_readers t k in wake_writers t k)
           (if tty_pgrp t > 0
            then Option.bind (signal_send_group (tty_pgrp t) 1 k)
                   (\<lambda>(_, k). map_option snd (signal_send_group (tty_pgrp t) 18 k))
            else Some k))"


subsection \<open>The input buffer as a queue\<close>

text \<open>\<open>tty_ok\<close>: the positions are within their buffers; the last cell of the line buffer is never used.\<close>

definition tty_ok :: "tty \<Rightarrow> bool" where
  "tty_ok t \<longleftrightarrow> length (read_buf t) = BUF_SIZE \<and> read_head t < BUF_SIZE \<and> read_tail t < BUF_SIZE \<and>
     length (canon_buf t) = MAX_CANON \<and> canon_head t < MAX_CANON"

definition queue :: "tty \<Rightarrow> u8 list" where
  "queue t = ring_list BUF_SIZE (read_buf t) (read_tail t) (input_available t)"

definition line :: "tty \<Rightarrow> u8 list" where
  "line t = take (canon_head t) (canon_buf t)"

lemma available_lt: "input_available t < BUF_SIZE"
  by (simp add: input_available_def)

lemma head_of_available: "tty_ok t \<Longrightarrow> read_head t = (read_tail t + input_available t) mod BUF_SIZE"
  by (simp add: input_available_def tty_ok_def mod_simps)

lemma available_unique:
  assumes "tty_ok t" "read_head t = (read_tail t + n) mod BUF_SIZE" "n < BUF_SIZE"
  shows "input_available t = n"
proof -
  have "read_tail t < BUF_SIZE" using assms(1) by (simp add: tty_ok_def)
  then show ?thesis using assms(2,3) unfolding input_available_def
    by (cases "read_tail t + n < BUF_SIZE") (auto simp: mod_if)
qed

lemma empty_iff: "tty_ok t \<Longrightarrow> read_buf_empty t \<longleftrightarrow> queue t = []"
proof -
  assume t: "tty_ok t"
  have "read_buf_empty t \<longleftrightarrow> input_available t = 0"
  proof
    assume "read_buf_empty t"
    then show "input_available t = 0" using available_unique [OF t, of 0] t by (simp add: read_buf_empty_def tty_ok_def)
  next
    assume "input_available t = 0"
    then show "read_buf_empty t" using head_of_available [OF t] t by (simp add: read_buf_empty_def tty_ok_def)
  qed
  then show ?thesis by (metis queue_def length_ring_list length_0_conv)
qed

lemma full_iff: "tty_ok t \<Longrightarrow> read_buf_full t \<longleftrightarrow> length (queue t) = BUF_SIZE - 1"
proof -
  assume t: "tty_ok t"
  have b: "read_tail t < BUF_SIZE" "input_available t < BUF_SIZE" using t available_lt by (simp_all add: tty_ok_def)
  have e: "(read_head t + 1) mod BUF_SIZE = (read_tail t + Suc (input_available t)) mod BUF_SIZE"
    using head_of_available [OF t] ring4096.next_end [of "read_tail t" "input_available t"] by simp
  show ?thesis
  proof (cases "input_available t = BUF_SIZE - 1")
    case True
    then show ?thesis using e b by (simp add: read_buf_full_def queue_def)
  next
    case False
    then have "Suc (input_available t) < BUF_SIZE" using b by simp
    then have "(read_tail t + Suc (input_available t)) mod BUF_SIZE \<noteq> read_tail t"
      using b by (cases "read_tail t + Suc (input_available t) < BUF_SIZE") (auto simp: mod_if)
    then show ?thesis using e False by (simp add: read_buf_full_def queue_def)
  qed
qed

lemma read_buf_put_queue:
  assumes t: "tty_ok t"
  shows "queue (read_buf_put c t) = (if length (queue t) < BUF_SIZE - 1 then queue t @ [c] else queue t)"
    and "tty_ok (read_buf_put c t)"
proof -
  have ok: "tty_ok (read_buf_put c t)" using t by (simp add: read_buf_put_def tty_ok_def)
  then show "tty_ok (read_buf_put c t)" .
  have le: "length (queue t) \<le> BUF_SIZE - 1" using available_lt [of t] by (simp add: queue_def)
  show "queue (read_buf_put c t) = (if length (queue t) < BUF_SIZE - 1 then queue t @ [c] else queue t)"
  proof (cases "read_buf_full t")
    case True
    then show ?thesis using full_iff [OF t] by (simp add: read_buf_put_def)
  next
    case False
    then have n: "input_available t < BUF_SIZE - 1" using full_iff [OF t] le by (simp add: queue_def)
    have "read_head (read_buf_put c t) = (read_tail (read_buf_put c t) + Suc (input_available t)) mod BUF_SIZE"
      using False head_of_available [OF t] ring4096.next_end [of "read_tail t" "input_available t"]
      by (simp add: read_buf_put_def)
    then have a: "input_available (read_buf_put c t) = Suc (input_available t)"
      by (intro available_unique [OF ok]) (use n in auto)
    have l: "length (read_buf t) = BUF_SIZE" using t by (simp add: tty_ok_def)
    show ?thesis using False n a head_of_available [OF t] ring4096.put_list [OF l, of "input_available t" "read_tail t" c]
      by (simp add: queue_def) (simp add: read_buf_put_def)
  qed
qed

lemma read_buf_get_queue:
  assumes t: "tty_ok t" and q: "queue t = c # cs"
  shows "\<exists>t'. read_buf_get t = (c, t') \<and> queue t' = cs \<and> tty_ok t' \<and> termios t' = termios t \<and> canon_lines t' = canon_lines t \<and>
    line t' = line t \<and> tty_flags t' = tty_flags t"
proof -
  define t' where "t' = t\<lparr>read_tail := (read_tail t + 1) mod BUF_SIZE, read_cnt := read_cnt t - 1\<rparr>"
  have ne: "\<not> read_buf_empty t" using q empty_iff [OF t] by simp
  have ok: "tty_ok t'" using t by (simp add: t'_def tty_ok_def)
  have n: "0 < input_available t" using q by (metis queue_def length_ring_list length_greater_0_conv list.discI)
  have "read_head t' = (read_tail t' + (input_available t - 1)) mod BUF_SIZE"
    using head_of_available [OF t] ring4096.end_after_get [OF n, of "read_tail t"] by (simp add: t'_def)
  then have a: "input_available t' = input_available t - 1"
    by (intro available_unique [OF ok]) (use available_lt [of t] in auto)
  have "read_tail t < BUF_SIZE" using t by (simp add: tty_ok_def)
  from ring4096.get_list [OF this n, of "read_buf t"] have "read_buf t ! read_tail t = c" "queue t' = cs"
    using q a by (simp_all add: queue_def) (simp add: t'_def)
  then show ?thesis using ok ne by (auto simp: read_buf_get_def t'_def line_def)
qed

lemma put_line_queue:
  "tty_ok t \<Longrightarrow> queue (fold read_buf_put cs t) = queue t @ take (BUF_SIZE - 1 - length (queue t)) cs \<and> tty_ok (fold read_buf_put cs t)"
proof (induction cs arbitrary: t)
  case (Cons c cs)
  have le: "length (queue t) \<le> BUF_SIZE - 1" using available_lt [of t] by (simp add: queue_def)
  show ?case
  proof (cases "length (queue t) < BUF_SIZE - 1")
    case True
    then show ?thesis using Cons read_buf_put_queue [OF Cons.prems, of c] by (simp add: take_Cons' Suc_diff_Suc)
  next
    case False
    then show ?thesis using Cons read_buf_put_queue [OF Cons.prems, of c] le by simp
  qed
qed simp

subsection \<open>Echo leaves the input alone\<close>

text \<open>The fields that output does not touch.\<close>

definition input_part :: "tty \<Rightarrow> (u8 list \<times> nat \<times> nat \<times> int) \<times> (u8 list \<times> nat \<times> int \<times> int) \<times> u32 \<times> (nat \<times> nat) \<times> u64 \<times> termios" where
  "input_part t = ((read_buf t, read_head t, read_tail t, read_cnt t),
     (canon_buf t, canon_head t, canon_column t, canon_lines t), tty_flags t, (read_wait t, write_wait t), tty_pgrp t, termios t)"

definition echoes :: "(tty \<times> console \<Rightarrow> tty \<times> console) \<Rightarrow> bool" where
  "echoes f \<longleftrightarrow> (\<forall>ts. input_part (fst (f ts)) = input_part (fst ts))"

lemma echoesI: "(\<And>ts. input_part (fst (f ts)) = input_part (fst ts)) \<Longrightarrow> echoes f"
  unfolding echoes_def by blast

lemma echoesD: "echoes f \<Longrightarrow> input_part (fst (f ts)) = input_part (fst ts)"
  unfolding echoes_def by blast

lemma echoes_id: "echoes (\<lambda>ts. ts)"
  by (rule echoesI) (rule refl)

lemma echoes_comp: "echoes f \<Longrightarrow> echoes g \<Longrightarrow> echoes (\<lambda>ts. f (g ts))"
  by (rule echoesI) (simp only: echoesD)

lemma echoes_funpow: "echoes f \<Longrightarrow> echoes (f ^^ n)"
proof (induction n)
  case (Suc n)
  then show ?case using echoes_comp [of f "f ^^ n"] by (simp add: comp_def)
qed (simp add: echoes_id id_def)

lemma echoes_fold: "(\<And>x. echoes (f x)) \<Longrightarrow> echoes (fold f xs)"
proof (induction xs)
  case (Cons x xs)
  then show ?case using echoes_comp [of "fold f xs" "f x"] by (simp add: comp_def)
qed (simp add: echoes_id id_def)

lemma echoes_if: "echoes f \<Longrightarrow> echoes g \<Longrightarrow> echoes (\<lambda>ts. if P ts then f ts else g ts)"
  by (rule echoesI) (simp add: echoesD del: split_paired_All)

lemma input_part_if:
  "input_part (fst a) = x \<Longrightarrow> input_part (fst b) = x \<Longrightarrow> input_part (fst (if P then a else b)) = x"
  by simp

lemma input_part_sgr: "input_part (fst (handle_sgr t s)) = input_part t"
proof -
  have "input_part (sgr_param n u) = input_part u" for n u by (simp add: sgr_param_def input_part_def)
  then have "input_part (fold sgr_param ns u) = input_part u" for ns u by (induction ns arbitrary: u) simp_all
  then show ?thesis by (simp add: handle_sgr_def Let_def) (simp add: input_part_def)
qed

lemma input_part_csi: "input_part (fst (handle_csi_command font c t s)) = input_part t"
proof -
  have "input_part (t\<lparr>column := x\<rparr>) = input_part t" for x by (simp add: input_part_def)
  then show ?thesis using input_part_sgr [of t s]
    unfolding handle_csi_command_def Let_def ramfb_get_cursor_def by (simp split: prod.split)
qed

lemma input_part_fields [simp]:
  "input_part (t\<lparr>tty_st := x\<rparr>) = input_part t" "input_part (t\<lparr>column := i\<rparr>) = input_part t"
  "input_part (t\<lparr>csi_params := ps\<rparr>) = input_part t" "input_part (t\<lparr>csi_param_count := n\<rparr>) = input_part t"
  by (simp_all add: input_part_def)

lemma input_part_out: "input_part (fst (do_output_char font c t s)) = input_part t"
proof -
  have p: "input_part (fst (plain_output font c u s)) = input_part u" for u
    by (simp add: plain_output_def Let_def)
  have h: "input_part (fst (case handle_csi_command font c t s of (t, s) \<Rightarrow> (t\<lparr>tty_st := TTY_STATE_NORMAL\<rparr>, s))) = input_part t"
    using input_part_csi [of font c t s] by (cases "handle_csi_command font c t s") simp
  show ?thesis
  proof (cases "is_console t")
    case True
    show ?thesis unfolding do_output_char_def Let_def using True h
      by (cases "tty_st t") (simp_all add: p)
  next
    case False
    then show ?thesis by (simp add: do_output_char_def p)
  qed
qed

lemma echoes_put: "echoes (put font c)"
proof -
  have o: "echoes (\<lambda>(t, s). do_output_char font d t s)" for d
    by (rule echoesI) (simp only: split_beta input_part_out)
  have "input_part (fst (tty_put_char font c t s)) = input_part t" for t s
    unfolding tty_put_char_def Let_def
    by (intro input_part_if) (simp_all only: echoesD [OF o] echoesD [OF echoes_funpow [OF o]] fst_conv input_part_if)
  then show ?thesis unfolding put_def by (intro echoesI)
qed

lemma echoes_echo: "echoes (tty_echo_char font c)"
  unfolding tty_echo_char_def [abs_def] Let_def
  by (intro echoes_if echoes_put echoes_id echoes_comp [OF echoes_put echoes_put])

lemma echoes_erase: "echoes (erase_char font c)"
proof -
  have r: "echoes (rubout font)" unfolding rubout_def [abs_def] by (rule echoes_comp [OF echoes_put echoes_comp [OF echoes_put echoes_put]])
  show ?thesis unfolding erase_char_def [abs_def] Let_def
    by (rule echoesI, intro input_part_if)
      (simp_all only: echoesD [OF r] echoesD [OF echoes_funpow [OF r]] echoesD [OF echoes_echo])
qed


subsection \<open>Line editing as an abstract editor\<close>

text \<open>
  The editor a user of a terminal with the standard settings expects: the line being typed, the bytes that readers can
  take, the number of lines among them, and whether the next character is taken literally. A line has room
  for 254 characters, the readers' queue for 4095.
\<close>

type_synonym editor = "u8 list \<times> u8 list \<times> int \<times> bool"

definition type_char :: "u8 \<Rightarrow> u8 list \<Rightarrow> u8 list" where
  "type_char c l = (if length l < MAX_CANON - 1 then l @ [c] else l)"

definition drop_word :: "u8 list \<Rightarrow> u8 list" where
  "drop_word l = rev (dropWhile (\<lambda>c. c \<noteq> 32) (dropWhile (\<lambda>c. c = 32) (rev l)))"

definition submit :: "u8 list \<Rightarrow> u8 list \<Rightarrow> u8 list" where
  "submit l q = q @ take (BUF_SIZE - 1 - length q) l"

definition edit_key :: "u8 \<Rightarrow> editor \<Rightarrow> editor" where
  "edit_key c e =
     (case e of
        (l, q, n, _) \<Rightarrow>
          if c = 3 \<or> c = 28 \<or> c = 26 then ([], [], 0, False)
          else if c = 17 \<or> c = 19 \<or> c = 18 \<or> c = 15 \<or> c = 0 then (l, q, n, False)
          else if c = 22 then (l, q, n, True)
          else if c = 127 \<or> c = 8 then (butlast l, q, n, False)
          else if c = 23 then (drop_word l, q, n, False)
          else if c = 21 then ([], q, n, False)
          else if c = 4 then ([], submit l q, n + 1, False)
          else if c = 10 then ([], submit (type_char 10 l) q, n + 1, False)
          else (type_char c l, q, n, False))"

definition edit :: "u8 \<Rightarrow> editor \<Rightarrow> editor" where
  "edit c e =
     (case e of
        (l, q, n, lit) \<Rightarrow> if lit then (type_char c l, q, n, False) else edit_key (if c = 13 then 10 else c) e)"

definition edit_of :: "tty \<Rightarrow> editor" where
  "edit_of t = (line t, queue t, canon_lines t, has (tty_flags t) TTY_LNEXT)"

text \<open>A terminal in a regular state with the standard settings.\<close>

definition std :: "tty \<Rightarrow> bool" where
  "std t \<longleftrightarrow> tty_ok t \<and> termios t = tty_std_termios"

lemma std_flags [simp]:
  "has (c_lflag tty_std_termios) ISIG" "has (c_lflag tty_std_termios) ICANON" "has (c_lflag tty_std_termios) ECHO"
  "has (c_lflag tty_std_termios) ECHOKE" "has (c_lflag tty_std_termios) IEXTEN" "\<not> has (c_lflag tty_std_termios) NOFLSH"
  "\<not> has (c_iflag tty_std_termios) ISTRIP" "\<not> has (c_iflag tty_std_termios) INLCR" "\<not> has (c_iflag tty_std_termios) IGNCR"
  "has (c_iflag tty_std_termios) ICRNL" "\<not> has (c_iflag tty_std_termios) IUCLC" "has (c_iflag tty_std_termios) IXON"
  "\<not> has (c_iflag tty_std_termios) IXANY" "\<not> has (c_iflag tty_std_termios) IMAXBEL"
  by (simp_all add: tty_std_termios_def has_def)

lemma std_keys [simp]:
  "c_cc tty_std_termios ! 0 = 3" "c_cc tty_std_termios ! Suc 0 = 28" "c_cc tty_std_termios ! 2 = 127" "c_cc tty_std_termios ! 3 = 21"
  "c_cc tty_std_termios ! 4 = 4" "c_cc tty_std_termios ! 8 = 17" "c_cc tty_std_termios ! 9 = 19" "c_cc tty_std_termios ! 10 = 26"
  "c_cc tty_std_termios ! 11 = 0" "c_cc tty_std_termios ! 12 = 18" "c_cc tty_std_termios ! 13 = 15"
  "c_cc tty_std_termios ! 14 = 23" "c_cc tty_std_termios ! 15 = 22" "c_cc tty_std_termios ! 16 = 0"
  by (simp_all add: tty_std_termios_def)

lemma has_lnext: "has (x :: u32) 0x20 \<longleftrightarrow> bit x 5"
  using and_exp_eq_0_iff_not_bit [of x 5] by (simp add: has_def)

lemma lnext_flags [simp]:
  "has (x OR 2 :: u32) 0x20 = has x 0x20" "has (x AND NOT 2 :: u32) 0x20 = has x 0x20" "has (x XOR 0x40 :: u32) 0x20 = has x 0x20"
  "has (x OR 0x20 :: u32) 0x20" "\<not> has (x AND NOT 0x20 :: u32) 0x20"
  unfolding has_lnext by (simp_all add: bit_or_iff bit_and_iff bit_xor_iff bit_not_iff)

lemma edit_of_same:
  "input_part t' = input_part t \<Longrightarrow> edit_of t' = edit_of t \<and> std t' = std t \<and> tty_pgrp t' = tty_pgrp t \<and> canon_head t' = canon_head t \<and> canon_buf t' = canon_buf t"
  by (simp add: input_part_def edit_of_def line_def queue_def std_def tty_ok_def input_available_def)

lemma edit_of_fields [simp]:
  "edit_of (t\<lparr>canon_column := i\<rparr>) = edit_of t" "std (t\<lparr>canon_column := i\<rparr>) = std t"
  "edit_of (t\<lparr>read_wait := n\<rparr>) = edit_of t" "std (t\<lparr>read_wait := n\<rparr>) = std t"
  "edit_of (t\<lparr>write_wait := n\<rparr>) = edit_of t" "std (t\<lparr>write_wait := n\<rparr>) = std t"
  "std (t\<lparr>tty_flags := f\<rparr>) = std t" "std (t\<lparr>canon_lines := j\<rparr>) = std t"
  by (simp_all add: edit_of_def line_def queue_def std_def tty_ok_def input_available_def)

lemma wake_edit [simp]:
  "edit_of (fst (wake_readers t k)) = edit_of t" "std (fst (wake_readers t k)) = std t"
  "edit_of (fst (wake_writers t k)) = edit_of t" "std (fst (wake_writers t k)) = std t"
  "tty_pgrp (fst (wake_readers t k)) = tty_pgrp t" "tty_pgrp (fst (wake_writers t k)) = tty_pgrp t"
  by (simp_all add: wake_readers_def wake_writers_def split_beta)

lemma edit_of_cut:
  assumes "std t" "n \<le> canon_head t"
  shows "edit_of (t\<lparr>canon_head := n\<rparr>) = (take n (line t), queue t, canon_lines t, has (tty_flags t) TTY_LNEXT)"
    and "std (t\<lparr>canon_head := n\<rparr>)"
  using assms by (auto simp: edit_of_def line_def queue_def input_available_def std_def tty_ok_def min_def)

lemma line_length: "std t \<Longrightarrow> length (line t) = canon_head t"
  by (simp add: line_def std_def tty_ok_def)

lemma erase_while_edit:
  assumes "std (fst ts)" "canon_head (fst ts) = n"
  shows "edit_of (fst (erase_while font P n ts)) =
      (rev (dropWhile P (rev (line (fst ts)))), queue (fst ts), canon_lines (fst ts), has (tty_flags (fst ts)) TTY_LNEXT) \<and>
    std (fst (erase_while font P n ts)) \<and> tty_pgrp (fst (erase_while font P n ts)) = tty_pgrp (fst ts)"
  using assms
proof (induction n arbitrary: ts)
  case 0
  then show ?case by (simp add: edit_of_def line_def)
next
  case (Suc n)
  define t where "t = fst ts"
  have t: "std t" "canon_head t = Suc n" using Suc.prems by (simp_all add: t_def)
  have "n < length (canon_buf t)" using t by (simp add: std_def tty_ok_def)
  then have l: "line t = take n (canon_buf t) @ [canon_buf t ! n]" using t(2) by (simp add: line_def take_Suc_conv_app_nth)
  show ?case
  proof (cases "P (canon_buf t ! n)")
    case False
    then show ?thesis using Suc.prems(1) l unfolding t_def by (simp add: Let_def edit_of_def)
  next
    case True
    define ts1 where "ts1 = erase_char font (canon_buf t ! n) (t\<lparr>canon_head := n\<rparr>, snd ts)"
    have "input_part (fst ts1) = input_part (t\<lparr>canon_head := n\<rparr>)"
      unfolding ts1_def using echoesD [OF echoes_erase] by (metis fst_conv)
    from edit_of_same [OF this] have e: "edit_of (fst ts1) = edit_of (t\<lparr>canon_head := n\<rparr>)" "std (fst ts1)" "canon_head (fst ts1) = n"
      "tty_pgrp (fst ts1) = tty_pgrp t"
      using edit_of_cut(2) [OF t(1), of n] t(2) by auto
    have e': "line (fst ts1) = take n (canon_buf t)" "queue (fst ts1) = queue t" "canon_lines (fst ts1) = canon_lines t"
      "has (tty_flags (fst ts1)) 0x20 = has (tty_flags t) 0x20"
      using e(1) edit_of_cut(1) [OF t(1), of n] t(2) by (auto simp: edit_of_def line_def)
    have "erase_while font P (Suc n) ts = erase_while font P n ts1" using True by (simp add: ts1_def t_def Let_def)
    then show ?thesis using Suc.IH [OF e(2,3)] e' e(4) l True by (simp add: t_def [symmetric])
  qed
qed


text \<open>\<open>edits t t' e\<close>: from \<open>t\<close> to \<open>t'\<close> the editor became \<open>e\<close>, with settings and group unchanged.\<close>

definition edits :: "tty \<Rightarrow> tty \<Rightarrow> editor \<Rightarrow> bool" where
  "edits t t' e \<longleftrightarrow> std t' \<and> edit_of t' = e \<and> tty_pgrp t' = tty_pgrp t"

lemma echo_same:
  assumes "echoes f"
  shows "edit_of (fst (f ts)) = edit_of (fst ts)" "std (fst (f ts)) = std (fst ts)" "tty_pgrp (fst (f ts)) = tty_pgrp (fst ts)"
    "canon_head (fst (f ts)) = canon_head (fst ts)" "canon_buf (fst (f ts)) = canon_buf (fst ts)"
  using edit_of_same [OF echoesD [OF assms]] by auto

lemmas put_same = echo_same [OF echoes_put]
lemmas echo_char_same = echo_same [OF echoes_echo]

lemma edits_echo: "echoes f \<Longrightarrow> edits t (fst ts) e \<Longrightarrow> edits t (fst (f ts)) e"
  by (simp add: edits_def echo_same)

lemma edits_refl: "std t \<Longrightarrow> edits t t (edit_of t)"
  by (simp add: edits_def)

lemma edits_head:
  assumes "std t" "canon_head t < MAX_CANON - 1"
  shows "edits t (canon_put c t) (line t @ [c], queue t, canon_lines t, has (tty_flags t) TTY_LNEXT)"
  using assms
  by (auto simp: edits_def edit_of_def canon_put_def line_def queue_def input_available_def std_def tty_ok_def take_Suc_conv_app_nth)

lemma edits_store:
  assumes t: "std t"
  shows "edits t (fst (store_char font c (t, s, k))) (type_char c (line t), queue t, canon_lines t, has (tty_flags t) TTY_LNEXT)"
proof (cases "canon_head t < MAX_CANON - 1")
  case True
  let ?t = "canon_put c t"
  let ?u = "?t\<lparr>canon_column := canon_column ?t + char_width c ?t\<rparr>"
  have "edits t ?u (type_char c (line t), queue t, canon_lines t, has (tty_flags t) TTY_LNEXT)"
    using edits_head [OF t True, of c] line_length [OF t] True by (simp add: edits_def type_char_def)
  from edits_echo [OF echoes_echo, of t "(?u, s)"] this show ?thesis
    using t True by (simp add: store_char_def std_def Let_def split_beta)
next
  case False
  then show ?thesis using t edits_refl [OF t] line_length [OF t]
    by (simp add: store_char_def std_def type_char_def edit_of_def edits_def)
qed

lemma butlast_line: "std t \<Longrightarrow> take (canon_head t - 1) (line t) = butlast (line t)"
  by (simp add: butlast_conv_take line_length)

lemma edits_erase_last:
  assumes t: "std t"
  shows "edits t (fst (erase_last font (t, s))) (butlast (line t), queue t, canon_lines t, has (tty_flags t) TTY_LNEXT)"
proof (cases "canon_head t > 0")
  case True
  then have "edits t (t\<lparr>canon_head := canon_head t - 1, canon_column := x\<rparr>)
      (butlast (line t), queue t, canon_lines t, has (tty_flags t) TTY_LNEXT)" for x
    using edit_of_cut [OF t, of "canon_head t - 1"] butlast_line [OF t] by (simp add: edits_def)
  then show ?thesis using True edits_echo [OF echoes_erase, of t] by (simp add: erase_last_def Let_def)
next
  case False
  then show ?thesis using edits_refl [OF t] by (simp add: erase_last_def edit_of_def line_def)
qed

lemma edits_erase_word:
  assumes t: "std t"
  shows "edits t (fst (erase_word font (t, s))) (drop_word (line t), queue t, canon_lines t, has (tty_flags t) TTY_LNEXT)"
proof -
  define ts where "ts = erase_while font (\<lambda>c. c = 32) (canon_head t) (t, s)"
  have 1: "edit_of (fst ts) = (rev (dropWhile (\<lambda>c. c = 32) (rev (line t))), queue t, canon_lines t, has (tty_flags t) TTY_LNEXT)"
    "std (fst ts)" "tty_pgrp (fst ts) = tty_pgrp t"
    using erase_while_edit [of "(t, s)" "canon_head t" font "\<lambda>c. c = 32"] t by (simp_all add: ts_def)
  then show ?thesis using erase_while_edit [OF 1(2) refl, of font "\<lambda>c. c \<noteq> 32"]
    by (simp add: erase_word_def edits_def drop_word_def ts_def [symmetric]) (simp add: edit_of_def)
qed

lemma edits_clear_line:
  "std t \<Longrightarrow> edits t (t\<lparr>canon_head := 0, canon_column := i\<rparr>) ([], queue t, canon_lines t, has (tty_flags t) TTY_LNEXT)"
  by (simp add: edits_def edit_of_def line_def queue_def input_available_def std_def tty_ok_def)

lemma edits_erase_line:
  assumes t: "std t"
  shows "edits t (fst (erase_line font (t, s))) ([], queue t, canon_lines t, has (tty_flags t) TTY_LNEXT)"
proof -
  define ts where "ts = erase_while font (\<lambda>_. True) (canon_head t) (t, s)"
  have 1: "edit_of (fst ts) = ([], queue t, canon_lines t, has (tty_flags t) TTY_LNEXT)" "std (fst ts)" "tty_pgrp (fst ts) = tty_pgrp t"
    using erase_while_edit [of "(t, s)" "canon_head t" font "\<lambda>_. True"] t by (simp_all add: ts_def)
  have "erase_line font (t, s) = ((fst ts)\<lparr>canon_head := 0, canon_column := 0\<rparr>, snd ts)"
    using t by (simp add: erase_line_def std_def ts_def split_beta)
  then show ?thesis using edits_clear_line [OF 1(2), of 0] 1 by (simp add: edits_def edit_of_def)
qed

lemma echoes_reprint: "echoes (reprint_line font)"
proof (rule echoesI)
  fix ts
  have f: "input_part (fst (fold (tty_echo_char font) cs us)) = input_part (fst us)" for cs us
    by (rule echoesD [OF echoes_fold [OF echoes_echo]])
  show "input_part (fst (reprint_line font ts)) = input_part (fst ts)"
    unfolding reprint_line_def by (intro input_part_if) (simp_all only: f echoesD [OF echoes_put])
qed

lemma edits_finish:
  assumes t: "std t"
  shows "edits t (fst (finish_canonical_line t k)) ([], submit (line t) (queue t), canon_lines t + 1, has (tty_flags t) TTY_LNEXT)"
proof -
  define u where "u = fold read_buf_put (line t) t"
  have ok: "tty_ok t" using t by (simp add: std_def)
  have same: "tty_pgrp (fold read_buf_put cs v) = tty_pgrp v \<and> termios (fold read_buf_put cs v) = termios v \<and>
      canon_lines (fold read_buf_put cs v) = canon_lines v \<and> tty_flags (fold read_buf_put cs v) = tty_flags v" for cs v
    by (induction cs arbitrary: v) (simp_all add: read_buf_put_def)
  have u: "queue u = submit (line t) (queue t)" "tty_ok u" using put_line_queue [OF ok, of "line t"] by (simp_all add: u_def submit_def)
  have su: "std u" using u(2) same [of "line t" t] t by (simp add: std_def u_def)
  have "edits t (u\<lparr>canon_lines := canon_lines u + 1, canon_head := 0, canon_column := 0\<rparr>)
      ([], submit (line t) (queue t), canon_lines t + 1, has (tty_flags t) TTY_LNEXT)"
    using su u same [of "line t" t]
    by (auto simp: edits_def edit_of_def std_def tty_ok_def line_def queue_def input_available_def u_def)
  then show ?thesis by (simp add: finish_canonical_line_def Let_def edits_def u_def line_def)
qed

lemma edits_trans: "edits t u e \<Longrightarrow> edits u v e' \<Longrightarrow> edits t v e'"
  by (simp add: edits_def)

lemma edits_flush:
  "std t \<Longrightarrow> edits t ((tty_flush_input t)\<lparr>canon_column := 0\<rparr>) ([], [], 0, has (tty_flags t) TTY_LNEXT)"
  by (auto simp: edits_def edit_of_def tty_flush_input_def line_def queue_def input_available_def std_def tty_ok_def ring_list_def)


lemmas lnext_flags_minus [simp] = lnext_flags [simplified]

lemma edits_signal:
  assumes t: "std t" and r: "receive_signal font c sig (t, s, k) = Some (t', s', k')"
  shows "edits t t' ([], [], 0, has (tty_flags t) TTY_LNEXT)"
proof -
  define ts where "ts = put font 10 (put font (c + 64) (put font 94 (t, s)))"
  have e: "edits t (fst ts) (edit_of t)" using edits_refl [OF t] by (simp add: ts_def edits_echo [OF echoes_put])
  then have st: "std (fst ts)" and fl: "has (tty_flags (fst ts)) TTY_LNEXT = has (tty_flags t) TTY_LNEXT"
    by (simp_all add: edits_def edit_of_def)
  define u where "u = (tty_flush_input (fst ts))\<lparr>canon_column := 0\<rparr>"
  have "edits t u ([], [], 0, has (tty_flags t) TTY_LNEXT)" using edits_trans [OF e edits_flush [OF st]] fl by (simp add: u_def)
  moreover have "\<exists>k1. t' = fst (wake_readers u k1)"
    using r t st by (auto simp: receive_signal_def std_def ts_def [symmetric] u_def Let_def split_beta)
  ultimately show ?thesis by (auto simp: edits_def)
qed

text \<open>The special characters in canonical mode, one lemma for the whole switch.\<close>

lemma edits_canon:
  assumes t: "std t" and l: "\<not> has (tty_flags t) TTY_LNEXT" and c: "c \<notin> {3, 28, 26, 17, 19, 13}"
  shows "edits t (fst (case receive_canon font c (t, s, k) of Some st \<Rightarrow> st | None \<Rightarrow> store_char font c (t, s, k)))
    (edit_key c (edit_of t))"
proof -
  have T: "termios t = tty_std_termios" using t by (simp add: std_def)
  note D = receive_canon_def Let_def T edit_of_def edit_key_def l
  have E: "edits t (fst (put font a (put font b (t\<lparr>tty_flags := f\<rparr>, s)))) (line t, queue t, canon_lines t, has f TTY_LNEXT)" for a b f
    using t by (intro edits_echo [OF echoes_put]) (simp add: edits_def edit_of_def line_def queue_def input_available_def)
  consider "c = 22" | "c = 127 \<or> c = 8" | "c = 23" | "c = 21" | "c = 18" | "c = 15" | "c = 4" | "c = 0" | "c = 10"
    | "c \<notin> {22, 127, 8, 23, 21, 18, 15, 4, 0, 10}" by blast
  then show ?thesis
  proof cases
    case 1
    then show ?thesis using E [of 8 94 "tty_flags t OR TTY_LNEXT"] by (simp add: D split_beta)
  next
    case 2
    then show ?thesis using edits_erase_last [OF t, of font s] l by (auto simp: D split_beta)
  next
    case 3
    then show ?thesis using edits_erase_word [OF t, of font s] l by (simp add: D split_beta)
  next
    case 4
    then show ?thesis using edits_erase_line [OF t, of font s] l by (simp add: D split_beta)
  next
    case 5
    then show ?thesis using edits_echo [OF echoes_reprint, of t "(t, s)"] edits_refl [OF t] l by (simp add: D split_beta)
  next
    case 6
    then show ?thesis using E [of 79 94 "tty_flags t XOR TTY_FLUSHING"] l by (simp add: D split_beta)
  next
    case 7
    show ?thesis
    proof (cases "canon_head t > 0")
      case True
      then show ?thesis using 7 edits_finish [OF t, of k] l by (simp add: D split_beta)
    next
      case False
      then have "line t = []" "submit [] (queue t) = queue t" by (simp_all add: line_def submit_def)
      then have "edits t (fst (wake_readers (t\<lparr>canon_lines := canon_lines t + 1\<rparr>) k)) ([], submit (line t) (queue t), canon_lines t + 1, False)"
        using t l by (simp add: edits_def) (simp add: edit_of_def line_def queue_def input_available_def)
      then show ?thesis using 7 False by (simp add: D split_beta)
    qed
  next
    case 8
    then show ?thesis using edits_refl [OF t] l by (simp add: D split_beta)
  next
    case 9
    define u where "u = (if canon_head t < MAX_CANON - 1 then canon_put 10 t else t)"
    have "edits t u (type_char 10 (line t), queue t, canon_lines t, False)"
      using edits_head [OF t, of 10] edits_refl [OF t] line_length [OF t] l by (auto simp: u_def type_char_def edit_of_def)
    from edits_echo [OF echoes_echo, of t "(u, s)"] this
    have e: "edits t (fst (tty_echo_char font 10 (u, s))) (type_char 10 (line t), queue t, canon_lines t, False)" by simp
    then have "std (fst (tty_echo_char font 10 (u, s)))" by (simp add: edits_def)
    from edits_trans [OF e edits_finish [OF this, of k]] e show ?thesis
      using 9 by (cases "canon_head t < MAX_CANON - 1") (simp_all add: D split_beta u_def edits_def)
  next
    case 10
    then show ?thesis using edits_store [OF t, of font c s k] c l by (simp add: D split_beta)
  qed
qed

lemma edits_receive:
  assumes t: "std t" and r: "tty_receive_char font c (t, s, k) = Some (t', s', k')"
  shows "edits t t' (edit c (edit_of t))"
proof (cases "has (tty_flags t) TTY_LNEXT")
  case True
  let ?t = "t\<lparr>tty_flags := tty_flags t AND NOT TTY_LNEXT\<rparr>"
  have q: "line ?t = line t" "queue ?t = queue t" by (simp_all add: line_def queue_def input_available_def)
  have "t' = fst (store_char font c (?t, s, k))" using r True by (auto simp: tty_receive_char_def)
  then show ?thesis using edits_store [of ?t font c s k] t True q by (auto simp: edit_def edit_of_def edits_def)
next
  case False
  have T: "termios t = tty_std_termios" using t by (simp add: std_def)
  define d where "d = (if c = 13 then 10 else c)"
  have m: "map_input t c = Some d" using T by (simp add: map_input_def d_def)
  have e: "edit c (edit_of t) = edit_key d (edit_of t)" using False by (simp add: edit_def edit_of_def d_def)
  have d13: "d \<noteq> 13" by (simp add: d_def)
  consider "d \<in> {3, 28, 26}" | "d = 19" | "d = 17" | "d \<notin> {3, 28, 26, 17, 19}" by blast
  then show ?thesis
  proof cases
    case 1
    then have "signal_char t d \<noteq> 0" using T by (auto simp: signal_char_def)
    then have "receive_signal font d (signal_char t d) (t, s, k) = Some (t', s', k')"
      using r False m by (simp add: tty_receive_char_def)
    from edits_signal [OF t this] show ?thesis using 1 False e by (auto simp: edit_key_def edit_of_def)
  next
    case 2
    then have "t' = t\<lparr>tty_flags := tty_flags t OR TTY_STOPPED\<rparr>"
      using r False m T by (simp add: tty_receive_char_def signal_char_def receive_flow_def)
    then show ?thesis using 2 t e False
      by (simp add: edits_def edit_key_def edit_of_def line_def queue_def input_available_def)
  next
    case 3
    then have "t' = fst (wake_writers (t\<lparr>tty_flags := tty_flags t AND NOT TTY_STOPPED\<rparr>) k)"
      using r False m T by (auto simp: tty_receive_char_def signal_char_def receive_flow_def split: prod.splits)
    then show ?thesis using 3 t e False
      by (simp add: edits_def) (simp add: edit_key_def edit_of_def line_def queue_def input_available_def)
  next
    case 4
    have "t' = fst (case receive_canon font d (t, s, k) of Some st \<Rightarrow> st | None \<Rightarrow> store_char font d (t, s, k))"
      using r False m T 4 by (auto simp: tty_receive_char_def signal_char_def receive_flow_def split: option.splits)
    then show ?thesis using edits_canon [OF t False, of d font s k] 4 d13 e by simp
  qed
qed

lemma receive_total:
  assumes "tty_pgrp t = 0"
  shows "tty_receive_char font c (t, s, k) \<noteq> None"
proof -
  have "receive_signal font d sig (t, s, k) \<noteq> None" for d sig
  proof -
    have "tty_pgrp (fst (put font a ts)) = tty_pgrp (fst ts)" for a ts by (rule put_same)
    then show ?thesis using assms
      by (simp add: receive_signal_def tty_signal_session_def tty_flush_input_def Let_def split_beta)
  qed
  then show ?thesis unfolding tty_receive_char_def
    by (simp del: not_None_eq split: option.split sum.split prod.split)
qed

text \<open>
  C29. Line editing. A terminal with the standard settings is an editor: whatever characters arrive, the line being typed,
  the bytes for readers, the number of lines and the literal-next state are those that the abstract editor
  computes from the same characters; echo does not disturb them. The line never
  exceeds 254 characters and the queue 4095. Without a foreground group every character is accepted.
\<close>

theorem tty_line_editing:
  assumes "std t"
  shows "(case tty_receive_buf font cs (t, s, k) of None \<Rightarrow> tty_pgrp t \<noteq> 0
     | Some (t', _, _) \<Rightarrow> std t' \<and> edit_of t' = fold edit cs (edit_of t))"
proof -
  have "case tty_receive_buf font cs (t, s, k) of None \<Rightarrow> tty_pgrp t \<noteq> 0
     | Some (t', _, _) \<Rightarrow> edits t t' (fold edit cs (edit_of t))"
    using assms
  proof (induction cs arbitrary: t s k)
    case Nil
    then show ?case by (simp add: edits_refl)
  next
    case (Cons c cs)
    show ?case
    proof (cases "tty_receive_char font c (t, s, k)")
      case None
      then show ?thesis using receive_total [of t font c s k] by (cases "tty_pgrp t = 0") simp_all
    next
      case (Some st)
      obtain t1 s1 k1 where st: "st = (t1, s1, k1)" by (cases st)
      have e: "edits t t1 (edit c (edit_of t))" using edits_receive [OF Cons.prems] Some st by blast
      then have "std t1" "edit_of t1 = edit c (edit_of t)" "tty_pgrp t1 = tty_pgrp t" by (simp_all add: edits_def)
      then show ?thesis using Cons.IH [of t1 s1 k1] Some st
        by (auto simp: edits_def split: option.splits)
    qed
  qed
  then show ?thesis by (auto simp: edits_def split: option.splits)
qed

lemma std_init: "std (fst tty_init)" "edit_of (fst tty_init) = ([], [], 0, False)"
  by (simp_all add: tty_init_def init_tty_struct_def std_def tty_ok_def edit_of_def line_def queue_def input_available_def
      ring_list_def has_def)

text \<open>Typing \<open>ab\<close>, an erase, \<open>c\<close> and return.\<close>

theorem tty_line_editing_witness:
  "\<exists>t' s' k'. tty_receive_buf (\<lambda>_ _. 0) [97, 98, 127, 99, 13] (fst tty_init, console0, kernel0) = Some (t', s', k') \<and>
     edit_of t' = ([], [97, 99, 10], 1, False)"
proof -
  let ?r = "tty_receive_buf (\<lambda>_ _. 0) [97, 98, 127, 99, 13] (fst tty_init, console0, kernel0)"
  have "fold edit [97, 98, 127, 99, 13] ([], [], 0, False) = ([], [97, 99, 10], 1, False)"
    by (simp add: edit_def edit_key_def type_char_def submit_def)
  moreover have "tty_pgrp (fst tty_init) = 0" by (simp add: tty_init_def init_tty_struct_def)
  ultimately show ?thesis
    using tty_line_editing [OF std_init(1), where font = "\<lambda>_ _. 0" and cs = "[97, 98, 127, 99, 13]" and s = console0 and k = kernel0] std_init(2)
    by (cases ?r) (auto simp del: tty_receive_buf.simps)
qed

subsection \<open>Reading lines\<close>

text \<open>The characters that end a line for a reader.\<close>

definition ends_line :: "tty \<Rightarrow> u8 \<Rightarrow> bool" where
  "ends_line t c \<longleftrightarrow> c = 10 \<or> c = cc t VEOF \<or> c = cc t VEOL \<or> c = cc t VEOL2"

lemma canon_read_line:
  assumes "tty_ok t" "queue t = l @ 10 # rest" "list_all (\<lambda>c. \<not> ends_line t c) l" "cc t VEOF \<noteq> 10"
    "length got + length l < count"
  shows "\<exists>t'. canon_read count got t = (True, got @ l @ [10], t') \<and> queue t' = rest \<and> canon_lines t' = canon_lines t - 1 \<and>
    tty_ok t' \<and> line t' = line t"
  using assms
proof (induction l arbitrary: got t)
  case Nil
  obtain t' where g: "read_buf_get t = (10, t')" "queue t' = rest" "tty_ok t'" "termios t' = termios t"
    "canon_lines t' = canon_lines t" "line t' = line t"
    using read_buf_get_queue [OF Nil.prems(1)] Nil.prems(2) by auto
  have "\<not> read_buf_empty t" using empty_iff [OF Nil.prems(1)] Nil.prems(2) by simp
  moreover have "queue (t'\<lparr>canon_lines := i\<rparr>) = queue t'" "tty_ok (t'\<lparr>canon_lines := i\<rparr>) = tty_ok t'"
    "line (t'\<lparr>canon_lines := i\<rparr>) = line t'" for i
    by (simp_all add: queue_def input_available_def tty_ok_def line_def)
  ultimately show ?case using g Nil.prems(4,5) by (subst canon_read.simps) simp
next
  case (Cons c l)
  obtain t' where g: "read_buf_get t = (c, t')" "queue t' = l @ 10 # rest" "tty_ok t'" "termios t' = termios t"
    "canon_lines t' = canon_lines t" "line t' = line t"
    using read_buf_get_queue [OF Cons.prems(1)] Cons.prems(2) by auto
  have e: "ends_line t' = ends_line t" using g(4) by (simp add: ends_line_def fun_eq_iff)
  have "\<not> read_buf_empty t" using empty_iff [OF Cons.prems(1)] Cons.prems(2) by simp
  then have "canon_read count got t = canon_read count (got @ [c]) t'"
    using g Cons.prems(3,5) by (subst canon_read.simps) (simp add: ends_line_def)
  moreover have "list_all (\<lambda>c. \<not> ends_line t' c) l" "length (got @ [c]) + length l < count"
    using Cons.prems e by simp_all
  ultimately show ?case using Cons.IH [OF g(3,2), of "got @ [c]"] Cons.prems(4) g by auto
qed

text \<open>
  C30. A read in canonical mode ends with exactly one line. When the queue starts with a line that fits into the
  buffer, the reading loop returns that line with its newline after one pass, takes only this line from the queue and
  counts it; the rest of the input and the line being typed stay as they are.
\<close>

theorem n_tty_read_line:
  assumes "tty_ok t" "lflag t ICANON" "\<not> signal_waiting k" "canon_lines t \<noteq> 0"
    and "queue t = l @ 10 # rest" "list_all (\<lambda>c. \<not> ends_line t c) l" "cc t VEOF \<noteq> 10" "length l < count"
  shows "\<exists>t'. n_tty_read interval count [] t k = Some (Returns (l @ [10]), t') \<and> queue t' = rest \<and>
    canon_lines t' = canon_lines t - 1 \<and> tty_ok t' \<and> line t' = line t"
proof -
  obtain t' where t': "canon_read count [] t = (True, l @ [10], t')" "queue t' = rest" "canon_lines t' = canon_lines t - 1"
    "tty_ok t'" "line t' = line t"
    using canon_read_line [OF assms(1,5-7), of "[]" count] assms(8) by auto
  then have "n_tty_read_pass interval count [] t k = (Returns (l @ [10]), t')"
    using assms(2-4) by (simp add: n_tty_read_pass_def)
  then show ?thesis using t'(2-5) assms(8) by (subst n_tty_read.simps) simp
qed

text \<open>The queue holds two lines, \<open>ab\<close> and \<open>c\<close>.\<close>

definition two_lines :: tty where
  "two_lines = (fst tty_init)\<lparr>read_buf := [97, 98, 10, 99, 10] @ replicate 4091 0, read_head := 5, canon_lines := 2\<rparr>"

lemma two_lines_queue: "queue two_lines = [97, 98, 10, 99, 10]" "tty_ok two_lines"
  by (simp_all add: two_lines_def queue_def input_available_def tty_init_def init_tty_struct_def ring_list_def tty_ok_def
      upt_rec)

theorem n_tty_read_line_witness:
  "\<exists>t'. n_tty_read 10 100 [] two_lines kernel0 = Some (Returns [97, 98, 10], t') \<and> queue t' = [99, 10] \<and> canon_lines t' = 1"
proof -
  have T: "termios two_lines = tty_std_termios" "canon_lines two_lines = 2"
    by (simp_all add: two_lines_def tty_init_def init_tty_struct_def)
  have w: "\<not> signal_waiting kernel0" by (simp add: signal_waiting_def kernel0_def current_proc_def process0_def)
  have e: "list_all (\<lambda>c. \<not> ends_line two_lines c) [97, 98]" by (simp add: ends_line_def T)
  show ?thesis
    using n_tty_read_line [OF two_lines_queue(2) _ w _ _ e, of "[99, 10]" 100 10] two_lines_queue(1) by (auto simp: T)
qed

subsection \<open>End of file\<close>

lemma read_spins:
  assumes "tty_ok t" "lflag t ICANON" "\<not> signal_waiting k" "canon_lines t \<noteq> 0" "queue t = []" "length got < count"
  shows "n_tty_read interval count got t k = None"
proof -
  have p: "n_tty_read_pass interval count got t k = (Loops got, t)"
    using assms empty_iff [OF assms(1)] by (simp add: n_tty_read_pass_def) (subst canon_read.simps, simp)
  have "(i, n, g, u, h) \<noteq> (interval, count, got, t, k)" if "n_tty_read i n g u h = Some y" for i n g u h y
    using that
  proof (rule n_tty_read.raw_induct [where P = "\<lambda>i n g u h y. (i, n, g, u, h) \<noteq> (interval, count, got, t, k)", rotated], goal_cases)
    case (1 f i n g u h y)
    show ?case
    proof
      assume e: "(i, n, g, u, h) = (interval, count, got, t, k)"
      then have "f i n g u h = Some y" using 1(2) p assms(6) by simp
      from 1(1) [OF this] show False using e by simp
    qed
  qed
  then show ?thesis by (metis not_None_eq)
qed

text \<open>
  End of file does not end a read. Typing the end-of-file character on an empty line counts a line without putting
  anything into the queue; a read that finds the queue empty then neither returns 0 nor sleeps but
  runs its loop forever, whatever size it asks for.
\<close>

theorem tty_eof_spins:
  assumes t: "std t" "edit_of t = ([], [], n, False)" "0 \<le> n" and w: "\<not> signal_waiting k'"
    and r: "tty_receive_char font 4 (t, s, k) = Some (t', s', k')" and count: "0 < count"
  shows "n_tty_read interval count [] t' k' = None"
proof -
  have "edits t t' (edit 4 (edit_of t))" using edits_receive [OF t(1) r] .
  then have "std t'" "edit_of t' = ([], [], n + 1, False)"
    using t(2) by (simp_all add: edits_def edit_def edit_key_def submit_def)
  then have "tty_ok t'" "lflag t' ICANON" "queue t' = []" "canon_lines t' \<noteq> 0"
    using t(3) by (auto simp: std_def edit_of_def)
  then show ?thesis using read_spins [of t' k' "[]" count] w count by simp
qed

theorem tty_eof_spins_witness:
  "\<exists>t' s' k'. tty_receive_char (\<lambda>_ _. 0) 4 (fst tty_init, console0, kernel0) = Some (t', s', k') \<and>
     n_tty_read 10 100 [] t' k' = None"
proof -
  have "fst tty_init = fst tty_init \<and> tty_flags (fst tty_init) = 0 \<and> termios (fst tty_init) = tty_std_termios \<and>
    canon_head (fst tty_init) = 0 \<and> read_wait (fst tty_init) = 0"
    by (simp add: tty_init_def init_tty_struct_def)
  then have r: "tty_receive_char (\<lambda>_ _. 0) 4 (fst tty_init, console0, kernel0) =
      Some ((fst tty_init)\<lparr>canon_lines := canon_lines (fst tty_init) + 1, read_wait := 0\<rparr>, console0, kernel0)"
    by (simp add: tty_receive_char_def map_input_def signal_char_def receive_flow_def receive_canon_def wake_readers_def
        wake_up_def has_def [of 0] Let_def)
  have w: "\<not> signal_waiting kernel0" by (simp add: signal_waiting_def kernel0_def current_proc_def process0_def)
  show ?thesis using tty_eof_spins [OF std_init _ w r, of 100 10] r by auto
qed

end
