(* ===== verification/Kheap.thy ===== *)
theory Kheap
  imports Dll
begin

section \<open>The kernel heap\<close>

text \<open>
  A model of the slab allocator in \<^verbatim>\<open>kernel/mm/heap.c\<close>. Addresses are natural numbers; the heap lies below
  \<open>2 ^ 64\<close>. The memory is a function from addresses to bytes, in which the free objects of a slab are linked
  through their first eight bytes. The headers of the slabs, which lie at the start of their pages, and the table of pages, which fills the first pages of the
  heap, are components of their own: \<open>metadata_apart\<close> shows that no block in use shares a byte with them, so that neither the
  allocator nor its clients can tell the difference. \<open>heap_lock\<close> makes each operation one step.
\<close>

abbreviation (input) SLAB_MAGIC :: u32 where "SLAB_MAGIC \<equiv> 0x51AB51AB"
abbreviation (input) HEADER_SIZE :: nat where "HEADER_SIZE \<equiv> 40"
abbreviation (input) PG :: nat where "PG \<equiv> 4096"

datatype page_type = PAGE_TYPE_FREE | PAGE_TYPE_SLAB | PAGE_TYPE_LARGE

record page_info =
  pg_type :: page_type
  pg_count :: u16

record slab =
  sl_next :: nat
  sl_prev :: nat
  sl_cache :: "nat option"
  sl_free :: nat
  in_use :: u32
  sl_magic :: u32

record kmem_cache =
  slabs_partial :: nat
  slabs_full :: nat
  slabs_free :: nat
  obj_size :: nat

record heap =
  heap_start_addr :: nat
  heap_end_addr :: nat
  total_pages :: nat
  page_metadata :: "page_info list"
  caches :: "kmem_cache list"
  slabs :: "nat \<Rightarrow> slab"
  mem :: "nat \<Rightarrow> u8"

definition slab_sizes :: "nat list" where
  "slab_sizes = [16, 32, 64, 128, 256, 512, 1024, 2048]"

definition store64 :: "nat \<Rightarrow> nat \<Rightarrow> (nat \<Rightarrow> u8) \<Rightarrow> nat \<Rightarrow> u8" where
  "store64 a v m = (\<lambda>i. if a \<le> i \<and> i < a + 8 then word_of_nat (v div 256 ^ (i - a)) else m i)"

definition load64 :: "(nat \<Rightarrow> u8) \<Rightarrow> nat \<Rightarrow> nat" where
  "load64 m a = (\<Sum>k<8. unat (m (a + k)) * 256 ^ k)"

definition align_up :: "nat \<Rightarrow> nat \<Rightarrow> nat" where
  "align_up n al = (n + al - 1) div al * al"

text \<open>None stands for the index \<open>(u32)-1\<close>.\<close>

definition virt_to_page_idx :: "nat \<Rightarrow> heap \<Rightarrow> nat option" where
  "virt_to_page_idx addr h =
     (if addr < heap_start_addr h \<or> addr \<ge> heap_end_addr h then None
      else Some ((addr - heap_start_addr h) div PG))"

definition page_idx_to_virt :: "nat \<Rightarrow> heap \<Rightarrow> nat" where
  "page_idx_to_virt idx h = heap_start_addr h + idx * PG"

subsection \<open>Pages\<close>

text \<open>The search for a run of free pages: \<open>i\<close> is the index of the first page of the list, \<open>run\<close> the length of the current run.\<close>

fun find_run :: "nat \<Rightarrow> page_info list \<Rightarrow> nat \<Rightarrow> nat \<Rightarrow> nat \<Rightarrow> nat option" where
  "find_run n [] i run st = None"
| "find_run n (p # ps) i run st =
     (if pg_type p = PAGE_TYPE_FREE
      then let st = (if run = 0 then i else st)
           in if run + 1 = n then Some st else find_run n ps (i + 1) (run + 1) st
      else find_run n ps (i + 1) 0 st)"

definition mark_pages :: "nat \<Rightarrow> nat \<Rightarrow> page_type \<Rightarrow> page_info list \<Rightarrow> page_info list" where
  "mark_pages st n ty ps =
     fold (\<lambda>j ps. ps[st + j := \<lparr>pg_type = ty, pg_count = (if j = 0 then word_of_nat n else 0)\<rparr>]) [0..<n] ps"

definition alloc_pages_backend :: "nat \<Rightarrow> page_type \<Rightarrow> heap \<Rightarrow> nat \<times> heap" where
  "alloc_pages_backend n ty h =
     (case find_run n (take (total_pages h) (page_metadata h)) 0 0 0 of
        None \<Rightarrow> (0, h)
      | Some st \<Rightarrow> (page_idx_to_virt st h, h\<lparr>page_metadata := mark_pages st n ty (page_metadata h)\<rparr>))"

definition free_pages_backend :: "nat \<Rightarrow> heap \<Rightarrow> heap" where
  "free_pages_backend ptr h =
     (case virt_to_page_idx ptr h of
        None \<Rightarrow> h
      | Some idx \<Rightarrow>
          if idx \<ge> total_pages h then h
          else let n = unat (pg_count (page_metadata h ! idx))
               in h\<lparr>page_metadata :=
                      fold (\<lambda>i ps. if idx + i < total_pages h then ps[idx + i := \<lparr>pg_type = PAGE_TYPE_FREE, pg_count = 0\<rparr>] else ps)
                        [0..<n] (page_metadata h)\<rparr>)"

subsection \<open>Slabs\<close>

fun init_links :: "nat \<Rightarrow> nat \<Rightarrow> nat \<Rightarrow> (nat \<Rightarrow> u8) \<Rightarrow> nat \<Rightarrow> u8" where
  "init_links sz 0 cur m = store64 cur 0 m"
| "init_links sz (Suc n) cur m = init_links sz n (cur + sz) (store64 cur (cur + sz) m)"

definition max_objs :: "nat \<Rightarrow> nat" where
  "max_objs sz = (PG - HEADER_SIZE) div sz"

definition slab_init_page :: "nat \<Rightarrow> nat \<Rightarrow> heap \<Rightarrow> heap" where
  "slab_init_page base ci h =
     (let start = align_up (base + HEADER_SIZE) 8;
          sz = obj_size (caches h ! ci);
          n = (PG - (start - base)) div sz
      in h\<lparr>slabs := (slabs h)(base := \<lparr>sl_next = 0, sl_prev = 0, sl_cache = Some ci, sl_free = start, in_use = 0,
                                     sl_magic = SLAB_MAGIC\<rparr>),
           mem := init_links sz (n - 1) start (mem h)\<rparr>)"

datatype slab_list = Partial | Full

definition slab_head :: "nat \<Rightarrow> slab_list \<Rightarrow> heap \<Rightarrow> nat" where
  "slab_head ci w h = (case w of Partial \<Rightarrow> slabs_partial (caches h ! ci) | Full \<Rightarrow> slabs_full (caches h ! ci))"

definition set_head :: "nat \<Rightarrow> slab_list \<Rightarrow> nat \<Rightarrow> heap \<Rightarrow> heap" where
  "set_head ci w p h =
     h\<lparr>caches := (caches h)[ci := (case w of Partial \<Rightarrow> (caches h ! ci)\<lparr>slabs_partial := p\<rparr>
                                             | Full \<Rightarrow> (caches h ! ci)\<lparr>slabs_full := p\<rparr>)]\<rparr>"

abbreviation upd_slab :: "nat \<Rightarrow> (slab \<Rightarrow> slab) \<Rightarrow> heap \<Rightarrow> heap" where
  "upd_slab p f h \<equiv> h\<lparr>slabs := (slabs h)(p := f (slabs h p))\<rparr>"

text \<open>The statements that unlink a slab from a list of its cache, and those that put it in front of one.\<close>

definition unlink_slab :: "nat \<Rightarrow> slab_list \<Rightarrow> nat \<Rightarrow> heap \<Rightarrow> heap" where
  "unlink_slab ci w p h =
     (let h = (if sl_prev (slabs h p) \<noteq> 0
               then upd_slab (sl_prev (slabs h p)) (\<lambda>s. s\<lparr>sl_next := sl_next (slabs h p)\<rparr>) h
               else set_head ci w (sl_next (slabs h p)) h)
      in if sl_next (slabs h p) \<noteq> 0
         then upd_slab (sl_next (slabs h p)) (\<lambda>s. s\<lparr>sl_prev := sl_prev (slabs h p)\<rparr>) h
         else h)"

definition push_slab :: "nat \<Rightarrow> slab_list \<Rightarrow> nat \<Rightarrow> heap \<Rightarrow> heap" where
  "push_slab ci w p h =
     (let hd = slab_head ci w h;
          h = upd_slab p (\<lambda>s. s\<lparr>sl_next := hd, sl_prev := 0\<rparr>) h;
          h = (if hd \<noteq> 0 then upd_slab hd (\<lambda>s. s\<lparr>sl_prev := p\<rparr>) h else h)
      in set_head ci w p h)"

text \<open>The slab that the allocation is made from; 0 if there is no page left. No operation fills \<open>slabs_free\<close>.\<close>

definition get_slab :: "nat \<Rightarrow> heap \<Rightarrow> nat \<times> heap" where
  "get_slab ci h =
     (let c = caches h ! ci
      in if slabs_partial c \<noteq> 0 then (slabs_partial c, h)
         else if slabs_free c \<noteq> 0
         then let p = slabs_free c;
                  q = sl_next (slabs h p);
                  h = h\<lparr>caches := (caches h)[ci := c\<lparr>slabs_free := q\<rparr>]\<rparr>;
                  h = (if q \<noteq> 0 then upd_slab q (\<lambda>s. s\<lparr>sl_prev := 0\<rparr>) h else h)
              in (p, push_slab ci Partial p h)
         else case alloc_pages_backend 1 PAGE_TYPE_SLAB h of
                (p, h) \<Rightarrow> if p = 0 then (0, h) else (p, push_slab ci Partial p (slab_init_page p ci h)))"

definition take_obj :: "nat \<Rightarrow> heap \<Rightarrow> nat \<times> heap" where
  "take_obj p h =
     (let obj = sl_free (slabs h p)
      in (obj, upd_slab p (\<lambda>s. s\<lparr>sl_free := load64 (mem h) obj, in_use := in_use s + 1\<rparr>) h))"

definition cache_alloc :: "nat \<Rightarrow> heap \<Rightarrow> nat \<times> heap" where
  "cache_alloc ci h =
     (case get_slab ci h of
        (p, h) \<Rightarrow>
          if p = 0 then (0, h)
          else case take_obj p h of
                 (obj, h) \<Rightarrow>
                   (obj, if sl_free (slabs h p) = 0 then push_slab ci Full p (unlink_slab ci Partial p h) else h))"

definition put_obj :: "nat \<Rightarrow> nat \<Rightarrow> heap \<Rightarrow> heap" where
  "put_obj p ptr h =
     (upd_slab p (\<lambda>s. s\<lparr>sl_free := ptr, in_use := in_use s - 1\<rparr>) h)
       \<lparr>mem := store64 ptr (sl_free (slabs h p)) (mem h)\<rparr>"

definition cache_free :: "nat \<Rightarrow> nat \<Rightarrow> heap \<Rightarrow> heap" where
  "cache_free ci ptr h =
     (let p = ptr div PG * PG
      in if sl_magic (slabs h p) \<noteq> SLAB_MAGIC then h
         else let was_full = (sl_free (slabs h p) = 0);
                  h = put_obj p ptr h
              in if in_use (slabs h p) = 0
                 then free_pages_backend p (unlink_slab ci (if was_full then Full else Partial) p h)
                 else if was_full then push_slab ci Partial p (unlink_slab ci Full p h)
                 else h)"

subsection \<open>The interface\<close>

definition heap_init :: "nat \<Rightarrow> nat \<Rightarrow> heap \<Rightarrow> heap" where
  "heap_init start sz h =
     (let aligned_start = (start + PG - 1) div PG * PG;
          diff = aligned_start - start
      in if sz < diff then h
         else let total = ((sz - diff) div PG) mod 2 ^ 32;
                  h = h\<lparr>total_pages := total\<rparr>
              in if total = 0 then h
                 else let h = h\<lparr>heap_start_addr := aligned_start, heap_end_addr := aligned_start + (total * PG) mod 2 ^ 32\<rparr>;
                          meta_pages = (total * 4 + PG - 1) div PG
                      in if meta_pages \<ge> total then h
                         else h\<lparr>page_metadata := replicate meta_pages \<lparr>pg_type = PAGE_TYPE_LARGE, pg_count = 1\<rparr> @
                                                replicate (total - meta_pages) \<lparr>pg_type = PAGE_TYPE_FREE, pg_count = 0\<rparr>,
                                caches := map (\<lambda>sz. \<lparr>slabs_partial = 0, slabs_full = 0, slabs_free = 0, obj_size = sz\<rparr>) slab_sizes\<rparr>)"

definition size_class :: "nat \<Rightarrow> heap \<Rightarrow> nat option" where
  "size_class sz h = find (\<lambda>i. sz \<le> obj_size (caches h ! i)) [0..<8]"

definition kmalloc :: "u64 \<Rightarrow> heap \<Rightarrow> nat \<times> heap" where
  "kmalloc sz h =
     (if sz = 0 then (0, h)
      else if sz \<le> 2048
      then case size_class (unat sz) h of None \<Rightarrow> (0, h) | Some ci \<Rightarrow> cache_alloc ci h
      else alloc_pages_backend (unat ((sz + 4096 - 1) div 4096)) PAGE_TYPE_LARGE h)"

definition kfree :: "nat \<Rightarrow> heap \<Rightarrow> heap" where
  "kfree ptr h =
     (if ptr = 0 then h
      else case virt_to_page_idx ptr h of
             None \<Rightarrow> h
           | Some idx \<Rightarrow>
               if idx \<ge> total_pages h then h
               else case pg_type (page_metadata h ! idx) of
                      PAGE_TYPE_SLAB \<Rightarrow>
                        (case sl_cache (slabs h (ptr div PG * PG)) of None \<Rightarrow> h | Some ci \<Rightarrow> cache_free ci ptr h)
                    | PAGE_TYPE_LARGE \<Rightarrow> free_pages_backend ptr h
                    | PAGE_TYPE_FREE \<Rightarrow> h)"

definition memset0 :: "nat \<Rightarrow> nat \<Rightarrow> heap \<Rightarrow> heap" where
  "memset0 a n h = h\<lparr>mem := (\<lambda>i. if a \<le> i \<and> i < a + n then 0 else mem h i)\<rparr>"

definition kcalloc :: "u64 \<Rightarrow> u64 \<Rightarrow> heap \<Rightarrow> nat \<times> heap" where
  "kcalloc num sz h =
     (let total = num * sz
      in case kmalloc total h of (a, h) \<Rightarrow> (a, if a \<noteq> 0 then memset0 a (unat total) h else h))"

definition block_size :: "nat \<Rightarrow> heap \<Rightarrow> nat" where
  "block_size ptr h =
     (case virt_to_page_idx ptr h of
        None \<Rightarrow> 0
      | Some idx \<Rightarrow>
          if idx \<ge> total_pages h then 0
          else case pg_type (page_metadata h ! idx) of
                 PAGE_TYPE_SLAB \<Rightarrow> (case sl_cache (slabs h (ptr div PG * PG)) of None \<Rightarrow> 0 | Some ci \<Rightarrow> obj_size (caches h ! ci))
               | PAGE_TYPE_LARGE \<Rightarrow> unat (pg_count (page_metadata h ! idx)) * PG
               | PAGE_TYPE_FREE \<Rightarrow> 0)"

definition krealloc :: "nat \<Rightarrow> u64 \<Rightarrow> heap \<Rightarrow> nat \<times> heap" where
  "krealloc ptr new_size h =
     (if ptr = 0 then kmalloc new_size h
      else if new_size = 0 then (0, kfree ptr h)
      else let old_size = block_size ptr h
           in if old_size \<ge> unat new_size then (ptr, h)
              else case kmalloc new_size h of
                     (a, h) \<Rightarrow>
                       if a = 0 then (0, h)
                       else (a, kfree ptr (h\<lparr>mem := (\<lambda>i. if a \<le> i \<and> i < a + old_size then mem h (ptr + (i - a)) else mem h i)\<rparr>)))"


subsection \<open>Links in memory\<close>

lemma digits_sum: "(\<Sum>k<n. v div b ^ k mod b * b ^ k) = v mod (b :: nat) ^ n"
proof (induction n)
  case (Suc n)
  have "v mod b ^ Suc n = v div b ^ n mod b * b ^ n + v mod b ^ n"
    using mod_mult2_eq [of v "b ^ n" b] by (simp add: mult.commute add.commute)
  then show ?case using Suc by simp
qed simp

lemma load_store64: "v < 2 ^ 64 \<Longrightarrow> load64 (store64 a v m) a = v"
proof -
  assume "v < 2 ^ 64"
  then have "v mod 256 ^ 8 = v" by simp
  moreover have "load64 (store64 a v m) a = (\<Sum>k<8. v div 256 ^ k mod 256 * 256 ^ k)"
    unfolding load64_def store64_def by (intro sum.cong) (simp_all add: unat_of_nat)
  ultimately show ?thesis using digits_sum [of v 256 8] by simp
qed

lemma load_store64_other: "a + 8 \<le> b \<or> b + 8 \<le> a \<Longrightarrow> load64 (store64 b v m) a = load64 m a"
  unfolding load64_def store64_def by (intro sum.cong) auto

lemma load64_cong: "(\<And>i. a \<le> i \<Longrightarrow> i < a + 8 \<Longrightarrow> m' i = m i) \<Longrightarrow> load64 m' a = load64 m a"
  unfolding load64_def by (intro sum.cong) auto

lemma store64_other: "i < a \<or> a + 8 \<le> i \<Longrightarrow> store64 a v m i = m i"
  by (auto simp: store64_def)

text \<open>The free objects of a slab, linked through their first words.\<close>

fun chain :: "(nat \<Rightarrow> u8) \<Rightarrow> nat \<Rightarrow> nat list \<Rightarrow> bool" where
  "chain m a [] \<longleftrightarrow> a = 0"
| "chain m a (x # xs) \<longleftrightarrow> a = x \<and> x \<noteq> 0 \<and> chain m (load64 m x) xs"

lemma chain_cong:
  "(\<And>x. x \<in> set xs \<Longrightarrow> load64 m' x = load64 m x) \<Longrightarrow> chain m' a xs = chain m a xs"
  by (induction xs arbitrary: a) auto

text \<open>The objects from \<open>cur\<close> on, \<open>n + 1\<close> of them.\<close>

definition objs_from :: "nat \<Rightarrow> nat \<Rightarrow> nat \<Rightarrow> nat list" where
  "objs_from sz n cur = map (\<lambda>i. cur + i * sz) [0..<Suc n]"

lemma objs_from_Suc: "objs_from sz (Suc n) cur = cur # objs_from sz n (cur + sz)"
proof -
  have "[0..<Suc (Suc n)] = 0 # map Suc [0..<Suc n]" by (simp add: map_Suc_upt upt_conv_Cons del: upt_Suc)
  then show ?thesis by (simp add: objs_from_def del: upt_Suc)
qed

lemma init_links_before: "i < cur \<Longrightarrow> init_links sz n cur m i = m i"
  by (induction n arbitrary: cur m) (simp_all add: store64_other)

lemma init_links_after: "8 \<le> sz \<Longrightarrow> cur + n * sz + 8 \<le> i \<Longrightarrow> init_links sz n cur m i = m i"
  by (induction n arbitrary: cur m) (simp_all add: store64_other)

lemma chain_init_links:
  "8 \<le> sz \<Longrightarrow> 0 < cur \<Longrightarrow> cur + n * sz < 2 ^ 64 \<Longrightarrow> chain (init_links sz n cur m) cur (objs_from sz n cur)"
proof (induction n arbitrary: cur m)
  case 0
  then show ?case by (simp add: objs_from_def load_store64)
next
  case (Suc n)
  let ?m = "store64 cur (cur + sz) m"
  have "chain (init_links sz n (cur + sz) ?m) (cur + sz) (objs_from sz n (cur + sz))"
    using Suc.IH [of "cur + sz" ?m] Suc.prems by (simp add: add.commute add.left_commute)
  moreover have "load64 (init_links sz n (cur + sz) ?m) cur = load64 ?m cur"
    using Suc.prems(1) by (intro load64_cong init_links_before) simp
  moreover have "load64 ?m cur = cur + sz" using Suc.prems by (intro load_store64) simp
  ultimately show ?case using Suc.prems by (simp add: objs_from_Suc)
qed

subsection \<open>The lists of slabs\<close>

abbreviation snx :: "heap \<Rightarrow> link" where "snx h \<equiv> (\<lambda>p. sl_next (slabs h p))"
abbreviation spv :: "heap \<Rightarrow> link" where "spv h \<equiv> (\<lambda>p. sl_prev (slabs h p))"

type_synonym slab_lists = "nat \<Rightarrow> slab_list \<Rightarrow> nat list"

definition all_slabs :: "slab_lists \<Rightarrow> nat set" where
  "all_slabs ql = {p. \<exists>ci < 8. \<exists>w. p \<in> set (ql ci w)}"

definition lists_ok :: "heap \<Rightarrow> slab_lists \<Rightarrow> bool" where
  "lists_ok h ql \<longleftrightarrow> length (caches h) = 8 \<and>
     (\<forall>ci < 8. \<forall>w. \<exists>t. dll (snx h) (spv h) (slab_head ci w h) (ql ci w) t) \<and>
     (\<forall>ci < 8. \<forall>w. \<forall>cj < 8. \<forall>v. (ci, w) \<noteq> (cj, v) \<longrightarrow> set (ql ci w) \<inter> set (ql cj v) = {})"

definition set_list :: "nat \<Rightarrow> slab_list \<Rightarrow> nat list \<Rightarrow> slab_lists \<Rightarrow> slab_lists" where
  "set_list ci w xs ql = (\<lambda>cj v. if cj = ci \<and> v = w then xs else ql cj v)"

lemma set_list_simps [simp]: "set_list ci w xs ql ci w = xs" "(cj, v) \<noteq> (ci, w) \<Longrightarrow> set_list ci w xs ql cj v = ql cj v"
  by (auto simp: set_list_def)

lemma slab_head_set [simp]:
  "length (caches h) = 8 \<Longrightarrow> ci < 8 \<Longrightarrow> slab_head ci w (set_head ci w p h) = p"
  "length (caches h) = 8 \<Longrightarrow> ci < 8 \<Longrightarrow> (cj, v) \<noteq> (ci, w) \<Longrightarrow> slab_head cj v (set_head ci w p h) = slab_head cj v h"
  by (auto simp: slab_head_def set_head_def nth_list_update split: slab_list.splits)

lemma slab_head_upd [simp]: "slab_head ci w (h\<lparr>slabs := x\<rparr>) = slab_head ci w h" "slab_head ci w (h\<lparr>mem := y\<rparr>) = slab_head ci w h"
  "slab_head ci w (h\<lparr>page_metadata := z\<rparr>) = slab_head ci w h"
  by (simp_all add: slab_head_def split: slab_list.split)

lemma set_head_same [simp]:
  "slabs (set_head ci w p h) = slabs h" "mem (set_head ci w p h) = mem h" "page_metadata (set_head ci w p h) = page_metadata h"
  "heap_start_addr (set_head ci w p h) = heap_start_addr h" "heap_end_addr (set_head ci w p h) = heap_end_addr h"
  "total_pages (set_head ci w p h) = total_pages h" "length (caches (set_head ci w p h)) = length (caches h)"
  by (simp_all add: set_head_def)

lemma set_head_sizes [simp]:
  "map obj_size (caches (set_head ci w p h)) = map obj_size (caches h)"
  "map slabs_free (caches (set_head ci w p h)) = map slabs_free (caches h)"
  by (cases "ci < length (caches h)"; auto simp: set_head_def map_update split: slab_list.splits intro!: nth_equalityI simp: nth_list_update)+

lemma lists_okD:
  assumes "lists_ok h ql" "ci < 8"
  shows "\<exists>t. dll (snx h) (spv h) (slab_head ci w h) (ql ci w) t" "length (caches h) = 8"
    "cj < 8 \<Longrightarrow> (ci, w) \<noteq> (cj, v) \<Longrightarrow> set (ql ci w) \<inter> set (ql cj v) = {}"
  using assms unfolding lists_ok_def by blast+

lemma lists_okI:
  assumes "length (caches h) = 8"
    and "\<And>ci w. ci < 8 \<Longrightarrow> \<exists>t. dll (snx h) (spv h) (slab_head ci w h) (ql ci w) t"
    and "\<And>ci w cj v. ci < 8 \<Longrightarrow> cj < 8 \<Longrightarrow> (ci, w) \<noteq> (cj, v) \<Longrightarrow> set (ql ci w) \<inter> set (ql cj v) = {}"
  shows "lists_ok h ql"
  using assms unfolding lists_ok_def by blast

text \<open>What the list operations leave alone.\<close>

definition links_only :: "heap \<Rightarrow> heap \<Rightarrow> bool" where
  "links_only h h' \<longleftrightarrow> mem h' = mem h \<and> page_metadata h' = page_metadata h \<and> heap_start_addr h' = heap_start_addr h \<and>
     heap_end_addr h' = heap_end_addr h \<and> total_pages h' = total_pages h \<and>
     map obj_size (caches h') = map obj_size (caches h) \<and> map slabs_free (caches h') = map slabs_free (caches h) \<and>
     (\<forall>p. sl_cache (slabs h' p) = sl_cache (slabs h p) \<and> sl_free (slabs h' p) = sl_free (slabs h p) \<and>
          in_use (slabs h' p) = in_use (slabs h p) \<and> sl_magic (slabs h' p) = sl_magic (slabs h p))"

lemma links_only_trans: "links_only h h' \<Longrightarrow> links_only h' h'' \<Longrightarrow> links_only h h''"
  by (simp add: links_only_def)

lemma push_links_only: "links_only h (push_slab ci w p h)"
  by (simp add: links_only_def push_slab_def Let_def)

lemma unlink_links_only: "links_only h (unlink_slab ci w p h)"
  by (simp add: links_only_def unlink_slab_def Let_def)

lemma push_slab_links:
  assumes p: "p \<noteq> 0" "p \<noteq> slab_head ci w h"
  shows "snx (push_slab ci w p h) = (snx h)(p := slab_head ci w h)"
    "spv (push_slab ci w p h) = ((spv h)(p := 0))(slab_head ci w h := if slab_head ci w h = 0 then ((spv h)(p := 0)) (slab_head ci w h) else p)"
  using p by (auto simp: push_slab_def Let_def fun_eq_iff)

lemma lists_ok_push:
  assumes ok: "lists_ok h ql" and ci: "ci < 8" and p: "p \<noteq> 0" "p \<notin> all_slabs ql"
  shows "lists_ok (push_slab ci w p h) (set_list ci w (p # ql ci w) ql)"
proof (rule lists_okI)
  define hd where "hd = slab_head ci w h"
  obtain t where D: "dll (snx h) (spv h) hd (ql ci w) t" using lists_okD(1) [OF ok ci] hd_def by blast
  have L: "length (caches h) = 8" using lists_okD(2) [OF ok ci] .
  have np: "p \<notin> set (ql cj v)" if "cj < 8" for cj v using p(2) that by (auto simp: all_slabs_def)
  have hd: "hd = 0 \<or> hd \<in> set (ql ci w)" using D by (cases "ql ci w") (auto simp: dll_def)
  have ph: "p \<noteq> hd" using hd np [OF ci] p(1) by blast
  note E = push_slab_links [OF p(1) ph [unfolded hd_def], folded hd_def]
  show "length (caches (push_slab ci w p h)) = 8" using L by (simp add: push_slab_def Let_def)
  have heads: "slab_head cj v (push_slab ci w p h) = (if (cj, v) = (ci, w) then p else slab_head cj v h)" for cj v
    using L ci by (simp add: push_slab_def Let_def)
  show "\<exists>t. dll (snx (push_slab ci w p h)) (spv (push_slab ci w p h)) (slab_head cj v (push_slab ci w p h))
      (set_list ci w (p # ql ci w) ql cj v) t" if cj: "cj < 8" for cj v
  proof (cases "(cj, v) = (ci, w)")
    case True
    then have e: "cj = ci" "v = w" by simp_all
    show ?thesis using exI [of "dll _ _ _ _", OF dll_push_front [OF D np [OF ci] p(1)]] unfolding E heads e set_list_simps by simp
  next
    case False
    have "x \<noteq> p \<and> x \<noteq> hd" if "x \<in> set (ql cj v)" for x
      using that np [OF cj] hd lists_okD(3) [OF ok ci cj, of w v] False lists_okD(1) [OF ok cj, of v] dll_nonzero by fastforce
    then have "dll (snx (push_slab ci w p h)) (spv (push_slab ci w p h)) a (ql cj v) t = dll (snx h) (spv h) a (ql cj v) t" for a t
      unfolding E by (intro dll_cong) auto
    then show ?thesis using False heads lists_okD(1) [OF ok cj, of v] by auto
  qed
  show "set (set_list ci w (p # ql ci w) ql cj v) \<inter> set (set_list ci w (p # ql ci w) ql ck u) = {}"
    if "cj < 8" "ck < 8" "(cj, v) \<noteq> (ck, u)" for cj v ck u
    using that np lists_okD(3) [OF ok that(1,2), of v u] by (auto simp: set_list_def)
qed

lemma lists_ok_unlink:
  assumes ok: "lists_ok h ql" and ci: "ci < 8" and p: "p \<in> set (ql ci w)"
  shows "lists_ok (unlink_slab ci w p h) (set_list ci w (remove1 p (ql ci w)) ql)"
proof (rule lists_okI)
  obtain t where D: "dll (snx h) (spv h) (slab_head ci w h) (ql ci w) t" using lists_okD(1) [OF ok ci] by blast
  obtain as bs where ab: "ql ci w = as @ p # bs" "p \<notin> set as" using split_list_first [OF p] by blast
  have r: "remove1 p (ql ci w) = as @ bs" using ab by (simp add: remove1_append)
  have L: "length (caches h) = 8" using lists_okD(2) [OF ok ci] .
  note U = dll_unlink [OF D [unfolded ab(1)]]
  have dist: "distinct (as @ p # bs)" using D ab(1) by (simp add: dll_def)
  have pvin: "spv h p = 0 \<or> spv h p \<in> set (ql ci w)" and nxin: "snx h p = 0 \<or> snx h p \<in> set (ql ci w)"
  proof -
    from D ab(1) obtain m where a: "dseg (snx h) (spv h) (slab_head ci w h) 0 as m p" "spv h p = m"
      and b: "dseg (snx h) (spv h) (snx h p) p bs t 0" by (auto simp: dll_def dseg_append)
    show "spv h p = 0 \<or> spv h p \<in> set (ql ci w)" using dseg_last [OF a(1)] a(2) ab(1) by (auto split: if_splits)
    show "snx h p = 0 \<or> snx h p \<in> set (ql ci w)" using dseg_head [OF b] ab(1) by (auto split: list.splits)
  qed
  have np: "spv h p \<noteq> p \<and> snx h p \<noteq> p"
  proof -
    from D ab(1) obtain m where a: "dseg (snx h) (spv h) (slab_head ci w h) 0 as m p" "spv h p = m" "p \<noteq> 0"
      and b: "dseg (snx h) (spv h) (snx h p) p bs t 0" by (auto simp: dll_def dseg_append)
    show ?thesis using dseg_last [OF a(1)] dseg_head [OF b] a(2,3) dist by (auto split: if_splits list.splits)
  qed
  have E: "snx (unlink_slab ci w p h) = unlink_nx (snx h) (spv h) p" "spv (unlink_slab ci w p h) = unlink_pv (snx h) (spv h) p"
    using np by (auto simp: unlink_slab_def unlink_nx_def unlink_pv_def Let_def fun_eq_iff)
  show "length (caches (unlink_slab ci w p h)) = 8" using L by (simp add: unlink_slab_def Let_def)
  have heads: "slab_head cj v (unlink_slab ci w p h) = (if (cj, v) = (ci, w) \<and> spv h p = 0 then snx h p else slab_head cj v h)" for cj v
    using L ci by (auto simp: unlink_slab_def Let_def)
  show "\<exists>t. dll (snx (unlink_slab ci w p h)) (spv (unlink_slab ci w p h)) (slab_head cj v (unlink_slab ci w p h))
      (set_list ci w (remove1 p (ql ci w)) ql cj v) t" if cj: "cj < 8" for cj v
  proof (cases "(cj, v) = (ci, w)")
    case True
    then show ?thesis using U(1) E heads r by auto
  next
    case False
    have "x \<noteq> spv h p \<and> x \<noteq> snx h p" if "x \<in> set (ql cj v)" for x
      using that pvin nxin lists_okD(3) [OF ok ci cj, of w v] False lists_okD(1) [OF ok cj, of v] dll_nonzero by fastforce
    then have "dll (snx (unlink_slab ci w p h)) (spv (unlink_slab ci w p h)) a (ql cj v) t = dll (snx h) (spv h) a (ql cj v) t" for a t
      unfolding E unlink_nx_def unlink_pv_def by (intro dll_cong) auto
    then show ?thesis using False heads lists_okD(1) [OF ok cj, of v] by auto
  qed
  show "set (set_list ci w (remove1 p (ql ci w)) ql cj v) \<inter> set (set_list ci w (remove1 p (ql ci w)) ql ck u) = {}"
    if "cj < 8" "ck < 8" "(cj, v) \<noteq> (ck, u)" for cj v ck u
    using that lists_okD(3) [OF ok that(1,2), of v u] set_remove1_subset [of p "ql ci w"] by (auto simp: set_list_def)
qed


subsection \<open>Runs of pages\<close>

definition free_at :: "page_info list \<Rightarrow> nat \<Rightarrow> bool" where
  "free_at ps i \<longleftrightarrow> i < length ps \<and> pg_type (ps ! i) = PAGE_TYPE_FREE"

definition free_run :: "page_info list \<Rightarrow> nat \<Rightarrow> nat \<Rightarrow> bool" where
  "free_run ps st n \<longleftrightarrow> (\<forall>i. st \<le> i \<and> i < st + n \<longrightarrow> free_at ps i)"

text \<open>The search is at page \<open>i\<close> of \<open>qs\<close>: the \<open>run\<close> pages before it are free, and no longer run ends there.\<close>

lemma find_run_sound:
  "find_run n ps i run st = Some r \<Longrightarrow> ps = drop i qs \<Longrightarrow> i \<le> length qs \<Longrightarrow> run < n \<Longrightarrow> (run > 0 \<Longrightarrow> st + run = i) \<Longrightarrow>
   (run > 0 \<Longrightarrow> free_run qs st run) \<Longrightarrow> free_run qs r n"
proof (induction ps arbitrary: i run st)
  case (Cons p ps)
  have i: "i < length qs" "p = qs ! i" "ps = drop (i + 1) qs"
    using Cons.prems(2,3) by (metis drop_all leI list.discI, metis Cons_nth_drop_Suc drop_all leI list.discI list.inject,
      metis Cons_nth_drop_Suc Suc_eq_plus1 drop_all leI list.discI list.inject)
  show ?case
  proof (cases "pg_type p = PAGE_TYPE_FREE")
    case True
    define st' where "st' = (if run = 0 then i else st)"
    have f: "free_at qs i" using True i by (simp add: free_at_def)
    have r: "free_run qs st' (run + 1)" "st' + (run + 1) = i + 1"
      using Cons.prems(5,6) f by (auto simp: st'_def free_run_def less_Suc_eq)
    show ?thesis
    proof (cases "run + 1 = n")
      case True
      then show ?thesis using Cons.prems(1) \<open>pg_type p = PAGE_TYPE_FREE\<close> r by (simp add: st'_def Let_def)
    next
      case False
      then show ?thesis using Cons.IH [of "i + 1" "run + 1" st'] Cons.prems(1,4) True r i by (simp add: st'_def Let_def)
    qed
  next
    case False
    then show ?thesis using Cons.IH [of "i + 1" 0 st] Cons.prems i by simp
  qed
qed simp

lemma find_run_complete:
  "find_run n ps i run st = None \<Longrightarrow> ps = drop i qs \<Longrightarrow> i \<le> length qs \<Longrightarrow> run < n \<Longrightarrow> run \<le> i \<Longrightarrow> (run = i \<or> \<not> free_at qs (i - run - 1)) \<Longrightarrow>
   r + n > i \<Longrightarrow> \<not> free_run qs r n"
proof (induction ps arbitrary: i run st)
  case Nil
  then have "\<not> free_at qs i" by (simp add: free_at_def)
  then show ?case
  proof (cases "r \<le> i")
    case True
    then show ?thesis using Nil.prems(7) \<open>\<not> free_at qs i\<close> by (auto simp: free_run_def)
  next
    case False
    then show ?thesis using Nil.prems(2,3,4) by (auto simp: free_run_def free_at_def)
  qed
next
  case (Cons p ps)
  have i: "i < length qs" "p = qs ! i" "ps = drop (i + 1) qs"
    using Cons.prems(2,3) by (metis drop_all leI list.discI, metis Cons_nth_drop_Suc drop_all leI list.discI list.inject,
      metis Cons_nth_drop_Suc Suc_eq_plus1 drop_all leI list.discI list.inject)
  show ?case
  proof (cases "pg_type p = PAGE_TYPE_FREE")
    case True
    then have n: "run + 1 < n" using Cons.prems(1,4) by (cases "run + 1 = n") (auto simp: Let_def)
    show ?thesis
    proof (cases "r + n = i + 1")
      case True
      then have "r \<le> i - run - 1" "i - run - 1 < r + n" "run \<noteq> i" using n Cons.prems(5) by auto
      then show ?thesis using Cons.prems(6) by (auto simp: free_run_def)
    next
      case False
      then show ?thesis using Cons.IH [of "i + 1" "run + 1" "if run = 0 then i else st"] Cons.prems True n i by (simp add: Let_def)
    qed
  next
    case False
    then have nf: "\<not> free_at qs i" using i by (simp add: free_at_def)
    show ?thesis
    proof (cases "r \<le> i")
      case True
      then show ?thesis using nf Cons.prems(7) by (auto simp: free_run_def)
    next
      case False
      then show ?thesis using Cons.IH [of "i + 1" 0 st] Cons.prems \<open>pg_type p \<noteq> PAGE_TYPE_FREE\<close> i nf by simp
    qed
  qed
qed

lemma find_run_correct:
  assumes "0 < n"
  shows "find_run n ps 0 0 0 = Some r \<Longrightarrow> free_run ps r n"
    and "find_run n ps 0 0 0 = None \<Longrightarrow> \<not> free_run ps r n"
  using find_run_sound [of n ps 0 0 0 r ps] find_run_complete [of n ps 0 0 0 ps r] assms by auto

lemma mark_pages_nth:
  assumes "st + n \<le> length ps"
  shows "length (mark_pages st n ty ps) = length ps"
    "i < length ps \<Longrightarrow> mark_pages st n ty ps ! i =
       (if st \<le> i \<and> i < st + n then \<lparr>pg_type = ty, pg_count = (if i = st then word_of_nat n else 0)\<rparr> else ps ! i)"
proof -
  let ?f = "\<lambda>j ps. ps[st + j := \<lparr>pg_type = ty, pg_count = (if j = 0 then word_of_nat n else 0)\<rparr>]"
  have l: "length (fold ?f [0..<m] ps) = length ps" for m by (induction m) simp_all
  have "i < length ps \<Longrightarrow> m \<le> n \<Longrightarrow> fold ?f [0..<m] ps ! i =
       (if st \<le> i \<and> i < st + m then \<lparr>pg_type = ty, pg_count = (if i = st then word_of_nat n else 0)\<rparr> else ps ! i)" for m
    using assms by (induction m) (auto simp: nth_list_update l)
  then show "i < length ps \<Longrightarrow> mark_pages st n ty ps ! i =
       (if st \<le> i \<and> i < st + n then \<lparr>pg_type = ty, pg_count = (if i = st then word_of_nat n else 0)\<rparr> else ps ! i)"
    by (simp add: mark_pages_def)
  show "length (mark_pages st n ty ps) = length ps" by (simp add: mark_pages_def l)
qed

text \<open>The pages that \<open>free_pages_backend\<close> frees.\<close>

definition clear_pages :: "nat \<Rightarrow> nat \<Rightarrow> page_info list \<Rightarrow> page_info list" where
  "clear_pages st n ps =
     fold (\<lambda>i ps. if st + i < length ps then ps[st + i := \<lparr>pg_type = PAGE_TYPE_FREE, pg_count = 0\<rparr>] else ps) [0..<n] ps"

lemma clear_pages_nth:
  "length (clear_pages st n ps) = length ps"
  "i < length ps \<Longrightarrow> clear_pages st n ps ! i =
     (if st \<le> i \<and> i < st + n then \<lparr>pg_type = PAGE_TYPE_FREE, pg_count = 0\<rparr> else ps ! i)"
proof -
  let ?f = "\<lambda>i ps. if st + i < length ps then ps[st + i := \<lparr>pg_type = PAGE_TYPE_FREE, pg_count = 0\<rparr>] else ps"
  have l: "length (fold ?f [0..<m] ps) = length ps" for m by (induction m) simp_all
  have "i < length ps \<Longrightarrow> fold ?f [0..<m] ps ! i =
       (if st \<le> i \<and> i < st + m then \<lparr>pg_type = PAGE_TYPE_FREE, pg_count = 0\<rparr> else ps ! i)" for m
    by (induction m) (auto simp: nth_list_update l)
  then show "i < length ps \<Longrightarrow> clear_pages st n ps ! i =
     (if st \<le> i \<and> i < st + n then \<lparr>pg_type = PAGE_TYPE_FREE, pg_count = 0\<rparr> else ps ! i)"
    by (simp add: clear_pages_def)
  show "length (clear_pages st n ps) = length ps" by (simp add: clear_pages_def l)
qed


subsection \<open>The invariant\<close>

abbreviation class_size :: "nat \<Rightarrow> nat" where "class_size ci \<equiv> slab_sizes ! ci"

definition objs :: "nat \<Rightarrow> nat \<Rightarrow> nat set" where
  "objs ci p = {p + HEADER_SIZE + i * class_size ci | i. i < max_objs (class_size ci)}"

lemma class_facts:
  assumes "ci < 8"
  shows "16 \<le> class_size ci" "8 dvd class_size ci" "0 < max_objs (class_size ci)" "max_objs (class_size ci) * class_size ci \<le> 4056"
    "max_objs (class_size ci) < 2 ^ 32"
proof -
  consider "ci = 0" | "ci = 1" | "ci = 2" | "ci = 3" | "ci = 4" | "ci = 5" | "ci = 6" | "ci = 7" using assms by linarith
  then have "16 \<le> class_size ci \<and> 8 dvd class_size ci \<and> 0 < max_objs (class_size ci) \<and>
      max_objs (class_size ci) * class_size ci \<le> 4056 \<and> max_objs (class_size ci) < 2 ^ 32"
    by cases (simp_all add: slab_sizes_def max_objs_def)
  then show "16 \<le> class_size ci" "8 dvd class_size ci" "0 < max_objs (class_size ci)" "max_objs (class_size ci) * class_size ci \<le> 4056"
    "max_objs (class_size ci) < 2 ^ 32" by blast+
qed

lemma objs_bounds:
  assumes "ci < 8" "a \<in> objs ci p"
  shows "p + HEADER_SIZE \<le> a" "a + class_size ci \<le> p + PG" "8 dvd p \<Longrightarrow> 8 dvd a"
proof -
  obtain i where i: "a = p + HEADER_SIZE + i * class_size ci" "i < max_objs (class_size ci)" using assms by (auto simp: objs_def)
  have "Suc i * class_size ci \<le> max_objs (class_size ci) * class_size ci" using i(2) by (intro mult_le_mono1) simp
  then show "p + HEADER_SIZE \<le> a" "a + class_size ci \<le> p + PG" using i class_facts(4) [OF assms(1)] by auto
  show "8 dvd p \<Longrightarrow> 8 dvd a" using i(1) class_facts(2) [OF assms(1)] by (simp add: dvd_add)
qed

lemma objs_apart:
  assumes "a \<in> objs ci p" "b \<in> objs ci p" "a \<noteq> b"
  shows "a + class_size ci \<le> b \<or> b + class_size ci \<le> a"
proof -
  obtain i j where "a = p + HEADER_SIZE + i * class_size ci" "b = p + HEADER_SIZE + j * class_size ci" using assms by (auto simp: objs_def)
  moreover have "Suc i * class_size ci \<le> j * class_size ci \<or> Suc j * class_size ci \<le> i * class_size ci"
  proof (cases "i < j")
    case True
    then show ?thesis using mult_le_mono1 [of "Suc i" j "class_size ci"] by simp
  next
    case False
    then have "j < i" using calculation assms(3) by (cases "i = j") auto
    then show ?thesis using mult_le_mono1 [of "Suc j" i "class_size ci"] by simp
  qed
  ultimately show ?thesis by auto
qed

lemma objs_list:
  assumes "ci < 8"
  shows "set (objs_from (class_size ci) (max_objs (class_size ci) - 1) (p + HEADER_SIZE)) = objs ci p"
    "distinct (objs_from (class_size ci) (max_objs (class_size ci) - 1) (p + HEADER_SIZE))"
    "length (objs_from (class_size ci) (max_objs (class_size ci) - 1) (p + HEADER_SIZE)) = max_objs (class_size ci)"
  using class_facts [OF assms] by (auto simp: objs_from_def objs_def distinct_map inj_on_def simp del: upt_Suc)

lemma pages_apart: "PG dvd p \<Longrightarrow> PG dvd q \<Longrightarrow> p \<noteq> q \<Longrightarrow> p + PG \<le> q \<or> q + PG \<le> p"
proof -
  assume "PG dvd p" "PG dvd q" and ne: "p \<noteq> q"
  then obtain k l where k: "p = PG * k" "q = PG * l" by (elim dvdE)
  then have "k < l \<or> l < k" using ne by auto
  then show ?thesis using k by auto
qed

definition slab_page :: "heap \<Rightarrow> nat \<Rightarrow> bool" where
  "slab_page h p \<longleftrightarrow> (\<exists>i < total_pages h. p = page_idx_to_virt i h \<and> page_metadata h ! i = \<lparr>pg_type = PAGE_TYPE_SLAB, pg_count = 1\<rparr>)"

text \<open>The slab \<open>p\<close> of cache \<open>ci\<close> has the free objects \<open>f\<close>.\<close>

definition slab_wf :: "heap \<Rightarrow> nat \<Rightarrow> nat \<Rightarrow> nat list \<Rightarrow> bool" where
  "slab_wf h ci p f \<longleftrightarrow> slab_page h p \<and> sl_cache (slabs h p) = Some ci \<and> sl_magic (slabs h p) = SLAB_MAGIC \<and>
     chain (mem h) (sl_free (slabs h p)) f \<and> distinct f \<and> set f \<subseteq> objs ci p \<and>
     in_use (slabs h p) = word_of_nat (max_objs (class_size ci) - length f)"

definition run_ok :: "page_info list \<Rightarrow> bool" where
  "run_ok ps \<longleftrightarrow> (\<forall>i < length ps. pg_type (ps ! i) = PAGE_TYPE_LARGE \<longrightarrow> i + unat (pg_count (ps ! i)) \<le> length ps \<and>
     (\<forall>j. i < j \<and> j < i + unat (pg_count (ps ! i)) \<longrightarrow> ps ! j = \<lparr>pg_type = PAGE_TYPE_LARGE, pg_count = 0\<rparr>))"

definition base_ok :: "heap \<Rightarrow> bool" where
  "base_ok h \<longleftrightarrow> map obj_size (caches h) = slab_sizes \<and> map slabs_free (caches h) = replicate 8 0 \<and>
     0 < heap_start_addr h \<and> PG dvd heap_start_addr h \<and> heap_end_addr h = heap_start_addr h + total_pages h * PG \<and>
     heap_end_addr h < 2 ^ 64 \<and> total_pages h < 2 ^ 16 \<and> length (page_metadata h) = total_pages h \<and> run_ok (page_metadata h)"

definition heap_wf :: "heap \<Rightarrow> slab_lists \<Rightarrow> (nat \<Rightarrow> nat list) \<Rightarrow> bool" where
  "heap_wf h ql fr \<longleftrightarrow> base_ok h \<and> lists_ok h ql \<and> (\<forall>ci < 8. \<forall>w. \<forall>p \<in> set (ql ci w). slab_wf h ci p (fr p))"

lemma heap_wfD:
  assumes "heap_wf h ql fr"
  shows "base_ok h" "lists_ok h ql" "ci < 8 \<Longrightarrow> p \<in> set (ql ci w) \<Longrightarrow> slab_wf h ci p (fr p)"
  using assms by (auto simp: heap_wf_def)

lemma base_sizes: "base_ok h \<Longrightarrow> ci < 8 \<Longrightarrow> obj_size (caches h ! ci) = class_size ci \<and> slabs_free (caches h ! ci) = 0"
proof -
  assume b: "base_ok h" and ci: "ci < 8"
  have "length (caches h) = 8" using b by (metis base_ok_def length_map length_replicate)
  then show ?thesis using b ci unfolding base_ok_def by (metis nth_map nth_replicate)
qed

lemma slab_page_aligned: "base_ok h \<Longrightarrow> slab_page h p \<Longrightarrow> PG dvd p \<and> 0 < p \<and> p + PG \<le> heap_end_addr h \<and> heap_start_addr h \<le> p"
proof -
  assume b: "base_ok h" and "slab_page h p"
  then obtain i where i: "i < total_pages h" "p = heap_start_addr h + i * PG" by (auto simp: slab_page_def page_idx_to_virt_def)
  then have "Suc i * PG \<le> total_pages h * PG" by (intro mult_le_mono1) simp
  then show ?thesis using b i(2) by (auto simp: base_ok_def dvd_add)
qed

text \<open>A change of links or of lists leaves the rest of the invariant as it is.\<close>

lemma slab_wf_links: "links_only h h' \<Longrightarrow> slab_wf h' ci p f = slab_wf h ci p f"
  by (simp add: slab_wf_def links_only_def slab_page_def page_idx_to_virt_def)

lemma heap_wf_links:
  assumes "heap_wf h ql fr" "links_only h h'" "lists_ok h' ql'" "\<And>ci w p. ci < 8 \<Longrightarrow> p \<in> set (ql' ci w) \<Longrightarrow> \<exists>v. p \<in> set (ql ci v)"
  shows "heap_wf h' ql' fr"
proof -
  have "base_ok h'" using assms(1,2) by (simp add: heap_wf_def base_ok_def links_only_def)
  then show ?thesis using assms slab_wf_links [OF assms(2)] unfolding heap_wf_def by metis
qed


subsection \<open>The steps of the allocator\<close>

lemma free_length: "ci < 8 \<Longrightarrow> distinct f \<Longrightarrow> set f \<subseteq> objs ci p \<Longrightarrow> length f \<le> max_objs (class_size ci)"
  using objs_list [of ci p] card_mono [of "objs ci p" "set f"] by (metis List.finite_set distinct_card)

lemma slab_page_inj: "page_idx_to_virt i h = page_idx_to_virt j h \<Longrightarrow> i = j"
  by (simp add: page_idx_to_virt_def)

lemma heap_wf_meta:
  assumes wf: "heap_wf h ql fr" and l: "length ps = total_pages h" "run_ok ps"
    and s: "\<And>i. i < total_pages h \<Longrightarrow> page_idx_to_virt i h \<in> all_slabs ql \<Longrightarrow> ps ! i = page_metadata h ! i"
  shows "heap_wf (h\<lparr>page_metadata := ps\<rparr>) ql fr"
proof -
  have "slab_wf (h\<lparr>page_metadata := ps\<rparr>) ci p (fr p)" if "ci < 8" "p \<in> set (ql ci w)" for ci w p
  proof -
    have a: "p \<in> all_slabs ql" using that by (auto simp: all_slabs_def)
    then have "slab_page (h\<lparr>page_metadata := ps\<rparr>) p" using heap_wfD(3) [OF wf that] s
      by (auto simp: slab_wf_def slab_page_def page_idx_to_virt_def)
    then show ?thesis using heap_wfD(3) [OF wf that] by (simp add: slab_wf_def)
  qed
  moreover have "lists_ok (h\<lparr>page_metadata := ps\<rparr>) ql" using heap_wfD(2) [OF wf] by (simp add: lists_ok_def)
  moreover have "base_ok (h\<lparr>page_metadata := ps\<rparr>)" using heap_wfD(1) [OF wf] l by (simp add: base_ok_def)
  ultimately show ?thesis by (simp add: heap_wf_def)
qed

lemma word_count:
  assumes "Suc n \<le> m" "m < 2 ^ 32"
  shows "(word_of_nat (m - Suc n) :: u32) + 1 = word_of_nat (m - n)" "(word_of_nat (m - n) :: u32) - 1 = word_of_nat (m - Suc n)"
proof -
  have "m - n = Suc (m - Suc n)" using assms by simp
  then show "(word_of_nat (m - Suc n) :: u32) + 1 = word_of_nat (m - n)" "(word_of_nat (m - n) :: u32) - 1 = word_of_nat (m - Suc n)"
    by simp_all
qed

lemma lists_ok_fields:
  assumes "lists_ok h ql" "caches h' = caches h" "\<And>q. q \<in> all_slabs ql \<Longrightarrow> snx h' q = snx h q \<and> spv h' q = spv h q"
  shows "lists_ok h' ql"
proof (rule lists_okI)
  show "length (caches h') = 8" using assms by (simp add: lists_ok_def)
  show "\<exists>t. dll (snx h') (spv h') (slab_head ci w h') (ql ci w) t" if ci: "ci < 8" for ci w
  proof -
    have "dll (snx h') (spv h') a (ql ci w) t = dll (snx h) (spv h) a (ql ci w) t" for a t
      using assms(3) ci by (intro dll_cong) (auto simp: all_slabs_def)
    moreover have "slab_head ci w h' = slab_head ci w h" using assms(2) by (simp add: slab_head_def split: slab_list.split)
    ultimately show ?thesis using lists_okD(1) [OF assms(1) ci] by simp
  qed
qed (use lists_okD(3) [OF assms(1)] in blast)

lemma heap_wf_take:
  assumes wf: "heap_wf h ql fr" and p: "ci < 8" "p \<in> set (ql ci w)" and f: "fr p = x # xs"
  shows "fst (take_obj p h) = x" "heap_wf (snd (take_obj p h)) ql (fr(p := xs))" "x \<in> objs ci p" "x \<noteq> 0"
    "sl_free (slabs (snd (take_obj p h)) p) = 0 \<longleftrightarrow> xs = []"
proof -
  note S = heap_wfD(3) [OF wf p, unfolded slab_wf_def f]
  let ?h = "snd (take_obj p h)"
  have x: "sl_free (slabs h p) = x" "chain (mem h) (load64 (mem h) x) xs" "x \<noteq> 0" "x \<in> objs ci p" using S by auto
  then show "fst (take_obj p h) = x" "x \<in> objs ci p" "x \<noteq> 0" by (simp_all add: take_obj_def)
  show "sl_free (slabs ?h p) = 0 \<longleftrightarrow> xs = []" using x by (cases xs) (auto simp: take_obj_def)
  have le: "length (x # xs) \<le> max_objs (class_size ci)" using S free_length [OF p(1)] by blast
  have own: "ci' = ci" if "ci' < 8" "p \<in> set (ql ci' v)" for ci' v
    using heap_wfD(3) [OF wf that] S by (simp add: slab_wf_def)
  have "slab_wf ?h cj q ((fr(p := xs)) q)" if q: "cj < 8" "q \<in> set (ql cj v)" for cj q v
  proof (cases "q = p")
    case True
    then have "cj = ci" using own q by blast
    moreover have "slab_page ?h p = slab_page h p" by (simp add: take_obj_def slab_page_def page_idx_to_virt_def Let_def)
    moreover have "word_of_nat (max_objs (class_size ci) - Suc (length xs)) + 1 = (word_of_nat (max_objs (class_size ci) - length xs) :: u32)"
      using le class_facts(5) [OF p(1)] by (intro word_count) simp_all
    ultimately show ?thesis using S x True by (auto simp: slab_wf_def take_obj_def Let_def)
  next
    case False
    then show ?thesis using heap_wfD(3) [OF wf q] by (simp add: slab_wf_def take_obj_def slab_page_def page_idx_to_virt_def Let_def)
  qed
  moreover have "lists_ok ?h ql" by (rule lists_ok_fields [OF heap_wfD(2) [OF wf]]) (simp_all add: take_obj_def Let_def)
  moreover have "base_ok ?h" using heap_wfD(1) [OF wf] by (simp add: base_ok_def take_obj_def Let_def)
  ultimately show "heap_wf ?h ql (fr(p := xs))" by (simp add: heap_wf_def)
qed

text \<open>Free objects keep their links when memory changes elsewhere.\<close>

lemma chain_frame:
  assumes "ci < 8" "set f \<subseteq> objs ci q" "\<And>x i. x \<in> set f \<Longrightarrow> x \<le> i \<Longrightarrow> i < x + 8 \<Longrightarrow> m' i = m i"
  shows "chain m' a f = chain m a f"
  using assms(3) by (intro chain_cong load64_cong) auto

lemma chain_start: "chain m a f \<Longrightarrow> a = 0 \<or> a \<in> set f"
  by (cases f) auto

lemma heap_wf_put:
  assumes wf: "heap_wf h ql fr" and p: "ci < 8" "p \<in> set (ql ci w)" and x: "x \<in> objs ci p" "x \<notin> set (fr p)"
  shows "heap_wf (put_obj p x h) ql (fr(p := x # fr p))"
    "in_use (slabs (put_obj p x h) p) = word_of_nat (max_objs (class_size ci) - Suc (length (fr p)))"
proof -
  note S = heap_wfD(3) [OF wf p, unfolded slab_wf_def]
  let ?h = "put_obj p x h"
  have al: "PG dvd p" "0 < p" "p + PG \<le> heap_end_addr h" using slab_page_aligned [OF heap_wfD(1) [OF wf]] S by auto
  have end64: "heap_end_addr h < 2 ^ 64" using heap_wfD(1) [OF wf] by (simp add: base_ok_def)
  have le: "Suc (length (fr p)) \<le> max_objs (class_size ci)" using S x free_length [of ci "x # fr p" p] p(1) by auto
  note w = word_count(2) [OF le class_facts(5) [OF p(1)]]
  show "in_use (slabs ?h p) = word_of_nat (max_objs (class_size ci) - Suc (length (fr p)))" using S w by (simp add: put_obj_def)
  have other: "mem ?h i = mem h i" if y: "cj < 8" "q \<in> set (ql cj v)" "y \<in> set (fr q)" "y \<le> i" "i < y + 8" for cj v q y i
  proof -
    note Q = heap_wfD(3) [OF wf y(1,2), unfolded slab_wf_def]
    have "y + 8 \<le> x \<or> x + 8 \<le> y"
    proof (cases "q = p")
      case True
      then have c: "cj = ci" using Q S by simp
      then have "y \<in> objs ci p" "y \<noteq> x" using Q y(3) x True by auto
      then show ?thesis using objs_apart [OF _ x(1), of y] class_facts(1) [OF p(1)] by fastforce
    next
      case False
      have "PG dvd q" using slab_page_aligned [OF heap_wfD(1) [OF wf]] Q by auto
      then have "p + PG \<le> q \<or> q + PG \<le> p" using pages_apart al(1) False by blast
      moreover have "q + 40 \<le> y" "y + class_size cj \<le> q + PG" using objs_bounds [OF y(1)] Q y(3) by blast+
      moreover have "p + 40 \<le> x" "x + class_size ci \<le> p + PG" using objs_bounds [OF p(1) x(1)] by blast+
      ultimately show ?thesis using class_facts(1) [OF y(1)] class_facts(1) [OF p(1)] by linarith
    qed
    then show ?thesis using y(4,5) by (auto simp: put_obj_def intro!: store64_other)
  qed
  have pg: "slab_page ?h q = slab_page h q" for q by (simp add: put_obj_def slab_page_def page_idx_to_virt_def)
  have "slab_wf ?h cj q ((fr(p := x # fr p)) q)" if q: "cj < 8" "q \<in> set (ql cj v)" for cj q v
  proof -
    note Q = heap_wfD(3) [OF wf q, unfolded slab_wf_def]
    have c: "chain (mem ?h) a (fr q) = chain (mem h) a (fr q)" for a
      by (rule chain_frame [OF q(1)]) (use Q other [OF q] in auto)
    show ?thesis
    proof (cases "q = p")
      case True
      then have cc: "cj = ci" using Q S by simp
      have "sl_free (slabs h p) < 2 ^ 64"
        using chain_start [of "mem h" "sl_free (slabs h p)" "fr p"] S objs_bounds(2) [OF p(1), of "sl_free (slabs h p)" p] al(3) end64 by auto
      then have "load64 (mem ?h) x = sl_free (slabs h p)" by (simp add: put_obj_def load_store64)
      moreover have "x \<noteq> 0" using objs_bounds(1) [OF p(1) x(1)] by simp
      ultimately show ?thesis using S x True cc c w pg by (auto simp: slab_wf_def put_obj_def)
    next
      case False
      then show ?thesis using Q c pg by (simp add: slab_wf_def) (simp add: put_obj_def)
    qed
  qed
  moreover have "lists_ok ?h ql" by (rule lists_ok_fields [OF heap_wfD(2) [OF wf]]) (simp_all add: put_obj_def)
  moreover have "base_ok ?h" using heap_wfD(1) [OF wf] by (simp add: base_ok_def put_obj_def)
  ultimately show "heap_wf ?h ql (fr(p := x # fr p))" by (simp add: heap_wf_def)
qed

lemma free_page_not_slab:
  assumes "heap_wf h ql fr" "free_at (page_metadata h) i"
  shows "page_idx_to_virt i h \<notin> all_slabs ql"
  using assms heap_wfD(3) [OF assms(1)] slab_page_inj
  by (fastforce simp: all_slabs_def slab_wf_def slab_page_def free_at_def)

lemma run_okD:
  assumes "run_ok ps" "i < length ps" "pg_type (ps ! i) = PAGE_TYPE_LARGE"
  shows "i + unat (pg_count (ps ! i)) \<le> length ps"
    "i < j \<Longrightarrow> j < i + unat (pg_count (ps ! i)) \<Longrightarrow> ps ! j = \<lparr>pg_type = PAGE_TYPE_LARGE, pg_count = 0\<rparr>"
  using assms unfolding run_ok_def by blast+

lemma run_okI:
  assumes "\<And>i. i < length ps \<Longrightarrow> pg_type (ps ! i) = PAGE_TYPE_LARGE \<Longrightarrow> i + unat (pg_count (ps ! i)) \<le> length ps"
    and "\<And>i j. i < length ps \<Longrightarrow> pg_type (ps ! i) = PAGE_TYPE_LARGE \<Longrightarrow> i < j \<Longrightarrow> j < i + unat (pg_count (ps ! i)) \<Longrightarrow>
      ps ! j = \<lparr>pg_type = PAGE_TYPE_LARGE, pg_count = 0\<rparr>"
  shows "run_ok ps"
  using assms unfolding run_ok_def by blast

lemma run_ok_mark:
  assumes ok: "run_ok ps" and f: "free_run ps st n" "0 < n" and c: "n < 2 ^ 16"
    and ty: "ty = PAGE_TYPE_LARGE \<or> ty = PAGE_TYPE_SLAB \<and> n = 1"
  shows "st + n \<le> length ps" "run_ok (mark_pages st n ty ps)"
proof -
  have "free_at ps (st + n - 1)" using f by (auto simp: free_run_def)
  then have "st + n - 1 < length ps" by (simp add: free_at_def)
  then show le: "st + n \<le> length ps" using f(2) by linarith
  let ?qs = "mark_pages st n ty ps"
  have L: "length ?qs = length ps" using mark_pages_nth(1) [OF le] .
  have inside: "?qs ! i = \<lparr>pg_type = ty, pg_count = (if i = st then word_of_nat n else 0)\<rparr>" if "st \<le> i" "i < st + n" for i
    using mark_pages_nth(2) [OF le, of i ty] that le by simp
  have outside: "?qs ! i = ps ! i" if "i < length ps" "\<not> (st \<le> i \<and> i < st + n)" for i
    using mark_pages_nth(2) [OF le that(1), of ty] that(2) by (simp only: if_False)
  have fr: "pg_type (ps ! i) = PAGE_TYPE_FREE" if "st \<le> i" "i < st + n" for i using f that by (simp add: free_run_def free_at_def)
  have u: "unat (word_of_nat n :: u16) = n" using c by (simp add: unat_of_nat)
  show "run_ok ?qs"
  proof (rule run_okI; unfold L)
    fix i assume i: "i < length ps" "pg_type (?qs ! i) = PAGE_TYPE_LARGE"
    show "i + unat (pg_count (?qs ! i)) \<le> length ps"
    proof (cases "st \<le> i \<and> i < st + n")
      case True
      then show ?thesis using inside [of i] le u by (cases "i = st") auto
    next
      case False
      then show ?thesis using outside [OF i(1) False] run_okD(1) [OF ok i(1)] i(2) by simp
    qed
    fix j assume j: "i < j" "j < i + unat (pg_count (?qs ! i))"
    show "?qs ! j = \<lparr>pg_type = PAGE_TYPE_LARGE, pg_count = 0\<rparr>"
    proof (cases "st \<le> i \<and> i < st + n")
      case True
      then have "i = st" "ty = PAGE_TYPE_LARGE" using inside [of i] j i(2) by (auto split: if_splits)
      then show ?thesis using inside [of j] inside [of st] u j True by simp
    next
      case False
      note o = outside [OF i(1) False]
      have pj: "ps ! j = \<lparr>pg_type = PAGE_TYPE_LARGE, pg_count = 0\<rparr>" "j < length ps"
        using run_okD [OF ok i(1)] i(2) j unfolding o by auto
      then have "\<not> (st \<le> j \<and> j < st + n)" using fr [of j] by auto
      then show ?thesis using outside [OF pj(2)] pj(1) by simp
    qed
  qed
qed

lemma run_ok_clear:
  assumes ok: "run_ok ps" and st: "st < length ps" "0 < unat (pg_count (ps ! st))"
  shows "run_ok (clear_pages st n ps)"
proof (rule run_okI; unfold clear_pages_nth(1))
  fix i assume i: "i < length ps" "pg_type (clear_pages st n ps ! i) = PAGE_TYPE_LARGE"
  then have out: "\<not> (st \<le> i \<and> i < st + n)" using clear_pages_nth(2) [OF i(1), of st n] by auto
  then have o: "clear_pages st n ps ! i = ps ! i" using clear_pages_nth(2) [OF i(1), of st n] by (simp only: if_False)
  show "i + unat (pg_count (clear_pages st n ps ! i)) \<le> length ps" using run_okD(1) [OF ok i(1)] i(2) o by simp
  fix j assume j: "i < j" "j < i + unat (pg_count (clear_pages st n ps ! i))"
  have pj: "ps ! j = \<lparr>pg_type = PAGE_TYPE_LARGE, pg_count = 0\<rparr>" "j < length ps"
    using run_okD [OF ok i(1)] i(2) j unfolding o by auto
  have "\<not> (st \<le> j \<and> j < st + n)"
  proof
    assume a: "st \<le> j \<and> j < st + n"
    then have "i < st" using out j(1) by linarith
    then have "ps ! st = \<lparr>pg_type = PAGE_TYPE_LARGE, pg_count = 0\<rparr>" using run_okD(2) [OF ok i(1), of st] i(2) a j(2) unfolding o by auto
    then show False using st(2) by simp
  qed
  then show "clear_pages st n ps ! j = \<lparr>pg_type = PAGE_TYPE_LARGE, pg_count = 0\<rparr>"
    using clear_pages_nth(2) [OF pj(2), of st n] pj(1) by simp
qed

lemma free_backend:
  assumes b: "base_ok h" and i: "i < total_pages h"
  shows "free_pages_backend (page_idx_to_virt i h) h = h\<lparr>page_metadata := clear_pages i (unat (pg_count (page_metadata h ! i))) (page_metadata h)\<rparr>"
proof -
  have "Suc i * PG \<le> total_pages h * PG" using i by (intro mult_le_mono1) simp
  then have v: "virt_to_page_idx (page_idx_to_virt i h) h = Some i"
    using b by (simp add: virt_to_page_idx_def page_idx_to_virt_def base_ok_def)
  have e: "fold (\<lambda>k ps. if i + k < total_pages h then ps[i + k := z] else ps) [0..<n] ps =
      fold (\<lambda>k ps. if i + k < length ps then ps[i + k := z] else ps) [0..<n] ps" if l: "length ps = total_pages h" for n z ps
  proof (induction n)
    case (Suc n)
    have "length (fold (\<lambda>k ps. if i + k < length ps then ps[i + k := z] else ps) [0..<m] ps) = total_pages h" for m
      using l by (induction m) simp_all
    then show ?case using Suc by simp
  qed simp
  have "length (page_metadata h) = total_pages h" using b by (simp add: base_ok_def)
  note e = e [OF this, of "\<lparr>pg_type = PAGE_TYPE_FREE, pg_count = 0\<rparr>" "unat (pg_count (page_metadata h ! i))"]
  have "\<not> total_pages h \<le> i" using i by simp
  then show ?thesis
    by (simp only: v free_pages_backend_def clear_pages_def Let_def e option.case if_False)
qed

lemma heap_wf_free_slab:
  assumes wf: "heap_wf h ql fr" and p: "slab_page h p" "p \<notin> all_slabs ql"
  shows "heap_wf (free_pages_backend p h) ql fr" "mem (free_pages_backend p h) = mem h"
proof -
  obtain i where i: "i < total_pages h" "p = page_idx_to_virt i h" "page_metadata h ! i = \<lparr>pg_type = PAGE_TYPE_SLAB, pg_count = 1\<rparr>"
    using p(1) by (auto simp: slab_page_def)
  have b: "base_ok h" using heap_wfD(1) [OF wf] .
  have l: "length (page_metadata h) = total_pages h" "run_ok (page_metadata h)" using b by (simp_all add: base_ok_def)
  note E = free_backend [OF b i(1), folded i(2)]
  show "mem (free_pages_backend p h) = mem h" using E by simp
  show "heap_wf (free_pages_backend p h) ql fr" unfolding E
  proof (rule heap_wf_meta [OF wf])
    show "run_ok (clear_pages i (unat (pg_count (page_metadata h ! i))) (page_metadata h))"
      using run_ok_clear [OF l(2), of i] i l(1) by simp
    show "clear_pages i (unat (pg_count (page_metadata h ! i))) (page_metadata h) ! j = page_metadata h ! j"
      if "j < total_pages h" "page_idx_to_virt j h \<in> all_slabs ql" for j
    proof -
      have "j \<noteq> i" using that(2) p(2) i(2) by auto
      then show ?thesis using clear_pages_nth(2) [of j "page_metadata h" i "unat (pg_count (page_metadata h ! i))"] that(1) l(1) i(3) by auto
    qed
  qed (simp add: clear_pages_nth l)
qed


lemma in_set_list: "p \<in> set (set_list ci w xs ql cj v) \<Longrightarrow> p \<in> set xs \<or> p \<in> set (ql cj v)"
  by (auto simp: set_list_def split: if_splits)

lemma heap_wf_new:
  assumes wf: "heap_wf h ql fr" and ci: "ci < 8" and st: "free_at (page_metadata h) st"
    and h1: "h1 = h\<lparr>page_metadata := mark_pages st 1 PAGE_TYPE_SLAB (page_metadata h)\<rparr>"
    and p: "p = page_idx_to_virt st h" and h2: "h2 = push_slab ci Partial p (slab_init_page p ci h1)"
    and fl: "fl = objs_from (class_size ci) (max_objs (class_size ci) - 1) (p + HEADER_SIZE)"
  shows "heap_wf h2 (set_list ci Partial (p # ql ci Partial) ql) (fr(p := fl))" "p \<notin> all_slabs ql" "0 < p"
    "page_metadata h2 = page_metadata h1" "\<And>i. i < p + HEADER_SIZE \<or> p + PG \<le> i \<Longrightarrow> mem h2 i = mem h i"
proof -
  have b: "base_ok h" using heap_wfD(1) [OF wf] .
  have l: "length (page_metadata h) = total_pages h" "run_ok (page_metadata h)" using b by (simp_all add: base_ok_def)
  have fr1: "free_run (page_metadata h) st 1" using st by (auto simp: free_run_def le_less_Suc_eq)
  have le: "st + 1 \<le> length (page_metadata h)" using st by (simp add: free_at_def)
  note M = mark_pages_nth [OF le]
  show np: "p \<notin> all_slabs ql" using free_page_not_slab [OF wf st] p by simp
  have wf1: "heap_wf h1 ql fr" unfolding h1
  proof (rule heap_wf_meta [OF wf])
    show "mark_pages st 1 PAGE_TYPE_SLAB (page_metadata h) ! i = page_metadata h ! i"
      if "i < total_pages h" "page_idx_to_virt i h \<in> all_slabs ql" for i
      using M(2) [of i PAGE_TYPE_SLAB] that np p l(1) by (auto simp: le_less_Suc_eq)
    show "run_ok (mark_pages st 1 PAGE_TYPE_SLAB (page_metadata h))" using run_ok_mark(2) [OF l(2) fr1] by simp
  qed (simp only: M(1) l(1))
  have b1: "base_ok h1" using heap_wfD(1) [OF wf1] .
  have pg: "slab_page h1 p" using M(2) [of st PAGE_TYPE_SLAB] le l(1) by (auto simp del: One_nat_def simp: slab_page_def h1 p page_idx_to_virt_def intro!: exI [of _ st])
  have al: "PG dvd p" "0 < p" "p + PG \<le> heap_end_addr h1" using slab_page_aligned [OF b1 pg] by auto
  show "0 < p" using al by simp
  have end64: "heap_end_addr h1 < 2 ^ 64" using b1 by (simp add: base_ok_def)
  have "8 dvd p" using al(1) dvd_trans [of 8 PG p] by simp
  then have au: "align_up (p + HEADER_SIZE) 8 = p + HEADER_SIZE" by (elim dvdE) (simp add: align_up_def)
  let ?sz = "class_size ci" and ?n = "max_objs (class_size ci)"
  note C = class_facts [OF ci]
  define hi where "hi = slab_init_page p ci h1"
  have hi: "hi = h1\<lparr>slabs := (slabs h1)(p := \<lparr>sl_next = 0, sl_prev = 0, sl_cache = Some ci, sl_free = p + HEADER_SIZE, in_use = 0,
      sl_magic = SLAB_MAGIC\<rparr>), mem := init_links ?sz (?n - 1) (p + HEADER_SIZE) (mem h1)\<rparr>"
    using base_sizes [OF b1 ci] by (simp add: hi_def slab_init_page_def au max_objs_def Let_def)
  have sum: "(?n - 1) * ?sz + ?sz = ?n * ?sz" using C(3) by (cases ?n) simp_all
  have mi: "mem hi i = mem h i" if "i < p + HEADER_SIZE \<or> p + PG \<le> i" for i
  proof (cases "i < p + HEADER_SIZE")
    case True
    then show ?thesis using init_links_before [of i "p + HEADER_SIZE" ?sz "?n - 1" "mem h1"] by (simp add: hi h1)
  next
    case False
    then have "p + HEADER_SIZE + (?n - 1) * ?sz + 8 \<le> i" using that sum C(1,4) by linarith
    then show ?thesis using init_links_after [of ?sz "p + HEADER_SIZE" "?n - 1" i "mem h1"] C(1) by (simp add: hi h1)
  qed
  have new: "slab_wf hi ci p fl"
  proof -
    have "chain (mem hi) (p + HEADER_SIZE) fl" unfolding fl
      using chain_init_links [of ?sz "p + HEADER_SIZE" "?n - 1"] C(1,4) sum al(2,3) end64 by (simp add: hi)
    moreover have "slab_page hi p" using pg by (simp add: hi slab_page_def page_idx_to_virt_def)
    ultimately show ?thesis using objs_list [OF ci, of p] by (simp add: slab_wf_def hi fl)
  qed
  have old: "slab_wf hi cj q (fr q)" if q: "cj < 8" "q \<in> set (ql cj v)" for cj q v
  proof -
    note Q = heap_wfD(3) [OF wf1 q, unfolded slab_wf_def]
    have ne: "q \<noteq> p" using q np by (auto simp: all_slabs_def)
    then have "p + PG \<le> q \<or> q + PG \<le> p" using pages_apart al(1) slab_page_aligned [OF b1] Q by blast
    then have "mem hi i = mem h1 i" if "x \<in> set (fr q)" "x \<le> i" "i < x + 8" for x i
      using mi [of i] objs_bounds [OF q(1), of x q] Q that class_facts(1) [OF q(1)] by (fastforce simp: h1)
    then have "chain (mem hi) a (fr q) = chain (mem h1) a (fr q)" for a using Q by (intro chain_frame [OF q(1)]) auto
    then show ?thesis using Q ne by (simp add: slab_wf_def) (simp add: hi slab_page_def page_idx_to_virt_def)
  qed
  have bi: "base_ok hi" using b1 by (simp add: hi base_ok_def)
  have li: "lists_ok hi ql" using np by (intro lists_ok_fields [OF heap_wfD(2) [OF wf1]]) (auto simp: hi)
  have lk: "links_only hi h2" using push_links_only h2 hi_def by simp
  have "lists_ok h2 (set_list ci Partial (p # ql ci Partial) ql)" using lists_ok_push [OF li ci _ np] al(2) h2 hi_def by simp
  moreover have "base_ok h2" using bi lk by (simp add: base_ok_def links_only_def)
  moreover have "slab_wf h2 cj q ((fr(p := fl)) q)" if q: "cj < 8" "q \<in> set (set_list ci Partial (p # ql ci Partial) ql cj v)" for cj q v
  proof (cases "q = p")
    case True
    then have "cj = ci" using q np by (auto simp: set_list_def all_slabs_def split: if_splits)
    then show ?thesis using new True slab_wf_links [OF lk] by simp
  next
    case False
    then have "q \<in> set (ql cj v)" using q(2) by (auto simp: set_list_def split: if_splits)
    then show ?thesis using old [OF q(1)] False slab_wf_links [OF lk] by simp
  qed
  ultimately show "heap_wf h2 (set_list ci Partial (p # ql ci Partial) ql) (fr(p := fl))" by (simp add: heap_wf_def)
  have "mem h2 = mem hi" "page_metadata h2 = page_metadata hi" using lk by (simp_all add: links_only_def)
  then show "page_metadata h2 = page_metadata h1" "\<And>i. i < p + HEADER_SIZE \<or> p + PG \<le> i \<Longrightarrow> mem h2 i = mem h i"
    using mi by (simp_all add: hi)
qed

subsection \<open>The blocks in use\<close>

definition slab_blocks :: "slab_lists \<Rightarrow> (nat \<Rightarrow> nat list) \<Rightarrow> (nat \<times> nat) set" where
  "slab_blocks ql fr = {(a, class_size ci) | a ci. ci < 8 \<and> (\<exists>w. \<exists>p \<in> set (ql ci w). a \<in> objs ci p \<and> a \<notin> set (fr p))}"

definition large_blocks :: "heap \<Rightarrow> (nat \<times> nat) set" where
  "large_blocks h = {(page_idx_to_virt i h, unat (pg_count (page_metadata h ! i)) * PG) | i.
     i < total_pages h \<and> pg_type (page_metadata h ! i) = PAGE_TYPE_LARGE \<and> pg_count (page_metadata h ! i) \<noteq> 0}"

text \<open>A slab is on the full list exactly if it has no free object, and no slab is entirely free.\<close>

definition placed :: "slab_lists \<Rightarrow> (nat \<Rightarrow> nat list) \<Rightarrow> bool" where
  "placed ql fr \<longleftrightarrow> (\<forall>ci < 8. \<forall>w. \<forall>p \<in> set (ql ci w). (fr p = [] \<longleftrightarrow> w = Full) \<and> length (fr p) < max_objs (class_size ci))"

text \<open>\<open>heap_inv h M\<close>: the heap is well formed and the marked blocks, with their sizes, are \<open>M\<close>: the blocks in use and the pages of the
  page table, which \<open>heap_init\<close> marks as runs of one page each.\<close>

definition heap_inv :: "heap \<Rightarrow> (nat \<times> nat) set \<Rightarrow> bool" where
  "heap_inv h L \<longleftrightarrow> (\<exists>ql fr. heap_wf h ql fr \<and> placed ql fr \<and> L = slab_blocks ql fr \<union> large_blocks h)"

lemma slab_blocks_move:
  "(\<And>ci p. ci < 8 \<Longrightarrow> (\<exists>w. p \<in> set (ql' ci w)) = (\<exists>w. p \<in> set (ql ci w))) \<Longrightarrow> slab_blocks ql' fr = slab_blocks ql fr"
  unfolding slab_blocks_def by (intro Collect_cong) blast

lemma slab_owner:
  assumes "heap_wf h ql fr" "ci < 8" "p \<in> set (ql ci w)" "cj < 8" "p \<in> set (ql cj v)"
  shows "cj = ci" "v = w"
proof -
  show "cj = ci" using heap_wfD(3) [OF assms(1,2,3)] heap_wfD(3) [OF assms(1,4,5)] by (simp add: slab_wf_def)
  then show "v = w" using lists_okD(3) [OF heap_wfD(2) [OF assms(1)] assms(2,4), of w v] assms by blast
qed


lemma obj_page:
  assumes wf: "heap_wf h ql fr" and p: "ci < 8" "p \<in> set (ql ci w)" and x: "x \<in> objs ci p"
  shows "x div PG * PG = p"
proof -
  have "PG dvd p" using slab_page_aligned [OF heap_wfD(1) [OF wf]] heap_wfD(3) [OF wf p] by (simp add: slab_wf_def)
  then obtain k where k: "p = PG * k" by (elim dvdE)
  have "p \<le> x" "x < p + PG" using objs_bounds [OF p(1) x] class_facts(1) [OF p(1)] by linarith+
  then have "x div PG = k" unfolding k by (intro div_nat_eqI) simp_all
  then show ?thesis using k by simp
qed

lemma slab_blocks_iff:
  assumes wf: "heap_wf h ql fr" and p: "ci < 8" "p \<in> set (ql ci w)" and x: "x \<in> objs ci p" and same: "\<And>q. q \<noteq> p \<Longrightarrow> fr' q = fr q"
  shows "(x, n) \<in> slab_blocks ql fr' \<longleftrightarrow> n = class_size ci \<and> x \<notin> set (fr' p)"
proof -
  have "q = p \<and> cj = ci" if "cj < 8" "q \<in> set (ql cj v)" "x \<in> objs cj q" for cj q v
    using obj_page [OF wf p x] obj_page [OF wf that] slab_owner [OF wf p, of cj v] that by auto
  then show ?thesis using p x unfolding slab_blocks_def by blast
qed

lemma slab_blocks_other:
  assumes "\<And>q. q \<noteq> p \<Longrightarrow> fr' q = fr q" "\<And>y. y \<noteq> x \<Longrightarrow> y \<in> set (fr' p) \<longleftrightarrow> y \<in> set (fr p)" "a \<noteq> x"
  shows "(a, n) \<in> slab_blocks ql fr' \<longleftrightarrow> (a, n) \<in> slab_blocks ql fr"
proof -
  have "a \<in> set (fr' q) \<longleftrightarrow> a \<in> set (fr q)" for q using assms by (cases "q = p") auto
  then show ?thesis unfolding slab_blocks_def by simp
qed

lemma slab_blocks_take:
  assumes wf: "heap_wf h ql fr" and p: "ci < 8" "p \<in> set (ql ci w)" and f: "fr p = x # xs"
  shows "slab_blocks ql (fr(p := xs)) = insert (x, class_size ci) (slab_blocks ql fr)" "(x, n) \<notin> slab_blocks ql fr"
proof -
  have x: "x \<in> objs ci p" "x \<notin> set xs" using heap_wfD(3) [OF wf p] f by (auto simp: slab_wf_def)
  show "(x, n) \<notin> slab_blocks ql fr" using slab_blocks_iff [OF wf p x(1), of fr] f by simp
  show "slab_blocks ql (fr(p := xs)) = insert (x, class_size ci) (slab_blocks ql fr)"
  proof (rule set_eqI)
    fix b :: "nat \<times> nat"
    obtain a n where b: "b = (a, n)" by (cases b)
    show "b \<in> slab_blocks ql (fr(p := xs)) \<longleftrightarrow> b \<in> insert (x, class_size ci) (slab_blocks ql fr)"
    proof (cases "a = x")
      case True
      then show ?thesis using slab_blocks_iff [OF wf p x(1), of "fr(p := xs)"] slab_blocks_iff [OF wf p x(1), of fr] x b f by auto
    next
      case False
      then show ?thesis using slab_blocks_other [of p "fr(p := xs)" fr x a n] b f by auto
    qed
  qed
qed

lemma slab_blocks_put:
  assumes wf: "heap_wf h ql fr" and p: "ci < 8" "p \<in> set (ql ci w)" and x: "x \<in> objs ci p"
  shows "slab_blocks ql (fr(p := x # fr p)) = slab_blocks ql fr - {(x, class_size ci)}"
proof (rule set_eqI)
  fix b :: "nat \<times> nat"
  obtain a n where b: "b = (a, n)" by (cases b)
  show "b \<in> slab_blocks ql (fr(p := x # fr p)) \<longleftrightarrow> b \<in> slab_blocks ql fr - {(x, class_size ci)}"
  proof (cases "a = x")
    case True
    then show ?thesis using slab_blocks_iff [OF wf p x, of "fr(p := x # fr p)"] slab_blocks_iff [OF wf p x, of fr] b by auto
  next
    case False
    then show ?thesis using slab_blocks_other [of p "fr(p := x # fr p)" fr x a n] b by auto
  qed
qed

text \<open>Moving a slab from one list of its cache to the front of the other.\<close>

lemma move_slab:
  assumes wf: "heap_wf h ql fr" and p: "ci < 8" "p \<in> set (ql ci w)" and v: "v \<noteq> w"
    and h': "h' = push_slab ci v p (unlink_slab ci w p h)" and ql': "ql' = set_list ci v (p # ql ci v) (set_list ci w (remove1 p (ql ci w)) ql)"
  shows "heap_wf h' ql' fr" "slab_blocks ql' fr' = slab_blocks ql fr'" "links_only h h'"
    "\<And>cj u q. cj < 8 \<Longrightarrow> q \<in> set (ql' cj u) \<Longrightarrow> q = p \<and> u = v \<and> cj = ci \<or> q \<noteq> p \<and> q \<in> set (ql cj u)"
proof -
  let ?q = "set_list ci w (remove1 p (ql ci w)) ql"
  have dist: "distinct (ql ci w)" using lists_okD(1) [OF heap_wfD(2) [OF wf] p(1), of w] by (auto simp: dll_def)
  have np: "p \<notin> all_slabs ?q"
    using slab_owner [OF wf p] dist by (auto simp: all_slabs_def set_list_def split: if_splits)
  have p0: "p \<noteq> 0" using slab_page_aligned [OF heap_wfD(1) [OF wf]] heap_wfD(3) [OF wf p] by (auto simp: slab_wf_def)
  have l: "lists_ok (unlink_slab ci w p h) ?q" using lists_ok_unlink [OF heap_wfD(2) [OF wf] p] .
  have l': "lists_ok h' ql'" using lists_ok_push [OF l p(1) p0 np, of v] v by (simp add: h' ql' set_list_def)
  show lk: "links_only h h'" unfolding h' using links_only_trans [OF unlink_links_only push_links_only] .
  show mem': "q = p \<and> u = v \<and> cj = ci \<or> q \<noteq> p \<and> q \<in> set (ql cj u)" if "cj < 8" "q \<in> set (ql' cj u)" for cj u q
  proof (cases "q = p")
    case True
    then have "\<not> q \<in> set (?q cj u)" using np that(1) by (auto simp: all_slabs_def)
    then show ?thesis using that True by (auto simp: ql' set_list_def split: if_splits)
  next
    case False
    then show ?thesis using that notin_set_remove1 [of q "ql ci w" p] by (auto simp: ql' set_list_def split: if_splits)
  qed
  show "heap_wf h' ql' fr" using heap_wf_links [OF wf lk l'] mem' p by blast
  have "q \<in> set (ql cj u) \<Longrightarrow> cj < 8 \<Longrightarrow> \<exists>u. q \<in> set (ql' cj u)" for q cj u
  proof (cases "q = p")
    case True
    assume "q \<in> set (ql cj u)" "cj < 8"
    then have "cj = ci" using slab_owner [OF wf p] True by blast
    then show ?thesis using True by (intro exI [of _ v]) (simp add: ql')
  next
    case False
    assume "q \<in> set (ql cj u)" "cj < 8"
    then show ?thesis using False v in_set_remove1 [of q p "ql ci w"] by (intro exI [of _ u]) (auto simp: ql' set_list_def)
  qed
  then show "slab_blocks ql' fr' = slab_blocks ql fr'" using mem' p by (intro slab_blocks_move) blast
qed

text \<open>The allocation from a slab with a free object; all other slabs are on the right lists.\<close>

lemma alloc_from:
  assumes wf: "heap_wf h ql fr" and p: "ci < 8" "p \<in> set (ql ci Partial)" and f: "fr p = x # xs"
    and pl: "\<And>cj w q. cj < 8 \<Longrightarrow> q \<in> set (ql cj w) \<Longrightarrow> q \<noteq> p \<Longrightarrow> (fr q = [] \<longleftrightarrow> w = Full) \<and> length (fr q) < max_objs (class_size cj)"
    and e: "take_obj p h = (a, h1)" "h2 = (if sl_free (slabs h1 p) = 0 then push_slab ci Full p (unlink_slab ci Partial p h1) else h1)"
  shows "a = x" "a \<noteq> 0" "heap_inv h2 (insert (a, class_size ci) (slab_blocks ql fr \<union> large_blocks h))" "(a, n) \<notin> slab_blocks ql fr" "mem h2 = mem h"
proof -
  note T = heap_wf_take [OF wf p f, unfolded e(1) fst_conv snd_conv]
  show "a = x" "a \<noteq> 0" using T by auto
  show "(a, n) \<notin> slab_blocks ql fr" using slab_blocks_take(2) [OF wf p f] T(1) by simp
  have m1: "mem h1 = mem h" "large_blocks h1 = large_blocks h"
    using e(1) by (auto simp: take_obj_def Let_def large_blocks_def page_idx_to_virt_def)
  have len: "length xs < max_objs (class_size ci)"
    using free_length [OF p(1), of "fr p" p] heap_wfD(3) [OF wf p] f by (simp add: slab_wf_def)
  let ?fr = "fr(p := xs)"
  have L: "slab_blocks ql ?fr = insert (a, class_size ci) (slab_blocks ql fr)" using slab_blocks_take(1) [OF wf p f] T(1) by simp
  have "heap_inv h2 (insert (a, class_size ci) (slab_blocks ql fr \<union> large_blocks h)) \<and> mem h2 = mem h"
  proof (cases "xs = []")
    case False
    then have h2: "h2 = h1" using T(5) e(2) by simp
    have "placed ql ?fr" unfolding placed_def
    proof (intro allI impI ballI)
      fix cj w q assume q: "cj < 8" "q \<in> set (ql cj w)"
      show "(?fr q = [] \<longleftrightarrow> w = Full) \<and> length (?fr q) < max_objs (class_size cj)"
      proof (cases "q = p")
        case True
        then show ?thesis using slab_owner [OF wf p, of cj w] q False len by simp
      qed (use pl [OF q] in simp)
    qed
    then show ?thesis using T(2) L m1 h2 unfolding heap_inv_def by (intro conjI exI [of _ ql] exI [of _ ?fr]) auto
  next
    case True
    then have h2: "h2 = push_slab ci Full p (unlink_slab ci Partial p h1)" using T(5) e(2) by simp
    define ql' where "ql' = set_list ci Full (p # ql ci Full) (set_list ci Partial (remove1 p (ql ci Partial)) ql)"
    note M = move_slab [OF T(2) p _ h2 ql'_def, simplified]
    have "placed ql' ?fr" unfolding placed_def
    proof (intro allI impI ballI)
      fix cj w q assume q: "cj < 8" "q \<in> set (ql' cj w)"
      from M(4) [OF q] show "(?fr q = [] \<longleftrightarrow> w = Full) \<and> length (?fr q) < max_objs (class_size cj)"
        using True class_facts(3) [OF p(1)] pl [of cj q w] q(1) by auto
    qed
    moreover have "large_blocks h2 = large_blocks h1" "mem h2 = mem h1"
      using M(3) by (simp_all add: links_only_def large_blocks_def page_idx_to_virt_def)
    ultimately show ?thesis using M(1) M(2) [of ?fr] L m1 unfolding heap_inv_def
      by (intro conjI exI [of _ ql'] exI [of _ ?fr]) auto
  qed
  then show "heap_inv h2 (insert (a, class_size ci) (slab_blocks ql fr \<union> large_blocks h))" "mem h2 = mem h" by blast+
qed


text \<open>Every byte of a block in use lies in a page that is not free.\<close>

lemma large_page:
  assumes wf: "heap_wf h ql fr" and b: "(a, n) \<in> large_blocks h" and i: "a \<le> i" "i < a + n"
  shows "\<exists>k < total_pages h. pg_type (page_metadata h ! k) = PAGE_TYPE_LARGE \<and> page_idx_to_virt k h \<le> i \<and> i < page_idx_to_virt k h + PG"
proof -
  obtain k where k: "k < total_pages h" "a = page_idx_to_virt k h" "n = unat (pg_count (page_metadata h ! k)) * PG"
    "pg_type (page_metadata h ! k) = PAGE_TYPE_LARGE" using b by (auto simp: large_blocks_def)
  have ok: "run_ok (page_metadata h)" "length (page_metadata h) = total_pages h" using heap_wfD(1) [OF wf] by (simp_all add: base_ok_def)
  define j where "j = (i - a) div PG"
  have j: "j < unat (pg_count (page_metadata h ! k))" using i k(3) by (simp add: j_def less_mult_imp_div_less)
  have R: "k + unat (pg_count (page_metadata h ! k)) \<le> total_pages h" using run_okD(1) [OF ok(1), of k] k ok(2) by simp
  have "pg_type (page_metadata h ! (k + j)) = PAGE_TYPE_LARGE"
    using run_okD(2) [OF ok(1), of k "k + j"] k j ok(2) by (cases "j = 0") auto
  moreover have "page_idx_to_virt (k + j) h = a + j * PG" by (simp add: k(2) page_idx_to_virt_def algebra_simps)
  moreover have "a + j * PG \<le> i" "i < a + j * PG + PG"
    using i div_mult_mod_eq [of "i - a" PG] mod_less_divisor [of PG "i - a"] unfolding j_def by linarith+
  ultimately show ?thesis using j R by (intro exI [of _ "k + j"]) simp
qed

lemma block_pages:
  assumes wf: "heap_wf h ql fr" and b: "(a, n) \<in> slab_blocks ql fr \<union> large_blocks h" and i: "a \<le> i" "i < a + n"
  shows "\<exists>k < total_pages h. pg_type (page_metadata h ! k) \<noteq> PAGE_TYPE_FREE \<and> page_idx_to_virt k h \<le> i \<and> i < page_idx_to_virt k h + PG"
  using b
proof
  assume "(a, n) \<in> slab_blocks ql fr"
  then obtain ci w p where p: "ci < 8" "p \<in> set (ql ci w)" "a \<in> objs ci p" "n = class_size ci" by (auto simp: slab_blocks_def)
  obtain k where k: "k < total_pages h" "p = page_idx_to_virt k h" "page_metadata h ! k = \<lparr>pg_type = PAGE_TYPE_SLAB, pg_count = 1\<rparr>"
    using heap_wfD(3) [OF wf p(1,2)] by (auto simp: slab_wf_def slab_page_def)
  have "p \<le> i" "i < p + PG" using objs_bounds [OF p(1,3)] i p(4) by linarith+
  then show ?thesis using k by (intro exI [of _ k]) simp
next
  assume "(a, n) \<in> large_blocks h"
  then obtain k where "k < total_pages h" "pg_type (page_metadata h ! k) = PAGE_TYPE_LARGE" "page_idx_to_virt k h \<le> i" "i < page_idx_to_virt k h + PG"
    using large_page [OF wf _ i] by blast
  then show ?thesis by (intro exI [of _ k]) simp
qed

lemma large_inj:
  assumes ok: "run_ok ps" and i: "i < length ps" "pg_type (ps ! i) = PAGE_TYPE_LARGE" "pg_count (ps ! i) \<noteq> 0"
    and j: "j < length ps" "pg_type (ps ! j) = PAGE_TYPE_LARGE" "pg_count (ps ! j) \<noteq> 0" and ne: "i < j"
  shows "i + unat (pg_count (ps ! i)) \<le> j"
proof (rule ccontr)
  assume "\<not> ?thesis"
  then have "ps ! j = \<lparr>pg_type = PAGE_TYPE_LARGE, pg_count = 0\<rparr>" using run_okD(2) [OF ok i(1,2) ne] by simp
  then show False using j(3) by simp
qed

text \<open>The blocks in use do not overlap.\<close>

lemma base_runs: "base_ok h \<Longrightarrow> run_ok (page_metadata h) \<and> length (page_metadata h) = total_pages h"
  by (simp add: base_ok_def)

lemma obj_obj_apart:
  assumes wf: "heap_wf h ql fr" and p: "ci < 8" "p \<in> set (ql ci w)" "x \<in> objs ci p" and q: "cj < 8" "q \<in> set (ql cj v)" "y \<in> objs cj q"
    and ne: "x \<noteq> y"
  shows "x + class_size ci \<le> y \<or> y + class_size cj \<le> x"
proof (cases "p = q")
  case True
  then have "cj = ci" using slab_owner(1) [OF wf p(1,2) q(1)] q(2) by blast
  then show ?thesis using objs_apart [of x ci p y] p q True ne by auto
next
  case False
  then have "p + PG \<le> q \<or> q + PG \<le> p"
    using pages_apart slab_page_aligned [OF heap_wfD(1) [OF wf]] heap_wfD(3) [OF wf p(1,2)] heap_wfD(3) [OF wf q(1,2)]
    by (simp add: slab_wf_def)
  then show ?thesis using objs_bounds [OF p(1,3)] objs_bounds [OF q(1,3)] by linarith
qed

lemma slab_slab_apart:
  assumes wf: "heap_wf h ql fr" and x: "(x, s) \<in> slab_blocks ql fr" and y: "(y, t) \<in> slab_blocks ql fr" and ne: "(x, s) \<noteq> (y, t)"
  shows "x + s \<le> y \<or> y + t \<le> x"
proof -
  obtain ci w p where p: "ci < 8" "p \<in> set (ql ci w)" "x \<in> objs ci p" "s = class_size ci" using x by (auto simp: slab_blocks_def)
  obtain cj v q where q: "cj < 8" "q \<in> set (ql cj v)" "y \<in> objs cj q" "t = class_size cj" using y by (auto simp: slab_blocks_def)
  have "x \<noteq> y" using slab_blocks_iff [OF wf p(1,2,3), of fr] x y ne by auto
  then show ?thesis using obj_obj_apart [OF wf p(1,2,3) q(1,2,3)] p(4) q(4) by simp
qed

lemma pages_le: "(i + n :: nat) \<le> j \<Longrightarrow> heap_start_addr h + i * PG + n * PG \<le> heap_start_addr h + j * PG"
  using mult_le_mono1 [of "i + n" j PG] by (simp add: add_mult_distrib)

lemma large_large_apart:
  assumes b: "base_ok h" and x: "(x, s) \<in> large_blocks h" and y: "(y, t) \<in> large_blocks h" and ne: "(x, s) \<noteq> (y, t)"
  shows "x + s \<le> y \<or> y + t \<le> x"
proof -
  note B = base_runs [OF b]
  obtain i where i: "i < total_pages h" "x = page_idx_to_virt i h" "s = unat (pg_count (page_metadata h ! i)) * PG"
    "pg_type (page_metadata h ! i) = PAGE_TYPE_LARGE" "pg_count (page_metadata h ! i) \<noteq> 0" using x by (auto simp: large_blocks_def)
  obtain j where j: "j < total_pages h" "y = page_idx_to_virt j h" "t = unat (pg_count (page_metadata h ! j)) * PG"
    "pg_type (page_metadata h ! j) = PAGE_TYPE_LARGE" "pg_count (page_metadata h ! j) \<noteq> 0" using y by (auto simp: large_blocks_def)
  have "i \<noteq> j" using i j ne by auto
  then have "i + unat (pg_count (page_metadata h ! i)) \<le> j \<or> j + unat (pg_count (page_metadata h ! j)) \<le> i"
    using large_inj [of "page_metadata h" i j] large_inj [of "page_metadata h" j i] i j B by (cases "i < j") auto
  then show ?thesis
    unfolding i(2,3) j(2,3) page_idx_to_virt_def by (elim disjE) (rule disjI1 disjI2, erule pages_le)+
qed

lemma obj_large_apart:
  assumes wf: "heap_wf h ql fr" and p: "ci < 8" "p \<in> set (ql ci w)" "x \<in> objs ci p" and y: "(y, t) \<in> large_blocks h"
  shows "x + class_size ci \<le> y \<or> y + t \<le> x"
proof -
  note B = base_runs [OF heap_wfD(1) [OF wf]]
  obtain k where k: "k < total_pages h" "p = page_idx_to_virt k h" "page_metadata h ! k = \<lparr>pg_type = PAGE_TYPE_SLAB, pg_count = 1\<rparr>"
    using heap_wfD(3) [OF wf p(1,2)] by (auto simp: slab_wf_def slab_page_def)
  obtain j where j: "j < total_pages h" "y = page_idx_to_virt j h" "t = unat (pg_count (page_metadata h ! j)) * PG"
    "pg_type (page_metadata h ! j) = PAGE_TYPE_LARGE" using y by (auto simp: large_blocks_def)
  have "k + 1 \<le> j \<or> j + unat (pg_count (page_metadata h ! j)) \<le> k"
  proof (rule ccontr)
    assume "\<not> ?thesis"
    then have jk: "j \<le> k" "k < j + unat (pg_count (page_metadata h ! j))" by linarith+
    have le: "j \<noteq> k" "j < length (page_metadata h)" using k(3) j(1,4) B by auto
    with jk have "page_metadata h ! k = \<lparr>pg_type = PAGE_TYPE_LARGE, pg_count = 0\<rparr>"
      using run_okD(2) [OF conjunct1 [OF B] le(2) j(4) _ jk(2)] jk(1) le(1) by (simp only: nat_less_le)
    then show False using k(3) by simp
  qed
  then have "p + 1 * PG \<le> y \<or> y + t \<le> p"
    unfolding k(2) j(2,3) page_idx_to_virt_def by (elim disjE) (rule disjI1 disjI2, erule pages_le)+
  then show ?thesis using objs_bounds [OF p(1,3)] by linarith
qed

lemma slab_large_apart:
  assumes "heap_wf h ql fr" "(x, s) \<in> slab_blocks ql fr" "(y, t) \<in> large_blocks h"
  shows "x + s \<le> y \<or> y + t \<le> x"
  using assms(2) obj_large_apart [OF assms(1) _ _ _ assms(3)] by (auto simp: slab_blocks_def)

lemma inv_disjoint:
  assumes ok: "heap_inv h L" and b: "(a, n) \<in> L" "(b, m) \<in> L" "(a, n) \<noteq> (b, m)"
  shows "a + n \<le> b \<or> b + m \<le> a"
proof -
  obtain ql fr where wf: "heap_wf h ql fr" and L: "L = slab_blocks ql fr \<union> large_blocks h" using ok by (auto simp: heap_inv_def)
  from b(1,2) consider "(a, n) \<in> slab_blocks ql fr" "(b, m) \<in> slab_blocks ql fr" | "(a, n) \<in> slab_blocks ql fr" "(b, m) \<in> large_blocks h"
    | "(a, n) \<in> large_blocks h" "(b, m) \<in> slab_blocks ql fr" | "(a, n) \<in> large_blocks h" "(b, m) \<in> large_blocks h" unfolding L by blast
  then show ?thesis
  proof cases
    case 1
    then show ?thesis using slab_slab_apart [OF wf] b(3) by blast
  next
    case 2
    then show ?thesis using slab_large_apart [OF wf] by blast
  next
    case 3
    then show ?thesis using slab_large_apart [OF wf 3(2,1)] by blast
  next
    case 4
    then show ?thesis using large_large_apart [OF heap_wfD(1) [OF wf]] b(3) by blast
  qed
qed

lemma inv_in_range:
  assumes ok: "heap_inv h L" and b: "(a, n) \<in> L"
  shows "heap_start_addr h \<le> a" "a + n \<le> heap_end_addr h" "8 dvd a"
proof -
  obtain ql fr where wf: "heap_wf h ql fr" and L: "L = slab_blocks ql fr \<union> large_blocks h" using ok by (auto simp: heap_inv_def)
  have B: "run_ok (page_metadata h)" "length (page_metadata h) = total_pages h" "base_ok h" using heap_wfD(1) [OF wf] by (simp_all add: base_ok_def)
  have "heap_start_addr h \<le> a \<and> a + n \<le> heap_end_addr h \<and> 8 dvd a"
    using b unfolding L
  proof
    assume "(a, n) \<in> slab_blocks ql fr"
    then obtain ci w p where p: "ci < 8" "p \<in> set (ql ci w)" "a \<in> objs ci p" "n = class_size ci" by (auto simp: slab_blocks_def)
    have "PG dvd p" "p + PG \<le> heap_end_addr h" "heap_start_addr h \<le> p"
      using slab_page_aligned [OF B(3)] heap_wfD(3) [OF wf p(1,2)] by (auto simp: slab_wf_def)
    moreover from this(1) have "8 dvd p" using dvd_trans [of 8 PG p] by simp
    ultimately show ?thesis using objs_bounds [OF p(1,3)] p(4) by auto
  next
    assume "(a, n) \<in> large_blocks h"
    then obtain k where k: "k < total_pages h" "a = page_idx_to_virt k h" "n = unat (pg_count (page_metadata h ! k)) * PG"
      "pg_type (page_metadata h ! k) = PAGE_TYPE_LARGE" by (auto simp: large_blocks_def)
    have "(k + unat (pg_count (page_metadata h ! k))) * PG \<le> total_pages h * PG"
      using run_okD(1) [OF B(1), of k] k B(2) by (intro mult_le_mono1) simp
    moreover have "8 dvd heap_start_addr h" using B(3) dvd_trans [of 8 PG "heap_start_addr h"] by (simp add: base_ok_def)
    ultimately show ?thesis using k B(3) by (auto simp: page_idx_to_virt_def base_ok_def algebra_simps)
  qed
  then show "heap_start_addr h \<le> a" "a + n \<le> heap_end_addr h" "8 dvd a" by blast+
qed


text \<open>The bytes of the blocks in \<open>L\<close> are the same in both heaps.\<close>

definition same_contents :: "(nat \<times> nat) set \<Rightarrow> heap \<Rightarrow> heap \<Rightarrow> bool" where
  "same_contents L h h' \<longleftrightarrow> (\<forall>a n i. (a, n) \<in> L \<longrightarrow> a \<le> i \<longrightarrow> i < a + n \<longrightarrow> mem h' i = mem h i)"

lemma same_contentsI: "(\<And>a n i. (a, n) \<in> L \<Longrightarrow> a \<le> i \<Longrightarrow> i < a + n \<Longrightarrow> mem h' i = mem h i) \<Longrightarrow> same_contents L h h'"
  unfolding same_contents_def by blast

lemma same_contentsD: "same_contents L h h' \<Longrightarrow> (a, n) \<in> L \<Longrightarrow> a \<le> i \<Longrightarrow> i < a + n \<Longrightarrow> mem h' i = mem h i"
  unfolding same_contents_def by blast

lemma same_contents_mem: "mem h' = mem h \<Longrightarrow> same_contents L h h'"
  by (simp add: same_contents_def)

lemma block_not_free:
  assumes wf: "heap_wf h ql fr" and b: "(a, n) \<in> slab_blocks ql fr \<union> large_blocks h" and i: "a \<le> i" "i < a + n"
    and st: "free_at (page_metadata h) st"
  shows "i < page_idx_to_virt st h \<or> page_idx_to_virt st h + PG \<le> i"
proof -
  obtain k where k: "pg_type (page_metadata h ! k) \<noteq> PAGE_TYPE_FREE" "page_idx_to_virt k h \<le> i" "i < page_idx_to_virt k h + PG"
    using block_pages [OF wf b i] by blast
  have "k \<noteq> st" using k(1) st by (auto simp: free_at_def)
  then have "k + 1 \<le> st \<or> st + 1 \<le> k" by linarith
  then show ?thesis using k(2,3) pages_le [of k 1 st h] pages_le [of st 1 k h] by (auto simp: page_idx_to_virt_def)
qed

definition large_at :: "heap \<Rightarrow> nat set" where
  "large_at h = {i. i < total_pages h \<and> pg_type (page_metadata h ! i) = PAGE_TYPE_LARGE \<and> pg_count (page_metadata h ! i) \<noteq> 0}"

lemma large_blocks_image: "large_blocks h = (\<lambda>i. (page_idx_to_virt i h, unat (pg_count (page_metadata h ! i)) * PG)) ` large_at h"
  unfolding large_blocks_def large_at_def by (rule setcompr_eq_image)

lemma large_blocks_slab:
  assumes st: "free_at (page_metadata h) st" and l: "length (page_metadata h) = total_pages h"
    and h': "page_metadata h' = mark_pages st 1 PAGE_TYPE_SLAB (page_metadata h)" "total_pages h' = total_pages h"
      "heap_start_addr h' = heap_start_addr h"
  shows "large_blocks h' = large_blocks h"
proof -
  have le: "st + 1 \<le> length (page_metadata h)" using st by (simp add: free_at_def)
  have *: "page_metadata h' ! i = (if i = st then \<lparr>pg_type = PAGE_TYPE_SLAB, pg_count = 1\<rparr> else page_metadata h ! i)" if "i < total_pages h" for i
    using mark_pages_nth(2) [OF le, of i PAGE_TYPE_SLAB] that l h'(1) by (cases "i = st") auto
  have "pg_type (page_metadata h ! st) = PAGE_TYPE_FREE" using st by (simp add: free_at_def)
  then have "large_at h' = large_at h" "\<And>i. i \<in> large_at h \<Longrightarrow> page_metadata h' ! i = page_metadata h ! i"
    unfolding large_at_def h'(2) using * by (auto split: if_splits)
  then show ?thesis unfolding large_blocks_image page_idx_to_virt_def h'(3) by (simp cong: image_cong)
qed

lemma class_small: "ci < 8 \<Longrightarrow> (a, class_size ci) \<notin> large_blocks h"
proof
  assume ci: "ci < 8" and "(a, class_size ci) \<in> large_blocks h"
  then obtain c :: u16 where c: "class_size ci = unat c * PG" "c \<noteq> 0" by (auto simp: large_blocks_def)
  have "1 \<le> unat c" using unat_gt_0 [of c] c(2) by linarith
  then have "1 * PG \<le> unat c * PG" by (rule mult_le_mono1)
  moreover have "1 * class_size ci \<le> max_objs (class_size ci) * class_size ci" 
    using class_facts(3) [OF ci] by (intro mult_le_mono1) linarith
  ultimately show False using c(1) class_facts(4) [OF ci] by linarith
qed

lemma slab_blocks_new:
  assumes np: "p \<notin> all_slabs ql" and ci: "ci < 8" and fl: "objs ci p \<subseteq> set fl"
  shows "slab_blocks (set_list ci Partial (p # ql ci Partial) ql) (fr(p := fl)) = slab_blocks ql fr"
proof -
  let ?ql = "set_list ci Partial (p # ql ci Partial) ql" and ?fr = "fr(p := fl)"
  have np': "p \<notin> set (ql cj w)" if "cj < 8" for cj w using np that by (auto simp: all_slabs_def)
  have other: "q \<in> set (?ql cj w) \<longleftrightarrow> q \<in> set (ql cj w)" if "q \<noteq> p" for q cj w using that by (auto simp: set_list_def)
  have own: "cj = ci" if "p \<in> set (?ql cj w)" "cj < 8" for cj w using that np' by (auto simp: set_list_def split: if_splits)
  have E: "(\<exists>w. \<exists>q \<in> set (?ql cj w). a \<in> objs cj q \<and> a \<notin> set (?fr q)) \<longleftrightarrow> (\<exists>w. \<exists>q \<in> set (ql cj w). a \<in> objs cj q \<and> a \<notin> set (fr q))"
    if cj: "cj < 8" for cj a
  proof
    assume "\<exists>w. \<exists>q \<in> set (?ql cj w). a \<in> objs cj q \<and> a \<notin> set (?fr q)"
    then obtain w q where q: "q \<in> set (?ql cj w)" "a \<in> objs cj q" "a \<notin> set (?fr q)" by blast
    moreover have "q \<noteq> p"
    proof
      assume "q = p"
      moreover from this have "cj = ci" using q(1) own [OF _ cj] by blast
      ultimately show False using q(2,3) fl by auto
    qed
    ultimately show "\<exists>w. \<exists>q \<in> set (ql cj w). a \<in> objs cj q \<and> a \<notin> set (fr q)" using other [of q cj w] by (intro exI [of _ w] bexI [of _ q]) simp_all
  next
    assume "\<exists>w. \<exists>q \<in> set (ql cj w). a \<in> objs cj q \<and> a \<notin> set (fr q)"
    then obtain w q where q: "q \<in> set (ql cj w)" "a \<in> objs cj q" "a \<notin> set (fr q)" by blast
    then have "q \<noteq> p" using np' [OF cj] by blast
    then show "\<exists>w. \<exists>q \<in> set (?ql cj w). a \<in> objs cj q \<and> a \<notin> set (?fr q)" using q other [of q cj w] by (intro exI [of _ w] bexI [of _ q]) simp_all
  qed
  show ?thesis unfolding slab_blocks_def by (rule Collect_cong, rule ex_cong1, rule ex_cong1, intro conj_cong refl, erule E)
qed

text \<open>The slab is the first partial one, or a new one on a page that was free.\<close>

lemma cache_alloc_ok:
  assumes ok: "heap_inv h L" and ci: "ci < 8" and e: "cache_alloc ci h = (a, h')"
  shows "a = 0 \<Longrightarrow> h' = h \<and> (\<forall>st. \<not> free_at (page_metadata h) st)"
    and "a \<noteq> 0 \<Longrightarrow> heap_inv h' (insert (a, class_size ci) L) \<and> (a, class_size ci) \<notin> L \<and> same_contents L h h'"
proof -
  obtain ql fr where wf: "heap_wf h ql fr" and pl: "placed ql fr" and L: "L = slab_blocks ql fr \<union> large_blocks h"
    using ok by (auto simp: heap_inv_def)
  note b = heap_wfD(1) [OF wf]
  have l: "length (page_metadata h) = total_pages h" using base_runs [OF b] by simp
  have pl': "(fr q = [] \<longleftrightarrow> w = Full) \<and> length (fr q) < max_objs (class_size cj)" if "cj < 8" "q \<in> set (ql cj w)" for cj w q
    using pl that unfolding placed_def by blast
  obtain t where D: "dll (snx h) (spv h) (slabs_partial (caches h ! ci)) (ql ci Partial) t"
    using lists_okD(1) [OF heap_wfD(2) [OF wf] ci, of Partial] by (auto simp: slab_head_def)
  consider p where "slabs_partial (caches h ! ci) = p" "p \<noteq> 0" "p \<in> set (ql ci Partial)" | "slabs_partial (caches h ! ci) = 0" "ql ci Partial = []"
    using D by (cases "ql ci Partial") (auto simp: dll_def)
  then have "(a = 0 \<longrightarrow> h' = h \<and> (\<forall>st. \<not> free_at (page_metadata h) st)) \<and>
    (a \<noteq> 0 \<longrightarrow> heap_inv h' (insert (a, class_size ci) L) \<and> (a, class_size ci) \<notin> L \<and> same_contents L h h')"
  proof cases
    case 1
    obtain x xs where f: "fr p = x # xs" using pl' [OF ci 1(3)] by (cases "fr p") auto
    obtain h1 where T: "take_obj p h = (a, h1)" "h' = (if sl_free (slabs h1 p) = 0 then push_slab ci Full p (unlink_slab ci Partial p h1) else h1)"
      using e 1(1,2) by (auto simp: cache_alloc_def get_slab_def Let_def split: prod.splits)
    note A = alloc_from [OF wf ci 1(3) f pl' T]
    show ?thesis using A(2,3) A(4) [of "class_size ci"] A(5) class_small [OF ci] L by (auto intro: same_contents_mem)
  next
    case 2
    have s0: "slabs_free (caches h ! ci) = 0" using base_sizes [OF b ci] by simp
    have take: "take (total_pages h) (page_metadata h) = page_metadata h" using l by simp
    show ?thesis
    proof (cases "find_run 1 (page_metadata h) 0 0 0")
      case None
      then have "\<not> free_at (page_metadata h) st" for st
        using find_run_correct(2) [of 1 "page_metadata h" st] by (auto simp: free_run_def le_less_Suc_eq)
      moreover have "a = 0" "h' = h"
        using e 2 s0 None take by (auto simp: cache_alloc_def get_slab_def alloc_pages_backend_def Let_def simp del: One_nat_def)
      ultimately show ?thesis by simp
    next
      case (Some st)
      then have st: "free_at (page_metadata h) st" using find_run_correct(1) [of 1 "page_metadata h" st] by (simp add: free_run_def)
      define p where "p = page_idx_to_virt st h"
      define h1 where "h1 = h\<lparr>page_metadata := mark_pages st 1 PAGE_TYPE_SLAB (page_metadata h)\<rparr>"
      define h2 where "h2 = push_slab ci Partial p (slab_init_page p ci h1)"
      define fl where "fl = objs_from (class_size ci) (max_objs (class_size ci) - 1) (p + HEADER_SIZE)"
      note N = heap_wf_new [OF wf ci st h1_def p_def h2_def fl_def]
      have "get_slab ci h = (p, h2)"
        using 2 s0 Some take N(3) by (simp add: get_slab_def alloc_pages_backend_def Let_def p_def h1_def h2_def del: One_nat_def)
      then obtain h3 where T: "take_obj p h2 = (a, h3)" "h' = (if sl_free (slabs h3 p) = 0 then push_slab ci Full p (unlink_slab ci Partial p h3) else h3)"
        using e N(3) by (auto simp: cache_alloc_def split: prod.splits)
      let ?ql = "set_list ci Partial (p # ql ci Partial) ql" and ?fr = "fr(p := fl)"
      have pp: "p \<in> set (?ql ci Partial)" by simp
      have "length fl = max_objs (class_size ci)" using objs_list(3) [OF ci, of p] by (simp add: fl_def)
      then obtain x xs where f: "?fr p = x # xs" using class_facts(3) [OF ci] by (cases fl) auto
      have pl2: "(?fr q = [] \<longleftrightarrow> w = Full) \<and> length (?fr q) < max_objs (class_size cj)" if "cj < 8" "q \<in> set (?ql cj w)" "q \<noteq> p" for cj w q
        using that pl' [of cj q w] by (auto simp: set_list_def split: if_splits)
      note A = alloc_from [OF N(1) ci pp f pl2 T]
      have sb: "slab_blocks ?ql ?fr = slab_blocks ql fr"
        using objs_list(1) [OF ci, of p] by (intro slab_blocks_new [OF N(2) ci]) (simp add: fl_def)
      have "links_only (slab_init_page p ci h1) h2" unfolding h2_def by (rule push_links_only)
      then have same: "total_pages h2 = total_pages h" "heap_start_addr h2 = heap_start_addr h"
        by (simp_all add: links_only_def h1_def slab_init_page_def Let_def)
      have lb: "large_blocks h2 = large_blocks h"
        by (rule large_blocks_slab [OF st l _ same]) (simp add: N(4) h1_def)
      have "same_contents L h h'"
      proof (rule same_contentsI)
        fix c n i assume "(c, n) \<in> L" "c \<le> i" "i < c + n"
        then have "i < p \<or> p + PG \<le> i" using block_not_free [OF wf _ _ _ st] unfolding L p_def by blast
        then show "mem h' i = mem h i" using N(5) [of i] A(5) by auto
      qed
      then show ?thesis using A(2,3) A(4) [of "class_size ci"] class_small [OF ci] unfolding sb lb L by auto
    qed
  qed
  then show "a = 0 \<Longrightarrow> h' = h \<and> (\<forall>st. \<not> free_at (page_metadata h) st)"
    "a \<noteq> 0 \<Longrightarrow> heap_inv h' (insert (a, class_size ci) L) \<and> (a, class_size ci) \<notin> L \<and> same_contents L h h'" by blast+
qed


subsection \<open>Allocation\<close>

lemma size_class_ok:
  assumes "base_ok h" "sz \<le> 2048"
  shows "\<exists>ci < 8. size_class sz h = Some ci \<and> sz \<le> class_size ci"
proof -
  have 7: "obj_size (caches h ! 7) = 2048" using base_sizes [OF assms(1), of 7] by (simp add: slab_sizes_def)
  have "size_class sz h \<noteq> None"
  proof
    assume "size_class sz h = None"
    then have "\<not> sz \<le> obj_size (caches h ! 7)" by (auto simp: size_class_def find_None_iff)
    then show False using 7 assms(2) by simp
  qed
  then obtain ci where ci: "size_class sz h = Some ci" by blast
  then have "ci < 8" "sz \<le> obj_size (caches h ! ci)"
    by (auto simp: size_class_def find_Some_iff simp del: upt_Suc upt_rec_numeral)
  then show ?thesis using ci base_sizes [OF assms(1), of ci] by auto
qed

lemma large_pages:
  fixes sz :: u64
  assumes "unat sz + 4095 < 2 ^ 64"
  shows "unat ((sz + 4096 - 1) div 4096) = (unat sz + 4095) div PG"
proof -
  have e: "sz + 4096 - 1 = sz + 4095" by simp
  have "unat (sz + 4095) = unat sz + 4095" using assms by (simp add: unat_word_ariths)
  then show ?thesis unfolding e by (simp only: unat_div) simp
qed

lemma large_pages_overflow:
  fixes sz :: u64
  assumes "2 ^ 64 \<le> unat sz + 4095"
  shows "unat ((sz + 4096 - 1) div 4096) = 0"
proof -
  have e: "sz + 4096 - 1 = sz + 4095" by simp
  have "unat (sz + 4095) = unat sz + 4095 - 2 ^ 64"
    using assms unat_lt2p [of sz] by (simp add: unat_word_ariths mod_if)
  moreover have "unat sz + 4095 - 2 ^ 64 < 4096" using unat_lt2p [of sz] by simp
  ultimately show ?thesis unfolding e by (simp only: unat_div) simp
qed

lemma find_run_0: "find_run 0 ps i r st = None"
  by (induction ps arbitrary: i r st) (simp_all add: Let_def)

lemma large_blocks_large:
  assumes f: "free_run (page_metadata h) st n" "0 < n" and l: "length (page_metadata h) = total_pages h" "total_pages h < 2 ^ 16"
    and le: "st + n \<le> length (page_metadata h)"
    and h': "h' = h\<lparr>page_metadata := mark_pages st n PAGE_TYPE_LARGE (page_metadata h)\<rparr>"
  shows "large_blocks h' = insert (page_idx_to_virt st h, n * PG) (large_blocks h)"
proof -
  have u: "unat (word_of_nat n :: u16) = n" using le l by (simp add: unat_of_nat)
  have *: "page_metadata h' ! i =
      (if st \<le> i \<and> i < st + n then \<lparr>pg_type = PAGE_TYPE_LARGE, pg_count = (if i = st then word_of_nat n else 0)\<rparr> else page_metadata h ! i)"
    if "i < total_pages h" for i
    using mark_pages_nth(2) [OF le, of i PAGE_TYPE_LARGE] that l h' by simp
  have fr: "pg_type (page_metadata h ! i) = PAGE_TYPE_FREE" if "st \<le> i" "i < st + n" for i using f that by (simp add: free_run_def free_at_def)
  have n0: "(word_of_nat n :: u16) \<noteq> 0" using u f(2) by (metis unat_0 less_irrefl)
  have at: "i \<in> large_at h' \<longleftrightarrow> i = st \<or> i \<in> large_at h" for i
    using * [of i] fr [of i] n0 f(2) le l by (cases "st \<le> i \<and> i < st + n") (auto simp: large_at_def h')
  have same: "page_metadata h' ! i = page_metadata h ! i" if "i \<in> large_at h" for i
    using that * [of i] fr [of i] by (auto simp: large_at_def)
  have "large_at h' = insert st (large_at h)" using at by blast
  moreover have "unat (pg_count (page_metadata h' ! st)) = n" using * [of st] f(2) le l u by simp
  moreover have "page_idx_to_virt i h' = page_idx_to_virt i h" for i by (simp add: h' page_idx_to_virt_def)
  ultimately show ?thesis unfolding large_blocks_image using same by (simp cong: image_cong)
qed

lemma alloc_pages_ok:
  assumes ok: "heap_inv h L" and n: "0 < n" and e: "alloc_pages_backend n PAGE_TYPE_LARGE h = (a, h')"
  shows "a = 0 \<Longrightarrow> h' = h \<and> (\<forall>st. \<not> free_run (page_metadata h) st n)"
    and "a \<noteq> 0 \<Longrightarrow> heap_inv h' (insert (a, n * PG) L) \<and> (a, n * PG) \<notin> L \<and> same_contents L h h'"
proof -
  obtain ql fr where wf: "heap_wf h ql fr" and pl: "placed ql fr" and L: "L = slab_blocks ql fr \<union> large_blocks h"
    using ok by (auto simp: heap_inv_def)
  have b: "run_ok (page_metadata h)" "length (page_metadata h) = total_pages h" "total_pages h < 2 ^ 16" "0 < heap_start_addr h"
    using heap_wfD(1) [OF wf] by (simp_all add: base_ok_def)
  have take: "take (total_pages h) (page_metadata h) = page_metadata h" using b(2) by simp
  have "(a = 0 \<longrightarrow> h' = h \<and> (\<forall>st. \<not> free_run (page_metadata h) st n)) \<and>
    (a \<noteq> 0 \<longrightarrow> heap_inv h' (insert (a, n * PG) L) \<and> (a, n * PG) \<notin> L \<and> same_contents L h h')"
  proof (cases "find_run n (page_metadata h) 0 0 0")
    case None
    then show ?thesis using find_run_correct(2) [OF n None] e take by (simp add: alloc_pages_backend_def)
  next
    case (Some st)
    have f: "free_run (page_metadata h) st n" using find_run_correct(1) [OF n Some] .
    have e': "a = page_idx_to_virt st h" "h' = h\<lparr>page_metadata := mark_pages st n PAGE_TYPE_LARGE (page_metadata h)\<rparr>"
      using e Some take by (simp_all add: alloc_pages_backend_def)
    have le: "st + n \<le> length (page_metadata h)"
    proof -
      have "free_at (page_metadata h) (st + n - 1)" using f n by (auto simp: free_run_def)
      then have "st + n - 1 < length (page_metadata h)" by (simp add: free_at_def)
      then show ?thesis using n by linarith
    qed
    have n16: "n < 2 ^ 16" using le b(2,3) by linarith
    have wf': "heap_wf h' ql fr" unfolding e'(2)
    proof (rule heap_wf_meta [OF wf])
      show "run_ok (mark_pages st n PAGE_TYPE_LARGE (page_metadata h))" using run_ok_mark(2) [OF b(1) f n n16] by simp
      show "mark_pages st n PAGE_TYPE_LARGE (page_metadata h) ! i = page_metadata h ! i"
        if i: "i < total_pages h" "page_idx_to_virt i h \<in> all_slabs ql" for i
      proof -
        have "\<not> free_at (page_metadata h) i" using free_page_not_slab [OF wf] i(2) by blast
        then have "\<not> (st \<le> i \<and> i < st + n)" using f by (auto simp: free_run_def)
        then show ?thesis using mark_pages_nth(2) [OF le, of i PAGE_TYPE_LARGE] i(1) b(2) by (simp only: if_False)
      qed
    qed (simp only: mark_pages_nth(1) [OF le] b(2))
    note LB = large_blocks_large [OF f n b(2,3) le e'(2)]
    have st: "free_at (page_metadata h) st" using f n by (simp add: free_run_def)
    have "(a, n * PG) \<notin> L"
    proof
      assume "(a, n * PG) \<in> L"
      then have "a < page_idx_to_virt st h \<or> page_idx_to_virt st h + PG \<le> a"
        using n unfolding L by (intro block_not_free [OF wf _ _ _ st]) auto
      then show False using e'(1) by simp
    qed
    moreover have "heap_inv h' (insert (a, n * PG) L)" using wf' pl LB e'(1) L unfolding heap_inv_def by auto
    moreover have "same_contents L h h'" using e'(2) by (intro same_contents_mem) simp
    moreover have "a \<noteq> 0" using e'(1) b(4) by (simp add: page_idx_to_virt_def)
    ultimately show ?thesis by simp
  qed
  then show "a = 0 \<Longrightarrow> h' = h \<and> (\<forall>st. \<not> free_run (page_metadata h) st n)"
    "a \<noteq> 0 \<Longrightarrow> heap_inv h' (insert (a, n * PG) L) \<and> (a, n * PG) \<notin> L \<and> same_contents L h h'" by blast+
qed

lemma kmalloc_inv:
  assumes ok: "heap_inv h L" and sz: "0 < sz" and e: "kmalloc sz h = (a, h')"
  shows "a = 0 \<Longrightarrow> h' = h \<and> (\<forall>st. \<not> free_run (page_metadata h) st ((unat sz + 4095) div PG))"
    and "a \<noteq> 0 \<Longrightarrow> \<exists>n. unat sz \<le> n \<and> heap_inv h' (insert (a, n) L) \<and> (a, n) \<notin> L \<and> same_contents L h h'"
proof -
  have b: "base_ok h" using ok heap_wfD(1) by (auto simp: heap_inv_def)
  have "(a = 0 \<longrightarrow> h' = h \<and> (\<forall>st. \<not> free_run (page_metadata h) st ((unat sz + 4095) div PG))) \<and>
    (a \<noteq> 0 \<longrightarrow> (\<exists>n. unat sz \<le> n \<and> heap_inv h' (insert (a, n) L) \<and> (a, n) \<notin> L \<and> same_contents L h h'))"
  proof (cases "sz \<le> 2048")
    case True
    then have le: "unat sz \<le> 2048" by (simp add: word_le_nat_alt)
    have 1: "0 < unat sz" using sz by (simp add: word_less_nat_alt)
    obtain ci where ci: "ci < 8" "size_class (unat sz) h = Some ci" "unat sz \<le> class_size ci" using size_class_ok [OF b le] by blast
    have c: "cache_alloc ci h = (a, h')" using e sz True ci(2) word_gt_0 [of sz] by (simp add: kmalloc_def)
    have "(unat sz + 4095) div PG = 1" using 1 le by (intro div_nat_eqI) simp_all
    moreover have "\<not> free_run (page_metadata h) st 1" if "\<not> free_at (page_metadata h) st" for st using that by (auto simp: free_run_def)
    ultimately show ?thesis using cache_alloc_ok [OF ok ci(1) c] ci(3) by auto
  next
    case False
    let ?n = "unat ((sz + 4096 - 1) div 4096)"
    have c: "alloc_pages_backend ?n PAGE_TYPE_LARGE h = (a, h')" using e sz False word_gt_0 [of sz] by (simp add: kmalloc_def)
    show ?thesis
    proof (cases "unat sz + 4095 < 2 ^ 64")
      case True
      note n = large_pages [OF True]
      have "0 < unat sz" using sz by (simp add: word_less_nat_alt)
      then have "0 < (unat sz + 4095) div PG" by (simp add: div_greater_zero_iff)
      moreover have "unat sz \<le> (unat sz + 4095) div PG * PG" 
        using div_mult_mod_eq [of "unat sz + 4095" PG] mod_less_divisor [of PG "unat sz + 4095"] by linarith
      ultimately show ?thesis using alloc_pages_ok [OF ok _ c] unfolding n by blast
    next
      case False
      then have n: "?n = 0" by (intro large_pages_overflow) simp
      have "a = 0 \<and> h' = h" using c unfolding n by (simp add: alloc_pages_backend_def find_run_0)
      moreover have "\<not> free_run (page_metadata h) st ((unat sz + 4095) div PG)" for st
      proof
        assume f: "free_run (page_metadata h) st ((unat sz + 4095) div PG)"
        have "2 ^ 64 div PG \<le> (unat sz + 4095) div PG" using False by (intro div_le_mono) simp
        then have "2 ^ 52 \<le> (unat sz + 4095) div PG" by simp
        moreover have "length (page_metadata h) < 2 ^ 16" using b by (simp add: base_ok_def)
        ultimately have "length (page_metadata h) < (unat sz + 4095) div PG" by simp
        then have "free_at (page_metadata h) (st + length (page_metadata h))" using f by (simp add: free_run_def)
        then show False by (simp add: free_at_def)
      qed
      ultimately show ?thesis by blast
    qed
  qed
  then show "a = 0 \<Longrightarrow> h' = h \<and> (\<forall>st. \<not> free_run (page_metadata h) st ((unat sz + 4095) div PG))"
    "a \<noteq> 0 \<Longrightarrow> \<exists>n. unat sz \<le> n \<and> heap_inv h' (insert (a, n) L) \<and> (a, n) \<notin> L \<and> same_contents L h h'" by blast+
qed


subsection \<open>Freeing\<close>

lemma large_blocks_clear:
  assumes k: "k < total_pages h" "c = unat (pg_count (page_metadata h ! k))" "0 < c" and l: "length (page_metadata h) = total_pages h"
    and run: "\<And>i. k < i \<Longrightarrow> i < k + c \<Longrightarrow> i < total_pages h \<Longrightarrow> pg_count (page_metadata h ! i) = 0"
    and h': "h' = h\<lparr>page_metadata := clear_pages k c (page_metadata h)\<rparr>"
  shows "large_blocks h' = large_blocks h - {(page_idx_to_virt k h, c * PG)}"
proof -
  let ?f = "\<lambda>i. (page_idx_to_virt i h, unat (pg_count (page_metadata h ! i)) * PG)"
  have *: "page_metadata h' ! i = (if k \<le> i \<and> i < k + c then \<lparr>pg_type = PAGE_TYPE_FREE, pg_count = 0\<rparr> else page_metadata h ! i)"
    if "i < total_pages h" for i using clear_pages_nth(2) [of i "page_metadata h" k c] that l h' by simp
  have at: "i \<in> large_at h' \<longleftrightarrow> i \<in> large_at h \<and> i \<noteq> k" for i
    using * [of i] run [of i] k(3) by (cases "k \<le> i \<and> i < k + c") (auto simp: large_at_def h')
  have same: "page_metadata h' ! i = page_metadata h ! i" if "i \<in> large_at h" "i \<noteq> k" for i
    using that * [of i] run [of i] by (auto simp: large_at_def)
  have "large_at h' = large_at h - {k}" using at by blast
  moreover have "page_idx_to_virt i h' = page_idx_to_virt i h" for i by (simp add: h' page_idx_to_virt_def)
  ultimately have "large_blocks h' = ?f ` (large_at h - {k})" unfolding large_blocks_image using same by (intro image_cong) auto
  also have "\<dots> = ?f ` large_at h - ?f ` {k}" by (rule image_set_diff) (auto intro!: injI dest: slab_page_inj)
  finally show ?thesis unfolding large_blocks_image k(2) by simp
qed

lemma page_of:
  assumes "base_ok h" "k < total_pages h" "page_idx_to_virt k h \<le> a" "a < page_idx_to_virt k h + PG"
  shows "virt_to_page_idx a h = Some k"
proof -
  have "Suc k * PG \<le> total_pages h * PG" using assms(2) by (intro mult_le_mono1) simp
  moreover have "(a - heap_start_addr h) div PG = k" using assms(3,4) by (intro div_nat_eqI) (auto simp: page_idx_to_virt_def)
  ultimately show ?thesis using assms by (auto simp: virt_to_page_idx_def page_idx_to_virt_def base_ok_def)
qed

lemma kfree_large:
  assumes ok: "heap_inv h L" and wf: "heap_wf h ql fr" "placed ql fr" and L: "L = slab_blocks ql fr \<union> large_blocks h"
    and b: "(a, n) \<in> large_blocks h"
  shows "heap_inv (kfree a h) (L - {(a, n)}) \<and> mem (kfree a h) = mem h"
proof -
  note B = heap_wfD(1) [OF wf(1)]
  obtain k where k: "k < total_pages h" "a = page_idx_to_virt k h" "n = unat (pg_count (page_metadata h ! k)) * PG"
    "pg_type (page_metadata h ! k) = PAGE_TYPE_LARGE" "pg_count (page_metadata h ! k) \<noteq> 0" using b by (auto simp: large_blocks_def)
  have a0: "a \<noteq> 0" using k(2) B by (simp add: page_idx_to_virt_def base_ok_def)
  define c where "c = unat (pg_count (page_metadata h ! k))"
  have c: "0 < c" using k(5) by (simp add: c_def unat_gt_0)
  have R: "run_ok (page_metadata h)" "length (page_metadata h) = total_pages h" using base_runs [OF B] by auto
  have kl: "k < length (page_metadata h)" using k(1) R(2) by simp
  have run: "page_metadata h ! i = \<lparr>pg_type = PAGE_TYPE_LARGE, pg_count = 0\<rparr>" if "k < i" "i < k + c" for i
    using run_okD(2) [OF R(1) kl k(4), of i] that by (simp add: c_def)
  have "virt_to_page_idx a h = Some k" using page_of [OF B k(1), of a] k(2) by simp
  then have e: "kfree a h = h\<lparr>page_metadata := clear_pages k c (page_metadata h)\<rparr>"
    using a0 k(1,4) free_backend [OF B k(1)] k(2) by (simp add: kfree_def c_def)
  have wf': "heap_wf (kfree a h) ql fr" unfolding e
  proof (rule heap_wf_meta [OF wf(1)])
    show "run_ok (clear_pages k c (page_metadata h))" using run_ok_clear [OF R(1) kl] c by (simp add: c_def)
    show "clear_pages k c (page_metadata h) ! i = page_metadata h ! i" if i: "i < total_pages h" "page_idx_to_virt i h \<in> all_slabs ql" for i
    proof -
      have "pg_type (page_metadata h ! i) = PAGE_TYPE_SLAB"
        using i(2) heap_wfD(3) [OF wf(1)] slab_page_inj by (fastforce simp: all_slabs_def slab_wf_def slab_page_def)
      then have "\<not> (k \<le> i \<and> i < k + c)" using run [of i] k(4) by (cases "i = k") auto
      then show ?thesis using clear_pages_nth(2) [of i "page_metadata h" k c] i(1) R(2) by (simp only: if_False)
    qed
  qed (simp add: clear_pages_nth R)
  have "large_blocks (kfree a h) = large_blocks h - {(page_idx_to_virt k h, c * PG)}"
    using run by (intro large_blocks_clear [OF k(1) c_def c R(2) _ e]) simp
  moreover have "(a, n) \<notin> slab_blocks ql fr"
  proof
    assume s: "(a, n) \<in> slab_blocks ql fr"
    have "0 < n" using c k(3) c_def by simp
    then show False using slab_large_apart [OF wf(1) s b] by linarith
  qed
  ultimately have "L - {(a, n)} = slab_blocks ql fr \<union> large_blocks (kfree a h)" using L k(2,3) c_def by auto
  then show ?thesis using wf' wf(2) e unfolding heap_inv_def by auto
qed

text \<open>The last object of a slab has been freed, and the slab goes.\<close>

lemma slab_blocks_drop:
  assumes np: "p \<notin> all_slabs ql'" and ci: "ci < 8" and f: "objs ci p \<subseteq> set (fr p)"
    and other: "\<And>cj w q. cj < 8 \<Longrightarrow> q \<noteq> p \<Longrightarrow> q \<in> set (ql' cj w) \<longleftrightarrow> q \<in> set (ql cj w)"
    and own: "\<And>cj w. cj < 8 \<Longrightarrow> p \<in> set (ql cj w) \<Longrightarrow> cj = ci"
  shows "slab_blocks ql' fr = slab_blocks ql fr"
proof -
  have E: "(\<exists>w. \<exists>q \<in> set (ql' cj w). a \<in> objs cj q \<and> a \<notin> set (fr q)) \<longleftrightarrow> (\<exists>w. \<exists>q \<in> set (ql cj w). a \<in> objs cj q \<and> a \<notin> set (fr q))"
    if cj: "cj < 8" for cj a
  proof -
    have "q \<in> set (ql' cj w) \<and> a \<in> objs cj q \<and> a \<notin> set (fr q) \<longleftrightarrow> q \<in> set (ql cj w) \<and> a \<in> objs cj q \<and> a \<notin> set (fr q)" for q w
    proof (cases "q = p")
      case True
      then show ?thesis using np own [OF cj, of w] f cj unfolding all_slabs_def by blast
    next
      case False
      then show ?thesis using other [OF cj False, of w] by simp
    qed
    then show ?thesis by blast
  qed
  show ?thesis unfolding slab_blocks_def by (rule Collect_cong, rule ex_cong1, rule ex_cong1, intro conj_cong refl, erule E)
qed

lemma drop_slab:
  assumes wf: "heap_wf h ql fr" and p: "ci < 8" "p \<in> set (ql ci w)" and f: "length (fr p) = max_objs (class_size ci)"
    and pl: "\<And>cj v q. cj < 8 \<Longrightarrow> q \<in> set (ql cj v) \<Longrightarrow> q \<noteq> p \<Longrightarrow> (fr q = [] \<longleftrightarrow> v = Full) \<and> length (fr q) < max_objs (class_size cj)"
    and h': "h' = free_pages_backend p (unlink_slab ci w p h)"
  shows "heap_inv h' (slab_blocks ql fr \<union> large_blocks h)" "mem h' = mem h"
proof -
  let ?ql = "set_list ci w (remove1 p (ql ci w)) ql" and ?h = "unlink_slab ci w p h"
  have dist: "distinct (ql ci w)" using lists_okD(1) [OF heap_wfD(2) [OF wf] p(1), of w] by (auto simp: dll_def)
  have np: "p \<notin> all_slabs ?ql" using slab_owner [OF wf p] dist by (auto simp: all_slabs_def set_list_def split: if_splits)
  have other: "q \<in> set (?ql cj v) \<longleftrightarrow> q \<in> set (ql cj v)" if "q \<noteq> p" for cj v q
    using that by (auto simp: set_list_def)
  note lk = unlink_links_only [of h ci w p]
  have wf1: "heap_wf ?h ?ql fr"
  proof (rule heap_wf_links [OF wf lk lists_ok_unlink [OF heap_wfD(2) [OF wf] p]])
    fix cj v q assume q: "cj < 8" "q \<in> set (?ql cj v)"
    then have "q \<noteq> p" using np by (auto simp: all_slabs_def)
    then show "\<exists>v. q \<in> set (ql cj v)" using q(2) other by blast
  qed
  have S: "slab_wf h ci p (fr p)" using heap_wfD(3) [OF wf p] .
  then have sp: "slab_page ?h p" using slab_wf_links [OF lk, of ci p "fr p"] by (simp add: slab_wf_def)
  note F = heap_wf_free_slab [OF wf1 sp np, folded h']
  show "mem h' = mem h" using F(2) lk by (simp add: links_only_def)
  have all: "objs ci p \<subseteq> set (fr p)"
  proof -
    have "card (set (fr p)) = card (objs ci p)"
      using S f objs_list [OF p(1), of p] distinct_card [of "fr p"]
        distinct_card [of "objs_from (class_size ci) (max_objs (class_size ci) - 1) (p + HEADER_SIZE)"] by (simp add: slab_wf_def)
    moreover have "finite (objs ci p)" using objs_list(1) [OF p(1), of p] by (metis List.finite_set)
    ultimately show ?thesis using S card_subset_eq [of "objs ci p" "set (fr p)"] by (simp add: slab_wf_def)
  qed
  have sb: "slab_blocks ?ql fr = slab_blocks ql fr"
    by (rule slab_blocks_drop [of p _ ci fr ql, OF np p(1) all]) (use other slab_owner(1) [OF wf p] in blast)+
  have B: "base_ok ?h" using heap_wfD(1) [OF wf1] .
  obtain k where k: "k < total_pages ?h" "p = page_idx_to_virt k ?h" "page_metadata ?h ! k = \<lparr>pg_type = PAGE_TYPE_SLAB, pg_count = 1\<rparr>"
    using sp by (auto simp: slab_page_def)
  have "(p, 1 * PG) \<notin> large_blocks ?h"
  proof
    assume "(p, 1 * PG) \<in> large_blocks ?h"
    then obtain i where i: "p = page_idx_to_virt i ?h" "pg_type (page_metadata ?h ! i) = PAGE_TYPE_LARGE" unfolding large_blocks_def by blast
    have "i = k" by (rule slab_page_inj [of i ?h k]) (simp only: i(1) [symmetric] k(2) [symmetric])
    then show False using i(2) k(3) by simp
  qed
  moreover have "large_blocks h' = large_blocks ?h - {(p, 1 * PG)}"
  proof -
    have c: "1 = unat (pg_count (page_metadata ?h ! k))" by (simp add: k(3))
    have "h' = ?h\<lparr>page_metadata := clear_pages k 1 (page_metadata ?h)\<rparr>"
      using h' free_backend [OF B k(1)] unfolding k(2) [symmetric] c [symmetric] by simp
    from large_blocks_clear [OF k(1) c _ _ _ this] base_runs [OF B] show ?thesis unfolding k(2) [symmetric] by simp
  qed
  moreover have "large_blocks ?h = large_blocks h" using lk by (simp add: links_only_def large_blocks_def page_idx_to_virt_def)
  ultimately have lb: "large_blocks h' = large_blocks h" by simp
  have "placed ?ql fr" unfolding placed_def
  proof (intro allI impI ballI)
    fix cj v q assume q: "cj < 8" "q \<in> set (?ql cj v)"
    then have "q \<noteq> p" using np by (auto simp: all_slabs_def)
    then show "(fr q = [] \<longleftrightarrow> v = Full) \<and> length (fr q) < max_objs (class_size cj)" using pl [OF q(1)] q(2) other by blast
  qed
  then show "heap_inv h' (slab_blocks ql fr \<union> large_blocks h)" using F(1) sb lb unfolding heap_inv_def by auto
qed

lemma kfree_slab:
  assumes wf: "heap_wf h ql fr" "placed ql fr" and p: "ci < 8" "p \<in> set (ql ci w)" and a: "a \<in> objs ci p" "a \<notin> set (fr p)"
  shows "heap_inv (kfree a h) (slab_blocks ql fr - {(a, class_size ci)} \<union> large_blocks h)"
    "mem (kfree a h) = store64 a (sl_free (slabs h p)) (mem h)"
proof -
  note B = heap_wfD(1) [OF wf(1)]
  note S = heap_wfD(3) [OF wf(1) p, unfolded slab_wf_def]
  obtain k where k: "k < total_pages h" "p = page_idx_to_virt k h" "page_metadata h ! k = \<lparr>pg_type = PAGE_TYPE_SLAB, pg_count = 1\<rparr>"
    using S by (auto simp: slab_page_def)
  note O = objs_bounds(1,2) [OF p(1) a(1)]
  have pa: "a div PG * PG = p" using obj_page [OF wf(1) p a(1)] .
  have "virt_to_page_idx a h = Some k" using page_of [OF B k(1), of a] O class_facts(1) [OF p(1)] k(2) by simp
  moreover have "a \<noteq> 0" using O by simp
  ultimately have e: "kfree a h = cache_free ci a h" using k(1,3) S pa by (simp add: kfree_def)
  define h1 where "h1 = put_obj p a h"
  let ?fr = "fr(p := a # fr p)"
  note P = heap_wf_put [OF wf(1) p a, folded h1_def]
  have pl: "(?fr q = [] \<longleftrightarrow> v = Full) \<and> length (?fr q) < max_objs (class_size cj)" if "cj < 8" "q \<in> set (ql cj v)" "q \<noteq> p" for cj v q
    using wf(2) that unfolding placed_def by simp
  have full: "sl_free (slabs h p) = 0 \<longleftrightarrow> w = Full"
  proof -
    have "sl_free (slabs h p) = 0 \<longleftrightarrow> fr p = []" using S by (cases "fr p") auto
    then show ?thesis using wf(2) p unfolding placed_def by blast
  qed
  have sb: "slab_blocks ql ?fr = slab_blocks ql fr - {(a, class_size ci)}" using slab_blocks_put [OF wf(1) p a(1)] .
  have h1: "mem h1 = store64 a (sl_free (slabs h p)) (mem h)" "large_blocks h1 = large_blocks h"
    by (simp_all add: h1_def put_obj_def large_blocks_def page_idx_to_virt_def)
  have len: "length (fr p) < max_objs (class_size ci)" using wf(2) p unfolding placed_def by blast
  have c: "in_use (slabs h1 p) = 0 \<longleftrightarrow> Suc (length (fr p)) = max_objs (class_size ci)"
  proof -
    have "unat (word_of_nat (max_objs (class_size ci) - Suc (length (fr p))) :: u32) = max_objs (class_size ci) - Suc (length (fr p))"
      using class_facts(5) [OF p(1)] by (simp add: unat_of_nat)
    then show ?thesis using P(2) len by (metis Suc_leI diff_is_0_eq le_antisym order_refl unat_eq_zero)
  qed
  have e2: "cache_free ci a h = (if in_use (slabs h1 p) = 0 then free_pages_backend p (unlink_slab ci w p h1)
      else if w = Full then push_slab ci Partial p (unlink_slab ci Full p h1) else h1)"
    using S full pa by (cases w) (simp_all add: cache_free_def Let_def h1_def)
  have "heap_inv (kfree a h) (slab_blocks ql ?fr \<union> large_blocks h1) \<and> mem (kfree a h) = mem h1"
  proof (cases "in_use (slabs h1 p) = 0")
    case True
    then have k': "kfree a h = free_pages_backend p (unlink_slab ci w p h1)" and len': "length (?fr p) = max_objs (class_size ci)"
      using c e e2 by simp_all
    show ?thesis using drop_slab [where fr = ?fr, OF P(1) p len' _ k'] pl by blast
  next
    case False
    then have le: "Suc (length (fr p)) < max_objs (class_size ci)" using c len by linarith
    show ?thesis
    proof (cases "w = Full")
      case True
      define ql' where "ql' = set_list ci Partial (p # ql ci Partial) (set_list ci Full (remove1 p (ql ci Full)) ql)"
      have k': "kfree a h = push_slab ci Partial p (unlink_slab ci Full p h1)" using e e2 False True by simp
      note M = move_slab [OF P(1) p(1) p(2) [unfolded True] _ k' ql'_def, simplified]
      have "placed ql' ?fr" unfolding placed_def
      proof (intro allI impI ballI)
        fix cj v q assume q: "cj < 8" "q \<in> set (ql' cj v)"
        from M(4) [OF q] show "(?fr q = [] \<longleftrightarrow> v = Full) \<and> length (?fr q) < max_objs (class_size cj)"
          using pl [OF q(1), of q v] le by auto
      qed
      moreover have "large_blocks (kfree a h) = large_blocks h1" "mem (kfree a h) = mem h1"
        using M(3) by (simp_all add: links_only_def large_blocks_def page_idx_to_virt_def)
      ultimately show ?thesis using M(1) M(2) [of ?fr] unfolding heap_inv_def by (intro conjI exI [of _ ql'] exI [of _ ?fr]) simp_all
    next
      case nf: False
      then have k': "kfree a h = h1" using e e2 False by simp
      have "placed ql ?fr" unfolding placed_def
      proof (intro allI impI ballI)
        fix cj v q assume q: "cj < 8" "q \<in> set (ql cj v)"
        show "(?fr q = [] \<longleftrightarrow> v = Full) \<and> length (?fr q) < max_objs (class_size cj)"
        proof (cases "q = p")
          case True
          then show ?thesis using slab_owner [OF wf(1) p q(1)] q(2) nf le by auto
        qed (use pl [OF q] in simp)
      qed
      then show ?thesis using P(1) k' unfolding heap_inv_def by (intro conjI exI [of _ ql] exI [of _ ?fr]) simp_all
    qed
  qed
  then show "heap_inv (kfree a h) (slab_blocks ql fr - {(a, class_size ci)} \<union> large_blocks h)"
    "mem (kfree a h) = store64 a (sl_free (slabs h p)) (mem h)" using sb h1 by simp_all
qed

lemma kfree_inv:
  assumes ok: "heap_inv h L" and b: "(a, n) \<in> L"
  shows "heap_inv (kfree a h) (L - {(a, n)})" "same_contents (L - {(a, n)}) h (kfree a h)"
proof -
  obtain ql fr where wf: "heap_wf h ql fr" "placed ql fr" and L: "L = slab_blocks ql fr \<union> large_blocks h"
    using ok by (auto simp: heap_inv_def)
  have "heap_inv (kfree a h) (L - {(a, n)}) \<and> same_contents (L - {(a, n)}) h (kfree a h)"
    using b [unfolded L]
  proof
    assume "(a, n) \<in> large_blocks h"
    from kfree_large [OF ok wf L this] show ?thesis by (auto intro: same_contents_mem)
  next
    assume "(a, n) \<in> slab_blocks ql fr"
    then obtain ci w p where p: "ci < 8" "p \<in> set (ql ci w)" "a \<in> objs ci p" "a \<notin> set (fr p)" and n: "n = class_size ci"
      by (auto simp: slab_blocks_def)
    note K = kfree_slab [OF wf p]
    have "L - {(a, n)} = slab_blocks ql fr - {(a, class_size ci)} \<union> large_blocks h" unfolding L n using class_small [OF p(1), of a h] by blast
    moreover have "same_contents (L - {(a, n)}) h (kfree a h)"
    proof (rule same_contentsI)
      fix c m i assume c: "(c, m) \<in> L - {(a, n)}" "c \<le> i" "i < c + m"
      then have "a + n \<le> c \<or> c + m \<le> a" using inv_disjoint [OF ok b, of c m] by blast
      then have "i < a \<or> a + 8 \<le> i" using c n class_facts(1) [OF p(1)] by linarith
      then show "mem (kfree a h) i = mem h i" using K(2) by (simp add: store64_other)
    qed
    ultimately show ?thesis using K(1) by simp
  qed
  then show "heap_inv (kfree a h) (L - {(a, n)})" "same_contents (L - {(a, n)}) h (kfree a h)" by blast+
qed


subsection \<open>Writing to blocks\<close>

text \<open>\<open>write_mem\<close> is what a client does to a block it owns: the heap does not notice it.\<close>

definition write_mem :: "nat \<Rightarrow> nat \<Rightarrow> (nat \<Rightarrow> u8) \<Rightarrow> heap \<Rightarrow> heap" where
  "write_mem a k f h = h\<lparr>mem := (\<lambda>i. if a \<le> i \<and> i < a + k then f (i - a) else mem h i)\<rparr>"

lemma free_apart:
  assumes wf: "heap_wf h ql fr" and q: "cj < 8" "q \<in> set (ql cj v)" "x \<in> set (fr q)" and b: "(a, n) \<in> slab_blocks ql fr \<union> large_blocks h"
  shows "x + 8 \<le> a \<or> a + n \<le> x"
proof -
  have x: "x \<in> objs cj q" using heap_wfD(3) [OF wf q(1,2)] q(3) by (auto simp: slab_wf_def)
  have "x + class_size cj \<le> a \<or> a + n \<le> x" using b
  proof
    assume s: "(a, n) \<in> slab_blocks ql fr"
    then obtain ci w p where p: "ci < 8" "p \<in> set (ql ci w)" "a \<in> objs ci p" "n = class_size ci" by (auto simp: slab_blocks_def)
    have "a \<noteq> x" using slab_blocks_iff [OF wf q(1,2) x, of fr n] s q(3) by auto
    then show ?thesis using obj_obj_apart [OF wf q(1,2) x p(1,2,3)] p(4) by simp
  next
    assume "(a, n) \<in> large_blocks h"
    then show ?thesis using obj_large_apart [OF wf q(1,2) x] by blast
  qed
  then show ?thesis using class_facts(1) [OF q(1)] by linarith
qed

lemma heap_inv_write:
  assumes ok: "heap_inv h L" and b: "(a, n) \<in> L" and k: "k \<le> n"
  shows "heap_inv (write_mem a k f h) L"
proof -
  let ?h = "write_mem a k f h"
  obtain ql fr where wf: "heap_wf h ql fr" and pl: "placed ql fr" and L: "L = slab_blocks ql fr \<union> large_blocks h"
    using ok by (auto simp: heap_inv_def)
  have "slab_wf ?h cj q (fr q)" if q: "cj < 8" "q \<in> set (ql cj v)" for cj q v
  proof -
    note Q = heap_wfD(3) [OF wf q, unfolded slab_wf_def]
    have "mem ?h i = mem h i" if "x \<in> set (fr q)" "x \<le> i" "i < x + 8" for x i
      using free_apart [OF wf q that(1) b [unfolded L]] that(2,3) k by (auto simp: write_mem_def)
    then have "chain (mem ?h) s (fr q) = chain (mem h) s (fr q)" for s by (intro chain_frame [OF q(1)]) (use Q in auto)
    then show ?thesis using Q by (simp add: slab_wf_def) (simp add: write_mem_def slab_page_def page_idx_to_virt_def)
  qed
  moreover have "lists_ok ?h ql" by (rule lists_ok_fields [OF heap_wfD(2) [OF wf]]) (simp_all add: write_mem_def)
  moreover have "base_ok ?h" using heap_wfD(1) [OF wf] by (simp add: base_ok_def write_mem_def)
  ultimately have "heap_wf ?h ql fr" by (simp add: heap_wf_def)
  moreover have "large_blocks ?h = large_blocks h" by (simp add: write_mem_def large_blocks_def page_idx_to_virt_def)
  ultimately show ?thesis using pl L unfolding heap_inv_def by auto
qed

subsection \<open>Initialisation, and the size of a block\<close>

lemma heap_init_blocks:
  assumes "h' = heap_init start sz h" "s = (start + PG - 1) div PG * PG" "0 < start" "s - start \<le> sz"
    "n = (sz - (s - start)) div PG" "n < 2 ^ 16" "s + n * PG < 2 ^ 64" "m = (n * 4 + PG - 1) div PG" "m < n"
  shows "heap_inv h' {(s + i * PG, PG) | i. i < m}"
proof -
  have n32: "n mod 2 ^ 32 = n" "n * PG mod 2 ^ 32 = n * PG" using assms(6) by (simp_all add: mod_less)
  have h': "h' = h\<lparr>total_pages := n, heap_start_addr := s, heap_end_addr := s + n * PG,
      page_metadata := replicate m \<lparr>pg_type = PAGE_TYPE_LARGE, pg_count = 1\<rparr> @ replicate (n - m) \<lparr>pg_type = PAGE_TYPE_FREE, pg_count = 0\<rparr>,
      caches := map (\<lambda>sz. \<lparr>slabs_partial = 0, slabs_full = 0, slabs_free = 0, obj_size = sz\<rparr>) slab_sizes\<rparr>"
    using assms n32 unfolding heap_init_def assms(2) [symmetric] assms(5) [symmetric] Let_def by (simp add: n32(2) assms(8) [symmetric])
  have meta: "page_metadata h' ! i = (if i < m then \<lparr>pg_type = PAGE_TYPE_LARGE, pg_count = 1\<rparr> else \<lparr>pg_type = PAGE_TYPE_FREE, pg_count = 0\<rparr>)"
    if "i < n" for i using that assms(9) by (simp add: h' nth_append)
  have len: "length (page_metadata h') = n" using assms(9) by (simp add: h')
  have run: "run_ok (page_metadata h')"
  proof (rule run_okI; unfold len)
    fix i assume i: "i < n" "pg_type (page_metadata h' ! i) = PAGE_TYPE_LARGE"
    then have "pg_count (page_metadata h' ! i) = 1" using meta [OF i(1)] by (auto split: if_splits)
    then show "i + unat (pg_count (page_metadata h' ! i)) \<le> n" using i(1) by simp
    fix j assume "i < j" "j < i + unat (pg_count (page_metadata h' ! i))"
    then show "page_metadata h' ! j = \<lparr>pg_type = PAGE_TYPE_LARGE, pg_count = 0\<rparr>" using \<open>pg_count (page_metadata h' ! i) = 1\<close> by simp
  qed
  have s: "0 < s" "PG dvd s"
  proof -
    have "1 * PG \<le> (start + PG - 1) div PG * PG" using assms(3) by (intro mult_le_mono1) (simp add: Suc_leI div_greater_zero_iff)
    then show "0 < s" using assms(2) by simp
    show "PG dvd s" using assms(2) by simp
  qed
  have ls: "length slab_sizes = 8" by (simp add: slab_sizes_def)
  have "map obj_size (caches h') = slab_sizes" "map slabs_free (caches h') = replicate 8 0"
    using ls by (simp_all add: h' comp_def map_replicate_const)
  then have "base_ok h'" unfolding base_ok_def using s run assms(6,7) len by (simp add: h')
  moreover have "lists_ok h' (\<lambda>ci w. [])"
  proof (rule lists_okI)
    show "length (caches h') = 8" using ls by (simp add: h')
    show "\<exists>t. dll (snx h') (spv h') (slab_head ci w h') [] t" if "ci < 8" for ci w
      using that ls by (auto simp: h' dll_def slab_head_def split: slab_list.split)
  qed simp
  ultimately have "heap_wf h' (\<lambda>ci w. []) (\<lambda>p. [])" by (simp add: heap_wf_def)
  moreover have "placed (\<lambda>ci w. []) (\<lambda>p. [])" "slab_blocks (\<lambda>ci w. []) (\<lambda>p. []) = {}" by (simp_all add: placed_def slab_blocks_def)
  moreover have "large_blocks h' = {(s + i * PG, PG) | i. i < m}"
  proof -
    have tp: "total_pages h' = n" by (simp add: h')
    have "large_at h' = {i. i < m}" unfolding large_at_def tp using meta assms(9) by (auto split: if_splits)
    moreover have "page_idx_to_virt i h' = s + i * PG" for i by (simp add: page_idx_to_virt_def h')
    moreover have "unat (pg_count (page_metadata h' ! i)) * PG = PG" if "i < m" for i using that meta [of i] assms(9) by simp
    ultimately show ?thesis unfolding large_blocks_image by (auto simp: setcompr_eq_image intro!: image_cong)
  qed
  ultimately show ?thesis unfolding heap_inv_def by auto
qed

lemma block_size_inv:
  assumes ok: "heap_inv h L" and b: "(a, n) \<in> L"
  shows "block_size a h = n" "a \<noteq> 0"
proof -
  obtain ql fr where wf: "heap_wf h ql fr" and L: "L = slab_blocks ql fr \<union> large_blocks h" using ok by (auto simp: heap_inv_def)
  note B = heap_wfD(1) [OF wf]
  have "block_size a h = n \<and> a \<noteq> 0" using b [unfolded L]
  proof
    assume "(a, n) \<in> slab_blocks ql fr"
    then obtain ci w p where p: "ci < 8" "p \<in> set (ql ci w)" "a \<in> objs ci p" "n = class_size ci" by (auto simp: slab_blocks_def)
    note S = heap_wfD(3) [OF wf p(1,2), unfolded slab_wf_def]
    obtain k where k: "k < total_pages h" "p = page_idx_to_virt k h" "page_metadata h ! k = \<lparr>pg_type = PAGE_TYPE_SLAB, pg_count = 1\<rparr>"
      using S by (auto simp: slab_page_def)
    note O = objs_bounds(1,2) [OF p(1,3)]
    have "virt_to_page_idx a h = Some k" using page_of [OF B k(1), of a] O class_facts(1) [OF p(1)] k(2) by simp
    then show ?thesis using k S O obj_page [OF wf p(1,2,3)] base_sizes [OF B p(1)] p(4) by (simp add: block_size_def)
  next
    assume "(a, n) \<in> large_blocks h"
    then obtain k where k: "k < total_pages h" "a = page_idx_to_virt k h" "n = unat (pg_count (page_metadata h ! k)) * PG"
      "pg_type (page_metadata h ! k) = PAGE_TYPE_LARGE" by (auto simp: large_blocks_def)
    then have "virt_to_page_idx a h = Some k" using page_of [OF B k(1), of a] by simp
    moreover have "a \<noteq> 0" using k(2) B by (simp add: page_idx_to_virt_def base_ok_def)
    ultimately show ?thesis using k(1,3,4) by (simp add: block_size_def)
  qed
  then show "block_size a h = n" "a \<noteq> 0" by blast+
qed

subsection \<open>The page table and the slab headers\<close>

text \<open>
  In memory the page table fills the first pages of the heap, and each slab starts with its header. The model keeps both as
  components of their own, so the blocks that a client may touch must lie outside their bytes: the blocks in use are the
  marked ones other than the pages of the table, which stay marked and are never given out or freed.
\<close>

definition table_blocks :: "heap \<Rightarrow> (nat \<times> nat) set" where
  "table_blocks h = {(heap_start_addr h + i * PG, PG) | i. i < (total_pages h * 4 + PG - 1) div PG}"

definition metadata_byte :: "heap \<Rightarrow> nat \<Rightarrow> bool" where
  "metadata_byte h i \<longleftrightarrow> heap_start_addr h \<le> i \<and> i < heap_start_addr h + total_pages h * 4 \<or>
     (\<exists>k < total_pages h. pg_type (page_metadata h ! k) = PAGE_TYPE_SLAB \<and> page_idx_to_virt k h \<le> i \<and> i < page_idx_to_virt k h + HEADER_SIZE)"

text \<open>\<open>heap_ok h L\<close>: the heap is well formed, \<open>L\<close> are the blocks in use with their sizes, and no page of the page table is one of them.\<close>

definition heap_ok :: "heap \<Rightarrow> (nat \<times> nat) set \<Rightarrow> bool" where
  "heap_ok h L \<longleftrightarrow> heap_inv h (L \<union> table_blocks h) \<and> L \<inter> table_blocks h = {}"

lemma heap_okD:
  assumes "heap_ok h L"
  shows "heap_inv h (L \<union> table_blocks h)" "(a, n) \<in> L \<Longrightarrow> (a, n) \<notin> table_blocks h"
  using assms by (auto simp: heap_ok_def)

lemma heap_okI:
  assumes "heap_inv h M" "M = L \<union> table_blocks h" "L \<inter> table_blocks h = {}"
  shows "heap_ok h L"
  using assms by (simp add: heap_ok_def)

lemma heap_disjoint: "heap_ok h L \<Longrightarrow> (a, n) \<in> L \<Longrightarrow> (b, m) \<in> L \<Longrightarrow> (a, n) \<noteq> (b, m) \<Longrightarrow> a + n \<le> b \<or> b + m \<le> a"
  using inv_disjoint [OF heap_okD(1)] by blast

lemma heap_in_range:
  assumes "heap_ok h L" "(a, n) \<in> L"
  shows "heap_start_addr h \<le> a" "a + n \<le> heap_end_addr h" "8 dvd a"
  using inv_in_range [OF heap_okD(1) [OF assms(1)]] assms(2) by blast+

lemma block_size_ok:
  assumes "heap_ok h L" "(a, n) \<in> L"
  shows "block_size a h = n" "a \<noteq> 0"
  using block_size_inv [OF heap_okD(1) [OF assms(1)]] assms(2) by blast+

lemma table_page:
  assumes i: "heap_start_addr h \<le> i" "i < heap_start_addr h + total_pages h * 4"
  obtains p where "(p, PG) \<in> table_blocks h" "p \<le> i" "i < p + PG"
proof -
  define j where "j = (i - heap_start_addr h) div PG"
  have "heap_start_addr h + j * PG \<le> i" "i < heap_start_addr h + j * PG + PG"
    using i(1) div_mult_mod_eq [of "i - heap_start_addr h" PG] mod_less_divisor [of PG "i - heap_start_addr h"] unfolding j_def by linarith+
  moreover have "(i - heap_start_addr h + PG) div PG \<le> (total_pages h * 4 + PG - 1) div PG" using i by (intro div_le_mono) simp
  then have "j < (total_pages h * 4 + PG - 1) div PG" by (simp add: j_def div_add_self2)
  then have "(heap_start_addr h + j * PG, PG) \<in> table_blocks h" by (auto simp: table_blocks_def)
  ultimately show ?thesis by (rule that [rotated])
qed

lemma header_apart:
  assumes wf: "heap_wf h ql fr" and b: "(a, n) \<in> slab_blocks ql fr \<union> large_blocks h" and i: "a \<le> i" "i < a + n"
    and k: "pg_type (page_metadata h ! k) = PAGE_TYPE_SLAB"
  shows "i < page_idx_to_virt k h \<or> page_idx_to_virt k h + HEADER_SIZE \<le> i"
  using b
proof
  assume "(a, n) \<in> large_blocks h"
  then obtain j where j: "pg_type (page_metadata h ! j) = PAGE_TYPE_LARGE" "page_idx_to_virt j h \<le> i" "i < page_idx_to_virt j h + PG"
    using large_page [OF wf _ i] by blast
  then have "j \<noteq> k" using k by auto
  then have "j + 1 \<le> k \<or> k + 1 \<le> j" by linarith
  then show ?thesis using j(2,3) pages_le [of j 1 k h] pages_le [of k 1 j h] by (auto simp: page_idx_to_virt_def)
next
  assume "(a, n) \<in> slab_blocks ql fr"
  then obtain ci w p where p: "ci < 8" "p \<in> set (ql ci w)" "a \<in> objs ci p" "n = class_size ci" by (auto simp: slab_blocks_def)
  obtain j where j: "p = page_idx_to_virt j h" using heap_wfD(3) [OF wf p(1,2)] by (auto simp: slab_wf_def slab_page_def)
  have "p + HEADER_SIZE \<le> i" "i < p + PG" using objs_bounds [OF p(1,3)] i p(4) by linarith+
  moreover have "j = k \<or> j + 1 \<le> k \<or> k + 1 \<le> j" by linarith
  ultimately show ?thesis using pages_le [of j 1 k h] pages_le [of k 1 j h] unfolding j by (auto simp: page_idx_to_virt_def)
qed

text \<open>No byte of a block in use belongs to the page table or to the header of a slab.\<close>

lemma metadata_apart:
  assumes ok: "heap_ok h L" and b: "(a, n) \<in> L" and i: "a \<le> i" "i < a + n"
  shows "\<not> metadata_byte h i"
proof
  obtain ql fr where wf: "heap_wf h ql fr" and M: "L \<union> table_blocks h = slab_blocks ql fr \<union> large_blocks h"
    using heap_okD(1) [OF ok] by (auto simp: heap_inv_def)
  assume "metadata_byte h i"
  then consider "heap_start_addr h \<le> i" "i < heap_start_addr h + total_pages h * 4"
    | k where "pg_type (page_metadata h ! k) = PAGE_TYPE_SLAB" "page_idx_to_virt k h \<le> i" "i < page_idx_to_virt k h + HEADER_SIZE"
    unfolding metadata_byte_def by blast
  then show False
  proof cases
    case 1
    obtain p where p: "(p, PG) \<in> table_blocks h" "p \<le> i" "i < p + PG" by (rule table_page [OF 1])
    have "(a, n) \<noteq> (p, PG)" using heap_okD(2) [OF ok b] p(1) by blast
    then show False using inv_disjoint [OF heap_okD(1) [OF ok], of a n p PG] b p i by auto
  next
    case 2
    have "(a, n) \<in> slab_blocks ql fr \<union> large_blocks h" using b M by blast
    from header_apart [OF wf this i 2(1)] show False using 2(2,3) by linarith
  qed
qed

text \<open>No operation moves the heap or changes its number of pages.\<close>

definition geom :: "heap \<Rightarrow> nat \<times> nat" where
  "geom h = (heap_start_addr h, total_pages h)"

lemma table_blocks_geom: "geom h' = geom h \<Longrightarrow> table_blocks h' = table_blocks h"
  by (simp add: geom_def table_blocks_def)

lemma geom_links: "geom (push_slab ci w p h) = geom h" "geom (unlink_slab ci w p h) = geom h"
  by (simp_all add: geom_def push_slab_def unlink_slab_def set_head_def Let_def)

lemma geom_pages:
  "geom (snd (alloc_pages_backend n ty h)) = geom h" "geom (free_pages_backend p h) = geom h"
  by (simp_all add: geom_def alloc_pages_backend_def free_pages_backend_def Let_def split: option.split)

lemma geom_objects: "geom (snd (take_obj p h)) = geom h" "geom (put_obj p a h) = geom h" "geom (slab_init_page p ci h) = geom h"
  by (simp_all add: geom_def take_obj_def put_obj_def slab_init_page_def Let_def)

lemma geom_get_slab: "geom (snd (get_slab ci h)) = geom h"
proof -
  have "geom (h\<lparr>caches := cs\<rparr>) = geom h" "geom (h\<lparr>slabs := ss\<rparr>) = geom h" for h cs ss by (simp_all add: geom_def)
  then show ?thesis using geom_pages(1) [of 1 PAGE_TYPE_SLAB h]
    by (auto simp: get_slab_def Let_def geom_links geom_objects split: prod.split)
qed

lemma geom_kmalloc: "geom (snd (kmalloc sz h)) = geom h"
proof -
  have "geom (snd (cache_alloc ci h)) = geom h" for ci
    using geom_get_slab [of ci h] geom_objects(1) by (auto simp: cache_alloc_def geom_links split: prod.split) (metis snd_conv)+
  then show ?thesis by (simp add: kmalloc_def geom_pages split: option.split)
qed

lemma geom_kfree: "geom (kfree p h) = geom h"
  by (simp add: kfree_def cache_free_def geom_links geom_objects geom_pages Let_def split: option.split page_type.split)

lemma same_contents_mono: "same_contents M h h' \<Longrightarrow> L \<subseteq> M \<Longrightarrow> same_contents L h h'"
  unfolding same_contents_def by blast

subsection \<open>Allocation and release, over the blocks in use\<close>

lemma kmalloc_ok:
  assumes ok: "heap_ok h L" and sz: "0 < sz" and e: "kmalloc sz h = (a, h')"
  shows "a = 0 \<Longrightarrow> h' = h \<and> (\<forall>st. \<not> free_run (page_metadata h) st ((unat sz + 4095) div PG))"
    and "a \<noteq> 0 \<Longrightarrow> \<exists>n. unat sz \<le> n \<and> heap_ok h' (insert (a, n) L) \<and> (a, n) \<notin> L \<and> same_contents L h h'"
proof -
  note K = kmalloc_inv [OF heap_okD(1) [OF ok] sz e]
  have T: "table_blocks h' = table_blocks h" using geom_kmalloc [of sz h] e by (intro table_blocks_geom) simp
  show "a = 0 \<Longrightarrow> h' = h \<and> (\<forall>st. \<not> free_run (page_metadata h) st ((unat sz + 4095) div PG))" using K(1) .
  assume "a \<noteq> 0"
  then obtain n where n: "unat sz \<le> n" "heap_inv h' (insert (a, n) (L \<union> table_blocks h))" "(a, n) \<notin> L \<union> table_blocks h"
    "same_contents (L \<union> table_blocks h) h h'" using K(2) by blast
  have "heap_ok h' (insert (a, n) L)" using n(3) heap_okD(2) [OF ok] by (intro heap_okI [OF n(2)]) (auto simp: T)
  moreover have "same_contents L h h'" using n(4) by (rule same_contents_mono) blast
  ultimately show "\<exists>n. unat sz \<le> n \<and> heap_ok h' (insert (a, n) L) \<and> (a, n) \<notin> L \<and> same_contents L h h'" using n(1,3) by blast
qed

lemma kfree_ok:
  assumes ok: "heap_ok h L" and b: "(a, n) \<in> L"
  shows "heap_ok (kfree a h) (L - {(a, n)})" "same_contents (L - {(a, n)}) h (kfree a h)"
proof -
  have b': "(a, n) \<in> L \<union> table_blocks h" "(a, n) \<notin> table_blocks h" using b heap_okD(2) [OF ok] by blast+
  note K = kfree_inv [OF heap_okD(1) [OF ok] b'(1)]
  have T: "table_blocks (kfree a h) = table_blocks h" by (rule table_blocks_geom [OF geom_kfree])
  show "heap_ok (kfree a h) (L - {(a, n)})" using b'(2) heap_okD(2) [OF ok] by (intro heap_okI [OF K(1)]) (auto simp: T)
  show "same_contents (L - {(a, n)}) h (kfree a h)" using K(2) by (rule same_contents_mono) blast
qed

lemma heap_ok_write:
  assumes ok: "heap_ok h L" and b: "(a, n) \<in> L" and k: "k \<le> n"
  shows "heap_ok (write_mem a k f h) L"
proof -
  have "heap_inv (write_mem a k f h) (L \<union> table_blocks h)" using heap_inv_write [OF heap_okD(1) [OF ok] _ k] b by blast
  moreover have "table_blocks (write_mem a k f h) = table_blocks h" by (rule table_blocks_geom) (simp add: geom_def write_mem_def)
  ultimately show ?thesis using heap_okD(2) [OF ok] by (intro heap_okI) auto
qed

subsection \<open>The contract of an allocator\<close>

text \<open>
  \<open>inv s L\<close>: the state is consistent and the blocks in use, address and size, are \<open>L\<close>. Whatever is built from
  \<open>alloc\<close>, \<open>dealloc\<close> and writes to blocks in use rests on these laws.
\<close>

locale allocator =
  fixes alloc :: "u64 \<Rightarrow> 's \<Rightarrow> nat \<times> 's" and dealloc :: "nat \<Rightarrow> 's \<Rightarrow> 's" and wr :: "nat \<Rightarrow> nat \<Rightarrow> (nat \<Rightarrow> u8) \<Rightarrow> 's \<Rightarrow> 's"
    and inv :: "'s \<Rightarrow> (nat \<times> nat) set \<Rightarrow> bool" and byte :: "'s \<Rightarrow> nat \<Rightarrow> u8"
  assumes alloc_fails: "inv s L \<Longrightarrow> 0 < sz \<Longrightarrow> alloc sz s = (0, s') \<Longrightarrow> s' = s"
    and alloc_block: "inv s L \<Longrightarrow> 0 < sz \<Longrightarrow> alloc sz s = (a, s') \<Longrightarrow> a \<noteq> 0 \<Longrightarrow> \<exists>n. unat sz \<le> n \<and> inv s' (insert (a, n) L) \<and> (a, n) \<notin> L"
    and alloc_keeps: "inv s L \<Longrightarrow> 0 < sz \<Longrightarrow> alloc sz s = (a, s') \<Longrightarrow> (b, m) \<in> L \<Longrightarrow> i < m \<Longrightarrow> byte s' (b + i) = byte s (b + i)"
    and dealloc_inv: "inv s L \<Longrightarrow> (a, n) \<in> L \<Longrightarrow> inv (dealloc a s) (L - {(a, n)})"
    and dealloc_keeps: "inv s L \<Longrightarrow> (a, n) \<in> L \<Longrightarrow> (b, m) \<in> L \<Longrightarrow> (b, m) \<noteq> (a, n) \<Longrightarrow> i < m \<Longrightarrow> byte (dealloc a s) (b + i) = byte s (b + i)"
    and wr_inv: "inv s L \<Longrightarrow> (a, n) \<in> L \<Longrightarrow> k \<le> n \<Longrightarrow> inv (wr a k f s) L"
    and wr_byte: "byte (wr a k f s) i = (if a \<le> i \<and> i < a + k then f (i - a) else byte s i)"
    and apart: "inv s L \<Longrightarrow> (a, n) \<in> L \<Longrightarrow> (b, m) \<in> L \<Longrightarrow> (a, n) \<noteq> (b, m) \<Longrightarrow> a + n \<le> b \<or> b + m \<le> a"
begin

lemma wr_keeps:
  assumes "inv s L" "(a, n) \<in> L" "k \<le> n" "(b, m) \<in> L" "(b, m) \<noteq> (a, n)" "i < m"
  shows "byte (wr a k f s) (b + i) = byte s (b + i)"
  using apart [OF assms(1,2,4)] assms(3,5,6) by (auto simp: wr_byte)

text \<open>A new block with the first \<open>unat sz\<close> bytes set to \<open>f\<close>.\<close>

lemma alloc_filled:
  assumes s: "inv s L" "0 < sz" "alloc sz s = (a, s1)" "a \<noteq> 0" and s2: "s2 = wr a (unat sz) f s1"
  shows "\<exists>n. unat sz \<le> n \<and> inv s2 (insert (a, n) L) \<and> (a, n) \<notin> L" "j < unat sz \<Longrightarrow> byte s2 (a + j) = f j"
    "(b, m) \<in> L \<Longrightarrow> i < m \<Longrightarrow> byte s2 (b + i) = byte s (b + i)"
proof -
  obtain n where n: "unat sz \<le> n" "inv s1 (insert (a, n) L)" "(a, n) \<notin> L" using alloc_block [OF s] by blast
  then show "\<exists>n. unat sz \<le> n \<and> inv s2 (insert (a, n) L) \<and> (a, n) \<notin> L" using wr_inv [OF n(2), of a n "unat sz" f] s2 by auto
  show "j < unat sz \<Longrightarrow> byte s2 (a + j) = f j" using s2 by (simp add: wr_byte)
  assume b: "(b, m) \<in> L" "i < m"
  then have "byte s2 (b + i) = byte s1 (b + i)" using wr_keeps [OF n(2) _ n(1), of a b m i f] n(3) s2 by auto
  then show "byte s2 (b + i) = byte s (b + i)" using alloc_keeps [OF s(1,2,3) b] by simp
qed

text \<open>A block is moved: the new one is allocated, the first \<open>k\<close> bytes are copied, the old block is freed.\<close>

lemma move_block:
  assumes s: "inv s L" "0 < sz" "alloc sz s = (b, s1)" "b \<noteq> 0" and a: "(a, n) \<in> L" and k: "k \<le> n" "k \<le> unat sz"
    and s3: "s3 = dealloc a (wr b k (\<lambda>i. byte s1 (a + i)) s1)"
  shows "\<exists>m. unat sz \<le> m \<and> inv s3 (insert (b, m) (L - {(a, n)}))" "j < k \<Longrightarrow> byte s3 (b + j) = byte s (a + j)"
    "(c, m) \<in> L \<Longrightarrow> (c, m) \<noteq> (a, n) \<Longrightarrow> i < m \<Longrightarrow> byte s3 (c + i) = byte s (c + i)"
proof -
  let ?s2 = "wr b k (\<lambda>i. byte s1 (a + i)) s1"
  obtain m where m: "unat sz \<le> m" "inv s1 (insert (b, m) L)" "(b, m) \<notin> L" using alloc_block [OF s] by blast
  have i2: "inv ?s2 (insert (b, m) L)" using wr_inv [OF m(2), of b m k] m(1) k by simp
  have ne: "(b, m) \<noteq> (a, n)" using m(3) a by blast
  have "inv s3 (insert (b, m) L - {(a, n)})" using dealloc_inv [OF i2, of a n] a s3 by simp
  moreover have "insert (b, m) L - {(a, n)} = insert (b, m) (L - {(a, n)})" using ne by blast
  ultimately show "\<exists>m. unat sz \<le> m \<and> inv s3 (insert (b, m) (L - {(a, n)}))" using m(1) by auto
  have bm: "byte s3 (b + j) = byte ?s2 (b + j)" if "j < m" for j
    using dealloc_keeps [OF i2, of a n b m j] a ne that s3 by simp
  show "byte s3 (b + j) = byte s (a + j)" if "j < k"
    using bm [of j] alloc_keeps [OF s(1,2,3) a, of j] that k m(1) by (simp add: wr_byte)
  show "byte s3 (c + i) = byte s (c + i)" if c: "(c, l) \<in> L" "(c, l) \<noteq> (a, n)" "i < l" for c l i
  proof -
    have "byte s3 (c + i) = byte ?s2 (c + i)" using dealloc_keeps [OF i2, of a n c l i] a c s3 by simp
    also have "\<dots> = byte s1 (c + i)" using wr_keeps [OF m(2), of b m k c l i] c m(1,3) k by auto
    finally show ?thesis using alloc_keeps [OF s(1,2,3) c(1,3)] by simp
  qed
qed

end

interpretation kh: allocator kmalloc kfree write_mem heap_ok mem
proof
  show "s' = s" if "heap_ok s L" "0 < sz" "kmalloc sz s = (0, s')" for s s' L sz using kmalloc_ok(1) [OF that] by simp
  show "\<exists>n. unat sz \<le> n \<and> heap_ok s' (insert (a, n) L) \<and> (a, n) \<notin> L" if "heap_ok s L" "0 < sz" "kmalloc sz s = (a, s')" "a \<noteq> 0" for s s' L sz a
    using kmalloc_ok(2) [OF that] by blast
  show "mem s' (b + i) = mem s (b + i)" if a: "heap_ok s L" "0 < sz" "kmalloc sz s = (a, s')" and b: "(b, m) \<in> L" "i < m" for s s' L sz a b m i
  proof (cases "a = 0")
    case True
    then show ?thesis using kmalloc_ok(1) [OF a] by simp
  next
    case False
    then have "same_contents L s s'" using kmalloc_ok(2) [OF a] by blast
    then show ?thesis using b by (auto intro: same_contentsD)
  qed
  show "mem (kfree a s) (b + i) = mem s (b + i)" if "heap_ok s L" "(a, n) \<in> L" "(b, m) \<in> L" "(b, m) \<noteq> (a, n)" "i < m" for s L a n b m i
    using same_contentsD [OF kfree_ok(2) [OF that(1,2)], of b m "b + i"] that by simp
qed (blast intro: kfree_ok heap_ok_write dest: heap_disjoint | simp add: write_mem_def)+

subsection \<open>The heap as the kernel uses it\<close>

lemma kcalloc_write: "kcalloc num sz h =
   (case kmalloc (num * sz) h of (a, h1) \<Rightarrow> (a, if a \<noteq> 0 then write_mem a (unat (num * sz)) (\<lambda>_. 0) h1 else h1))"
  by (cases "kmalloc (num * sz) h") (simp add: kcalloc_def memset0_def write_mem_def Let_def)

lemma krealloc_move:
  assumes "heap_ok h L" "(p, n) \<in> L" "n < unat sz" "kmalloc sz h = (a, h1)"
  shows "krealloc p sz h = (if a = 0 then (0, h1) else (a, kfree p (write_mem a n (\<lambda>i. mem h1 (p + i)) h1)))"
proof -
  have "sz \<noteq> 0" using assms(3) by auto
  then show ?thesis using assms(3,4) block_size_ok [OF assms(1,2)] by (auto simp: krealloc_def write_mem_def Let_def)
qed

text \<open>
  C4. Allocation: in a consistent heap a request for \<open>sz > 0\<close> bytes either fails, with the heap unchanged and only if no
  run of free pages is long enough, or it yields a block of at least \<open>sz\<close> bytes that lies within the heap, is
  aligned to eight bytes and overlaps no block in use, whose contents it leaves alone. The pages of the page table are never
  blocks in use, and no byte of the new block or of another block in use belongs to the page table or to the header of a slab.
\<close>

theorem kmalloc_correct:
  assumes "heap_ok h L" "0 < sz" "kmalloc sz h = (a, h')"
  shows "(a = 0 \<longrightarrow> h' = h \<and> (\<forall>st. \<not> free_run (page_metadata h) st ((unat sz + 4095) div PG))) \<and>
    (a \<noteq> 0 \<longrightarrow> (\<exists>n. unat sz \<le> n \<and> heap_ok h' (insert (a, n) L) \<and> same_contents L h h' \<and>
       8 dvd a \<and> heap_start_addr h' \<le> a \<and> a + n \<le> heap_end_addr h' \<and> (\<forall>b m. (b, m) \<in> L \<longrightarrow> a + n \<le> b \<or> b + m \<le> a) \<and>
       (\<forall>b m i. (b, m) \<in> insert (a, n) L \<longrightarrow> b \<le> i \<longrightarrow> i < b + m \<longrightarrow> \<not> metadata_byte h' i)))"
proof (intro conjI impI)
  show "h' = h" if "a = 0" using kmalloc_ok(1) [OF assms that] by blast
  show "\<forall>st. \<not> free_run (page_metadata h) st ((unat sz + 4095) div PG)" if "a = 0" using kmalloc_ok(1) [OF assms that] by blast
  assume "a \<noteq> 0"
  then obtain n where n: "unat sz \<le> n" "heap_ok h' (insert (a, n) L)" "(a, n) \<notin> L" "same_contents L h h'" using kmalloc_ok(2) [OF assms] by blast
  have "a + n \<le> b \<or> b + m \<le> a" if "(b, m) \<in> L" for b m using heap_disjoint [OF n(2), of a n b m] n(3) that by auto
  then show "\<exists>n. unat sz \<le> n \<and> heap_ok h' (insert (a, n) L) \<and> same_contents L h h' \<and>
       8 dvd a \<and> heap_start_addr h' \<le> a \<and> a + n \<le> heap_end_addr h' \<and> (\<forall>b m. (b, m) \<in> L \<longrightarrow> a + n \<le> b \<or> b + m \<le> a) \<and>
       (\<forall>b m i. (b, m) \<in> insert (a, n) L \<longrightarrow> b \<le> i \<longrightarrow> i < b + m \<longrightarrow> \<not> metadata_byte h' i)"
    using n heap_in_range [OF n(2), of a n] metadata_apart [OF n(2)] by (intro exI [of _ n]) blast
qed

text \<open>
  C5. Freeing a block in use keeps the heap consistent, takes exactly that block out of the blocks in use and leaves the
  contents of the others alone, whether the block is an object of a partial or full slab, the last one of its slab, or a run of pages. The pages of the page
  table are never among them.
\<close>

theorem kfree_correct:
  assumes "heap_ok h L" "(a, n) \<in> L"
  shows "heap_ok (kfree a h) (L - {(a, n)}) \<and> same_contents (L - {(a, n)}) h (kfree a h)"
  using kfree_ok [OF assms] by blast

text \<open>
  C6. \<open>krealloc\<close> of a block of \<open>n\<close> bytes: on failure the heap is unchanged and the block is still in use; otherwise the
  result is a block of at least \<open>sz\<close> bytes that replaces the old one and starts with its \<open>n\<close> bytes, and the other blocks keep theirs.
\<close>

theorem krealloc_correct:
  assumes ok: "heap_ok h L" and p: "(p, n) \<in> L" and sz: "0 < sz" and e: "krealloc p sz h = (a, h')"
  shows "(a = 0 \<longrightarrow> h' = h) \<and>
    (a \<noteq> 0 \<longrightarrow> (\<exists>m. unat sz \<le> m \<and> heap_ok h' (insert (a, m) (L - {(p, n)}))) \<and> (\<forall>i < n. mem h' (a + i) = mem h (p + i)) \<and>
       same_contents (L - {(p, n)}) h h')"
proof (cases "unat sz \<le> n")
  case True
  have "sz \<noteq> 0" using sz by auto
  then have "a = p" "h' = h" using e True block_size_ok [OF ok p] by (auto simp: krealloc_def)
  moreover have "insert (p, n) (L - {(p, n)}) = L" using p by blast
  ultimately show ?thesis using ok True by (auto intro: same_contents_mem)
next
  case False
  then have le: "n < unat sz" "n \<le> unat sz" by simp_all
  obtain b h1 where k: "kmalloc sz h = (b, h1)" by (cases "kmalloc sz h")
  note E = krealloc_move [OF ok p le(1) k]
  show ?thesis
  proof (cases "b = 0")
    case True
    then show ?thesis using kh.alloc_fails [OF ok sz] k e E by auto
  next
    case False
    then have e': "a = b" "h' = kfree p (write_mem b n (\<lambda>i. mem h1 (p + i)) h1)" using e E by auto
    note M = kh.move_block [OF ok sz k False p order_refl le(2) e'(2)]
    have "same_contents (L - {(p, n)}) h h'"
    proof (rule same_contentsI)
      fix c m i assume "(c, m) \<in> L - {(p, n)}" "c \<le> i" "i < c + m"
      then show "mem h' i = mem h i" using M(3) [of c m "i - c"] by auto
    qed
    then show ?thesis using M(1,2) False e'(1) by blast
  qed
qed

text \<open>
  \<open>kcalloc\<close>, if the product of its arguments does not overflow, yields a new block of at least \<open>num * sz\<close> bytes, all of them zero.
\<close>

theorem kcalloc_correct:
  assumes ok: "heap_ok h L" and n: "unat num * unat sz < 2 ^ 64" "0 < unat num * unat sz" and e: "kcalloc num sz h = (a, h')" and a: "a \<noteq> 0"
  shows "(\<exists>n. unat num * unat sz \<le> n \<and> heap_ok h' (insert (a, n) L) \<and> (a, n) \<notin> L) \<and>
    (\<forall>i < unat num * unat sz. mem h' (a + i) = 0) \<and> same_contents L h h'"
proof -
  have u: "unat (num * sz) = unat num * unat sz" using n(1) by (simp add: unat_word_ariths)
  have z: "0 < num * sz" using n(2) u by (simp add: word_less_nat_alt)
  obtain h1 where h1: "kmalloc (num * sz) h = (a, h1)" "h' = write_mem a (unat (num * sz)) (\<lambda>_. 0) h1"
    using e a unfolding kcalloc_write by (auto split: prod.splits if_splits)
  note A = kh.alloc_filled [OF ok z h1(1) a h1(2), unfolded u]
  have "same_contents L h h'"
  proof (rule same_contentsI)
    fix c m i assume "(c, m) \<in> L" "c \<le> i" "i < c + m"
    then show "mem h' i = mem h i" using A(3) [of c m "i - c"] by auto
  qed
  then show ?thesis using A(1,2) by blast
qed

text \<open>
  Initialisation over a region of up to 65535 pages establishes the invariant with no block in use.
\<close>

theorem heap_init_correct:
  assumes "s = (start + PG - 1) div PG * PG" "0 < start" "s - start \<le> sz"
    "n = (sz - (s - start)) div PG" "n < 2 ^ 16" "s + n * PG < 2 ^ 64" "m = (n * 4 + PG - 1) div PG" "m < n"
  shows "heap_ok (heap_init start sz h) {}"
proof -
  have n32: "n mod 2 ^ 32 = n" "n * PG mod 2 ^ 32 = n * PG" using assms(5) by (simp_all add: mod_less)
  have "heap_start_addr (heap_init start sz h) = s" "total_pages (heap_init start sz h) = n"
    using assms n32 unfolding heap_init_def assms(1) [symmetric] assms(4) [symmetric] Let_def by (auto simp: n32)
  then have "table_blocks (heap_init start sz h) = {(s + i * PG, PG) | i. i < m}" using assms(7) by (simp add: table_blocks_def)
  then show ?thesis using heap_init_blocks [OF refl assms, of h] by (intro heap_okI) auto
qed

definition h0 :: heap where
  "h0 = \<lparr>heap_start_addr = 0, heap_end_addr = 0, total_pages = 0, page_metadata = [], caches = [],
     slabs = (\<lambda>p. \<lparr>sl_next = 0, sl_prev = 0, sl_cache = None, sl_free = 0, in_use = 0, sl_magic = 0\<rparr>), mem = (\<lambda>a. 0)\<rparr>"

definition h16 :: heap where
  "h16 = heap_init 5000 65536 h0"

theorem heap_init_correct_witness: "heap_ok (heap_init 5000 65536 h0) {}"
  by (rule heap_init_correct [where start = 5000 and sz = 65536 and n = 15 and s = 8192 and m = 1]) simp_all

lemma h16_ok: "heap_ok h16 {}"
proof -
  have "table_blocks h16 = {(8192 + i * PG, PG) | i. i < 1}" by (simp add: table_blocks_def h16_def heap_init_def Let_def)
  then show ?thesis
    using heap_init_blocks [where start = 5000 and sz = 65536 and n = 15 and m = 1 and h = h0 and s = 8192, OF h16_def]
    by (intro heap_okI) auto
qed

lemma h16_free: "free_run (page_metadata h16) 1 2"
  by (auto simp: h16_def heap_init_def h0_def free_run_def free_at_def Let_def nth_Cons')

lemma h16_alloc:
  assumes "0 < sz" "unat sz \<le> 8192"
  shows "\<exists>a h'. kmalloc sz h16 = (a, h') \<and> a \<noteq> 0"
proof (cases "kmalloc sz h16")
  case (Pair a h')
  have "(unat sz + 4095) div PG \<le> (8192 + 4095) div PG" using assms(2) by (intro div_le_mono) simp
  then have "free_run (page_metadata h16) 1 ((unat sz + 4095) div PG)" using h16_free by (auto simp: free_run_def)
  then have "a \<noteq> 0" using kmalloc_ok(1) [OF h16_ok assms(1) Pair] by blast
  then show ?thesis using Pair by blast
qed

lemma pages_links: "page_metadata (push_slab ci w p h) = page_metadata h" "page_metadata (unlink_slab ci w p h) = page_metadata h"
  by (simp_all add: push_slab_def unlink_slab_def set_head_def Let_def)

text \<open>The first object of a new slab.\<close>

lemma cache_alloc_first:
  assumes "slabs_partial (caches h ! ci) = 0" "slabs_free (caches h ! ci) = 0" "find_run 1 (take (total_pages h) (page_metadata h)) 0 0 0 = Some st"
    "p = page_idx_to_virt st h" "p \<noteq> 0"
  shows "fst (cache_alloc ci h) = align_up (p + HEADER_SIZE) 8"
    "page_metadata (snd (cache_alloc ci h)) = mark_pages st 1 PAGE_TYPE_SLAB (page_metadata h)"
  using assms by (simp_all add: cache_alloc_def get_slab_def alloc_pages_backend_def Let_def split_beta take_obj_def pages_links page_idx_to_virt_def)
    (auto simp: push_slab_def slab_init_page_def set_head_def slab_head_def Let_def)

definition info :: "page_type \<Rightarrow> u16 \<Rightarrow> page_info" where
  "info t n = \<lparr>pg_type = t, pg_count = n\<rparr>"

lemma h16_fields:
  "caches h16 = map (\<lambda>sz. \<lparr>slabs_partial = 0, slabs_full = 0, slabs_free = 0, obj_size = sz\<rparr>) slab_sizes"
  "page_metadata h16 = info PAGE_TYPE_LARGE 1 # replicate 14 (info PAGE_TYPE_FREE 0)" "total_pages h16 = 15" "heap_start_addr h16 = 8192"
  by (simp_all add: h16_def heap_init_def Let_def info_def)

lemma h16_first: "fst (kmalloc 100 h16) = 12328" "page_metadata (snd (kmalloc 100 h16)) = mark_pages 1 1 PAGE_TYPE_SLAB (page_metadata h16)"
  "kmalloc 100 h16 = cache_alloc 3 h16"
proof -
  have "[0..<8] = [0, 1, 2, 3, 4, 5, 6, 7 :: nat]" by (simp add: upt_rec)
  then have "size_class 100 h16 = Some 3" by (simp add: size_class_def h16_fields slab_sizes_def)
  then show k: "kmalloc 100 h16 = cache_alloc 3 h16" by (simp add: kmalloc_def)
  have "find_run 1 (take (total_pages h16) (page_metadata h16)) 0 0 0 = Some 1" by (simp add: h16_fields info_def numeral_eq_Suc)
  note C = cache_alloc_first [OF _ _ this refl, of 3, folded k]
  have "page_idx_to_virt 1 h16 = 12288" by (simp add: page_idx_to_virt_def h16_fields)
  moreover have "caches h16 ! 3 = \<lparr>slabs_partial = 0, slabs_full = 0, slabs_free = 0, obj_size = 128\<rparr>" by (simp add: h16_fields slab_sizes_def)
  ultimately show "fst (kmalloc 100 h16) = 12328" "page_metadata (snd (kmalloc 100 h16)) = mark_pages 1 1 PAGE_TYPE_SLAB (page_metadata h16)"
    using C by (simp_all add: align_up_def)
qed

lemma h16_size: "block_size 12328 (snd (kmalloc 100 h16)) = 128"
proof -
  obtain h' where K: "kmalloc 100 h16 = (12328, h')" using h16_first(1) by (cases "kmalloc 100 h16") simp
  then have "cache_alloc 3 h16 = (12328, h')" using h16_first(3) by simp
  from cache_alloc_ok(2) [OF heap_okD(1) [OF h16_ok] _ this] have "heap_inv h' (insert (12328, class_size 3) ({} \<union> table_blocks h16))" by simp
  from block_size_inv(1) [OF this, of 12328 "class_size 3"] K show ?thesis by (simp add: slab_sizes_def)
qed

text \<open>The heap after a first allocation of 100 bytes, the first object of the slab in the page after the page table, into which the caller has written.\<close>

definition h17 :: heap where
  "h17 = write_mem 12328 100 (\<lambda>_. 65) (snd (kmalloc 100 h16))"

lemma h17_ok: "heap_ok h17 {(12328, 128)}"
proof -
  obtain h' where K: "kmalloc 100 h16 = (12328, h')" using h16_first(1) by (cases "kmalloc 100 h16") simp
  then obtain n where n: "100 \<le> n" "heap_ok h' {(12328, n)}" using kmalloc_ok(2) [OF h16_ok _ K] by auto
  have "n = 128" using K block_size_ok(1) [OF n(2), of 12328 n] h16_size by simp
  then show ?thesis using heap_ok_write [OF n(2), of 12328 n 100] K by (simp add: h17_def)
qed

lemma h17_alloc:
  assumes "0 < sz" "unat sz \<le> 8192"
  shows "\<exists>a h'. kmalloc sz h17 = (a, h') \<and> a \<noteq> 0"
proof (cases "kmalloc sz h17")
  case (Pair a h')
  have "(unat sz + 4095) div PG \<le> (8192 + 4095) div PG" using assms(2) by (intro div_le_mono) simp
  moreover have "page_metadata h17 = info PAGE_TYPE_LARGE 1 # info PAGE_TYPE_SLAB 1 # replicate 13 (info PAGE_TYPE_FREE 0)"
    using h16_first(2) by (simp add: h17_def write_mem_def h16_fields mark_pages_def info_def numeral_eq_Suc)
  ultimately have "free_run (page_metadata h17) 2 ((unat sz + 4095) div PG)"
    by (auto simp: free_run_def free_at_def info_def nth_Cons')
  then have "a \<noteq> 0" using kmalloc_ok(1) [OF h17_ok assms(1) Pair] by blast
  then show ?thesis using Pair by blast
qed

theorem kmalloc_correct_witness:
  "\<exists>a h' n. kmalloc 3000 h17 = (a, h') \<and> a \<noteq> 0 \<and> 3000 \<le> n \<and> heap_ok h' {(a, n), (12328, 128)} \<and> 8 dvd a \<and> (a + n \<le> 12328 \<or> 12456 \<le> a) \<and> mem h' 12340 = 65"
proof -
  obtain a h' where K: "kmalloc 3000 h17 = (a, h')" and a: "a \<noteq> 0" using h17_alloc [of 3000] by auto
  then obtain n where n: "3000 \<le> n" "heap_ok h' (insert (a, n) {(12328, 128)})" "same_contents {(12328, 128)} h17 h'" "8 dvd a"
    "a + n \<le> 12328 \<or> 12328 + 128 \<le> a" using kmalloc_correct [OF h17_ok _ K] by auto
  have "mem h' 12340 = mem h17 12340" using same_contentsD [OF n(3), of 12328 128 12340] by simp
  then show ?thesis using K a n by (intro exI [of _ a] exI [of _ h'] exI [of _ n]) (simp add: h17_def write_mem_def)
qed

theorem kfree_correct_witness: "heap_ok (kfree 12328 h17) {}"
  using kfree_correct [OF h17_ok, of 12328 128] by simp

theorem krealloc_correct_witness: "\<exists>a h' m. krealloc 12328 5000 h17 = (a, h') \<and> a \<noteq> 0 \<and> 5000 \<le> m \<and> heap_ok h' {(a, m)} \<and> mem h' (a + 7) = 65"
proof -
  obtain a h1 where "kmalloc 5000 h17 = (a, h1)" and a: "a \<noteq> 0" using h17_alloc [of 5000] by auto
  then obtain h' where K: "krealloc 12328 5000 h17 = (a, h')" using krealloc_move [OF h17_ok, of 12328 128 5000] by auto
  have "(\<exists>m. 5000 \<le> m \<and> heap_ok h' {(a, m)}) \<and> (\<forall>i < 128. mem h' (a + i) = mem h17 (12328 + i))"
    using krealloc_correct [OF h17_ok _ _ K, of 128] a by simp
  then obtain m where "5000 \<le> m" "heap_ok h' {(a, m)}" "mem h' (a + 7) = mem h17 (12328 + 7)" by force
  then show ?thesis using K a by (intro exI [of _ a] exI [of _ h'] exI [of _ m]) (simp add: h17_def write_mem_def)
qed

theorem kcalloc_correct_witness: "\<exists>a h'. kcalloc 25 4 h16 = (a, h') \<and> a \<noteq> 0 \<and> mem h' (a + 99) = 0"
proof -
  obtain a h1 where "kmalloc 100 h16 = (a, h1)" "a \<noteq> 0" using h16_alloc [of 100] by auto
  then obtain h' where "kcalloc 25 4 h16 = (a, h')" by (auto simp: kcalloc_def)
  then show ?thesis using kcalloc_correct [OF h16_ok _ _ \<open>kcalloc 25 4 h16 = (a, h')\<close> \<open>a \<noteq> 0\<close>] \<open>a \<noteq> 0\<close> by auto
qed

end
