(* ===== verification/Blockdev.thy ===== *)
theory Blockdev
  imports Prelude
begin

section \<open>The block device\<close>

text \<open>
  A model of the byte interface that \<^verbatim>\<open>kernel/arch/aarch64/drivers/virtio-blk.c\<close> puts on top of a device which reads
  and writes whole sectors of 512 bytes. The device is its contents, byte by byte, and the set of sectors at which its
  requests fail. Buffers are lists; a copy into a buffer is \<open>splice\<close>.
\<close>

record blkdev =
  d_mem :: "nat \<Rightarrow> u8"
  d_fail :: "nat \<Rightarrow> bool"

abbreviation (input) SECTOR :: nat where "SECTOR \<equiv> 512"

definition splice :: "nat \<Rightarrow> 'a list \<Rightarrow> 'a list \<Rightarrow> 'a list" where
  "splice i xs ys = take i ys @ xs @ drop (i + length xs) ys"

definition bytes_at :: "(nat \<Rightarrow> u8) \<Rightarrow> nat \<Rightarrow> nat \<Rightarrow> u8 list" where
  "bytes_at m a n = map m [a..<a + n]"

definition put_bytes :: "nat \<Rightarrow> u8 list \<Rightarrow> (nat \<Rightarrow> u8) \<Rightarrow> nat \<Rightarrow> u8" where
  "put_bytes a xs m = (\<lambda>i. if a \<le> i \<and> i < a + length xs then xs ! (i - a) else m i)"

text \<open>One sector; the first component is the status, 0 for success.\<close>

definition virtio_blk_read :: "blkdev \<Rightarrow> nat \<Rightarrow> u8 list \<Rightarrow> int \<times> u8 list" where
  "virtio_blk_read d sector buf = (if d_fail d sector then (-1, buf) else (0, bytes_at (d_mem d) (sector * SECTOR) SECTOR))"

definition virtio_blk_write :: "nat \<Rightarrow> u8 list \<Rightarrow> blkdev \<Rightarrow> int \<times> blkdev" where
  "virtio_blk_write sector buf d =
     (if d_fail d sector then (-1, d) else (0, d\<lparr>d_mem := put_bytes (sector * SECTOR) (take SECTOR buf) (d_mem d)\<rparr>))"

text \<open>The loops over the sectors: \<open>n\<close> sectors are left, \<open>i\<close> is the current one, \<open>sbuf\<close> is \<open>sector_buf\<close>.\<close>

definition chunk :: "nat \<Rightarrow> nat \<Rightarrow> nat \<Rightarrow> nat \<Rightarrow> nat \<Rightarrow> nat \<times> nat" where
  "chunk start i offset len sz =
     (let so = (if i = start then offset mod SECTOR else 0);
          c = SECTOR - so
      in (so, if len + c > sz then sz - len else c))"

fun read_loop :: "blkdev \<Rightarrow> nat \<Rightarrow> nat \<Rightarrow> nat \<Rightarrow> nat \<Rightarrow> nat \<Rightarrow> nat \<Rightarrow> u8 list \<Rightarrow> u8 list \<Rightarrow> nat \<times> u8 list" where
  "read_loop d 0 i start offset sz len sbuf buf = (len, buf)"
| "read_loop d (Suc n) i start offset sz len sbuf buf =
     (case virtio_blk_read d i sbuf of
        (st, sbuf) \<Rightarrow>
          if st \<noteq> 0 then (len, buf)
          else let (so, c) = chunk start i offset len sz
               in read_loop d n (i + 1) start offset sz (len + c) sbuf (splice len (take c (drop so sbuf)) buf))"

definition virtio_blk_fs_read :: "blkdev \<Rightarrow> u64 \<Rightarrow> u64 \<Rightarrow> u8 list \<Rightarrow> u8 list \<Rightarrow> nat \<times> u8 list" where
  "virtio_blk_fs_read d offset sz sbuf buf =
     (if sz = 0 then (0, buf)
      else let start = unat offset div SECTOR;
               last_sector = unat (offset + sz - 1) div SECTOR
           in read_loop d (last_sector + 1 - start) start start (unat offset) (unat sz) 0 sbuf buf)"

fun write_loop :: "nat \<Rightarrow> nat \<Rightarrow> nat \<Rightarrow> nat \<Rightarrow> nat \<Rightarrow> nat \<Rightarrow> u8 list \<Rightarrow> u8 list \<Rightarrow> blkdev \<Rightarrow> nat \<times> blkdev" where
  "write_loop 0 i start offset sz len sbuf buf d = (len, d)"
| "write_loop (Suc n) i start offset sz len sbuf buf d =
     (let (so, c) = chunk start i offset len sz;
          (st, sbuf) = (if c < SECTOR then virtio_blk_read d i sbuf else (0, sbuf))
      in if st \<noteq> 0 then (len, d)
         else let sbuf = splice so (take c (drop len buf)) sbuf
              in case virtio_blk_write i sbuf d of
                   (st, d) \<Rightarrow>
                     if st \<noteq> 0 then (len, d) else write_loop n (i + 1) start offset sz (len + c) sbuf buf d)"

definition virtio_blk_fs_write :: "u64 \<Rightarrow> u64 \<Rightarrow> u8 list \<Rightarrow> u8 list \<Rightarrow> blkdev \<Rightarrow> nat \<times> blkdev" where
  "virtio_blk_fs_write offset sz sbuf buf d =
     (if sz = 0 then (0, d)
      else let start = unat offset div SECTOR;
               last_sector = unat (offset + sz - 1) div SECTOR
           in write_loop (last_sector + 1 - start) start start (unat offset) (unat sz) 0 sbuf buf d)"

subsection \<open>Splices\<close>

lemma length_splice [simp]: "i + length xs \<le> length ys \<Longrightarrow> length (splice i xs ys) = length ys"
  by (simp add: splice_def)

lemma nth_splice:
  "i + length xs \<le> length ys \<Longrightarrow> j < length ys \<Longrightarrow> splice i xs ys ! j = (if i \<le> j \<and> j < i + length xs then xs ! (j - i) else ys ! j)"
  by (auto simp: splice_def nth_append)

lemma splice_all: "length xs = length ys \<Longrightarrow> splice 0 xs ys = xs"
  by (simp add: splice_def)

lemma splice_splice: "i + length xs \<le> length zs \<Longrightarrow> splice (i + length xs) ys (splice i xs zs) = splice i (xs @ ys) zs"
  by (simp add: splice_def ac_simps)

lemma length_bytes_at [simp]: "length (bytes_at m a n) = n"
  by (simp add: bytes_at_def)

lemma bytes_at_0 [simp]: "bytes_at m a 0 = []"
  by (simp add: bytes_at_def)

lemma put_bytes_Nil [simp]: "put_bytes a [] m = m"
  by (rule ext) (auto simp: put_bytes_def)

lemma nth_bytes_at [simp]: "i < n \<Longrightarrow> bytes_at m a n ! i = m (a + i)"
  by (simp add: bytes_at_def)

lemma bytes_at_append: "bytes_at m a n @ bytes_at m (a + n) k = bytes_at m a (n + k)"
  by (rule nth_equalityI) (auto simp: nth_append add.assoc)

lemma bytes_at_sub: "so + c \<le> n \<Longrightarrow> take c (drop so (bytes_at m a n)) = bytes_at m (a + so) c"
  by (rule nth_equalityI) (auto simp: add.assoc)

lemma bytes_at_cong: "(\<And>i. a \<le> i \<Longrightarrow> i < a + n \<Longrightarrow> m' i = m i) \<Longrightarrow> bytes_at m' a n = bytes_at m a n"
  by (simp add: bytes_at_def)

lemma bytes_at_put: "bytes_at (put_bytes a xs m) a (length xs) = xs"
  by (rule nth_equalityI) (auto simp: put_bytes_def)

lemma put_bytes_append: "put_bytes (a + length xs) ys (put_bytes a xs m) = put_bytes a (xs @ ys) m"
  by (rule ext) (auto simp: put_bytes_def nth_append)

lemma put_bytes_splice:
  assumes "so + length xs \<le> n"
  shows "put_bytes a (splice so xs (bytes_at m a n)) m = put_bytes (a + so) xs m"
proof (rule ext)
  fix i
  show "put_bytes a (splice so xs (bytes_at m a n)) m i = put_bytes (a + so) xs m i"
  proof (cases "a \<le> i \<and> i < a + n")
    case True
    then have "i - a < n" by linarith
    then show ?thesis using True assms nth_splice [of so xs "bytes_at m a n" "i - a"] by (auto simp: put_bytes_def)
  next
    case False
    then show ?thesis using assms by (auto simp: put_bytes_def)
  qed
qed

subsection \<open>Whole transfers\<close>

text \<open>After the first sector every transfer starts at the beginning of a sector; the chunk that follows \<open>len\<close> bytes.\<close>

definition sectors_of :: "nat \<Rightarrow> nat \<Rightarrow> nat \<Rightarrow> bool" where
  "sectors_of n pos todo \<longleftrightarrow> (todo = 0 \<and> n = 0) \<or> (todo > 0 \<and> n = (pos + todo - 1) div SECTOR + 1 - pos div SECTOR)"

lemma chunk_step:
  assumes pos: "pos = offset + len" "i = pos div SECTOR" and s: "i = start \<longleftrightarrow> len = 0" "len > 0 \<longrightarrow> pos mod SECTOR = 0"
    and c: "chunk start i offset len sz = (so, c)" and le: "len < sz" and n: "sectors_of (Suc n) pos (sz - len)"
  shows "so = pos mod SECTOR" "0 < c" "so + c \<le> SECTOR" "len + c \<le> sz" "i * SECTOR + so = pos" "sectors_of n (pos + c) (sz - (len + c))"
    "len + c < sz \<longrightarrow> (pos + c) mod SECTOR = 0 \<and> (pos + c) div SECTOR = i + 1"
proof -
  have so: "so = pos mod SECTOR" using c s pos by (auto simp: chunk_def Let_def)
  then show "so = pos mod SECTOR" "i * SECTOR + so = pos" using pos by simp_all
  have so2: "so < SECTOR" using so by simp
  have c': "c = (if len + (SECTOR - so) > sz then sz - len else SECTOR - so)"
    using c so s pos by (auto simp: chunk_def Let_def)
  show "0 < c" "so + c \<le> SECTOR" "len + c \<le> sz" using c' so2 le by (auto split: if_splits)
  have full: "len + c < sz \<Longrightarrow> c = SECTOR - so" using c' by (auto split: if_splits)
  have eq: "pos = i * SECTOR + so" using so pos(2) by simp
  have nx: "(pos + c) mod SECTOR = 0 \<and> (pos + c) div SECTOR = i + 1" if l: "len + c < sz"
  proof -
    have "pos + c = (i + 1) * SECTOR" using full [OF l] eq so2 by (simp add: add_mult_distrib)
    then show ?thesis by simp
  qed
  then show "len + c < sz \<longrightarrow> (pos + c) mod SECTOR = 0 \<and> (pos + c) div SECTOR = i + 1" by blast
  show "sectors_of n (pos + c) (sz - (len + c))"
  proof (cases "len + c < sz")
    case True
    then have "pos + c + (sz - (len + c)) - 1 = pos + (sz - len) - 1" by linarith
    then show ?thesis using n nx [OF True] pos(2) True le by (auto simp: sectors_of_def)
  next
    case False
    then have cc: "c = sz - len" "len + c = sz" using \<open>len + c \<le> sz\<close> le by auto
    have "pos + (sz - len) - 1 = i * SECTOR + (so + c - 1)" using eq cc \<open>0 < c\<close> by linarith
    moreover have "so + c - 1 < SECTOR" using \<open>so + c \<le> SECTOR\<close> \<open>0 < c\<close> by linarith
    ultimately have "(pos + (sz - len) - 1) div SECTOR = i" by simp
    then show ?thesis using n cc le pos(2) by (auto simp: sectors_of_def)
  qed
qed

definition dev_works :: "blkdev \<Rightarrow> bool" where
  "dev_works d \<longleftrightarrow> (\<forall>s. \<not> d_fail d s)"

lemma read_loop_ok:
  assumes "dev_works d" "sectors_of n pos (sz - len)" "len \<le> sz" "sz \<le> length buf" "pos = offset + len"
    "len < sz \<longrightarrow> i = pos div SECTOR \<and> (i = start \<longleftrightarrow> len = 0) \<and> (len > 0 \<longrightarrow> pos mod SECTOR = 0)" "start \<le> i"
  shows "read_loop d n i start offset sz len sbuf buf = (sz, splice len (bytes_at (d_mem d) pos (sz - len)) buf)"
  using assms(2-)
proof (induction n arbitrary: i len pos sbuf buf)
  case 0
  then have "len = sz" by (auto simp: sectors_of_def div_le_mono)
  then show ?case by (simp add: splice_def)
next
  case (Suc n)
  have lt: "len < sz" using Suc.prems(1,2) by (auto simp: sectors_of_def)
  obtain so c where c: "chunk start i offset len sz = (so, c)" by fastforce
  have hyps: "i = pos div SECTOR" "i = start \<longleftrightarrow> len = 0" "len > 0 \<longrightarrow> pos mod SECTOR = 0" using Suc.prems(5) lt by auto
  note C = chunk_step [OF Suc.prems(4) hyps c lt Suc.prems(1)]
  let ?m = "d_mem d"
  have "take c (drop so (bytes_at ?m (i * SECTOR) SECTOR)) = bytes_at ?m pos c" using bytes_at_sub [of so c SECTOR ?m "i * SECTOR"] C(3,5) by simp
  then have "read_loop d (Suc n) i start offset sz len sbuf buf =
      read_loop d n (i + 1) start offset sz (len + c) (bytes_at ?m (i * SECTOR) SECTOR) (splice len (bytes_at ?m pos c) buf)"
    using assms(1) c by (simp add: virtio_blk_read_def dev_works_def)
  also have "\<dots> = (sz, splice (len + c) (bytes_at ?m (pos + c) (sz - (len + c))) (splice len (bytes_at ?m pos c) buf))"
    by (rule Suc.IH [OF C(6) C(4)]) (use C(2,4,7) Suc.prems in auto)
  also have "\<dots> = (sz, splice len (bytes_at ?m pos c @ bytes_at ?m (pos + c) (sz - (len + c))) buf)"
    using splice_splice [of len "bytes_at ?m pos c" buf "bytes_at ?m (pos + c) (sz - (len + c))"] C(4) Suc.prems(3) by simp
  also have "bytes_at ?m pos c @ bytes_at ?m (pos + c) (sz - (len + c)) = bytes_at ?m pos (sz - len)"
    using bytes_at_append [of ?m pos c "sz - (len + c)"] C(4) by simp
  finally show ?case .
qed

lemma write_loop_ok:
  assumes "sectors_of n pos (sz - len)" "len \<le> sz" "sz \<le> length buf" "pos = offset + len"
    "len < sz \<longrightarrow> i = pos div SECTOR \<and> (i = start \<longleftrightarrow> len = 0) \<and> (len > 0 \<longrightarrow> pos mod SECTOR = 0)" "start \<le> i" "dev_works d" "length sbuf = SECTOR"
  shows "write_loop n i start offset sz len sbuf buf d = (sz, d\<lparr>d_mem := put_bytes pos (take (sz - len) (drop len buf)) (d_mem d)\<rparr>)"
  using assms
proof (induction n arbitrary: i len pos sbuf d)
  case 0
  then have "len = sz" by (auto simp: sectors_of_def div_le_mono)
  then show ?case by simp
next
  case (Suc n)
  have lt: "len < sz" using Suc.prems(1,2) by (auto simp: sectors_of_def)
  obtain so c where c: "chunk start i offset len sz = (so, c)" by fastforce
  have hyps: "i = pos div SECTOR" "i = start \<longleftrightarrow> len = 0" "len > 0 \<longrightarrow> pos mod SECTOR = 0" using Suc.prems(5) lt by auto
  note C = chunk_step [OF Suc.prems(4) hyps c lt Suc.prems(1)]
  let ?xs = "take c (drop len buf)" and ?s = "bytes_at (d_mem d) (i * SECTOR) SECTOR"
  have lx: "length ?xs = c" using C(4) Suc.prems(3) by simp
  define sb where "sb = splice so ?xs (if c < SECTOR then ?s else sbuf)"
  have sb: "sb = splice so ?xs ?s"
  proof (cases "c < SECTOR")
    case False
    then have "so = 0" "c = SECTOR" using C(3) by auto
    then show ?thesis using lx Suc.prems(8) by (simp add: sb_def splice_all)
  qed (simp add: sb_def)
  then have lsb: "length sb = SECTOR" using lx C(3) by simp
  define d' where "d' = d\<lparr>d_mem := put_bytes pos ?xs (d_mem d)\<rparr>"
  have w: "virtio_blk_write i sb d = (0, d')"
    using Suc.prems(7) lsb put_bytes_splice [of so ?xs SECTOR "i * SECTOR" "d_mem d"] lx C(3,5)
    by (simp add: virtio_blk_write_def dev_works_def sb d'_def)
  have "write_loop (Suc n) i start offset sz len sbuf buf d = write_loop n (i + 1) start offset sz (len + c) sb buf d'"
    using Suc.prems(7) c w by (auto simp: sb_def virtio_blk_read_def dev_works_def)
  also have "\<dots> = (sz, d'\<lparr>d_mem := put_bytes (pos + c) (take (sz - (len + c)) (drop (len + c) buf)) (d_mem d')\<rparr>)"
    by (rule Suc.IH [OF C(6) C(4)]) (use C(2,4,7) Suc.prems lsb in \<open>auto simp: d'_def dev_works_def\<close>)
  also have "put_bytes (pos + c) (take (sz - (len + c)) (drop (len + c) buf)) (d_mem d') =
      put_bytes pos (?xs @ take (sz - (len + c)) (drop (len + c) buf)) (d_mem d)"
    using put_bytes_append [of pos ?xs "take (sz - (len + c)) (drop (len + c) buf)" "d_mem d"] lx by (simp add: d'_def)
  also have "?xs @ take (sz - (len + c)) (drop (len + c) buf) = take (sz - len) (drop len buf)"
    using C(4) take_add [of c "sz - (len + c)" "drop len buf"] by (simp add: add.commute)
  finally show ?case by (simp add: d'_def)
qed

lemma whole_transfer:
  fixes offset sz :: u64
  assumes "sz \<noteq> 0" "unat offset + unat sz \<le> 2 ^ 64"
  shows "sectors_of (unat (offset + sz - 1) div SECTOR + 1 - unat offset div SECTOR) (unat offset) (unat sz)"
proof -
  have "0 < unat sz" using assms(1) by (simp add: unat_gt_0)
  moreover have "unat (sz - 1) = unat sz - 1" using assms(1) by (rule unat_dec)
  moreover have "unat (offset + (sz - 1)) = unat offset + unat (sz - 1)"
    using assms(2) calculation by (intro unat_add_no_overflow) simp
  moreover have "offset + sz - 1 = offset + (sz - 1)" by simp
  ultimately have "unat (offset + sz - 1) = unat offset + unat sz - 1" by (metis Nat.add_diff_assoc Suc_leI One_nat_def)
  then show ?thesis using \<open>0 < unat sz\<close> by (simp add: sectors_of_def)
qed

lemma blk_read_ok:
  assumes "dev_works d" "unat offset + unat sz \<le> 2 ^ 64" "unat sz \<le> length buf"
  shows "virtio_blk_fs_read d offset sz sbuf buf = (unat sz, splice 0 (bytes_at (d_mem d) (unat offset) (unat sz)) buf)"
proof (cases "sz = 0")
  case False
  have "read_loop d (unat (offset + sz - 1) div SECTOR + 1 - unat offset div SECTOR) (unat offset div SECTOR) (unat offset div SECTOR)
      (unat offset) (unat sz) 0 sbuf buf = (unat sz, splice 0 (bytes_at (d_mem d) (unat offset) (unat sz - 0)) buf)"
    by (rule read_loop_ok) (use whole_transfer [OF False assms(2)] assms in auto)
  then show ?thesis using False by (simp add: virtio_blk_fs_read_def)
qed (simp add: virtio_blk_fs_read_def splice_def)

lemma blk_write_ok:
  assumes "dev_works d" "unat offset + unat sz \<le> 2 ^ 64" "unat sz \<le> length buf" "length sbuf = SECTOR"
  shows "virtio_blk_fs_write offset sz sbuf buf d = (unat sz, d\<lparr>d_mem := put_bytes (unat offset) (take (unat sz) buf) (d_mem d)\<rparr>)"
proof (cases "sz = 0")
  case False
  have "write_loop (unat (offset + sz - 1) div SECTOR + 1 - unat offset div SECTOR) (unat offset div SECTOR) (unat offset div SECTOR)
      (unat offset) (unat sz) 0 sbuf buf d = (unat sz, d\<lparr>d_mem := put_bytes (unat offset) (take (unat sz - 0) (drop 0 buf)) (d_mem d)\<rparr>)"
    by (rule write_loop_ok) (use whole_transfer [OF False assms(2)] assms in auto)
  then show ?thesis using False by (simp add: virtio_blk_fs_write_def)
qed (simp add: virtio_blk_fs_write_def)

text \<open>
  Over a device without errors the byte interface of the block device is a byte store: reading and writing any range, aligned to
  sectors or not, transfers exactly its bytes, and bytes written are read back.
\<close>

theorem blk_store:
  assumes "dev_works d" "unat offset + unat sz \<le> 2 ^ 64" "length buf = unat sz" "length sbuf = SECTOR" "unat sz \<le> length buf'"
    "virtio_blk_fs_write offset sz sbuf buf d = (n, d')"
  shows "n = unat sz \<and> d_mem d' = put_bytes (unat offset) buf (d_mem d) \<and>
    virtio_blk_fs_read d' offset sz sbuf' buf' = (unat sz, buf @ drop (unat sz) buf')"
proof -
  have d': "n = unat sz" "d' = d\<lparr>d_mem := put_bytes (unat offset) buf (d_mem d)\<rparr>" using blk_write_ok [OF assms(1,2) _ assms(4), of buf] assms(3,6) by auto
  then have "dev_works d'" using assms(1) by (simp add: dev_works_def)
  moreover have "bytes_at (d_mem d') (unat offset) (unat sz) = buf" using bytes_at_put [of "unat offset" buf "d_mem d"] assms(3) d'(2) by simp
  ultimately show ?thesis using blk_read_ok [of d' offset sz buf'] assms(2,3,5) d' by (simp add: splice_def)
qed

theorem blk_store_witness:
  "\<exists>d'. virtio_blk_fs_write 510 4 (replicate 512 0) [1, 2, 3, 4] \<lparr>d_mem = (\<lambda>_. 0), d_fail = (\<lambda>_. False)\<rparr> = (4, d') \<and>
     d_mem d' 512 = 3 \<and> virtio_blk_fs_read d' 510 4 [] [0, 0, 0, 0, 9] = (4, [1, 2, 3, 4, 9])"
proof -
  let ?d = "\<lparr>d_mem = (\<lambda>_. 0), d_fail = (\<lambda>_. False)\<rparr> :: blkdev"
  obtain n d' where e: "virtio_blk_fs_write 510 4 (replicate 512 0) [1, 2, 3, 4] ?d = (n, d')" by fastforce
  have "dev_works ?d" by (simp add: dev_works_def)
  from blk_store [OF this _ _ _ _ e, where buf' = "[0, 0, 0, 0, 9]" and sbuf' = "[]"] e show ?thesis by (auto simp: put_bytes_def)
qed

end
