(* ===== verification/Fattime.thy ===== *)
theory Fattime
  imports Prelude
begin

section \<open>Dates of the FAT file system\<close>

text \<open>
  A model of the conversions between seconds since 1970 and the packed dates and times of directory entries, in
  \<^verbatim>\<open>kernel/fs/fat32.c\<close>. C integers are HOL integers: years stay below \<open>2 ^ 31\<close> for times below \<open>2 ^ 55\<close> seconds.
  None stands for a read behind the end of \<open>days_in_month\<close>.
\<close>

definition days_in_month :: "int list" where
  "days_in_month = [31, 28, 31, 30, 31, 30, 31, 31, 30, 31, 30, 31]"

definition is_leap_year :: "int \<Rightarrow> bool" where
  "is_leap_year y \<longleftrightarrow> y mod 4 = 0 \<and> y mod 100 \<noteq> 0 \<or> y mod 400 = 0"

definition days_in_year :: "int \<Rightarrow> int" where
  "days_in_year y = (if is_leap_year y then 366 else 365)"

record datetime =
  dt_year :: int
  dt_month :: int
  dt_day :: int
  dt_hour :: int
  dt_min :: int
  dt_sec :: int

text \<open>The two loops of \<open>unix_to_datetime\<close>.\<close>

function year_loop :: "int \<Rightarrow> int \<Rightarrow> int \<times> int" where
  "year_loop r y = (if r \<ge> days_in_year y then year_loop (r - days_in_year y) (y + 1) else (r, y))"
  by auto

termination
  by (relation "measure (\<lambda>(r, y). nat r)") (auto simp: days_in_year_def split: if_splits)

definition month_days :: "int \<Rightarrow> nat \<Rightarrow> int" where
  "month_days y m = (if m = 1 \<and> is_leap_year y then days_in_month ! m + 1 else days_in_month ! m)"

function month_loop :: "int \<Rightarrow> int \<Rightarrow> nat \<Rightarrow> int \<times> nat" where
  "month_loop y r m =
     (if m < 11 then if r < month_days y m then (r, m) else month_loop y (r - month_days y m) (m + 1) else (r, m))"
  by auto

termination
  by (relation "measure (\<lambda>(y, r, m). 11 - m)") auto

definition unix_to_datetime :: "u64 \<Rightarrow> datetime" where
  "unix_to_datetime timestamp =
     (let r = uint timestamp;
          s = r mod 60; r = r div 60;
          mi = r mod 60; r = r div 60;
          h = r mod 24; r = r div 24;
          (r, y) = year_loop r 1970;
          (r, m) = month_loop y r 0
      in \<lparr>dt_year = y, dt_month = int m + 1, dt_day = r + 1, dt_hour = h, dt_min = mi, dt_sec = s\<rparr>)"

definition datetime_to_unix :: "datetime \<Rightarrow> u64 option" where
  "datetime_to_unix d =
     (let days = foldl (\<lambda>days y. days + word_of_int (days_in_year y)) 0 [1970..dt_year d - 1]
      in if dt_month d > 13 then None
         else let days = foldl (\<lambda>days m. let days = days + word_of_int (days_in_month ! nat (m - 1))
                                         in if m = 2 \<and> is_leap_year (dt_year d) then days + 1 else days)
                           days [1..dt_month d - 1];
                  days = days + word_of_int (dt_day d - 1)
              in Some (days * 86400 + word_of_int (dt_hour d) * 3600 + word_of_int (dt_min d) * 60 + word_of_int (dt_sec d)))"

definition pack_fat_date :: "int \<Rightarrow> int \<Rightarrow> int \<Rightarrow> u16" where
  "pack_fat_date year month day =
     word_of_int (push_bit 9 ((year - 1980) AND 0x7F)) OR word_of_int (push_bit 5 (month AND 0x0F)) OR word_of_int (day AND 0x1F)"

definition pack_fat_time :: "int \<Rightarrow> int \<Rightarrow> int \<Rightarrow> u16" where
  "pack_fat_time hour mi sec =
     word_of_int (push_bit 11 (hour AND 0x1F)) OR word_of_int (push_bit 5 (mi AND 0x3F)) OR word_of_int ((sec div 2) AND 0x1F)"

definition unpack_fat_date :: "u16 \<Rightarrow> int \<times> int \<times> int" where
  "unpack_fat_date date = (uint (drop_bit 9 date AND 0x7F) + 1980, uint (drop_bit 5 date AND 0x0F), uint (date AND 0x1F))"

definition unpack_fat_time :: "u16 \<Rightarrow> int \<times> int \<times> int" where
  "unpack_fat_time time = (uint (drop_bit 11 time AND 0x1F), uint (drop_bit 5 time AND 0x3F), uint (time AND 0x1F) * 2)"

definition fat_to_unix :: "u16 \<Rightarrow> u16 \<Rightarrow> u64 option" where
  "fat_to_unix date time =
     (if date = 0 then Some 0
      else let (y, m, d) = unpack_fat_date date;
               (h, mi, s) = unpack_fat_time time
           in datetime_to_unix \<lparr>dt_year = y, dt_month = m, dt_day = d, dt_hour = h, dt_min = mi, dt_sec = s\<rparr>)"

text \<open>\<open>now\<close> is the time that the real-time clock gives.\<close>

definition get_fat_now :: "u64 \<Rightarrow> u16 \<times> u16" where
  "get_fat_now now =
     (let d = unix_to_datetime now
      in (pack_fat_date (dt_year d) (dt_month d) (dt_day d), pack_fat_time (dt_hour d) (dt_min d) (dt_sec d)))"

subsection \<open>Counting days\<close>

declare year_loop.simps [simp del] month_loop.simps [simp del]

definition years :: "int \<Rightarrow> int \<Rightarrow> int" where
  "years a b = (\<Sum>y = a..b - 1. days_in_year y)"

definition months :: "int \<Rightarrow> nat \<Rightarrow> int" where
  "months y m = (\<Sum>k<m. month_days y k)"

lemma year_loop_inv:
  "year_loop r y = (r', y') \<Longrightarrow> y \<le> y' \<and> r = r' + years y y' \<and> r' < days_in_year y' \<and> (0 \<le> r \<longrightarrow> 0 \<le> r')"
proof (induction r y rule: year_loop.induct)
  case (1 r y)
  show ?case
  proof (cases "r \<ge> days_in_year y")
    case True
    then have *: "year_loop (r - days_in_year y) (y + 1) = (r', y')" using 1(2) by (subst (asm) year_loop.simps) simp
    from 1(1) [OF True this] have IH: "y + 1 \<le> y'" "r - days_in_year y = r' + years (y + 1) y'" "r' < days_in_year y'"
      "0 \<le> r - days_in_year y \<longrightarrow> 0 \<le> r'" by auto
    have "{y..y' - 1} = insert y {y + 1..y' - 1}" using IH(1) by auto
    then have "years y y' = days_in_year y + years (y + 1) y'" by (simp add: years_def)
    then show ?thesis using IH True by auto
  next
    case False
    then have "r' = r" "y' = y" using 1(2) by (subst (asm) year_loop.simps; simp)+
    then show ?thesis using False by (simp add: years_def)
  qed
qed

lemma month_loop_inv:
  "month_loop y r m = (r', m') \<Longrightarrow> m \<le> 11 \<Longrightarrow> 0 \<le> r \<Longrightarrow>
   m \<le> m' \<and> m' \<le> 11 \<and> r + months y m = r' + months y m' \<and> 0 \<le> r' \<and> (m' < 11 \<longrightarrow> r' < month_days y m')"
proof (induction y r m rule: month_loop.induct)
  case (1 y r m)
  show ?case
  proof (cases "m < 11 \<and> r \<ge> month_days y m")
    case True
    then have *: "month_loop y (r - month_days y m) (m + 1) = (r', m')" using 1(2) by (subst (asm) month_loop.simps) simp
    have "months y (m + 1) = months y m + month_days y m" by (simp add: months_def)
    then show ?thesis using 1(1) [OF _ _ *] True by auto
  next
    case False
    then have "r' = r" "m' = m" using 1(2) by (subst (asm) month_loop.simps; auto split: if_splits)+
    then show ?thesis using False 1(3,4) by auto
  qed
qed

lemma months_bounds:
  "months y 12 = days_in_year y" "k < 12 \<Longrightarrow> month_days y k \<le> 31"
proof -
  show "months y 12 = days_in_year y"
    by (simp add: months_def eval_nat_numeral month_days_def days_in_month_def days_in_year_def)
  assume "k < 12"
  then have "days_in_month ! k \<in> set days_in_month" by (intro nth_mem) (simp add: days_in_month_def)
  moreover have "\<forall>x \<in> set days_in_month. x \<le> 31" "days_in_month ! 1 = 28" by (simp_all add: days_in_month_def)
  ultimately show "month_days y k \<le> 31" by (auto simp: month_days_def)
qed

lemma foldl_days: "foldl (\<lambda>days y. days + word_of_int (f y)) a ys = (a + word_of_int (sum_list (map f ys)) :: u64)"
  by (induction ys arbitrary: a) (simp_all add: add.assoc)

lemma foldl_years: "foldl (\<lambda>days y. days + word_of_int (days_in_year y)) 0 [1970..y - 1] = (word_of_int (years 1970 y) :: u64)"
  by (simp add: foldl_days years_def sum_list_distinct_conv_sum_set)

lemma foldl_months:
  "foldl (\<lambda>days m. let days = days + word_of_int (days_in_month ! nat (m - 1)) in if m = 2 \<and> is_leap_year y then days + 1 else days)
     a [1..int m] = (a + word_of_int (months y m) :: u64)"
proof (induction m)
  case (Suc m)
  have "[1..int (Suc m)] = [1..int m] @ [int m + 1]" using upto_rec2 [of 1 "int (Suc m)"] by simp
  moreover have "months y (Suc m) = months y m + month_days y m" by (simp add: months_def)
  moreover have "word_of_int (days_in_month ! m) + (if int m + 1 = 2 \<and> is_leap_year y then 1 else 0) = (word_of_int (month_days y m) :: u64)"
    by (auto simp: month_days_def)
  ultimately show ?case using Suc by (auto simp: Let_def add.assoc)
qed (simp add: months_def)

text \<open>What \<open>unix_to_datetime\<close> computes.\<close>

lemma datetime_facts:
  assumes "d = unix_to_datetime t"
  shows "uint t = ((years 1970 (dt_year d) + months (dt_year d) (nat (dt_month d - 1)) + (dt_day d - 1)) * 24 + dt_hour d) * 3600 + dt_min d * 60 + dt_sec d"
    "1970 \<le> dt_year d" "1 \<le> dt_month d" "dt_month d \<le> 12" "1 \<le> dt_day d" "dt_day d \<le> 31"
    "0 \<le> dt_hour d" "dt_hour d < 24" "0 \<le> dt_min d" "dt_min d < 60" "0 \<le> dt_sec d" "dt_sec d < 60"
proof -
  define r where "r = uint t div 60 div 60 div 24"
  have r: "0 \<le> r" by (simp add: r_def pos_imp_zdiv_nonneg_iff)
  obtain r1 y where y: "year_loop r 1970 = (r1, y)" by fastforce
  obtain r2 m where m: "month_loop y r1 0 = (r2, m)" by fastforce
  note Y = year_loop_inv [OF y]
  have r1: "0 \<le> r1" "r1 < days_in_year y" "1970 \<le> y" "r = r1 + years 1970 y" using Y r by auto
  from month_loop_inv [OF m _ r1(1)] have M: "m \<le> 11" "r1 = r2 + months y m" "0 \<le> r2" "m < 11 \<longrightarrow> r2 < month_days y m"
    by (auto simp: months_def)
  have d: "d = \<lparr>dt_year = y, dt_month = int m + 1, dt_day = r2 + 1, dt_hour = uint t div 60 div 60 mod 24,
      dt_min = uint t div 60 mod 60, dt_sec = uint t mod 60\<rparr>"
    using assms y m by (simp add: unix_to_datetime_def Let_def r_def)
  have "r2 < month_days y m"
  proof (cases "m = 11")
    case True
    have "months y 12 = months y 11 + month_days y 11" by (simp add: months_def eval_nat_numeral)
    then show ?thesis using True M(2) r1(2) months_bounds(1) [of y] by simp
  qed (use M in simp)
  then have "r2 < 31" using months_bounds(2) [of m y] M(1) by simp
  then show "1970 \<le> dt_year d" "1 \<le> dt_month d" "dt_month d \<le> 12" "1 \<le> dt_day d" "dt_day d \<le> 31"
    "0 \<le> dt_hour d" "dt_hour d < 24" "0 \<le> dt_min d" "dt_min d < 60" "0 \<le> dt_sec d" "dt_sec d < 60"
    using r1(3) M by (simp_all add: d)
  have "uint t = (uint t div 60 div 60) * 3600 + uint t div 60 mod 60 * 60 + uint t mod 60" by presburger
  moreover have "uint t div 60 div 60 = r * 24 + uint t div 60 div 60 mod 24" by (simp add: r_def)
  ultimately show "uint t = ((years 1970 (dt_year d) + months (dt_year d) (nat (dt_month d - 1)) + (dt_day d - 1)) * 24 + dt_hour d) * 3600 +
      dt_min d * 60 + dt_sec d" using r1(4) M(2) by (simp add: d algebra_simps)
qed

lemma datetime_to_unix_eq:
  assumes "1 \<le> dt_month d" "dt_month d \<le> 12"
  shows "datetime_to_unix d = Some (word_of_int (((years 1970 (dt_year d) + months (dt_year d) (nat (dt_month d - 1)) + (dt_day d - 1)) * 24 + dt_hour d) * 3600 +
      dt_min d * 60 + dt_sec d))"
proof -
  have e: "[1..dt_month d - 1] = [1..int (nat (dt_month d - 1))]" using assms by simp
  have "\<not> dt_month d > 13" using assms by simp
  then show ?thesis unfolding datetime_to_unix_def Let_def foldl_years e
    unfolding foldl_months [unfolded Let_def] by (simp add: algebra_simps)
qed

lemma datetime_roundtrip: "datetime_to_unix (unix_to_datetime t) = Some t"
  using datetime_to_unix_eq [of "unix_to_datetime t"] datetime_facts(3,4) [OF refl, of t]
  unfolding datetime_facts(1) [OF refl, of t, symmetric] word_of_int_uint by simp

subsection \<open>Packed dates\<close>

text \<open>Three fields of \<open>k\<close>, \<open>j\<close> and \<open>i\<close> bits side by side in 16 bits.\<close>

lemma unpack_fields:
  fixes a b c :: int
  assumes n: "i + j + k = 16"
    and w: "w = (word_of_int (push_bit (i + j) (a AND mask k)) OR word_of_int (push_bit i (b AND mask j)) OR word_of_int (c AND mask i) :: u16)"
  shows "uint (drop_bit (i + j) w AND mask k) = take_bit k a" "uint (drop_bit i w AND mask j) = take_bit j b" "uint (w AND mask i) = take_bit i c"
  unfolding w using n by (auto intro!: bit_eqI simp: bit_simps)

lemmas mask_folds = mask_eq_exp_minus_1 [of 7, where 'a = int, simplified, symmetric] mask_eq_exp_minus_1 [of 4, where 'a = int, simplified, symmetric]
  mask_eq_exp_minus_1 [of 5, where 'a = int, simplified, symmetric] mask_eq_exp_minus_1 [of 6, where 'a = int, simplified, symmetric]
  mask_eq_exp_minus_1 [of 7, where 'a = u16, simplified, symmetric] mask_eq_exp_minus_1 [of 4, where 'a = u16, simplified, symmetric]
  mask_eq_exp_minus_1 [of 5, where 'a = u16, simplified, symmetric] mask_eq_exp_minus_1 [of 6, where 'a = u16, simplified, symmetric]

lemma unpack_pack_date:
  assumes "1980 \<le> y" "y < 2108" "0 \<le> m" "m < 16" "0 \<le> d" "d < 32"
  shows "unpack_fat_date (pack_fat_date y m d) = (y, m, d)"
proof -
  have "take_bit 7 (y - 1980) = y - 1980" "take_bit 4 m = m" "take_bit 5 d = d" using assms by (simp_all add: take_bit_int_eq_self)
  then show ?thesis
    using unpack_fields [of 5 4 7 _ "y - 1980" m d, OF _ refl] unfolding unpack_fat_date_def pack_fat_date_def mask_folds by simp
qed

lemma unpack_pack_time:
  assumes "0 \<le> h" "h < 32" "0 \<le> mi" "mi < 64" "0 \<le> s" "s < 64"
  shows "unpack_fat_time (pack_fat_time h mi s) = (h, mi, s div 2 * 2)"
proof -
  have "take_bit 5 h = h" "take_bit 6 mi = mi" "take_bit 5 (s div 2) = s div 2" using assms by (simp_all add: take_bit_int_eq_self)
  then show ?thesis
    using unpack_fields [of 5 6 5 _ h mi "s div 2", OF _ refl] unfolding unpack_fat_time_def pack_fat_time_def mask_folds by simp
qed

text \<open>
  The time stamps of the FAT file system: what \<open>get_fat_now\<close> packs at the time \<open>now\<close>, in the years from 1980
  to 2107, \<open>fat_to_unix\<close> turns back into \<open>now\<close>, rounded down to an even second; and for any time the calendar fields that
  \<open>unix_to_datetime\<close> computes are in range and \<open>datetime_to_unix\<close> gives the time back.
\<close>

theorem fat_time_roundtrip:
  assumes "get_fat_now now = (date, time)" "1980 \<le> dt_year (unix_to_datetime now)" "dt_year (unix_to_datetime now) < 2108"
  shows "fat_to_unix date time = Some (now - now mod 2) \<and> datetime_to_unix (unix_to_datetime now) = Some now"
proof
  define d where "d = unix_to_datetime now"
  note F = datetime_facts [OF d_def]
  have date: "date = pack_fat_date (dt_year d) (dt_month d) (dt_day d)" and time: "time = pack_fat_time (dt_hour d) (dt_min d) (dt_sec d)"
    using assms(1) by (simp_all add: get_fat_now_def Let_def d_def)
  have ud: "unpack_fat_date date = (dt_year d, dt_month d, dt_day d)" unfolding date using F assms(2,3) by (intro unpack_pack_date) (simp_all add: d_def)
  have ut: "unpack_fat_time time = (dt_hour d, dt_min d, dt_sec d div 2 * 2)" unfolding time using F by (intro unpack_pack_time) simp_all
  have "date \<noteq> 0" using ud F(3) by (auto simp: unpack_fat_date_def)
  define e where "e = \<lparr>dt_year = dt_year d, dt_month = dt_month d, dt_day = dt_day d, dt_hour = dt_hour d, dt_min = dt_min d, dt_sec = dt_sec d div 2 * 2\<rparr>"
  have E: "dt_year e = dt_year d" "dt_month e = dt_month d" "dt_day e = dt_day d" "dt_hour e = dt_hour d" "dt_min e = dt_min d"
    "dt_sec e = dt_sec d div 2 * 2" by (simp_all add: e_def)
  have "fat_to_unix date time = datetime_to_unix e" using \<open>date \<noteq> 0\<close> ud ut by (simp add: fat_to_unix_def e_def)
  also have "\<dots> = Some (word_of_int (uint now - dt_sec d + dt_sec d div 2 * 2))"
  proof -
    have "uint now - dt_sec d + dt_sec d div 2 * 2 = ((years 1970 (dt_year d) + months (dt_year d) (nat (dt_month d - 1)) + (dt_day d - 1)) * 24 + dt_hour d) * 3600 +
      dt_min d * 60 + dt_sec d div 2 * 2" using F(1) by linarith
    then show ?thesis using datetime_to_unix_eq [of e, unfolded E] F(3,4) by simp
  qed
  also have "dt_sec d div 2 * 2 = dt_sec d - dt_sec d mod 2" by (simp add: minus_mod_eq_div_mult)
  also have "dt_sec d mod 2 = uint now mod 2"
  proof -
    have "uint now = 2 * (((years 1970 (dt_year d) + months (dt_year d) (nat (dt_month d - 1)) + (dt_day d - 1)) * 24 + dt_hour d) * 1800 +
        dt_min d * 30) + dt_sec d" using F(1) by (simp add: algebra_simps)
    then show ?thesis by (metis mod_mult_self4)
  qed
  finally have "fat_to_unix date time = Some (word_of_int (uint now - uint now mod 2))" by simp
  moreover have "uint now mod 2 = uint (now mod 2)" using uint_mod_distrib [of now 2] by simp
  ultimately show "fat_to_unix date time = Some (now - now mod 2)" by simp
  show "datetime_to_unix (unix_to_datetime now) = Some now" by (rule datetime_roundtrip)
qed

theorem fat_time_roundtrip_witness:
  "fat_to_unix (fst (get_fat_now 1700000001)) (snd (get_fat_now 1700000001)) = Some 1700000000 \<and> get_fat_now 1700000001 = (0x576E, 0xB1AA)"
proof -
  have g: "get_fat_now 1700000001 = (0x576E, 0xB1AA)" by code_simp
  have "dt_year (unix_to_datetime 1700000001) = 2023" by code_simp
  then show ?thesis using fat_time_roundtrip [OF g] g by simp
qed

end
