(* ===== verification/Fat.thy ===== *)
theory Fat
  imports Blockdev Fattime
begin

section \<open>Clusters and files of the FAT32 file system\<close>

text \<open>
  A model of the half of \<^verbatim>\<open>kernel/fs/fat32.c\<close> that keeps the table of clusters and the contents of files, on top of the
  block device. \<open>denied\<close> is the outcome of the permission check that \<open>vfs_read\<close> and \<open>vfs_write\<close> make on the device for the
  current process. \<open>junk\<close> gives the bytes of memory that the code has not initialised, and \<open>oom\<close> the outcomes of the
  coming calls of \<open>kmalloc\<close> whose result is checked, True for a failure; where the list ends they succeed. The time \<open>now\<close>
  of the clock is an argument. Loops over chains of clusters are partial functions, None when they do not end.
\<close>

abbreviation (input) FAT_EOC :: u32 where "FAT_EOC \<equiv> 0x0FFFFFF8"
abbreviation (input) FAT_MASK :: u32 where "FAT_MASK \<equiv> 0x0FFFFFFF"

record fat32_fs =
  device :: blkdev
  denied :: bool
  junk :: "nat \<Rightarrow> u8"
  oom :: "bool list"
  sectors_per_cluster :: u8
  bytes_per_cluster :: u32
  fat_begin_lba :: u32
  cluster_begin_lba :: u32
  root_cluster :: u32
  total_clusters :: u32
  device_id :: u64

record fat32_file =
  first_cluster :: u32
  parent_cluster :: u32
  dir_entry_cluster :: u32
  dir_entry_offset :: u32

record fnode =
  fn_name :: "u8 list"
  fn_flags :: u32
  fn_size :: u64
  fn_id :: u64
  fn_blocks :: u64
  fn_ctime :: "u64 option"
  fn_mtime :: "u64 option"
  fn_atime :: "u64 option"
  fn_mode :: u32
  fn_uid :: u32
  fn_gid :: u32
  fn_nlink :: u32
  fn_blksize :: u32
  fn_dev :: u64
  fn_ref_count :: u32
  fn_file :: fat32_file

definition kmalloc_fails :: "fat32_fs \<Rightarrow> bool \<times> fat32_fs" where
  "kmalloc_fails fs = (case oom fs of [] \<Rightarrow> (False, fs) | b # bs \<Rightarrow> (b, fs\<lparr>oom := bs\<rparr>))"

definition new_buf :: "nat \<Rightarrow> fat32_fs \<Rightarrow> u8 list" where
  "new_buf n fs = map (junk fs) [0..<n]"

text \<open>\<open>vfs_read\<close> and \<open>vfs_write\<close> on the device, which is no regular file.\<close>

definition dev_read :: "fat32_fs \<Rightarrow> u64 \<Rightarrow> u64 \<Rightarrow> u8 list \<Rightarrow> u8 list" where
  "dev_read fs off sz buf = (if denied fs then buf else snd (virtio_blk_fs_read (device fs) off sz (new_buf 512 fs) buf))"

definition dev_write :: "u64 \<Rightarrow> u64 \<Rightarrow> u8 list \<Rightarrow> fat32_fs \<Rightarrow> fat32_fs" where
  "dev_write off sz buf fs =
     (if denied fs then fs else fs\<lparr>device := snd (virtio_blk_fs_write off sz (new_buf 512 fs) buf (device fs))\<rparr>)"

text \<open>Little-endian numbers in buffers.\<close>

definition load16 :: "u8 list \<Rightarrow> nat \<Rightarrow> u16" where
  "load16 xs i = ucast (xs ! i) OR push_bit 8 (ucast (xs ! (i + 1)))"

definition load32 :: "u8 list \<Rightarrow> nat \<Rightarrow> u32" where
  "load32 xs i = ucast (xs ! i) OR push_bit 8 (ucast (xs ! (i + 1))) OR push_bit 16 (ucast (xs ! (i + 2))) OR push_bit 24 (ucast (xs ! (i + 3)))"

definition le16 :: "u16 \<Rightarrow> u8 list" where
  "le16 v = [ucast v, ucast (drop_bit 8 v)]"

definition le32 :: "u32 \<Rightarrow> u8 list" where
  "le32 v = [ucast v, ucast (drop_bit 8 v), ucast (drop_bit 16 v), ucast (drop_bit 24 v)]"

subsection \<open>The table of clusters\<close>

definition cluster_off :: "fat32_fs \<Rightarrow> u32 \<Rightarrow> u64" where
  "cluster_off fs c = ucast ((cluster_begin_lba fs + (c - 2) * ucast (sectors_per_cluster fs)) * 512)"

definition read_cluster :: "fat32_fs \<Rightarrow> u32 \<Rightarrow> u8 list \<Rightarrow> u8 list" where
  "read_cluster fs c buf = (if c < 2 then buf else dev_read fs (cluster_off fs c) (ucast (bytes_per_cluster fs)) buf)"

definition write_cluster :: "u32 \<Rightarrow> u8 list \<Rightarrow> fat32_fs \<Rightarrow> fat32_fs" where
  "write_cluster c buf fs = (if c < 2 then fs else dev_write (cluster_off fs c) (ucast (bytes_per_cluster fs)) buf fs)"

definition fat_off :: "fat32_fs \<Rightarrow> u32 \<Rightarrow> u64" where
  "fat_off fs c = ucast ((fat_begin_lba fs + (c * 4) div 512) * 512)"

definition get_next_cluster :: "fat32_fs \<Rightarrow> u32 \<Rightarrow> u32" where
  "get_next_cluster fs c = load32 (dev_read fs (fat_off fs c) 512 (new_buf 512 fs)) (unat ((c * 4) mod 512)) AND FAT_MASK"

definition set_cluster_value :: "u32 \<Rightarrow> u32 \<Rightarrow> fat32_fs \<Rightarrow> fat32_fs" where
  "set_cluster_value c v fs =
     (let sbuf = dev_read fs (fat_off fs c) 512 (new_buf 512 fs);
          ent = unat ((c * 4) mod 512);
          entry = (load32 sbuf ent AND 0xF0000000) OR (v AND FAT_MASK)
      in dev_write (fat_off fs c) 512 (splice ent (le32 entry) sbuf) fs)"

text \<open>The search for a free cluster: \<open>n\<close> sectors of the table are left, \<open>sector\<close> is the next one.\<close>

definition scan_sector :: "u8 list \<Rightarrow> u32 \<Rightarrow> u32 option" where
  "scan_sector sbuf sector =
     map_option (\<lambda>i. sector * 128 + word_of_nat i)
       (find (\<lambda>i. sector * 128 + word_of_nat i \<ge> 2 \<and> load32 sbuf (i * 4) AND FAT_MASK = 0) [0..<128])"

fun scan_fat :: "fat32_fs \<Rightarrow> nat \<Rightarrow> u32 \<Rightarrow> u8 list \<Rightarrow> u32" where
  "scan_fat fs 0 sector sbuf = 0"
| "scan_fat fs (Suc n) sector sbuf =
     (let sbuf = dev_read fs (ucast ((fat_begin_lba fs + sector) * 512)) 512 sbuf
      in case scan_sector sbuf sector of Some c \<Rightarrow> c | None \<Rightarrow> scan_fat fs n (sector + 1) sbuf)"

definition find_free_cluster :: "fat32_fs \<Rightarrow> u32" where
  "find_free_cluster fs = scan_fat fs (unat ((total_clusters fs * 4 + 511) div 512)) 0 (new_buf 512 fs)"

definition allocate_cluster :: "u32 \<Rightarrow> fat32_fs \<Rightarrow> u32 \<times> fat32_fs" where
  "allocate_cluster prev fs =
     (let c = find_free_cluster fs
      in if c = 0 then (0, fs)
         else let fs = set_cluster_value c FAT_EOC fs;
                  fs = (if prev \<ge> 2 then set_cluster_value prev c fs else fs);
                  (fails, fs) = kmalloc_fails fs
              in if fails then (0, set_cluster_value c 0 fs)
                 else (c, write_cluster c (replicate (unat (bytes_per_cluster fs)) 0) fs))"

partial_function (option) free_cluster_chain :: "u32 \<Rightarrow> fat32_fs \<Rightarrow> fat32_fs option" where
  "free_cluster_chain c fs =
     (if c \<ge> 2 \<and> c < FAT_EOC
      then free_cluster_chain (get_next_cluster fs c) (set_cluster_value c 0 fs)
      else Some fs)"

subsection \<open>Reading and writing files\<close>

fun skip_clusters :: "fat32_fs \<Rightarrow> nat \<Rightarrow> u32 \<Rightarrow> u32 option" where
  "skip_clusters fs 0 c = Some c"
| "skip_clusters fs (Suc n) c =
     (let c = get_next_cluster fs c in if c \<ge> FAT_EOC then None else skip_clusters fs n c)"

partial_function (option) read_clusters ::
  "fat32_fs \<Rightarrow> u32 \<Rightarrow> nat \<Rightarrow> nat \<Rightarrow> nat \<Rightarrow> nat \<Rightarrow> u8 list \<Rightarrow> u8 list \<Rightarrow> (nat \<times> u8 list) option" where
  "read_clusters fs c csz co sz rd clbuf buf =
     (if rd < sz \<and> c < FAT_EOC
      then let clbuf = read_cluster fs c clbuf;
               n = (if csz - co > sz - rd then sz - rd else csz - co)
           in read_clusters fs (get_next_cluster fs c) csz 0 sz (rd + n) clbuf (splice rd (take n (drop co clbuf)) buf)
      else Some (rd, buf))"

text \<open>The last part of a read or write: the entry of the file in its directory is updated.\<close>

definition update_entry :: "fat32_file \<Rightarrow> (u8 list \<Rightarrow> u8 list) \<Rightarrow> fat32_fs \<Rightarrow> bool \<times> fat32_fs" where
  "update_entry f upd fs =
     (if dir_entry_cluster f \<ge> 2
      then let (fails, fs) = kmalloc_fails fs
           in if fails then (False, fs)
              else let buf = read_cluster fs (dir_entry_cluster f) (new_buf (unat (bytes_per_cluster fs)) fs)
                   in (True, write_cluster (dir_entry_cluster f) (upd buf) fs)
      else (False, fs))"

definition fat32_read_file :: "u64 \<Rightarrow> fnode \<Rightarrow> u64 \<Rightarrow> u64 \<Rightarrow> u8 list \<Rightarrow> fat32_fs \<Rightarrow> (u64 \<times> u8 list \<times> fnode \<times> fat32_fs) option" where
  "fat32_read_file now node offset sz buf fs =
     (if offset \<ge> fn_size node then Some (0, buf, node, fs)
      else let sz = (if offset + sz > fn_size node then fn_size node - offset else sz)
           in if sz = 0 then Some (0, buf, node, fs)
              else let f = fn_file node;
                       csz = bytes_per_cluster fs;
                       skip = ucast (offset div ucast csz) :: u32;
                       co = ucast (offset mod ucast csz) :: u32
                   in case skip_clusters fs (unat skip) (first_cluster f) of
                        None \<Rightarrow> Some (0, buf, node, fs)
                      | Some c \<Rightarrow>
                          (case kmalloc_fails fs of
                             (fails, fs) \<Rightarrow>
                               if fails then Some (0, buf, node, fs)
                               else case read_clusters fs c (unat csz) (unat co) (unat sz) 0 (new_buf (unat csz) fs) buf of
                                      None \<Rightarrow> None
                                    | Some (rd, buf) \<Rightarrow>
                                        let (date, time) = get_fat_now now;
                                            node = node\<lparr>fn_atime := fat_to_unix date time\<rparr>;
                                            (_, fs) = update_entry f (splice (unat (dir_entry_offset f) + 18) (le16 date)) fs
                                        in Some (word_of_nat rd, buf, node, fs)))"

fun skip_alloc :: "nat \<Rightarrow> u32 \<Rightarrow> fat32_fs \<Rightarrow> u32 option \<times> fat32_fs" where
  "skip_alloc 0 c fs = (Some c, fs)"
| "skip_alloc (Suc n) c fs =
     (let nxt = get_next_cluster fs c
      in if nxt \<ge> FAT_EOC
         then case allocate_cluster c fs of (nxt, fs) \<Rightarrow> if nxt = 0 then (None, fs) else skip_alloc n nxt fs
         else skip_alloc n nxt fs)"

partial_function (option) write_clusters ::
  "u32 \<Rightarrow> nat \<Rightarrow> nat \<Rightarrow> nat \<Rightarrow> nat \<Rightarrow> u8 list \<Rightarrow> u8 list \<Rightarrow> fat32_fs \<Rightarrow> (nat \<times> fat32_fs) option" where
  "write_clusters c csz co sz wr clbuf buf fs =
     (if wr < sz
      then let clbuf = read_cluster fs c clbuf;
               n = (if csz - co > sz - wr then sz - wr else csz - co);
               clbuf = splice co (take n (drop wr buf)) clbuf;
               fs = write_cluster c clbuf fs;
               wr = wr + n
           in if wr < sz
              then let nxt = get_next_cluster fs c
                   in if nxt \<ge> FAT_EOC
                      then case allocate_cluster c fs of
                             (nxt, fs) \<Rightarrow> if nxt = 0 then Some (wr, fs) else write_clusters nxt csz 0 sz wr clbuf buf fs
                      else write_clusters nxt csz 0 sz wr clbuf buf fs
              else Some (wr, fs)
      else Some (wr, fs))"

definition entry_written :: "fat32_file \<Rightarrow> u64 \<Rightarrow> u16 \<Rightarrow> u16 \<Rightarrow> u8 list \<Rightarrow> u8 list" where
  "entry_written f sz date time buf =
     (let eo = unat (dir_entry_offset f);
          buf = splice (eo + 28) (le32 (ucast sz)) buf;
          buf = splice (eo + 26) (le16 (ucast (first_cluster f AND 0xFFFF))) buf;
          buf = splice (eo + 20) (le16 (ucast (drop_bit 16 (first_cluster f) AND 0xFFFF))) buf;
          buf = splice (eo + 24) (le16 date) buf;
          buf = splice (eo + 22) (le16 time) buf
      in splice (eo + 18) (le16 date) buf)"

definition write_finish :: "u64 \<Rightarrow> u64 \<Rightarrow> nat \<Rightarrow> fnode \<Rightarrow> fat32_fs \<Rightarrow> u64 \<times> fnode \<times> fat32_fs" where
  "write_finish now offset wr node fs =
     (let written = word_of_nat wr;
          node = (if offset + written > fn_size node
                  then node\<lparr>fn_size := offset + written, fn_blocks := (offset + written + 511) div 512\<rparr>
                  else node);
          (date, time) = get_fat_now now;
          (updated, fs) = update_entry (fn_file node) (entry_written (fn_file node) (fn_size node) date time) fs;
          node = (if updated then node\<lparr>fn_mtime := fat_to_unix date time, fn_atime := fat_to_unix date time\<rparr> else node)
      in (written, node, fs))"

definition fat32_write_file :: "u64 \<Rightarrow> fnode \<Rightarrow> u64 \<Rightarrow> u64 \<Rightarrow> u8 list \<Rightarrow> fat32_fs \<Rightarrow> (u64 \<times> fnode \<times> fat32_fs) option" where
  "fat32_write_file now node offset sz buf fs =
     (if sz = 0 then Some (0, node, fs)
      else let csz = bytes_per_cluster fs;
               c = first_cluster (fn_file node);
               (c, fs) = (if c < 2 then allocate_cluster 0 fs else (c, fs))
           in if c = 0 then Some (0, node, fs)
              else let node = (if first_cluster (fn_file node) < 2 then node\<lparr>fn_file := (fn_file node)\<lparr>first_cluster := c\<rparr>\<rparr> else node);
                       skip = ucast (offset div ucast csz) :: u32;
                       co = ucast (offset mod ucast csz) :: u32;
                       (cl, fs) = skip_alloc (unat skip) c fs
                   in case cl of
                        None \<Rightarrow> Some (0, node, fs)
                      | Some c \<Rightarrow>
                          (case kmalloc_fails fs of
                             (fails, fs) \<Rightarrow>
                               if fails then Some (0, node, fs)
                               else case write_clusters c (unat csz) (unat co) (unat sz) 0 (new_buf (unat csz) fs) buf fs of
                                      None \<Rightarrow> None
                                    | Some (wr, fs) \<Rightarrow> Some (write_finish now offset wr node fs)))"

subsection \<open>Numbers in buffers\<close>

lemma length_le [simp]: "length (le32 v) = 4" "length (le16 w) = 2"
  by (simp_all add: le32_def le16_def)

lemma bits_le32:
  "(ucast (ucast v :: u8) OR push_bit 8 (ucast (ucast (drop_bit 8 v) :: u8)) OR push_bit 16 (ucast (ucast (drop_bit 16 v) :: u8)) OR
    push_bit 24 (ucast (ucast (drop_bit 24 v) :: u8)) :: u32) = v"
proof (rule bit_word_eqI)
  fix n assume "n < LENGTH(32)"
  then consider "n < 8" | "8 \<le> n" "n < 16" | "16 \<le> n" "n < 24" | "24 \<le> n" "n < 32" by fastforce
  then show "bit (ucast (ucast v :: u8) OR push_bit 8 (ucast (ucast (drop_bit 8 v) :: u8)) OR push_bit 16 (ucast (ucast (drop_bit 16 v) :: u8)) OR
    push_bit 24 (ucast (ucast (drop_bit 24 v) :: u8)) :: u32) n = bit v n"
    by cases (auto simp: bit_simps)
qed

lemma load_splice_le32:
  assumes "i + 4 \<le> length xs"
  shows "load32 (splice i (le32 v) xs) i = v"
proof -
  have "splice i (le32 v) xs ! (i + k) = le32 v ! k" if "k < 4" for k using nth_splice [of i "le32 v" xs "i + k"] assms that by simp
  from this [of 0] this [of 1] this [of 2] this [of 3] show ?thesis using bits_le32 [of v] by (simp add: load32_def le32_def)
qed

lemma bits_le16: "(ucast (ucast v :: u8) OR push_bit 8 (ucast (ucast (drop_bit 8 v) :: u8)) :: u16) = v"
proof (rule bit_word_eqI)
  fix n assume "n < LENGTH(16)"
  then consider "n < 8" | "8 \<le> n" "n < 16" by fastforce
  then show "bit (ucast (ucast v :: u8) OR push_bit 8 (ucast (ucast (drop_bit 8 v) :: u8)) :: u16) n = bit v n"
    by cases (auto simp: bit_simps)
qed

lemma load_bytes_at: "i + 4 \<le> n \<Longrightarrow> load32 (bytes_at m a n) i = load32 (bytes_at m (a + i) 4) 0"
  by (simp add: load32_def add.assoc)

lemma load_le32: "load32 (le32 v) 0 = v"
  using bits_le32 [of v] by (simp add: load32_def le32_def)

subsection \<open>The layout of the volume\<close>

abbreviation "spc fs \<equiv> unat (sectors_per_cluster fs)"
abbreviation "csize fs \<equiv> unat (bytes_per_cluster fs)"
abbreviation "clusters fs \<equiv> unat (total_clusters fs)"
abbreviation "disk fs \<equiv> d_mem (device fs)"

definition upd :: "(nat \<Rightarrow> u8) \<Rightarrow> fat32_fs \<Rightarrow> fat32_fs" where
  "upd m fs = fs\<lparr>device := (device fs)\<lparr>d_mem := m\<rparr>\<rparr>"

text \<open>The table lies in front of the clusters and covers them, and byte offsets fit in 32 bits.\<close>

definition geom :: "fat32_fs \<Rightarrow> bool" where
  "geom fs \<longleftrightarrow> \<not> denied fs \<and> dev_works (device fs) \<and> 0 < spc fs \<and> csize fs = spc fs * 512 \<and>
     unat (fat_begin_lba fs) * 512 + (clusters fs + 2) * 4 \<le> unat (cluster_begin_lba fs) * 512 \<and>
     (unat (cluster_begin_lba fs) + clusters fs * spc fs) * 512 \<le> 2 ^ 32"

definition fat_addr :: "fat32_fs \<Rightarrow> nat \<Rightarrow> nat" where
  "fat_addr fs k = unat (fat_begin_lba fs) * 512 + 4 * k"

definition data_addr :: "fat32_fs \<Rightarrow> u32 \<Rightarrow> nat" where
  "data_addr fs c = (unat (cluster_begin_lba fs) + (unat c - 2) * spc fs) * 512"

definition entry_at :: "fat32_fs \<Rightarrow> nat \<Rightarrow> u32" where
  "entry_at fs k = load32 (bytes_at (disk fs) (fat_addr fs k) 4) 0"

definition data :: "fat32_fs \<Rightarrow> u32 \<Rightarrow> u8 list" where
  "data fs c = bytes_at (disk fs) (data_addr fs c) (csize fs)"

definition valid :: "fat32_fs \<Rightarrow> u32 \<Rightarrow> bool" where
  "valid fs c \<longleftrightarrow> 2 \<le> unat c \<and> unat c < clusters fs + 2"

lemma upd_simps [simp]:
  "disk (upd m fs) = m" "fat_begin_lba (upd m fs) = fat_begin_lba fs" "cluster_begin_lba (upd m fs) = cluster_begin_lba fs"
  "sectors_per_cluster (upd m fs) = sectors_per_cluster fs" "bytes_per_cluster (upd m fs) = bytes_per_cluster fs"
  "total_clusters (upd m fs) = total_clusters fs" "root_cluster (upd m fs) = root_cluster fs" "oom (upd m fs) = oom fs" "junk (upd m fs) = junk fs"
  "geom (upd m fs) = geom fs" "valid (upd m fs) = valid fs" "fat_addr (upd m fs) = fat_addr fs" "data_addr (upd m fs) = data_addr fs"
  "upd m (upd m' fs) = upd m fs"
  by (auto simp: upd_def geom_def dev_works_def valid_def fat_addr_def data_addr_def fun_eq_iff)

lemma oom_simps [simp]: "disk (fs\<lparr>oom := x\<rparr>) = disk fs" "geom (fs\<lparr>oom := x\<rparr>) = geom fs" "valid (fs\<lparr>oom := x\<rparr>) = valid fs"
  "fat_addr (fs\<lparr>oom := x\<rparr>) = fat_addr fs" "data_addr (fs\<lparr>oom := x\<rparr>) = data_addr fs" "data (fs\<lparr>oom := x\<rparr>) = data fs"
  "entry_at (fs\<lparr>oom := x\<rparr>) = entry_at fs"
  by (auto simp: geom_def valid_def fat_addr_def data_addr_def data_def entry_at_def fun_eq_iff)

lemma geom_bounds:
  assumes g: "geom fs"
  shows "clusters fs < 2 ^ 23" "unat (cluster_begin_lba fs) \<le> 2 ^ 23" "unat (fat_begin_lba fs) \<le> 2 ^ 23" "csize fs < 2 ^ 17"
    "c < clusters fs + 2 \<Longrightarrow> fat_addr fs c + 4 \<le> unat (cluster_begin_lba fs) * 512"
    "valid fs d \<Longrightarrow> unat (cluster_begin_lba fs) * 512 \<le> data_addr fs d \<and> data_addr fs d + csize fs \<le> 2 ^ 32"
proof -
  note G = g [unfolded geom_def]
  have cb: "unat (cluster_begin_lba fs) + clusters fs * spc fs \<le> 2 ^ 23" using G by simp
  have fb: "unat (fat_begin_lba fs) * 512 + (clusters fs + 2) * 4 \<le> unat (cluster_begin_lba fs) * 512" using G by blast
  have "clusters fs * 1 \<le> clusters fs * spc fs" using G by (intro mult_le_mono2) simp
  then have "unat (cluster_begin_lba fs) + clusters fs \<le> 2 ^ 23" using cb by linarith
  then show "clusters fs < 2 ^ 23" "unat (cluster_begin_lba fs) \<le> 2 ^ 23" "unat (fat_begin_lba fs) \<le> 2 ^ 23" using fb cb by simp_all
  have "spc fs < 2 ^ 8" using unat_lt2p [of "sectors_per_cluster fs"] by simp
  then show "csize fs < 2 ^ 17" using G by simp
  show "c < clusters fs + 2 \<Longrightarrow> fat_addr fs c + 4 \<le> unat (cluster_begin_lba fs) * 512" using G by (simp add: fat_addr_def)
  assume d: "valid fs d"
  have "(unat d - 2 + 1) * spc fs \<le> clusters fs * spc fs" using d by (intro mult_le_mono1) (auto simp: valid_def)
  then show "unat (cluster_begin_lba fs) * 512 \<le> data_addr fs d \<and> data_addr fs d + csize fs \<le> 2 ^ 32"
    using G by (auto simp: data_addr_def algebra_simps)
qed

lemma data_apart:
  assumes g: "geom fs" and c: "valid fs c" and d: "valid fs d" and ne: "c \<noteq> d"
  shows "data_addr fs c + csize fs \<le> data_addr fs d \<or> data_addr fs d + csize fs \<le> data_addr fs c"
proof -
  have "unat c \<noteq> unat d" using ne by (simp add: word_unat_eq_iff)
  then have "unat c - 2 + 1 \<le> unat d - 2 \<or> unat d - 2 + 1 \<le> unat c - 2" using c d by (auto simp: valid_def)
  then have "(unat c - 2 + 1) * spc fs \<le> (unat d - 2) * spc fs \<or> (unat d - 2 + 1) * spc fs \<le> (unat c - 2) * spc fs"
    using mult_le_mono1 by blast
  then show ?thesis using g by (auto simp: data_addr_def geom_def algebra_simps)
qed

subsection \<open>Access to the volume\<close>

lemma unat_ucast64 [simp]: "unat (ucast (x :: u32) :: u64) = unat x"
  using unat_lt2p [of x] by (intro unat_ucast_small) simp

lemma unat_mult_small: "unat a * unat b < 2 ^ LENGTH('a) \<Longrightarrow> unat (a * b) = unat a * unat (b :: 'a :: len word)"
  by (simp add: unat_word_ariths)

lemma dev_read_ok:
  assumes "geom fs" "unat off + unat sz \<le> 2 ^ 64" "length buf = unat sz"
  shows "dev_read fs off sz buf = bytes_at (disk fs) (unat off) (unat sz)"
  using assms blk_read_ok [of "device fs" off sz buf] by (simp add: dev_read_def geom_def splice_all)

lemma dev_write_ok:
  assumes "geom fs" "unat off + unat sz \<le> 2 ^ 64" "length buf = unat sz"
  shows "dev_write off sz buf fs = upd (put_bytes (unat off) buf (disk fs)) fs"
  using assms blk_write_ok [of "device fs" off sz buf "new_buf 512 fs"] by (simp add: dev_write_def geom_def upd_def new_buf_def)

lemma fat_sector:
  assumes g: "geom fs" and c: "unat c < clusters fs + 2"
  shows "unat (fat_off fs c) + unat ((c * 4) mod 512) = fat_addr fs (unat c)" "unat ((c * 4) mod 512) + 4 \<le> 512" "unat (fat_off fs c) + 512 \<le> 2 ^ 64"
proof -
  note B = geom_bounds [OF g]
  have u4: "unat (c * 4) = unat c * 4" using c B(1) by (simp add: unat_word_ariths)
  have m: "unat ((c * 4) mod 512) = unat c * 4 mod 512" by (simp add: unat_mod u4)
  have q: "unat ((c * 4) div 512) = unat c * 4 div 512" by (simp add: unat_div u4)
  have le: "(unat (fat_begin_lba fs) + unat c * 4 div 512) * 512 \<le> fat_addr fs (unat c)"
    using div_times_less_eq_dividend [of "unat c * 4" 512] by (simp add: fat_addr_def)
  moreover have "fat_addr fs (unat c) < 2 ^ 32" using B(2) B(5) [OF c] by simp
  ultimately have lt: "(unat (fat_begin_lba fs) + unat c * 4 div 512) * 512 < 2 ^ 32" by linarith
  have s: "unat (fat_begin_lba fs + (c * 4) div 512) = unat (fat_begin_lba fs) + unat c * 4 div 512"
    using lt q by (subst unat_add_no_overflow) simp_all
  have "unat ((fat_begin_lba fs + (c * 4) div 512) * 512) = (unat (fat_begin_lba fs) + unat c * 4 div 512) * 512"
    using s lt by (simp add: unat_word_ariths)
  then have off: "unat (fat_off fs c) = (unat (fat_begin_lba fs) + unat c * 4 div 512) * 512"
    unfolding fat_off_def unat_ucast64 .
  show "unat (fat_off fs c) + unat ((c * 4) mod 512) = fat_addr fs (unat c)"
    using div_mult_mod_eq [of "unat c * 4" 512] unfolding off m fat_addr_def by (simp only: add_mult_distrib)
  have "4 dvd unat c * 4 mod 512" by (rule dvd_mod) simp_all
  then obtain k where k: "unat c * 4 mod 512 = 4 * k" by (elim dvdE)
  moreover have "unat c * 4 mod 512 < 512" by simp
  ultimately have "k < 128" by linarith
  then show "unat ((c * 4) mod 512) + 4 \<le> 512" unfolding m k by linarith
  show "unat (fat_off fs c) + 512 \<le> 2 ^ 64" using lt by (simp add: off)
qed

lemma get_next_eq:
  assumes g: "geom fs" and c: "unat c < clusters fs + 2"
  shows "get_next_cluster fs c = entry_at fs (unat c) AND FAT_MASK"
proof -
  note S = fat_sector [OF g c]
  have "dev_read fs (fat_off fs c) 512 (new_buf 512 fs) = bytes_at (disk fs) (unat (fat_off fs c)) 512"
    using dev_read_ok [OF g, of "fat_off fs c" 512] S(3) by (simp add: new_buf_def)
  then show ?thesis unfolding get_next_cluster_def entry_at_def using load_bytes_at [OF S(2)] S(1) by simp
qed

lemma set_cluster_eq:
  assumes g: "geom fs" and c: "unat c < clusters fs + 2"
  shows "\<exists>e. set_cluster_value c v fs = upd (put_bytes (fat_addr fs (unat c)) (le32 e) (disk fs)) fs \<and> e AND FAT_MASK = v AND FAT_MASK"
proof -
  note S = fat_sector [OF g c]
  let ?b = "bytes_at (disk fs) (unat (fat_off fs c)) 512" and ?ent = "unat ((c * 4) mod 512)"
  define e where "e = (load32 ?b ?ent AND 0xF0000000) OR (v AND FAT_MASK)"
  have r: "dev_read fs (fat_off fs c) 512 (new_buf 512 fs) = ?b"
    using dev_read_ok [OF g, of "fat_off fs c" 512] S(3) by (simp add: new_buf_def)
  have "set_cluster_value c v fs = upd (put_bytes (unat (fat_off fs c)) (splice ?ent (le32 e) ?b) (disk fs)) fs"
    unfolding set_cluster_value_def r Let_def e_def [symmetric] using dev_write_ok [OF g, of "fat_off fs c" 512] S(2,3) by simp
  moreover have "put_bytes (unat (fat_off fs c)) (splice ?ent (le32 e) ?b) (disk fs) = put_bytes (fat_addr fs (unat c)) (le32 e) (disk fs)"
    using put_bytes_splice [of ?ent "le32 e" 512] S(1,2) by simp
  moreover have "e AND FAT_MASK = v AND FAT_MASK" unfolding e_def by (simp add: bit.conj_disj_distrib2 and.assoc)
  ultimately show ?thesis by auto
qed

lemma cluster_off_eq:
  assumes g: "geom fs" and c: "valid fs c"
  shows "unat (cluster_off fs c) = data_addr fs c" "\<not> c < 2"
proof -
  show c2: "\<not> c < 2" using c by (simp add: valid_def word_less_nat_alt)
  have u: "unat (c - 2) = unat c - 2" using c2 by (simp add: unat_sub_le not_less)
  have lt: "data_addr fs c < 2 ^ 32" using geom_bounds(6) [OF g c] g by (auto simp: geom_def)
  have "unat (ucast (sectors_per_cluster fs) :: u32) = spc fs" using unat_lt2p [of "sectors_per_cluster fs"] by (intro unat_ucast_small) simp
  then have p: "unat ((c - 2) * ucast (sectors_per_cluster fs)) = (unat c - 2) * spc fs"
    using u lt by (subst unat_mult_small) (simp_all add: data_addr_def)
  then have q: "unat (cluster_begin_lba fs + (c - 2) * ucast (sectors_per_cluster fs)) = unat (cluster_begin_lba fs) + (unat c - 2) * spc fs"
    using lt by (subst unat_add_no_overflow) (simp_all add: data_addr_def)
  have "unat ((cluster_begin_lba fs + (c - 2) * ucast (sectors_per_cluster fs)) * 512) = data_addr fs c"
    using lt q by (subst unat_mult_small) (simp_all add: data_addr_def)
  then show "unat (cluster_off fs c) = data_addr fs c" unfolding cluster_off_def unat_ucast64 .
qed

lemma read_cluster_eq:
  assumes g: "geom fs" and c: "valid fs c" and b: "length buf = csize fs"
  shows "read_cluster fs c buf = data fs c"
proof -
  note O = cluster_off_eq [OF g c]
  have "data_addr fs c + csize fs \<le> 2 ^ 32" using geom_bounds(6) [OF g c] by blast
  then show ?thesis using dev_read_ok [OF g, of "cluster_off fs c" "ucast (bytes_per_cluster fs)" buf] b O
    by (simp add: read_cluster_def data_def)
qed

lemma write_cluster_eq:
  assumes g: "geom fs" and c: "valid fs c" and b: "length buf = csize fs"
  shows "write_cluster c buf fs = upd (put_bytes (data_addr fs c) buf (disk fs)) fs"
proof -
  note O = cluster_off_eq [OF g c]
  have "data_addr fs c + csize fs \<le> 2 ^ 32" using geom_bounds(6) [OF g c] by blast
  then show ?thesis using dev_write_ok [OF g, of "cluster_off fs c" "ucast (bytes_per_cluster fs)" buf] b O
    by (simp add: write_cluster_def)
qed

subsection \<open>The laws of the cluster store\<close>

lemma entry_upd: "entry_at (upd m fs) k = load32 (bytes_at m (fat_addr fs k) 4) 0"
  by (simp add: entry_at_def)

lemma data_upd: "data (upd m fs) c = bytes_at m (data_addr fs c) (csize fs)"
  by (simp add: data_def)

lemma set_next:
  assumes g: "geom fs" and c: "unat c < clusters fs + 2" and d: "unat d < clusters fs + 2"
  shows "get_next_cluster (set_cluster_value c v fs) d = (if d = c then v AND FAT_MASK else get_next_cluster fs d)"
proof -
  obtain e where e: "set_cluster_value c v fs = upd (put_bytes (fat_addr fs (unat c)) (le32 e) (disk fs)) fs" "e AND FAT_MASK = v AND FAT_MASK"
    using set_cluster_eq [OF g c] by blast
  let ?m = "put_bytes (fat_addr fs (unat c)) (le32 e) (disk fs)"
  have n: "get_next_cluster (set_cluster_value c v fs) d = load32 (bytes_at ?m (fat_addr fs (unat d)) 4) 0 AND FAT_MASK"
    using get_next_eq [of "upd ?m fs" d] g d by (simp add: e(1) entry_upd)
  show ?thesis
  proof (cases "d = c")
    case True
    then show ?thesis using n e(2) bytes_at_put [of "fat_addr fs (unat c)" "le32 e" "disk fs"] by (simp add: load_le32)
  next
    case False
    then have "unat d \<noteq> unat c" by (simp add: word_unat_eq_iff)
    then have "bytes_at ?m (fat_addr fs (unat d)) 4 = bytes_at (disk fs) (fat_addr fs (unat d)) 4"
      by (intro bytes_at_cong) (auto simp: put_bytes_def fat_addr_def)
    then show ?thesis using n False get_next_eq [OF g d] by (simp add: entry_at_def)
  qed
qed

lemma set_data:
  assumes g: "geom fs" and c: "unat c < clusters fs + 2" and d: "valid fs d"
  shows "data (set_cluster_value c v fs) d = data fs d"
proof -
  obtain e where e: "set_cluster_value c v fs = upd (put_bytes (fat_addr fs (unat c)) (le32 e) (disk fs)) fs"
    using set_cluster_eq [OF g c] by blast
  have "put_bytes (fat_addr fs (unat c)) (le32 e) (disk fs) i = disk fs i" if "data_addr fs d \<le> i" for i
    using that geom_bounds(5) [OF g c] geom_bounds(6) [OF g d] by (auto simp: put_bytes_def)
  then show ?thesis unfolding e data_upd by (simp add: data_def bytes_at_def)
qed

lemma put_next:
  assumes g: "geom fs" and c: "valid fs c" and b: "length buf = csize fs" and d: "unat d < clusters fs + 2"
  shows "get_next_cluster (write_cluster c buf fs) d = get_next_cluster fs d"
proof -
  let ?m = "put_bytes (data_addr fs c) buf (disk fs)"
  have "bytes_at ?m (fat_addr fs (unat d)) 4 = bytes_at (disk fs) (fat_addr fs (unat d)) 4"
    using geom_bounds(5) [OF g d] geom_bounds(6) [OF g c] by (intro bytes_at_cong) (auto simp: put_bytes_def)
  then show ?thesis using write_cluster_eq [OF g c b] get_next_eq [OF g d] get_next_eq [of "upd ?m fs" d] g d by (simp add: entry_upd entry_at_def)
qed

lemma put_data:
  assumes g: "geom fs" and c: "valid fs c" and b: "length buf = csize fs" and d: "valid fs d"
  shows "data (write_cluster c buf fs) d = (if d = c then buf else data fs d)"
proof (cases "d = c")
  case True
  then show ?thesis using write_cluster_eq [OF g c b] bytes_at_put [of "data_addr fs c" buf "disk fs"] b by (simp add: data_upd)
next
  case False
  then have "bytes_at (put_bytes (data_addr fs c) buf (disk fs)) (data_addr fs d) (csize fs) = bytes_at (disk fs) (data_addr fs d) (csize fs)"
    using data_apart [OF g c d] b by (intro bytes_at_cong) (auto simp: put_bytes_def)
  then show ?thesis using write_cluster_eq [OF g c b] False by (simp add: data_upd data_def)
qed

text \<open>All that the operations leave as it is.\<close>

definition vol :: "fat32_fs \<Rightarrow> (bool \<times> (nat \<Rightarrow> bool) \<times> (nat \<Rightarrow> u8)) \<times> u8 \<times> u32 \<times> u32 \<times> u32 \<times> u32 \<times> u32 \<times> u64" where
  "vol fs = ((denied fs, d_fail (device fs), junk fs), sectors_per_cluster fs, bytes_per_cluster fs, fat_begin_lba fs, cluster_begin_lba fs,
     root_cluster fs, total_clusters fs, device_id fs)"

lemma vol_upd [simp]: "vol (upd m fs) = vol fs" "vol (fs\<lparr>oom := x\<rparr>) = vol fs"
  by (simp_all add: vol_def upd_def)

lemma vol_same:
  assumes "vol fs' = vol fs"
  shows "geom fs' = geom fs" "valid fs' = valid fs" "bytes_per_cluster fs' = bytes_per_cluster fs" "total_clusters fs' = total_clusters fs" "junk fs' = junk fs"
    "root_cluster fs' = root_cluster fs" "device_id fs' = device_id fs"
  using assms by (auto simp: vol_def geom_def dev_works_def valid_def fun_eq_iff)

lemma vol_set: "geom fs \<Longrightarrow> unat c < clusters fs + 2 \<Longrightarrow> vol (set_cluster_value c v fs) = vol fs \<and> oom (set_cluster_value c v fs) = oom fs"
  using set_cluster_eq [of fs c v] by auto

lemma vol_write: "geom fs \<Longrightarrow> valid fs c \<Longrightarrow> length buf = csize fs \<Longrightarrow> vol (write_cluster c buf fs) = vol fs \<and> oom (write_cluster c buf fs) = oom fs"
  using write_cluster_eq [of fs c buf] by auto

lemma valid_lt: "valid fs c \<Longrightarrow> unat c < clusters fs + 2"
  by (simp add: valid_def)

lemma valid_mask:
  assumes "geom fs" "valid fs c"
  shows "c AND FAT_MASK = c" "c < FAT_EOC" "2 \<le> c"
proof -
  have lt: "unat c < 2 ^ 28" "unat c < 0x0FFFFFF8" using geom_bounds(1) [OF assms(1)] assms(2) by (auto simp: valid_def)
  then show "c < FAT_EOC" by (simp add: word_less_nat_alt)
  show "2 \<le> c" using assms(2) by (simp add: valid_def word_le_nat_alt)
  have "take_bit 28 c = c" using lt(1) by (simp add: word_unat_eq_iff unsigned_take_bit_eq take_bit_nat_eq_self)
  moreover have "FAT_MASK = mask 28" by (simp add: mask_eq_exp_minus_1)
  ultimately show "c AND FAT_MASK = c" using take_bit_eq_mask [of 28 c] by simp
qed

text \<open>A chain of clusters: each entry is the next cluster, the last one marks the end.\<close>

fun linked :: "(u32 \<Rightarrow> u32) \<Rightarrow> u32 \<Rightarrow> u32 list \<Rightarrow> bool" where
  "linked nx c [] \<longleftrightarrow> False"
| "linked nx c [x] \<longleftrightarrow> c = x \<and> nx x \<ge> FAT_EOC"
| "linked nx c (x # y # ys) \<longleftrightarrow> c = x \<and> linked nx (nx x) (y # ys)"

lemma linked_cong: "(\<And>x. x \<in> set xs \<Longrightarrow> nx' x = nx x) \<Longrightarrow> linked nx' c xs = linked nx c xs"
  by (induction nx c xs rule: linked.induct) auto

lemma linked_snoc:
  assumes "linked nx c xs" "distinct xs" "y \<notin> set xs" "nx' y \<ge> FAT_EOC" "nx' (last xs) = y" "\<And>x. x \<in> set xs \<Longrightarrow> x \<noteq> last xs \<Longrightarrow> nx' x = nx x"
  shows "linked nx' c (xs @ [y])"
  using assms
proof (induction nx c xs rule: linked.induct)
  case (3 nx c x y' ys)
  have "nx' x = nx x" using 3(3) 3(7) [of x] last_in_set [of "y' # ys"] by auto
  moreover have "linked nx' (nx x) ((y' # ys) @ [y])"
    by (rule 3(1)) (use 3(2-6) 3(7) in auto)
  ultimately show ?case using 3(2) by simp
qed simp_all

lemma linked_head: "linked nx c xs \<Longrightarrow> xs \<noteq> [] \<and> c = hd xs"
  by (induction nx c xs rule: linked.induct) auto

lemma linked_nth: "linked nx c xs \<Longrightarrow> Suc i < length xs \<Longrightarrow> nx (xs ! i) = xs ! Suc i"
proof (induction nx c xs arbitrary: i rule: linked.induct)
  case (3 nx c x y ys)
  then show ?case using linked_head [of nx "nx x" "y # ys"] by (cases i) auto
qed auto

lemma linked_last: "linked nx c xs \<Longrightarrow> nx (last xs) \<ge> FAT_EOC"
  by (induction nx c xs rule: linked.induct) auto

definition chain :: "(u32 \<Rightarrow> u32) \<Rightarrow> (u32 \<Rightarrow> bool) \<Rightarrow> u32 \<Rightarrow> u32 list \<Rightarrow> bool" where
  "chain nx good c xs \<longleftrightarrow> linked nx c xs \<and> distinct xs \<and> (\<forall>x \<in> set xs. good x)"

locale cluster_store =
  fixes ok :: "'s \<Rightarrow> bool" and good :: "'s \<Rightarrow> u32 \<Rightarrow> bool" and nx :: "'s \<Rightarrow> u32 \<Rightarrow> u32" and setn :: "u32 \<Rightarrow> u32 \<Rightarrow> 's \<Rightarrow> 's"
    and dat :: "'s \<Rightarrow> u32 \<Rightarrow> u8 list" and put :: "u32 \<Rightarrow> u8 list \<Rightarrow> 's \<Rightarrow> 's" and csz :: "'s \<Rightarrow> nat"
  assumes set_ok: "ok s \<Longrightarrow> good s c \<Longrightarrow> ok (setn c v s) \<and> good (setn c v s) = good s \<and> csz (setn c v s) = csz s"
    and put_ok: "ok s \<Longrightarrow> good s c \<Longrightarrow> length b = csz s \<Longrightarrow> ok (put c b s) \<and> good (put c b s) = good s \<and> csz (put c b s) = csz s"
    and nx_set: "ok s \<Longrightarrow> good s c \<Longrightarrow> good s d \<Longrightarrow> nx (setn c v s) d = (if d = c then v AND FAT_MASK else nx s d)"
    and dat_set: "ok s \<Longrightarrow> good s c \<Longrightarrow> good s d \<Longrightarrow> dat (setn c v s) d = dat s d"
    and nx_put: "ok s \<Longrightarrow> good s c \<Longrightarrow> length b = csz s \<Longrightarrow> good s d \<Longrightarrow> nx (put c b s) d = nx s d"
    and dat_put: "ok s \<Longrightarrow> good s c \<Longrightarrow> length b = csz s \<Longrightarrow> good s d \<Longrightarrow> dat (put c b s) d = (if d = c then b else dat s d)"
    and good_number: "ok s \<Longrightarrow> good s c \<Longrightarrow> c AND FAT_MASK = c \<and> c < FAT_EOC \<and> 2 \<le> c"
begin

lemma chainD: "chain (nx s) (good s) c xs \<Longrightarrow> xs \<noteq> [] \<and> c = hd xs \<and> distinct xs \<and> (\<forall>x \<in> set xs. good s x) \<and> nx s (last xs) \<ge> FAT_EOC"
  unfolding chain_def using linked_head linked_last by blast

lemma chain_stays:
  assumes "good s' = good s" "\<And>x. x \<in> set xs \<Longrightarrow> good s x \<Longrightarrow> nx s' x = nx s x"
  shows "chain (nx s') (good s') c xs = chain (nx s) (good s) c xs"
proof -
  have "linked (nx s') c xs = linked (nx s) c xs" if "\<forall>x \<in> set xs. good s x" using assms(2) that by (intro linked_cong) blast
  then show ?thesis unfolding chain_def assms(1) by blast
qed

lemma chain_put: "ok s \<Longrightarrow> good s c \<Longrightarrow> length b = csz s \<Longrightarrow> chain (nx (put c b s)) (good (put c b s)) x xs = chain (nx s) (good s) x xs"
  by (intro chain_stays) (simp_all add: put_ok nx_put)

lemma chain_set: "ok s \<Longrightarrow> good s c \<Longrightarrow> c \<notin> set xs \<Longrightarrow> chain (nx (setn c v s)) (good (setn c v s)) x xs = chain (nx s) (good s) x xs"
  by (intro chain_stays) (auto simp: set_ok nx_set)

lemma eoc_mask: "FAT_EOC AND FAT_MASK = FAT_EOC"
  by simp

lemma chain_new: "ok s \<Longrightarrow> good s c \<Longrightarrow> chain (nx (setn c FAT_EOC s)) (good (setn c FAT_EOC s)) c [c]"
  using eoc_mask by (simp add: chain_def nx_set set_ok)

lemma chain_extend:
  assumes ok: "ok s" and ch: "chain (nx s) (good s) c xs" and y: "good s y" "y \<notin> set xs"
  shows "chain (nx (setn (last xs) y (setn y FAT_EOC s))) (good (setn (last xs) y (setn y FAT_EOC s))) c (xs @ [y])"
proof -
  let ?s = "setn y FAT_EOC s"
  note C = chainD [OF ch]
  have l: "good s (last xs)" using C last_in_set by blast
  have ok1: "ok ?s" "good ?s = good s" using set_ok [OF ok y(1)] by auto
  have n: "nx (setn (last xs) y ?s) d = (if d = last xs then y else if d = y then FAT_EOC else nx s d)" if "good s d" for d
    using that l ok1 nx_set [OF ok y(1) that] nx_set [OF ok1(1), of "last xs" d] good_number [OF ok y(1)] eoc_mask by simp
  have "y \<noteq> last xs" using y C last_in_set by blast
  then have "linked (nx (setn (last xs) y ?s)) c (xs @ [y])"
    using ch C y n by (intro linked_snoc [of "nx s"]) (auto simp: chain_def l)
  moreover have "good (setn (last xs) y ?s) = good s" using set_ok [OF ok1(1)] l ok1(2) by simp
  ultimately show ?thesis using C y by (auto simp: chain_def)
qed

end

interpretation cst: cluster_store geom valid get_next_cluster set_cluster_value data write_cluster csize
proof
  show "geom (set_cluster_value c v s) \<and> valid (set_cluster_value c v s) = valid s \<and> csize (set_cluster_value c v s) = csize s"
    if "geom s" "valid s c" for s c v using vol_set [OF that(1) valid_lt [OF that(2)]] vol_same [of "set_cluster_value c v s" s] that by simp
  show "geom (write_cluster c b s) \<and> valid (write_cluster c b s) = valid s \<and> csize (write_cluster c b s) = csize s"
    if "geom s" "valid s c" "length b = csize s" for s c b using vol_write [OF that] vol_same [of "write_cluster c b s" s] that by simp
  show "get_next_cluster (set_cluster_value c v s) d = (if d = c then v AND FAT_MASK else get_next_cluster s d)"
    if "geom s" "valid s c" "valid s d" for s c d v using set_next [OF that(1) valid_lt valid_lt] that by simp
  show "data (set_cluster_value c v s) d = data s d" if "geom s" "valid s c" "valid s d" for s c d v using set_data [OF that(1) valid_lt] that by simp
  show "get_next_cluster (write_cluster c b s) d = get_next_cluster s d" if "geom s" "valid s c" "length b = csize s" "valid s d" for s c b d
    using put_next [OF that(1-3) valid_lt] that by simp
  show "c AND FAT_MASK = c \<and> c < FAT_EOC \<and> 2 \<le> c" if "geom s" "valid s c" for s c using valid_mask [OF that] by simp
qed (simp_all add: put_data)

subsection \<open>Allocation of clusters\<close>

text \<open>The search covers the first \<open>fat_sectors\<close> sectors of the table.\<close>

definition fat_sectors :: "fat32_fs \<Rightarrow> nat" where
  "fat_sectors fs = (clusters fs * 4 + 511) div 512"

lemma fat_sectors_eq:
  assumes "geom fs"
  shows "unat ((total_clusters fs * 4 + 511) div 512) = fat_sectors fs" "fat_sectors fs * 512 + unat (fat_begin_lba fs) * 512 \<le> unat (cluster_begin_lba fs) * 512"
    "fat_sectors fs \<le> 2 ^ 17"
proof -
  note B = geom_bounds [OF assms]
  have "unat (total_clusters fs * 4) = clusters fs * 4" using B(1) by (subst unat_mult_small) simp_all
  then have "unat (total_clusters fs * 4 + 511) = clusters fs * 4 + 511" using B(1) by (subst unat_add_no_overflow) simp_all
  then show "unat ((total_clusters fs * 4 + 511) div 512) = fat_sectors fs" by (simp add: unat_div fat_sectors_def)
  have fb: "unat (fat_begin_lba fs) * 512 + (clusters fs + 2) * 4 \<le> unat (cluster_begin_lba fs) * 512" using assms by (simp add: geom_def)
  define q where "q = unat (cluster_begin_lba fs) - unat (fat_begin_lba fs)"
  have "clusters fs * 4 + 8 \<le> q * 512" using fb by (simp add: q_def diff_mult_distrib)
  then have "(clusters fs * 4 + 511) div 512 \<le> (q * 512 + 503) div 512" by (intro div_le_mono) simp
  then have "fat_sectors fs \<le> q" by (simp add: fat_sectors_def)
  moreover have "unat (fat_begin_lba fs) \<le> unat (cluster_begin_lba fs)" using fb by linarith
  ultimately show "fat_sectors fs * 512 + unat (fat_begin_lba fs) * 512 \<le> unat (cluster_begin_lba fs) * 512" by (simp add: q_def)
  have "(clusters fs * 4 + 511) div 512 \<le> (2 ^ 23 * 4 + 511) div 512" using B(1) by (intro div_le_mono) simp
  then show "fat_sectors fs \<le> 2 ^ 17" by (simp add: fat_sectors_def)
qed

lemma find_upt_Some: "find P [0..<n] = Some i \<Longrightarrow> i < n \<and> P i \<and> (\<forall>j < i. \<not> P j)"
  by (auto simp: find_Some_iff)

lemma find_upt_None: "find P [0..<n] = None \<Longrightarrow> j < n \<Longrightarrow> \<not> P j"
  by (auto simp: find_None_iff)

lemma scan_sector_cases:
  assumes s: "s < 2 ^ 17" and b: "sbuf = bytes_at (disk fs) (fat_addr fs (s * 128)) 512"
  shows "case scan_sector sbuf (word_of_nat s) of
      Some c \<Rightarrow> \<exists>i < 128. unat c = s * 128 + i \<and> 2 \<le> unat c \<and> entry_at fs (unat c) AND FAT_MASK = 0 \<and>
        (\<forall>j < i. 2 \<le> s * 128 + j \<longrightarrow> entry_at fs (s * 128 + j) AND FAT_MASK \<noteq> 0)
    | None \<Rightarrow> \<forall>j < 128. 2 \<le> s * 128 + j \<longrightarrow> entry_at fs (s * 128 + j) AND FAT_MASK \<noteq> 0"
proof -
  let ?P = "\<lambda>i. word_of_nat s * 128 + word_of_nat i \<ge> (2 :: u32) \<and> load32 sbuf (i * 4) AND FAT_MASK = 0"
  have w: "unat (word_of_nat s * 128 + word_of_nat i :: u32) = s * 128 + i" if "i < 128" for i
  proof -
    have "(word_of_nat s * 128 + word_of_nat i :: u32) = word_of_nat (s * 128 + i)" by simp
    then show ?thesis using s that by (simp only: unat_of_nat) simp
  qed
  have e: "load32 sbuf (i * 4) = entry_at fs (s * 128 + i)" if "i < 128" for i
    using load_bytes_at [of "i * 4" 512 "disk fs" "fat_addr fs (s * 128)"] that by (simp add: b entry_at_def fat_addr_def add.assoc algebra_simps)
  have P: "?P i \<longleftrightarrow> 2 \<le> s * 128 + i \<and> entry_at fs (s * 128 + i) AND FAT_MASK = 0" if "i < 128" for i
    using w [OF that] e [OF that] by (simp add: word_le_nat_alt)
  show ?thesis
  proof (cases "find ?P [0..<128]")
    case None
    have "\<not> ?P j" if "j < 128" for j using find_upt_None [OF None that] .
    then have "\<forall>j < 128. 2 \<le> s * 128 + j \<longrightarrow> entry_at fs (s * 128 + j) AND FAT_MASK \<noteq> 0" using P by blast
    then show ?thesis unfolding scan_sector_def None by (simp only: option.map option.case)
  next
    case (Some i)
    have i: "i < 128" "?P i" "\<forall>j < i. \<not> ?P j" using find_upt_Some [OF Some] by blast+
    have "scan_sector sbuf (word_of_nat s) = Some (word_of_nat s * 128 + word_of_nat i)" unfolding scan_sector_def Some by (simp only: option.map)
    moreover have "\<forall>j < i. 2 \<le> s * 128 + j \<longrightarrow> entry_at fs (s * 128 + j) AND FAT_MASK \<noteq> 0"
    proof (intro allI impI)
      fix j assume j: "j < i" "2 \<le> s * 128 + j"
      then have "j < 128" "\<not> ?P j" using i(1,3) by (linarith, blast)
      then show "entry_at fs (s * 128 + j) AND FAT_MASK \<noteq> 0" using P [of j] j(2) by blast
    qed
    ultimately show ?thesis using i P [OF i(1)] w [OF i(1)] by auto
  qed
qed

lemma scan_fat_ok:
  assumes g: "geom fs"
  shows "s + n \<le> fat_sectors fs \<Longrightarrow> length sbuf = 512 \<Longrightarrow> c = scan_fat fs n (word_of_nat s) sbuf \<Longrightarrow>
    (c = 0 \<longrightarrow> (\<forall>k. 2 \<le> k \<and> s * 128 \<le> k \<and> k < (s + n) * 128 \<longrightarrow> entry_at fs k AND FAT_MASK \<noteq> 0)) \<and>
    (c \<noteq> 0 \<longrightarrow> 2 \<le> unat c \<and> unat c < (s + n) * 128 \<and> entry_at fs (unat c) AND FAT_MASK = 0 \<and>
       (\<forall>k. 2 \<le> k \<and> s * 128 \<le> k \<and> k < unat c \<longrightarrow> entry_at fs k AND FAT_MASK \<noteq> 0))"
proof (induction n arbitrary: s sbuf)
  case (Suc n)
  have s17: "s < 2 ^ 17" using Suc.prems(1) fat_sectors_eq(3) [OF g] by linarith
  have "(fat_sectors fs + unat (fat_begin_lba fs)) * 512 \<le> 2 ^ 32"
    using fat_sectors_eq(2) [OF g] geom_bounds(2) [OF g] by (simp add: add_mult_distrib)
  then have lt: "(unat (fat_begin_lba fs) + s) * 512 < 2 ^ 32" using Suc.prems(1) by (simp add: add_mult_distrib)
  have s32: "unat (word_of_nat s :: u32) = s" using s17 by (simp add: unat_of_nat)
  then have "unat (fat_begin_lba fs + word_of_nat s) = unat (fat_begin_lba fs) + s" using lt by (subst unat_add_no_overflow) simp_all
  then have "unat ((fat_begin_lba fs + word_of_nat s) * 512) = (unat (fat_begin_lba fs) + s) * 512" using lt by (subst unat_mult_small) simp_all
  then have off: "unat (ucast ((fat_begin_lba fs + word_of_nat s) * 512) :: u64) = fat_addr fs (s * 128)" by (simp add: fat_addr_def)
  define b where "b = dev_read fs (ucast ((fat_begin_lba fs + word_of_nat s) * 512)) 512 sbuf"
  have b: "b = bytes_at (disk fs) (fat_addr fs (s * 128)) 512"
    unfolding b_def using dev_read_ok [OF g, of "ucast ((fat_begin_lba fs + word_of_nat s) * 512)" 512 sbuf] off lt Suc.prems(2) by (simp add: fat_addr_def)
  note C = scan_sector_cases [OF s17 b]
  have sc: "c = (case scan_sector b (word_of_nat s) of Some c \<Rightarrow> c | None \<Rightarrow> scan_fat fs n (word_of_nat (Suc s)) b)"
    using Suc.prems(3) by (simp only: scan_fat.simps Let_def b_def of_nat_Suc add.commute)
  show ?case
  proof (cases "scan_sector b (word_of_nat s)")
    case None
    have "c = scan_fat fs n (word_of_nat (Suc s)) b" using sc None by simp
    then have IH: "(c = 0 \<longrightarrow> (\<forall>k. 2 \<le> k \<and> Suc s * 128 \<le> k \<and> k < (Suc s + n) * 128 \<longrightarrow> entry_at fs k AND FAT_MASK \<noteq> 0)) \<and>
      (c \<noteq> 0 \<longrightarrow> 2 \<le> unat c \<and> unat c < (Suc s + n) * 128 \<and> entry_at fs (unat c) AND FAT_MASK = 0 \<and>
       (\<forall>k. 2 \<le> k \<and> Suc s * 128 \<le> k \<and> k < unat c \<longrightarrow> entry_at fs k AND FAT_MASK \<noteq> 0))"
      using Suc.IH [of "Suc s" b] Suc.prems(1) b by simp
    have here: "entry_at fs k AND FAT_MASK \<noteq> 0" if "2 \<le> k" "s * 128 \<le> k" "k < Suc s * 128" for k
    proof -
      have "\<forall>j < 128. 2 \<le> s * 128 + j \<longrightarrow> entry_at fs (s * 128 + j) AND FAT_MASK \<noteq> 0" using C None by simp
      moreover have "k - s * 128 < 128" "s * 128 + (k - s * 128) = k" using that by simp_all
      ultimately show ?thesis using that(1) by metis
    qed
    have "(s + Suc n) * 128 = (Suc s + n) * 128" by simp
    then show ?thesis using IH here by (metis not_less)
  next
    case (Some d)
    then have cd: "c = d" using sc by simp
    obtain i where i: "i < 128" "unat c = s * 128 + i" "2 \<le> unat c" "entry_at fs (unat c) AND FAT_MASK = 0"
      "\<forall>j < i. 2 \<le> s * 128 + j \<longrightarrow> entry_at fs (s * 128 + j) AND FAT_MASK \<noteq> 0" using C Some cd by auto
    have "entry_at fs k AND FAT_MASK \<noteq> 0" if "2 \<le> k" "s * 128 \<le> k" "k < unat c" for k
    proof -
      have "k - s * 128 < i" "s * 128 + (k - s * 128) = k" using that i(2) by simp_all
      then show ?thesis using i(5) that(1) by metis
    qed
    moreover have "c \<noteq> 0" using i(3) by auto
    moreover have "unat c < (s + Suc n) * 128" using i(1,2) by simp
    ultimately show ?thesis using i(3,4) by blast
  qed
qed auto

text \<open>The clusters that the search can hand out: numbers of existing clusters within the part of the table it covers.\<close>

definition free_clusters :: "fat32_fs \<Rightarrow> u32 set" where
  "free_clusters fs = {c. valid fs c \<and> unat c < fat_sectors fs * 128 \<and> get_next_cluster fs c = 0}"

lemma find_free_ok:
  assumes g: "geom fs" and e: "free_clusters fs \<noteq> {}"
  shows "find_free_cluster fs \<in> free_clusters fs"
proof -
  obtain d where d: "valid fs d" "unat d < fat_sectors fs * 128" "get_next_cluster fs d = 0" using e by (auto simp: free_clusters_def)
  define c where "c = find_free_cluster fs"
  have c: "c = scan_fat fs (fat_sectors fs) (word_of_nat 0) (new_buf 512 fs)"
    using fat_sectors_eq(1) [OF g] by (simp add: c_def find_free_cluster_def)
  have d0: "entry_at fs (unat d) AND FAT_MASK = 0" "2 \<le> unat d" using d get_next_eq [OF g valid_lt [OF d(1)]] by (simp_all add: valid_def)
  note S = scan_fat_ok [OF g, of 0 "fat_sectors fs" "new_buf 512 fs" c, OF _ _ c]
  have "c \<noteq> 0" using S d0 d(2) by (auto simp: new_buf_def)
  then have C: "2 \<le> unat c" "unat c < fat_sectors fs * 128" "entry_at fs (unat c) AND FAT_MASK = 0" "\<not> unat d < unat c"
    using S d0 by (auto simp: new_buf_def)
  then have v: "valid fs c" using d(1) by (simp add: valid_def)
  then show ?thesis using C get_next_eq [OF g valid_lt [OF v]] by (simp add: free_clusters_def c_def)
qed


abbreviation mem_ok :: "fat32_fs \<Rightarrow> bool" where
  "mem_ok fs \<equiv> True \<notin> set (oom fs)"

lemma kmalloc_works:
  assumes "mem_ok fs"
  obtains bs where "kmalloc_fails fs = (False, fs\<lparr>oom := bs\<rparr>)" "True \<notin> set bs"
proof (cases "oom fs")
  case Nil
  then have "fs\<lparr>oom := []\<rparr> = fs" by (simp flip: Nil)
  then show ?thesis using that [of "[]"] Nil by (simp add: kmalloc_fails_def)
next
  case (Cons b bs)
  then show ?thesis using that [of bs] assms by (simp add: kmalloc_fails_def)
qed

lemma next_oom [simp]: "get_next_cluster (fs\<lparr>oom := x\<rparr>) c = get_next_cluster fs c"
  by (simp add: get_next_cluster_def dev_read_def new_buf_def fat_off_def)

lemma free_valid: "c \<in> free_clusters fs \<Longrightarrow> valid fs c \<and> get_next_cluster fs c = 0"
  by (simp add: free_clusters_def)

lemma free_finite: "finite (free_clusters fs)"
  by simp

lemma free_oom [simp]: "free_clusters (fs\<lparr>oom := x\<rparr>) = free_clusters fs"
  by (simp add: free_clusters_def fat_sectors_def)

lemma free_clusters_vol:
  assumes "vol fs' = vol fs" "\<And>d. valid fs d \<Longrightarrow> get_next_cluster fs' d = 0 \<longleftrightarrow> get_next_cluster fs d = 0 \<and> d \<noteq> c"
  shows "free_clusters fs' = free_clusters fs - {c}"
  using assms(2) vol_same [OF assms(1)] by (auto simp: free_clusters_def fat_sectors_def)

text \<open>The new cluster holds zeros and ends the chain; all others are as before.\<close>

lemma alloc_ok:
  assumes g: "geom fs" and m: "mem_ok fs" and fr: "free_clusters fs \<noteq> {}" and p: "prev < 2 \<or> valid fs prev \<and> get_next_cluster fs prev \<noteq> 0"
    and e: "allocate_cluster prev fs = (c, fs')"
  shows "c \<in> free_clusters fs" "vol fs' = vol fs" "mem_ok fs'"
    "\<And>d. valid fs d \<Longrightarrow> get_next_cluster fs' d = (if d = c then FAT_EOC else if 2 \<le> prev \<and> d = prev then c else get_next_cluster fs d)"
    "\<And>d. valid fs d \<Longrightarrow> data fs' d = (if d = c then replicate (csize fs) 0 else data fs d)"
    "free_clusters fs' = free_clusters fs - {c}"
proof -
  define y where "y = find_free_cluster fs"
  have y: "y \<in> free_clusters fs" "valid fs y" "get_next_cluster fs y = 0" using find_free_ok [OF g fr] free_valid y_def by blast+
  have y0: "y \<noteq> 0" using y(2) by (auto simp: valid_def)
  define fs1 where "fs1 = set_cluster_value y FAT_EOC fs"
  have f1: "vol fs1 = vol fs" "oom fs1 = oom fs" using vol_set [OF g valid_lt [OF y(2)]] by (simp_all add: fs1_def)
  note v1 = vol_same [OF f1(1)]
  define fs2 where "fs2 = (if prev \<ge> 2 then set_cluster_value prev y fs1 else fs1)"
  have pv: "valid fs prev" "get_next_cluster fs prev \<noteq> 0" if "2 \<le> prev" using p that by auto
  have f2: "vol fs2 = vol fs" "oom fs2 = oom fs"
    using f1 vol_set [of fs1 prev y] g v1 valid_lt [OF pv(1)] by (auto simp: fs2_def)
  note v2 = vol_same [OF f2(1)]
  have g1: "geom fs1" and g2: "geom fs2" using g v1 v2 by simp_all
  obtain bs where k: "kmalloc_fails fs2 = (False, fs2\<lparr>oom := bs\<rparr>)" "True \<notin> set bs" using kmalloc_works [of fs2] m f2 by auto
  let ?fs3 = "fs2\<lparr>oom := bs\<rparr>"
  have cz: "csize ?fs3 = csize fs" using v2 by simp
  have E: "c = y" "fs' = write_cluster y (replicate (csize fs) 0) ?fs3"
    using e y0 k cz v2 by (auto simp: allocate_cluster_def Let_def y_def [symmetric] fs1_def [symmetric] fs2_def [symmetric])
  have v3: "geom ?fs3" "valid ?fs3 = valid fs" using g2 v2 by simp_all
  have w: "vol fs' = vol ?fs3" "oom fs' = bs" using vol_write [OF v3(1), of y "replicate (csize fs) 0"] v3(2) y(2) cz by (simp_all add: E(2))
  show "c \<in> free_clusters fs" using y E by simp
  show vf: "vol fs' = vol fs" using w f2 by simp
  show "mem_ok fs'" using w k by simp
  have n1: "get_next_cluster fs1 d = (if d = y then FAT_EOC else get_next_cluster fs d)" if "valid fs d" for d
    using cst.nx_set [OF g y(2) that] by (simp add: fs1_def)
  have n2: "get_next_cluster fs2 d = (if 2 \<le> prev \<and> d = prev then y else get_next_cluster fs1 d)" if "valid fs d" for d
    using cst.nx_set [OF g1, of prev d y] v1 that pv cst.good_number [OF g y(2)] by (auto simp: fs2_def)
  have "prev \<noteq> y" if "2 \<le> prev" using pv [OF that] y(3) by auto
  then show nx: "get_next_cluster fs' d = (if d = c then FAT_EOC else if 2 \<le> prev \<and> d = prev then c else get_next_cluster fs d)" if "valid fs d" for d
    using cst.nx_put [OF v3(1), of y "replicate (csize fs) 0" d] v3(2) y(2) cz that n1 [OF that] n2 [OF that] E by auto
  show "data fs' d = (if d = c then replicate (csize fs) 0 else data fs d)" if "valid fs d" for d
  proof -
    have "data ?fs3 d = data fs2 d" by simp
    also have "data fs2 d = data fs1 d" using cst.dat_set [OF g1, of prev d y] v1 that pv by (auto simp: fs2_def)
    also have "data fs1 d = data fs d" using cst.dat_set [OF g y(2) that] by (simp add: fs1_def)
    finally show ?thesis using cst.dat_put [OF v3(1), of y "replicate (csize fs) 0" d] v3(2) y(2) cz that E by simp
  qed
  show "free_clusters fs' = free_clusters fs - {c}"
  proof (rule free_clusters_vol [OF vf])
    fix d assume d: "valid fs d"
    show "get_next_cluster fs' d = 0 \<longleftrightarrow> get_next_cluster fs d = 0 \<and> d \<noteq> c" using nx [OF d] pv y0 E(1) by auto
  qed
qed

abbreviation fchain :: "fat32_fs \<Rightarrow> u32 \<Rightarrow> u32 list \<Rightarrow> bool" where
  "fchain fs \<equiv> chain (get_next_cluster fs) (valid fs)"

lemma chain_not_free:
  assumes g: "geom fs" and ch: "fchain fs f xs" and x: "x \<in> set xs"
  shows "get_next_cluster fs x \<noteq> 0" "x \<notin> free_clusters fs"
proof -
  note C = cst.chainD [OF ch]
  show "get_next_cluster fs x \<noteq> 0"
  proof (cases "x = last xs")
    case True
    then show ?thesis using C by auto
  next
    case False
    then obtain i where i: "x = xs ! i" "Suc i < length xs" using x C
      by (metis Suc_lessI diff_Suc_1 in_set_conv_nth last_conv_nth)
    have "get_next_cluster fs x = xs ! Suc i" using ch i linked_nth by (auto simp: chain_def)
    moreover have "valid fs (xs ! Suc i)" using C i(2) by simp
    ultimately show ?thesis by (auto simp: valid_def)
  qed
  then show "x \<notin> free_clusters fs" by (simp add: free_clusters_def)
qed

lemma alloc_extends:
  assumes g: "geom fs" and m: "mem_ok fs" and fr: "free_clusters fs \<noteq> {}" and ch: "fchain fs f xs" and e: "allocate_cluster (last xs) fs = (c, fs')"
  shows "fchain fs' f (xs @ [c])" "c \<notin> set xs" "c \<noteq> 0"
proof -
  note C = cst.chainD [OF ch]
  have l: "valid fs (last xs)" "get_next_cluster fs (last xs) \<noteq> 0" using C last_in_set by (blast, auto)
  note A = alloc_ok [OF g m fr disjI2 [OF conjI [OF l]] e]
  have cv: "valid fs c" "get_next_cluster fs c = 0" using free_valid [OF A(1)] by auto
  then show "c \<noteq> 0" by (auto simp: valid_def)
  show nc: "c \<notin> set xs" using cv chain_not_free(1) [OF g ch] by auto
  have pl: "2 \<le> last xs" using cst.good_number [OF g l(1)] by simp
  have "linked (get_next_cluster fs') f (xs @ [c])"
  proof (rule linked_snoc [of "get_next_cluster fs"])
    show "linked (get_next_cluster fs) f xs" "distinct xs" "c \<notin> set xs" using ch nc by (auto simp: chain_def)
    show "FAT_EOC \<le> get_next_cluster fs' c" using A(4) [OF cv(1)] by simp
    have "last xs \<noteq> c" using nc C last_in_set by blast
    then show "get_next_cluster fs' (last xs) = c" using A(4) [OF l(1)] pl by simp
    show "get_next_cluster fs' x = get_next_cluster fs x" if "x \<in> set xs" "x \<noteq> last xs" for x using A(4) [of x] that nc C by auto
  qed
  then show "fchain fs' f (xs @ [c])" using C nc cv vol_same(2) [OF A(2)] by (auto simp: chain_def)
qed

subsection \<open>The contents of a chain\<close>

definition contents :: "fat32_fs \<Rightarrow> u32 list \<Rightarrow> u8 list" where
  "contents fs xs = concat (map (data fs) xs)"

lemma length_data [simp]: "length (data fs c) = csize fs"
  by (simp add: data_def)

lemma contents_simps [simp]: "contents fs [] = []" "contents fs (x # xs) = data fs x @ contents fs xs" "contents fs (xs @ ys) = contents fs xs @ contents fs ys"
  by (simp_all add: contents_def)

lemma length_contents [simp]: "length (contents fs xs) = length xs * csize fs"
  by (induction xs) simp_all

lemma contents_cong: "(\<And>x. x \<in> set xs \<Longrightarrow> data fs' x = data fs x) \<Longrightarrow> contents fs' xs = contents fs xs"
  unfolding contents_def by (metis map_eq_conv)

lemma read_clusters_ok:
  assumes g: "geom fs"
  shows "linked (get_next_cluster fs) c xs \<Longrightarrow> \<forall>x \<in> set xs. valid fs x \<Longrightarrow> co < csize fs \<Longrightarrow> rd < sz \<Longrightarrow> sz - rd + co \<le> length xs * csize fs \<Longrightarrow>
    sz \<le> length buf \<Longrightarrow> length clbuf = csize fs \<Longrightarrow>
    read_clusters fs c (csize fs) co sz rd clbuf buf = Some (sz, splice rd (take (sz - rd) (drop co (contents fs xs))) buf)"
proof (induction xs arbitrary: c co rd clbuf buf)
  case (Cons x xs)
  define n where "n = (if csize fs - co > sz - rd then sz - rd else csize fs - co)"
  have x: "c = x" "valid fs x" using Cons.prems(1,2) linked_head by fastforce+
  have lt: "c < FAT_EOC" using cst.good_number [OF g x(2)] x by simp
  have rc: "read_cluster fs c clbuf = data fs x" using read_cluster_eq [OF g x(2) Cons.prems(7)] x by simp
  have n: "0 < n" "rd + n \<le> sz" "n \<le> csize fs - co" using Cons.prems(3,4) by (auto simp: n_def)
  let ?p = "take n (drop co (data fs x))"
  have lp: "length ?p = n" using n by simp
  have step: "read_clusters fs c (csize fs) co sz rd clbuf buf =
      read_clusters fs (get_next_cluster fs c) (csize fs) 0 sz (rd + n) (data fs x) (splice rd ?p buf)"
    using Cons.prems(4) lt by (subst read_clusters.simps) (simp add: rc Let_def n_def)
  show ?case
  proof (cases "rd + n = sz")
    case True
    then have "?p = take (sz - rd) (drop co (contents fs (x # xs)))" using n lp by (auto simp: take_append)
    then show ?thesis using step True by (subst (asm) (2) read_clusters.simps) simp
  next
    case False
    then have nn: "n = csize fs - co" "csize fs - co < sz - rd" using n by (auto simp: n_def split: if_splits)
    have ne: "xs \<noteq> []" using Cons.prems(3,5) nn by auto
    then have "linked (get_next_cluster fs) (get_next_cluster fs c) xs" using Cons.prems(1) x by (cases xs) auto
    then have "read_clusters fs (get_next_cluster fs c) (csize fs) 0 sz (rd + n) (data fs x) (splice rd ?p buf) =
        Some (sz, splice (rd + n) (take (sz - (rd + n)) (drop 0 (contents fs xs))) (splice rd ?p buf))"
      by (rule Cons.IH) (use Cons.prems nn n lp in auto)
    also have "\<dots> = Some (sz, splice rd (?p @ take (sz - (rd + n)) (contents fs xs)) buf)"
      using splice_splice [of rd ?p buf "take (sz - (rd + n)) (contents fs xs)"] lp n Cons.prems(6) by simp
    also have "?p @ take (sz - (rd + n)) (contents fs xs) = take (sz - rd) (drop co (contents fs (x # xs)))" using nn Cons.prems(3) by simp
    finally show ?thesis using step by simp
  qed
qed simp

lemma splice_append: "i + length p \<le> length xs \<Longrightarrow> splice i p xs @ ys = splice i p (xs @ ys)"
  by (simp add: splice_def)

lemma splice_append2: "length xs = k \<Longrightarrow> xs @ splice i p ys = splice (k + i) p (xs @ ys)"
  by (simp add: splice_def add.assoc)

text \<open>Writing to one cluster of a chain changes the contents in one place.\<close>

lemma contents_update:
  "distinct xs \<Longrightarrow> i < length xs \<Longrightarrow> (\<And>x. x \<in> set xs \<Longrightarrow> data fs' x = (if x = xs ! i then splice co p (data fs x) else data fs x)) \<Longrightarrow>
   co + length p \<le> csize fs \<Longrightarrow> contents fs' xs = splice (i * csize fs + co) p (contents fs xs)"
proof (induction xs arbitrary: i)
  case (Cons x xs)
  show ?case
  proof (cases i)
    case 0
    have "contents fs' xs = contents fs xs" by (rule contents_cong) (use Cons.prems 0 in auto)
    moreover have "data fs' x = splice co p (data fs x)" using Cons.prems(3) [of x] 0 by simp
    ultimately show ?thesis using 0 Cons.prems(4) by (simp add: splice_append)
  next
    case (Suc j)
    have "contents fs' xs = splice (j * csize fs + co) p (contents fs xs)"
      by (rule Cons.IH) (use Cons.prems Suc in auto)
    moreover have "data fs' x = data fs x" using Cons.prems(1,2) Cons.prems(3) [of x] Suc by auto
    ultimately show ?thesis using Suc splice_append2 [of "data fs x" "csize fs"] by (simp add: add.assoc)
  qed
qed simp

text \<open>
  \<open>grows fs fs' f xs ys\<close>: the chain \<open>xs\<close> has got the free clusters \<open>ys\<close> as well, and nothing outside has changed.
\<close>

definition grows :: "fat32_fs \<Rightarrow> fat32_fs \<Rightarrow> u32 \<Rightarrow> u32 list \<Rightarrow> u32 list \<Rightarrow> bool" where
  "grows fs fs' f xs ys \<longleftrightarrow> vol fs' = vol fs \<and> mem_ok fs' \<and> fchain fs' f (xs @ ys) \<and> set ys \<subseteq> free_clusters fs \<and>
     free_clusters fs' = free_clusters fs - set ys \<and>
     (\<forall>d. valid fs d \<longrightarrow> d \<notin> set (xs @ ys) \<longrightarrow> get_next_cluster fs' d = get_next_cluster fs d \<and> data fs' d = data fs d)"

lemma growsD:
  assumes "grows fs fs' f xs ys"
  shows "vol fs' = vol fs" "mem_ok fs'" "fchain fs' f (xs @ ys)" "set ys \<subseteq> free_clusters fs" "free_clusters fs' = free_clusters fs - set ys"
    "valid fs d \<Longrightarrow> d \<notin> set (xs @ ys) \<Longrightarrow> get_next_cluster fs' d = get_next_cluster fs d \<and> data fs' d = data fs d"
  using assms unfolding grows_def by blast+

lemma grows_refl: "mem_ok fs \<Longrightarrow> fchain fs f xs \<Longrightarrow> grows fs fs f xs []"
  by (simp add: grows_def)

lemma grows_trans:
  assumes a: "grows fs fs1 f xs ys" and b: "grows fs1 fs2 f (xs @ ys) zs"
  shows "grows fs fs2 f xs (ys @ zs)"
  using growsD [OF a] growsD [OF b] vol_same(2) [OF growsD(1) [OF a]] unfolding grows_def by auto

lemma grows_alloc:
  assumes g: "geom fs" and m: "mem_ok fs" and fr: "free_clusters fs \<noteq> {}" and ch: "fchain fs f xs" and e: "allocate_cluster (last xs) fs = (c, fs')"
  shows "grows fs fs' f xs [c]" "contents fs' (xs @ [c]) = contents fs xs @ replicate (csize fs) 0" "c \<noteq> 0"
proof -
  note C = cst.chainD [OF ch]
  have l: "valid fs (last xs)" "get_next_cluster fs (last xs) \<noteq> 0" "last xs \<in> set xs" using C last_in_set by (blast, auto)
  note A = alloc_ok [OF g m fr disjI2 [OF conjI [OF l(1,2)]] e]
  note X = alloc_extends [OF g m fr ch e]
  have cv: "valid fs c" using free_valid A(1) by blast
  show "c \<noteq> 0" using X(3) .
  show "grows fs fs' f xs [c]" unfolding grows_def using A X(1) l(3) by auto
  have "contents fs' xs = contents fs xs" by (rule contents_cong) (use A(5) C X(2) in auto)
  then show "contents fs' (xs @ [c]) = contents fs xs @ replicate (csize fs) 0" using A(5) [OF cv] by simp
qed

lemma grows_write:
  assumes g: "geom fs" and m: "mem_ok fs" and ch: "fchain fs f xs" and i: "i < length xs" and p: "co + length p \<le> csize fs"
    and fs': "fs' = write_cluster (xs ! i) (splice co p (data fs (xs ! i))) fs"
  shows "grows fs fs' f xs []" "contents fs' xs = splice (i * csize fs + co) p (contents fs xs)"
proof -
  note C = cst.chainD [OF ch]
  have v: "valid fs (xs ! i)" using C i by simp
  let ?b = "splice co p (data fs (xs ! i))"
  have lb: "length ?b = csize fs" using p by simp
  have V: "vol fs' = vol fs" "oom fs' = oom fs" using vol_write [OF g v lb] fs' by simp_all
  have nx: "get_next_cluster fs' d = get_next_cluster fs d" "data fs' d = (if d = xs ! i then ?b else data fs d)" if "valid fs d" for d
    using cst.nx_put [OF g v lb that] cst.dat_put [OF g v lb that] fs' by simp_all
  have "fchain fs' f xs" using cst.chain_put [OF g v lb] ch fs' by simp
  moreover have "free_clusters fs' = free_clusters fs" using nx vol_same [OF V(1)] by (auto simp: free_clusters_def fat_sectors_def)
  ultimately show "grows fs fs' f xs []" unfolding grows_def using V m nx i nth_mem [OF i] by auto
  show "contents fs' xs = splice (i * csize fs + co) p (contents fs xs)"
    by (rule contents_update [OF _ i _ p]) (use C nx in auto)
qed

text \<open>Skipping clusters before a write, with new clusters of zeros where the chain is too short.\<close>

lemma skip_alloc_ok:
  "geom fs \<Longrightarrow> mem_ok fs \<Longrightarrow> fchain fs f xs \<Longrightarrow> i < length xs \<Longrightarrow> i + n + 1 - length xs \<le> card (free_clusters fs) \<Longrightarrow>
   \<exists>fs' ys. skip_alloc n (xs ! i) fs = (Some ((xs @ ys) ! (i + n)), fs') \<and> grows fs fs' f xs ys \<and> length ys = i + n + 1 - length xs \<and>
     contents fs' (xs @ ys) = contents fs xs @ replicate (length ys * csize fs) 0"
proof (induction n arbitrary: fs xs i)
  case 0
  then show ?case using grows_refl [of fs f xs] by (intro exI [of _ fs] exI [of _ "[]"]) auto
next
  case (Suc n)
  note g = Suc.prems(1) and C = cst.chainD [OF Suc.prems(3)]
  show ?case
  proof (cases "Suc i < length xs")
    case True
    have nx: "get_next_cluster fs (xs ! i) = xs ! Suc i" using Suc.prems(3) True linked_nth by (auto simp: chain_def)
    have "xs ! Suc i < FAT_EOC" using C True cst.good_number [OF g] nth_mem by blast
    then have "\<not> FAT_EOC \<le> xs ! Suc i" by (simp only: not_le)
    then have "skip_alloc (Suc n) (xs ! i) fs = skip_alloc n (xs ! Suc i) fs" using nx by (simp add: Let_def)
    then show ?thesis using Suc.IH [OF Suc.prems(1-3) True] Suc.prems(5) by simp
  next
    case False
    then have i: "length xs = Suc i" using Suc.prems(4) by simp
    then have last: "xs ! i = last xs" using C by (simp add: last_conv_nth)
    have "0 < card (free_clusters fs)" using Suc.prems(5) i by simp
    then have fr: "free_clusters fs \<noteq> {}" by auto
    obtain c fs1 where a: "allocate_cluster (last xs) fs = (c, fs1)" by fastforce
    note A = grows_alloc [OF g Suc.prems(2) fr Suc.prems(3) a]
    note G = growsD [OF A(1)]
    have "get_next_cluster fs (xs ! i) \<ge> FAT_EOC" using C last by simp
    then have s: "skip_alloc (Suc n) (xs ! i) fs = skip_alloc n ((xs @ [c]) ! Suc i) fs1" using a A(3) last i by (simp add: Let_def nth_append)
    have "card (free_clusters fs1) = card (free_clusters fs) - 1" using G(4,5) by (simp add: card_Diff_singleton)
    then have need: "Suc i + n + 1 - length (xs @ [c]) \<le> card (free_clusters fs1)" using Suc.prems(5) i by simp
    have g1: "geom fs1" using g vol_same(1) [OF G(1)] by simp
    obtain fs' ys where R: "skip_alloc n ((xs @ [c]) ! Suc i) fs1 = (Some (((xs @ [c]) @ ys) ! (Suc i + n)), fs')" "grows fs1 fs' f (xs @ [c]) ys"
      "length ys = Suc i + n + 1 - length (xs @ [c])" "contents fs' ((xs @ [c]) @ ys) = contents fs1 (xs @ [c]) @ replicate (length ys * csize fs1) 0"
      using Suc.IH [OF g1 G(2) G(3) _ need] i by fastforce
    have cz: "csize fs1 = csize fs" using vol_same(3) [OF G(1)] by simp
    have "grows fs fs' f xs ([c] @ ys)" using grows_trans [OF A(1) R(2)] .
    moreover have "contents fs' (xs @ [c] @ ys) = contents fs xs @ replicate (length ([c] @ ys) * csize fs) 0"
      using R(4) A(2) cz by (simp add: replicate_add)
    ultimately show ?thesis using s R(1,3) i by (intro exI [of _ fs'] exI [of _ "[c] @ ys"]) simp
  qed
qed

lemma take_drop_split: "a + n \<le> b \<Longrightarrow> take n (drop a xs) @ take (b - (a + n)) (drop (a + n) xs) = take (b - a) (drop a xs)"
proof -
  assume "a + n \<le> b"
  then have "b - a = n + (b - (a + n))" by simp
  then show ?thesis using take_add [of n "b - (a + n)" "drop a xs"] by (simp add: add.commute)
qed

text \<open>One step of the composition: a piece is written, the chain may grow, the rest is written behind it.\<close>

lemma contents_step:
  assumes 1: "C1 = splice pos p C" "pos + length p \<le> length C"
    and 2: "C2 = splice (pos + length p) q (C1 @ Z)"
  shows "C2 = splice pos (p @ q) (C @ Z)"
  using assms splice_append [of pos p C Z] splice_splice [of pos p "C @ Z" q] by simp

lemma write_clusters_ok:
  assumes "geom fs" "mem_ok fs" "fchain fs f xs" "i < length xs" "co < csize fs" "wr < sz" "sz \<le> length buf" "length clbuf = csize fs"
    "i * csize fs + co + (sz - wr) \<le> (length xs + card (free_clusters fs)) * csize fs"
  shows "\<exists>fs' ys. write_clusters (xs ! i) (csize fs) co sz wr clbuf buf fs = Some (sz, fs') \<and> grows fs fs' f xs ys \<and>
    contents fs' (xs @ ys) = splice (i * csize fs + co) (take (sz - wr) (drop wr buf)) (contents fs xs @ replicate (length ys * csize fs) 0) \<and>
    i * csize fs + co + (sz - wr) \<le> (length xs + length ys) * csize fs \<and>
    (ys \<noteq> [] \<longrightarrow> (length xs + length ys - 1) * csize fs < i * csize fs + co + (sz - wr))"
  using assms
proof (induction "sz - wr" arbitrary: fs xs i co wr clbuf rule: less_induct)
  case less
  note g = less.prems(1) and m = less.prems(2) and ch = less.prems(3) and i = less.prems(4)
  note C = cst.chainD [OF ch]
  let ?c = "xs ! i" and ?L = "csize fs"
  have v: "valid fs ?c" using C i by simp
  define n where "n = (if ?L - co > sz - wr then sz - wr else ?L - co)"
  have n: "0 < n" "wr + n \<le> sz" "co + n \<le> ?L" using less.prems(5,6) by (auto simp: n_def)
  let ?p = "take n (drop wr buf)"
  have lp: "length ?p = n" using n less.prems(7) by simp
  define b where "b = splice co ?p (data fs ?c)"
  define fs1 where "fs1 = write_cluster ?c b fs"
  have rc: "read_cluster fs ?c clbuf = data fs ?c" using read_cluster_eq [OF g v less.prems(8)] .
  have W: "grows fs fs1 f xs []" "contents fs1 xs = splice (i * ?L + co) ?p (contents fs xs)"
    using grows_write [OF g m ch i _ fs1_def [unfolded b_def]] lp n(3) by simp_all
  note G = growsD [OF W(1)]
  have V: "geom fs1" "csize fs1 = ?L" "mem_ok fs1" "fchain fs1 f xs" using g vol_same [OF G(1)] G(2,3) by simp_all
  have lb: "length b = ?L" using lp n(3) by (simp add: b_def)
  have pos: "i * ?L + co + length ?p \<le> length (contents fs xs)"
  proof -
    have "Suc i * ?L \<le> length xs * ?L" using i by (intro mult_le_mono1) simp
    then show ?thesis using lp n(3) by simp
  qed
  show ?case
  proof (cases "wr + n = sz")
    case True
    have "write_clusters ?c ?L co sz wr clbuf buf fs = Some (sz, fs1)"
      using less.prems(6) True by (subst write_clusters.simps) (simp add: rc Let_def n_def [symmetric] b_def [symmetric] fs1_def [symmetric])
    then show ?thesis using W True lp n pos by (intro exI [of _ fs1] exI [of _ "[]"]) auto
  next
    case False
    then have lt: "wr + n < sz" and nn: "co + n = ?L" using n less.prems(5) by (auto simp: n_def split: if_splits)
    have step: "write_clusters ?c ?L co sz wr clbuf buf fs = (let nxt = get_next_cluster fs1 ?c in
        if nxt \<ge> FAT_EOC then case allocate_cluster ?c fs1 of (nxt, fs) \<Rightarrow> if nxt = 0 then Some (wr + n, fs) else write_clusters nxt ?L 0 sz (wr + n) b buf fs
        else write_clusters nxt ?L 0 sz (wr + n) b buf fs1)"
      using less.prems(6) lt write_clusters.simps [of ?c ?L co sz wr clbuf buf fs]
      unfolding rc Let_def n_def [symmetric] b_def [symmetric] fs1_def [symmetric] by simp
    have pq: "i * ?L + co + n = Suc i * ?L" using nn by simp
    have rest: "i * ?L + co + (sz - wr) = Suc i * ?L + (sz - (wr + n))" using pq lt by linarith
    have L1: "0 < csize fs1" "length b = csize fs1" using less.prems(5) V(2) lb by simp_all
    have dec: "sz - (wr + n) < sz - wr" using n(1) lt by simp
    show ?thesis
    proof (cases "Suc i < length xs")
      case True
      have nx: "get_next_cluster fs1 ?c = xs ! Suc i" using V(4) True linked_nth by (auto simp: chain_def)
      have "\<not> FAT_EOC \<le> xs ! Suc i" using C True cst.good_number [OF g] nth_mem by (auto simp only: not_le)
      then have s: "write_clusters ?c ?L co sz wr clbuf buf fs = write_clusters (xs ! Suc i) (csize fs1) 0 sz (wr + n) b buf fs1"
        using step nx V(2) by (simp add: Let_def)
      have need: "Suc i * csize fs1 + 0 + (sz - (wr + n)) \<le> (length xs + card (free_clusters fs1)) * csize fs1" using less.prems(9) rest V(2) G(5) by simp
      from less.hyps [OF dec V(1,3,4) True L1(1) lt less.prems(7) L1(2) need] obtain fs' ys where R: "write_clusters (xs ! Suc i) (csize fs1) 0 sz (wr + n) b buf fs1 = Some (sz, fs')" "grows fs1 fs' f xs ys"
        "contents fs' (xs @ ys) = splice (Suc i * ?L + 0) (take (sz - (wr + n)) (drop (wr + n) buf)) (contents fs1 xs @ replicate (length ys * ?L) 0)"
        "Suc i * ?L + 0 + (sz - (wr + n)) \<le> (length xs + length ys) * ?L"
        "ys \<noteq> [] \<longrightarrow> (length xs + length ys - 1) * ?L < Suc i * ?L + 0 + (sz - (wr + n))"
        unfolding V(2) by blast
      have "contents fs' (xs @ ys) = splice (i * ?L + co) (?p @ take (sz - (wr + n)) (drop (wr + n) buf)) (contents fs xs @ replicate (length ys * ?L) 0)"
        by (rule contents_step [OF W(2) pos]) (simp only: R(3) lp pq add_0_right)
      moreover have "ys \<noteq> [] \<longrightarrow> (length xs + length ys - 1) * ?L < i * ?L + co + (sz - wr)" using R(5) unfolding rest by simp
      ultimately show ?thesis using s R(1,4) grows_trans [OF W(1), of fs' ys] R(2) take_drop_split [OF n(2), of buf] rest
        by (intro exI [of _ fs'] exI [of _ ys]) (simp add: add.assoc)
    next
      case nl: False
      then have last: "length xs = Suc i" using i by simp
      have lc: "?c = last xs" using C last by (simp add: last_conv_nth)
      have "Suc i * ?L < (length xs + card (free_clusters fs)) * ?L" using less.prems(9) rest lt by linarith
      then have "Suc i < length xs + card (free_clusters fs)" using mult_less_cancel2 by blast
      then have fr: "free_clusters fs1 \<noteq> {}" using last G(5) by auto
      obtain y fs2 where a: "allocate_cluster (last xs) fs1 = (y, fs2)" by fastforce
      note A = grows_alloc [OF V(1,3) fr V(4) a]
      note H = growsD [OF A(1)]
      have V2: "geom fs2" "csize fs2 = ?L" using vol_same [OF H(1)] V by simp_all
      have "get_next_cluster fs1 ?c \<ge> FAT_EOC" using cst.chainD [OF V(4)] lc by simp
      then have s: "write_clusters ?c ?L co sz wr clbuf buf fs = write_clusters ((xs @ [y]) ! Suc i) (csize fs2) 0 sz (wr + n) b buf fs2"
        using step a A(3) last lc V2(2) by (simp add: Let_def nth_append)
      have "y \<in> free_clusters fs1" using H(4) by simp
      then have "card (free_clusters fs2) = card (free_clusters fs1) - 1" "0 < card (free_clusters fs1)" using H(5) fr by (auto simp: card_gt_0_iff)
      then have Q: "length (xs @ [y]) + card (free_clusters fs2) = length xs + card (free_clusters fs)" using G(5) by simp
      have need: "Suc i * csize fs2 + 0 + (sz - (wr + n)) \<le> (length (xs @ [y]) + card (free_clusters fs2)) * csize fs2"
        using less.prems(9) unfolding V2(2) Q rest add_0_right .
      have L2: "0 < csize fs2" "length b = csize fs2" "Suc i < length (xs @ [y])" using L1 V(2) V2(2) last by simp_all
      from less.hyps [OF dec V2(1) H(2,3) L2(3,1) lt less.prems(7) L2(2) need] obtain fs' ys where R: "write_clusters ((xs @ [y]) ! Suc i) (csize fs2) 0 sz (wr + n) b buf fs2 = Some (sz, fs')" "grows fs2 fs' f (xs @ [y]) ys"
        "contents fs' ((xs @ [y]) @ ys) = splice (Suc i * ?L + 0) (take (sz - (wr + n)) (drop (wr + n) buf)) (contents fs2 (xs @ [y]) @ replicate (length ys * ?L) 0)"
        "Suc i * ?L + 0 + (sz - (wr + n)) \<le> (length (xs @ [y]) + length ys) * ?L"
        "ys \<noteq> [] \<longrightarrow> (length (xs @ [y]) + length ys - 1) * ?L < Suc i * ?L + 0 + (sz - (wr + n))"
        unfolding V2(2) by blast
      have few: "(length xs + length (y # ys) - 1) * ?L < i * ?L + co + (sz - wr)"
        using R(5) last lt unfolding rest by (cases "ys = []") simp_all
      have Z: "contents fs2 (xs @ [y]) @ replicate (length ys * ?L) 0 = contents fs1 xs @ replicate (length (y # ys) * ?L) 0"
        unfolding A(2) V(2) by (simp add: replicate_add)
      have K: "contents fs' (xs @ y # ys) = splice (Suc i * ?L + 0) (take (sz - (wr + n)) (drop (wr + n) buf)) (contents fs1 xs @ replicate (length (y # ys) * ?L) 0)"
        using R(3) unfolding Z by (simp only: append_assoc append_Cons append_Nil)
      have "contents fs' (xs @ y # ys) = splice (i * ?L + co) (?p @ take (sz - (wr + n)) (drop (wr + n) buf)) (contents fs xs @ replicate (length (y # ys) * ?L) 0)"
        by (rule contents_step [OF W(2) pos]) (simp only: K lp pq add_0_right)
      then show ?thesis using s R(1,4) few grows_trans [OF grows_trans [OF W(1), of fs2 "[y]"], of fs' ys] A(1) R(2) take_drop_split [OF n(2), of buf] rest
        by (intro exI [of _ fs'] exI [of _ "y # ys"]) simp
    qed
  qed
qed


subsection \<open>Files\<close>

text \<open>The entry of the file lies in a cluster of its directory, apart from the file's own.\<close>

definition entry_ok :: "fat32_fs \<Rightarrow> fat32_file \<Rightarrow> bool" where
  "entry_ok fs f \<longleftrightarrow> dir_entry_cluster f < 2 \<or>
     valid fs (dir_entry_cluster f) \<and> get_next_cluster fs (dir_entry_cluster f) \<noteq> 0 \<and> unat (dir_entry_offset f) + 32 \<le> csize fs"

definition node_ok :: "fat32_fs \<Rightarrow> fat32_file \<Rightarrow> u32 list \<Rightarrow> bool" where
  "node_ok fs f xs \<longleftrightarrow> geom fs \<and> mem_ok fs \<and> (if xs = [] then first_cluster f < 2 else fchain fs (first_cluster f) xs) \<and>
     entry_ok fs f \<and> dir_entry_cluster f \<notin> set xs"

definition file_ok :: "fat32_fs \<Rightarrow> fnode \<Rightarrow> u32 list \<Rightarrow> bool" where
  "file_ok fs node xs \<longleftrightarrow> node_ok fs (fn_file node) xs \<and> unat (fn_size node) \<le> length xs * csize fs"

lemma update_entry_ok:
  assumes g: "geom fs" and m: "mem_ok fs" and e: "entry_ok fs f" and cl: "\<And>b. length b = csize fs \<Longrightarrow> unat (dir_entry_offset f) + 32 \<le> csize fs \<Longrightarrow> length (chg b) = csize fs"
    and r: "update_entry f chg fs = (u, fs')"
  shows "vol fs' = vol fs" "mem_ok fs'" "\<And>d. valid fs d \<Longrightarrow> get_next_cluster fs' d = get_next_cluster fs d"
    "\<And>d. valid fs d \<Longrightarrow> d \<noteq> dir_entry_cluster f \<Longrightarrow> data fs' d = data fs d" "free_clusters fs' = free_clusters fs"
    "2 \<le> dir_entry_cluster f \<Longrightarrow> data fs' (dir_entry_cluster f) = chg (data fs (dir_entry_cluster f))"
proof -
  obtain bs where k: "kmalloc_fails fs = (False, fs\<lparr>oom := bs\<rparr>)" "True \<notin> set bs" using kmalloc_works [OF m] .
  let ?d = "dir_entry_cluster f" and ?fs = "fs\<lparr>oom := bs\<rparr>"
  have "vol fs' = vol fs \<and> mem_ok fs' \<and> (\<forall>d. valid fs d \<longrightarrow> get_next_cluster fs' d = get_next_cluster fs d) \<and>
      (\<forall>d. valid fs d \<longrightarrow> d \<noteq> ?d \<longrightarrow> data fs' d = data fs d) \<and> (2 \<le> ?d \<longrightarrow> data fs' ?d = chg (data fs ?d))"
  proof (cases "?d < 2")
    case True
    then have "\<not> 2 \<le> ?d" by (simp only: not_le)
    then have "fs' = fs" using r by (simp add: update_entry_def)
    then show ?thesis using m \<open>\<not> 2 \<le> ?d\<close> by blast
  next
    case False
    then have v: "valid fs ?d" "unat (dir_entry_offset f) + 32 \<le> csize fs" "2 \<le> ?d" using e by (auto simp: entry_ok_def)
    have g': "geom ?fs" "valid ?fs ?d" using g v(1) by simp_all
    have rc: "read_cluster ?fs ?d (new_buf (csize ?fs) ?fs) = data fs ?d"
      using read_cluster_eq [OF g', of "new_buf (csize ?fs) ?fs"] by (simp add: new_buf_def)
    let ?b = "chg (data fs ?d)"
    have lb: "length ?b = csize ?fs" using cl [of "data fs ?d"] v(2) by simp
    have fs': "fs' = write_cluster ?d ?b ?fs" using r k v(3) rc by (auto simp: update_entry_def)
    show ?thesis using vol_write [OF g' lb] cst.nx_put [OF g' lb] cst.dat_put [OF g' lb] k(2) v(1) by (simp add: fs')
  qed
  then show V: "vol fs' = vol fs" "mem_ok fs'" "\<And>d. valid fs d \<Longrightarrow> get_next_cluster fs' d = get_next_cluster fs d"
    "\<And>d. valid fs d \<Longrightarrow> d \<noteq> ?d \<Longrightarrow> data fs' d = data fs d" "2 \<le> ?d \<Longrightarrow> data fs' ?d = chg (data fs ?d)" by blast+
  show "free_clusters fs' = free_clusters fs" using V vol_same [OF V(1)] by (auto simp: free_clusters_def fat_sectors_def)
qed

lemma chain_capacity:
  assumes g: "geom fs" and ch: "distinct xs" "\<forall>x \<in> set xs. valid fs x"
  shows "length xs * csize fs \<le> 2 ^ 32" "length xs \<le> clusters fs"
proof -
  have "unat ` set xs \<subseteq> {2..<clusters fs + 2}" using ch(2) by (auto simp: valid_def)
  then have "card (unat ` set xs) \<le> card {2..<clusters fs + 2}" by (intro card_mono) simp_all
  moreover have "card (unat ` set xs) = length xs" using ch(1) by (simp add: card_image inj_on_def distinct_card word_unat_eq_iff)
  ultimately show l: "length xs \<le> clusters fs" by simp
  have "length xs * spc fs * 512 \<le> clusters fs * spc fs * 512" using l by (intro mult_le_mono1)
  also have "clusters fs * spc fs * 512 \<le> 2 ^ 32" using g by (simp add: geom_def)
  finally have "length xs * spc fs * 512 \<le> 2 ^ 32" .
  moreover have "csize fs = spc fs * 512" using g by (simp add: geom_def)
  ultimately show "length xs * csize fs \<le> 2 ^ 32" by (simp only: mult.assoc)
qed

lemma skip_clusters_ok:
  assumes "geom fs" "fchain fs f xs" "i + n < length xs"
  shows "skip_clusters fs n (xs ! i) = Some (xs ! (i + n))"
  using assms(3)
proof (induction n arbitrary: i)
  case (Suc n)
  have nx: "get_next_cluster fs (xs ! i) = xs ! Suc i" using assms(2) Suc.prems linked_nth by (auto simp: chain_def)
  have "xs ! Suc i < FAT_EOC" using cst.chainD [OF assms(2)] cst.good_number [OF assms(1)] Suc.prems by simp
  then have "\<not> FAT_EOC \<le> xs ! Suc i" by (simp only: not_le)
  then show ?case using Suc.IH [of "Suc i"] Suc.prems nx by (simp add: Let_def)
qed simp

lemma linked_drop: "linked nx c xs \<Longrightarrow> k < length xs \<Longrightarrow> linked nx (xs ! k) (drop k xs)"
proof (induction nx c xs arbitrary: k rule: linked.induct)
  case (3 nx c x y ys)
  then show ?case using linked_head [of nx "nx x" "y # ys"] by (cases k) auto
qed auto

lemma contents_drop: "contents fs (drop k xs) = drop (k * csize fs) (contents fs xs)"
proof (induction xs arbitrary: k)
  case (Cons x xs)
  then show ?case by (cases k) simp_all
qed simp

lemma word_div_mod:
  fixes offset :: u64
  assumes "csize fs \<noteq> 0" "unat offset < 2 ^ 32"
  shows "unat (ucast (offset div ucast (bytes_per_cluster fs)) :: u32) = unat offset div csize fs"
    "unat (ucast (offset mod ucast (bytes_per_cluster fs)) :: u32) = unat offset mod csize fs"
proof -
  have "unat (offset div ucast (bytes_per_cluster fs)) = unat offset div csize fs" "unat (offset mod ucast (bytes_per_cluster fs)) = unat offset mod csize fs"
    by (simp_all add: unat_div unat_mod)
  moreover have "unat offset div csize fs < 2 ^ 32" "unat offset mod csize fs < 2 ^ 32"
    using assms(2) div_le_dividend [of "unat offset" "csize fs"] mod_less_eq_dividend [of "unat offset" "csize fs"] by linarith+
  ultimately show "unat (ucast (offset div ucast (bytes_per_cluster fs)) :: u32) = unat offset div csize fs"
    "unat (ucast (offset mod ucast (bytes_per_cluster fs)) :: u32) = unat offset mod csize fs" by (simp_all add: unat_ucast_small)
qed

definition file_bytes :: "fat32_fs \<Rightarrow> fnode \<Rightarrow> u32 list \<Rightarrow> u8 list" where
  "file_bytes fs node xs = take (unat (fn_size node)) (contents fs xs)"

lemma geom_csize: "geom fs \<Longrightarrow> 0 < csize fs"
  by (auto simp: geom_def)

lemma read_node_ok:
  assumes ok: "node_ok fs (fn_file node) xs" and o: "unat offset + unat sz < 2 ^ 64" and b: "unat sz \<le> length buf"
    and n: "n = min (unat sz) (unat (fn_size node) - unat offset)"
    and cap: "0 < n \<Longrightarrow> unat offset + n \<le> length xs * csize fs"
  shows "\<exists>node' fs'. fat32_read_file now node offset sz buf fs = Some (word_of_nat n, splice 0 (take n (drop (unat offset) (contents fs xs))) buf, node', fs') \<and>
    fn_file node' = fn_file node \<and> fn_size node' = fn_size node \<and> node_ok fs' (fn_file node) xs \<and> contents fs' xs = contents fs xs \<and>
    vol fs' = vol fs \<and> free_clusters fs' = free_clusters fs \<and>
    (\<forall>d. valid fs d \<longrightarrow> get_next_cluster fs' d = get_next_cluster fs d \<and> (d \<noteq> dir_entry_cluster (fn_file node) \<longrightarrow> data fs' d = data fs d))"
proof (cases "n = 0")
  case True
  define sz' where "sz' = (if offset + sz > fn_size node then fn_size node - offset else sz)"
  have "offset \<ge> fn_size node \<or> sz' = 0"
  proof (cases "offset \<ge> fn_size node")
    case False
    then have lt: "unat offset < unat (fn_size node)" by (simp add: word_le_nat_alt not_le)
    then have "unat sz = 0" using True n by simp
    then have "sz = 0" by (simp add: unat_eq_zero)
    then show ?thesis using False by (auto simp: sz'_def not_le dest: order.asym)
  qed simp
  then have "fat32_read_file now node offset sz buf fs = Some (0, buf, node, fs)"
    by (auto simp: fat32_read_file_def sz'_def Let_def)
  then show ?thesis using True ok by (auto simp: splice_def)
next
  case False
  let ?L = "csize fs" and ?S = "unat (fn_size node)" and ?f = "fn_file node"
  have lt: "unat offset < ?S" using False n by linarith
  note F = ok [unfolded node_ok_def]
  have S: "unat offset + n \<le> length xs * ?L" using cap False by simp
  then have ne: "xs \<noteq> []" using False by auto
  then have ch: "fchain fs (first_cluster ?f) xs" using F by simp
  note C = cst.chainD [OF ch]
  have g: "geom fs" and m: "mem_ok fs" and en: "entry_ok fs ?f" "dir_entry_cluster ?f \<notin> set xs" using F by auto
  have L: "0 < ?L" using geom_csize [OF g] .
  have lim: "length xs * ?L \<le> 2 ^ 32" using chain_capacity(1) [OF g] C by blast
  have o32: "unat offset < 2 ^ 32" using S False lim by linarith
  define k where "k = unat offset div ?L"
  define co where "co = unat offset mod ?L"
  have kc: "k * ?L + co = unat offset" "co < ?L" using L by (simp_all add: k_def co_def)
  have k: "k < length xs"
  proof (rule ccontr)
    assume "\<not> k < length xs"
    then have "length xs * ?L \<le> k * ?L" by (intro mult_le_mono1) simp
    then show False using kc S False by linarith
  qed
  define sz' where "sz' = (if offset + sz > fn_size node then fn_size node - offset else sz)"
  have "unat (offset + sz) = unat offset + unat sz" using o by (intro unat_add_no_overflow) simp
  then have sz': "unat sz' = n" using lt n by (auto simp: sz'_def word_less_nat_alt unat_sub_le word_le_nat_alt)
  then have "sz' \<noteq> 0" using False by auto
  have hd: "first_cluster ?f = xs ! 0" using C ne by (simp add: hd_conv_nth)
  have sk: "skip_clusters fs k (first_cluster ?f) = Some (xs ! k)" using skip_clusters_ok [OF g ch, of 0 k] k hd by simp
  obtain bs where km: "kmalloc_fails fs = (False, fs\<lparr>oom := bs\<rparr>)" "True \<notin> set bs" using kmalloc_works [OF m] .
  let ?fs = "fs\<lparr>oom := bs\<rparr>"
  have gn: "get_next_cluster ?fs = get_next_cluster fs" by (rule ext) simp
  have "n + co \<le> length (drop k xs) * ?L"
  proof -
    have "n + unat offset \<le> length xs * ?L" using S by simp
    then show ?thesis using kc(1) by (simp add: diff_mult_distrib)
  qed
  then have "read_clusters ?fs (xs ! k) (csize ?fs) co n 0 (new_buf ?L ?fs) buf = Some (n, splice 0 (take (n - 0) (drop co (contents ?fs (drop k xs)))) buf)"
    using linked_drop [of "get_next_cluster fs" "first_cluster ?f" xs k] ch k C kc(2) False b n g
    by (intro read_clusters_ok) (auto simp: gn chain_def new_buf_def dest: in_set_dropD)
  moreover have "contents ?fs (drop k xs) = drop (k * ?L) (contents fs xs)" using contents_drop [of fs k xs] by (simp add: contents_def)
  moreover have "take n (drop co (drop (k * ?L) (contents fs xs))) = take n (drop (unat offset) (contents fs xs))"
    using kc(1) by (simp add: add.commute)
  ultimately have rd: "read_clusters ?fs (xs ! k) ?L co n 0 (new_buf ?L ?fs) buf = Some (n, splice 0 (take n (drop (unat offset) (contents fs xs))) buf)" by simp
  obtain date time where now: "get_fat_now now = (date, time)" by fastforce
  let ?upd = "splice (unat (dir_entry_offset ?f) + 18) (le16 date)"
  obtain u fs' where up: "update_entry ?f ?upd ?fs = (u, fs')" by fastforce
  have en': "entry_ok ?fs ?f" using en by (simp add: entry_ok_def)
  have "geom ?fs" "mem_ok ?fs" using g km by simp_all
  note U = update_entry_ok [OF this en' _ up]
  have U': "vol fs' = vol fs" "mem_ok fs'" "free_clusters fs' = free_clusters fs" "\<And>d. valid fs d \<Longrightarrow> get_next_cluster fs' d = get_next_cluster fs d"
    "\<And>d. valid fs d \<Longrightarrow> d \<noteq> dir_entry_cluster ?f \<Longrightarrow> data fs' d = data fs d" using U free_oom by auto
  let ?node = "node\<lparr>fn_atime := fat_to_unix date time\<rparr>"
  note wd = word_div_mod [OF less_imp_neq [OF L, symmetric] o32]
  have nlt: "\<not> fn_size node \<le> offset" using lt by (simp add: word_le_nat_alt)
  have "fat32_read_file now node offset sz buf fs = Some (word_of_nat n, splice 0 (take n (drop (unat offset) (contents fs xs))) buf, ?node, fs')"
    using nlt \<open>sz' \<noteq> 0\<close> sk km rd now up wd sz' unfolding fat32_read_file_def sz'_def [symmetric] Let_def by (simp add: k_def co_def)
  moreover have "fchain fs' (first_cluster ?f) xs"
    using cst.chain_stays [of fs' fs xs "first_cluster ?f"] vol_same(2) [OF U'(1)] U'(4) ch by simp
  then have "node_ok fs' ?f xs" using F U' vol_same [OF U'(1)] ne by (simp add: node_ok_def entry_ok_def) metis
  moreover have "contents fs' xs = contents fs xs" using U'(5) C en(2) by (intro contents_cong) blast
  ultimately show ?thesis using U' by (intro exI [of _ ?node] exI [of _ fs']) simp
qed

lemma read_file_ok:
  assumes ok: "file_ok fs node xs" and o: "unat offset + unat sz < 2 ^ 64" and b: "unat sz \<le> length buf"
    and n: "n = min (unat sz) (unat (fn_size node) - unat offset)"
  shows "\<exists>node' fs'. fat32_read_file now node offset sz buf fs = Some (word_of_nat n, splice 0 (take n (drop (unat offset) (file_bytes fs node xs))) buf, node', fs') \<and>
    file_ok fs' node' xs \<and> file_bytes fs' node' xs = file_bytes fs node xs \<and>
    (\<forall>d. valid fs d \<longrightarrow> get_next_cluster fs' d = get_next_cluster fs d \<and> (d \<noteq> dir_entry_cluster (fn_file node) \<longrightarrow> data fs' d = data fs d))"
proof -
  have F: "node_ok fs (fn_file node) xs" "unat (fn_size node) \<le> length xs * csize fs" using ok by (simp_all add: file_ok_def)
  have "unat offset + n \<le> length xs * csize fs" if "0 < n" using that n F(2) by linarith
  from read_node_ok [OF F(1) o b n this] obtain node' fs' where
    R: "fat32_read_file now node offset sz buf fs = Some (word_of_nat n, splice 0 (take n (drop (unat offset) (contents fs xs))) buf, node', fs')"
    "fn_file node' = fn_file node" "fn_size node' = fn_size node" "node_ok fs' (fn_file node) xs" "contents fs' xs = contents fs xs" "vol fs' = vol fs"
    "\<forall>d. valid fs d \<longrightarrow> get_next_cluster fs' d = get_next_cluster fs d \<and> (d \<noteq> dir_entry_cluster (fn_file node) \<longrightarrow> data fs' d = data fs d)" by blast
  have "take n (drop (unat offset) (contents fs xs)) = take n (drop (unat offset) (file_bytes fs node xs))"
    using n by (simp add: file_bytes_def drop_take min_def)
  then show ?thesis using R F vol_same(3) [OF R(6)] by (simp add: file_ok_def file_bytes_def)
qed

lemma grows_oom: "fchain fs f xs \<Longrightarrow> True \<notin> set bs \<Longrightarrow> grows fs (fs\<lparr>oom := bs\<rparr>) f xs []"
proof -
  assume "fchain fs f xs" "True \<notin> set bs"
  moreover have "get_next_cluster (fs\<lparr>oom := bs\<rparr>) = get_next_cluster fs" by (rule ext) simp
  ultimately show ?thesis by (simp add: grows_def free_clusters_def fat_sectors_def)
qed

lemma grows_card:
  assumes "grows fs fs' f xs ys"
  shows "length (xs @ ys) + card (free_clusters fs') = length xs + card (free_clusters fs)"
proof -
  note G = growsD [OF assms]
  have "distinct ys" using cst.chainD [OF G(3)] by simp
  then have "card (set ys) = length ys" by (rule distinct_card)
  moreover have "card (set ys) \<le> card (free_clusters fs)" using G(4) by (intro card_mono) simp_all
  ultimately show ?thesis using G(4,5) card_Diff_subset [of "set ys" "free_clusters fs"] by simp
qed

lemma grows_first:
  assumes g: "geom fs" and m: "mem_ok fs" and fr: "free_clusters fs \<noteq> {}" and e: "allocate_cluster 0 fs = (c, fs')"
  shows "grows fs fs' c [] [c]" "contents fs' [c] = replicate (csize fs) 0" "c \<noteq> 0" "2 \<le> c"
proof -
  note A = alloc_ok [OF g m fr disjI1 e, simplified]
  have cv: "valid fs c" using free_valid A(1) by blast
  show "c \<noteq> 0" using cv by (auto simp: valid_def)
  show "2 \<le> c" using cst.good_number [OF g cv] by simp
  have "fchain fs' c [c]" using A(4) [OF cv] cv vol_same(2) [OF A(2)] by (simp add: chain_def)
  then show "grows fs fs' c [] [c]" unfolding grows_def using A by auto
  show "contents fs' [c] = replicate (csize fs) 0" using A(5) [OF cv] by simp
qed

text \<open>The first step of a write: an empty file gets its first cluster.\<close>

lemma start_chain:
  assumes ok: "node_ok fs (fn_file node) xs" and sp: "0 < (length xs + card (free_clusters fs)) * csize fs"
    and e: "(if first_cluster (fn_file node) < 2 then allocate_cluster 0 fs else (first_cluster (fn_file node), fs)) = (c, fs1)"
  shows "\<exists>zs. grows fs fs1 c xs zs \<and> xs @ zs \<noteq> [] \<and> (zs \<noteq> [] \<longrightarrow> length (xs @ zs) = 1) \<and> contents fs1 (xs @ zs) = contents fs xs @ replicate (length zs * csize fs) 0"
    "c \<noteq> 0" "first_cluster (fn_file node) < 2 \<or> c = first_cluster (fn_file node)"
proof -
  let ?f = "fn_file node"
  note F = ok [unfolded node_ok_def]
  have g: "geom fs" and m: "mem_ok fs" using F by auto
  have "(\<exists>zs. grows fs fs1 c xs zs \<and> xs @ zs \<noteq> [] \<and> (zs \<noteq> [] \<longrightarrow> length (xs @ zs) = 1) \<and> contents fs1 (xs @ zs) = contents fs xs @ replicate (length zs * csize fs) 0) \<and>
    c \<noteq> 0 \<and> (first_cluster ?f < 2 \<or> c = first_cluster ?f)"
  proof (cases "xs = []")
    case True
    then have lt: "first_cluster ?f < 2" using F by simp
    have "free_clusters fs \<noteq> {}"
    proof
      assume "free_clusters fs = {}"
      then show False using sp True by simp
    qed
    moreover have "allocate_cluster 0 fs = (c, fs1)" using e lt by simp
    ultimately have A: "grows fs fs1 c [] [c]" "contents fs1 [c] = replicate (csize fs) 0" "c \<noteq> 0" using grows_first [OF g m] by blast+
    then have "grows fs fs1 c xs [c] \<and> xs @ [c] \<noteq> [] \<and> ([c] \<noteq> [] \<longrightarrow> length (xs @ [c]) = 1) \<and> contents fs1 (xs @ [c]) = contents fs xs @ replicate (length [c] * csize fs) 0"
      using True by simp
    then show ?thesis using A(3) lt by blast
  next
    case False
    then have ch: "fchain fs (first_cluster ?f) xs" using F by simp
    have "valid fs (hd xs)" "first_cluster ?f = hd xs" using cst.chainD [OF ch] False by simp_all
    then have ge: "2 \<le> first_cluster ?f" using cst.good_number [OF g] by simp
    then have "\<not> first_cluster ?f < 2" by (simp only: not_less)
    then have cf: "c = first_cluster ?f" "fs1 = fs" using e by simp_all
    then have "grows fs fs1 c xs [] \<and> xs @ [] \<noteq> [] \<and> ([] \<noteq> ([] :: u32 list) \<longrightarrow> length (xs @ []) = 1) \<and> contents fs1 (xs @ []) = contents fs xs @ replicate (length [] * csize fs) 0"
      using grows_refl [OF m ch] False by simp
    moreover have "c \<noteq> 0" using ge cf(1) by (auto simp: word_le_nat_alt)
    ultimately show ?thesis using cf(1) by blast
  qed
  then show "\<exists>zs. grows fs fs1 c xs zs \<and> xs @ zs \<noteq> [] \<and> (zs \<noteq> [] \<longrightarrow> length (xs @ zs) = 1) \<and> contents fs1 (xs @ zs) = contents fs xs @ replicate (length zs * csize fs) 0"
    "c \<noteq> 0" "first_cluster ?f < 2 \<or> c = first_cluster ?f" by blast+
qed

text \<open>The second step: the data goes to its place in the chain, which grows as far as needed.\<close>

lemma place_data:
  assumes g: "geom fs" and m: "mem_ok fs" and ch: "fchain fs c xs" and sp: "off + n \<le> (length xs + card (free_clusters fs)) * csize fs" and n: "0 < n" "n \<le> length buf"
  shows "\<exists>d fs2 bs fs' ys. skip_alloc (off div csize fs) c fs = (Some d, fs2) \<and> kmalloc_fails fs2 = (False, fs2\<lparr>oom := bs\<rparr>) \<and>
    write_clusters d (csize fs) (off mod csize fs) n 0 (new_buf (csize fs) (fs2\<lparr>oom := bs\<rparr>)) buf (fs2\<lparr>oom := bs\<rparr>) = Some (n, fs') \<and>
    grows fs fs' c xs ys \<and> contents fs' (xs @ ys) = splice off (take n buf) (contents fs xs @ replicate (length ys * csize fs) 0) \<and>
    off + n \<le> length (xs @ ys) * csize fs \<and> (ys \<noteq> [] \<longrightarrow> (length (xs @ ys) - 1) * csize fs < off + n)"
proof -
  let ?L = "csize fs"
  have L: "0 < ?L" using geom_csize [OF g] .
  define k where "k = off div ?L"
  define co where "co = off mod ?L"
  have kc: "k * ?L + co = off" "co < ?L" using L by (simp_all add: k_def co_def)
  have hd: "c = xs ! 0" "0 < length xs" using cst.chainD [OF ch] by (auto simp: hd_conv_nth)
  have "k * ?L < (length xs + card (free_clusters fs)) * ?L" using kc sp n by linarith
  then have "k < length xs + card (free_clusters fs)" by simp
  then have "0 + k + 1 - length xs \<le> card (free_clusters fs)" by linarith
  from skip_alloc_ok [OF g m ch hd(2) this]
  obtain fs2 ys where Q: "skip_alloc k c fs = (Some ((xs @ ys) ! k), fs2)" "grows fs fs2 c xs ys" "length ys = k + 1 - length xs"
    "contents fs2 (xs @ ys) = contents fs xs @ replicate (length ys * ?L) 0" using hd(1) by auto
  define xs2 where "xs2 = xs @ ys"
  have lk: "k < length xs2" using Q(3) by (simp add: xs2_def)
  have g2: "geom fs2" "csize fs2 = ?L" "fchain fs2 c xs2" using vol_same [OF growsD(1) [OF Q(2)]] g growsD(3) [OF Q(2)] by (simp_all add: xs2_def)
  obtain bs where km: "kmalloc_fails fs2 = (False, fs2\<lparr>oom := bs\<rparr>)" "True \<notin> set bs" using kmalloc_works [OF growsD(2) [OF Q(2)]] .
  let ?fs3 = "fs2\<lparr>oom := bs\<rparr>"
  note G3 = grows_oom [OF g2(3) km(2)]
  have g3: "geom ?fs3" "mem_ok ?fs3" "csize ?fs3 = ?L" "fchain ?fs3 c xs2" using g2 km growsD(3) [OF G3] by simp_all
  have K2: "length xs2 + card (free_clusters ?fs3) = length xs + card (free_clusters fs)"
    using grows_card [OF Q(2)] grows_card [OF G3] by (simp add: xs2_def)
  have need: "k * csize ?fs3 + co + (n - 0) \<le> (length xs2 + card (free_clusters ?fs3)) * csize ?fs3" unfolding K2 g3(3) using kc(1) sp by simp
  have pre: "co < csize ?fs3" "length (new_buf ?L ?fs3) = csize ?fs3" using kc(2) g3(3) by (simp_all add: new_buf_def)
  from write_clusters_ok [OF g3(1,2,4) lk pre(1) n pre(2) need]
  obtain fs4 ws where R: "write_clusters (xs2 ! k) ?L co n 0 (new_buf ?L ?fs3) buf ?fs3 = Some (n, fs4)" "grows ?fs3 fs4 c xs2 ws"
    "contents fs4 (xs2 @ ws) = splice (k * ?L + co) (take (n - 0) (drop 0 buf)) (contents ?fs3 xs2 @ replicate (length ws * ?L) 0)"
    "k * ?L + co + (n - 0) \<le> (length xs2 + length ws) * ?L" "ws \<noteq> [] \<longrightarrow> (length xs2 + length ws - 1) * ?L < k * ?L + co + (n - 0)" unfolding g3(3) by blast
  have G4: "grows fs fs4 c xs (ys @ ws)"
    using grows_trans [OF Q(2), of fs4 ws] grows_trans [OF G3, of fs4 ws] R(2) by (simp add: xs2_def)
  have "contents ?fs3 xs2 @ replicate (length ws * ?L) 0 = contents fs xs @ replicate (length (ys @ ws) * ?L) 0"
    using Q(4) by (simp add: xs2_def [symmetric] contents_def replicate_add add_mult_distrib)
  then have "contents fs4 (xs @ ys @ ws) = splice off (take n buf) (contents fs xs @ replicate (length (ys @ ws) * ?L) 0)"
    using R(3) kc(1) by (simp add: xs2_def del: contents_simps)
  moreover have "off + n \<le> length (xs @ ys @ ws) * ?L" using R(4) kc(1) by (simp add: xs2_def add.assoc)
  moreover have "(length (xs @ ys @ ws) - 1) * ?L < off + n" if "ys @ ws \<noteq> []"
  proof (cases "ws = []")
    case True
    then have "0 < length ys" using that by simp
    then have "length (xs @ ys @ ws) - 1 = k" using Q(3) True by simp
    then have "(length (xs @ ys @ ws) - 1) * ?L \<le> off" using kc(1) by simp
    then show ?thesis using n(1) by linarith
  next
    case False
    then show ?thesis using R(5) kc(1) by (simp add: xs2_def add.assoc)
  qed
  ultimately show ?thesis using Q(1) km(1) R(1) G4 unfolding k_def [symmetric] co_def [symmetric] xs2_def [symmetric] by blast
qed

lemma entry_written_length: "length b = n \<Longrightarrow> unat (dir_entry_offset f) + 32 \<le> n \<Longrightarrow> length (entry_written f s d t b) = n"
  by (simp add: entry_written_def Let_def)

lemma write_node_ok:
  assumes ok: "node_ok fs (fn_file node) xs" and sp: "unat offset + unat sz \<le> (length xs + card (free_clusters fs)) * csize fs" and s0: "0 < unat sz"
    and b: "unat sz \<le> length buf"
  shows "\<exists>node' fs' ys. fat32_write_file now node offset sz buf fs = Some (sz, node', fs') \<and> node_ok fs' (fn_file node') (xs @ ys) \<and> set ys \<subseteq> free_clusters fs \<and>
    free_clusters fs' = free_clusters fs - set ys \<and> fn_size node' = (if offset + sz > fn_size node then offset + sz else fn_size node) \<and>
    unat (fn_size node') = max (unat (fn_size node)) (unat offset + unat sz) \<and> vol fs' = vol fs \<and>
    dir_entry_cluster (fn_file node') = dir_entry_cluster (fn_file node) \<and> dir_entry_offset (fn_file node') = dir_entry_offset (fn_file node) \<and>
    contents fs' (xs @ ys) = splice (unat offset) (take (unat sz) buf) (contents fs xs @ replicate (length ys * csize fs) 0) \<and>
    unat offset + unat sz \<le> length (xs @ ys) * csize fs \<and> (ys \<noteq> [] \<longrightarrow> (length (xs @ ys) - 1) * csize fs < unat offset + unat sz) \<and>
    (2 \<le> dir_entry_cluster (fn_file node) \<longrightarrow> data fs' (dir_entry_cluster (fn_file node)) =
       entry_written (fn_file node') (fn_size node') (fst (get_fat_now now)) (snd (get_fat_now now)) (data fs (dir_entry_cluster (fn_file node)))) \<and>
    (\<forall>d. valid fs d \<longrightarrow> d \<notin> set (xs @ ys) \<longrightarrow> get_next_cluster fs' d = get_next_cluster fs d \<and> (d \<noteq> dir_entry_cluster (fn_file node) \<longrightarrow> data fs' d = data fs d))"
proof -
  let ?L = "csize fs" and ?o = "unat offset" and ?f = "fn_file node"
  note F = ok [unfolded node_ok_def]
  have g: "geom fs" and en: "entry_ok fs ?f" "dir_entry_cluster ?f \<notin> set xs" using F by auto
  obtain c fs1 where cf: "(if first_cluster ?f < 2 then allocate_cluster 0 fs else (first_cluster ?f, fs)) = (c, fs1)" by fastforce
  have "0 < (length xs + card (free_clusters fs)) * ?L" using sp s0 by linarith
  note P = start_chain [OF ok this cf]
  obtain zs where G1: "grows fs fs1 c xs zs" and one: "zs \<noteq> [] \<longrightarrow> length (xs @ zs) = 1" and C1: "contents fs1 (xs @ zs) = contents fs xs @ replicate (length zs * ?L) 0" using P(1) by blast
  have g1: "geom fs1" "csize fs1 = ?L" using vol_same [OF growsD(1) [OF G1]] g by simp_all
  have sp1: "?o + unat sz \<le> (length (xs @ zs) + card (free_clusters fs1)) * csize fs1" unfolding grows_card [OF G1] g1(2) using sp .
  obtain d fs2 bs fs4 ys where Q: "skip_alloc (?o div ?L) c fs1 = (Some d, fs2)" "kmalloc_fails fs2 = (False, fs2\<lparr>oom := bs\<rparr>)"
    "write_clusters d ?L (?o mod ?L) (unat sz) 0 (new_buf ?L (fs2\<lparr>oom := bs\<rparr>)) buf (fs2\<lparr>oom := bs\<rparr>) = Some (unat sz, fs4)"
    "grows fs1 fs4 c (xs @ zs) ys" "contents fs4 ((xs @ zs) @ ys) = splice ?o (take (unat sz) buf) (contents fs1 (xs @ zs) @ replicate (length ys * ?L) 0)"
    "?o + unat sz \<le> length ((xs @ zs) @ ys) * ?L" "ys \<noteq> [] \<longrightarrow> (length ((xs @ zs) @ ys) - 1) * ?L < ?o + unat sz"
    using place_data [OF g1(1) growsD(2,3) [OF G1] sp1 s0 b] unfolding g1(2) by blast
  define ts where "ts = zs @ ys"
  have G4: "grows fs fs4 c xs ts" using grows_trans [OF G1 Q(4)] by (simp add: ts_def)
  have C4: "contents fs4 (xs @ ts) = splice ?o (take (unat sz) buf) (contents fs xs @ replicate (length ts * ?L) 0)"
    using Q(5) unfolding C1 by (simp add: ts_def replicate_add add_mult_distrib del: contents_simps)
  have end4: "?o + unat sz \<le> length (xs @ ts) * ?L" using Q(6) by (simp add: ts_def add.assoc)
  have few: "ts \<noteq> [] \<longrightarrow> (length (xs @ ts) - 1) * ?L < ?o + unat sz"
  proof (cases "ys = []")
    case True
    then show ?thesis using one s0 by (auto simp: ts_def)
  next
    case False
    then show ?thesis using Q(7) by (simp add: ts_def add.assoc)
  qed
  note H = growsD [OF G4]
  have g4: "geom fs4" "csize fs4 = ?L" "valid fs4 = valid fs" using vol_same [OF H(1)] g by simp_all
  note ch4 = cst.chainD [OF H(3)]
  have cap: "length (xs @ ts) * ?L \<le> 2 ^ 32" using chain_capacity(1) [OF g4(1), of "xs @ ts"] ch4 g4(2) by simp
  have "?o < 2 ^ 32" using end4 s0 cap by linarith
  note wd = word_div_mod [OF less_imp_neq [OF geom_csize [OF g], symmetric] this]
  define node1 where "node1 = (if first_cluster ?f < 2 then node\<lparr>fn_file := ?f\<lparr>first_cluster := c\<rparr>\<rparr> else node)"
  have n1: "first_cluster (fn_file node1) = c" "dir_entry_cluster (fn_file node1) = dir_entry_cluster ?f" "dir_entry_offset (fn_file node1) = dir_entry_offset ?f"
    "fn_size node1 = fn_size node" using P(3) by (auto simp: node1_def)
  define node2 where "node2 = (if offset + sz > fn_size node1 then node1\<lparr>fn_size := offset + sz, fn_blocks := (offset + sz + 511) div 512\<rparr> else node1)"
  have "unat (offset + sz) = ?o + unat sz" using end4 cap by (intro unat_add_no_overflow) simp
  then have n2: "fn_file node2 = fn_file node1" "unat (fn_size node2) = max (unat (fn_size node)) (?o + unat sz)"
    "fn_size node2 = (if offset + sz > fn_size node then offset + sz else fn_size node)"
    using n1(4) by (auto simp: node2_def word_less_nat_alt)
  obtain date time where now: "get_fat_now now = (date, time)" by fastforce
  obtain u fs' where up: "update_entry (fn_file node2) (entry_written (fn_file node2) (fn_size node2) date time) fs4 = (u, fs')" by fastforce
  have dnot: "dir_entry_cluster ?f \<notin> set (xs @ ts)"
  proof
    assume "dir_entry_cluster ?f \<in> set (xs @ ts)"
    then have "dir_entry_cluster ?f \<in> free_clusters fs" using en(2) H(4) by auto
    then show False using en(1) free_valid cst.good_number [OF g, of "dir_entry_cluster ?f"] by (auto simp: entry_ok_def word_le_nat_alt word_less_nat_alt)
  qed
  have en4: "entry_ok fs4 (fn_file node2)"
    using en(1) H(6) [of "dir_entry_cluster ?f"] dnot n1 n2 g4 by (auto simp: entry_ok_def)
  note U = update_entry_ok [OF g4(1) H(2) en4 entry_written_length up]
  let ?node = "if u then node2\<lparr>fn_mtime := fat_to_unix date time, fn_atime := fat_to_unix date time\<rparr> else node2"
  have "sz \<noteq> 0" using s0 by auto
  then have "fat32_write_file now node offset sz buf fs = Some (write_finish now offset (unat sz) node1 fs4)"
    unfolding fat32_write_file_def Let_def cf node1_def using P(2) Q(1-3) wd by (simp split del: if_split)
  moreover have w: "word_of_nat (unat sz) = sz" by simp
  have "write_finish now offset (unat sz) node1 fs4 = (sz, ?node, fs')"
    unfolding write_finish_def Let_def w node2_def [symmetric] now prod.case up by simp
  ultimately have run: "fat32_write_file now node offset sz buf fs = Some (sz, ?node, fs')" by simp
  have V: "vol fs' = vol fs" using U(1) H(1) by simp
  have nx: "get_next_cluster fs' x = get_next_cluster fs4 x" if "valid fs x" for x using U(3) [of x] that g4(3) by simp
  have dt: "data fs' x = data fs4 x" if "valid fs x" "x \<noteq> dir_entry_cluster ?f" for x using U(4) [of x] that g4(3) n1 n2 by simp
  have ch: "fchain fs' c (xs @ ts)"
    using cst.chain_stays [of fs' fs4 "xs @ ts" c] vol_same(2) [OF U(1)] U(3) H(3) by simp
  have ne: "xs @ ts \<noteq> []" using ch4 by blast
  have vs: "valid fs x" if "x \<in> set (xs @ ts)" for x using ch4 that g4(3) by auto
  have "contents fs' (xs @ ts) = contents fs4 (xs @ ts)" using dt vs dnot by (intro contents_cong) blast
  then have C': "contents fs' (xs @ ts) = splice ?o (take (unat sz) buf) (contents fs xs @ replicate (length ts * ?L) 0)" using C4 by simp
  have fl: "fn_file ?node = fn_file node1" "fn_size ?node = fn_size node2" using n2(1) by simp_all
  have "node_ok fs' (fn_file ?node) (xs @ ts)"
    unfolding node_ok_def fl n1(1,2) using ch ne U(2) g4(1,2) vol_same [OF U(1)] n2 dnot en4 nx en(1) fl by (auto simp: entry_ok_def n1)
  moreover have "get_next_cluster fs' x = get_next_cluster fs x \<and> (x \<noteq> dir_entry_cluster ?f \<longrightarrow> data fs' x = data fs x)"
    if "valid fs x" "x \<notin> set (xs @ ts)" for x using nx [OF that(1)] dt [OF that(1)] H(6) [OF that] by simp
  moreover have "free_clusters fs' = free_clusters fs - set ts" using U(5) H(5) by simp
  moreover have "data fs' (dir_entry_cluster ?f) = entry_written (fn_file ?node) (fn_size ?node) date time (data fs (dir_entry_cluster ?f))"
    if "2 \<le> dir_entry_cluster ?f"
  proof -
    have "valid fs (dir_entry_cluster ?f)" using en(1) that by (auto simp: entry_ok_def)
    then show ?thesis using U(6) H(6) [OF _ dnot] that n1 n2 by simp
  qed
  ultimately show ?thesis using run H(4) fl n1 n2(2,3) V C' end4 few now
    by (intro exI [of _ ?node] exI [of _ fs'] exI [of _ ts]) (simp split del: if_split)
qed

lemma write_file_ok:
  assumes ok: "file_ok fs node xs" and sp: "unat offset + unat sz \<le> (length xs + card (free_clusters fs)) * csize fs" and s0: "0 < unat sz"
    and b: "unat sz \<le> length buf"
  shows "\<exists>node' fs' ys. fat32_write_file now node offset sz buf fs = Some (sz, node', fs') \<and> file_ok fs' node' (xs @ ys) \<and> set ys \<subseteq> free_clusters fs \<and>
    free_clusters fs' = free_clusters fs - set ys \<and> unat (fn_size node') = max (unat (fn_size node)) (unat offset + unat sz) \<and> vol fs' = vol fs \<and>
    dir_entry_offset (fn_file node') = dir_entry_offset (fn_file node) \<and>
    contents fs' (xs @ ys) = splice (unat offset) (take (unat sz) buf) (contents fs xs @ replicate (length ys * csize fs) 0) \<and>
    unat offset + unat sz \<le> length (xs @ ys) * csize fs \<and>
    (2 \<le> dir_entry_cluster (fn_file node) \<longrightarrow> data fs' (dir_entry_cluster (fn_file node)) =
       entry_written (fn_file node') (fn_size node') (fst (get_fat_now now)) (snd (get_fat_now now)) (data fs (dir_entry_cluster (fn_file node)))) \<and>
    (\<forall>d. valid fs d \<longrightarrow> d \<notin> set (xs @ ys) \<longrightarrow> get_next_cluster fs' d = get_next_cluster fs d \<and> (d \<noteq> dir_entry_cluster (fn_file node) \<longrightarrow> data fs' d = data fs d))"
proof -
  have F: "node_ok fs (fn_file node) xs" "unat (fn_size node) \<le> length xs * csize fs" using ok by (simp_all add: file_ok_def)
  have fit: "max (unat (fn_size node)) (unat offset + unat sz) \<le> length (xs @ ys) * csize fs" if "unat offset + unat sz \<le> length (xs @ ys) * csize fs" for ys
    using F(2) that by (simp add: add_mult_distrib)
  from write_node_ok [OF F(1) sp s0 b, of now] obtain node' fs' ys where
    W: "fat32_write_file now node offset sz buf fs = Some (sz, node', fs')" "node_ok fs' (fn_file node') (xs @ ys)" "set ys \<subseteq> free_clusters fs"
    "free_clusters fs' = free_clusters fs - set ys" "unat (fn_size node') = max (unat (fn_size node)) (unat offset + unat sz)" "vol fs' = vol fs"
    "dir_entry_offset (fn_file node') = dir_entry_offset (fn_file node)"
    "contents fs' (xs @ ys) = splice (unat offset) (take (unat sz) buf) (contents fs xs @ replicate (length ys * csize fs) 0)"
    "unat offset + unat sz \<le> length (xs @ ys) * csize fs"
    "2 \<le> dir_entry_cluster (fn_file node) \<longrightarrow> data fs' (dir_entry_cluster (fn_file node)) =
       entry_written (fn_file node') (fn_size node') (fst (get_fat_now now)) (snd (get_fat_now now)) (data fs (dir_entry_cluster (fn_file node)))"
    "\<forall>d. valid fs d \<longrightarrow> d \<notin> set (xs @ ys) \<longrightarrow> get_next_cluster fs' d = get_next_cluster fs d \<and> (d \<noteq> dir_entry_cluster (fn_file node) \<longrightarrow> data fs' d = data fs d)"
    by (elim exE conjE) (rule that)
  have "file_ok fs' node' (xs @ ys)" unfolding file_ok_def W(5) vol_same(3) [OF W(6)] using W(2) fit [OF W(9)] by blast
  then show ?thesis using W by blast
qed

text \<open>The fields of a directory entry after a write; all other bytes of the cluster are kept.\<close>

lemma load_le16: "i + 2 \<le> length xs \<Longrightarrow> load16 (splice i (le16 v) xs) i = v"
  by (simp add: load16_def nth_splice le16_def bits_le16)

lemma load16_splice: "j + 2 \<le> i \<or> i + length p \<le> j \<Longrightarrow> i + length p \<le> length xs \<Longrightarrow> j + 2 \<le> length xs \<Longrightarrow> load16 (splice i p xs) j = load16 xs j"
  by (auto simp: load16_def nth_splice)

lemma load32_splice: "j + 4 \<le> i \<or> i + length p \<le> j \<Longrightarrow> i + length p \<le> length xs \<Longrightarrow> j + 4 \<le> length xs \<Longrightarrow> load32 (splice i p xs) j = load32 xs j"
  by (auto simp: load32_def nth_splice)

lemma ucast_mask16: "ucast (w AND 0xFFFF :: u32) = (ucast w :: u16)"
proof (rule bit_word_eqI)
  fix n assume n: "n < LENGTH(16)"
  have m: "(0xFFFF :: u32) = mask 16" by (simp add: mask_eq_exp_minus_1)
  have "bit (mask 16 :: u32) n" using n by (simp only: bit_mask_iff) simp
  then show "bit (ucast (w AND 0xFFFF :: u32) :: u16) n = bit (ucast w :: u16) n" unfolding m using n by (auto simp only: bit_and_iff bit_unsigned_iff)
qed

lemma entry_written_fields:
  assumes "unat (dir_entry_offset f) + 32 \<le> length b"
  shows "load32 (entry_written f s d t b) (unat (dir_entry_offset f) + 28) = ucast s"
    "load16 (entry_written f s d t b) (unat (dir_entry_offset f) + 26) = ucast (first_cluster f)"
    "load16 (entry_written f s d t b) (unat (dir_entry_offset f) + 20) = ucast (drop_bit 16 (first_cluster f))"
    "load16 (entry_written f s d t b) (unat (dir_entry_offset f) + 24) = d" "load16 (entry_written f s d t b) (unat (dir_entry_offset f) + 22) = t"
    "load16 (entry_written f s d t b) (unat (dir_entry_offset f) + 18) = d"
    "i < length b \<Longrightarrow> i < unat (dir_entry_offset f) + 18 \<or> unat (dir_entry_offset f) + 32 \<le> i \<Longrightarrow> entry_written f s d t b ! i = b ! i"
proof -
  let ?e = "unat (dir_entry_offset f)"
  show "load32 (entry_written f s d t b) (?e + 28) = ucast s" "load16 (entry_written f s d t b) (?e + 26) = ucast (first_cluster f)"
    "load16 (entry_written f s d t b) (?e + 20) = ucast (drop_bit 16 (first_cluster f))"
    "load16 (entry_written f s d t b) (?e + 24) = d" "load16 (entry_written f s d t b) (?e + 22) = t" "load16 (entry_written f s d t b) (?e + 18) = d"
    using assms by (simp_all add: entry_written_def Let_def load32_splice load16_splice load_splice_le32 load_le16 ucast_mask16)
  show "entry_written f s d t b ! i = b ! i" if "i < length b" "i < ?e + 18 \<or> ?e + 32 \<le> i"
    using assms that by (auto simp: entry_written_def Let_def nth_splice)
qed

lemma free_chain_ok:
  "geom fs \<Longrightarrow> fchain fs c xs \<Longrightarrow> \<exists>fs'. free_cluster_chain c fs = Some fs' \<and> vol fs' = vol fs \<and>
     (\<forall>d. valid fs d \<longrightarrow> get_next_cluster fs' d = (if d \<in> set xs then 0 else get_next_cluster fs d) \<and> data fs' d = data fs d)"
proof (induction xs arbitrary: c fs)
  case (Cons x xs)
  note g = Cons.prems(1) and C = cst.chainD [OF Cons.prems(2)]
  have x: "c = x" "valid fs x" using C by simp_all
  have r: "2 \<le> c \<and> c < FAT_EOC" using cst.good_number [OF g x(2)] x by simp
  define fs1 where "fs1 = set_cluster_value x 0 fs"
  have V: "vol fs1 = vol fs" using vol_set [OF g valid_lt [OF x(2)]] by (simp add: fs1_def)
  have n1: "get_next_cluster fs1 d = (if d = x then 0 else get_next_cluster fs d)" "data fs1 d = data fs d" if "valid fs d" for d
    using cst.nx_set [OF g x(2) that] cst.dat_set [OF g x(2) that] by (simp_all add: fs1_def)
  have step: "free_cluster_chain c fs = free_cluster_chain (get_next_cluster fs c) fs1"
    using r x(1) by (subst free_cluster_chain.simps) (simp add: fs1_def)
  show ?case
  proof (cases xs)
    case Nil
    then have "get_next_cluster fs c \<ge> FAT_EOC" using C x(1) by simp
    then have "\<not> (2 \<le> get_next_cluster fs c \<and> get_next_cluster fs c < FAT_EOC)" using leD by blast
    then have "free_cluster_chain (get_next_cluster fs c) fs1 = Some fs1" 
      by (subst free_cluster_chain.simps) (simp only: if_False)
    then have "free_cluster_chain c fs = Some fs1" using step by simp
    then show ?thesis using V n1 Nil by auto
  next
    case (Cons y ys)
    have "linked (get_next_cluster fs) (get_next_cluster fs c) xs" using Cons.prems(2) Cons x(1) by (simp add: chain_def)
    moreover have "get_next_cluster fs1 d = get_next_cluster fs d" if "d \<in> set xs" for d using that C n1(1) [of d] by auto
    ultimately have "fchain fs1 (get_next_cluster fs c) xs"
      using linked_cong [of xs "get_next_cluster fs1" "get_next_cluster fs"] C vol_same(2) [OF V] by (auto simp: chain_def)
    moreover have "geom fs1" using g vol_same(1) [OF V] by simp
    ultimately obtain fs' where I: "free_cluster_chain (get_next_cluster fs c) fs1 = Some fs'" "vol fs' = vol fs1"
      "\<And>d. valid fs1 d \<Longrightarrow> get_next_cluster fs' d = (if d \<in> set xs then 0 else get_next_cluster fs1 d) \<and> data fs' d = data fs1 d"
      using Cons.IH by blast
    then show ?thesis using step V n1 vol_same(2) [OF V] by auto
  qed
qed (simp add: chain_def)

text \<open>
  C31. Writing to a file: if the volume has clusters enough, \<open>fat32_write_file\<close> returns and writes everything. The chain of the
  file grows by free clusters only, which are taken off the free ones, its contents are the old ones, continued by zeros, with the
  data in its place, and its size is updated. Of every other cluster, free or not, the link and the data stay as they are, with one
  exception, the cluster that holds the file's directory entry (if it has one, \<open>dir_entry_cluster\<close> \<open>\<ge>\<close> 2): there the size, the first cluster and the times of the entry are
  the new ones, field by field, and all other bytes stay. So every other chain of the volume keeps its links and, unless it holds
  the directory entry, its contents.
\<close>

theorem fat32_write_correct:
  assumes "file_ok fs node xs" "unat offset + unat sz \<le> (length xs + card (free_clusters fs)) * csize fs" "0 < sz" "unat sz \<le> length buf"
  shows "\<exists>node' fs' ys. fat32_write_file now node offset sz buf fs = Some (sz, node', fs') \<and> file_ok fs' node' (xs @ ys) \<and>
    set ys \<subseteq> free_clusters fs \<and> free_clusters fs' = free_clusters fs - set ys \<and>
    vol fs' = vol fs \<and> unat (fn_size node') = max (unat (fn_size node)) (unat offset + unat sz) \<and>
    contents fs' (xs @ ys) = splice (unat offset) (take (unat sz) buf) (contents fs xs @ replicate (length ys * csize fs) 0) \<and>
    (\<forall>d. valid fs d \<longrightarrow> d \<notin> set (xs @ ys) \<longrightarrow> get_next_cluster fs' d = get_next_cluster fs d \<and> (d \<noteq> dir_entry_cluster (fn_file node) \<longrightarrow> data fs' d = data fs d)) \<and>
    (let dc = dir_entry_cluster (fn_file node); eo = unat (dir_entry_offset (fn_file node)); cl = first_cluster (fn_file node'); e = data fs' dc
     in 2 \<le> dc \<longrightarrow> (\<forall>i < csize fs. i < eo + 18 \<or> eo + 32 \<le> i \<longrightarrow> e ! i = data fs dc ! i) \<and>
       load32 e (eo + 28) = ucast (fn_size node') \<and> load16 e (eo + 26) = ucast cl \<and> load16 e (eo + 20) = ucast (drop_bit 16 cl) \<and>
       load16 e (eo + 18) = fst (get_fat_now now) \<and> load16 e (eo + 24) = fst (get_fat_now now) \<and> load16 e (eo + 22) = snd (get_fat_now now)) \<and>
    (\<forall>c zs. fchain fs c zs \<longrightarrow> set zs \<inter> set xs = {} \<longrightarrow>
       fchain fs' c zs \<and> (dir_entry_cluster (fn_file node) \<notin> set zs \<longrightarrow> contents fs' zs = contents fs zs))"
proof -
  have F: "geom fs" "entry_ok fs (fn_file node)" using assms(1) by (simp_all add: file_ok_def node_ok_def)
  have "0 < unat sz" using assms(3) by (simp add: word_less_nat_alt)
  from write_file_ok [OF assms(1,2) this assms(4), of now] obtain node' fs' ys where W:
    "fat32_write_file now node offset sz buf fs = Some (sz, node', fs')" "file_ok fs' node' (xs @ ys)" "set ys \<subseteq> free_clusters fs"
    "free_clusters fs' = free_clusters fs - set ys" "unat (fn_size node') = max (unat (fn_size node)) (unat offset + unat sz)"
    "contents fs' (xs @ ys) = splice (unat offset) (take (unat sz) buf) (contents fs xs @ replicate (length ys * csize fs) 0)"
    "\<forall>d. valid fs d \<longrightarrow> d \<notin> set (xs @ ys) \<longrightarrow> get_next_cluster fs' d = get_next_cluster fs d \<and> (d \<noteq> dir_entry_cluster (fn_file node) \<longrightarrow> data fs' d = data fs d)"
    "vol fs' = vol fs" "dir_entry_offset (fn_file node') = dir_entry_offset (fn_file node)"
    "2 \<le> dir_entry_cluster (fn_file node) \<longrightarrow> data fs' (dir_entry_cluster (fn_file node)) =
       entry_written (fn_file node') (fn_size node') (fst (get_fat_now now)) (snd (get_fat_now now)) (data fs (dir_entry_cluster (fn_file node)))"
    by (elim exE conjE) (rule that)
  let ?dc = "dir_entry_cluster (fn_file node)" and ?eo = "unat (dir_entry_offset (fn_file node))"
  have other: "fchain fs' c zs \<and> (?dc \<notin> set zs \<longrightarrow> contents fs' zs = contents fs zs)"
    if zs: "fchain fs c zs" "set zs \<inter> set xs = {}" for c zs
  proof -
    have out: "valid fs d \<and> d \<notin> set (xs @ ys)" if d: "d \<in> set zs" for d
      using chain_not_free [OF F(1) zs(1) d] zs d W(3) cst.chainD [OF zs(1)] by auto
    have "fchain fs' c zs" using cst.chain_stays [of fs' fs zs c] vol_same(2) [OF W(8)] W(7) out zs(1) by simp
    moreover have "contents fs' zs = contents fs zs" if "?dc \<notin> set zs" using W(7) out that by (intro contents_cong) blast
    ultimately show ?thesis by blast
  qed
  have "?eo + 32 \<le> length (data fs ?dc)" if "2 \<le> ?dc" using F(2) that by (auto simp: entry_ok_def)
  note E = entry_written_fields [where f = "fn_file node'" and b = "data fs ?dc" and s = "fn_size node'" and d = "fst (get_fat_now now)" and t = "snd (get_fat_now now)", unfolded W(9), OF this]
  show ?thesis unfolding Let_def using W(1-8,10) other E by (intro exI [of _ node'] exI [of _ fs'] exI [of _ ys]) simp
qed

text \<open>
  C32. What \<open>fat32_write_file\<close> has written, \<open>fat32_read_file\<close> reads back, wherever in the file it is and across clusters; both
  calls return and transfer all bytes.
\<close>

theorem fat32_write_read:
  assumes ok: "file_ok fs node xs" and sp: "unat offset + unat sz \<le> (length xs + card (free_clusters fs)) * csize fs" "0 < sz"
    and b: "length buf = unat sz" "length rbuf = unat sz"
  shows "\<exists>node1 fs1 node2 fs2. fat32_write_file now node offset sz buf fs = Some (sz, node1, fs1) \<and>
    fat32_read_file now' node1 offset sz rbuf fs1 = Some (sz, buf, node2, fs2)"
proof -
  have s0: "0 < unat sz" using sp(2) by (simp add: word_less_nat_alt)
  from write_file_ok [OF ok sp(1) s0, of buf now] b obtain node1 fs1 ys where W:
    "fat32_write_file now node offset sz buf fs = Some (sz, node1, fs1)" "file_ok fs1 node1 (xs @ ys)"
    "unat (fn_size node1) = max (unat (fn_size node)) (unat offset + unat sz)"
    "contents fs1 (xs @ ys) = splice (unat offset) (take (unat sz) buf) (contents fs xs @ replicate (length ys * csize fs) 0)"
    "unat offset + unat sz \<le> length (xs @ ys) * csize fs" "vol fs1 = vol fs" by auto
  have g: "geom fs1" and cz: "csize fs1 = csize fs" using W(2) vol_same(3) [OF W(6)] by (simp_all add: file_ok_def node_ok_def)
  have "xs @ ys \<noteq> []" using W(5) s0 by (cases "xs @ ys") auto
  then have "fchain fs1 (first_cluster (fn_file node1)) (xs @ ys)" using W(2) by (simp add: file_ok_def node_ok_def)
  then have "distinct (xs @ ys)" "\<forall>x \<in> set (xs @ ys). valid fs1 x" unfolding chain_def by blast+
  then have "length (xs @ ys) * csize fs \<le> 2 ^ 32" using chain_capacity(1) [OF g] cz by metis
  moreover have "(2 :: nat) ^ 32 < 2 ^ 64" by simp
  ultimately have o64: "unat offset + unat sz < 2 ^ 64" using W(5) by linarith
  have len: "length (contents fs xs @ replicate (length ys * csize fs) 0) = length (xs @ ys) * csize fs" by (simp add: add_mult_distrib)
  have "min (unat sz) (unat (fn_size node1) - unat offset) = unat sz" using W(3) by simp
  from read_file_ok [OF W(2) o64, of rbuf "unat sz" now'] this b(2) obtain node2 fs2 where
    R: "fat32_read_file now' node1 offset sz rbuf fs1 = Some (word_of_nat (unat sz), splice 0 (take (unat sz) (drop (unat offset) (file_bytes fs1 node1 (xs @ ys)))) rbuf, node2, fs2)" by auto
  have "take (unat sz) (drop (unat offset) (file_bytes fs1 node1 (xs @ ys))) = buf"
  proof (rule nth_equalityI)
    have lc: "length (contents fs1 (xs @ ys)) = length (xs @ ys) * csize fs" unfolding W(4) using W(5) len b(1) by simp
    then have lf: "unat offset + unat sz \<le> length (file_bytes fs1 node1 (xs @ ys))" using W(3,5) by (simp add: file_bytes_def del: contents_simps length_contents)
    then show "length (take (unat sz) (drop (unat offset) (file_bytes fs1 node1 (xs @ ys)))) = length buf" using b(1) by simp
    fix i assume "i < length (take (unat sz) (drop (unat offset) (file_bytes fs1 node1 (xs @ ys))))"
    then have i: "i < unat sz" by simp
    then have "take (unat sz) (drop (unat offset) (file_bytes fs1 node1 (xs @ ys))) ! i = contents fs1 (xs @ ys) ! (unat offset + i)"
      using lf W(3) by (simp add: file_bytes_def del: contents_simps)
    also have "\<dots> = buf ! i" unfolding W(4) using nth_splice [of "unat offset" buf _ "unat offset + i"] W(5) len b(1) i by simp
    finally show "take (unat sz) (drop (unat offset) (file_bytes fs1 node1 (xs @ ys))) ! i = buf ! i" .
  qed
  then have "fat32_read_file now' node1 offset sz rbuf fs1 = Some (sz, buf, node2, fs2)" using R b splice_all [of buf rbuf] by simp
  then show ?thesis using W(1) by blast
qed

text \<open>
  C33. \<open>free_cluster_chain\<close> ends on every chain of the volume; it frees exactly the clusters of the chain and changes no data.
\<close>

theorem free_cluster_chain_correct:
  assumes "geom fs" "fchain fs c xs"
  shows "\<exists>fs'. free_cluster_chain c fs = Some fs' \<and> geom fs' \<and>
    (\<forall>d. valid fs d \<longrightarrow> get_next_cluster fs' d = (if d \<in> set xs then 0 else get_next_cluster fs d) \<and> data fs' d = data fs d)"
  using free_chain_ok [OF assms] vol_same(1) assms(1) by blast

text \<open>
  The permission check on the block device is made for the process that reads a file: for a process that may not read the
  device, \<open>fat32_read_file\<close> still returns the number of bytes asked for, and the bytes are those of uninitialised kernel memory.
\<close>

theorem fat32_read_denied:
  assumes "denied fs" "mem_ok fs" "0 < sz" "unat offset + unat sz \<le> unat (fn_size node)" "unat offset + unat sz \<le> csize fs" "length buf = unat sz"
    "first_cluster (fn_file node) < FAT_EOC"
  shows "\<exists>node' fs'. fat32_read_file now node offset sz buf fs = Some (sz, map (junk fs) [unat offset..<unat offset + unat sz], node', fs')"
proof -
  let ?c = "first_cluster (fn_file node)" and ?o = "unat offset" and ?n = "unat sz"
  have n0: "0 < ?n" using assms(3) by (simp add: word_less_nat_alt)
  have L: "csize fs \<noteq> 0" "?o < csize fs" using assms(5) n0 by auto
  have "?o < 2 ^ 32" using L(2) unat_lt2p [of "bytes_per_cluster fs"] by simp
  note wd = word_div_mod [OF L(1) this]
  obtain bs where km: "kmalloc_fails fs = (False, fs\<lparr>oom := bs\<rparr>)" using kmalloc_works [OF assms(2)] .
  let ?fs = "fs\<lparr>oom := bs\<rparr>"
  have rc: "read_cluster ?fs c b = b" for c b using assms(1) by (simp add: read_cluster_def dev_read_def)
  have n: "(if csize fs - ?o > ?n - 0 then ?n - 0 else csize fs - ?o) = ?n" using assms(5) by auto
  have j: "take ?n (drop ?o (new_buf (csize fs) ?fs)) = map (junk fs) [?o..<?o + ?n]"
    using assms(5) by (intro nth_equalityI) (auto simp: new_buf_def)
  have "read_clusters ?fs ?c (csize fs) ?o ?n 0 (new_buf (csize fs) ?fs) buf =
      read_clusters ?fs (get_next_cluster ?fs ?c) (csize fs) 0 ?n ?n (new_buf (csize fs) ?fs) (splice 0 (map (junk fs) [?o..<?o + ?n]) buf)"
    using n0 assms(7) by (subst read_clusters.simps) (simp only: rc n j Let_def add_0 if_True simp_thms)
  also have "\<dots> = Some (?n, map (junk fs) [?o..<?o + ?n])" using assms(6) by (subst read_clusters.simps) (simp add: splice_all)
  finally have rd: "read_clusters ?fs ?c (csize fs) ?o ?n 0 (new_buf (csize fs) ?fs) buf = Some (?n, map (junk fs) [?o..<?o + ?n])" .
  have "unat (offset + sz) = ?o + ?n" using assms(4) unat_lt2p [of "fn_size node"] by (intro unat_add_no_overflow) simp
  then have clip: "(if offset + sz > fn_size node then fn_size node - offset else sz) = sz" "\<not> offset \<ge> fn_size node" "sz \<noteq> 0"
    using assms(4) n0 by (auto simp: word_less_nat_alt word_le_nat_alt)
  have q: "?o div csize fs = 0" "?o mod csize fs = ?o" using L by simp_all
  obtain date time where now: "get_fat_now now = (date, time)" by fastforce
  obtain u fs' where up: "update_entry (fn_file node) (splice (unat (dir_entry_offset (fn_file node)) + 18) (le16 date)) ?fs = (u, fs')" by fastforce
  have "fat32_read_file now node offset sz buf fs = Some (sz, map (junk fs) [?o..<?o + ?n], node\<lparr>fn_atime := fat_to_unix date time\<rparr>, fs')"
    unfolding fat32_read_file_def Let_def clip(1) using clip(2,3) wd q km rd now up by simp
  then show ?thesis by blast
qed

text \<open>A volume of 100 empty clusters of one sector; and one whose first cluster holds a directory, with the entry of an empty file in it.\<close>

definition fs0 :: fat32_fs where
  "fs0 = \<lparr>device = \<lparr>d_mem = (\<lambda>_. 0), d_fail = (\<lambda>_. False)\<rparr>, denied = False, junk = (\<lambda>i. word_of_nat i), oom = [], sectors_per_cluster = 1,
     bytes_per_cluster = 512, fat_begin_lba = 1, cluster_begin_lba = 2, root_cluster = 2, total_clusters = 100, device_id = 0\<rparr>"

definition vol0 :: fat32_fs where
  "vol0 = set_cluster_value 2 FAT_EOC fs0"

definition node0 :: fnode where
  "node0 = \<lparr>fn_name = [], fn_flags = 1, fn_size = 0, fn_id = 0, fn_blocks = 0, fn_ctime = None, fn_mtime = None, fn_atime = None,
     fn_mode = 0, fn_uid = 0, fn_gid = 0, fn_nlink = 0, fn_blksize = 0, fn_dev = 0, fn_ref_count = 1,
     fn_file = \<lparr>first_cluster = 0, parent_cluster = 2, dir_entry_cluster = 2, dir_entry_offset = 64\<rparr>\<rparr>"

lemma fs0_geom: "geom fs0"
  by (simp add: geom_def fs0_def dev_works_def)

lemma fs0_next: "valid fs0 c \<Longrightarrow> get_next_cluster fs0 c = 0"
  using get_next_eq [OF fs0_geom valid_lt] by (simp add: entry_at_def load32_def fs0_def)

lemma fs0_data: "data fs0 c = replicate 512 0"
  by (simp add: data_def bytes_at_def fs0_def map_replicate_const)

lemma vol0_vol: "vol vol0 = vol fs0" "oom vol0 = []"
  using vol_set [OF fs0_geom, of 2 FAT_EOC] by (simp_all add: vol0_def fs0_def)

lemma vol0_ok: "geom vol0" "valid vol0 = valid fs0" "csize vol0 = 512" "mem_ok vol0" "clusters vol0 = 100"
  using vol_same [OF vol0_vol(1)] vol0_vol(2) fs0_geom by (simp_all add: fs0_def)

lemma fs0_valid: "valid fs0 c \<longleftrightarrow> 2 \<le> unat c \<and> unat c < 102"
  by (simp add: valid_def fs0_def)

lemma vol0_next: "valid fs0 c \<Longrightarrow> get_next_cluster vol0 c = (if c = 2 then FAT_EOC else 0)"
  using cst.nx_set [OF fs0_geom, of 2 c FAT_EOC] fs0_next [of c] by (simp add: vol0_def fs0_valid)

lemma vol0_data: "valid fs0 c \<Longrightarrow> data vol0 c = replicate 512 0"
  using cst.dat_set [OF fs0_geom, of 2 c FAT_EOC] fs0_data [of c] by (simp add: vol0_def fs0_valid)

lemma vol0_file: "file_ok vol0 node0 []"
  using vol0_ok vol0_next [of 2] by (simp add: file_ok_def node_ok_def entry_ok_def node0_def fs0_valid)

lemma vol0_free: "free_clusters vol0 = {c. 3 \<le> unat c \<and> unat c < 102}"
proof (intro set_eqI)
  fix c :: u32
  have "c = 2 \<longleftrightarrow> unat c = 2" by (simp add: word_unat_eq_iff)
  then have "c \<in> free_clusters vol0 \<longleftrightarrow> (2 \<le> unat c \<and> unat c < 102) \<and> unat c < 128 \<and> unat c \<noteq> 2"
    using vol0_ok vol0_next [of c] by (auto simp: free_clusters_def fat_sectors_def fs0_valid split: if_splits)
  then show "c \<in> free_clusters vol0 \<longleftrightarrow> c \<in> {c. 3 \<le> unat c \<and> unat c < 102}" by auto
qed

lemma vol0_card: "card (free_clusters vol0) = 99"
proof -
  have "{c :: u32. 3 \<le> unat c \<and> unat c < 102} = word_of_nat ` {3..<102}"
  proof (intro equalityI subsetI)
    fix c :: u32 assume "c \<in> {c. 3 \<le> unat c \<and> unat c < 102}"
    then have "unat c \<in> {3..<102}" "c = word_of_nat (unat c)" by simp_all
    then show "c \<in> word_of_nat ` {3..<102}" by blast
  qed (auto simp: unat_of_nat)
  moreover have "inj_on (word_of_nat :: nat \<Rightarrow> u32) {3..<102}"
    by (rule inj_on_inverseI [of _ unat]) (simp add: unat_of_nat)
  ultimately show ?thesis unfolding vol0_free by (simp add: card_image)
qed

theorem fat32_write_correct_witness:
  "\<exists>node' fs' ys. fat32_write_file 0 node0 500 300 (replicate 300 7) vol0 = Some (300, node', fs') \<and> unat (fn_size node') = 800 \<and>
    contents fs' ys ! 700 = 7 \<and> load32 (data fs' 2) 92 = 800 \<and> data fs' 2 ! 100 = 0"
proof -
  have sp: "unat (500 :: u64) + unat (300 :: u64) \<le> (length [] + card (free_clusters vol0)) * csize vol0" using vol0_card vol0_ok by simp
  have v: "data vol0 2 = replicate 512 0" using vol0_data by (simp add: fs0_valid)
  have n: "fn_size node0 = 0" "dir_entry_cluster (fn_file node0) = 2" "unat (dir_entry_offset (fn_file node0)) = 64" by (simp_all add: node0_def)
  have "unat (300 :: u64) \<le> length (replicate 300 (7 :: u8))" "0 < (300 :: u64)" by simp_all
  from fat32_write_correct [OF vol0_file sp this(2,1), of 0, unfolded Let_def n] obtain node' fs' ys where
    W: "fat32_write_file 0 node0 500 300 (replicate 300 7) vol0 = Some (300, node', fs')" "file_ok fs' node' ([] @ ys)"
    "unat (fn_size node') = max (unat (0 :: u64)) (unat (500 :: u64) + unat (300 :: u64))"
    "contents fs' ([] @ ys) = splice (unat (500 :: u64)) (take (unat (300 :: u64)) (replicate 300 7)) (contents vol0 [] @ replicate (length ys * csize vol0) 0)"
    "(2 :: u32) \<le> 2 \<longrightarrow> (\<forall>i < csize vol0. i < 64 + 18 \<or> 64 + 32 \<le> i \<longrightarrow> data fs' 2 ! i = data vol0 2 ! i) \<and>
       load32 (data fs' 2) (64 + 28) = ucast (fn_size node')" "vol fs' = vol vol0" by auto
  have s: "unat (fn_size node') = 800" using W(3) by simp
  then have "fn_size node' = 800" by (simp add: word_unat_eq_iff)
  then have e: "load32 (data fs' 2) 92 = 800" "data fs' 2 ! 100 = 0" using W(5) v vol0_ok(3) by simp_all
  have c: "contents fs' ys = splice 500 (replicate 300 7) (replicate (length ys * 512) 0)" using W(4) vol0_ok(3) by simp
  have "800 \<le> length ys * 512" using W(2,6) s vol_same(3) [OF W(6)] vol0_ok(3) by (simp add: file_ok_def)
  then have "contents fs' ys ! 700 = 7" unfolding c by (simp add: nth_splice)
  then show ?thesis using W(1) s e by blast
qed

theorem fat32_write_read_witness:
  "\<exists>node1 fs1 node2 fs2. fat32_write_file 0 node0 500 3 [7, 8, 9] vol0 = Some (3, node1, fs1) \<and>
    fat32_read_file 0 node1 500 3 [0, 0, 0] fs1 = Some (3, [7, 8, 9], node2, fs2)"
  by (rule fat32_write_read [OF vol0_file]) (use vol0_card vol0_ok in simp_all)

theorem free_cluster_chain_correct_witness:
  "\<exists>fs'. free_cluster_chain 5 (set_cluster_value 5 FAT_EOC fs0) = Some fs' \<and> geom fs' \<and> get_next_cluster fs' 5 = 0"
proof -
  have v: "valid fs0 5" by (simp add: valid_def fs0_def)
  have g: "geom (set_cluster_value 5 FAT_EOC fs0)" "valid (set_cluster_value 5 FAT_EOC fs0) 5" using cst.set_ok [OF fs0_geom v] v by simp_all
  show ?thesis using free_cluster_chain_correct [OF g(1) cst.chain_new [OF fs0_geom v]] g(2) by auto
qed

theorem fat32_read_denied_witness:
  "\<exists>node' fs'. fat32_read_file 0 (node0\<lparr>fn_size := 100\<rparr>) 16 3 [0, 0, 0] (fs0\<lparr>denied := True\<rparr>) = Some (3, [16, 17, 18], node', fs')"
proof -
  have "map (junk (fs0\<lparr>denied := True\<rparr>)) [unat (16 :: u64)..<unat (16 :: u64) + unat (3 :: u64)] = [16, 17, 18]"
    by (simp add: fs0_def upt_rec)
  then show ?thesis using fat32_read_denied [where fs = "fs0\<lparr>denied := True\<rparr>" and node = "node0\<lparr>fn_size := 100\<rparr>" and offset = 16 and sz = 3 and buf = "[0, 0, 0]" and now = 0]
    by (simp add: fs0_def node0_def)
qed

end
