(* ===== verification/Fatdir.thy ===== *)
theory Fatdir
  imports Fat
begin

section \<open>Directories of the FAT32 file system\<close>

text \<open>
  The other half of \<^verbatim>\<open>kernel/fs/fat32.c\<close>: directories are chains of clusters that hold entries of 32 bytes, a short name in each
  and the long names in entries of their own in front of it. Names are the bytes of a C string without the final zero. The functions that walk a
  directory give None when they do not end, or when a store would leave the buffer of the long name. Memory for inodes and for
  cluster buffers whose allocation the code does not check is taken to be there.
\<close>

abbreviation (input) FAT_ATTR_LFN :: u8 where "FAT_ATTR_LFN \<equiv> 0x0F"
abbreviation (input) FAT_ATTR_DIRECTORY :: u8 where "FAT_ATTR_DIRECTORY \<equiv> 0x10"
abbreviation (input) FAT_ATTR_ARCHIVE :: u8 where "FAT_ATTR_ARCHIVE \<equiv> 0x20"
abbreviation (input) FS_FILE :: u32 where "FS_FILE \<equiv> 0x01"
abbreviation (input) FS_DIRECTORY :: u32 where "FS_DIRECTORY \<equiv> 0x02"
abbreviation (input) FS_TEMPORARY :: u32 where "FS_TEMPORARY \<equiv> 0x80"
abbreviation (input) S_IFMT :: u32 where "S_IFMT \<equiv> 0xF000"
abbreviation (input) S_IFREG :: u32 where "S_IFREG \<equiv> 0x8000"
abbreviation (input) S_IFDIR :: u32 where "S_IFDIR \<equiv> 0x4000"

subsection \<open>Names\<close>

definition to_upper :: "u8 list \<Rightarrow> u8 list" where
  "to_upper s = map (\<lambda>c. if 97 \<le> c \<and> c \<le> 122 then c - 32 else c) s"

definition fat_get_short_name :: "u8 list \<Rightarrow> u8 list" where
  "fat_get_short_name src =
     (let base = takeWhile (\<lambda>c. c \<noteq> 32) (take 8 src);
          ext = (if src ! 8 \<noteq> 32 then 46 # takeWhile (\<lambda>c. c \<noteq> 32) (take 3 (drop 8 src)) else [])
      in takeWhile (\<lambda>c. c \<noteq> 0) (base @ ext))"

definition lfn_checksum :: "u8 list \<Rightarrow> u8" where
  "lfn_checksum short_name =
     foldl (\<lambda>sum c. (if sum AND 1 \<noteq> 0 then 0x80 else 0) + drop_bit 1 sum + c) 0 (take 11 short_name)"

text \<open>The 13 characters of an entry of a long name, and their way into the buffer from the position \<open>pos\<close> on.\<close>

definition lfn_chars :: "u8 list \<Rightarrow> u16 list" where
  "lfn_chars e = map (load16 e) ([1, 3, 5, 7, 9] @ [14, 16, 18, 20, 22, 24] @ [28, 30])"

fun lfn_store :: "u16 list \<Rightarrow> int \<Rightarrow> u8 list \<Rightarrow> u8 list option" where
  "lfn_store [] pos buf = Some buf"
| "lfn_store (c # cs) pos buf =
     (if c = 0 \<or> c = 0xFFFF then Some buf
      else if 0 \<le> pos \<and> nat pos < length buf then lfn_store cs (pos + 1) (buf[nat pos := ucast (c AND 0xFF)])
      else None)"

definition lfn_extract_chars :: "u8 list \<Rightarrow> int \<Rightarrow> u8 list \<Rightarrow> u8 list option" where
  "lfn_extract_chars e pos buf = lfn_store (lfn_chars e) pos buf"

record lfn_state =
  lfn_buffer :: "u8 list"
  lfn_checksum_expected :: u8
  lfn_valid :: bool
  lfn_start_cluster :: u32
  lfn_start_idx :: nat

text \<open>The \<open>i\<close>-th entry of the cluster \<open>c\<close> belongs to a long name.\<close>

definition lfn_step :: "u32 \<Rightarrow> nat \<Rightarrow> u8 list \<Rightarrow> lfn_state \<Rightarrow> lfn_state option" where
  "lfn_step c i e st =
     (let st = (if e ! 0 AND 0x40 \<noteq> 0
                then \<lparr>lfn_buffer = replicate 256 0, lfn_checksum_expected = e ! 13, lfn_valid = True, lfn_start_cluster = c, lfn_start_idx = i\<rparr>
                else st)
      in if lfn_valid st \<and> e ! 13 = lfn_checksum_expected st
         then case lfn_extract_chars e ((uint (e ! 0 AND 0x3F) - 1) * 13) (lfn_buffer st) of
                None \<Rightarrow> None | Some buf \<Rightarrow> Some (st\<lparr>lfn_buffer := buf\<rparr>)
         else Some st)"

text \<open>The name that goes with a short entry.\<close>

definition has_long :: "u8 list \<Rightarrow> lfn_state \<Rightarrow> bool" where
  "has_long e st \<longleftrightarrow> lfn_valid st \<and> lfn_checksum e = lfn_checksum_expected st"

definition entry_name :: "u8 list \<Rightarrow> lfn_state \<Rightarrow> u8 list" where
  "entry_name e st = (if has_long e st then takeWhile (\<lambda>c. c \<noteq> 0) (lfn_buffer st) else fat_get_short_name e)"

subsection \<open>Walking a directory\<close>

abbreviation epc :: "fat32_fs \<Rightarrow> nat" where
  "epc fs \<equiv> unat (bytes_per_cluster fs) div 32"

definition entries :: "nat \<Rightarrow> u8 list \<Rightarrow> u8 list list" where
  "entries n buf = map (\<lambda>i. take 32 (drop (32 * i) buf)) [0..<n]"

text \<open>
  \<open>fat32_lookup\<close>, \<open>delete_dir_entries\<close> and \<open>fat32_readdir\<close> have one loop in common, which collects long names and stops at the end mark; they
  differ in what they do with a short entry. That is \<open>visit\<close>, which gives the result, Inl, or a new value of the variable \<open>a\<close>, Inr.
  The result of a walk is that of \<open>visit\<close>, or None at the end of the directory, and the buffer with the last cluster.
\<close>

fun scan_entries :: "(u32 \<Rightarrow> nat \<Rightarrow> u8 list \<Rightarrow> lfn_state \<Rightarrow> 'a \<Rightarrow> ('r + 'a) option) \<Rightarrow> u32 \<Rightarrow> nat \<Rightarrow> u8 list list \<Rightarrow> lfn_state \<Rightarrow> 'a \<Rightarrow>
    ('r option + lfn_state \<times> 'a) option" where
  "scan_entries visit c i [] st a = Some (Inr (st, a))"
| "scan_entries visit c i (e # es) st a =
     (if e ! 0 = 0 then Some (Inl None)
      else if e ! 0 = 0xE5 then scan_entries visit c (i + 1) es (st\<lparr>lfn_valid := False\<rparr>) a
      else if e ! 11 = FAT_ATTR_LFN
      then case lfn_step c i e st of None \<Rightarrow> None | Some st \<Rightarrow> scan_entries visit c (i + 1) es st a
      else case visit c i e st a of
             None \<Rightarrow> None
           | Some (Inl r) \<Rightarrow> Some (Inl (Some r))
           | Some (Inr a) \<Rightarrow> scan_entries visit c (i + 1) es (st\<lparr>lfn_valid := False\<rparr>) a)"

partial_function (option) scan_dir :: "(u32 \<Rightarrow> nat \<Rightarrow> u8 list \<Rightarrow> lfn_state \<Rightarrow> 'a \<Rightarrow> ('r + 'a) option) \<Rightarrow> fat32_fs \<Rightarrow> u32 \<Rightarrow> lfn_state \<Rightarrow> 'a \<Rightarrow> u8 list \<Rightarrow>
    ('r option \<times> u8 list) option" where
  "scan_dir visit fs c st a buf =
     (if c < FAT_EOC
      then let buf = read_cluster fs c buf
           in case scan_entries visit c 0 (entries (epc fs) buf) st a of
                None \<Rightarrow> None
              | Some (Inl r) \<Rightarrow> Some (r, buf)
              | Some (Inr (st, a)) \<Rightarrow> scan_dir visit fs (get_next_cluster fs c) st a buf
      else Some (None, buf))"

definition lfn_init :: "fat32_fs \<Rightarrow> lfn_state" where
  "lfn_init fs = \<lparr>lfn_buffer = new_buf 256 fs, lfn_checksum_expected = 0, lfn_valid = False, lfn_start_cluster = 0, lfn_start_idx = 0\<rparr>"

definition walk_dir :: "(u32 \<Rightarrow> nat \<Rightarrow> u8 list \<Rightarrow> lfn_state \<Rightarrow> 'a \<Rightarrow> ('r + 'a) option) \<Rightarrow> 'a \<Rightarrow> u32 \<Rightarrow> fat32_fs \<Rightarrow> ('r option \<times> u8 list) option" where
  "walk_dir visit a c fs = scan_dir visit fs c (lfn_init fs) a (new_buf (csize fs) fs)"

definition same_name :: "u8 list \<Rightarrow> u8 list \<Rightarrow> bool" where
  "same_name name ename \<longleftrightarrow> to_upper (take 255 name) = to_upper ename"

definition entry_cluster :: "u8 list \<Rightarrow> u32" where
  "entry_cluster e = push_bit 16 (ucast (load16 e 20)) OR ucast (load16 e 26)"

definition lookup_node :: "fat32_fs \<Rightarrow> u32 \<Rightarrow> u32 \<Rightarrow> nat \<Rightarrow> u8 list \<Rightarrow> u8 list \<Rightarrow> fnode" where
  "lookup_node fs dir c i name e =
     (let isdir = e ! 11 AND FAT_ATTR_DIRECTORY \<noteq> 0
      in \<lparr>fn_name = take 63 name, fn_flags = (if isdir then FS_DIRECTORY else FS_FILE) OR FS_TEMPORARY, fn_size = ucast (load32 e 28),
          fn_id = scast (entry_cluster e), fn_blocks = ucast ((load32 e 28 + 511) div 512),
          fn_ctime = fat_to_unix (load16 e 16) (load16 e 14), fn_mtime = fat_to_unix (load16 e 24) (load16 e 22), fn_atime = fat_to_unix (load16 e 18) 0,
          fn_mode = (if isdir then S_IFDIR OR 0x1ED else S_IFREG OR 0x1A4), fn_uid = 0, fn_gid = 0, fn_nlink = 1, fn_blksize = bytes_per_cluster fs,
          fn_dev = device_id fs, fn_ref_count = 1,
          fn_file = \<lparr>first_cluster = entry_cluster e, parent_cluster = dir, dir_entry_cluster = c, dir_entry_offset = word_of_nat (i * 32)\<rparr>\<rparr>)"

text \<open>A name of 255 bytes or more is not terminated in the buffers of \<open>fat32_lookup\<close> and \<open>delete_dir_entries\<close>.\<close>

definition lookup_visit :: "fat32_fs \<Rightarrow> u32 \<Rightarrow> u8 list \<Rightarrow> u32 \<Rightarrow> nat \<Rightarrow> u8 list \<Rightarrow> lfn_state \<Rightarrow> unit \<Rightarrow> (fnode + unit) option" where
  "lookup_visit fs dir name c i e st a =
     (let n = entry_name e st
      in if length n \<ge> 255 then None
         else if same_name name n then Some (Inl (lookup_node fs dir c i n e)) else Some (Inr ()))"

definition fat32_lookup :: "fnode \<Rightarrow> u8 list \<Rightarrow> fat32_fs \<Rightarrow> fnode option option" where
  "fat32_lookup node name fs =
     (let dir = first_cluster (fn_file node) in map_option fst (walk_dir (lookup_visit fs dir name) () dir fs))"

text \<open>\<open>fat32_readdir\<close> gives the name of the entry with the given index and whether it is a directory.\<close>

definition readdir_visit :: "int \<Rightarrow> nat \<Rightarrow> u32 \<Rightarrow> nat \<Rightarrow> u8 list \<Rightarrow> lfn_state \<Rightarrow> nat \<Rightarrow> (u8 list \<times> bool + nat) option" where
  "readdir_visit index buflen c i e st entry_idx =
     (if int entry_idx = index
      then if 0 < buflen \<and> buflen \<le> 256 then Some (Inl (take (buflen - 1) (entry_name e st), e ! 11 AND FAT_ATTR_DIRECTORY \<noteq> 0)) else None
      else Some (Inr (entry_idx + 1)))"

definition fat32_readdir :: "fnode \<Rightarrow> int \<Rightarrow> nat \<Rightarrow> fat32_fs \<Rightarrow> (u8 list \<times> bool) option option" where
  "fat32_readdir node index buflen fs = map_option fst (walk_dir (readdir_visit index buflen) 0 (first_cluster (fn_file node)) fs)"

text \<open>
  \<open>short_name_exists\<close> and \<open>is_directory_empty\<close> look at short entries only, for one that satisfies \<open>P\<close>.
\<close>

fun scan_short :: "(u8 list \<Rightarrow> bool) \<Rightarrow> u8 list list \<Rightarrow> bool option" where
  "scan_short P [] = None"
| "scan_short P (e # es) =
     (if e ! 0 = 0 then Some False
      else if e ! 0 = 0xE5 then scan_short P es
      else if e ! 11 = FAT_ATTR_LFN then scan_short P es
      else if P e then Some True
      else scan_short P es)"

partial_function (option) walk_short :: "(u8 list \<Rightarrow> bool) \<Rightarrow> fat32_fs \<Rightarrow> u32 \<Rightarrow> u8 list \<Rightarrow> bool option" where
  "walk_short P fs c buf =
     (if c < FAT_EOC
      then let buf = read_cluster fs c buf
           in case scan_short P (entries (epc fs) buf) of
                Some r \<Rightarrow> Some r
              | None \<Rightarrow> walk_short P fs (get_next_cluster fs c) buf
      else Some False)"

definition short_name_exists :: "fat32_fs \<Rightarrow> u32 \<Rightarrow> u8 list \<Rightarrow> bool option" where
  "short_name_exists fs dir short_name = walk_short (\<lambda>e. take 11 e = short_name) fs dir (new_buf (csize fs) fs)"

text \<open>
  The entries that an empty directory may have. The comment of the source has only \<open>.\<close> and \<open>..\<close>; its test, as here, accepts every
  name whose first byte is a dot and whose second is a dot or a space.
\<close>

definition dot_entry :: "u8 list \<Rightarrow> bool" where
  "dot_entry e \<longleftrightarrow> e ! 0 = 46 \<and> (e ! 1 = 32 \<or> e ! 1 = 46)"

definition is_directory_empty :: "fat32_fs \<Rightarrow> u32 \<Rightarrow> bool option" where
  "is_directory_empty fs dir = map_option Not (walk_short (\<lambda>e. \<not> dot_entry e) fs dir (new_buf (csize fs) fs))"

subsection \<open>Short names\<close>

text \<open>The characters that short names may not have, and the last dot of a name.\<close>

definition bad_chars :: "u8 list" where
  "bad_chars = [34, 42, 43, 44, 47, 58, 59, 60, 61, 62, 63, 91, 92, 93, 124]"

definition short_char :: "u8 list \<Rightarrow> u8 \<Rightarrow> u8" where
  "short_char bad c = (let c = (if 97 \<le> c \<and> c \<le> 122 then c - 32 else c) in if c < 0x20 \<or> c \<in> set bad then 95 else c)"

fun last_dot :: "u8 list \<Rightarrow> nat \<Rightarrow> nat option \<Rightarrow> nat option" where
  "last_dot [] i dot = dot"
| "last_dot (c # cs) i dot = last_dot cs (i + 1) (if c = 46 then Some i else dot)"

text \<open>The decimal digits of \<open>suffix\<close>, the last one first.\<close>

function suffix_str :: "nat \<Rightarrow> u8 list" where
  "suffix_str temp = (if temp > 0 then (48 + word_of_nat (temp mod 10)) # suffix_str (temp div 10) else [])"
  by auto
termination by (relation "measure id") auto

declare suffix_str.simps [simp del]

definition generate_short_name :: "u8 list \<Rightarrow> nat \<Rightarrow> u8 list" where
  "generate_short_name long_name suffix =
     (let dot = last_dot long_name 0 None;
          base_len = (case dot of Some d \<Rightarrow> d | None \<Rightarrow> length long_name);
          max_base = (if suffix > 0 then 6 else 8);
          base = take max_base (map (short_char bad_chars) (filter (\<lambda>c. c \<noteq> 32 \<and> c \<noteq> 46) (take base_len long_name)));
          j = length base;
          s = splice 0 base (replicate 11 32);
          s = (if suffix > 0
               then let digits = suffix_str suffix;
                        j = (if j > 8 - length digits - 1 then 8 - length digits - 1 else j)
                    in splice j (126 # rev digits) s
               else s)
      in case dot of
           None \<Rightarrow> s
         | Some d \<Rightarrow> splice 8 (take 3 (map (short_char (bad_chars @ [46])) (drop (d + 1) long_name))) s)"

partial_function (option) unique_loop :: "fat32_fs \<Rightarrow> u32 \<Rightarrow> u8 list \<Rightarrow> nat \<Rightarrow> u8 list \<Rightarrow> u8 list option" where
  "unique_loop fs dir long_name i short_name =
     (if i < 999999
      then let short_name = generate_short_name long_name i
           in case short_name_exists fs dir short_name of
                None \<Rightarrow> None
              | Some used \<Rightarrow> if used then unique_loop fs dir long_name (i + 1) short_name else Some short_name
      else Some short_name)"

definition generate_unique_short_name :: "fat32_fs \<Rightarrow> u32 \<Rightarrow> u8 list \<Rightarrow> u8 list option" where
  "generate_unique_short_name fs dir long_name =
     (let short_name = generate_short_name long_name 0
      in case short_name_exists fs dir short_name of
           None \<Rightarrow> None
         | Some used \<Rightarrow> if used then unique_loop fs dir long_name 1 short_name else Some short_name)"

subsection \<open>New entries\<close>

definition lfn_entries_needed :: "u8 list \<Rightarrow> nat" where
  "lfn_entries_needed name = (length name + 12) div 13"

definition needs_lfn :: "u8 list \<Rightarrow> bool" where
  "needs_lfn name \<longleftrightarrow>
     length name > 12 \<or>
     (let ext = dropWhile (\<lambda>c. c \<noteq> 46) name
      in if ext \<noteq> []
         then length name - length ext > 8 \<or> length ext - 1 > 3 \<or> 46 \<in> set (tl ext)
         else length name > 8) \<or>
     (\<exists>c \<in> set name. 97 \<le> c \<and> c \<le> 122 \<or> c = 32)"

definition lfn_char :: "u8 list \<Rightarrow> nat \<Rightarrow> u16" where
  "lfn_char name pos = (if pos < length name then ucast (name ! pos) else if pos = length name then 0 else 0xFFFF)"

definition fill_lfn_entry :: "u8 list \<Rightarrow> nat \<Rightarrow> bool \<Rightarrow> u8 \<Rightarrow> u8 list" where
  "fill_lfn_entry name order is_last checksum =
     (let start = (order - 1) * 13;
          chars = (\<lambda>from n. concat (map (\<lambda>i. le16 (lfn_char name (start + from + i))) [0..<n]))
      in [word_of_nat order OR (if is_last then 0x40 else 0)] @ chars 0 5 @ [FAT_ATTR_LFN, 0, checksum] @ chars 5 6 @ [0, 0] @ chars 11 2)"

fun free_run :: "nat \<Rightarrow> u32 \<Rightarrow> nat \<Rightarrow> u8 list list \<Rightarrow> u32 \<times> u32 \<times> nat \<Rightarrow> u32 \<times> u32 + u32 \<times> u32 \<times> nat" where
  "free_run count c i [] st = Inr st"
| "free_run count c i (e # es) (sc, so, n) =
     (if e ! 0 = 0 \<or> e ! 0 = 0xE5
      then let (sc, so) = (if n = 0 then (c, word_of_nat (i * 32)) else (sc, so))
           in if n + 1 \<ge> count then Inl (sc, so) else free_run count c (i + 1) es (sc, so, n + 1)
      else free_run count c (i + 1) es (sc, so, 0))"

partial_function (option) free_entries_loop :: "nat \<Rightarrow> u32 \<Rightarrow> u32 \<times> u32 \<times> nat \<Rightarrow> u8 list \<Rightarrow> fat32_fs \<Rightarrow> ((u32 \<times> u32) option \<times> fat32_fs) option" where
  "free_entries_loop count c st buf fs =
     (if c < FAT_EOC
      then let buf = read_cluster fs c buf
           in case free_run count c 0 (entries (epc fs) buf) st of
                Inl r \<Rightarrow> Some (Some r, fs)
              | Inr st \<Rightarrow>
                  let nxt = get_next_cluster fs c
                  in if nxt \<ge> FAT_EOC
                     then case allocate_cluster c fs of
                            (nxt, fs) \<Rightarrow> if nxt = 0 then Some (None, fs) else free_entries_loop count nxt st buf fs
                     else free_entries_loop count nxt st buf fs
      else Some (None, fs))"

definition find_free_dir_entries :: "u32 \<Rightarrow> nat \<Rightarrow> fat32_fs \<Rightarrow> ((u32 \<times> u32) option \<times> fat32_fs) option" where
  "find_free_dir_entries dir count fs = free_entries_loop count dir (0, 0, 0) (new_buf (csize fs) fs) fs"

text \<open>\<open>es\<close> are the entries that are still to be written.\<close>

partial_function (option) write_entries_loop :: "u32 \<Rightarrow> nat \<Rightarrow> u8 list list \<Rightarrow> u8 list \<Rightarrow> fat32_fs \<Rightarrow> (bool \<times> fat32_fs) option" where
  "write_entries_loop c idx es buf fs =
     (if es \<noteq> [] \<and> c < FAT_EOC
      then let buf = read_cluster fs c buf;
               k = min (epc fs - idx) (length es);
               buf = splice (32 * idx) (concat (take k es)) buf;
               fs = write_cluster c buf fs;
               es = drop k es
           in if es \<noteq> [] then write_entries_loop (get_next_cluster fs c) 0 es buf fs else Some (True, fs)
      else Some (es = [], fs))"

definition write_dir_entries :: "u32 \<Rightarrow> u32 \<Rightarrow> u8 list list \<Rightarrow> fat32_fs \<Rightarrow> (bool \<times> fat32_fs) option" where
  "write_dir_entries c off es fs = write_entries_loop c (unat off div 32) es (new_buf (csize fs) fs) fs"

definition short_entry :: "u8 list \<Rightarrow> u8 \<Rightarrow> u32 \<Rightarrow> u16 \<Rightarrow> u16 \<Rightarrow> u8 list" where
  "short_entry short_name attr new_cluster date time =
     short_name @ [attr, 0, 0] @ le16 time @ le16 date @ le16 date @ le16 (ucast (drop_bit 16 new_cluster AND 0xFFFF)) @
     le16 time @ le16 date @ le16 (ucast (new_cluster AND 0xFFFF)) @ le32 0"

definition new_entries :: "u8 list \<Rightarrow> u8 list \<Rightarrow> nat \<Rightarrow> u8 \<Rightarrow> u32 \<Rightarrow> u16 \<Rightarrow> u16 \<Rightarrow> u8 list list" where
  "new_entries name short_name lfn_count attr new_cluster date time =
     map (\<lambda>i. fill_lfn_entry name (lfn_count - i) (i = 0) (lfn_checksum short_name)) [0..<lfn_count] @
     [short_entry short_name attr new_cluster date time]"

text \<open>The first cluster of a new directory.\<close>

definition dots_entry :: "u8 list \<Rightarrow> u32 \<Rightarrow> u8 list" where
  "dots_entry name c = short_entry (name @ replicate (11 - length name) 32) FAT_ATTR_DIRECTORY c 0 0"

definition dir_cluster :: "fat32_fs \<Rightarrow> u32 \<Rightarrow> u32 \<Rightarrow> u8 list" where
  "dir_cluster fs new_cluster parent =
     splice 32 (dots_entry [46, 46] (if parent = root_cluster fs then 0 else parent))
       (splice 0 (dots_entry [46] new_cluster) (replicate (csize fs) 0))"

definition create_node :: "u8 list \<Rightarrow> u8 \<Rightarrow> u32 \<Rightarrow> u32 \<Rightarrow> u32 \<Rightarrow> u32 \<Rightarrow> u64 option \<Rightarrow> fnode" where
  "create_node name attr new_cluster dir ec eo now_unix =
     \<lparr>fn_name = take 63 name, fn_flags = (if attr AND FAT_ATTR_DIRECTORY \<noteq> 0 then FS_DIRECTORY else FS_FILE) OR FS_TEMPORARY, fn_size = 0,
      fn_id = ucast new_cluster, fn_blocks = 0, fn_ctime = now_unix, fn_mtime = now_unix, fn_atime = now_unix,
      fn_mode = 0, fn_uid = 0, fn_gid = 0, fn_nlink = 0, fn_blksize = 0, fn_dev = 0, fn_ref_count = 1,
      fn_file = \<lparr>first_cluster = new_cluster, parent_cluster = dir, dir_entry_cluster = ec, dir_entry_offset = eo\<rparr>\<rparr>"

text \<open>The last part of \<open>fat32_create_entry\<close>: the contents of a new directory and the inode.\<close>

definition create_finish :: "u64 \<Rightarrow> u8 list \<Rightarrow> u8 \<Rightarrow> u32 \<Rightarrow> u32 \<Rightarrow> u32 \<Rightarrow> u32 \<Rightarrow> fat32_fs \<Rightarrow> fnode option \<times> fat32_fs" where
  "create_finish now name attr new_cluster dir ec eo fs =
     (let isdir = attr AND FAT_ATTR_DIRECTORY \<noteq> 0;
          (date, time) = get_fat_now now;
          (fails, fs) = (if isdir then kmalloc_fails fs else (False, fs))
      in if fails then (None, fs)
         else let fs = (if isdir then write_cluster new_cluster (dir_cluster fs new_cluster dir) fs else fs);
                  (fails, fs) = kmalloc_fails fs
              in if fails then (None, fs)
                 else let (fails, fs) = kmalloc_fails fs
                      in if fails then (None, fs)
                         else (Some (create_node name attr new_cluster dir ec eo (fat_to_unix date time)), fs))"

definition fat32_create_entry :: "u64 \<Rightarrow> fnode \<Rightarrow> u8 list \<Rightarrow> u8 \<Rightarrow> fat32_fs \<Rightarrow> (fnode option \<times> fat32_fs) option" where
  "fat32_create_entry now parent name attr fs =
     (let dir = first_cluster (fn_file parent)
      in case generate_unique_short_name fs dir name of
           None \<Rightarrow> None
         | Some short_name \<Rightarrow>
             let lfn_count = (if needs_lfn name then lfn_entries_needed name else 0)
             in (case find_free_dir_entries dir (lfn_count + 1) fs of
                  None \<Rightarrow> None
                | Some (None, fs) \<Rightarrow> Some (None, fs)
                | Some (Some (ec, eo), fs) \<Rightarrow>
                    let (new_cluster, fs) = (if attr AND FAT_ATTR_DIRECTORY \<noteq> 0 then allocate_cluster 0 fs else (0, fs))
                    in if attr AND FAT_ATTR_DIRECTORY \<noteq> 0 \<and> new_cluster = 0 then Some (None, fs)
                       else let (date, time) = get_fat_now now
                            in (case write_dir_entries ec eo (new_entries name short_name lfn_count attr new_cluster date time) fs of
                                 None \<Rightarrow> None
                               | Some (written, fs) \<Rightarrow>
                                   if \<not> written then Some (None, fs)
                                   else Some (create_finish now name attr new_cluster dir ec (eo + word_of_nat (lfn_count * 32)) fs))))"

definition fat32_create :: "u64 \<Rightarrow> fnode \<Rightarrow> u8 list \<Rightarrow> fat32_fs \<Rightarrow> (fnode option \<times> fat32_fs) option" where
  "fat32_create now parent name fs = fat32_create_entry now parent name FAT_ATTR_ARCHIVE fs"

definition fat32_mkdir :: "u64 \<Rightarrow> fnode \<Rightarrow> u8 list \<Rightarrow> fat32_fs \<Rightarrow> (fnode option \<times> fat32_fs) option" where
  "fat32_mkdir now parent name fs = fat32_create_entry now parent name FAT_ATTR_DIRECTORY fs"

definition fat32_mknod :: "u64 \<Rightarrow> fnode \<Rightarrow> u8 list \<Rightarrow> u32 \<Rightarrow> fat32_fs \<Rightarrow> (fnode option \<times> fat32_fs) option" where
  "fat32_mknod now parent name mode fs =
     (if mode AND S_IFMT = S_IFDIR then fat32_mkdir now parent name fs
      else if mode AND S_IFMT = S_IFREG then fat32_create now parent name fs
      else Some (None, fs))"

subsection \<open>Deletion\<close>

definition mark_deleted :: "nat list \<Rightarrow> u8 list \<Rightarrow> u8 list" where
  "mark_deleted js buf = foldl (\<lambda>b j. b[32 * j := 0xE5]) buf js"

text \<open>A matching entry, with its place and that of the first entry of its long name.\<close>

definition delete_visit :: "u8 list \<Rightarrow> u32 \<Rightarrow> nat \<Rightarrow> u8 list \<Rightarrow> lfn_state \<Rightarrow> unit \<Rightarrow> ((u32 \<times> nat \<times> u8 list \<times> u32 \<times> nat) + unit) option" where
  "delete_visit name c i e st a =
     (let n = entry_name e st;
          (sc, si) = (if has_long e st then (lfn_start_cluster st, lfn_start_idx st) else (c, i))
      in if length n \<ge> 255 then None
         else if same_name name n then Some (Inl (c, i, e, sc, si)) else Some (Inr ()))"

definition delete_dir_entries :: "u32 \<Rightarrow> u8 list \<Rightarrow> fat32_fs \<Rightarrow> (bool \<times> fat32_fs) option" where
  "delete_dir_entries dir name fs =
     (case walk_dir (delete_visit name) () dir fs of
        None \<Rightarrow> None
      | Some (None, buf) \<Rightarrow> Some (False, fs)
      | Some (Some (c, i, e, sc, si), buf) \<Rightarrow>
          let buf = mark_deleted [i] buf;
              (buf, fs) =
                (if sc = c then (mark_deleted [si..<i] buf, fs)
                 else (buf, write_cluster sc (mark_deleted [si..<epc fs] (read_cluster fs sc (new_buf (csize fs) fs))) fs));
              fs = write_cluster c buf fs
          in if entry_cluster e \<ge> 2
             then case free_cluster_chain (entry_cluster e) fs of None \<Rightarrow> None | Some fs \<Rightarrow> Some (True, fs)
             else Some (True, fs))"

definition fat32_unlink :: "fnode \<Rightarrow> u8 list \<Rightarrow> fat32_fs \<Rightarrow> (int \<times> fat32_fs) option" where
  "fat32_unlink parent name fs =
     (case fat32_lookup parent name fs of
        None \<Rightarrow> None
      | Some None \<Rightarrow> Some (-1, fs)
      | Some (Some target) \<Rightarrow>
          if fn_flags target AND FS_DIRECTORY \<noteq> 0 then Some (-1, fs)
          else map_option (\<lambda>(ok, fs). (if ok then 0 else -1, fs)) (delete_dir_entries (first_cluster (fn_file parent)) name fs))"

definition fat32_rmdir :: "fnode \<Rightarrow> u8 list \<Rightarrow> fat32_fs \<Rightarrow> (int \<times> fat32_fs) option" where
  "fat32_rmdir parent name fs =
     (case fat32_lookup parent name fs of
        None \<Rightarrow> None
      | Some None \<Rightarrow> Some (-1, fs)
      | Some (Some target) \<Rightarrow>
          if fn_flags target AND FS_DIRECTORY = 0 then Some (-1, fs)
          else (case is_directory_empty fs (first_cluster (fn_file target)) of
                 None \<Rightarrow> None
               | Some none \<Rightarrow>
                   if \<not> none then Some (-1, fs)
                   else map_option (\<lambda>(ok, fs). (if ok then 0 else -1, fs)) (delete_dir_entries (first_cluster (fn_file parent)) name fs)))"

subsection \<open>Mounting\<close>

text \<open>The argument holds the device and the environment; its fields on the layout are not read.\<close>

definition mount_layout :: "u32 \<Rightarrow> u8 list \<Rightarrow> fat32_fs \<Rightarrow> fat32_fs" where
  "mount_layout partition_offset buf fs =
     (let reserved = ucast (load16 buf 14);
          num_fats = ucast (buf ! 16);
          fat_size = (if load32 buf 36 = 0 then ucast (load16 buf 22) else load32 buf 36);
          total_sectors = (if load32 buf 32 \<noteq> 0 then load32 buf 32 else ucast (load16 buf 19));
          data_sectors = total_sectors - (reserved + num_fats * fat_size)
      in fs\<lparr>sectors_per_cluster := buf ! 13, bytes_per_cluster := ucast (buf ! 13) * 512, root_cluster := load32 buf 44,
           fat_begin_lba := partition_offset + reserved, cluster_begin_lba := partition_offset + reserved + num_fats * fat_size,
           total_clusters := data_sectors div ucast (buf ! 13)\<rparr>)"

definition root_node :: "fat32_fs \<Rightarrow> fnode" where
  "root_node fs =
     \<lparr>fn_name = [47], fn_flags = FS_DIRECTORY, fn_size = 0, fn_id = 0, fn_blocks = 0, fn_ctime = Some 0, fn_mtime = Some 0, fn_atime = Some 0,
      fn_mode = S_IFDIR OR 0x1ED, fn_uid = 0, fn_gid = 0, fn_nlink = 2, fn_blksize = bytes_per_cluster fs, fn_dev = device_id fs, fn_ref_count = 0,
      fn_file = \<lparr>first_cluster = root_cluster fs, parent_cluster = 0, dir_entry_cluster = 0, dir_entry_offset = 0\<rparr>\<rparr>"

definition fat32_mount :: "fat32_fs \<Rightarrow> fnode option \<times> fat32_fs" where
  "fat32_mount fs =
     (case kmalloc_fails fs of
        (fails, fs) \<Rightarrow>
          if fails \<or> denied fs then (None, fs)
          else let (n, buf) = virtio_blk_fs_read (device fs) 0 512 (new_buf 512 fs) (new_buf 512 fs)
               in if n \<noteq> 512 \<or> buf ! 510 \<noteq> 0x55 \<or> buf ! 511 \<noteq> 0xAA then (None, fs)
                  else let mbr = load16 buf 11 = 0;
                           part = load32 buf (0x1BE + 8)
                       in if mbr \<and> buf ! (0x1BE + 4) \<noteq> 0x0B \<and> buf ! (0x1BE + 4) \<noteq> 0x0C then (None, fs)
                          else let partition_offset = (if mbr then part else 0);
                                   buf = (if mbr then dev_read fs (ucast (part * 512)) 512 buf else buf)
                               in if load16 buf 11 \<noteq> 512 then (None, fs)
                                  else let fs = mount_layout partition_offset buf fs in (Some (root_node fs), fs))"


subsection \<open>What a directory means\<close>

text \<open>
  A directory is a sequence of slots, each with its place. The reference for the loops above is \<open>parse\<close>, which gives the
  list of the files in it with the names they have: up to the end mark, without deleted entries.
\<close>

type_synonym slot = "u32 \<times> nat \<times> u8 list"

record dirent =
  d_cluster :: u32
  d_idx :: nat
  d_entry :: "u8 list"
  d_name :: "u8 list"
  d_start :: "u32 \<times> nat"

definition slots_of :: "fat32_fs \<Rightarrow> u32 \<Rightarrow> slot list" where
  "slots_of fs c = map (\<lambda>i. (c, i, take 32 (drop (32 * i) (data fs c)))) [0..<epc fs]"

definition slots :: "fat32_fs \<Rightarrow> u32 list \<Rightarrow> slot list" where
  "slots fs xs = concat (map (slots_of fs) xs)"

definition dirent_of :: "u32 \<Rightarrow> nat \<Rightarrow> u8 list \<Rightarrow> lfn_state \<Rightarrow> dirent" where
  "dirent_of c i e st =
     \<lparr>d_cluster = c, d_idx = i, d_entry = e, d_name = entry_name e st,
      d_start = (if has_long e st then (lfn_start_cluster st, lfn_start_idx st) else (c, i))\<rparr>"

fun parse :: "lfn_state \<Rightarrow> slot list \<Rightarrow> dirent list option" where
  "parse st [] = Some []"
| "parse st ((c, i, e) # ss) =
     (if e ! 0 = 0 then Some []
      else if e ! 0 = 0xE5 then parse (st\<lparr>lfn_valid := False\<rparr>) ss
      else if e ! 11 = FAT_ATTR_LFN then case lfn_step c i e st of None \<Rightarrow> None | Some st \<Rightarrow> parse st ss
      else map_option (Cons (dirent_of c i e st)) (parse (st\<lparr>lfn_valid := False\<rparr>) ss))"

definition dir_entries :: "fat32_fs \<Rightarrow> u32 list \<Rightarrow> dirent list option" where
  "dir_entries fs xs = parse (lfn_init fs) (slots fs xs)"

fun visits :: "(dirent \<Rightarrow> 'a \<Rightarrow> ('r + 'a) option) \<Rightarrow> dirent list \<Rightarrow> 'a \<Rightarrow> 'r option option" where
  "visits v [] a = Some None"
| "visits v (d # ds) a = (case v d a of None \<Rightarrow> None | Some (Inl r) \<Rightarrow> Some (Some r) | Some (Inr a) \<Rightarrow> visits v ds a)"

lemma slots_simps [simp]: "slots fs [] = []" "slots fs (x # xs) = slots_of fs x @ slots fs xs" "slots fs (xs @ ys) = slots fs xs @ slots fs ys"
  by (simp_all add: slots_def)

lemma slots_cong: "(\<And>x. x \<in> set xs \<Longrightarrow> data fs' x = data fs x) \<Longrightarrow> bytes_per_cluster fs' = bytes_per_cluster fs \<Longrightarrow> slots fs' xs = slots fs xs"
  by (induction xs) (simp_all add: slots_of_def)

text \<open>Walking the entries of one cluster, and what is left to parse after it.\<close>

lemma scan_entries_parse:
  assumes v: "\<And>c i e st a. visit c i e st a = v (dirent_of c i e st) a"
  shows "parse st (map (\<lambda>k. (c, k, f k)) [i..<n] @ ss) = Some l \<Longrightarrow>
    (\<exists>r. scan_entries visit c i (map f [i..<n]) st a = map_option Inl r \<and> visits v l a = r) \<or>
    (\<exists>st' a' l'. scan_entries visit c i (map f [i..<n]) st a = Some (Inr (st', a')) \<and> parse st' ss = Some l' \<and> visits v l a = visits v l' a')"
proof (induction "n - i" arbitrary: i st a l)
  case (Suc m)
  have u: "[i..<n] = i # [Suc i..<n]" using Suc.hyps(2) by (simp add: upt_conv_Cons)
  have m: "m = n - Suc i" using Suc.hyps(2) by simp
  note p = Suc.prems [unfolded u, simplified]
  consider (fin) "f i ! 0 = 0" | (del) "f i ! 0 = 0xE5" | (lfn) "f i ! 0 \<noteq> 0" "f i ! 0 \<noteq> 0xE5" "f i ! 11 = FAT_ATTR_LFN"
    | (short) "f i ! 0 \<noteq> 0" "f i ! 0 \<noteq> 0xE5" "f i ! 11 \<noteq> FAT_ATTR_LFN" by blast
  then show ?case
  proof cases
    case fin
    then show ?thesis using p by (intro disjI1 exI [of _ "Some None"]) (simp add: u)
  next
    case del
    then show ?thesis using Suc.hyps(1) [OF m, of "st\<lparr>lfn_valid := False\<rparr>" l a] p by (simp add: u)
  next
    case lfn
    then obtain st1 where "lfn_step c i (f i) st = Some st1" using p by (auto split: option.splits)
    then show ?thesis using Suc.hyps(1) [OF m, of st1 l a] p lfn by (simp add: u)
  next
    case short
    then obtain l1 where l1: "parse (st\<lparr>lfn_valid := False\<rparr>) (map (\<lambda>k. (c, k, f k)) [Suc i..<n] @ ss) = Some l1" "l = dirent_of c i (f i) st # l1"
      using p by auto
    show ?thesis
    proof (cases "v (dirent_of c i (f i) st) a")
      case None
      then show ?thesis using short l1 by (intro disjI1 exI [of _ None]) (simp add: u v)
    next
      case (Some q)
      show ?thesis
      proof (cases q)
        case (Inl r)
        then show ?thesis using short l1 Some by (intro disjI1 exI [of _ "Some (Some r)"]) (simp add: u v)
      next
        case (Inr a1)
        then show ?thesis using Suc.hyps(1) [OF m l1(1), of a1] short l1(2) Some by (simp add: u v)
      qed
    qed
  qed
qed simp

lemma entries_eq: "entries n buf = map (\<lambda>i. take 32 (drop (32 * i) buf)) [0..<n]"
  by (simp add: entries_def)

lemma scan_dir_parse:
  assumes g: "geom fs" and v: "\<And>c i e st a. visit c i e st a = v (dirent_of c i e st) a"
  shows "linked (get_next_cluster fs) c xs \<Longrightarrow> \<forall>x \<in> set xs. valid fs x \<Longrightarrow> parse st (slots fs xs) = Some l \<Longrightarrow> length buf = csize fs \<Longrightarrow>
    map_option fst (scan_dir visit fs c st a buf) = visits v l a"
proof (induction xs arbitrary: c st l a buf)
  case (Cons x xs)
  have x: "c = x" "valid fs x" using Cons.prems(1,2) linked_head by fastforce+
  have lt: "c < FAT_EOC" using cst.good_number [OF g x(2)] x by simp
  have rc: "read_cluster fs c buf = data fs x" using read_cluster_eq [OF g x(2) Cons.prems(4)] x by simp
  have step: "scan_dir visit fs c st a buf = (case scan_entries visit c 0 (entries (epc fs) (data fs x)) st a of
      None \<Rightarrow> None | Some (Inl r) \<Rightarrow> Some (r, data fs x) | Some (Inr (st, a)) \<Rightarrow> scan_dir visit fs (get_next_cluster fs c) st a (data fs x))"
    using lt by (subst scan_dir.simps) (simp add: rc Let_def)
  from Cons.prems(3) have "parse st (map (\<lambda>i. (c, i, take 32 (drop (32 * i) (data fs x)))) [0..<epc fs] @ slots fs xs) = Some l"
    by (simp add: slots_of_def x)
  from scan_entries_parse [of visit v, OF v this, of a] show ?case
  proof (elim disjE exE conjE)
    fix r assume "scan_entries visit c 0 (map (\<lambda>i. take 32 (drop (32 * i) (data fs x))) [0..<epc fs]) st a = map_option Inl r" "visits v l a = r"
    then show ?thesis by (cases r) (simp_all add: step entries_eq)
  next
    fix st' a' l' assume S: "scan_entries visit c 0 (map (\<lambda>i. take 32 (drop (32 * i) (data fs x))) [0..<epc fs]) st a = Some (Inr (st', a'))"
      "parse st' (slots fs xs) = Some l'" "visits v l a = visits v l' a'"
    then have e: "scan_dir visit fs c st a buf = scan_dir visit fs (get_next_cluster fs c) st' a' (data fs x)" by (simp add: step entries_eq)
    show ?thesis
    proof (cases xs)
      case Nil
      then have "\<not> get_next_cluster fs c < FAT_EOC" using Cons.prems(1) x by (simp add: not_less)
      then show ?thesis using S Nil unfolding e by (subst scan_dir.simps) simp
    next
      case (Cons y ys)
      then have "linked (get_next_cluster fs) (get_next_cluster fs c) xs" using Cons.prems(1) x by simp
      then show ?thesis using Cons.IH [OF _ _ S(2)] Cons.prems(2) S(3) by (simp add: e)
    qed
  qed
qed simp

lemma walk_dir_parse:
  assumes "geom fs" "fchain fs c xs" "dir_entries fs xs = Some l" and v: "\<And>c i e st a. visit c i e st a = v (dirent_of c i e st) a"
  shows "map_option fst (walk_dir visit a c fs) = visits v l a"
  unfolding walk_dir_def
  by (rule scan_dir_parse [of fs visit v c xs, OF assms(1) v]) (use assms in \<open>auto simp: chain_def dir_entries_def new_buf_def\<close>)

definition names_end :: "dirent list \<Rightarrow> bool" where
  "names_end l \<longleftrightarrow> (\<forall>d \<in> set l. length (d_name d) < 255)"

definition node_of :: "fat32_fs \<Rightarrow> u32 \<Rightarrow> dirent \<Rightarrow> fnode" where
  "node_of fs dir d = lookup_node fs dir (d_cluster d) (d_idx d) (d_name d) (d_entry d)"

lemma lookup_ok:
  assumes g: "geom fs" and ch: "fchain fs dir xs" and l: "dir_entries fs xs = Some l" "names_end l" and d: "dir = first_cluster (fn_file node)"
  shows "fat32_lookup node name fs = Some (map_option (node_of fs dir) (find (\<lambda>d. same_name name (d_name d)) l))"
proof -
  let ?v = "\<lambda>d a. if length (d_name d) \<ge> 255 then None else if same_name name (d_name d) then Some (Inl (node_of fs dir d)) else Some (Inr ())"
  have "map_option fst (walk_dir (lookup_visit fs dir name) () dir fs) = visits ?v l ()"
    by (rule walk_dir_parse [OF g ch l(1)]) (simp add: lookup_visit_def dirent_of_def node_of_def Let_def)
  moreover have "visits ?v l () = Some (map_option (node_of fs dir) (find (\<lambda>d. same_name name (d_name d)) l))"
    using l(2) by (induction l) (auto simp: names_end_def)
  ultimately show ?thesis by (simp add: fat32_lookup_def d Let_def)
qed

lemma visits_index:
  assumes b: "0 < buflen" "buflen \<le> 256"
  shows "visits (\<lambda>d a. if int a = index then if 0 < buflen \<and> buflen \<le> 256 then Some (Inl (take (buflen - 1) (d_name d), h d)) else None else Some (Inr (a + 1))) l k =
    Some (if int k \<le> index \<and> index < int k + int (length l)
          then Some (take (buflen - 1) (d_name (l ! (nat index - k))), h (l ! (nat index - k))) else None)"
proof (induction l arbitrary: k)
  case (Cons d l)
  show ?case
  proof (cases "int k = index")
    case False
    then show ?thesis
    proof (cases "int k < index \<and> index < int k + int (length (d # l))")
      case True
      then have "nat index - k = Suc (nat index - (k + 1))" by linarith
      then show ?thesis using False True Cons.IH [of "k + 1"] by simp
    next
      case no: False
      then show ?thesis using False Cons.IH [of "k + 1"] by auto
    qed
  qed (use b in auto)
qed simp

lemma readdir_ok:
  assumes g: "geom fs" and ch: "fchain fs dir xs" and l: "dir_entries fs xs = Some l" and d: "dir = first_cluster (fn_file node)"
    and b: "0 < buflen" "buflen \<le> 256"
  shows "fat32_readdir node index buflen fs =
    Some (if 0 \<le> index \<and> index < int (length l)
          then let d = l ! nat index in Some (take (buflen - 1) (d_name d), d_entry d ! 11 AND FAT_ATTR_DIRECTORY \<noteq> 0) else None)"
proof -
  let ?v = "\<lambda>d a. if int a = index then if 0 < buflen \<and> buflen \<le> 256 then Some (Inl (take (buflen - 1) (d_name d), d_entry d ! 11 AND FAT_ATTR_DIRECTORY \<noteq> 0)) else None
    else Some (Inr (a + 1))"
  have w: "map_option fst (walk_dir (readdir_visit index buflen) 0 dir fs) = visits ?v l 0"
    by (rule walk_dir_parse [OF g ch l]) (simp add: readdir_visit_def dirent_of_def)
  show ?thesis unfolding fat32_readdir_def d [symmetric] w visits_index [OF b, of index "\<lambda>d. d_entry d ! 11 AND FAT_ATTR_DIRECTORY \<noteq> 0" l 0] Let_def
    by simp
qed

text \<open>The loops over short entries find what the walk over the whole directory finds.\<close>

abbreviation seek :: "(u8 list \<Rightarrow> bool) \<Rightarrow> u32 \<Rightarrow> nat \<Rightarrow> u8 list \<Rightarrow> lfn_state \<Rightarrow> unit \<Rightarrow> (unit + unit) option" where
  "seek P \<equiv> \<lambda>c i e st a. Some (if P e then Inl () else Inr ())"

lemma scan_short_seek:
  "scan_entries (seek P) c i es st () = Some q \<Longrightarrow> scan_short P es = (case q of Inl r \<Rightarrow> Some (r \<noteq> None) | Inr _ \<Rightarrow> None)"
  by (induction es arbitrary: i st) (auto split: if_splits option.splits)

lemma walk_short_seek:
  assumes "scan_dir v fs c st a buf = Some q"
  shows "v = seek P \<longrightarrow> walk_short P fs c buf = Some (fst q \<noteq> None)"
proof (rule scan_dir.raw_induct [OF _ assms], intro impI, goal_cases)
  case (1 s v fs c st a buf q)
  show ?case
  proof (cases "c < FAT_EOC")
    case True
    let ?b = "read_cluster fs c buf"
    obtain r where r: "scan_entries v c 0 (entries (epc fs) ?b) st a = Some r" using 1(2) True by (auto simp: Let_def split: option.splits)
    then have sh: "scan_short P (entries (epc fs) ?b) = (case r of Inl r \<Rightarrow> Some (r \<noteq> None) | Inr _ \<Rightarrow> None)"
      using scan_short_seek [of P c 0 "entries (epc fs) ?b" st r] 1(3) by simp
    show ?thesis
    proof (cases r)
      case (Inl x)
      then show ?thesis using 1(2) True r sh by (subst walk_short.simps) (auto simp: Let_def)
    next
      case (Inr x)
      then have "s v fs (get_next_cluster fs c) (fst x) (snd x) ?b = Some q" using 1(2) True r by (auto simp: Let_def split: prod.splits)
      then have "walk_short P fs (get_next_cluster fs c) ?b = Some (fst q \<noteq> None)" using 1(1,3) by blast
      then show ?thesis using True r sh Inr by (subst walk_short.simps) (auto simp: Let_def)
    qed
  next
    case False
    then show ?thesis using 1(2) by (subst walk_short.simps) auto
  qed
qed

lemma walk_short_ok:
  assumes "geom fs" "fchain fs c xs" "dir_entries fs xs = Some l"
  shows "walk_short P fs c (new_buf (csize fs) fs) = Some (\<exists>d \<in> set l. P (d_entry d))"
proof -
  have "map_option fst (walk_dir (seek P) () c fs) = visits (\<lambda>d a. Some (if P (d_entry d) then Inl () else Inr ())) l ()"
    by (rule walk_dir_parse [OF assms]) (simp add: dirent_of_def)
  also have "visits (\<lambda>d a. Some (if P (d_entry d) then Inl () else Inr ())) l () = Some (if \<exists>d \<in> set l. P (d_entry d) then Some () else None)"
    by (induction l) auto
  finally obtain q where "walk_dir (seek P) () c fs = Some q" "fst q = (if \<exists>d \<in> set l. P (d_entry d) then Some () else None)" by auto
  then show ?thesis using walk_short_seek [of "seek P" fs c "lfn_init fs" "()" "new_buf (csize fs) fs" q P] by (simp add: walk_dir_def)
qed

lemma unique_ok:
  assumes "geom fs" "fchain fs dir xs" "dir_entries fs xs = Some l"
  shows "\<exists>k. generate_unique_short_name fs dir name = Some (generate_short_name name k) \<and> k < 999999"
proof -
  have ex: "short_name_exists fs dir s = Some (\<exists>d \<in> set l. take 11 (d_entry d) = s)" for s
    unfolding short_name_exists_def by (rule walk_short_ok [OF assms])
  have "\<exists>k. unique_loop fs dir name i (generate_short_name name j) = Some (generate_short_name name k) \<and> k < 999999" if "j < 999999" for i j
    using that
  proof (induction "999999 - i" arbitrary: i j)
    case 0
    then show ?case by (subst unique_loop.simps) auto
  next
    case (Suc m)
    then have i: "i < 999999" "m = 999999 - (i + 1)" by linarith+
    show ?case
    proof (cases "\<exists>d \<in> set l. take 11 (d_entry d) = generate_short_name name i")
      case True
      then show ?thesis using Suc.hyps(1) [OF i(2), of i] i(1) ex by (subst unique_loop.simps) simp
    next
      case False
      then show ?thesis using i(1) ex by (subst unique_loop.simps) auto
    qed
  qed
  from this [of 0 1] show ?thesis using ex [of "generate_short_name name 0"]
    by (auto simp: generate_unique_short_name_def Let_def)
qed

subsection \<open>Long names are read back\<close>

lemma upts: "[0..<2] = [0, 1]" "[0..<5] = [0, 1, 2, 3, 4]" "[0..<6] = [0, 1, 2, 3, 4, 5]"
  "[0..<13] = [0, 1, 2, 3, 4, 5, 6, 7, 8, 9, 10, 11, 12]"
  by (simp_all add: upt_rec)

lemma lfn_chars_fill: "lfn_chars (fill_lfn_entry name order is_last chk) = map (\<lambda>i. lfn_char name ((order - 1) * 13 + i)) [0..<13]"
  by (simp add: lfn_chars_def fill_lfn_entry_def upts le16_def load16_def bits_le16 Let_def add.commute)

lemma fill_fields:
  "length (fill_lfn_entry name order is_last chk) = 32" "fill_lfn_entry name order is_last chk ! 11 = FAT_ATTR_LFN"
  "fill_lfn_entry name order is_last chk ! 13 = chk" "fill_lfn_entry name order is_last chk ! 0 = word_of_nat order OR (if is_last then 0x40 else 0)"
  by (simp_all add: fill_lfn_entry_def upts le16_def Let_def)

lemma order_bits:
  assumes "0 < n" "n \<le> 20"
  shows "word_of_nat n OR 0x40 \<noteq> (0 :: u8)" "word_of_nat n OR 0x40 \<noteq> (0xE5 :: u8)" "(word_of_nat n OR 0x40) AND 0x40 \<noteq> (0 :: u8)"
    "uint ((word_of_nat n OR 0x40) AND 0x3F :: u8) = int n" "word_of_nat n \<noteq> (0 :: u8)" "word_of_nat n \<noteq> (0xE5 :: u8)"
    "word_of_nat n AND 0x40 = (0 :: u8)" "uint (word_of_nat n AND 0x3F :: u8) = int n"
proof -
  let ?P = "\<lambda>n. word_of_nat n OR 0x40 \<noteq> (0 :: u8) \<and> word_of_nat n OR 0x40 \<noteq> (0xE5 :: u8) \<and> (word_of_nat n OR 0x40) AND 0x40 \<noteq> (0 :: u8) \<and>
    uint ((word_of_nat n OR 0x40) AND 0x3F :: u8) = int n \<and> word_of_nat n \<noteq> (0 :: u8) \<and> word_of_nat n \<noteq> (0xE5 :: u8) \<and>
    word_of_nat n AND 0x40 = (0 :: u8) \<and> uint (word_of_nat n AND 0x3F :: u8) = int n"
  have "list_all ?P [1..<21]" by code_simp
  then have "?P n" using assms by (simp add: list_all_iff)
  then show "word_of_nat n OR 0x40 \<noteq> (0 :: u8)" "word_of_nat n OR 0x40 \<noteq> (0xE5 :: u8)" "(word_of_nat n OR 0x40) AND 0x40 \<noteq> (0 :: u8)"
    "uint ((word_of_nat n OR 0x40) AND 0x3F :: u8) = int n" "word_of_nat n \<noteq> (0 :: u8)" "word_of_nat n \<noteq> (0xE5 :: u8)"
    "word_of_nat n AND 0x40 = (0 :: u8)" "uint (word_of_nat n AND 0x3F :: u8) = int n" by blast+
qed

lemma char_cast: "ucast ((ucast (b :: u8) :: u16) AND 0xFF) = b" "ucast (b :: u8) \<noteq> (0xFFFF :: u16)" "ucast (b :: u8) = (0 :: u16) \<longleftrightarrow> b = 0"
proof -
  have m: "(0xFF :: u16) = mask 8" by (simp add: mask_eq_exp_minus_1)
  show "ucast ((ucast b :: u16) AND 0xFF) = b" unfolding m by (intro bit_word_eqI) (simp add: bit_simps)
  have l: "unat (ucast b :: u16) = unat b" using unat_lt2p [of b] by (intro unat_ucast_small) simp
  have "unat b < 256" using unat_lt2p [of b] by simp
  then have "unat (ucast b :: u16) \<noteq> unat (0xFFFF :: u16)" unfolding l by simp
  then show "ucast b \<noteq> (0xFFFF :: u16)" by metis
  show "ucast b = (0 :: u16) \<longleftrightarrow> b = 0" using l by (metis unat_eq_zero)
qed

lemma splice_Cons: "p < length buf \<Longrightarrow> splice (Suc p) xs (buf[p := x]) = splice p (x # xs) buf"
  by (simp add: splice_def take_Suc_update)

lemma lfn_store_name:
  assumes "0 \<notin> set name" "length name \<le> length buf" "p \<le> length name"
  shows "lfn_store (map (\<lambda>i. lfn_char name (p + i)) [0..<n]) (int p) buf = Some (splice p (take n (drop p name)) buf)"
  using assms
proof (induction n arbitrary: p buf)
  case (Suc n)
  have u: "map (\<lambda>i. lfn_char name (p + i)) [0..<Suc n] = lfn_char name p # map (\<lambda>i. lfn_char name (Suc p + i)) [0..<n]"
    by (simp add: upt_conv_Cons map_Suc_upt [symmetric] del: upt_Suc)
  show ?case
  proof (cases "p < length name")
    case True
    then have nz: "name ! p \<noteq> 0" using Suc.prems(1) nth_mem by metis
    have d: "drop p name = name ! p # drop (Suc p) name" using True by (simp add: Cons_nth_drop_Suc)
    have "lfn_store (map (\<lambda>i. lfn_char name (p + i)) [0..<Suc n]) (int p) buf =
        lfn_store (map (\<lambda>i. lfn_char name (Suc p + i)) [0..<n]) (int (Suc p)) (buf[p := name ! p])"
      unfolding u using True Suc.prems nz by (simp add: lfn_char_def char_cast add.commute)
    also have "\<dots> = Some (splice (Suc p) (take n (drop (Suc p) name)) (buf[p := name ! p]))" using Suc.IH [of "buf[p := name ! p]" "Suc p"] True Suc.prems by simp
    finally show ?thesis using d True Suc.prems by (simp add: splice_Cons)
  next
    case False
    then show ?thesis unfolding u using Suc.prems(3) by (simp add: lfn_char_def splice_def)
  qed
qed (simp add: splice_def)

text \<open>The state of the walk matters only while a long name is being collected.\<close>

lemma parse_invalid:
  assumes "\<not> lfn_valid st" "\<not> lfn_valid st'"
  shows "parse st ss = parse st' ss"
  using assms
proof (induction ss arbitrary: st st')
  case (Cons s ss)
  obtain c i e where s: "s = (c, i, e)" by (cases s)
  have d: "dirent_of c i e st = dirent_of c i e st'" using Cons.prems by (simp add: dirent_of_def entry_name_def has_long_def)
  have IH: "parse (st\<lparr>lfn_valid := False\<rparr>) ss = parse (st'\<lparr>lfn_valid := False\<rparr>) ss" "parse st ss = parse st' ss"
    by (rule Cons.IH; use Cons.prems in simp)+
  show ?case
  proof (cases "e ! 0 AND 0x40 \<noteq> 0")
    case True
    then have "lfn_step c i e st = lfn_step c i e st'" by (simp add: lfn_step_def)
    then show ?thesis using d IH by (simp add: s)
  next
    case False
    then have "lfn_step c i e st = Some st" "lfn_step c i e st' = Some st'" using Cons.prems by (simp_all add: lfn_step_def)
    then show ?thesis using d IH by (simp add: s)
  qed
qed simp

abbreviation zeros :: "u8 list" where
  "zeros \<equiv> replicate 256 0"

lemma splice_name_step:
  assumes "p + length xs \<le> length name" "length name \<le> length z" "take (length xs) (drop p name) = xs"
  shows "splice p xs (splice (p + length xs) (drop (p + length xs) name) z) = splice p (drop p name) z"
proof -
  have "drop p name = xs @ drop (p + length xs) name"
    using assms(3) by (metis append_take_drop_id add.commute drop_drop)
  then show ?thesis using assms(1,2) by (simp add: splice_def min_def)
qed

text \<open>One entry of a long name stores its 13 characters.\<close>

lemma lfn_step_fill:
  assumes n: "0 < m" "m \<le> 20" "(m - 1) * 13 \<le> length name" and name: "0 \<notin> set name" "length name \<le> 256"
    and e: "e = fill_lfn_entry name m is_last chk"
    and st: "is_last \<Longrightarrow> st' = \<lparr>lfn_buffer = zeros, lfn_checksum_expected = chk, lfn_valid = True, lfn_start_cluster = c, lfn_start_idx = i\<rparr>"
      "\<not> is_last \<Longrightarrow> st' = st \<and> lfn_valid st \<and> lfn_checksum_expected st = chk \<and> length (lfn_buffer st) = 256"
  shows "lfn_step c i e st = Some (st'\<lparr>lfn_buffer := splice ((m - 1) * 13) (take 13 (drop ((m - 1) * 13) name)) (lfn_buffer st')\<rparr>)"
    "e ! 0 \<noteq> 0" "e ! 0 \<noteq> 0xE5" "e ! 11 = FAT_ATTR_LFN"
proof -
  note O = order_bits [OF n(1,2)]
  have len: "length (lfn_buffer st') = 256" using st by (cases is_last) auto
  have pos: "(uint (e ! 0 AND 0x3F) - 1) * 13 = int ((m - 1) * 13)" using O n(1) by (cases is_last) (simp_all add: e fill_fields of_nat_diff)
  have x: "lfn_extract_chars e ((uint (e ! 0 AND 0x3F) - 1) * 13) (lfn_buffer st') =
      Some (splice ((m - 1) * 13) (take 13 (drop ((m - 1) * 13) name)) (lfn_buffer st'))"
    unfolding lfn_extract_chars_def pos unfolding e lfn_chars_fill by (rule lfn_store_name [OF name(1) _ n(3)]) (use len name(2) in simp)
  have o: "(e ! 0 AND 0x40 \<noteq> 0) = is_last" "e ! 13 = chk" using O by (cases is_last; simp add: e fill_fields)+
  show "lfn_step c i e st = Some (st'\<lparr>lfn_buffer := splice ((m - 1) * 13) (take 13 (drop ((m - 1) * 13) name)) (lfn_buffer st')\<rparr>)"
    unfolding lfn_step_def o using st x o(2) by (cases is_last) (simp_all add: Let_def)
  show "e ! 0 \<noteq> 0" "e ! 0 \<noteq> 0xE5" "e ! 11 = FAT_ATTR_LFN" using O by (cases is_last; simp add: e fill_fields)+
qed

lemma parse_rest:
  assumes name: "0 \<notin> set name" "length name \<le> 256" "length name \<le> 13 * n" "n \<le> 20"
  shows "map (\<lambda>s. snd (snd s)) ss = map (\<lambda>i. fill_lfn_entry name (n - i) (i = 0) chk) [k..<n] \<Longrightarrow> 0 < k \<Longrightarrow> k \<le> n \<Longrightarrow> 13 * (n - k) \<le> length name \<Longrightarrow>
    lfn_valid st \<Longrightarrow> lfn_checksum_expected st = chk \<Longrightarrow> lfn_buffer st = splice (13 * (n - k)) (drop (13 * (n - k)) name) zeros \<Longrightarrow>
    parse st (ss @ rest) = parse (st\<lparr>lfn_buffer := splice 0 name zeros\<rparr>) rest"
proof (induction ss arbitrary: k st)
  case Nil
  then have "k = n" by simp
  then have "st\<lparr>lfn_buffer := splice 0 name zeros\<rparr> = st" using Nil.prems(7) by simp
  then show ?case by simp
next
  case (Cons s ss)
  obtain c i e where s: "s = (c, i, e)" by (cases s)
  have "k < n" using Cons.prems(1) by (cases "k < n") auto
  then have k: "k < n" "[k..<n] = k # [Suc k..<n]" by (simp_all add: upt_conv_Cons)
  let ?m = "n - k" and ?p = "13 * (n - Suc k)"
  have p: "?p + 13 = 13 * (n - k)" "(?m - 1) * 13 = ?p" using k(1) by (simp_all add: algebra_simps)
  have e: "e = fill_lfn_entry name ?m False chk" using Cons.prems(1,2) k(2) s by simp
  have lb: "length (lfn_buffer st) = 256" using Cons.prems(4,7) name(2) by simp
  have m: "0 < ?m" "?m \<le> 20" "(?m - 1) * 13 \<le> length name" using k(1) name(4) p Cons.prems(4) by linarith+
  note F = lfn_step_fill [OF m name(1,2) e, of st c i st, unfolded p(2)]
  have S: "lfn_step c i e st = Some (st\<lparr>lfn_buffer := splice ?p (take 13 (drop ?p name)) (lfn_buffer st)\<rparr>)" "e ! 0 \<noteq> 0" "e ! 0 \<noteq> 0xE5" "e ! 11 = FAT_ATTR_LFN"
    using F Cons.prems(5,6) lb by simp_all
  have b: "splice ?p (take 13 (drop ?p name)) (lfn_buffer st) = splice ?p (drop ?p name) zeros"
    using splice_name_step [of ?p "take 13 (drop ?p name)" name zeros] Cons.prems(4,7) name(2) p(1) by (simp add: add.commute)
  have "parse (st\<lparr>lfn_buffer := splice ?p (drop ?p name) zeros\<rparr>) (ss @ rest) =
      parse (st\<lparr>lfn_buffer := splice ?p (drop ?p name) zeros, lfn_buffer := splice 0 name zeros\<rparr>) rest"
    by (rule Cons.IH [of "Suc k"]) (use Cons.prems k p in auto)
  then show ?case using S b by (simp add: s)
qed

text \<open>
  The entries that \<open>fat32_create_entry\<close> writes for a long name are parsed as one file with that name, whatever comes before and after.
\<close>

lemma parse_new:
  assumes name: "0 \<notin> set name" "0 < length name" "length name < 256" and sn: "length sn = 11" "sn ! 0 \<noteq> 0" "sn ! 0 \<noteq> 0xE5" and at: "attr \<noteq> FAT_ATTR_LFN"
    and ss: "map (\<lambda>s. snd (snd s)) ss = new_entries name sn (lfn_entries_needed name) attr nc date time"
    and st: "\<not> lfn_valid st'"
  shows "parse st (ss @ rest) = map_option (Cons \<lparr>d_cluster = fst (last ss), d_idx = fst (snd (last ss)), d_entry = short_entry sn attr nc date time,
      d_name = name, d_start = (fst (hd ss), fst (snd (hd ss)))\<rparr>) (parse st' rest)"
proof -
  define n where "n = lfn_entries_needed name"
  have n: "0 < n" "n \<le> 20" "length name \<le> 13 * n" "13 * (n - 1) \<le> length name"
    using name(2,3) unfolding n_def lfn_entries_needed_def by presburger+
  have l: "length ss = n + 1" using arg_cong [OF ss, of length] by (simp add: new_entries_def n_def)
  obtain s0 t where t: "ss = s0 # t" "length t = n" using l by (cases ss) auto
  then have "t = butlast t @ [last t]" using n(1) by (intro append_butlast_last_id [symmetric]) auto
  then obtain s1 sl where S: "ss = s0 # s1 @ [sl]" "length s1 = n - 1" using t by (metis length_butlast)
  obtain c i e cl il el where s: "s0 = (c, i, e)" "sl = (cl, il, el)" by (cases s0, cases sl) auto
  have u: "[0..<n] = 0 # [1..<n]" using n(1) by (simp add: upt_conv_Cons)
  have E: "e = fill_lfn_entry name n True (lfn_checksum sn)" "el = short_entry sn attr nc date time"
    "map (\<lambda>s. snd (snd s)) s1 = map (\<lambda>i. fill_lfn_entry name (n - i) (i = 0) (lfn_checksum sn)) [1..<n]"
    using ss S s u by (auto simp: new_entries_def n_def [symmetric])
  let ?st = "\<lparr>lfn_buffer = zeros, lfn_checksum_expected = lfn_checksum sn, lfn_valid = True, lfn_start_cluster = c, lfn_start_idx = i\<rparr>"
  have p: "(n - 1) * 13 = 13 * (n - 1)" by simp
  have F: "lfn_step c i e st = Some (?st\<lparr>lfn_buffer := splice (13 * (n - 1)) (take 13 (drop (13 * (n - 1)) name)) zeros\<rparr>)"
    "e ! 0 \<noteq> 0" "e ! 0 \<noteq> 0xE5" "e ! 11 = FAT_ATTR_LFN"
    using lfn_step_fill [OF n(1,2) _ name(1) _ E(1), of ?st c i st, unfolded p] n(4) name(3) by simp_all
  have "take 13 (drop (13 * (n - 1)) name) = drop (13 * (n - 1)) name" using n(1,3) by simp
  then have "parse st (ss @ rest) = parse (?st\<lparr>lfn_buffer := splice (13 * (n - 1)) (drop (13 * (n - 1)) name) zeros\<rparr>) (s1 @ sl # rest)" using F by (simp add: S s)
  also have "\<dots> = parse (?st\<lparr>lfn_buffer := splice (13 * (n - 1)) (drop (13 * (n - 1)) name) zeros, lfn_buffer := splice 0 name zeros\<rparr>) (sl # rest)"
    by (rule parse_rest [OF name(1) _ n(3,2) E(3)]) (use n(4) name in \<open>simp_all add: Suc_leI [OF n(1)]\<close>)
  also have "\<dots> = parse (?st\<lparr>lfn_buffer := splice 0 name zeros\<rparr>) (sl # rest)" by simp
  finally have P: "parse st (ss @ rest) = parse (?st\<lparr>lfn_buffer := splice 0 name zeros\<rparr>) (sl # rest)" .
  have ck: "lfn_checksum el = lfn_checksum sn" using sn(1) by (simp add: E(2) short_entry_def lfn_checksum_def)
  have tw: "takeWhile (\<lambda>c. c \<noteq> 0) (splice 0 name zeros) = name"
  proof -
    have "splice 0 name zeros = name @ 0 # replicate (255 - length name) 0" using name(3) by (simp add: splice_def replicate_Suc [symmetric] del: replicate_Suc)
    then show ?thesis using name(1) by (auto simp: takeWhile_append2 takeWhile_tail)
  qed
  have h: "el ! 0 = sn ! 0" "el ! 11 = attr" using sn(1) by (simp_all add: E(2) short_entry_def nth_append)
  have "parse ((?st\<lparr>lfn_buffer := splice 0 name zeros\<rparr>)\<lparr>lfn_valid := False\<rparr>) rest = parse st' rest" using st by (intro parse_invalid) auto
  then show ?thesis unfolding P using h sn at tw ck by (simp add: S s dirent_of_def entry_name_def has_long_def E(2))
qed

end
