(* ===== verification/Fatops.thy ===== *)
theory Fatops
  imports Fatdir
begin

section \<open>Creating and removing files in FAT32 directories\<close>

text \<open>
  What \<open>fat32_create\<close> and \<open>fat32_unlink\<close> do to the list of files that a directory holds, and to the rest of the volume. The
  slots of a directory are numbered along its chain of clusters.
\<close>

subsection \<open>Slots by number\<close>

lemma epc_facts:
  assumes "geom fs"
  shows "csize fs = 32 * epc fs" "16 \<le> epc fs"
proof -
  have "csize fs = spc fs * 512" "0 < spc fs" using assms by (auto simp: geom_def)
  then show "csize fs = 32 * epc fs" "16 \<le> epc fs" by simp_all
qed

definition free_at :: "u8 list \<Rightarrow> nat \<Rightarrow> bool" where
  "free_at C k \<longleftrightarrow> C ! (32 * k) = 0 \<or> C ! (32 * k) = 0xE5"

definition place :: "nat \<Rightarrow> u32 list \<Rightarrow> nat \<Rightarrow> u32 \<times> u32" where
  "place n zs k = (zs ! (k div n), word_of_nat (k mod n * 32))"

text \<open>The state of the search after \<open>q\<close> slots: the last ones are free, and the place of the first of them is remembered.\<close>

definition run_ok :: "nat \<Rightarrow> u32 list \<Rightarrow> u8 list \<Rightarrow> nat \<Rightarrow> nat \<Rightarrow> u32 \<times> u32 \<times> nat \<Rightarrow> bool" where
  "run_ok N zs C count q st \<longleftrightarrow> (case st of (sc, so, n) \<Rightarrow>
     n < count \<and> n \<le> q \<and> (\<forall>k. q - n \<le> k \<longrightarrow> k < q \<longrightarrow> free_at C k) \<and> (0 < n \<longrightarrow> (sc, so) = place N zs (q - n)) \<and> (n < q \<longrightarrow> \<not> free_at C (q - n - 1)))"

definition run_found :: "nat \<Rightarrow> u32 list \<Rightarrow> u8 list \<Rightarrow> nat \<Rightarrow> nat \<Rightarrow> u32 \<times> u32 \<Rightarrow> bool" where
  "run_found N zs C count q r \<longleftrightarrow> (\<exists>p. p + count \<le> q \<and> (\<forall>k. p \<le> k \<longrightarrow> k < p + count \<longrightarrow> free_at C k) \<and> (0 < p \<longrightarrow> \<not> free_at C (p - 1)) \<and> r = place N zs p)"

lemma free_run_ok:
  assumes f: "\<And>k. k < N \<Longrightarrow> (f k ! 0 = 0 \<or> f k ! 0 = 0xE5) = free_at C (b + k)" and pl: "\<And>k. k < N \<Longrightarrow> place N zs (b + k) = (c, word_of_nat (k * 32))"
  shows "run_ok N zs C count (b + i) st \<Longrightarrow> i \<le> N \<Longrightarrow>
    (case free_run count c i (map f [i..<N]) st of
       Inl r \<Rightarrow> run_found N zs C count (b + N) r
     | Inr st' \<Rightarrow> run_ok N zs C count (b + N) st' \<and> ((\<forall>k. i \<le> k \<longrightarrow> k < N \<longrightarrow> free_at C (b + k)) \<longrightarrow> snd (snd st') = snd (snd st) + (N - i)))"
proof (induction "N - i" arbitrary: i st)
  case 0
  then show ?case by simp
next
  case (Suc m)
  obtain sc so n where st: "st = (sc, so, n)" by (cases st)
  have i: "i < N" "m = N - Suc i" using Suc.hyps(2) by simp_all
  have u: "map f [i..<N] = f i # map f [Suc i..<N]" using i(1) by (simp add: upt_conv_Cons)
  have R: "n < count" "n \<le> b + i" "\<And>k. b + i - n \<le> k \<Longrightarrow> k < b + i \<Longrightarrow> free_at C k" "0 < n \<Longrightarrow> (sc, so) = place N zs (b + i - n)"
    "n < b + i \<Longrightarrow> \<not> free_at C (b + i - n - 1)"
    using Suc.prems(1) by (auto simp: run_ok_def st)
  show ?case
  proof (cases "free_at C (b + i)")
    case True
    define s where "s = (if n = 0 then (c, word_of_nat (i * 32)) else (sc, so))"
    have s: "s = place N zs (b + i - n)" using R(4) pl [OF i(1)] by (simp add: s_def)
    have fr: "free_at C k" if "b + i - n \<le> k" "k < b + i + 1" for k using True R(3) [of k] that by (cases "k = b + i") auto
    have e: "free_run count c i (map f [i..<N]) st = (if n + 1 \<ge> count then Inl s else free_run count c (i + 1) (map f [Suc i..<N]) (fst s, snd s, n + 1))"
      unfolding u using f [OF i(1)] True by (auto simp: st s_def Let_def)
    show ?thesis
    proof (cases "n + 1 \<ge> count")
      case True
      then have "run_found N zs C count (b + N) s" unfolding run_found_def using s fr R(1,2,5) i(1)
        by (intro exI [of _ "b + i - n"]) auto
      then show ?thesis using True e by simp
    next
      case False
      have "run_ok N zs C count (b + Suc i) (fst s, snd s, n + 1)" unfolding run_ok_def prod.case
        using False R(2,5) fr s by (auto simp: Suc_diff_le)
      from Suc.hyps(1) [OF i(2) this] i(1) show ?thesis using e False by (auto simp: st split: sum.splits)
    qed
  next
    case False
    have e: "free_run count c i (map f [i..<N]) st = free_run count c (i + 1) (map f [Suc i..<N]) (sc, so, 0)"
      unfolding u using f [OF i(1)] False by (simp add: st)
    have "run_ok N zs C count (b + Suc i) (sc, so, 0)" using R(1) False by (simp add: run_ok_def)
    from Suc.hyps(1) [OF i(2) this] i(1) show ?thesis using e False by (auto split: sum.splits)
  qed
qed

lemma contents_nth:
  assumes "j < length zs" "k < csize fs"
  shows "contents fs zs ! (j * csize fs + k) = data fs (zs ! j) ! k"
  using assms
proof (induction zs arbitrary: j)
  case (Cons z zs)
  show ?case
  proof (cases j)
    case 0
    then show ?thesis using Cons.prems by (simp add: nth_append)
  next
    case (Suc i)
    then have "\<not> j * csize fs + k < csize fs" by simp
    moreover have "j * csize fs + k - csize fs = i * csize fs + k" using Suc by simp
    ultimately show ?thesis using Cons.IH [of i] Cons.prems Suc by (simp add: nth_append)
  qed
qed simp

lemma entry_first:
  assumes "geom fs" "j < length zs" "i < epc fs"
  shows "take 32 (drop (32 * i) (data fs (zs ! j))) ! 0 = contents fs zs ! (32 * (j * epc fs + i))"
proof -
  have e: "32 * (j * epc fs + i) = j * csize fs + 32 * i" using epc_facts(1) [OF assms(1)] by (simp add: algebra_simps)
  have "32 * i < csize fs" using epc_facts(1) [OF assms(1)] assms(3) by simp
  then show ?thesis unfolding e using contents_nth [OF assms(2), where k = "32 * i" and fs = fs] by simp
qed

lemma place_nth: "i < n \<Longrightarrow> place n zs (j * n + i) = (zs ! j, word_of_nat (i * 32))"
  by (simp add: place_def)

text \<open>One cluster of the search.\<close>

lemma free_run_cluster:
  assumes g: "geom fs" and j: "j < length zs" and R: "run_ok (epc fs) zs (contents fs zs) count (j * epc fs) st"
  shows "case free_run count (zs ! j) 0 (entries (epc fs) (data fs (zs ! j))) st of
       Inl r \<Rightarrow> run_found (epc fs) zs (contents fs zs) count (Suc j * epc fs) r
     | Inr st' \<Rightarrow> run_ok (epc fs) zs (contents fs zs) count (Suc j * epc fs) st' \<and>
         ((\<forall>k < epc fs. free_at (contents fs zs) (j * epc fs + k)) \<longrightarrow> snd (snd st') = snd (snd st) + epc fs)"
  using free_run_ok [of "epc fs" "\<lambda>i. take 32 (drop (32 * i) (data fs (zs ! j)))" "contents fs zs" "j * epc fs" zs "zs ! j" count 0 st]
    entry_first [OF g j] place_nth [of _ "epc fs" zs j] R
  by (auto simp: free_at_def entries_eq add.commute split: sum.splits)

subsection \<open>The search for free slots\<close>

text \<open>A directory gets clusters of zeros at its end.\<close>

definition extended :: "fat32_fs \<Rightarrow> fat32_fs \<Rightarrow> u32 \<Rightarrow> u32 list \<Rightarrow> u32 list \<Rightarrow> bool" where
  "extended fs fs' dir zs ys \<longleftrightarrow> grows fs fs' dir zs ys \<and> contents fs' (zs @ ys) = contents fs zs @ replicate (length ys * csize fs) 0"

lemma extendedD:
  assumes "extended fs fs' dir zs ys"
  shows "grows fs fs' dir zs ys" "contents fs' (zs @ ys) = contents fs zs @ replicate (length ys * csize fs) 0"
    "bytes_per_cluster fs' = bytes_per_cluster fs" "geom fs' = geom fs"
  using assms vol_same [OF growsD(1)] unfolding extended_def by blast+

lemma extended_trans:
  assumes "extended fs fs1 dir zs ys" "extended fs1 fs2 dir (zs @ ys) ws"
  shows "extended fs fs2 dir zs (ys @ ws)"
  using grows_trans [OF extendedD(1) [OF assms(1)] extendedD(1) [OF assms(2)]] extendedD(2,3) [OF assms(1)] extendedD(2) [OF assms(2)]
  by (simp add: extended_def replicate_add add_mult_distrib)

lemma run_ok_append:
  assumes "run_ok N zs C count q st" "q \<le> length zs * N" "32 * q \<le> length C"
  shows "run_ok N (zs @ ys) (C @ D) count q st"
proof -
  obtain sc so n where st: "st = (sc, so, n)" by (cases st)
  have "place N (zs @ ys) (q - n) = place N zs (q - n)" if "0 < n" "n \<le> q"
  proof -
    have "q - n < length zs * N" using that assms(2) by linarith
    then have "(q - n) div N < length zs" by (simp add: less_mult_imp_div_less)
    then show ?thesis by (simp add: place_def nth_append)
  qed
  moreover have "free_at (C @ D) k = free_at C k" if "k < q" for k using that assms(3) by (simp add: free_at_def nth_append)
  ultimately show ?thesis using assms(1) by (auto simp: run_ok_def st)
qed

abbreviation search_found :: "fat32_fs \<Rightarrow> u32 \<Rightarrow> u32 list \<Rightarrow> nat \<Rightarrow> ((u32 \<times> u32) option \<times> fat32_fs) option \<Rightarrow> bool" where
  "search_found fs dir zs count res \<equiv> \<exists>r ys fs'. res = Some (Some r, fs') \<and> extended fs fs' dir zs ys \<and>
     run_found (epc fs) (zs @ ys) (contents fs' (zs @ ys)) count (length (zs @ ys) * epc fs) r"

text \<open>At the end of the chain, the search goes on in new clusters.\<close>

lemma free_entries_extend:
  assumes "geom fs" "mem_ok fs" "fchain fs dir zs" "run_ok (epc fs) zs (contents fs zs) count (length zs * epc fs) st"
    "count \<le> snd (snd st) + card (free_clusters fs) * epc fs" "length buf = csize fs"
  shows "search_found fs dir zs count
    (case allocate_cluster (last zs) fs of (nxt, fs1) \<Rightarrow> if nxt = 0 then Some (None, fs1) else free_entries_loop count nxt st buf fs1)"
  using assms
proof (induction "card (free_clusters fs)" arbitrary: fs zs st buf)
  case 0
  then show ?case by (auto simp: run_ok_def)
next
  case (Suc m)
  let ?N = "epc fs"
  have fr: "free_clusters fs \<noteq> {}" using Suc.hyps(2) by auto
  obtain c fs1 where al: "allocate_cluster (last zs) fs = (c, fs1)" by (cases "allocate_cluster (last zs) fs")
  note G = grows_alloc [OF Suc.prems(1,2) fr Suc.prems(3) al]
  have X: "extended fs fs1 dir zs [c]" using G by (simp add: extended_def)
  note V = vol_same [OF growsD(1) [OF G(1)]]
  have g1: "geom fs1" and N1: "epc fs1 = ?N" using V Suc.prems(1) by simp_all
  note ch1 = growsD(3) [OF G(1)]
  have cv: "valid fs1 c" "get_next_cluster fs1 c \<ge> FAT_EOC" using cst.chainD [OF ch1] by auto
  have lt: "c < FAT_EOC" using cst.good_number [OF g1 cv(1)] by simp
  have rc: "read_cluster fs1 c buf = data fs1 c" by (rule read_cluster_eq [OF g1 cv(1)]) (use Suc.prems(6) V in simp)
  let ?zs = "zs @ [c]"
  let ?C = "contents fs1 ?zs"
  have R: "run_ok (epc fs1) ?zs ?C count (length zs * epc fs1) st"
    unfolding G(2) N1 by (rule run_ok_append [OF Suc.prems(4)]) (use epc_facts(1) [OF Suc.prems(1)] in \<open>simp_all add: algebra_simps\<close>)
  have zero: "free_at ?C (length zs * ?N + k)" if "k < ?N" for k
  proof -
    have "32 * (length zs * ?N + k) = length (contents fs zs) + 32 * k" "32 * k < csize fs"
      using that epc_facts(1) [OF Suc.prems(1)] by (simp_all add: algebra_simps)
    then have "?C ! (32 * (length zs * ?N + k)) = 0" unfolding G(2) by (simp only: nth_append_length_plus nth_replicate)
    then show ?thesis unfolding free_at_def by blast
  qed
  have z: "?zs ! length zs = c" by simp
  note F = free_run_cluster [OF g1, of "length zs" ?zs count st, unfolded z, OF _ R]
  have step: "free_entries_loop count c st buf fs1 = (case free_run count c 0 (entries ?N (data fs1 c)) st of
      Inl r \<Rightarrow> Some (Some r, fs1)
    | Inr st \<Rightarrow> (case allocate_cluster (last ?zs) fs1 of (nxt, fs) \<Rightarrow> if nxt = 0 then Some (None, fs) else free_entries_loop count nxt st (data fs1 c) fs))"
    using lt cv(2) N1 by (subst free_entries_loop.simps) (simp add: rc Let_def cong: sum.case_cong)
  show ?case
  proof (cases "free_run count c 0 (entries ?N (data fs1 c)) st")
    case (Inl r)
    then have "run_found ?N ?zs ?C count (length ?zs * ?N) r" using F N1 by simp
    then show ?thesis using step Inl al G(3) X by (intro exI [of _ r] exI [of _ "[c]"] exI [of _ fs1]) simp
  next
    case (Inr st')
    have R': "run_ok (epc fs1) ?zs ?C count (length ?zs * epc fs1) st'" "snd (snd st') = snd (snd st) + ?N" using F Inr N1 zero by simp_all
    have card1: "card (free_clusters fs1) = m" using grows_card [OF G(1)] Suc.hyps(2) by simp
    have IH: "search_found fs1 dir ?zs count (case allocate_cluster (last ?zs) fs1 of (nxt, fs) \<Rightarrow> if nxt = 0 then Some (None, fs) else free_entries_loop count nxt st' (data fs1 c) fs)"
    proof (rule Suc.hyps(1) [OF card1 [symmetric] g1 growsD(2) [OF G(1)] ch1 R'(1)])
      show "count \<le> snd (snd st') + card (free_clusters fs1) * epc fs1"
        using Suc.prems(5) R'(2) card1 Suc.hyps(2) [symmetric] N1 by simp
      show "length (data fs1 c) = csize fs1" by simp
    qed
    have e: "free_entries_loop count c st buf fs1 = (case allocate_cluster (last ?zs) fs1 of (nxt, fs) \<Rightarrow> if nxt = 0 then Some (None, fs)
        else free_entries_loop count nxt st' (data fs1 c) fs)" unfolding step Inr by simp
    from IH obtain r ys fs' where H: "free_entries_loop count c st buf fs1 = Some (Some r, fs')" "extended fs1 fs' dir ?zs ys"
      "run_found (epc fs1) (?zs @ ys) (contents fs' (?zs @ ys)) count (length (?zs @ ys) * epc fs1) r" unfolding e [symmetric] by blast
    have "extended fs fs' dir zs ([c] @ ys)" using extended_trans [OF X H(2)] .
    then show ?thesis using H N1 al G(3) by (intro exI [of _ r] exI [of _ "[c] @ ys"] exI [of _ fs']) simp
  qed
qed

lemma run_found_mono:
  assumes "run_found N zs C count q r" "q \<le> q'"
  shows "run_found N zs C count q' r"
proof -
  obtain p where p: "p + count \<le> q" "\<forall>k. p \<le> k \<longrightarrow> k < p + count \<longrightarrow> free_at C k" "0 < p \<longrightarrow> \<not> free_at C (p - 1)" "r = place N zs p"
    using assms(1) unfolding run_found_def by blast
  then have "p + count \<le> q'" using assms(2) by simp
  then show ?thesis using p unfolding run_found_def by blast
qed

lemma free_entries_walk:
  assumes g: "geom fs" and m: "mem_ok fs" and ch: "fchain fs dir zs" and sp: "count \<le> card (free_clusters fs) * epc fs"
  shows "j < length zs \<Longrightarrow> run_ok (epc fs) zs (contents fs zs) count (j * epc fs) st \<Longrightarrow> length buf = csize fs \<Longrightarrow>
    search_found fs dir zs count (free_entries_loop count (zs ! j) st buf fs)"
proof (induction "length zs - j" arbitrary: j st buf)
  case (Suc k)
  note C = cst.chainD [OF ch]
  let ?c = "zs ! j"
  have v: "valid fs ?c" using C Suc.prems(1) by simp
  have lt: "?c < FAT_EOC" using cst.good_number [OF g v] by simp
  have rc: "read_cluster fs ?c buf = data fs ?c" by (rule read_cluster_eq [OF g v Suc.prems(3)])
  note F = free_run_cluster [OF g Suc.prems(1,2)]
  note step = free_entries_loop.simps [of count ?c st buf fs, unfolded rc Let_def]
  show ?case
  proof (cases "free_run count ?c 0 (entries (epc fs) (data fs ?c)) st")
    case (Inl r)
    then have "run_found (epc fs) zs (contents fs zs) count (Suc j * epc fs) r" using F by simp
    moreover have "Suc j * epc fs \<le> length zs * epc fs" using Suc.prems(1) by (intro mult_le_mono1) simp
    ultimately have "run_found (epc fs) zs (contents fs zs) count (length zs * epc fs) r" by (rule run_found_mono)
    moreover have "extended fs fs dir zs []" using grows_refl [OF m ch] by (simp add: extended_def)
    ultimately show ?thesis using step lt Inl by (intro exI [of _ r] exI [of _ "[]"] exI [of _ fs]) simp
  next
    case (Inr st')
    have R: "run_ok (epc fs) zs (contents fs zs) count (Suc j * epc fs) st'" using F Inr by simp
    show ?thesis
    proof (cases "Suc j < length zs")
      case True
      have n: "get_next_cluster fs ?c = zs ! Suc j" using linked_nth [of "get_next_cluster fs" dir zs j] True ch by (simp add: chain_def)
      have "\<not> FAT_EOC \<le> zs ! Suc j" using cst.good_number [OF g, of "zs ! Suc j"] C True by (simp add: not_le)
      then have "free_entries_loop count ?c st buf fs = free_entries_loop count (zs ! Suc j) st' (data fs ?c) fs"
        using step lt Inr n by simp
      then show ?thesis using Suc.hyps(1) [OF _ True R, of "data fs ?c"] Suc.hyps(2) by simp
    next
      case False
      then have j: "Suc j = length zs" using Suc.prems(1) by simp
      then have "?c = last zs" by (metis C diff_Suc_1 last_conv_nth)
      then have e: "free_entries_loop count ?c st buf fs = (case allocate_cluster (last zs) fs of (nxt, fs1) \<Rightarrow>
          if nxt = 0 then Some (None, fs1) else free_entries_loop count nxt st' (data fs ?c) fs1)"
        using step lt Inr C by simp
      show ?thesis unfolding e by (rule free_entries_extend [OF g m ch]) (use R sp j in simp_all)
    qed
  qed
qed simp

lemma find_slots_ok:
  assumes "geom fs" "mem_ok fs" "fchain fs dir xs" "0 < count" "count \<le> card (free_clusters fs) * epc fs"
  obtains p ys fs' where "find_free_dir_entries dir count fs = Some (Some (place (epc fs) (xs @ ys) p), fs')" "extended fs fs' dir xs ys"
    "p + count \<le> length (xs @ ys) * epc fs" "\<And>k. p \<le> k \<Longrightarrow> k < p + count \<Longrightarrow> free_at (contents fs' (xs @ ys)) k"
    "0 < p \<Longrightarrow> \<not> free_at (contents fs' (xs @ ys)) (p - 1)"
proof -
  note C = cst.chainD [OF assms(3)]
  have "search_found fs dir xs count (free_entries_loop count (xs ! 0) (0, 0, 0) (new_buf (csize fs) fs) fs)"
    by (rule free_entries_walk [OF assms(1-3,5)]) (use C assms(4) in \<open>auto simp: run_ok_def new_buf_def\<close>)
  moreover have "xs ! 0 = dir" using C by (simp add: hd_conv_nth)
  ultimately obtain r ys fs' where H: "find_free_dir_entries dir count fs = Some (Some r, fs')" "extended fs fs' dir xs ys"
    "run_found (epc fs) (xs @ ys) (contents fs' (xs @ ys)) count (length (xs @ ys) * epc fs) r" unfolding find_free_dir_entries_def by auto
  from H(3) obtain p where P: "p + count \<le> length (xs @ ys) * epc fs" "\<forall>k. p \<le> k \<longrightarrow> k < p + count \<longrightarrow> free_at (contents fs' (xs @ ys)) k"
    "0 < p \<longrightarrow> \<not> free_at (contents fs' (xs @ ys)) (p - 1)" "r = place (epc fs) (xs @ ys) p" unfolding run_found_def by blast
  show ?thesis by (rule that [OF H(1) [unfolded P(4)] H(2) P(1)]) (use P(2,3) in auto)
qed

subsection \<open>Writing entries\<close>

lemma length_concat32: "\<forall>e \<in> set es. length e = 32 \<Longrightarrow> length (concat es) = 32 * length es"
  by (induction es) auto

lemma write_entries_ok:
  assumes "geom fs" "mem_ok fs" "fchain fs dir zs" "j < length zs" "idx < epc fs" "es \<noteq> []" "\<forall>e \<in> set es. length e = 32"
    "j * epc fs + idx + length es \<le> length zs * epc fs" "length buf = csize fs"
  shows "\<exists>fs'. write_entries_loop (zs ! j) idx es buf fs = Some (True, fs') \<and> grows fs fs' dir zs [] \<and>
    contents fs' zs = splice (32 * (j * epc fs + idx)) (concat es) (contents fs zs)"
  using assms
proof (induction "length zs - j" arbitrary: j idx es buf fs)
  case (Suc n)
  note C = cst.chainD [OF Suc.prems(3)]
  note E = epc_facts [OF Suc.prems(1)]
  let ?c = "zs ! j" and ?N = "epc fs"
  define k where "k = min (?N - idx) (length es)"
  have v: "valid fs ?c" using C Suc.prems(4) by simp
  have lt: "?c < FAT_EOC" using cst.good_number [OF Suc.prems(1) v] by simp
  have rc: "read_cluster fs ?c buf = data fs ?c" by (rule read_cluster_eq [OF Suc.prems(1) v Suc.prems(9)])
  define p where "p = concat (take k es)"
  define fs1 where "fs1 = write_cluster ?c (splice (32 * idx) p (data fs ?c)) fs"
  have lp: "length p = 32 * k" using length_concat32 [of "take k es"] Suc.prems(7) by (auto simp: p_def k_def dest: in_set_takeD)
  have fit: "32 * idx + length p \<le> csize fs" using lp E(1) Suc.prems(5) by (simp add: k_def)
  note W = grows_write [OF Suc.prems(1-4) fit fs1_def]
  note V = vol_same [OF growsD(1) [OF W(1)]]
  have ch1: "fchain fs1 dir zs" using growsD(3) [OF W(1)] by simp
  have q: "j * csize fs + 32 * idx = 32 * (j * ?N + idx)" using E(1) by (simp add: algebra_simps)
  have step: "write_entries_loop ?c idx es buf fs =
      (if drop k es \<noteq> [] then write_entries_loop (get_next_cluster fs1 ?c) 0 (drop k es) (splice (32 * idx) p (data fs ?c)) fs1 else Some (True, fs1))"
    using lt Suc.prems(6) by (subst write_entries_loop.simps) (simp add: rc Let_def k_def [symmetric] p_def fs1_def)
  show ?case
  proof (cases "drop k es = []")
    case True
    then have "p = concat es" by (simp add: p_def)
    then show ?thesis using step True W q by (intro exI [of _ fs1]) simp
  next
    case False
    then have k: "k = ?N - idx" "k < length es" by (auto simp: k_def min_def split: if_splits)
    have j1: "Suc j < length zs"
    proof (rule ccontr)
      assume "\<not> Suc j < length zs"
      then have "length zs = Suc j" using Suc.prems(4) by simp
      then show False using Suc.prems(5,8) k by simp
    qed
    have n1: "get_next_cluster fs1 ?c = zs ! Suc j" using linked_nth [of "get_next_cluster fs1" dir zs j] j1 ch1 by (simp add: chain_def)
    have "\<exists>fs'. write_entries_loop (zs ! Suc j) 0 (drop k es) (splice (32 * idx) p (data fs ?c)) fs1 = Some (True, fs') \<and> grows fs1 fs' dir zs [] \<and>
        contents fs' zs = splice (32 * (Suc j * epc fs1 + 0)) (concat (drop k es)) (contents fs1 zs)"
    proof (rule Suc.hyps(1))
      show "\<forall>e \<in> set (drop k es). length e = 32" using Suc.prems(7) by (auto dest: in_set_dropD)
      show "Suc j * epc fs1 + 0 + length (drop k es) \<le> length zs * epc fs1" using Suc.prems(5,8) k V by simp
    qed (use Suc.hyps(2) Suc.prems(1) V growsD(2) [OF W(1)] ch1 j1 False E fit in simp_all)
    then obtain fs' where H: "write_entries_loop (zs ! Suc j) 0 (drop k es) (splice (32 * idx) p (data fs ?c)) fs1 = Some (True, fs')" "grows fs1 fs' dir zs []"
      "contents fs' zs = splice (32 * (Suc j * ?N)) (concat (drop k es)) (contents fs1 zs)" using V by auto
    have s: "32 * (Suc j * ?N) = 32 * (j * ?N + idx) + length p" using lp k(1) Suc.prems(5) by (simp add: algebra_simps)
    have cat: "p @ concat (drop k es) = concat es" unfolding p_def by (metis append_take_drop_id concat_append)
    have "length (contents fs zs) = 32 * (length zs * ?N)" using E(1) by simp
    moreover have "j * ?N + idx + k \<le> length zs * ?N" using Suc.prems(8) k(2) by simp
    ultimately have "32 * (j * ?N + idx) + length p \<le> length (contents fs zs)" unfolding lp distrib_left [symmetric] by (metis mult_le_mono2)
    then have "contents fs' zs = splice (32 * (j * ?N + idx)) (concat es) (contents fs zs)"
      unfolding H(3) W(2) s q using splice_splice [of "32 * (j * ?N + idx)" p "contents fs zs" "concat (drop k es)"] cat by simp
    moreover have "grows fs fs' dir zs []" using grows_trans [OF W(1), of fs' "[]"] H(2) by simp
    ultimately show ?thesis using step False n1 H(1) by auto
  qed
qed simp

subsection \<open>The list of files after entries have been written\<close>

definition view :: "nat \<Rightarrow> u32 list \<Rightarrow> u8 list \<Rightarrow> slot list" where
  "view N zs C = map (\<lambda>k. (zs ! (k div N), k mod N, take 32 (drop (32 * k) C))) [0..<length zs * N]"

lemma slots_view:
  assumes g: "geom fs"
  shows "slots fs zs = view (epc fs) zs (contents fs zs)"
proof (induction zs rule: rev_induct)
  case (snoc z zs)
  let ?N = "epc fs" and ?n = "length zs"
  note E = epc_facts [OF g]
  let ?f = "\<lambda>k. ((zs @ [z]) ! (k div ?N), k mod ?N, take 32 (drop (32 * k) (contents fs (zs @ [z]))))"
  have u: "[0..<length (zs @ [z]) * ?N] = [0..<?n * ?N] @ map (\<lambda>i. ?n * ?N + i) [0..<?N]"
    using upt_add_eq_append [of 0 "?n * ?N" ?N] map_add_upt [of "?n * ?N" ?N] by (simp add: add.commute)
  have a: "map ?f [0..<?n * ?N] = view ?N zs (contents fs zs)" unfolding view_def
  proof (rule map_cong [OF refl])
    fix k assume k: "k \<in> set [0..<?n * ?N]"
    have "length (contents fs zs) = 32 * (?n * ?N)" using E(1) by simp
    moreover have "k < ?n * ?N" using k by simp
    ultimately have "32 * k + 32 \<le> length (contents fs zs)" by linarith
    moreover have "k div ?N < ?n" using k by (simp add: less_mult_imp_div_less)
    ultimately show "?f k = (zs ! (k div ?N), k mod ?N, take 32 (drop (32 * k) (contents fs zs)))" by (simp add: nth_append)
  qed
  have b: "map (?f \<circ> (\<lambda>i. ?n * ?N + i)) [0..<?N] = slots_of fs z" unfolding slots_of_def
  proof (rule map_cong [OF refl])
    fix i assume i: "i \<in> set [0..<?N]"
    have "32 * (?n * ?N + i) = length (contents fs zs) + 32 * i" using E(1) by (simp add: algebra_simps)
    moreover have "drop (length (contents fs zs) + 32 * i) (contents fs zs @ data fs z) = drop (32 * i) (data fs z)" by simp
    ultimately have D: "drop (32 * (?n * ?N + i)) (contents fs (zs @ [z])) = drop (32 * i) (data fs z)" by (simp only: contents_simps append_Nil2)
    show "(?f \<circ> (\<lambda>i. ?n * ?N + i)) i = (z, i, take 32 (drop (32 * i) (data fs z)))" unfolding comp_def D using i by (simp add: nth_append)
  qed
  show ?case unfolding view_def u map_append map_map a [unfolded view_def] b using snoc by (simp add: view_def)
qed (simp add: view_def)

lemma drop_splice:
  assumes "32 * p + 32 * n \<le> length C" "length es = n" "\<forall>e \<in> set es. length e = 32"
  shows "take 32 (drop (32 * k) (splice (32 * p) (concat es) C)) = (if p \<le> k \<and> k < p + n then es ! (k - p) else take 32 (drop (32 * k) C))"
proof -
  let ?S = "splice (32 * p) (concat es) C"
  have lc: "length (concat es) = 32 * n" using length_concat32 [OF assms(3)] assms(2) by (simp only:)
  consider "k < p" | "p \<le> k" "k < p + n" | "p + n \<le> k" by linarith
  then show ?thesis
  proof cases
    case 1
    then have "take 32 (drop (32 * k) ?S) = take 32 (drop (32 * k) (take (32 * p) C))" using assms(1) by (simp add: splice_def)
    also have "\<dots> = take 32 (drop (32 * k) C)" using 1 by (simp add: drop_take min_def)
    finally show ?thesis using 1 by simp
  next
    case 2
    have "drop (32 * k) ?S = drop (32 * (k - p)) (concat es) @ drop (32 * p + 32 * n) C"
      using 2 assms(1) lc by (simp add: splice_def diff_mult_distrib2)
    moreover have "take 32 (drop (32 * i) (concat es) @ X) = es ! i" if "i < length es" for i X
      using that assms(3)
    proof (induction es arbitrary: i)
      case (Cons e es)
      then show ?case by (cases i) simp_all
    qed simp
    ultimately show ?thesis using 2 assms(2) by simp
  next
    case 3
    then have "32 * k = (32 * p + 32 * n) + (32 * k - (32 * p + 32 * n))" by linarith
    then obtain r where r: "32 * k = 32 * p + 32 * n + r" by blast
    have "drop (32 * k) ?S = drop (32 * k) C" unfolding r using assms(1) lc by (simp add: splice_def add.commute)
    then show ?thesis using 3 by simp
  qed
qed

text \<open>The view after \<open>n\<close> entries have been written from slot \<open>p\<close> on.\<close>

lemma view_splice:
  assumes "p + n \<le> length zs * N" "length C = 32 * (length zs * N)" "length es = n" "\<forall>e \<in> set es. length e = 32"
  shows "\<exists>ss. view N zs (splice (32 * p) (concat es) C) = take p (view N zs C) @ ss @ drop (p + n) (view N zs C) \<and>
    map (\<lambda>s. snd (snd s)) ss = es \<and> (\<forall>i < n. fst (ss ! i) = zs ! ((p + i) div N) \<and> fst (snd (ss ! i)) = (p + i) mod N)"
proof -
  let ?L = "length zs * N"
  let ?D = "splice (32 * p) (concat es) C"
  define ss where "ss = map (\<lambda>k. (zs ! (k div N), k mod N, take 32 (drop (32 * k) ?D))) [p..<p + n]"
  have b: "32 * p + 32 * n \<le> length C" using assms(1,2) by simp
  note S = drop_splice [OF b assms(3,4)]
  have u: "[0..<?L] = [0..<p] @ [p..<p + n] @ [p + n..<?L]"
    using assms(1) upt_add_eq_append [of 0 p "?L - p"] upt_add_eq_append [of p "p + n" "?L - (p + n)"] by simp
  have "view N zs ?D = map (\<lambda>k. (zs ! (k div N), k mod N, take 32 (drop (32 * k) C))) [0..<p] @ ss @
      map (\<lambda>k. (zs ! (k div N), k mod N, take 32 (drop (32 * k) C))) [p + n..<?L]"
    unfolding view_def u map_append ss_def by (simp add: S)
  moreover have "take p (view N zs C) = map (\<lambda>k. (zs ! (k div N), k mod N, take 32 (drop (32 * k) C))) [0..<p]"
    using assms(1) by (simp add: view_def take_map)
  moreover have "drop (p + n) (view N zs C) = map (\<lambda>k. (zs ! (k div N), k mod N, take 32 (drop (32 * k) C))) [p + n..<?L]"
    by (simp add: view_def drop_map)
  moreover have "map (\<lambda>s. snd (snd s)) ss = es"
    using assms(3) S by (intro nth_equalityI) (simp_all add: ss_def)
  ultimately show ?thesis by (intro exI [of _ ss]) (simp add: ss_def)
qed

text \<open>A prefix without end mark is parsed independently of what follows.\<close>

lemma parse_prefix:
  assumes "\<forall>s \<in> set A. snd (snd s) ! 0 \<noteq> 0"
  shows "(\<exists>l1 st1. \<forall>X. parse st (A @ X) = map_option (append l1) (parse st1 X)) \<or> (\<forall>X. parse st (A @ X) = None)"
  using assms
proof (induction A arbitrary: st)
  case Nil
  show ?case by (rule disjI1, rule exI [of _ "[]"], rule exI [of _ st]) (simp add: option.map_id0 [unfolded id_def] append_Nil)
next
  case (Cons s A)
  obtain c i e where s: "s = (c, i, e)" by (cases s)
  have e0: "e ! 0 \<noteq> 0" using Cons.prems s by simp
  have IH: "(\<exists>l1 st1. \<forall>X. parse st' (A @ X) = map_option (append l1) (parse st1 X)) \<or> (\<forall>X. parse st' (A @ X) = None)" for st'
    using Cons.IH Cons.prems by simp
  consider "e ! 0 = 0xE5" | "e ! 0 \<noteq> 0xE5" "e ! 11 = FAT_ATTR_LFN" | "e ! 0 \<noteq> 0xE5" "e ! 11 \<noteq> FAT_ATTR_LFN" by blast
  then show ?case
  proof cases
    case 1
    then show ?thesis using IH [of "st\<lparr>lfn_valid := False\<rparr>"] by (simp add: s)
  next
    case 2
    then show ?thesis using IH e0 by (cases "lfn_step c i e st") (simp_all add: s)
  next
    case 3
    have p: "parse st ((s # A) @ X) = map_option (Cons (dirent_of c i e st)) (parse (st\<lparr>lfn_valid := False\<rparr>) (A @ X))" for X
      using 3 e0 by (simp add: s)
    from IH [of "st\<lparr>lfn_valid := False\<rparr>"] show ?thesis
    proof (elim disjE exE)
      fix l1 st1 assume a: "\<forall>X. parse (st\<lparr>lfn_valid := False\<rparr>) (A @ X) = map_option (append l1) (parse st1 X)"
      have "parse st ((s # A) @ X) = map_option (append (dirent_of c i e st # l1)) (parse st1 X)" for X
        unfolding p a [rule_format] by (cases "parse st1 X") simp_all
      then show ?thesis by blast
    next
      assume "\<forall>X. parse (st\<lparr>lfn_valid := False\<rparr>) (A @ X) = None"
      then show ?thesis unfolding p by simp
    qed
  qed
qed

lemma parse_end: "\<forall>s \<in> set B. snd (snd s) ! 0 = 0 \<Longrightarrow> parse st B = Some []"
  by (cases B) auto

text \<open>Free slots do not count.\<close>

lemma parse_free:
  assumes "F \<noteq> []" "\<forall>s \<in> set F. snd (snd s) ! 0 = 0 \<or> snd (snd s) ! 0 = 0xE5" "\<not> lfn_valid st'"
    "(\<exists>s \<in> set F. snd (snd s) ! 0 = 0) \<Longrightarrow> \<forall>s \<in> set B. snd (snd s) ! 0 = 0"
  shows "parse st (F @ B) = parse st' B"
  using assms
proof (induction F arbitrary: st)
  case (Cons s F)
  obtain c i e where s: "s = (c, i, e)" by (cases s)
  show ?case
  proof (cases "e ! 0 = 0")
    case True
    then have "\<forall>s \<in> set B. snd (snd s) ! 0 = 0" using Cons.prems(4) s by simp
    then show ?thesis using True parse_end by (simp add: s)
  next
    case False
    then have p: "parse st ((s # F) @ B) = parse (st\<lparr>lfn_valid := False\<rparr>) (F @ B)" using Cons.prems(2) by (auto simp: s)
    show ?thesis
    proof (cases "F = []")
      case True
      have "parse (st\<lparr>lfn_valid := False\<rparr>) B = parse st' B" by (rule parse_invalid) (use Cons.prems(3) in simp_all)
      with p [unfolded True append_Nil] True show ?thesis by (simp only:)
    next
      case False
      show ?thesis unfolding p
      proof (rule Cons.IH [OF False _ Cons.prems(3)])
        show "\<forall>s \<in> set F. snd (snd s) ! 0 = 0 \<or> snd (snd s) ! 0 = 0xE5" using Cons.prems(2) by simp
        show "\<forall>s \<in> set B. snd (snd s) ! 0 = 0" if "\<exists>s \<in> set F. snd (snd s) ! 0 = 0" by (rule Cons.prems(4)) (use that in simp)
      qed
    qed
  qed
qed simp

text \<open>Behind an end mark there are only end marks.\<close>

definition tidy :: "u8 list \<Rightarrow> bool" where
  "tidy C \<longleftrightarrow> (\<forall>k k'. k \<le> k' \<longrightarrow> 32 * k' < length C \<longrightarrow> C ! (32 * k) = 0 \<longrightarrow> C ! (32 * k') = 0)"

lemma view_first: "k < length zs * N \<Longrightarrow> length C = 32 * (length zs * N) \<Longrightarrow> snd (snd (view N zs C ! k)) ! 0 = C ! (32 * k)"
  by (simp add: view_def)

lemma length_view [simp]: "length (view N zs C) = length zs * N"
  by (simp add: view_def)

lemma no_end_before:
  assumes "tidy C" "0 < p \<Longrightarrow> \<not> free_at C (p - 1)" "32 * p \<le> length C" "k < p"
  shows "C ! (32 * k) \<noteq> 0"
proof
  assume "C ! (32 * k) = 0"
  moreover have "k \<le> p - 1" "32 * (p - 1) < length C" "0 < p" using assms(3,4) by linarith+
  ultimately have "C ! (32 * (p - 1)) = 0" using assms(1) unfolding tidy_def by blast
  then show False using assms(2) \<open>0 < p\<close> by (simp add: free_at_def)
qed

lemma new_entries_first:
  assumes "0 < length name" "length name < 256" "sn ! 0 \<noteq> 0" "length sn = 11" "e \<in> set (new_entries name sn (lfn_entries_needed name) attr nc date time)"
  shows "e ! 0 \<noteq> 0" "length e = 32"
proof -
  have n: "lfn_entries_needed name \<le> 20" using assms(2) by (simp add: lfn_entries_needed_def)
  consider i where "i < lfn_entries_needed name" "e = fill_lfn_entry name (lfn_entries_needed name - i) (i = 0) (lfn_checksum sn)" | "e = short_entry sn attr nc date time"
    using assms(5) by (auto simp: new_entries_def)
  then have "e ! 0 \<noteq> 0 \<and> length e = 32"
  proof cases
    case 1
    then have "0 < lfn_entries_needed name - i" "lfn_entries_needed name - i \<le> 20" using n by simp_all
    note O = order_bits [OF this]
    show ?thesis unfolding 1(2) fill_fields using O(1,5) by (cases "i = 0"; simp)+
  next
    case 2
    then show ?thesis using assms(3,4) by (simp add: short_entry_def nth_append)
  qed
  then show "e ! 0 \<noteq> 0" "length e = 32" by simp_all
qed

lemma parse_written:
  assumes L: "length C = 32 * (length zs * N)" "p + n \<le> length zs * N" "0 < n" and t: "tidy C"
    and fr: "\<And>k. p \<le> k \<Longrightarrow> k < p + n \<Longrightarrow> free_at C k" "0 < p \<Longrightarrow> \<not> free_at C (p - 1)"
    and es: "es = new_entries name sn (lfn_entries_needed name) attr nc date time" "length es = n"
    and name: "0 \<notin> set name" "0 < length name" "length name < 256" and sn: "length sn = 11" "sn ! 0 \<noteq> 0" "sn ! 0 \<noteq> 0xE5" and at: "attr \<noteq> FAT_ATTR_LFN"
    and l: "parse st (view N zs C) = Some l"
    and d: "d = \<lparr>d_cluster = zs ! ((p + n - 1) div N), d_idx = (p + n - 1) mod N, d_entry = short_entry sn attr nc date time, d_name = name,
      d_start = (zs ! (p div N), p mod N)\<rparr>"
  shows "\<exists>l1 l2. l = l1 @ l2 \<and> parse st (view N zs (splice (32 * p) (concat es) C)) = Some (l1 @ d # l2)"
proof -
  let ?V = "view N zs C"
  define A F B where AFB: "A = take p ?V" "F = take n (drop p ?V)" "B = drop (p + n) ?V"
  have V: "?V = A @ F @ B" using append_take_drop_id [of p ?V] append_take_drop_id [of n "drop p ?V"] unfolding AFB drop_drop by (simp only: add.commute)
  have es32: "\<forall>e \<in> set es. length e = 32" using new_entries_first(2) [OF name(2,3) sn(2,1)] es(1) by blast
  obtain ss where ss: "view N zs (splice (32 * p) (concat es) C) = A @ ss @ B" "map (\<lambda>s. snd (snd s)) ss = es"
    "\<forall>i < n. fst (ss ! i) = zs ! ((p + i) div N) \<and> fst (snd (ss ! i)) = (p + i) mod N"
    using view_splice [OF L(2,1) es(2) es32] unfolding AFB by blast
  have A: "\<forall>s \<in> set A. snd (snd s) ! 0 \<noteq> 0"
  proof
    fix s assume "s \<in> set A"
    then obtain k where k: "k < p" "s = ?V ! k" using L(2) by (auto simp: AFB in_set_conv_nth)
    then show "snd (snd s) ! 0 \<noteq> 0" using no_end_before [OF t fr(2), of k] L view_first [of k zs N C] by simp
  qed
  have F: "\<forall>s \<in> set F. snd (snd s) ! 0 = 0 \<or> snd (snd s) ! 0 = 0xE5"
  proof
    fix s assume "s \<in> set F"
    then obtain k where k: "k < n" "s = ?V ! (p + k)" using L(2) by (auto simp: AFB in_set_conv_nth)
    then show "snd (snd s) ! 0 = 0 \<or> snd (snd s) ! 0 = 0xE5" using fr(1) [of "p + k"] L view_first [of "p + k" zs N C] by (simp add: free_at_def)
  qed
  have B: "\<forall>s \<in> set B. snd (snd s) ! 0 = 0" if e: "\<exists>s \<in> set F. snd (snd s) ! 0 = 0"
  proof
    fix s assume "s \<in> set B"
    then obtain i where "i < length zs * N - (p + n)" and i2: "s = ?V ! (p + n + i)" by (auto simp: AFB in_set_conv_nth)
    then have i: "p + n + i < length zs * N" "s = ?V ! (p + n + i)" using i2 by simp_all
    obtain k where k: "k < n" "snd (snd (?V ! (p + k))) ! 0 = 0" using e L(2) by (auto simp: AFB in_set_conv_nth)
    have "C ! (32 * (p + k)) = 0" using k L view_first [of "p + k" zs N C] by simp
    moreover have "p + k \<le> p + n + i" "32 * (p + n + i) < length C" using k(1) i(1) L(1) by simp_all
    ultimately have "C ! (32 * (p + n + i)) = 0" using t unfolding tidy_def by blast
    then show "snd (snd s) ! 0 = 0" using i L view_first [of "p + n + i" zs N C] by simp
  qed
  let ?st = "undefined\<lparr>lfn_valid := False\<rparr> :: lfn_state"
  have pf: "parse st1 (F @ B) = parse ?st B" for st1 by (rule parse_free [OF _ F _ B]) (use L in \<open>auto simp: AFB\<close>)
  have ne: "ss \<noteq> []" "length ss = n" using arg_cong [OF ss(2), of length] es(2) L(3) by auto
  have pn: "parse st1 (ss @ B) = map_option (Cons d) (parse ?st B)" for st1
  proof -
    have "fst (last ss) = zs ! ((p + n - 1) div N)" "fst (snd (last ss)) = (p + n - 1) mod N" "fst (hd ss) = zs ! (p div N)" "fst (snd (hd ss)) = p mod N"
      using ss(3) ne L(3) by (simp_all add: last_conv_nth hd_conv_nth)
    then show ?thesis using parse_new [OF name sn at ss(2) [unfolded es(1)], of ?st st1 B] by (simp add: d)
  qed
  from parse_prefix [OF A, of st] show ?thesis
  proof (elim disjE exE)
    fix l1 st1 assume P: "\<forall>X. parse st (A @ X) = map_option (append l1) (parse st1 X)"
    have "parse st ?V = map_option (append l1) (parse st1 (F @ B))" unfolding V using P by blast
    then have "map_option (append l1) (parse ?st B) = Some l" using l pf by simp
    then obtain l2 where l2: "parse ?st B = Some l2" "l = l1 @ l2" by blast
    then have "parse st (view N zs (splice (32 * p) (concat es) C)) = Some (l1 @ d # l2)" unfolding ss(1) using P [rule_format, of "ss @ B"] pn by simp
    then show ?thesis using l2 by blast
  next
    assume "\<forall>X. parse st (A @ X) = None"
    then have "parse st ?V = None" unfolding V by blast
    then show ?thesis using l by simp
  qed
qed

lemma tidy_written:
  assumes L: "32 * (p + n) \<le> length C" and t: "tidy C" and p: "0 < p \<Longrightarrow> \<not> free_at C (p - 1)"
    and es: "length es = n" "\<forall>e \<in> set es. length e = 32 \<and> e ! 0 \<noteq> 0"
  shows "tidy (splice (32 * p) (concat es) C)"
proof -
  let ?D = "splice (32 * p) (concat es) C"
  have lc: "length (concat es) = 32 * n" using length_concat32 [of es] es by auto
  have ld: "length ?D = length C" using L lc by simp
  have D: "?D ! (32 * k) = (if p \<le> k \<and> k < p + n then es ! (k - p) ! 0 else C ! (32 * k))" if "32 * k < length C" for k
  proof -
    have a: "?D ! (32 * k) = take 32 (drop (32 * k) ?D) ! 0" and b: "C ! (32 * k) = take 32 (drop (32 * k) C) ! 0" using that ld by simp_all
    have "take 32 (drop (32 * k) ?D) = (if p \<le> k \<and> k < p + n then es ! (k - p) else take 32 (drop (32 * k) C))"
      by (rule drop_splice) (use L es in auto)
    then show ?thesis unfolding a b by (simp only: if_distrib [of "\<lambda>e. e ! 0"])
  qed
  show ?thesis unfolding tidy_def ld
  proof (intro allI impI)
    fix k k' assume k: "k \<le> k'" "32 * k' < length C" "?D ! (32 * k) = 0"
    have out: "\<not> (p \<le> k \<and> k < p + n)" "C ! (32 * k) = 0" using D [of k] k es by (auto split: if_splits)
    have "\<not> k < p" using no_end_before [OF t p, of k] L out(2) by auto
    then have "\<not> (p \<le> k' \<and> k' < p + n)" using out(1) k(1) by simp
    then show "?D ! (32 * k') = 0" using D [OF k(2)] t out(2) k(1,2) unfolding tidy_def by auto
  qed
qed

subsection \<open>Creating a file\<close>

lemma suffix_length: "n < 10 ^ k \<Longrightarrow> length (suffix_str n) \<le> k"
proof (induction k arbitrary: n)
  case 0
  then show ?case by (simp add: suffix_str.simps)
next
  case (Suc k)
  then have "n div 10 < 10 ^ k" by simp
  then show ?case using Suc.IH by (subst suffix_str.simps) simp
qed

lemma short_char_ok: "c \<noteq> 0xE5 \<Longrightarrow> short_char bad c \<noteq> 0 \<and> short_char bad c \<noteq> 0xE5"
proof -
  assume c: "c \<noteq> 0xE5"
  have "c - 32 \<noteq> 0xE5" if "97 \<le> c" "c \<le> 122"
  proof -
    have "unat (c - 32) = unat c - 32" using that unat_sub_le [of 32 c] by (simp add: word_le_nat_alt)
    moreover have "unat c \<le> 122" using that by (simp add: word_le_nat_alt)
    ultimately have "unat (c - 32) \<noteq> unat (0xE5 :: u8)" by simp
    then show ?thesis by metis
  qed
  then show ?thesis using c by (auto simp: short_char_def Let_def)
qed

lemma short_name_ok:
  assumes "0xE5 \<notin> set name" "k < 999999"
  shows "length (generate_short_name name k) = 11" "generate_short_name name k ! 0 \<noteq> 0" "generate_short_name name k ! 0 \<noteq> 0xE5"
proof -
  define dot where "dot = last_dot name 0 None"
  define bl where "bl = (case dot of Some d \<Rightarrow> d | None \<Rightarrow> length name)"
  define mb :: nat where "mb = (if k > 0 then 6 else 8)"
  define base where "base = take mb (map (short_char bad_chars) (filter (\<lambda>c. c \<noteq> 32 \<and> c \<noteq> 46) (take bl name)))"
  define ds where "ds = suffix_str k"
  define j where "j = (if length base > 8 - length ds - 1 then 8 - length ds - 1 else length base)"
  define s0 where "s0 = splice 0 base (replicate 11 32)"
  define s1 where "s1 = (if k > 0 then splice j (126 # rev ds) s0 else s0)"
  have e: "generate_short_name name k = (case dot of None \<Rightarrow> s1 | Some d \<Rightarrow> splice 8 (take 3 (map (short_char (bad_chars @ [46])) (drop (d + 1) name))) s1)"
    unfolding generate_short_name_def dot_def bl_def mb_def base_def ds_def j_def s0_def s1_def Let_def by (rule refl)
  have ld: "length ds \<le> 6" using suffix_length [of k 6] assms(2) by (simp add: ds_def)
  have lb: "length base \<le> 8" by (simp add: base_def mb_def min_le_iff_disj)
  have l0: "length s0 = 11" using lb by (simp add: s0_def)
  have j8: "j + length (126 # rev ds) \<le> 8" using ld by (simp add: j_def) linarith
  have l1: "length s1 = 11" using l0 j8 by (simp add: s1_def)
  have b: "\<forall>c \<in> set base. c \<noteq> 0 \<and> c \<noteq> 0xE5"
  proof
    fix c assume "c \<in> set base"
    then obtain x where "x \<in> set name" "c = short_char bad_chars x" unfolding base_def by (auto dest!: in_set_takeD)
    moreover from this have "x \<noteq> 0xE5" using assms(1) by metis
    ultimately show "c \<noteq> 0 \<and> c \<noteq> 0xE5" using short_char_ok by simp
  qed
  have z0: "s0 ! 0 \<noteq> 0 \<and> s0 ! 0 \<noteq> 0xE5" using b lb by (cases base) (auto simp: s0_def splice_def)
  have z1: "s1 ! 0 \<noteq> 0 \<and> s1 ! 0 \<noteq> 0xE5"
  proof (cases "k > 0 \<and> j = 0")
    case True
    then show ?thesis by (simp add: s1_def splice_def)
  next
    case False
    then show ?thesis using z0 nth_splice [of j "126 # rev ds" s0 0] j8 l0 by (auto simp: s1_def)
  qed
  show "length (generate_short_name name k) = 11" using l1 by (simp add: e split: option.split)
  have "generate_short_name name k ! 0 = s1 ! 0" using l1 by (auto simp: e nth_splice split: option.split)
  then show "generate_short_name name k ! 0 \<noteq> 0" "generate_short_name name k ! 0 \<noteq> 0xE5" using z1 by simp_all
qed

lemma create_finish_file:
  assumes "mem_ok fs" "attr AND FAT_ATTR_DIRECTORY = 0"
  obtains bs u where "create_finish now name attr nc dir ec eo fs = (Some (create_node name attr nc dir ec eo u), fs\<lparr>oom := bs\<rparr>)" "True \<notin> set bs"
proof -
  obtain b1 where b1: "kmalloc_fails fs = (False, fs\<lparr>oom := b1\<rparr>)" "True \<notin> set b1" using kmalloc_works [OF assms(1)] .
  obtain b2 where b2: "kmalloc_fails (fs\<lparr>oom := b1\<rparr>) = (False, fs\<lparr>oom := b1\<rparr>\<lparr>oom := b2\<rparr>)" "True \<notin> set b2" using kmalloc_works [of "fs\<lparr>oom := b1\<rparr>"] b1(2) by auto
  show ?thesis using that [of _ b2] b1 b2 assms(2) by (cases "get_fat_now now") (simp add: create_finish_def Let_def)
qed

text \<open>What the names of a directory need: an entry list without errors, with end marks only at the end.\<close>

definition dir_ok :: "fat32_fs \<Rightarrow> u32 \<Rightarrow> u32 list \<Rightarrow> dirent list \<Rightarrow> bool" where
  "dir_ok fs dir xs l \<longleftrightarrow> geom fs \<and> mem_ok fs \<and> fchain fs dir xs \<and> dir_entries fs xs = Some l \<and> names_end l \<and> tidy (contents fs xs)"

lemma dir_okD:
  assumes "dir_ok fs dir xs l"
  shows "geom fs" "mem_ok fs" "fchain fs dir xs" "dir_entries fs xs = Some l" "names_end l" "tidy (contents fs xs)"
  using assms by (auto simp: dir_ok_def)

lemma tidy_zeros:
  assumes "tidy C" "32 dvd length C"
  shows "tidy (C @ replicate n 0)"
  unfolding tidy_def
proof (intro allI impI)
  fix k k' assume k: "k \<le> k'" "32 * k' < length (C @ replicate n 0)" "(C @ replicate n 0) ! (32 * k) = 0"
  show "(C @ replicate n 0) ! (32 * k') = 0"
  proof (cases "32 * k' < length C")
    case True
    moreover have "32 * k < length C" using True k(1) by simp
    ultimately show ?thesis using assms(1) k unfolding tidy_def by (metis nth_append)
  next
    case False
    then show ?thesis using k(2) by (simp add: nth_append)
  qed
qed

lemma parse_zeros:
  assumes "\<forall>s \<in> set B. snd (snd s) ! 0 = 0"
  shows "parse st (A @ B) = parse st A"
  using parse_end [OF assms] by (induction st A rule: parse.induct) (auto split: option.splits)

lemma view_append_zeros:
  assumes "length C = 32 * (length zs * N)"
  shows "\<exists>B. view N (zs @ ys) (C @ replicate (32 * (length ys * N)) 0) = view N zs C @ B \<and> (\<forall>s \<in> set B. snd (snd s) ! 0 = 0)"
proof -
  let ?D = "C @ replicate (32 * (length ys * N)) 0"
  let ?f = "\<lambda>k. ((zs @ ys) ! (k div N), k mod N, take 32 (drop (32 * k) ?D))"
  let ?n = "length zs * N" and ?m = "length ys * N"
  have u: "[0..<length (zs @ ys) * N] = [0..<?n] @ [?n..<?n + ?m]" using upt_add_eq_append [of 0 ?n ?m] by (simp add: add_mult_distrib)
  have "map ?f [0..<?n] = view N zs C" unfolding view_def
  proof (rule map_cong [OF refl])
    fix k assume k: "k \<in> set [0..<?n]"
    then have "32 * k + 32 \<le> length C" using assms by simp
    moreover have "k div N < length zs" using k by (simp add: less_mult_imp_div_less)
    ultimately show "?f k = (zs ! (k div N), k mod N, take 32 (drop (32 * k) C))" by (simp add: nth_append)
  qed
  moreover have "\<forall>s \<in> set (map ?f [?n..<?n + ?m]). snd (snd s) ! 0 = 0"
  proof
    fix s assume "s \<in> set (map ?f [?n..<?n + ?m])"
    then obtain k where k: "?n \<le> k" "k < ?n + ?m" "s = ?f k" by auto
    then have "32 * k < length ?D" "\<not> 32 * k < length C" "32 * k - length C < 32 * ?m" using assms by simp_all
    then show "snd (snd s) ! 0 = 0" using k(3) by (simp add: nth_append)
  qed
  ultimately show ?thesis unfolding view_def [of N "zs @ ys"] u map_append by blast
qed

lemma dir_extended:
  assumes d: "dir_ok fs dir xs l" and x: "extended fs fs' dir xs ys"
  shows "dir_ok fs' dir (xs @ ys) l"
proof -
  note D = dir_okD [OF d] and X = extendedD [OF x]
  note V = vol_same [OF growsD(1) [OF X(1)]] and E = epc_facts [OF D(1)]
  have lc: "length (contents fs xs) = 32 * (length xs * epc fs)" using E(1) by simp
  have z: "length ys * csize fs = 32 * (length ys * epc fs)" using E(1) by simp
  obtain B where B: "view (epc fs) (xs @ ys) (contents fs xs @ replicate (32 * (length ys * epc fs)) 0) = view (epc fs) xs (contents fs xs) @ B"
    "\<forall>s \<in> set B. snd (snd s) ! 0 = 0" using view_append_zeros [OF lc] by blast
  have g': "geom fs'" using V D(1) by simp
  have "slots fs' (xs @ ys) = slots fs xs @ B"
    unfolding slots_view [OF g'] slots_view [OF D(1)] X(2,3) z by (rule B(1))
  then have "parse (lfn_init fs') (slots fs' (xs @ ys)) = parse (lfn_init fs') (slots fs xs)" using parse_zeros [OF B(2)] by simp
  also have "\<dots> = parse (lfn_init fs) (slots fs xs)" by (rule parse_invalid) (simp_all add: lfn_init_def)
  finally have "dir_entries fs' (xs @ ys) = Some l" using D(4) by (simp add: dir_entries_def)
  moreover have "tidy (contents fs' (xs @ ys))" unfolding X(2) by (rule tidy_zeros [OF D(6)]) (simp only: lc dvd_triv_left)
  ultimately show ?thesis using D(5) g' growsD(2,3) [OF X(1)] by (simp add: dir_ok_def)
qed

lemma archive_bits: "FAT_ATTR_ARCHIVE AND FAT_ATTR_DIRECTORY = (0 :: u8)"
  by code_simp

lemma less32: "a < n \<Longrightarrow> 32 * n < m \<Longrightarrow> 32 * a < (m :: nat)"
  by linarith

lemma unat_small32: "n < 2 ^ 17 \<Longrightarrow> unat (word_of_nat n :: u32) = n"
  by (simp add: unat_of_nat take_bit_nat_eq_self)

lemma length_new_entries: "length (new_entries name sn n attr nc date time) = n + 1"
  by (simp add: new_entries_def)

text \<open>Free slots from \<open>p\<close> on get the entries of a new file.\<close>

lemma write_new_ok:
  assumes d: "dir_ok fs dir zs l" and n: "n = lfn_entries_needed name"
    and p: "p + (n + 1) \<le> length zs * epc fs" "\<And>k. p \<le> k \<Longrightarrow> k < p + (n + 1) \<Longrightarrow> free_at (contents fs zs) k" "0 < p \<Longrightarrow> \<not> free_at (contents fs zs) (p - 1)"
    and name: "0 \<notin> set name" "0 < length name" "length name < 255" and sn: "length sn = 11" "sn ! 0 \<noteq> 0" "sn ! 0 \<noteq> 0xE5" and at: "attr \<noteq> FAT_ATTR_LFN"
    and e: "e = \<lparr>d_cluster = zs ! ((p + n) div epc fs), d_idx = (p + n) mod epc fs, d_entry = short_entry sn attr nc date time, d_name = name,
      d_start = (zs ! (p div epc fs), p mod epc fs)\<rparr>"
  shows "\<exists>fs' l1 l2. write_dir_entries (fst (place (epc fs) zs p)) (snd (place (epc fs) zs p)) (new_entries name sn n attr nc date time) fs = Some (True, fs') \<and>
    grows fs fs' dir zs [] \<and> l = l1 @ l2 \<and> dir_ok fs' dir zs (l1 @ e # l2)"
proof -
  note D = dir_okD [OF d] and E = epc_facts [OF dir_okD(1) [OF d]]
  let ?N = "epc fs" and ?C = "contents fs zs"
  define es where "es = new_entries name sn n attr nc date time"
  have les: "length es = n + 1" "es \<noteq> []" by (simp_all add: es_def length_new_entries new_entries_def)
  have e32: "x ! 0 \<noteq> 0" "length x = 32" if "x \<in> set es" for x
    using new_entries_first [of name sn x attr nc date time] name sn that by (simp_all add: es_def n)
  have N0: "0 < ?N" using E(2) by linarith
  have j: "p div ?N < length zs" using p(1) by (intro less_mult_imp_div_less) simp
  have i: "p mod ?N < ?N" using N0 by simp
  have pd: "p div ?N * ?N + p mod ?N = p" by (rule div_mult_mod_eq)
  have "p mod ?N * 32 < 2 ^ 17" using i E(1) geom_bounds(4) [OF D(1)] by linarith
  then have o: "unat (snd (place ?N zs p)) div 32 = p mod ?N" unfolding place_def snd_conv by (subst unat_small32) simp_all
  have fits: "p div ?N * ?N + p mod ?N + length es \<le> length zs * ?N" unfolding pd using p(1) les by simp
  obtain fs' where W: "write_entries_loop (zs ! (p div ?N)) (p mod ?N) es (new_buf (csize fs) fs) fs = Some (True, fs')" "grows fs fs' dir zs []"
    "contents fs' zs = splice (32 * p) (concat es) ?C"
    using write_entries_ok [OF D(1-3) j i les(2) _ fits, of "new_buf (csize fs) fs"] e32 unfolding pd by (auto simp: new_buf_def)
  note V = vol_same [OF growsD(1) [OF W(2)]]
  have lc: "length ?C = 32 * (length zs * ?N)" using E(1) by simp
  have pr: "parse (lfn_init fs) (view ?N zs ?C) = Some l" using D(4) slots_view [OF D(1)] by (simp add: dir_entries_def)
  obtain l1 l2 where P: "l = l1 @ l2" "parse (lfn_init fs) (view ?N zs (splice (32 * p) (concat es) ?C)) = Some (l1 @ e # l2)"
    using parse_written [OF lc p(1) _ D(6) p(2,3) es_def [unfolded n] les(1) name(1,2) _ sn at pr, of e] name(3) e by auto
  have g': "geom fs'" using V D(1) by simp
  have "dir_entries fs' zs = parse (lfn_init fs') (view ?N zs (splice (32 * p) (concat es) ?C))" unfolding dir_entries_def slots_view [OF g'] W(3) V ..
  also have "\<dots> = parse (lfn_init fs) (view ?N zs (splice (32 * p) (concat es) ?C))" by (rule parse_invalid) (simp_all add: lfn_init_def)
  finally have de: "dir_entries fs' zs = Some (l1 @ e # l2)" using P(2) by simp
  have "32 * (p + (n + 1)) \<le> length ?C" unfolding lc using p(1) by simp
  then have "tidy (contents fs' zs)" unfolding W(3) by (rule tidy_written [OF _ D(6) p(3) les(1)]) (use e32 in auto)
  moreover have "names_end (l1 @ e # l2)" using D(5) P(1) name(3) e by (auto simp: names_end_def)
  ultimately have "dir_ok fs' dir zs (l1 @ e # l2)" using g' growsD(2,3) [OF W(2)] de by (simp add: dir_ok_def)
  moreover have "write_dir_entries (fst (place ?N zs p)) (snd (place ?N zs p)) es fs = Some (True, fs')"
    using W(1) o by (simp add: write_dir_entries_def place_def)
  ultimately show ?thesis using W(2) P(1) unfolding es_def by blast
qed

lemma dir_ok_oom:
  assumes "dir_ok fs dir xs l" "True \<notin> set bs"
  shows "dir_ok (fs\<lparr>oom := bs\<rparr>) dir xs l"
proof -
  have "contents (fs\<lparr>oom := bs\<rparr>) xs = contents fs xs" "slots (fs\<lparr>oom := bs\<rparr>) xs = slots fs xs"
    by (simp add: contents_def, rule slots_cong) simp_all
  moreover have "lfn_init (fs\<lparr>oom := bs\<rparr>) = lfn_init fs" by (simp add: lfn_init_def new_buf_def)
  moreover have "fchain (fs\<lparr>oom := bs\<rparr>) dir xs = fchain fs dir xs" by (rule cst.chain_stays) simp_all
  ultimately show ?thesis using assms by (simp add: dir_ok_def dir_entries_def)
qed

lemma create_file_ok:
  assumes d: "dir_ok fs dir xs l" and dir: "dir = first_cluster (fn_file parent)" and lfn: "needs_lfn name"
    and name: "0 \<notin> set name" "0xE5 \<notin> set name" "0 < length name" "length name < 255" and sp: "2 \<le> card (free_clusters fs)"
  shows "\<exists>node fs' ys l1 l2 e date time. fat32_create now parent name fs = Some (Some node, fs') \<and> grows fs fs' dir xs ys \<and> l = l1 @ l2 \<and>
    dir_ok fs' dir (xs @ ys) (l1 @ e # l2) \<and> d_name e = name \<and> (\<exists>sn. length sn = 11 \<and> d_entry e = short_entry sn FAT_ATTR_ARCHIVE 0 date time) \<and>
    fn_name node = take 63 name \<and> fn_size node = 0 \<and> first_cluster (fn_file node) = 0 \<and>
    (fst (d_start e) = d_cluster e \<longrightarrow> dir_entry_cluster (fn_file node) = d_cluster e \<and> unat (dir_entry_offset (fn_file node)) = 32 * d_idx e)"
proof -
  note D = dir_okD [OF d] and E = epc_facts [OF dir_okD(1) [OF d]]
  define n where "n = lfn_entries_needed name"
  have n: "n \<le> 20" using name(4) by (simp add: n_def lfn_entries_needed_def)
  obtain k where k: "generate_unique_short_name fs dir name = Some (generate_short_name name k)" "k < 999999"
    using unique_ok [OF D(1,3,4)] by blast
  define sn where "sn = generate_short_name name k"
  note S = short_name_ok [OF name(2) k(2), folded sn_def]
  have "2 * 16 \<le> card (free_clusters fs) * epc fs" using sp E(2) by (rule mult_le_mono)
  then have cnt: "n + 1 \<le> card (free_clusters fs) * epc fs" using n by linarith
  obtain p ys fs1 where F: "find_free_dir_entries dir (n + 1) fs = Some (Some (place (epc fs) (xs @ ys) p), fs1)" "extended fs fs1 dir xs ys"
    "p + (n + 1) \<le> length (xs @ ys) * epc fs" "\<And>k. p \<le> k \<Longrightarrow> k < p + (n + 1) \<Longrightarrow> free_at (contents fs1 (xs @ ys)) k"
    "0 < p \<Longrightarrow> \<not> free_at (contents fs1 (xs @ ys)) (p - 1)"
    using find_slots_ok [OF D(1-3) _ cnt] by (metis add_gr_0 zero_less_one)
  note X = extendedD [OF F(2)]
  obtain date time where now: "get_fat_now now = (date, time)" by fastforce
  let ?zs = "xs @ ys" and ?N = "epc fs"
  define e where "e = \<lparr>d_cluster = ?zs ! ((p + n) div ?N), d_idx = (p + n) mod ?N, d_entry = short_entry sn FAT_ATTR_ARCHIVE 0 date time, d_name = name,
      d_start = (?zs ! (p div ?N), p mod ?N)\<rparr>"
  obtain fs2 l1 l2 where W: "write_dir_entries (fst (place ?N ?zs p)) (snd (place ?N ?zs p)) (new_entries name sn n FAT_ATTR_ARCHIVE 0 date time) fs1 = Some (True, fs2)"
    "grows fs1 fs2 dir ?zs []" "l = l1 @ l2" "dir_ok fs2 dir ?zs (l1 @ e # l2)"
    using write_new_ok [OF dir_extended [OF d F(2)] n_def, of p sn "FAT_ATTR_ARCHIVE" e 0 date time] F(3-5) name S X(3) by (auto simp: e_def)
  let ?eo = "snd (place ?N ?zs p) + word_of_nat (n * 32)" and ?ec = "fst (place ?N ?zs p)"
  obtain bs u where C: "create_finish now name FAT_ATTR_ARCHIVE 0 dir ?ec ?eo fs2 = (Some (create_node name FAT_ATTR_ARCHIVE 0 dir ?ec ?eo u), fs2\<lparr>oom := bs\<rparr>)" "True \<notin> set bs"
    by (rule create_finish_file [OF dir_okD(2) [OF W(4)] archive_bits])
  let ?node = "create_node name FAT_ATTR_ARCHIVE 0 dir ?ec ?eo u"
  have "fat32_create now parent name fs = Some (Some ?node, fs2\<lparr>oom := bs\<rparr>)"
    using k(1) F(1) W(1) C(1) lfn now unfolding fat32_create_def fat32_create_entry_def dir [symmetric] sn_def [symmetric]
    by (cases "place ?N ?zs p") (simp add: Let_def sn_def n_def archive_bits)
  moreover have G: "grows fs fs2 dir xs ys" using grows_trans [OF X(1), of fs2 "[]"] W(2) by simp
  have "grows fs (fs2\<lparr>oom := bs\<rparr>) dir xs ys" using grows_trans [OF G, of "fs2\<lparr>oom := bs\<rparr>" "[]"] grows_oom [OF growsD(3) [OF G] C(2)] by simp
  moreover have "dir_ok (fs2\<lparr>oom := bs\<rparr>) dir ?zs (l1 @ e # l2)" by (rule dir_ok_oom [OF W(4) C(2)])
  moreover have "dir_entry_cluster (fn_file ?node) = d_cluster e \<and> unat (dir_entry_offset (fn_file ?node)) = 32 * d_idx e" if "fst (d_start e) = d_cluster e"
  proof -
    have dz: "distinct ?zs" using cst.chainD [OF dir_okD(3) [OF W(4)]] by blast
    have "p div ?N < length ?zs" "(p + n) div ?N < length ?zs" using F(3) by (auto intro!: less_mult_imp_div_less)
    then have q: "(p + n) div ?N = p div ?N" using that dz by (auto simp: e_def nth_eq_iff_index_eq)
    have N0: "0 < ?N" using E(2) by linarith
    have m: "(p + n) mod ?N = p mod ?N + n"
      using q div_mult_mod_eq [of p ?N] div_mult_mod_eq [of "p + n" ?N] by simp
    have "p mod ?N + n < ?N" unfolding m [symmetric] using N0 by simp
    then have "32 * (p mod ?N + n) < 2 ^ 17" by (rule less32) (use E(1) geom_bounds(4) [OF D(1)] in \<open>simp only:\<close>)
    then have "unat (word_of_nat (32 * (p mod ?N + n)) :: u32) = 32 * (p mod ?N + n)" by (rule unat_small32)
    then have "unat (word_of_nat (p mod ?N * 32) + word_of_nat (n * 32) :: u32) = 32 * (p mod ?N + n)"
      unfolding of_nat_add [symmetric] by (simp only: distrib_left mult.commute)
    then show ?thesis using m by (simp add: create_node_def e_def place_def q)
  qed
  ultimately show ?thesis using W(3) S(1) by (intro exI [of _ ?node] exI [of _ "fs2\<lparr>oom := bs\<rparr>"] exI [of _ ys] exI [of _ l1] exI [of _ l2] exI [of _ e] exI [of _ date] exI [of _ time])
    (auto simp: create_node_def e_def)
qed

end
