(* ===== verification/Fatfile.thy ===== *)
theory Fatfile
  imports Fatops
begin

section \<open>Files in FAT32 directories: what the calls promise\<close>

text \<open>
  The contract of \<open>fat32_lookup\<close>, \<open>fat32_readdir\<close>, \<open>fat32_create\<close>, \<open>fat32_unlink\<close> and \<open>fat32_rmdir\<close> in terms of the list of files in a directory, with the lemmas on
  deletion.
\<close>

subsection \<open>The fields of a new entry\<close>

lemma short_entry_fields:
  assumes "length sn = 11"
  shows "entry_cluster (short_entry sn attr nc date time) = nc" "load32 (short_entry sn attr nc date time) 28 = 0" "short_entry sn attr nc date time ! 11 = attr"
    "take 11 (short_entry sn attr nc date time) = sn"
proof -
  have l16: "load16 (xs @ le16 v @ ys) (length xs) = v" for xs ys v using bits_le16 [of v] by (simp add: load16_def le16_def nth_append)
  have "load16 (short_entry sn attr nc date time) 20 = ucast (drop_bit 16 nc AND 0xFFFF)"
    using l16 [of "sn @ [attr, 0, 0] @ le16 time @ le16 date @ le16 date" "ucast (drop_bit 16 nc AND 0xFFFF)"] assms by (simp add: short_entry_def)
  moreover have "load16 (short_entry sn attr nc date time) 26 = ucast (nc AND 0xFFFF)"
    using l16 [of "sn @ [attr, 0, 0] @ le16 time @ le16 date @ le16 date @ le16 (ucast (drop_bit 16 nc AND 0xFFFF)) @ le16 time @ le16 date" "ucast (nc AND 0xFFFF)"] assms
    by (simp add: short_entry_def)
  moreover have "(push_bit 16 (ucast (ucast (drop_bit 16 nc AND 0xFFFF) :: u16)) OR ucast (ucast (nc AND 0xFFFF) :: u16) :: u32) = nc"
  proof (rule bit_word_eqI)
    fix n assume n: "n < LENGTH(32)"
    have m: "(0xFFFF :: u32) = mask 16" by (simp add: mask_eq_exp_minus_1)
    show "bit (push_bit 16 (ucast (ucast (drop_bit 16 nc AND 0xFFFF) :: u16)) OR ucast (ucast (nc AND 0xFFFF) :: u16) :: u32) n = bit nc n"
      unfolding m using n by (cases "n < 16") (auto simp: bit_simps)
  qed
  ultimately show "entry_cluster (short_entry sn attr nc date time) = nc" by (simp add: entry_cluster_def)
  show "load32 (short_entry sn attr nc date time) 28 = 0" using assms by (simp add: load32_def short_entry_def le16_def le32_def nth_append)
  show "short_entry sn attr nc date time ! 11 = attr" "take 11 (short_entry sn attr nc date time) = sn" using assms by (simp_all add: short_entry_def nth_append)
qed

lemma node_of_same: "bytes_per_cluster fs' = bytes_per_cluster fs \<Longrightarrow> device_id fs' = device_id fs \<Longrightarrow> node_of fs' dir d = node_of fs dir d"
  by (simp add: node_of_def lookup_node_def)

lemma dir_lookup:
  assumes "dir_ok fs dir xs l" "dir = first_cluster (fn_file node)"
  shows "fat32_lookup node name fs = Some (map_option (node_of fs dir) (find (\<lambda>d. same_name name (d_name d)) l))"
  using lookup_ok [OF dir_okD(1,3-5) [OF assms(1)] assms(2)] .

lemma same_name_self: "length name < 256 \<Longrightarrow> same_name name name"
  by (simp add: same_name_def)

lemma find_insert: "\<not> P e \<Longrightarrow> find P (l1 @ e # l2) = find P (l1 @ l2)"
  by (induction l1) auto

lemma find_new: "\<forall>d \<in> set l1. \<not> P d \<Longrightarrow> P e \<Longrightarrow> find P (l1 @ e # l2) = Some e"
  by (induction l1) auto

text \<open>
  C36. \<open>fat32_lookup\<close> ends on every directory and finds the first file whose name is the given one up to the case of letters, long names included;
  and \<open>fat32_readdir\<close> lists the same files, in the same order: whatever name it gives out, \<open>fat32_lookup\<close> finds a file by it.
\<close>

theorem fat32_lookup_readdir:
  assumes d: "dir_ok fs dir xs l" and dir: "dir = first_cluster (fn_file node)"
  shows "fat32_lookup node name fs = Some (map_option (node_of fs dir) (find (\<lambda>d. same_name name (d_name d)) l)) \<and>
    (\<forall>k < length l. \<exists>found. fat32_readdir node (int k) 256 fs = Some (Some (d_name (l ! k), d_entry (l ! k) ! 11 AND FAT_ATTR_DIRECTORY \<noteq> 0)) \<and>
       fat32_lookup node (d_name (l ! k)) fs = Some (Some found)) \<and>
    fat32_readdir node (int (length l)) 256 fs = Some None"
proof (intro conjI allI impI)
  note D = dir_okD [OF d]
  note R = readdir_ok [OF D(1,3,4) dir, of 256]
  show "fat32_lookup node name fs = Some (map_option (node_of fs dir) (find (\<lambda>d. same_name name (d_name d)) l))" by (rule dir_lookup [OF d dir])
  show "fat32_readdir node (int (length l)) 256 fs = Some None" using R by simp
  fix k assume k: "k < length l"
  then have len: "length (d_name (l ! k)) < 255" using D(5) nth_mem unfolding names_end_def by blast
  then have "fat32_readdir node (int k) 256 fs = Some (Some (d_name (l ! k), d_entry (l ! k) ! 11 AND FAT_ATTR_DIRECTORY \<noteq> 0))"
    using R [of "int k"] k by (simp add: Let_def)
  moreover have "find (\<lambda>d. same_name (d_name (l ! k)) (d_name d)) l \<noteq> None"
    using same_name_self [of "d_name (l ! k)"] len nth_mem [OF k] by (auto simp: find_None_iff)
  ultimately show "\<exists>found. fat32_readdir node (int k) 256 fs = Some (Some (d_name (l ! k), d_entry (l ! k) ! 11 AND FAT_ATTR_DIRECTORY \<noteq> 0)) \<and>
       fat32_lookup node (d_name (l ! k)) fs = Some (Some found)" using dir_lookup [OF d dir] by auto
qed

text \<open>
  C34. A file created under a new long name is found by that name, empty, and no other name is affected: the directory gets only free clusters, and chains outside of it keep
  their links and their contents.
\<close>

theorem fat32_create_correct:
  assumes d: "dir_ok fs dir xs l" and dir: "dir = first_cluster (fn_file parent)" and lfn: "needs_lfn name"
    and name: "0 \<notin> set name" "0xE5 \<notin> set name" "0 < length name" "length name < 255" and sp: "2 \<le> card (free_clusters fs)"
    and new: "\<forall>e \<in> set l. \<not> same_name name (d_name e)"
  shows "\<exists>node fs' ys l' found. fat32_create now parent name fs = Some (Some node, fs') \<and> dir_ok fs' dir (xs @ ys) l' \<and> set ys \<subseteq> free_clusters fs \<and>
    fat32_lookup parent name fs' = Some (Some found) \<and> fn_name found = take 63 name \<and> fn_flags found = FS_FILE OR FS_TEMPORARY \<and> fn_size found = 0 \<and>
    first_cluster (fn_file found) = 0 \<and> (\<forall>n. \<not> same_name n name \<longrightarrow> fat32_lookup parent n fs' = fat32_lookup parent n fs) \<and>
    (\<forall>c zs. fchain fs c zs \<longrightarrow> set zs \<inter> set xs = {} \<longrightarrow> fchain fs' c zs \<and> contents fs' zs = contents fs zs)"
proof -
  obtain node fs' ys l1 l2 e date time sn where C: "fat32_create now parent name fs = Some (Some node, fs')" "grows fs fs' dir xs ys" "l = l1 @ l2"
    "dir_ok fs' dir (xs @ ys) (l1 @ e # l2)" "d_name e = name" "length sn = 11" "d_entry e = short_entry sn FAT_ATTR_ARCHIVE 0 date time"
    using create_file_ok [OF d dir lfn name sp] by blast
  note G = growsD [OF C(2)] and V = vol_same [OF growsD(1) [OF C(2)]] and D = dir_okD [OF d]
  let ?P = "\<lambda>n d. same_name n (d_name d)"
  note L = dir_lookup [OF C(4) dir] and L0 = dir_lookup [OF d dir]
  have nd: "node_of fs' dir = node_of fs dir" by (rule ext, rule node_of_same [OF V(3,7)])
  have "find (?P name) (l1 @ e # l2) = Some e" by (rule find_new) (use new C(3,5) name(4) same_name_self [of name] in auto)
  then have found: "fat32_lookup parent name fs' = Some (Some (node_of fs' dir e))" using L by simp
  have other: "fat32_lookup parent n fs' = fat32_lookup parent n fs" if "\<not> same_name n name" for n
    using L [of n] L0 [of n] find_insert [of "?P n" e l1 l2] that C(3,5) nd by simp
  have fields: "fn_name (node_of fs' dir e) = take 63 name" "fn_flags (node_of fs' dir e) = FS_FILE OR FS_TEMPORARY" "fn_size (node_of fs' dir e) = 0"
    "first_cluster (fn_file (node_of fs' dir e)) = 0"
    using C(5,7) short_entry_fields [OF C(6)] archive_bits by (simp_all add: node_of_def lookup_node_def Let_def)
  have chains: "fchain fs' c zs \<and> contents fs' zs = contents fs zs" if zs: "fchain fs c zs" "set zs \<inter> set xs = {}" for c zs
  proof -
    have out: "x \<notin> set (xs @ ys)" "valid fs x" if "x \<in> set zs" for x
      using that zs(2) G(4) chain_not_free(2) [OF D(1) zs(1) that] cst.chainD [OF zs(1)] by auto
    have "fchain fs' c zs" using cst.chain_stays [of fs' fs zs c] V(2) G(6) out zs(1) by simp
    moreover have "contents fs' zs = contents fs zs" by (rule contents_cong) (use G(6) out in blast)
    ultimately show ?thesis ..
  qed
  show ?thesis using C(1,4) G(4) found fields other chains by blast
qed

subsection \<open>Where a file is in its directory\<close>

abbreviation ent :: "slot \<Rightarrow> u8 list" where
  "ent s \<equiv> snd (snd s)"

abbreviation used_lfn :: "slot \<Rightarrow> bool" where
  "used_lfn s \<equiv> ent s ! 0 \<noteq> 0 \<and> ent s ! 0 \<noteq> 0xE5 \<and> ent s ! 11 = FAT_ATTR_LFN"

text \<open>Slots of a long name that is being collected: the first one starts it, the others do not start another one.\<close>

definition pending :: "slot list \<Rightarrow> u32 \<times> nat \<Rightarrow> bool" where
  "pending P pl \<longleftrightarrow> P \<noteq> [] \<and> (fst (hd P), fst (snd (hd P))) = pl \<and> (\<forall>s \<in> set P. used_lfn s) \<and> (\<forall>s \<in> set (tl P). ent s ! 0 AND 0x40 = 0)"

abbreviation resumes :: "lfn_state \<Rightarrow> slot list \<Rightarrow> dirent list \<Rightarrow> lfn_state \<Rightarrow> bool" where
  "resumes st0 A la st1 \<equiv> \<forall>X. parse st0 (A @ X) = map_option (append la) (parse st1 X)"

lemma map_append_Cons: "map_option (append la) (map_option (Cons d) y) = map_option (append (la @ [d])) y"
  by (cases y) simp_all

lemma lfn_step_cases:
  assumes "lfn_step c i e st = Some st'"
  shows "e ! 0 AND 0x40 \<noteq> 0 \<Longrightarrow> lfn_valid st' \<and> lfn_start_cluster st' = c \<and> lfn_start_idx st' = i"
    "e ! 0 AND 0x40 = 0 \<Longrightarrow> lfn_valid st \<Longrightarrow> lfn_valid st' \<and> lfn_start_cluster st' = lfn_start_cluster st \<and> lfn_start_idx st' = lfn_start_idx st"
    "e ! 0 AND 0x40 = 0 \<Longrightarrow> \<not> lfn_valid st \<Longrightarrow> st' = st"
  using assms by (auto simp: lfn_step_def Let_def split: if_splits option.splits)

text \<open>
  \<open>d\<close> is the file that follows the list \<open>lx\<close>: the slots in front of it give \<open>lx\<close>, whatever follows them, those of its long name come next, and those behind it give \<open>l2\<close>.
\<close>

definition split_at :: "lfn_state \<Rightarrow> slot list \<Rightarrow> dirent list \<Rightarrow> dirent \<Rightarrow> dirent list \<Rightarrow> bool" where
  "split_at st0 ss lx d l2 \<longleftrightarrow> (\<exists>A G B st1. ss = A @ G @ (d_cluster d, d_idx d, d_entry d) # B \<and> resumes st0 A lx st1 \<and> (\<forall>s \<in> set A. ent s ! 0 \<noteq> 0) \<and>
     d_entry d ! 0 \<noteq> 0 \<and> (G = [] \<and> d_start d = (d_cluster d, d_idx d) \<or> pending G (d_start d)) \<and> (\<forall>st'. \<not> lfn_valid st' \<longrightarrow> parse st' B = Some l2))"

lemma parse_split_from:
  assumes "\<exists>st1. resumes st0 K la st1" "resumes st0 (K @ P) la st" "lfn_valid st \<Longrightarrow> pending P (lfn_start_cluster st, lfn_start_idx st)"
    "parse st ss = Some (l1 @ d # l2)" "\<forall>s \<in> set (K @ P). ent s ! 0 \<noteq> 0"
  shows "split_at st0 (K @ P @ ss) (la @ l1) d l2"
  using assms
proof (induction ss arbitrary: K P la st l1)
  case (Cons s ss)
  obtain c i e where s: "s = (c, i, e)" by (cases s)
  let ?off = "st\<lparr>lfn_valid := False\<rparr>"
  have e0: "e ! 0 \<noteq> 0" using Cons.prems(4) by (auto simp: s)
  have nz: "\<forall>x \<in> set (K @ P @ [s]). ent x ! 0 \<noteq> 0" using Cons.prems(5) e0 by (auto simp: s)
  have step: "resumes st0 (K @ P @ [s]) la st'" if "\<And>X. parse st (s # X) = parse st' X" for st'
    using Cons.prems(2) that by simp
  consider (del) "e ! 0 = 0xE5" | (first) "e ! 0 \<noteq> 0xE5" "e ! 11 = FAT_ATTR_LFN" "e ! 0 AND 0x40 \<noteq> 0"
    | (more) "e ! 0 \<noteq> 0xE5" "e ! 11 = FAT_ATTR_LFN" "e ! 0 AND 0x40 = 0" | (short) "e ! 0 \<noteq> 0xE5" "e ! 11 \<noteq> FAT_ATTR_LFN" by blast
  then show ?case
  proof cases
    case del
    then have p: "parse st (s # X) = parse ?off X" for X by (simp add: s)
    have "split_at st0 ((K @ P @ [s]) @ [] @ ss) (la @ l1) d l2"
      by (rule Cons.IH [of _ _ _ ?off]) (use step [OF p] Cons.prems(4) p nz in auto)
    then show ?thesis by simp
  next
    case first
    obtain st' where st': "lfn_step c i e st = Some st'" using Cons.prems(4) first e0 by (auto simp: s split: option.splits)
    have p: "parse st (s # X) = parse st' X" for X using first e0 st' by (simp add: s)
    have pe: "pending [s] (lfn_start_cluster st', lfn_start_idx st')" using lfn_step_cases(1) [OF st'] first e0 by (simp add: pending_def s)
    have r: "\<exists>st1. resumes st0 (K @ P) la st1" using Cons.prems(2) by blast
    have "split_at st0 ((K @ P) @ [s] @ ss) (la @ l1) d l2"
      by (rule Cons.IH [OF r, of _ st']) (use step [OF p] pe Cons.prems(4) p nz in auto)
    then show ?thesis by simp
  next
    case more
    obtain st' where st': "lfn_step c i e st = Some st'" using Cons.prems(4) more e0 by (auto simp: s split: option.splits)
    have p: "parse st (s # X) = parse st' X" for X using more e0 st' by (simp add: s)
    show ?thesis
    proof (cases "lfn_valid st")
      case True
      note L = lfn_step_cases(2) [OF st' more(3) True]
      have pe: "pending (P @ [s]) (lfn_start_cluster st', lfn_start_idx st')"
        using Cons.prems(3) [OF True] L more e0 by (auto simp: pending_def s)
      have "split_at st0 (K @ (P @ [s]) @ ss) (la @ l1) d l2"
        by (rule Cons.IH [OF Cons.prems(1), of _ st']) (use step [OF p] pe Cons.prems(4) p nz in auto)
      then show ?thesis by simp
    next
      case False
      have q: "st' = st" by (rule lfn_step_cases(3) [OF st' more(3) False])
      have "split_at st0 ((K @ P @ [s]) @ [] @ ss) (la @ l1) d l2"
        by (rule Cons.IH [of _ _ _ st]) (use step [OF p] q False Cons.prems(4) p nz in auto)
      then show ?thesis by simp
    qed
  next
    case short
    let ?d = "dirent_of c i e st"
    have p: "parse st (s # X) = map_option (Cons ?d) (parse ?off X)" for X using short e0 by (simp add: s)
    obtain l where l: "parse ?off ss = Some l" "l1 @ d # l2 = ?d # l" using Cons.prems(4) p by auto
    show ?thesis
    proof (cases l1)
      case Nil
      then have d: "d = ?d" "l2 = l" using l by simp_all
      have f: "d_cluster d = c" "d_idx d = i" "d_entry d = e" by (simp_all add: d dirent_of_def)
      have l2: "parse st' ss = Some l2" if "\<not> lfn_valid st'" for st' using parse_invalid [of st' ?off ss] that l(1) d(2) by simp
      show ?thesis
      proof (cases "has_long e st")
        case True
        then have "lfn_valid st" by (simp add: has_long_def)
        then have "pending P (d_start d)" using Cons.prems(3) True by (simp add: d dirent_of_def)
        moreover obtain st1 where "resumes st0 K la st1" using Cons.prems(1) by blast
        ultimately show ?thesis unfolding split_at_def using Nil f l2 e0 nz
          by (intro exI [of _ K] exI [of _ P] exI [of _ ss] exI [of _ st1]) (simp add: s)
      next
        case False
        then have "d_start d = (c, i)" by (simp add: d dirent_of_def)
        then show ?thesis unfolding split_at_def using Nil f l2 e0 Cons.prems(2) nz
          by (intro exI [of _ "K @ P"] exI [of _ "[]"] exI [of _ ss] exI [of _ st]) (simp add: s)
      qed
    next
      case (Cons d0 l1')
      have r: "resumes st0 (K @ P @ [s]) (la @ [?d]) ?off"
      proof
        fix X
        show "parse st0 ((K @ P @ [s]) @ X) = map_option (append (la @ [?d])) (parse ?off X)"
          using Cons.prems(2) [rule_format, of "s # X"] unfolding p map_append_Cons by simp
      qed
      have "split_at st0 ((K @ P @ [s]) @ [] @ ss) ((la @ [?d]) @ l1') d l2"
      proof (rule Cons.IH [of _ _ _ ?off])
        show "\<exists>st1. resumes st0 (K @ P @ [s]) (la @ [?d]) st1" using r by blast
        show "resumes st0 ((K @ P @ [s]) @ []) (la @ [?d]) ?off" unfolding append_Nil2 by (rule r)
      qed (use l Cons nz in auto)
      then show ?thesis using l(2) Cons by simp
    qed
  qed
qed simp

lemma parse_split:
  assumes "parse st0 ss = Some (l1 @ d # l2)" "\<not> lfn_valid st0"
  shows "split_at st0 ss l1 d l2"
proof -
  have r: "resumes st0 [] [] st0"
  proof
    show "parse st0 ([] @ X) = map_option (append []) (parse st0 X)" for X by (cases "parse st0 X") simp_all
  qed
  then have "\<exists>st1. resumes st0 [] [] st1" by blast
  from parse_split_from [OF this, of "[]" st0 ss l1 d l2] r assms show ?thesis by simp
qed

subsection \<open>Marking slots as deleted\<close>

lemma entry_update:
  "take 32 (drop (32 * k) (b[32 * j := x])) = (if k = j then (take 32 (drop (32 * k) b))[0 := x] else take 32 (drop (32 * k) b))"
proof (cases "j < k")
  case True
  then show ?thesis by simp
next
  case False
  then have "drop (32 * k) (b[32 * j := x]) = (drop (32 * k) b)[32 * j - 32 * k := x]" by (simp add: drop_update_swap)
  moreover have "32 \<le> 32 * j - 32 * k" if "k \<noteq> j" using False that by linarith
  ultimately show ?thesis by (auto simp: take_update_swap list_update_beyond)
qed

lemma mark_deleted_simps [simp]: "mark_deleted [] b = b" "mark_deleted (j # js) b = mark_deleted js (b[32 * j := 0xE5])"
  by (simp_all add: mark_deleted_def)

lemma length_mark_deleted [simp]: "length (mark_deleted js b) = length b"
  by (induction js arbitrary: b) simp_all

lemma entry_mark:
  "take 32 (drop (32 * k) (mark_deleted js b)) = (if k \<in> set js then (take 32 (drop (32 * k) b))[0 := 0xE5] else take 32 (drop (32 * k) b))"
  by (induction js arbitrary: b) (auto simp: entry_update)

definition mark_slot :: "(u32 \<times> nat) set \<Rightarrow> slot \<Rightarrow> slot" where
  "mark_slot M s = (case s of (c, i, e) \<Rightarrow> (c, i, if (c, i) \<in> M then e[0 := 0xE5] else e))"

lemma slots_marked:
  assumes "bytes_per_cluster fs' = bytes_per_cluster fs"
    "\<And>x. x \<in> set xs \<Longrightarrow> \<exists>js. data fs' x = mark_deleted js (data fs x) \<and> (\<forall>i < epc fs. i \<in> set js \<longleftrightarrow> (x, i) \<in> M)"
  shows "slots fs' xs = map (mark_slot M) (slots fs xs)"
  using assms(2)
proof (induction xs)
  case (Cons x xs)
  obtain js where js: "data fs' x = mark_deleted js (data fs x)" "\<forall>i < epc fs. i \<in> set js \<longleftrightarrow> (x, i) \<in> M" using Cons.prems by auto
  have "slots_of fs' x = map (mark_slot M) (slots_of fs x)"
    using js by (simp add: slots_of_def assms(1) mark_slot_def entry_mark)
  then show ?case using Cons by simp
qed simp

text \<open>The result of a walk comes from an entry in the buffer that is left.\<close>

lemma scan_entries_result: "scan_entries v c i es st a = Some (Inl (Some r)) \<Longrightarrow> \<exists>i e st a. v c i e st a = Some (Inl r)"
  by (induction v c i es st a rule: scan_entries.induct) (auto split: if_splits option.splits sum.splits)

lemma scan_dir_result:
  assumes g: "geom fs"
  shows "linked (get_next_cluster fs) c xs \<Longrightarrow> \<forall>x \<in> set xs. valid fs x \<Longrightarrow> length buf = csize fs \<Longrightarrow> scan_dir v fs c st a buf = Some (Some r, b) \<Longrightarrow>
    \<exists>x \<in> set xs. b = data fs x \<and> (\<exists>i e st a. v x i e st a = Some (Inl r))"
proof (induction xs arbitrary: c st a buf)
  case (Cons x xs)
  have x: "c = x" "valid fs x" using Cons.prems(1,2) linked_head by fastforce+
  have lt: "c < FAT_EOC" using cst.good_number [OF g x(2)] x by simp
  have rc: "read_cluster fs c buf = data fs x" using read_cluster_eq [OF g x(2) Cons.prems(3)] x by simp
  have step: "scan_dir v fs c st a buf = (case scan_entries v c 0 (entries (epc fs) (data fs x)) st a of
      None \<Rightarrow> None | Some (Inl r) \<Rightarrow> Some (r, data fs x) | Some (Inr (st, a)) \<Rightarrow> scan_dir v fs (get_next_cluster fs c) st a (data fs x))"
    using lt by (subst scan_dir.simps) (simp add: rc Let_def)
  obtain q where q: "scan_entries v c 0 (entries (epc fs) (data fs x)) st a = Some q" using Cons.prems(4) step by (auto split: option.splits)
  show ?case
  proof (cases q)
    case (Inl r')
    then have "b = data fs x" "scan_entries v c 0 (entries (epc fs) (data fs x)) st a = Some (Inl (Some r))" using Cons.prems(4) step q by simp_all
    then show ?thesis using scan_entries_result x by fastforce
  next
    case (Inr z)
    obtain st' a' where z: "z = (st', a')" by (cases z)
    have s: "scan_dir v fs (get_next_cluster fs c) st' a' (data fs x) = Some (Some r, b)" using Cons.prems(4) step q Inr z by simp
    show ?thesis
    proof (cases xs)
      case Nil
      then have "\<not> get_next_cluster fs c < FAT_EOC" using Cons.prems(1) x by (simp add: not_less)
      then show ?thesis using s by (subst (asm) scan_dir.simps) simp
    next
      case (Cons y ys)
      then have "linked (get_next_cluster fs) (get_next_cluster fs c) xs" using Cons.prems(1) x by simp
      then show ?thesis using Cons.IH [OF _ _ _ s] Cons.prems(2) by auto
    qed
  qed
qed simp

definition delete_item :: "dirent \<Rightarrow> u32 \<times> nat \<times> u8 list \<times> u32 \<times> nat" where
  "delete_item d = (d_cluster d, d_idx d, d_entry d, fst (d_start d), snd (d_start d))"

lemma delete_walk:
  assumes "dir_ok fs dir xs l" "find (\<lambda>d. same_name name (d_name d)) l = Some d"
  shows "walk_dir (delete_visit name) () dir fs = Some (Some (delete_item d), data fs (d_cluster d)) \<and> d_cluster d \<in> set xs"
proof -
  note D = dir_okD [OF assms(1)]
  let ?v = "\<lambda>d a. if length (d_name d) \<ge> 255 then None else if same_name name (d_name d) then Some (Inl (delete_item d)) else Some (Inr ())"
  have "map_option fst (walk_dir (delete_visit name) () dir fs) = visits ?v l ()"
    by (rule walk_dir_parse [OF D(1,3,4)]) (simp add: delete_visit_def dirent_of_def delete_item_def Let_def split: if_split)
  moreover have "visits ?v l () = Some (map_option delete_item (find (\<lambda>d. same_name name (d_name d)) l))"
    using D(5) by (induction l) (auto simp: names_end_def)
  ultimately obtain b where b: "walk_dir (delete_visit name) () dir fs = Some (Some (delete_item d), b)" using assms(2) by auto
  then obtain x i e st a where x: "x \<in> set xs" "b = data fs x" "delete_visit name x i e st a = Some (Inl (delete_item d))"
    using scan_dir_result [OF D(1), of dir xs "new_buf (csize fs) fs" "delete_visit name" "lfn_init fs" "()" "delete_item d" b] D(3)
    unfolding walk_dir_def by (auto simp: chain_def new_buf_def)
  then have "x = d_cluster d" by (auto simp: delete_visit_def delete_item_def Let_def split: if_splits)
  then show ?thesis using b x by simp
qed

subsection \<open>The list of files after a deletion\<close>

definition tidy_slots :: "slot list \<Rightarrow> bool" where
  "tidy_slots ss \<longleftrightarrow> (\<forall>k k'. k \<le> k' \<longrightarrow> k' < length ss \<longrightarrow> ent (ss ! k) ! 0 = 0 \<longrightarrow> ent (ss ! k') ! 0 = 0)"

lemma tidy_view: "length C = 32 * (length zs * N) \<Longrightarrow> tidy C = tidy_slots (view N zs C)"
  unfolding tidy_def tidy_slots_def using view_first [of _ zs N C] by simp

lemma tidy_append: "\<forall>s \<in> set U. ent s ! 0 \<noteq> 0 \<Longrightarrow> tidy_slots (U @ B) = tidy_slots B"
proof
  assume U: "\<forall>s \<in> set U. ent s ! 0 \<noteq> 0"
  show "tidy_slots B" if "tidy_slots (U @ B)"
    unfolding tidy_slots_def
  proof (intro allI impI)
    fix k k' assume "k \<le> k'" "k' < length B" "ent (B ! k) ! 0 = 0"
    then show "ent (B ! k') ! 0 = 0" using that [unfolded tidy_slots_def, rule_format, of "length U + k" "length U + k'"] by simp
  qed
  show "tidy_slots (U @ B)" if "tidy_slots B"
    unfolding tidy_slots_def
  proof (intro allI impI)
    fix k k' assume k: "k \<le> k'" "k' < length (U @ B)" "ent ((U @ B) ! k) ! 0 = 0"
    have "\<not> k < length U" using k(3) U by (auto simp: nth_append)
    then show "ent ((U @ B) ! k') ! 0 = 0" using that [unfolded tidy_slots_def, rule_format, of "k - length U" "k' - length U"] k by (simp add: nth_append)
  qed
qed

lemma parse_skip:
  assumes "\<not> lfn_valid st" "\<forall>s \<in> set H. ent s ! 0 = 0xE5 \<or> used_lfn s \<and> ent s ! 0 AND 0x40 = 0"
  shows "parse st (H @ X) = parse st X"
  using assms(2)
proof (induction H)
  case (Cons s H)
  obtain c i e where s: "s = (c, i, e)" by (cases s)
  have off: "st\<lparr>lfn_valid := False\<rparr> = st" using assms(1) by simp
  have "lfn_step c i e st = Some st" if "e ! 0 AND 0x40 = 0" using that assms(1) by (simp add: lfn_step_def)
  then show ?case using Cons off by (auto simp: s)
qed simp

text \<open>The slots of the file are marked, the first and the last of them for certain, and no others.\<close>

lemma parse_marked:
  assumes d: "split_at st0 ss l1 d l2" and t: "tidy_slots ss"
    and M: "\<And>A G B. ss = A @ G @ (d_cluster d, d_idx d, d_entry d) # B \<Longrightarrow> G = [] \<and> d_start d = (d_cluster d, d_idx d) \<or> pending G (d_start d) \<Longrightarrow>
      (\<forall>s \<in> set (A @ B). (fst s, fst (snd s)) \<notin> M) \<and> (d_cluster d, d_idx d) \<in> M \<and> d_start d \<in> M"
    and len: "\<forall>s \<in> set ss. ent s \<noteq> []"
  shows "parse st0 (map (mark_slot M) ss) = Some (l1 @ l2) \<and> tidy_slots (map (mark_slot M) ss)"
proof -
  obtain A G B st1 where S: "ss = A @ G @ (d_cluster d, d_idx d, d_entry d) # B" "resumes st0 A l1 st1" "\<forall>s \<in> set A. ent s ! 0 \<noteq> 0"
    "d_entry d ! 0 \<noteq> 0" "G = [] \<and> d_start d = (d_cluster d, d_idx d) \<or> pending G (d_start d)" "\<forall>st'. \<not> lfn_valid st' \<longrightarrow> parse st' B = Some l2"
    using d unfolding split_at_def by blast
  note M' = M [OF S(1,5)]
  let ?x = "(d_cluster d, d_idx d, (d_entry d)[0 := 0xE5])" and ?H = "map (mark_slot M) G"
  have id: "mark_slot M s = s" if "s \<in> set (A @ B)" for s using M' that by (cases s) (force simp: mark_slot_def)
  have "map (mark_slot M) A = A" "map (mark_slot M) B = B" by (rule map_idI, use id in simp)+
  then have ss: "map (mark_slot M) ss = A @ ?H @ ?x # B" unfolding S(1) using M' by (simp add: mark_slot_def)
  have x: "ent ?x ! 0 = 0xE5" using len S(1) by simp
  have marked: "ent (mark_slot M s) ! 0 = 0xE5 \<or> mark_slot M s = s" if "s \<in> set G" for s
  proof -
    obtain c i e where s: "s = (c, i, e)" by (cases s)
    have "s \<in> set ss" using that S(1) by simp
    then have "e \<noteq> []" using len s by fastforce
    then show ?thesis by (simp add: s mark_slot_def)
  qed
  have px: "parse st' (?x # B) = Some l2" for st' using x S(6) by simp
  have H: "parse st1 (?H @ ?x # B) = Some l2"
  proof (cases G)
    case Nil
    then show ?thesis using px by simp
  next
    case (Cons g G')
    then have p: "pending G (d_start d)" using S(5) by simp
    have "(fst g, fst (snd g)) \<in> M" using p M' Cons by (simp add: pending_def)
    moreover have "ent g \<noteq> []" using len S(1) Cons by simp
    ultimately have g: "ent (mark_slot M g) ! 0 = 0xE5" by (cases g) (simp add: mark_slot_def)
    let ?off = "st1\<lparr>lfn_valid := False\<rparr>"
    have "parse st1 (?H @ ?x # B) = parse ?off (map (mark_slot M) G' @ ?x # B)" using g Cons by (cases "mark_slot M g") simp
    also have "\<dots> = parse ?off (?x # B)"
    proof (rule parse_skip)
      show "\<forall>s \<in> set (map (mark_slot M) G'). ent s ! 0 = 0xE5 \<or> used_lfn s \<and> ent s ! 0 AND 0x40 = 0"
      proof
        fix s assume "s \<in> set (map (mark_slot M) G')"
        then obtain s0 where s0: "s0 \<in> set G'" "s = mark_slot M s0" by auto
        then have "used_lfn s0 \<and> ent s0 ! 0 AND 0x40 = 0" using p Cons by (simp add: pending_def)
        then show "ent s ! 0 = 0xE5 \<or> used_lfn s \<and> ent s ! 0 AND 0x40 = 0" using marked [of s0] s0 Cons by auto
      qed
    qed simp
    finally show ?thesis using px by simp
  qed
  have Hnz: "ent s ! 0 \<noteq> 0" if ms: "s \<in> set ?H" for s
  proof -
    obtain s0 where s0: "s0 \<in> set G" "s = mark_slot M s0" using ms by auto
    then have "ent s0 ! 0 \<noteq> 0" using S(5) by (auto simp: pending_def)
    then show ?thesis using marked [OF s0(1)] s0(2) by auto
  qed
  have nz: "\<forall>s \<in> set (A @ G @ [(d_cluster d, d_idx d, d_entry d)]). ent s ! 0 \<noteq> 0"
    using S(3,4,5) by (auto simp: pending_def)
  have nz': "\<forall>s \<in> set (A @ ?H @ [?x]). ent s ! 0 \<noteq> 0"
    unfolding set_append ball_Un by (intro conjI ballI, use S(3) in blast, erule Hnz, use x in simp)
  have "tidy_slots B" using t tidy_append [OF nz, of B] by (simp add: S(1))
  then have "tidy_slots (map (mark_slot M) ss)" using tidy_append [OF nz', of B] by (simp add: ss)
  moreover have "parse st0 (map (mark_slot M) ss) = Some (l1 @ l2)" unfolding ss using S(2) H by simp
  ultimately show ?thesis by blast
qed

text \<open>The places that \<open>delete_dir_entries\<close> marks.\<close>

definition marks :: "fat32_fs \<Rightarrow> dirent \<Rightarrow> (u32 \<times> nat) set" where
  "marks fs d = insert (d_cluster d, d_idx d) {(c, j). c = fst (d_start d) \<and> snd (d_start d) \<le> j \<and> j < (if fst (d_start d) = d_cluster d then d_idx d else epc fs)}"

lemma slot_nth:
  assumes "geom fs" "k < length (slots fs xs)"
  shows "fst (slots fs xs ! k) = xs ! (k div epc fs)" "fst (snd (slots fs xs ! k)) = k mod epc fs" "k div epc fs < length xs" "length (ent (slots fs xs ! k)) = 32"
proof -
  have k: "k < length xs * epc fs" using assms by (simp add: slots_view)
  show "fst (slots fs xs ! k) = xs ! (k div epc fs)" "fst (snd (slots fs xs ! k)) = k mod epc fs" using k by (simp_all add: slots_view [OF assms(1)] view_def)
  show "k div epc fs < length xs" using k by (rule less_mult_imp_div_less)
  have "length (contents fs xs) = 32 * (length xs * epc fs)" using epc_facts(1) [OF assms(1)] by simp
  moreover have "32 * k + 32 \<le> 32 * (length xs * epc fs)" using k by linarith
  ultimately have "32 * k + 32 \<le> length (contents fs xs)" by (simp only:)
  then show "length (ent (slots fs xs ! k)) = 32" using k by (simp add: slots_view [OF assms(1)] view_def)
qed

lemma same_div:
  fixes a b n :: nat
  assumes "a div n = b div n"
  shows "a mod n = b mod n \<Longrightarrow> a = b" "a mod n \<le> b mod n \<Longrightarrow> a \<le> b" "a mod n < b mod n \<Longrightarrow> a < b"
proof -
  have e: "a = a div n * n + a mod n" "b = a div n * n + b mod n" using div_mult_mod_eq [of a n] div_mult_mod_eq [of b n] assms by metis+
  show "a mod n = b mod n \<Longrightarrow> a = b" "a mod n \<le> b mod n \<Longrightarrow> a \<le> b" "a mod n < b mod n \<Longrightarrow> a < b" using e by linarith+
qed

lemma marks_between:
  assumes g: "geom fs" and xs: "distinct xs" and ss: "slots fs xs = A @ G @ (d_cluster d, d_idx d, d_entry d) # B"
    and G: "G = [] \<and> d_start d = (d_cluster d, d_idx d) \<or> pending G (d_start d)"
  shows "(\<forall>s \<in> set (A @ B). (fst s, fst (snd s)) \<notin> marks fs d) \<and> (d_cluster d, d_idx d) \<in> marks fs d \<and> d_start d \<in> marks fs d"
proof -
  define N where N: "N = epc fs"
  let ?s = "length A" and ?q = "length A + length G"
  let ?pl = "\<lambda>k. (xs ! (k div N), k mod N)"
  have pl: "(fst (slots fs xs ! k), fst (snd (slots fs xs ! k))) = ?pl k" "k div N < length xs" if "k < length (slots fs xs)" for k
    using slot_nth [OF g that, folded N] by simp_all
  have len: "length (slots fs xs) = ?q + 1 + length B" by (simp add: ss)
  have q: "(d_cluster d, d_idx d) = ?pl ?q" using pl(1) [of ?q] len by (simp add: ss nth_append)
  have s: "d_start d = ?pl ?s"
  proof (cases G)
    case Nil
    then show ?thesis using G q by (simp add: pending_def)
  next
    case (Cons g G')
    then have "slots fs xs ! ?s = g" by (simp add: ss nth_append)
    then show ?thesis using G Cons pl(1) [of ?s] len by (simp add: pending_def)
  qed
  have idx: "a div N = b div N" if "xs ! (a div N) = xs ! (b div N)" "a < length (slots fs xs)" "b < length (slots fs xs)" for a b
    using that pl(2) xs by (simp add: nth_eq_iff_index_eq)
  have N0: "0 < N" using epc_facts(2) [OF g, folded N] by linarith
  have bt: "?s \<le> k \<and> k \<le> ?q" if k: "k < length (slots fs xs)" and m: "?pl k \<in> marks fs d" for k
  proof (cases "?pl k = (d_cluster d, d_idx d)")
    case True
    then have "k div N = ?q div N" "k mod N = ?q mod N" using q idx [of k ?q] k len by simp_all
    then have "k = ?q" by (rule same_div(1))
    then show ?thesis by simp
  next
    case False
    then have m': "xs ! (k div N) = fst (d_start d)" "snd (d_start d) \<le> k mod N" "k mod N < (if fst (d_start d) = d_cluster d then d_idx d else N)"
      using m by (auto simp: marks_def N [symmetric] split: if_splits)
    have ks: "k div N = ?s div N" using idx [of k ?s] m'(1) s k len by simp
    have "?s \<le> k" using same_div(2) [OF ks [symmetric]] m'(2) s by simp
    moreover have "k \<le> ?q"
    proof (cases "fst (d_start d) = d_cluster d")
      case True
      then have "?s div N = ?q div N" using s q idx [of ?s ?q] len by simp
      then show ?thesis using same_div(3) [of k N ?q] ks m'(3) True q by simp
    next
      case False
      then have "?s div N \<noteq> ?q div N" using s q by auto
      moreover have "?s div N \<le> ?q div N" by (rule div_le_mono) simp
      ultimately have "k div N < ?q div N" using ks by simp
      then show ?thesis using div_le_mono [of ?q k N] by (cases "k \<le> ?q") auto
    qed
    ultimately show ?thesis ..
  qed
  have "(fst x, fst (snd x)) \<notin> marks fs d" if x: "x \<in> set (A @ B)" for x
  proof
    assume m: "(fst x, fst (snd x)) \<in> marks fs d"
    obtain k where k: "k < length (slots fs xs)" "slots fs xs ! k = x" "k < ?s \<or> ?q < k"
    proof -
      consider j where "j < length A" "x = A ! j" | j where "j < length B" "x = B ! j" using x by (auto simp: in_set_conv_nth)
      then show thesis
      proof cases
        case 1
        then show thesis using that [of j] len by (simp add: ss nth_append)
      next
        case 2
        then show thesis using that [of "?q + 1 + j"] len by (simp add: ss nth_append)
      qed
    qed
    have "?pl k \<in> marks fs d" using pl(1) [OF k(1)] k(2) m by simp
    then show False using bt [OF k(1)] k(3) by simp
  qed
  moreover have "d_start d \<in> marks fs d"
  proof (cases "?s = ?q")
    case True
    then show ?thesis using s q by (simp add: marks_def)
  next
    case False
    have "snd (d_start d) < d_idx d" if "fst (d_start d) = d_cluster d"
    proof -
      have "?s div N = ?q div N" using that s q idx [of ?s ?q] len by simp
      moreover have "?s < ?q" using False by simp
      ultimately have "\<not> ?q mod N \<le> ?s mod N" using same_div(2) [of ?q N ?s] by auto
      then show ?thesis using s q by simp
    qed
    then show ?thesis using s N0 by (cases "d_start d") (auto simp: marks_def N [symmetric])
  qed
  ultimately show ?thesis by (simp add: marks_def)
qed

subsection \<open>Deleting a file\<close>

lemma write_frame:
  assumes g: "geom fs" and v: "valid fs c" and b: "length b = csize fs"
  shows "vol (write_cluster c b fs) = vol fs" "oom (write_cluster c b fs) = oom fs"
    "\<And>x. valid fs x \<Longrightarrow> get_next_cluster (write_cluster c b fs) x = get_next_cluster fs x \<and> data (write_cluster c b fs) x = (if x = c then b else data fs x)"
  using vol_write [OF g v b] cst.nx_put [OF g v b] cst.dat_put [OF g v b] by simp_all

lemma mark_deleted_append: "mark_deleted ks (mark_deleted js b) = mark_deleted (js @ ks) b"
  by (simp add: mark_deleted_def)

text \<open>What \<open>delete_dir_entries\<close> writes before it frees the clusters of the file.\<close>

definition delete_write :: "dirent \<Rightarrow> fat32_fs \<Rightarrow> fat32_fs" where
  "delete_write d fs =
     (let c = d_cluster d; i = d_idx d; (sc, si) = d_start d; buf = mark_deleted [i] (data fs c);
          (buf, fs) = (if sc = c then (mark_deleted [si..<i] buf, fs)
            else (buf, write_cluster sc (mark_deleted [si..<epc fs] (read_cluster fs sc (new_buf (csize fs) fs))) fs))
      in write_cluster c buf fs)"

definition marked_in :: "fat32_fs \<Rightarrow> fat32_fs \<Rightarrow> dirent \<Rightarrow> bool" where
  "marked_in fs fs' d \<longleftrightarrow> vol fs' = vol fs \<and> oom fs' = oom fs \<and> (\<forall>x. valid fs x \<longrightarrow> get_next_cluster fs' x = get_next_cluster fs x \<and>
     (\<exists>js. data fs' x = mark_deleted js (data fs x) \<and> (\<forall>i < epc fs. i \<in> set js \<longleftrightarrow> (x, i) \<in> marks fs d) \<and>
       (x \<noteq> d_cluster d \<longrightarrow> x \<noteq> fst (d_start d) \<longrightarrow> js = [])))"

lemma delete_write_ok:
  assumes g: "geom fs" and v: "valid fs (d_cluster d)" "valid fs (fst (d_start d))"
  shows "marked_in fs (delete_write d fs) d"
proof (cases "fst (d_start d) = d_cluster d")
  let ?c = "d_cluster d" and ?i = "d_idx d" and ?sc = "fst (d_start d)" and ?si = "snd (d_start d)"
  case True
  have e: "delete_write d fs = write_cluster ?c (mark_deleted (?i # [?si..<?i]) (data fs ?c)) fs"
    using True by (simp add: delete_write_def split_beta Let_def)
  note W = write_frame [OF g v(1), of "mark_deleted (?i # [?si..<?i]) (data fs ?c)", folded e]
  show ?thesis unfolding marked_in_def
  proof (intro conjI allI impI)
    fix x assume x: "valid fs x"
    show "\<exists>js. data (delete_write d fs) x = mark_deleted js (data fs x) \<and> (\<forall>i < epc fs. i \<in> set js \<longleftrightarrow> (x, i) \<in> marks fs d) \<and> (x \<noteq> ?c \<longrightarrow> x \<noteq> ?sc \<longrightarrow> js = [])"
      by (rule exI [of _ "if x = ?c then ?i # [?si..<?i] else []"]) (use W(3) [OF _ x] True in \<open>auto simp: marks_def\<close>)
  qed (use W in simp_all)
next
  let ?c = "d_cluster d" and ?i = "d_idx d" and ?sc = "fst (d_start d)" and ?si = "snd (d_start d)"
  case False
  have rc: "read_cluster fs ?sc (new_buf (csize fs) fs) = data fs ?sc" by (rule read_cluster_eq [OF g v(2)]) (simp add: new_buf_def)
  define fs1 where "fs1 = write_cluster ?sc (mark_deleted [?si..<epc fs] (data fs ?sc)) fs"
  note W1 = write_frame [OF g v(2), of "mark_deleted [?si..<epc fs] (data fs ?sc)", folded fs1_def]
  have V1: "geom fs1" "valid fs1 = valid fs" "csize fs1 = csize fs" using vol_same [OF W1(1)] g by simp_all
  have e: "delete_write d fs = write_cluster ?c (mark_deleted [?i] (data fs ?c)) fs1"
    using False rc by (simp add: delete_write_def split_beta Let_def fs1_def)
  note W = write_frame [OF V1(1), of ?c "mark_deleted [?i] (data fs ?c)", folded e]
  show ?thesis unfolding marked_in_def
  proof (intro conjI allI impI)
    fix x assume x: "valid fs x"
    show "\<exists>js. data (delete_write d fs) x = mark_deleted js (data fs x) \<and> (\<forall>i < epc fs. i \<in> set js \<longleftrightarrow> (x, i) \<in> marks fs d) \<and> (x \<noteq> ?c \<longrightarrow> x \<noteq> ?sc \<longrightarrow> js = [])"
      by (rule exI [of _ "if x = ?c then [?i] else if x = ?sc then [?si..<epc fs] else []"])
        (use W(3) [of x] W1(3) [OF _ x] V1 v x False in \<open>auto simp: marks_def\<close>)
  qed (use W W1 V1 v in simp_all)
qed

lemma slots_cluster: "s \<in> set (slots fs xs) \<Longrightarrow> fst s \<in> set xs"
  by (auto simp: slots_def slots_of_def)

lemma free_chain_oom:
  assumes "free_cluster_chain c fs = Some fs'"
  shows "oom fs' = oom fs"
  by (rule free_cluster_chain.raw_induct [OF _ assms]) (auto simp: set_cluster_value_def dev_write_def Let_def split: if_splits)

lemma dir_ok_frame:
  assumes d: "dir_ok fs dir xs l" and V: "vol fs' = vol fs" and m: "mem_ok fs'"
    and x: "\<And>x. x \<in> set xs \<Longrightarrow> valid fs x \<Longrightarrow> get_next_cluster fs' x = get_next_cluster fs x \<and> data fs' x = data fs x"
  shows "dir_ok fs' dir xs l"
proof -
  note D = dir_okD [OF d] and V1 = vol_same [OF V] and C = cst.chainD [OF dir_okD(3) [OF d]]
  have s1: "slots fs' xs = slots fs xs" by (rule slots_cong) (use x C V1(3) in auto)
  have s2: "contents fs' xs = contents fs xs" by (rule contents_cong) (use x C in auto)
  have "fchain fs' dir xs" using cst.chain_stays [of fs' fs xs dir] V1(2) x D(3) by simp
  moreover have "parse (lfn_init fs') (slots fs xs) = parse (lfn_init fs) (slots fs xs)" by (rule parse_invalid) (simp_all add: lfn_init_def)
  ultimately show ?thesis using D V1 m s1 s2 by (simp add: dir_ok_def dir_entries_def)
qed

lemma delete_eq:
  assumes "dir_ok fs dir xs l" "find (\<lambda>d. same_name name (d_name d)) l = Some d"
  shows "delete_dir_entries dir name fs = (if entry_cluster (d_entry d) \<ge> 2
    then case free_cluster_chain (entry_cluster (d_entry d)) (delete_write d fs) of None \<Rightarrow> None | Some fs \<Rightarrow> Some (True, fs) else Some (True, delete_write d fs))"
proof -
  obtain sc si where s: "d_start d = (sc, si)" by fastforce
  have w: "walk_dir (delete_visit name) () dir fs = Some (Some (d_cluster d, d_idx d, d_entry d, sc, si), data fs (d_cluster d))"
    using delete_walk [OF assms] by (simp add: delete_item_def s)
  show ?thesis unfolding delete_dir_entries_def delete_write_def w s by (cases "sc = d_cluster d") (simp_all add: Let_def)
qed

lemma delete_ok:
  assumes d: "dir_ok fs dir xs l" and f: "find (\<lambda>d. same_name name (d_name d)) l = Some d" and zs: "entry_cluster (d_entry d) < 2 \<and> zs = [] \<or>
    fchain fs (entry_cluster (d_entry d)) zs \<and> set zs \<inter> set xs = {}"
  shows "\<exists>fs' l1 l2. delete_dir_entries dir name fs = Some (True, fs') \<and> l = l1 @ d # l2 \<and> dir_ok fs' dir xs (l1 @ l2) \<and> vol fs' = vol fs \<and>
    (\<forall>x. valid fs x \<longrightarrow> get_next_cluster fs' x = (if x \<in> set zs then 0 else get_next_cluster fs x) \<and> (x \<notin> set xs \<longrightarrow> data fs' x = data fs x))"
proof -
  note D = dir_okD [OF d] and W = delete_walk [OF d f]
  note C = cst.chainD [OF D(3)]
  have distinct_xs: "distinct xs" using C by blast
  have lc: "length (contents fs xs) = 32 * (length xs * epc fs)" using epc_facts(1) [OF D(1)] by simp
  have "d \<in> set l" using f by (auto simp: find_Some_iff)
  then obtain l1 l2 where l: "l = l1 @ d # l2" by (auto simp: in_set_conv_decomp)
  have sp: "split_at (lfn_init fs) (slots fs xs) l1 d l2"
    by (rule parse_split) (use D(4) l in \<open>simp_all add: dir_entries_def lfn_init_def\<close>)
  then obtain A G B where S: "slots fs xs = A @ G @ (d_cluster d, d_idx d, d_entry d) # B" "G = [] \<and> d_start d = (d_cluster d, d_idx d) \<or> pending G (d_start d)"
    unfolding split_at_def by blast
  have st: "fst (d_start d) \<in> set xs"
  proof (cases G)
    case Nil
    then show ?thesis using S(2) W by (simp add: pending_def)
  next
    case (Cons g G')
    then have "fst g \<in> set xs" using slots_cluster [of g fs xs] S(1) by simp
    moreover have "(fst g, fst (snd g)) = d_start d" using S(2) Cons by (simp add: pending_def)
    then have "fst (d_start d) = fst g" by (metis fst_conv)
    ultimately show ?thesis by simp
  qed
  define fs1 where "fs1 = delete_write d fs"
  have v: "valid fs (d_cluster d)" "valid fs (fst (d_start d))" using C W st by blast+
  note M = delete_write_ok [OF D(1) v, folded fs1_def, unfolded marked_in_def]
  have V: "vol fs1 = vol fs" "oom fs1 = oom fs" using M by simp_all
  note M3 = M [THEN conjunct2, THEN conjunct2, rule_format]
  note V1 = vol_same [OF V(1)]
  have nx: "get_next_cluster fs1 x = get_next_cluster fs x" if "valid fs x" for x using M3 [OF that] by (rule conjunct1)
  have dt: "data fs1 x = data fs x" if "valid fs x" "x \<notin> set xs" for x
  proof -
    have "x \<noteq> d_cluster d" "x \<noteq> fst (d_start d)" using that(2) W st by auto
    then show ?thesis using M3 [OF that(1)] by auto
  qed
  have ss: "slots fs1 xs = map (mark_slot (marks fs d)) (slots fs xs)" 
  proof (rule slots_marked [OF V1(3)])
    fix x assume "x \<in> set xs"
    then have "valid fs x" using C by simp
    from M3 [OF this] show "\<exists>js. data fs1 x = mark_deleted js (data fs x) \<and> (\<forall>i < epc fs. i \<in> set js \<longleftrightarrow> (x, i) \<in> marks fs d)" by auto
  qed
  have ne: "\<forall>s \<in> set (slots fs xs). ent s \<noteq> []"
  proof
    fix s assume "s \<in> set (slots fs xs)"
    then obtain k where "k < length (slots fs xs)" "s = slots fs xs ! k" by (auto simp: in_set_conv_nth)
    then show "ent s \<noteq> []" using slot_nth(4) [OF D(1), of k xs] by auto
  qed
  have P: "parse (lfn_init fs) (slots fs1 xs) = Some (l1 @ l2) \<and> tidy_slots (slots fs1 xs)" unfolding ss
  proof (rule parse_marked [OF sp _ _ ne])
    show "tidy_slots (slots fs xs)" using D(6) tidy_view [OF lc] by (simp add: slots_view [OF D(1)])
  qed (rule marks_between [OF D(1) distinct_xs])
  have g1: "geom fs1" and lc1: "length (contents fs1 xs) = 32 * (length xs * epc fs1)" using V1 D(1) lc by simp_all
  have "parse (lfn_init fs1) (slots fs1 xs) = parse (lfn_init fs) (slots fs1 xs)" by (rule parse_invalid) (simp_all add: lfn_init_def)
  moreover have "tidy (contents fs1 xs)" using P tidy_view [OF lc1] by (simp add: slots_view [OF g1])
  moreover have "fchain fs1 dir xs" using cst.chain_stays [of fs1 fs xs dir] V1(2) nx D(3) by simp
  moreover have "names_end (l1 @ l2)" using D(5) l by (simp add: names_end_def)
  ultimately have ok1: "dir_ok fs1 dir xs (l1 @ l2)" using P g1 V(2) D(2) by (simp add: dir_ok_def dir_entries_def)
  note E = delete_eq [OF d f, folded fs1_def]
  show ?thesis
  proof (cases "entry_cluster (d_entry d) < 2")
    case True
    have "\<not> fchain fs (entry_cluster (d_entry d)) zs"
    proof
      assume "fchain fs (entry_cluster (d_entry d)) zs"
      from cst.chainD [OF this] have "valid fs (entry_cluster (d_entry d))" by simp
      from cst.good_number [OF D(1) this] show False using True leD by blast
    qed
    then have "zs = []" using zs by blast
    moreover have "delete_dir_entries dir name fs = Some (True, fs1)" using E True by (simp only: not_le [symmetric] if_False)
    moreover have "\<forall>x. valid fs x \<longrightarrow> get_next_cluster fs1 x = (if x \<in> set zs then 0 else get_next_cluster fs x) \<and> (x \<notin> set xs \<longrightarrow> data fs1 x = data fs x)"
      using \<open>zs = []\<close> nx dt by simp
    ultimately show ?thesis using l ok1 V(1) by metis
  next
    case False
    then have z: "fchain fs (entry_cluster (d_entry d)) zs" "set zs \<inter> set xs = {}" using zs by auto
    have ch1: "fchain fs1 (entry_cluster (d_entry d)) zs" using cst.chain_stays [of fs1 fs zs "entry_cluster (d_entry d)"] V1(2) nx z(1) by simp
    obtain fs2 where F: "free_cluster_chain (entry_cluster (d_entry d)) fs1 = Some fs2" "vol fs2 = vol fs1"
      "\<And>x. valid fs1 x \<Longrightarrow> get_next_cluster fs2 x = (if x \<in> set zs then 0 else get_next_cluster fs1 x) \<and> data fs2 x = data fs1 x"
      using free_chain_ok [OF g1 ch1] by blast
    have "mem_ok fs2" using free_chain_oom [OF F(1)] V(2) D(2) by simp
    then have "dir_ok fs2 dir xs (l1 @ l2)" by (rule dir_ok_frame [OF ok1 F(2)]) (use F(3) z(2) in auto)
    moreover have "delete_dir_entries dir name fs = Some (True, fs2)" using E False F(1) by (simp add: not_less)
    moreover have "\<forall>x. valid fs x \<longrightarrow> get_next_cluster fs2 x = (if x \<in> set zs then 0 else get_next_cluster fs x) \<and> (x \<notin> set xs \<longrightarrow> data fs2 x = data fs x)"
      using F(3) V1(2) nx dt by simp
    ultimately show ?thesis using l F(2) V(1) by metis
  qed
qed

lemma flag_bits: "((FS_DIRECTORY OR FS_TEMPORARY) AND FS_DIRECTORY :: u32) \<noteq> 0" "((FS_FILE OR FS_TEMPORARY) AND FS_DIRECTORY :: u32) = 0"
  by code_simp+

lemma node_of_flags: "fn_flags (node_of fs dir d) AND FS_DIRECTORY \<noteq> 0 \<longleftrightarrow> d_entry d ! 11 AND FAT_ATTR_DIRECTORY \<noteq> 0"
  using flag_bits by (simp add: node_of_def lookup_node_def Let_def)

lemma node_of_cluster: "first_cluster (fn_file (node_of fs dir d)) = entry_cluster (d_entry d)"
  by (simp add: node_of_def lookup_node_def Let_def)

abbreviation unique_names :: "dirent list \<Rightarrow> bool" where
  "unique_names l \<equiv> distinct (map (\<lambda>d. to_upper (d_name d)) l)"

text \<open>What is left of the names when one file is gone.\<close>

lemma names_after_delete:
  assumes d: "dir_ok fs dir xs (l1 @ d # l2)" and d': "dir_ok fs' dir xs (l1 @ l2)" and v: "vol fs' = vol fs" and dir: "dir = first_cluster (fn_file parent)"
    and u: "unique_names (l1 @ d # l2)" and n: "same_name name (d_name d)"
  shows "fat32_lookup parent name fs' = Some None" "\<not> same_name m (d_name d) \<Longrightarrow> fat32_lookup parent m fs' = fat32_lookup parent m fs"
proof -
  have nd: "node_of fs' dir = node_of fs dir" by (rule ext, rule node_of_same [OF vol_same(3,7) [OF v]])
  have "find (\<lambda>d. same_name name (d_name d)) (l1 @ l2) = None" using u n by (auto simp: find_None_iff same_name_def)
  then show "fat32_lookup parent name fs' = Some None" using dir_lookup [OF d' dir] by simp
  show "fat32_lookup parent m fs' = fat32_lookup parent m fs" if "\<not> same_name m (d_name d)"
    using dir_lookup [OF d' dir, of m] dir_lookup [OF d dir, of m] find_insert [of "\<lambda>d. same_name m (d_name d)" d l1 l2] that nd by simp
qed

text \<open>
  C35. \<open>fat32_unlink\<close> removes the file with the given name: the name is gone, every other name is found as before, the clusters of the file are free, and no other
  chain and no data outside of the directory changes, even where the long name spans clusters of the directory.
\<close>

theorem fat32_unlink_correct:
  assumes d: "dir_ok fs dir xs l" and dir: "dir = first_cluster (fn_file parent)" and u: "unique_names l" and f: "find (\<lambda>d. same_name name (d_name d)) l = Some d"
    and plain: "d_entry d ! 11 AND FAT_ATTR_DIRECTORY = 0"
    and zs: "entry_cluster (d_entry d) < 2 \<and> zs = [] \<or> fchain fs (entry_cluster (d_entry d)) zs \<and> set zs \<inter> set xs = {}"
  shows "\<exists>fs' l'. fat32_unlink parent name fs = Some (0, fs') \<and> dir_ok fs' dir xs l' \<and> fat32_lookup parent name fs' = Some None \<and>
    (\<forall>n. \<not> same_name n (d_name d) \<longrightarrow> fat32_lookup parent n fs' = fat32_lookup parent n fs) \<and>
    (\<forall>x. valid fs x \<longrightarrow> get_next_cluster fs' x = (if x \<in> set zs then 0 else get_next_cluster fs x) \<and> (x \<notin> set xs \<longrightarrow> data fs' x = data fs x))"
proof -
  obtain fs' l1 l2 where K: "delete_dir_entries dir name fs = Some (True, fs')" "l = l1 @ d # l2" "dir_ok fs' dir xs (l1 @ l2)" "vol fs' = vol fs"
    "\<forall>x. valid fs x \<longrightarrow> get_next_cluster fs' x = (if x \<in> set zs then 0 else get_next_cluster fs x) \<and> (x \<notin> set xs \<longrightarrow> data fs' x = data fs x)"
    using delete_ok [OF d f zs] by blast
  have n: "same_name name (d_name d)" using f by (auto simp: find_Some_iff)
  note N = names_after_delete [OF d [unfolded K(2)] K(3,4) dir u [unfolded K(2)] n]
  have "fat32_lookup parent name fs = Some (Some (node_of fs dir d))" using dir_lookup [OF d dir] f by simp
  then have "fat32_unlink parent name fs = Some (0, fs')" using K(1) plain node_of_flags [of fs dir d] by (simp add: fat32_unlink_def dir)
  then show ?thesis using K(3,5) N by blast
qed

text \<open>The test of the source for the entries \<open>.\<close> and \<open>..\<close> accepts both, and nothing that does not start with a dot.\<close>

lemma dot_entry_name:
  shows "dot_entry e \<Longrightarrow> e ! 0 = 46" "take 11 e \<in> {46 # replicate 10 32, 46 # 46 # replicate 9 32} \<Longrightarrow> dot_entry e"
proof -
  assume h: "take 11 e \<in> {46 # replicate 10 32, 46 # 46 # replicate 9 32}"
  then have "take 11 e ! 0 = 46 \<and> (take 11 e ! 1 = 32 \<or> take 11 e ! 1 = 46)" by (auto simp del: nth_take)
  then show "dot_entry e" by (simp add: dot_entry_def)
qed (simp add: dot_entry_def)

text \<open>
  C37. \<open>fat32_rmdir\<close> removes a directory only if it is empty: if it has an entry other than the two named \<open>.\<close> and \<open>..\<close>, the call fails
  and changes nothing; else the name is gone, every other name is found as before and the clusters of the directory are free. The
  names are the eleven bytes of the entry, padded with spaces. It is required that no other entry of the directory has a short name
  that starts with a dot, as the FAT format has it: the test of the source looks at two bytes only, so it would take an entry
  named \<open>..X\<close> for the parent entry and remove a directory that has one.
\<close>

theorem fat32_rmdir_correct:
  assumes d: "dir_ok fs dir xs l" and dir: "dir = first_cluster (fn_file parent)" and u: "unique_names l" and f: "find (\<lambda>d. same_name name (d_name d)) l = Some d"
    and isdir: "d_entry d ! 11 AND FAT_ATTR_DIRECTORY \<noteq> 0" and t: "dir_ok fs (entry_cluster (d_entry d)) zs lt" "set zs \<inter> set xs = {}"
    and dots: "\<forall>e \<in> set lt. d_entry e ! 0 = 46 \<longrightarrow> take 11 (d_entry e) \<in> {46 # replicate 10 32, 46 # 46 # replicate 9 32}"
  shows "if \<exists>e \<in> set lt. take 11 (d_entry e) \<notin> {46 # replicate 10 32, 46 # 46 # replicate 9 32} then fat32_rmdir parent name fs = Some (-1, fs)
    else \<exists>fs' l'. fat32_rmdir parent name fs = Some (0, fs') \<and> dir_ok fs' dir xs l' \<and> fat32_lookup parent name fs' = Some None \<and>
    (\<forall>n. \<not> same_name n (d_name d) \<longrightarrow> fat32_lookup parent n fs' = fat32_lookup parent n fs) \<and>
    (\<forall>x. valid fs x \<longrightarrow> get_next_cluster fs' x = (if x \<in> set zs then 0 else get_next_cluster fs x) \<and> (x \<notin> set xs \<longrightarrow> data fs' x = data fs x))"
proof -
  note T = dir_okD [OF t(1)]
  have zs: "entry_cluster (d_entry d) < 2 \<and> zs = [] \<or> fchain fs (entry_cluster (d_entry d)) zs \<and> set zs \<inter> set xs = {}" using T(3) t(2) by blast
  obtain fs' l1 l2 where K: "delete_dir_entries dir name fs = Some (True, fs')" "l = l1 @ d # l2" "dir_ok fs' dir xs (l1 @ l2)" "vol fs' = vol fs"
    "\<forall>x. valid fs x \<longrightarrow> get_next_cluster fs' x = (if x \<in> set zs then 0 else get_next_cluster fs x) \<and> (x \<notin> set xs \<longrightarrow> data fs' x = data fs x)"
    using delete_ok [OF d f zs] by blast
  have n: "same_name name (d_name d)" using f by (auto simp: find_Some_iff)
  note N = names_after_delete [OF d [unfolded K(2)] K(3,4) dir u [unfolded K(2)] n]
  have e: "is_directory_empty fs (entry_cluster (d_entry d)) = Some (\<not> (\<exists>e \<in> set lt. \<not> dot_entry (d_entry e)))"
    using walk_short_ok [OF T(1,3,4)] by (simp add: is_directory_empty_def)
  have "\<not> dot_entry (d_entry e) \<longleftrightarrow> take 11 (d_entry e) \<notin> {46 # replicate 10 32, 46 # 46 # replicate 9 32}" if "e \<in> set lt" for e
    using dots that dot_entry_name [of "d_entry e"] by blast
  then have "(\<exists>e \<in> set lt. \<not> dot_entry (d_entry e)) \<longleftrightarrow> (\<exists>e \<in> set lt. take 11 (d_entry e) \<notin> {46 # replicate 10 32, 46 # 46 # replicate 9 32})" by blast
  note e = e [unfolded this]
  have "fat32_lookup parent name fs = Some (Some (node_of fs dir d))" using dir_lookup [OF d dir] f by simp
  then have r: "fat32_rmdir parent name fs = (if \<exists>e \<in> set lt. take 11 (d_entry e) \<notin> {46 # replicate 10 32, 46 # 46 # replicate 9 32} then Some (-1, fs) else Some (0, fs'))"
    using K(1) isdir node_of_flags [of fs dir d] e by (simp add: fat32_rmdir_def dir node_of_cluster)
  show ?thesis
  proof (cases "\<exists>e \<in> set lt. take 11 (d_entry e) \<notin> {46 # replicate 10 32, 46 # 46 # replicate 9 32}")
    case False
    then have "fat32_rmdir parent name fs = Some (0, fs')" using r by simp
    then show ?thesis using False K(3,5) N by (simp only: if_False) blast
  qed (simp add: r)
qed

subsection \<open>A small volume\<close>

text \<open>The root directory, in cluster 2, has a directory D, in cluster 3, with no more than its entries \<open>.\<close> and \<open>..\<close>, and an empty file F.\<close>

definition ent_d :: "u8 list" where
  "ent_d = short_entry (68 # replicate 10 32) FAT_ATTR_DIRECTORY 3 0 0"

definition ent_f :: "u8 list" where
  "ent_f = short_entry (70 # replicate 10 32) FAT_ATTR_ARCHIVE 0 0 0"

definition fsd :: fat32_fs where
  "fsd = fs0\<lparr>device := \<lparr>d_mem = put_bytes 1024 (ent_d @ ent_f) (put_bytes 1536 (dots_entry [46] 3 @ dots_entry [46, 46] 2)
     (put_bytes 520 (le32 FAT_EOC @ le32 FAT_EOC) (\<lambda>_. 0))), d_fail = (\<lambda>_. False)\<rparr>\<rparr>"

definition dent_d :: dirent where
  "dent_d = \<lparr>d_cluster = 2, d_idx = 0, d_entry = ent_d, d_name = [68], d_start = (2, 0)\<rparr>"

definition dent_f :: dirent where
  "dent_f = \<lparr>d_cluster = 2, d_idx = 1, d_entry = ent_f, d_name = [70], d_start = (2, 1)\<rparr>"

definition dent_dots :: "dirent list" where
  "dent_dots = [\<lparr>d_cluster = 3, d_idx = 0, d_entry = dots_entry [46] 3, d_name = [46], d_start = (3, 0)\<rparr>,
     \<lparr>d_cluster = 3, d_idx = 1, d_entry = dots_entry [46, 46] 2, d_name = [46, 46], d_start = (3, 1)\<rparr>]"

lemma fsd_geom: "geom fsd" "mem_ok fsd" "epc fsd = 16" "csize fsd = 512"
  by (simp_all add: geom_def fsd_def fs0_def dev_works_def)

lemma fsd_valid: "valid fsd 2" "valid fsd 3" "valid fsd 4" "valid fsd 5"
  by (simp_all add: valid_def fsd_def fs0_def)

lemma fsd_next: "get_next_cluster fsd 2 = FAT_EOC" "get_next_cluster fsd 3 = FAT_EOC" "get_next_cluster fsd 4 = 0" "get_next_cluster fsd 5 = 0"
proof -
  have e: "entry_at fsd 2 = FAT_EOC" "entry_at fsd 3 = FAT_EOC" "entry_at fsd 4 = 0" "entry_at fsd 5 = 0" by code_simp+
  note n = get_next_eq [OF fsd_geom(1) valid_lt [OF fsd_valid(1)]] get_next_eq [OF fsd_geom(1) valid_lt [OF fsd_valid(2)]]
    get_next_eq [OF fsd_geom(1) valid_lt [OF fsd_valid(3)]] get_next_eq [OF fsd_geom(1) valid_lt [OF fsd_valid(4)]]
  show "get_next_cluster fsd 2 = FAT_EOC" "get_next_cluster fsd 3 = FAT_EOC" "get_next_cluster fsd 4 = 0" "get_next_cluster fsd 5 = 0" using n e by simp_all
qed

lemma fsd_chain: "fchain fsd 2 [2]" "fchain fsd 3 [3]"
  using fsd_next fsd_valid by (simp_all add: chain_def)

lemma ent_facts: "length ent_d = 32" "length ent_f = 32" "ent_d ! 0 = 68" "ent_f ! 0 = 70" "ent_d ! 11 = FAT_ATTR_DIRECTORY" "ent_f ! 11 = FAT_ATTR_ARCHIVE"
  "entry_cluster ent_d = 3" "entry_cluster ent_f = 0" "fat_get_short_name ent_d = [68]" "fat_get_short_name ent_f = [70]"
  by code_simp+

lemma dots_facts: "length (dots_entry [46] 3) = 32" "length (dots_entry [46, 46] 2) = 32" "dots_entry [46] 3 ! 0 = 46" "dots_entry [46, 46] 2 ! 0 = 46"
  "dots_entry [46] 3 ! 11 = FAT_ATTR_DIRECTORY" "dots_entry [46, 46] 2 ! 11 = FAT_ATTR_DIRECTORY"
  "fat_get_short_name (dots_entry [46] 3) = [46]" "fat_get_short_name (dots_entry [46, 46] 2) = [46, 46]"
  "take 11 (dots_entry [46] 3) = 46 # replicate 10 32" "take 11 (dots_entry [46, 46] 2) = 46 # 46 # replicate 9 32"
  by code_simp+

lemma fsd_data: "data fsd 2 = ent_d @ ent_f @ replicate 448 0" "data fsd 3 = dots_entry [46] 3 @ dots_entry [46, 46] 2 @ replicate 448 0"
proof -
  have a: "data_addr fsd 2 = 1024" "data_addr fsd 3 = 1536" by (simp_all add: data_addr_def fsd_def fs0_def)
  have d: "disk fsd (1024 + i) = (if i < 64 then (ent_d @ ent_f) ! i else 0)" if "i < 512" for i
    using ent_facts that by (simp add: fsd_def put_bytes_def le32_def)
  have e: "disk fsd (1536 + i) = (if i < 64 then (dots_entry [46] 3 @ dots_entry [46, 46] 2) ! i else 0)" for i
    using ent_facts dots_facts by (simp add: fsd_def put_bytes_def le32_def)
  show "data fsd 2 = ent_d @ ent_f @ replicate 448 0" unfolding data_def a fsd_geom
    by (rule nth_equalityI) (use ent_facts d in \<open>auto simp: nth_append\<close>)
  show "data fsd 3 = dots_entry [46] 3 @ dots_entry [46, 46] 2 @ replicate 448 0" unfolding data_def a fsd_geom
    by (rule nth_equalityI) (use dots_facts e in \<open>auto simp: nth_append\<close>)
qed

lemma parse_ends: "i < n \<Longrightarrow> f i ! 0 = 0 \<Longrightarrow> parse st (map (\<lambda>k. (c, k, f k)) [i..<n]) = Some []"
  by (simp add: upt_conv_Cons)

text \<open>A directory of one cluster with two entries.\<close>

lemma two_slots:
  assumes d: "data fs c = a @ b @ replicate 448 0" "length a = 32" "length b = 32" and fs: "epc fs = 16"
  obtains f where "slots fs [c] = (c, 0, a) # (c, 1, b) # map (\<lambda>k. (c, k, f k)) [2..<16]" "f 2 ! 0 = 0"
proof -
  define f where "f k = take 32 (drop (32 * k) (data fs c))" for k
  have f: "f 0 = a" "f 1 = b" "f 2 ! 0 = 0" using d by (simp_all add: f_def)
  have "slots_of fs c = map (\<lambda>k. (c, k, f k)) [0..<16]" by (simp add: slots_of_def fs f_def)
  also have "\<dots> = (c, 0, a) # (c, 1, b) # map (\<lambda>k. (c, k, f k)) [2..<16]" using f by (simp add: upt_conv_Cons numeral_2_eq_2)
  finally show ?thesis using that [of f] f(3) by simp
qed

lemma two_tidy:
  assumes d: "data fs c = a @ b @ replicate 448 0" "length a = 32" "length b = 32" "a ! 0 \<noteq> 0" "b ! 0 \<noteq> 0"
  shows "tidy (contents fs [c])"
proof -
  let ?C = "contents fs [c]"
  have n: "?C ! (32 * k) \<noteq> 0 \<longleftrightarrow> k < 2" if "32 * k < length ?C" for k
  proof -
    have "?C ! (32 * k) = 0" if "2 \<le> k" "k < 16" using that d by (simp add: contents_def nth_append)
    moreover have "?C ! (32 * k) \<noteq> 0" if "k < 2"
    proof -
      consider "k = 0" | "k = 1" using \<open>k < 2\<close> by linarith
      then show ?thesis using d by cases (simp_all add: contents_def nth_append)
    qed
    ultimately show ?thesis using that d by (force simp: contents_def)
  qed
  show ?thesis unfolding tidy_def
  proof (intro allI impI)
    fix k k' assume h: "k \<le> k'" "32 * k' < length ?C" "?C ! (32 * k) = 0"
    then show "?C ! (32 * k') = 0" using n [of k] n [of k'] by auto
  qed
qed

lemma fsd_entries: "dir_entries fsd [2] = Some [dent_d, dent_f]" "dir_entries fsd [3] = Some dent_dots"
proof -
  obtain f where s: "slots fsd [2] = (2, 0, ent_d) # (2, 1, ent_f) # map (\<lambda>k. (2, k, f k)) [2..<16]" "f 2 ! 0 = 0"
    using two_slots [OF fsd_data(1) ent_facts(1,2) fsd_geom(3)] .
  show "dir_entries fsd [2] = Some [dent_d, dent_f]" unfolding dir_entries_def s(1) using ent_facts parse_ends [of 2 16 f] s(2)
    by (simp add: lfn_init_def dirent_of_def has_long_def entry_name_def dent_d_def dent_f_def)
  obtain g where r: "slots fsd [3] = (3, 0, dots_entry [46] 3) # (3, 1, dots_entry [46, 46] 2) # map (\<lambda>k. (3, k, g k)) [2..<16]" "g 2 ! 0 = 0"
    using two_slots [OF fsd_data(2) dots_facts(1,2) fsd_geom(3)] .
  show "dir_entries fsd [3] = Some dent_dots" unfolding dir_entries_def r(1) using dots_facts parse_ends [of 2 16 g] r(2)
    by (simp add: lfn_init_def dirent_of_def has_long_def entry_name_def dent_dots_def)
qed

lemma fsd_dirs: "dir_ok fsd 2 [2] [dent_d, dent_f]" "dir_ok fsd 3 [3] dent_dots"
proof -
  have "tidy (contents fsd [2])" by (rule two_tidy [OF fsd_data(1)]) (simp_all add: ent_facts)
  moreover have "tidy (contents fsd [3])" by (rule two_tidy [OF fsd_data(2)]) (simp_all add: dots_facts)
  ultimately show "dir_ok fsd 2 [2] [dent_d, dent_f]" "dir_ok fsd 3 [3] dent_dots" using fsd_geom fsd_chain fsd_entries
    by (simp_all add: dir_ok_def names_end_def dent_d_def dent_f_def dent_dots_def)
qed

lemma fsd_free: "2 \<le> card (free_clusters fsd)"
proof -
  have "{4, 5} \<subseteq> free_clusters fsd" using fsd_valid fsd_next by (auto simp: free_clusters_def fat_sectors_def fsd_def fs0_def)
  from card_mono [OF free_finite this] show ?thesis by simp
qed

lemma fsd_root: "(2 :: u32) = first_cluster (fn_file (root_node fsd))"
  by (simp add: root_node_def fsd_def fs0_def)

lemma fsd_unique: "unique_names [dent_d, dent_f]"
  by (simp add: dent_d_def dent_f_def to_upper_def)

theorem fat32_lookup_readdir_witness:
  "\<exists>found. fat32_lookup (root_node fsd) [70] fsd = Some (Some found) \<and> fat32_readdir (root_node fsd) 0 256 fsd = Some (Some ([68], True)) \<and>
    fat32_readdir (root_node fsd) 1 256 fsd = Some (Some ([70], False)) \<and> fat32_readdir (root_node fsd) 2 256 fsd = Some None \<and>
    fat32_lookup (root_node fsd) [102, 0] fsd = Some None"
proof -
  note T = fat32_lookup_readdir [OF fsd_dirs(1) fsd_root]
  have a: "(FAT_ATTR_DIRECTORY :: u8) AND FAT_ATTR_DIRECTORY \<noteq> 0" "\<not> ((FAT_ATTR_ARCHIVE :: u8) AND FAT_ATTR_DIRECTORY \<noteq> 0)" by code_simp+
  have n: "\<not> same_name [102, 0] [68]" "\<not> same_name [102, 0] [70]" by code_simp+
  have k: "k < 2 \<Longrightarrow> \<exists>found. fat32_readdir (root_node fsd) (int k) 256 fsd = Some (Some (d_name ([dent_d, dent_f] ! k), d_entry ([dent_d, dent_f] ! k) ! 11 AND FAT_ATTR_DIRECTORY \<noteq> 0)) \<and>
    fat32_lookup (root_node fsd) (d_name ([dent_d, dent_f] ! k)) fsd = Some (Some found)" for k
    using T [THEN conjunct2, THEN conjunct1, rule_format, of k] by simp
  have "fat32_readdir (root_node fsd) 0 256 fsd = Some (Some ([68], True))" using k [of 0] ent_facts a by (auto simp: dent_d_def)
  moreover have "\<exists>found. fat32_readdir (root_node fsd) 1 256 fsd = Some (Some ([70], False)) \<and> fat32_lookup (root_node fsd) [70] fsd = Some (Some found)"
    using k [of 1] ent_facts a by (auto simp: dent_f_def)
  moreover have "fat32_readdir (root_node fsd) 2 256 fsd = Some None" using T by simp
  moreover have "fat32_lookup (root_node fsd) [102, 0] fsd = Some None" using T n by (simp add: dent_d_def dent_f_def)
  ultimately show ?thesis by blast
qed

theorem fat32_create_correct_witness:
  "\<exists>node fs' found. fat32_create 0 (root_node fsd) [104, 101, 108, 108, 111] fsd = Some (Some node, fs') \<and>
    fat32_lookup (root_node fsd) [104, 101, 108, 108, 111] fs' = Some (Some found) \<and> fn_name found = [104, 101, 108, 108, 111] \<and>
    fat32_lookup (root_node fsd) [70] fs' = fat32_lookup (root_node fsd) [70] fsd"
proof -
  have l: "needs_lfn [104, 101, 108, 108, 111]" "\<not> same_name [104, 101, 108, 108, 111] [68]" "\<not> same_name [104, 101, 108, 108, 111] [70]"
    "\<not> same_name [70] [104, 101, 108, 108, 111]" by code_simp+
  obtain node fs' found where K: "fat32_create 0 (root_node fsd) [104, 101, 108, 108, 111] fsd = Some (Some node, fs')"
    "fat32_lookup (root_node fsd) [104, 101, 108, 108, 111] fs' = Some (Some found)" "fn_name found = take 63 [104, 101, 108, 108, 111]"
    "\<forall>n. \<not> same_name n [104, 101, 108, 108, 111] \<longrightarrow> fat32_lookup (root_node fsd) n fs' = fat32_lookup (root_node fsd) n fsd"
    using fat32_create_correct [OF fsd_dirs(1) fsd_root l(1) _ _ _ _ fsd_free, where now = 0] l by (auto simp: dent_d_def dent_f_def)
  have "fat32_lookup (root_node fsd) [70] fs' = fat32_lookup (root_node fsd) [70] fsd" using K(4) l(4) by blast
  then show ?thesis using K(1-3) by auto
qed

theorem fat32_unlink_correct_witness:
  "\<exists>fs'. fat32_unlink (root_node fsd) [102] fsd = Some (0, fs') \<and> fat32_lookup (root_node fsd) [102] fs' = Some None \<and>
    fat32_lookup (root_node fsd) [68] fs' = fat32_lookup (root_node fsd) [68] fsd"
proof -
  have n: "\<not> same_name [102] [68]" "same_name [102] [70]" "\<not> same_name [68] [70]" by code_simp+
  have a: "(FAT_ATTR_ARCHIVE :: u8) AND FAT_ATTR_DIRECTORY = 0" by code_simp
  have f: "find (\<lambda>d. same_name [102] (d_name d)) [dent_d, dent_f] = Some dent_f" using n by (simp add: dent_d_def dent_f_def)
  have p: "d_entry dent_f ! 11 AND FAT_ATTR_DIRECTORY = 0" "d_name dent_f = [70]" "entry_cluster (d_entry dent_f) < 2" using ent_facts a by (simp_all add: dent_f_def)
  from fat32_unlink_correct [OF fsd_dirs(1) fsd_root fsd_unique f p(1), of "[]"] p n show ?thesis by auto
qed

theorem fat32_rmdir_correct_witness:
  "\<exists>fs'. fat32_rmdir (root_node fsd) [100] fsd = Some (0, fs') \<and> fat32_lookup (root_node fsd) [100] fs' = Some None \<and> get_next_cluster fs' 3 = 0"
proof -
  have n: "same_name [100] [68]" by code_simp
  have a: "(FAT_ATTR_DIRECTORY :: u8) AND FAT_ATTR_DIRECTORY \<noteq> 0" by code_simp
  have f: "find (\<lambda>d. same_name [100] (d_name d)) [dent_d, dent_f] = Some dent_d" using n by (simp add: dent_d_def)
  have p: "d_entry dent_d ! 11 AND FAT_ATTR_DIRECTORY \<noteq> 0" "entry_cluster (d_entry dent_d) = 3" using ent_facts a by (simp_all add: dent_d_def)
  have dots: "\<forall>e \<in> set dent_dots. take 11 (d_entry e) \<in> {46 # replicate 10 32, 46 # 46 # replicate 9 32}" using dots_facts by (simp add: dent_dots_def)
  then have "\<not> (\<exists>e \<in> set dent_dots. take 11 (d_entry e) \<notin> {46 # replicate 10 32, 46 # 46 # replicate 9 32})" by blast
  from fat32_rmdir_correct [OF fsd_dirs(1) fsd_root fsd_unique f p(1), unfolded p(2), OF fsd_dirs(2)] dots this show ?thesis using fsd_valid(2) by fastforce
qed

end
