(* ===== verification/Pcache.thy ===== *)
theory Pcache
  imports Cred Pmm Blockdev
begin

section \<open>The page cache\<close>

text \<open>
  A model of the page cache of \<^verbatim>\<open>kernel/fs/vfs.c\<close> and of reading and writing files through it. An entry of the cache
  is on a list of its hash bucket and on the list of all entries in the order of their last use. Entry and inode pointers are natural
  numbers, 0 is NULL. \<open>frames\<close> is the frame allocator, \<open>pages\<close> the contents of the frames, \<open>live_pces\<close> the entries that the heap has
  handed out; \<open>kmem\<close> tells where \<open>kmalloc\<close> places the next entry, given those in use, 0 if it fails. The file systems below the
  cache are reached through the function pointers of an inode: \<open>ops\<close> is a parameter, \<open>drv\<close> the state of the file systems. A driver's
  read stores into the given buffer, a driver's write may change the inode. None means that a walk of a list does not end.
\<close>

unbundle bit_operations_syntax

abbreviation (input) CACHE_BUCKETS :: u64 where "CACHE_BUCKETS \<equiv> 256"
abbreviation (input) MAX_CACHED_PAGES :: u32 where "MAX_CACHED_PAGES \<equiv> 1024"
abbreviation (input) PAGE_MASK :: u64 where "PAGE_MASK \<equiv> 4095"

record 'f inode_ops =
  op_read :: "(nat \<Rightarrow> u64 \<Rightarrow> u64 \<Rightarrow> u8 list \<Rightarrow> 'f \<Rightarrow> u64 \<times> u8 list \<times> 'f) option"
  op_write :: "(nat \<Rightarrow> u64 \<Rightarrow> u64 \<Rightarrow> u8 list \<Rightarrow> inode \<Rightarrow> 'f \<Rightarrow> u64 \<times> inode \<times> 'f) option"

record page_cache_entry =
  pc_node :: nat
  page_offset :: u64
  phys_addr :: u64
  dirty :: bool
  pc_next :: nat
  lru_next :: nat
  lru_prev :: nat

record 'f vfs =
  page_cache :: "u64 \<Rightarrow> nat"
  lru_head :: nat
  lru_tail :: nat
  current_cached_pages :: u32
  pces :: "nat \<Rightarrow> page_cache_entry"
  live_pces :: "nat set"
  kmem :: "nat set \<Rightarrow> nat"
  frames :: pmm
  pages :: "u64 \<Rightarrow> u8 list"
  inodes :: "nat \<Rightarrow> inode"
  drv :: 'f

abbreviation upd_pce :: "nat \<Rightarrow> (page_cache_entry \<Rightarrow> page_cache_entry) \<Rightarrow> 'f vfs \<Rightarrow> 'f vfs" where
  "upd_pce e g s \<equiv> s\<lparr>pces := (pces s)(e := g (pces s e))\<rparr>"

definition lru_remove :: "nat \<Rightarrow> 'f vfs \<Rightarrow> 'f vfs" where
  "lru_remove e s =
     (let n = lru_next (pces s e); p = lru_prev (pces s e);
          s = (if p \<noteq> 0 then upd_pce p (\<lambda>q. q\<lparr>lru_next := n\<rparr>) s else s\<lparr>lru_head := n\<rparr>)
      in if n \<noteq> 0 then upd_pce n (\<lambda>q. q\<lparr>lru_prev := p\<rparr>) s else s\<lparr>lru_tail := p\<rparr>)"

definition lru_add_front :: "nat \<Rightarrow> 'f vfs \<Rightarrow> 'f vfs" where
  "lru_add_front e s =
     (let h = lru_head s;
          s = upd_pce e (\<lambda>q. q\<lparr>lru_next := h, lru_prev := 0\<rparr>) s;
          s = (if h \<noteq> 0 then upd_pce h (\<lambda>q. q\<lparr>lru_prev := e\<rparr>) s else s);
          s = s\<lparr>lru_head := e\<rparr>
      in if lru_tail s = 0 then s\<lparr>lru_tail := e\<rparr> else s)"

definition lru_touch :: "nat \<Rightarrow> 'f vfs \<Rightarrow> 'f vfs" where
  "lru_touch e s = (if e = lru_head s then s else lru_add_front e (lru_remove e s))"

definition hash_cache :: "nat \<Rightarrow> u64 \<Rightarrow> u64" where
  "hash_cache node offset = (drop_bit 4 (word_of_nat node) XOR drop_bit PAGE_SHIFT offset) mod CACHE_BUCKETS"

text \<open>Taking an entry off the list of its bucket.\<close>

partial_function (option) unhash_loop :: "nat \<Rightarrow> nat \<Rightarrow> 'f vfs \<Rightarrow> 'f vfs option" where
  "unhash_loop e c s =
     (if c = 0 then Some s
      else if pc_next (pces s c) \<noteq> e then unhash_loop e (pc_next (pces s c)) s
      else Some (upd_pce c (\<lambda>q. q\<lparr>pc_next := pc_next (pces s e)\<rparr>) s))"

definition cache_unhash :: "nat \<Rightarrow> 'f vfs \<Rightarrow> 'f vfs option" where
  "cache_unhash e s =
     (let b = hash_cache (pc_node (pces s e)) (page_offset (pces s e))
      in if page_cache s b = e then Some (s\<lparr>page_cache := (page_cache s)(b := pc_next (pces s e))\<rparr>)
         else unhash_loop e (page_cache s b) s)"

text \<open>The write-back of a dirty page; the subtraction is that of the source, on 64 bits.\<close>

definition cache_flush :: "(nat \<Rightarrow> 'f inode_ops) \<Rightarrow> nat \<Rightarrow> 'f vfs \<Rightarrow> 'f vfs" where
  "cache_flush ops e s =
     (let p = pces s e; n = pc_node p
      in if dirty p \<and> n \<noteq> 0
         then case op_write (ops n) of
                None \<Rightarrow> s
              | Some w \<Rightarrow>
                  let sz = (if page_offset p + PAGE_SIZE > i_size (inodes s n) then i_size (inodes s n) - page_offset p else PAGE_SIZE);
                      (r, i, f) = w n (page_offset p) sz (pages s (phys_addr p)) (inodes s n) (drv s)
                  in s\<lparr>inodes := (inodes s)(n := i), drv := f\<rparr>
         else s)"

text \<open>The second half of an eviction: off both lists, the frame and the entry are given back.\<close>

definition cache_drop :: "nat \<Rightarrow> 'f vfs \<Rightarrow> 'f vfs option" where
  "cache_drop e s =
     (case cache_unhash e s of
        None \<Rightarrow> None
      | Some s \<Rightarrow>
          let s = lru_remove e s
          in Some (s\<lparr>frames := pmm_free_frame (phys_addr (pces s e)) (frames s), live_pces := live_pces s - {e},
                     current_cached_pages := current_cached_pages s - 1\<rparr>))"

definition cache_evict_one :: "(nat \<Rightarrow> 'f inode_ops) \<Rightarrow> 'f vfs \<Rightarrow> 'f vfs option" where
  "cache_evict_one ops s = (if lru_tail s = 0 then Some s else cache_drop (lru_tail s) (cache_flush ops (lru_tail s) s))"



partial_function (option) cache_find :: "nat \<Rightarrow> u64 \<Rightarrow> nat \<Rightarrow> 'f vfs \<Rightarrow> nat option" where
  "cache_find node offset c s =
     (if c = 0 then Some 0
      else if pc_node (pces s c) = node \<and> page_offset (pces s c) = offset then Some c
      else cache_find node offset (pc_next (pces s c)) s)"

definition cache_lookup :: "nat \<Rightarrow> u64 \<Rightarrow> 'f vfs \<Rightarrow> nat option" where
  "cache_lookup node offset s = cache_find node offset (page_cache s (hash_cache node offset)) s"

definition cache_insert :: "nat \<Rightarrow> u64 \<Rightarrow> u64 \<Rightarrow> 'f vfs \<Rightarrow> nat \<times> 'f vfs" where
  "cache_insert node offset phys s =
     (let b = hash_cache node offset; e = kmem s (live_pces s)
      in if e = 0 then (0, s)
         else let s = s\<lparr>live_pces := insert e (live_pces s)\<rparr>;
                  s = upd_pce e (\<lambda>q. q\<lparr>pc_node := node, page_offset := offset, phys_addr := phys, dirty := False, pc_next := page_cache s b\<rparr>) s;
                  s = lru_add_front e (s\<lparr>page_cache := (page_cache s)(b := e)\<rparr>)
              in (e, s\<lparr>current_cached_pages := current_cached_pages s + 1\<rparr>))"

definition cache_add :: "(nat \<Rightarrow> 'f inode_ops) \<Rightarrow> nat \<Rightarrow> u64 \<Rightarrow> u64 \<Rightarrow> 'f vfs \<Rightarrow> (nat \<times> 'f vfs) option" where
  "cache_add ops node offset phys s =
     (case (if current_cached_pages s \<ge> MAX_CACHED_PAGES then cache_evict_one ops s else Some s) of
        None \<Rightarrow> None
      | Some s \<Rightarrow> Some (cache_insert node offset phys s))"

subsection \<open>Reading and writing\<close>

text \<open>The read of the part of a page that the file has, into its frame.\<close>

definition page_read :: "(nat \<Rightarrow> u64 \<Rightarrow> u64 \<Rightarrow> u8 list \<Rightarrow> 'f \<Rightarrow> u64 \<times> u8 list \<times> 'f) \<Rightarrow> nat \<Rightarrow> u64 \<Rightarrow> u64 \<Rightarrow> 'f vfs \<Rightarrow> 'f vfs" where
  "page_read rd node po frame s =
     (let sz = (if po + PAGE_SIZE > i_size (inodes s node) then i_size (inodes s node) - po else PAGE_SIZE);
          (r, pg, f) = rd node po sz (pages s frame) (drv s)
      in s\<lparr>pages := (pages s)(frame := pg), drv := f\<rparr>)"

abbreviation zero_page :: "u64 \<Rightarrow> 'f vfs \<Rightarrow> 'f vfs" where
  "zero_page frame s \<equiv> s\<lparr>pages := (pages s)(frame := replicate 4096 0)\<rparr>"

text \<open>
  The entry of a page: the one in the cache, moved to the front, or a new one, whose frame \<open>fill\<close> prepares. The entry is 0 when
  no frame or no memory for an entry is left.
\<close>

definition page_entry :: "(nat \<Rightarrow> 'f inode_ops) \<Rightarrow> (u64 \<Rightarrow> 'f vfs \<Rightarrow> 'f vfs) \<Rightarrow> nat \<Rightarrow> u64 \<Rightarrow> 'f vfs \<Rightarrow> (nat \<times> 'f vfs) option" where
  "page_entry ops fill node po s =
     (case cache_lookup node po s of
        None \<Rightarrow> None
      | Some e \<Rightarrow>
          if e \<noteq> 0 then Some (e, lru_touch e s)
          else let (frame, fr) = pmm_alloc_frame (frames s); s = s\<lparr>frames := fr\<rparr>
               in if frame = 0 then Some (0, s)
                  else case cache_add ops node po frame (fill frame s) of
                         None \<Rightarrow> None
                       | Some (e, s) \<Rightarrow> if e = 0 then Some (0, s\<lparr>frames := pmm_free_frame frame (frames s)\<rparr>) else Some (e, s))"


abbreviation (input) S_IFMT :: u32 where "S_IFMT \<equiv> 0xF000"
abbreviation (input) S_IFREG :: u32 where "S_IFREG \<equiv> 0x8000"

abbreviation is_reg :: "u32 \<Rightarrow> bool" where
  "is_reg m \<equiv> m AND S_IFMT = S_IFREG"

abbreviation inode_at :: "nat \<Rightarrow> 'f vfs \<Rightarrow> inode option" where
  "inode_at node s \<equiv> if node = 0 then None else Some (inodes s node)"


text \<open>
  The write. The source reads the old contents of a page only when the write starts before the end of the file; a file without
  a read function would be called through NULL there, which is left out.
\<close>

definition write_fill :: "(nat \<Rightarrow> 'f inode_ops) \<Rightarrow> nat \<Rightarrow> u64 \<Rightarrow> u64 \<Rightarrow> u64 \<Rightarrow> u64 \<Rightarrow> 'f vfs \<Rightarrow> 'f vfs" where
  "write_fill ops node cur po n frame s =
     (if n < PAGE_SIZE \<and> cur < i_size (inodes s node)
      then case op_read (ops node) of None \<Rightarrow> s | Some rd \<Rightarrow> page_read rd node po frame s
      else zero_page frame s)"

partial_function (option) write_pages ::
  "(nat \<Rightarrow> 'f inode_ops) \<Rightarrow> nat \<Rightarrow> u64 \<Rightarrow> u64 \<Rightarrow> u64 \<Rightarrow> u8 list \<Rightarrow> 'f vfs \<Rightarrow> (u64 \<times> 'f vfs) option"
where
  "write_pages ops node offset sz bytes_written buf s =
     (if \<not> bytes_written < sz then Some (bytes_written, s)
      else let cur = offset + bytes_written;
               po = cur AND NOT PAGE_MASK;
               oi = cur AND PAGE_MASK;
               n = PAGE_SIZE - oi;
               n = (if bytes_written + n > sz then sz - bytes_written else n)
           in case page_entry ops (write_fill ops node cur po n) node po s of
                None \<Rightarrow> None
              | Some (e, s) \<Rightarrow>
                  if e = 0 then Some (bytes_written, s)
                  else let a = phys_addr (pces s e);
                           s = s\<lparr>pages := (pages s)(a := splice (unat oi) (take (unat n) (drop (unat bytes_written) buf)) (pages s a))\<rparr>
                       in write_pages ops node offset sz (bytes_written + n) buf (upd_pce e (\<lambda>q. q\<lparr>dirty := True\<rparr>) s))"

definition vfs_write :: "(nat \<Rightarrow> 'f inode_ops) \<Rightarrow> kernel \<Rightarrow> nat \<Rightarrow> u64 \<Rightarrow> u64 \<Rightarrow> u8 list \<Rightarrow> 'f vfs \<Rightarrow> (u64 \<times> 'f vfs) option" where
  "vfs_write ops k node offset sz buf s =
     (if vfs_check_permission (inode_at node s) 2 k \<noteq> 0 then Some (-1, s)
      else case op_write (ops node) of
             None \<Rightarrow> Some (0, s)
           | Some w \<Rightarrow>
               if \<not> is_reg (i_mode (inodes s node))
               then let (r, i, f) = w node offset sz buf (inodes s node) (drv s) in Some (r, s\<lparr>inodes := (inodes s)(node := i), drv := f\<rparr>)
               else case write_pages ops node offset sz 0 buf s of
                      None \<Rightarrow> None
                    | Some (r, s) \<Rightarrow>
                        Some (r, if offset + r > i_size (inodes s node)
                                 then s\<lparr>inodes := (inodes s)(node := (inodes s node)\<lparr>i_size := offset + r\<rparr>)\<rparr> else s))"

subsection \<open>The list of entries by their last use\<close>

abbreviation ln :: "'f vfs \<Rightarrow> link" where "ln s \<equiv> \<lambda>e. lru_next (pces s e)"
abbreviation lp :: "'f vfs \<Rightarrow> link" where "lp s \<equiv> \<lambda>e. lru_prev (pces s e)"
abbreviation pn :: "'f vfs \<Rightarrow> link" where "pn s \<equiv> \<lambda>e. pc_next (pces s e)"

text \<open>What an operation on the list of entries leaves alone, of one entry and of the whole state.\<close>

definition pce_core :: "page_cache_entry \<Rightarrow> nat \<times> u64 \<times> u64 \<times> bool" where
  "pce_core p = (pc_node p, page_offset p, phys_addr p, dirty p)"

definition same_data :: "'f vfs \<Rightarrow> 'f vfs \<Rightarrow> bool" where
  "same_data s s' \<longleftrightarrow> kmem s' = kmem s \<and> pages s' = pages s \<and> inodes s' = inodes s \<and> drv s' = drv s \<and> (\<forall>e. pce_core (pces s' e) = pce_core (pces s e))"

definition same_hash :: "'f vfs \<Rightarrow> 'f vfs \<Rightarrow> bool" where
  "same_hash s s' \<longleftrightarrow> same_data s s' \<and> page_cache s' = page_cache s \<and> live_pces s' = live_pces s \<and> frames s' = frames s \<and>
     current_cached_pages s' = current_cached_pages s \<and> pn s' = pn s"

lemma same_dataD:
  assumes "same_data s s'"
  shows "kmem s' = kmem s" "pages s' = pages s" "inodes s' = inodes s" "drv s' = drv s"
    "pc_node (pces s' e) = pc_node (pces s e)" "page_offset (pces s' e) = page_offset (pces s e)" "phys_addr (pces s' e) = phys_addr (pces s e)"
    "dirty (pces s' e) = dirty (pces s e)"
  using assms by (auto simp: same_data_def pce_core_def)

lemma same_data_trans: "same_data s s' \<Longrightarrow> same_data s' s'' \<Longrightarrow> same_data s s''"
  by (simp add: same_data_def)

lemma same_data_refl [simp]: "same_data s s"
  by (simp add: same_data_def)

lemma same_hash_trans: "same_hash s s' \<Longrightarrow> same_hash s' s'' \<Longrightarrow> same_hash s s''"
  by (auto simp: same_hash_def same_data_def)

lemma lru_remove_links:
  "ln (lru_remove e s) = unlink_nx (ln s) (lp s) e" "lp (lru_remove e s) = unlink_pv (ln s) (lp s) e"
  "lru_head (lru_remove e s) = (if lp s e = 0 then ln s e else lru_head s)" "lru_tail (lru_remove e s) = (if ln s e = 0 then lp s e else lru_tail s)"
  "same_hash s (lru_remove e s)"
  by (auto simp: lru_remove_def Let_def unlink_nx_def unlink_pv_def fun_eq_iff same_hash_def same_data_def pce_core_def)

abbreviation lru_list :: "nat list \<Rightarrow> 'f vfs \<Rightarrow> bool" where
  "lru_list xs s \<equiv> dll (ln s) (lp s) (lru_head s) xs (lru_tail s)"

lemma lru_remove_ok: "lru_list (as @ e # bs) s \<Longrightarrow> lru_list (as @ bs) (lru_remove e s)"
  unfolding lru_remove_links by (rule dll_unlink(1))

lemma lru_add_links:
  assumes "e \<noteq> 0"
  shows "ln (lru_add_front e s) = (ln s)(e := lru_head s)"
    "lp (lru_add_front e s) = ((lp s)(e := 0))(lru_head s := if lru_head s = 0 then ((lp s)(e := 0)) (lru_head s) else e)"
    "lru_head (lru_add_front e s) = e" "lru_tail (lru_add_front e s) = (if lru_tail s = 0 then e else lru_tail s)" "same_hash s (lru_add_front e s)"
  by (auto simp: lru_add_front_def Let_def fun_eq_iff same_hash_def same_data_def pce_core_def)

lemma lru_add_ok: "lru_list xs s \<Longrightarrow> e \<notin> set xs \<Longrightarrow> e \<noteq> 0 \<Longrightarrow> lru_list (e # xs) (lru_add_front e s)"
  unfolding lru_add_links by (rule dll_push_front)

lemma lru_touch_ok:
  assumes l: "lru_list (as @ e # bs) s"
  shows "lru_list (e # as @ bs) (lru_touch e s)" "same_hash s (lru_touch e s)"
proof -
  have e: "e \<noteq> 0" "e \<notin> set (as @ bs)" using dll_nonzero [OF l] l by (auto simp: dll_def)
  have h: "e = lru_head s \<longleftrightarrow> as = []" using dll_unlink(2,4) [OF l] by auto
  have r: "same_hash s (lru_remove e s)" "lru_list (as @ bs) (lru_remove e s)" using lru_remove_links(5) lru_remove_ok [OF l] by blast+
  show "lru_list (e # as @ bs) (lru_touch e s)" using l h lru_add_ok [OF r(2) e(2,1)] by (auto simp: lru_touch_def)
  show "same_hash s (lru_touch e s)" using same_hash_trans [OF r(1) lru_add_links(5) [OF e(1)]] by (auto simp: lru_touch_def same_hash_def)
qed

subsection \<open>The hash table\<close>

abbreviation hkey :: "'f vfs \<Rightarrow> nat \<Rightarrow> u64" where
  "hkey s e \<equiv> hash_cache (pc_node (pces s e)) (page_offset (pces s e))"

definition hashed :: "nat list \<Rightarrow> 'f vfs \<Rightarrow> (u64 \<Rightarrow> nat list) \<Rightarrow> bool" where
  "hashed xs s T \<longleftrightarrow> (\<forall>b. wlist (pn s) (page_cache s b) (T b) \<and> distinct (T b) \<and> set (T b) = {e \<in> set xs. hkey s e = b})"

lemma hashedD:
  assumes "hashed xs s T"
  shows "wlist (pn s) (page_cache s b) (T b)" "distinct (T b)" "set (T b) = {e \<in> set xs. hkey s e = b}"
  using assms unfolding hashed_def by auto

lemma hashed_same: "same_hash s s' \<Longrightarrow> set xs' = set xs \<Longrightarrow> hashed xs s T \<Longrightarrow> hashed xs' s' T"
  using same_dataD(5,6) by (force simp: hashed_def same_hash_def)

lemma unhash_loop_eq:
  "wlist (pn s) c (as @ e # bs) \<Longrightarrow> as \<noteq> [] \<Longrightarrow> e \<notin> set as \<Longrightarrow> unhash_loop e c s = Some (upd_pce (last as) (\<lambda>q. q\<lparr>pc_next := pn s e\<rparr>) s)"
proof (induction as arbitrary: c)
  case (Cons a as)
  show ?case
  proof (cases as)
    case Nil
    then show ?thesis using Cons.prems by (subst unhash_loop.simps) simp
  next
    case N: (Cons y ys)
    then have "unhash_loop e (pn s a) s = Some (upd_pce (last as) (\<lambda>q. q\<lparr>pc_next := pn s e\<rparr>) s)" 
      by (intro Cons.IH) (use Cons.prems N in auto)
    moreover have "unhash_loop e c s = unhash_loop e (pn s a) s" using Cons.prems N by (subst unhash_loop.simps) simp
    moreover have "last (a # as) = last as" using N by simp
    ultimately show ?thesis by (simp only:)
  qed
qed simp

lemma wlist_skip:
  assumes "wlist l h (as @ p # bs)" "distinct (as @ p # bs)" "as \<noteq> []"
  shows "wlist (l(last as := l p)) h (as @ bs)"
proof -
  have "wlist (\<lambda>x. if x = p then 0 else if x = last as then l p else l x) h (as @ bs)" using assms by (rule wlist_unlink) simp
  then show ?thesis by (subst wlist_cong [of "as @ bs" _ "\<lambda>x. if x = p then 0 else if x = last as then l p else l x"]) (use assms(2) in auto)
qed

lemma cache_unhash_ok:
  assumes h: "hashed (as @ e # bs) s T" and d: "distinct (as @ e # bs)"
  obtains s' T' where "cache_unhash e s = Some s'" "hashed (as @ bs) s' T'" "same_data s s'" "live_pces s' = live_pces s" "frames s' = frames s"
    "current_cached_pages s' = current_cached_pages s" "ln s' = ln s" "lp s' = lp s" "lru_head s' = lru_head s" "lru_tail s' = lru_tail s"
proof -
  let ?b = "hkey s e"
  note H = hashedD [OF h]
  have "e \<in> set (T ?b)" using H(3) by simp
  then obtain us vs where uv: "T ?b = us @ e # vs" by (auto simp: in_set_conv_decomp)
  have w: "wlist (pn s) (page_cache s ?b) (us @ e # vs)" and du: "distinct (us @ e # vs)" using H(1,2) [of ?b] uv by simp_all
  let ?T = "T(?b := us @ vs)"
  have S: "set (?T b) = {x \<in> set (as @ bs). hkey s x = b}" for b
  proof (cases "b = ?b")
    case True
    have "set (us @ vs) = set (T ?b) - {e}" using uv du by auto
    then show ?thesis using True H(3) [of ?b] d by auto
  next
    case False
    then show ?thesis using H(3) [of b] by auto
  qed
  have D: "distinct (?T b)" for b using H(2) [of b] du by simp
  have other: "x \<notin> set (T b)" if "x \<in> set (us @ e # vs)" "b \<noteq> ?b" for x b using that H(3) [of b] H(3) [of ?b] uv by auto
  show thesis
  proof (cases "us = []")
    case True
    let ?s = "s\<lparr>page_cache := (page_cache s)(?b := pn s e)\<rparr>"
    have "cache_unhash e s = Some ?s" using w True by (simp add: cache_unhash_def Let_def)
    moreover have "hashed (as @ bs) ?s ?T" unfolding hashed_def using S D H(1) w True by simp
    ultimately show thesis by (rule that) (auto simp: same_data_def)
  next
    case False
    let ?s = "upd_pce (last us) (\<lambda>q. q\<lparr>pc_next := pn s e\<rparr>) s"
    have "page_cache s ?b \<noteq> e" using w False du by (cases us) auto
    then have u: "cache_unhash e s = Some ?s" using unhash_loop_eq [OF w False] du by (simp add: cache_unhash_def Let_def)
    have p: "pn ?s = (pn s)(last us := pn s e)" "page_cache ?s = page_cache s" "\<And>x. hkey ?s x = hkey s x" by (auto simp: fun_eq_iff)
    have "wlist (pn ?s) (page_cache ?s b) (?T b)" for b
    proof (cases "b = ?b")
      case True
      then show ?thesis using wlist_skip [OF w du False] p by simp
    next
      case b: False
      have "last us \<notin> set (T b)" using other [OF _ b, of "last us"] False by simp
      then have "wlist ((pn s)(last us := pn s e)) (page_cache s b) (T b) = wlist (pn s) (page_cache s b) (T b)" by (intro wlist_cong) auto
      then show ?thesis unfolding p using H(1) [of b] b by simp
    qed
    then have "hashed (as @ bs) ?s ?T" unfolding hashed_def p(3) using S D by (intro allI conjI)
    with u show thesis by (rule that) (auto simp: same_data_def pce_core_def fun_eq_iff)
  qed
qed
subsection \<open>The invariant of the cache\<close>

abbreviation fa :: "'f vfs \<Rightarrow> nat \<Rightarrow> u64" where "fa s e \<equiv> phys_addr (pces s e)"
abbreviation ck :: "'f vfs \<Rightarrow> nat \<Rightarrow> nat \<times> u64" where "ck s e \<equiv> (pc_node (pces s e), page_offset (pces s e))"

text \<open>Every entry has a frame of its own; \<open>xs\<close> are the entries, the last used first.\<close>

definition frames_ok :: "nat list \<Rightarrow> 'f vfs \<Rightarrow> bool" where
  "frames_ok xs s \<longleftrightarrow> pmm_inv (frames s) \<and> inj_on (fa s) (set xs) \<and> (\<forall>a. length (pages s a) = 4096) \<and>
     (\<forall>e \<in> set xs. fa s e \<in> frame_addrs (frames s) \<and> ref_of (frames s) (fa s e) = 1)"

definition pc_ok :: "nat list \<Rightarrow> 'f vfs \<Rightarrow> bool" where
  "pc_ok xs s \<longleftrightarrow> lru_list xs s \<and> (\<exists>T. hashed xs s T) \<and> inj_on (ck s) (set xs) \<and> length xs = unat (current_cached_pages s) \<and> length xs \<le> 1024 \<and>
     live_pces s = set xs \<and> (\<forall>U. finite U \<longrightarrow> kmem s U \<notin> U) \<and> frames_ok xs s \<and> (\<forall>e \<in> set xs. 4096 dvd unat (page_offset (pces s e)) \<and> pc_node (pces s e) \<noteq> 0)"

lemma pc_okD:
  assumes "pc_ok xs s"
  shows "lru_list xs s" "\<exists>T. hashed xs s T" "inj_on (ck s) (set xs)" "length xs = unat (current_cached_pages s)" "length xs \<le> 1024" "live_pces s = set xs"
    "finite U \<Longrightarrow> kmem s U \<notin> U" "frames_ok xs s" "e \<in> set xs \<Longrightarrow> 4096 dvd unat (page_offset (pces s e))" "e \<in> set xs \<Longrightarrow> pc_node (pces s e) \<noteq> 0"
    "distinct xs" "0 \<notin> set xs"
  using assms dll_nonzero [of "ln s" "lp s" "lru_head s" xs "lru_tail s"] unfolding pc_ok_def by (auto simp: dll_def)

lemma frames_okD:
  assumes "frames_ok xs s"
  shows "pmm_inv (frames s)" "inj_on (fa s) (set xs)" "e \<in> set xs \<Longrightarrow> fa s e \<in> frame_addrs (frames s)" "e \<in> set xs \<Longrightarrow> ref_of (frames s) (fa s e) = 1"
    "length (pages s a) = 4096" "e \<in> set xs \<Longrightarrow> fa s e \<notin> free_set (frames s)"
proof -
  show p: "pmm_inv (frames s)" "inj_on (fa s) (set xs)" "e \<in> set xs \<Longrightarrow> fa s e \<in> frame_addrs (frames s)" "e \<in> set xs \<Longrightarrow> ref_of (frames s) (fa s e) = 1"
    "length (pages s a) = 4096" using assms unfolding frames_ok_def by auto
  show "e \<in> set xs \<Longrightarrow> fa s e \<notin> free_set (frames s)" using pmm_free_frame_ref(3) [OF p(1,3)] p(4) by simp
qed

lemma pc_ok_find:
  assumes "pc_ok xs s" "e \<in> set xs" "pc_node (pces s e) = n" "page_offset (pces s e) = po" "e' \<in> set xs" "pc_node (pces s e') = n" "page_offset (pces s e') = po"
  shows "e' = e"
  using inj_onD [OF pc_okD(3) [OF assms(1)], of e' e] assms by simp

text \<open>Looking a page up.\<close>

lemma cache_find_eq:
  "wlist (pn s) c ys \<Longrightarrow> cache_find n po c s = Some (case find (\<lambda>e. pc_node (pces s e) = n \<and> page_offset (pces s e) = po) ys of None \<Rightarrow> 0 | Some e \<Rightarrow> e)"
  by (induction ys arbitrary: c) (subst cache_find.simps; simp)+

lemma cache_lookup_ok:
  assumes ok: "pc_ok xs s"
  obtains (hit) e where "cache_lookup n po s = Some e" "e \<in> set xs" "e \<noteq> 0" "pc_node (pces s e) = n" "page_offset (pces s e) = po"
  | (miss) "cache_lookup n po s = Some 0" "\<And>e. e \<in> set xs \<Longrightarrow> \<not> (pc_node (pces s e) = n \<and> page_offset (pces s e) = po)"
proof -
  from pc_okD(2) [OF ok] obtain T where T: "hashed xs s T" by blast
  let ?b = "hash_cache n po"
  let ?P = "\<lambda>e. pc_node (pces s e) = n \<and> page_offset (pces s e) = po"
  have L: "cache_lookup n po s = Some (case find ?P (T ?b) of None \<Rightarrow> 0 | Some e \<Rightarrow> e)"
    unfolding cache_lookup_def by (rule cache_find_eq [OF hashedD(1) [OF T]])
  have S: "set (T ?b) = {e \<in> set xs. hkey s e = ?b}" by (rule hashedD(3) [OF T])
  show thesis
  proof (cases "find ?P (T ?b)")
    case None
    then have "\<not> ?P e" if "e \<in> set xs" for e using that S by (auto simp: find_None_iff)
    then show thesis using None L by (intro miss) auto
  next
    case (Some e)
    then have e: "e \<in> set (T ?b)" "?P e" by (auto simp: find_Some_iff)
    then have "e \<in> set xs" using S by auto
    moreover have "e \<noteq> 0" using \<open>e \<in> set xs\<close> pc_okD(12) [OF ok] by metis
    ultimately show thesis using Some L e by (intro hit) auto
  qed
qed

text \<open>The three ways in which the cache changes: an entry is used, dropped, or added.\<close>

lemma pc_ok_touch:
  assumes ok: "pc_ok (as @ e # bs) s"
  shows "pc_ok (e # as @ bs) (lru_touch e s)" "same_data s (lru_touch e s)" "frames (lru_touch e s) = frames s"
proof -
  note L = lru_touch_ok [OF pc_okD(1) [OF ok]]
  have S: "same_data s (lru_touch e s)" using L(2) by (simp add: same_hash_def)
  note sd = same_dataD [OF S]
  from pc_okD(2) [OF ok] obtain T where "hashed (as @ e # bs) s T" by blast
  then have "hashed (e # as @ bs) (lru_touch e s) T" by (rule hashed_same [OF L(2), rotated]) auto
  then show "pc_ok (e # as @ bs) (lru_touch e s)" using ok L by (auto simp: pc_ok_def frames_ok_def same_hash_def sd)
  show "same_data s (lru_touch e s)" "frames (lru_touch e s) = frames s" using S L(2) by (simp_all add: same_hash_def)
qed

lemma pc_ok_drop:
  assumes ok: "pc_ok (as @ e # bs) s"
  obtains s' where "cache_drop e s = Some s'" "pc_ok (as @ bs) s'" "same_data s s'" "free_set (frames s') = insert (fa s e) (free_set (frames s))"
    "frame_addrs (frames s') = frame_addrs (frames s)" "\<And>b. b \<in> frame_addrs (frames s) \<Longrightarrow> b \<noteq> fa s e \<Longrightarrow> ref_of (frames s') b = ref_of (frames s) b"
proof -
  note D = pc_okD [OF ok]
  from D(2) obtain T where "hashed (as @ e # bs) s T" by blast
  from cache_unhash_ok [OF this D(11)] obtain s1 T1 where U: "cache_unhash e s = Some s1" "hashed (as @ bs) s1 T1" "same_data s s1" "live_pces s1 = live_pces s"
    "frames s1 = frames s" "current_cached_pages s1 = current_cached_pages s" "ln s1 = ln s" "lp s1 = lp s" "lru_head s1 = lru_head s" "lru_tail s1 = lru_tail s" .
  define s2 where "s2 = lru_remove e s1"
  have R: "lru_list (as @ bs) s2" "same_hash s1 s2" using lru_remove_ok [where as = as and e = e and bs = bs and s = s1] lru_remove_links(5) D(1) U(7-10) by (simp_all add: s2_def)
  have S: "same_data s s2" using same_data_trans [OF U(3)] R(2) by (simp add: same_hash_def)
  note sd = same_dataD [OF S]
  define s' where "s' = s2\<lparr>frames := pmm_free_frame (fa s e) (frames s), live_pces := live_pces s - {e}, current_cached_pages := current_cached_pages s - 1\<rparr>"
  have e: "cache_drop e s = Some s'" using U R(2) sd by (simp add: cache_drop_def s'_def s2_def Let_def same_hash_def)
  have S': "same_data s s'" using S by (simp add: s'_def same_data_def)
  note F = frames_okD [OF D(8)]
  have fe: "fa s e \<in> frame_addrs (frames s)" "fa s e \<notin> free_set (frames s)" "0 < ref_of (frames s) (fa s e)" "ref_of (frames s) (fa s e) \<le> 1" using F by simp_all
  note P = pmm_free_frame_inv [OF F(1) fe(1,2)] pmm_free_frame_ref [OF F(1) fe(1,3)] pmm_free_ref_other [OF F(1) fe(1)]
  have ne: "fa s x \<noteq> fa s e" if "x \<in> set (as @ bs)" for x using inj_onD [OF F(2), of x e] that D(11) by auto
  have "frames_ok (as @ bs) s'"
    using P(1,5,7) F(2-5) ne inj_on_subset [OF F(2)] by (simp add: frames_ok_def s'_def sd Ball_def)
  moreover have "hashed (as @ bs) s' T1"
    using hashed_same [OF R(2) refl U(2)] by (simp add: hashed_def s'_def)
  moreover have "unat (current_cached_pages s - 1) = unat (current_cached_pages s) - 1" using D(4) by (intro unat_dec) auto
  moreover have "lru_list (as @ bs) s'" using R(1) by (simp add: s'_def)
  ultimately have "pc_ok (as @ bs) s'" using D(3-7,9,10) D(11) ok unfolding pc_ok_def
    by (auto simp: s'_def sd intro: inj_on_subset)
  then show thesis using that [OF e] S' P(2,5,7) fe(4) by (simp add: s'_def)
qed
lemma pc_ok_add:
  assumes ok: "pc_ok xs s" and len: "length xs < 1024" and e: "e = kmem s (live_pces s)" "e \<noteq> 0" and n: "n \<noteq> 0" "4096 dvd unat po"
    and new: "\<And>x. x \<in> set xs \<Longrightarrow> \<not> (pc_node (pces s x) = n \<and> page_offset (pces s x) = po)"
    and a: "a \<in> frame_addrs (frames s)" "ref_of (frames s) a = 1" "\<And>x. x \<in> set xs \<Longrightarrow> fa s x \<noteq> a"
  obtains s' where "cache_insert n po a s = (e, s')" "pc_ok (e # xs) s'" "pce_core (pces s' e) = (n, po, a, False)" "e \<notin> set xs"
    "\<And>x. x \<noteq> e \<Longrightarrow> pce_core (pces s' x) = pce_core (pces s x)" "frames s' = frames s" "kmem s' = kmem s" "pages s' = pages s" "inodes s' = inodes s" "drv s' = drv s"
proof -
  note D = pc_okD [OF ok]
  have ex: "e \<notin> set xs" using D(7) [of "set xs"] e(1) D(6) by simp
  from D(2) obtain T where T: "hashed xs s T" by blast
  let ?b = "hash_cache n po"
  define s1 where "s1 = s\<lparr>live_pces := insert e (live_pces s),
    pces := (pces s)(e := (pces s e)\<lparr>pc_node := n, page_offset := po, phys_addr := a, dirty := False, pc_next := page_cache s ?b\<rparr>),
    page_cache := (page_cache s)(?b := e)\<rparr>"
  have k: "pce_core (pces s1 e) = (n, po, a, False)" "\<And>x. x \<noteq> e \<Longrightarrow> pces s1 x = pces s x" by (simp_all add: s1_def pce_core_def)
  have ke: "ck s1 e = (n, po)" "fa s1 e = a" using k(1) by (simp_all add: pce_core_def)
  have xk: "pces s1 x = pces s x" if "x \<in> set xs" for x using that ex k(2) by metis
  have "lru_list xs s1" using D(1) dll_cong [of xs "ln s1" "ln s" "lp s1" "lp s"] xk by (simp add: s1_def)
  then have L: "lru_list (e # xs) (lru_add_front e s1)" using ex e(2) by (rule lru_add_ok)
  note A = lru_add_links(5) [OF e(2), of s1]
  have S: "same_data s1 (lru_add_front e s1)" using A by (simp add: same_hash_def)
  note sd = same_dataD [OF S]
  have H: "hashed (e # xs) s1 (T(?b := e # T ?b))"
  proof -
    note HT = hashedD [OF T]
    have st: "set (T b) \<subseteq> set xs" for b using HT(3) by auto
    have "wlist (pn s1) (page_cache s b) (T b)" for b
    proof -
      have "wlist (pn s1) (page_cache s b) (T b) = wlist (pn s) (page_cache s b) (T b)" by (rule wlist_cong) (metis st subsetD xk)
      then show ?thesis using HT(1) by simp
    qed
    moreover have "pn s1 e = page_cache s ?b" "page_cache s1 = (page_cache s)(?b := e)" by (simp_all add: s1_def)
    ultimately have "wlist (pn s1) (page_cache s1 b) ((T(?b := e # T ?b)) b)" for b using e(2) by simp
    moreover have "distinct ((T(?b := e # T ?b)) b)" for b using HT(2) st [of ?b] ex by auto
    moreover have "set ((T(?b := e # T ?b)) b) = {x \<in> set (e # xs). hkey s1 x = b}" for b
    proof -
      have "hkey s1 x = hkey s x" if "x \<in> set xs" for x using xk [OF that] by simp
      moreover have "hkey s1 e = ?b" using ke by simp
      ultimately show ?thesis using HT(3) [of b] by auto
    qed
    ultimately show ?thesis unfolding hashed_def by (intro allI conjI)
  qed
  define s' where "s' = (lru_add_front e s1)\<lparr>current_cached_pages := current_cached_pages s + 1\<rparr>"
  have c1: "current_cached_pages s < 1024" using len D(4) by (simp add: word_less_nat_alt)
  have eq: "cache_insert n po a s = (e, s')"
    using e A by (simp add: cache_insert_def Let_def s'_def same_hash_def s1_def)
  have cu: "unat (current_cached_pages s + 1) = Suc (unat (current_cached_pages s))" using c1 by (rule unat_inc)
  have fr: "frames s' = frames s" "pages s' = pages s" "inodes s' = inodes s" "drv s' = drv s" "kmem s' = kmem s" "live_pces s' = insert e (set xs)"
    using A sd D(6) by (simp_all add: s'_def s1_def same_hash_def)
  have core: "pce_core (pces s' x) = pce_core (pces s1 x)" for x using S by (simp add: s'_def same_data_def)
  have f: "fa s' x = fa s1 x" "ck s' x = ck s1 x" for x using core [of x] by (simp_all add: pce_core_def)
  have "inj_on (ck s') (set (e # xs))"
  proof -
    have "inj_on (ck s1) (set xs)" using D(3) xk by (simp add: inj_on_def)
    moreover have "ck s1 e \<notin> ck s1 ` set xs" 
    proof
      assume "ck s1 e \<in> ck s1 ` set xs"
      then obtain x where x: "x \<in> set xs" "ck s1 x = (n, po)" using ke by auto
      then show False using new [OF x(1)] xk [OF x(1)] by simp
    qed
    ultimately show ?thesis using ex by (simp add: f)
  qed
  moreover have "frames_ok (e # xs) s'"
  proof -
    note F = frames_okD [OF D(8)]
    have "inj_on (fa s1) (set xs)" using F(2) xk by (simp add: inj_on_def)
    moreover have "fa s1 e \<notin> fa s1 ` set xs" 
    proof
      assume "fa s1 e \<in> fa s1 ` set xs"
      then obtain x where x: "x \<in> set xs" "fa s1 x = a" using ke by auto
      then show False using a(3) [OF x(1)] xk [OF x(1)] by simp
    qed
    ultimately have "inj_on (fa s') (set (e # xs))" using ex by (simp add: f)
    moreover have "fa s1 x = fa s x" if "x \<in> set xs" for x using xk [OF that] by simp
    ultimately show ?thesis using F(1,3,4,5) a(1,2) ke by (auto simp: frames_ok_def fr f)
  qed
  moreover have "\<exists>T. hashed (e # xs) s' T" using hashed_same [OF A refl H] by (auto simp: hashed_def s'_def)
  moreover have "lru_list (e # xs) s'" using L by (simp add: s'_def)
  moreover have "4096 dvd unat (page_offset (pces s' x)) \<and> pc_node (pces s' x) \<noteq> 0" if "x \<in> set (e # xs)" for x
    using that f(2) [of x] ke D(9,10) n xk by auto
  moreover have "length (e # xs) = unat (current_cached_pages s')" using cu D(4) by (simp add: s'_def)
  ultimately have "pc_ok (e # xs) s'" unfolding pc_ok_def using len D(7) fr by auto
  moreover have "pce_core (pces s' x) = pce_core (pces s x)" if "x \<noteq> e" for x using core k(2) [OF that] by simp
  ultimately show thesis using that [OF eq] core [of e] k(1) ex fr(1-5) by simp
qed

subsection \<open>The contents of files\<close>

text \<open>
  What the cache relies on: a driver's read stores the asked-for bytes of the file, a driver's write inside of the file changes exactly these
  bytes. \<open>stored f n i\<close> is byte \<open>i\<close> of file \<open>n\<close> on the driver's side, \<open>dinv\<close> the driver's own invariant.
\<close>

definition read_law :: "(nat \<Rightarrow> u64 \<Rightarrow> u64 \<Rightarrow> u8 list \<Rightarrow> 'f \<Rightarrow> u64 \<times> u8 list \<times> 'f) \<Rightarrow> ('f \<Rightarrow> nat \<Rightarrow> nat \<Rightarrow> u8) \<Rightarrow> ('f \<Rightarrow> bool) \<Rightarrow> nat \<Rightarrow> bool" where
  "read_law rd stored dinv n \<longleftrightarrow> (\<forall>off sz buf f. dinv f \<longrightarrow> unat sz \<le> length buf \<longrightarrow>
     (case rd n off sz buf f of (r, buf', f') \<Rightarrow> dinv f' \<and> stored f' = stored f \<and> length buf' = length buf \<and>
       (\<forall>i < length buf. buf' ! i = (if i < unat sz then stored f n (unat off + i) else buf ! i))))"

definition write_law :: "(nat \<Rightarrow> u64 \<Rightarrow> u64 \<Rightarrow> u8 list \<Rightarrow> inode \<Rightarrow> 'f \<Rightarrow> u64 \<times> inode \<times> 'f) \<Rightarrow> ('f \<Rightarrow> nat \<Rightarrow> nat \<Rightarrow> u8) \<Rightarrow> ('f \<Rightarrow> bool) \<Rightarrow> nat \<Rightarrow> bool" where
  "write_law wr stored dinv n \<longleftrightarrow> (\<forall>off sz buf i f. dinv f \<longrightarrow> unat sz \<le> length buf \<longrightarrow> unat off + unat sz \<le> unat (i_size i) \<longrightarrow>
     (case wr n off sz buf i f of (r, i', f') \<Rightarrow> dinv f' \<and> i' = i \<and>
       stored f' = (\<lambda>m j. if m = n \<and> unat off \<le> j \<and> j < unat off + unat sz then buf ! (j - unat off) else stored f m j)))"

definition driver_ok :: "(nat \<Rightarrow> 'f inode_ops) \<Rightarrow> ('f \<Rightarrow> nat \<Rightarrow> nat \<Rightarrow> u8) \<Rightarrow> ('f \<Rightarrow> bool) \<Rightarrow> bool" where
  "driver_ok ops stored dinv \<longleftrightarrow> (\<forall>n. (\<forall>rd. op_read (ops n) = Some rd \<longrightarrow> read_law rd stored dinv n) \<and> (\<forall>wr. op_write (ops n) = Some wr \<longrightarrow> write_law wr stored dinv n))"

text \<open>Byte \<open>i\<close> of file \<open>n\<close>, from the cache or else from the driver.\<close>

definition covers :: "'f vfs \<Rightarrow> nat \<Rightarrow> nat \<Rightarrow> nat \<Rightarrow> bool" where
  "covers s n i e \<longleftrightarrow> pc_node (pces s e) = n \<and> unat (page_offset (pces s e)) = 4096 * (i div 4096)"

definition lbyte :: "('f \<Rightarrow> nat \<Rightarrow> nat \<Rightarrow> u8) \<Rightarrow> nat list \<Rightarrow> 'f vfs \<Rightarrow> nat \<Rightarrow> nat \<Rightarrow> u8" where
  "lbyte stored xs s n i = (case find (covers s n i) xs of None \<Rightarrow> stored (drv s) n i | Some e \<Rightarrow> pages s (fa s e) ! (i mod 4096))"

definition clean_ok :: "('f \<Rightarrow> nat \<Rightarrow> nat \<Rightarrow> u8) \<Rightarrow> 'f vfs \<Rightarrow> nat \<Rightarrow> bool" where
  "clean_ok stored s e \<longleftrightarrow> (\<forall>n i. covers s n i e \<longrightarrow> i < unat (i_size (inodes s n)) \<longrightarrow> pages s (fa s e) ! (i mod 4096) = stored (drv s) n i)"

definition coherent :: "(nat \<Rightarrow> 'f inode_ops) \<Rightarrow> ('f \<Rightarrow> nat \<Rightarrow> nat \<Rightarrow> u8) \<Rightarrow> ('f \<Rightarrow> bool) \<Rightarrow> nat list \<Rightarrow> 'f vfs \<Rightarrow> bool" where
  "coherent ops stored dinv xs s \<longleftrightarrow> pc_ok xs s \<and> dinv (drv s) \<and> (\<forall>n. unat (i_size (inodes s n)) \<le> 2 ^ 63) \<and>
     (\<forall>e \<in> set xs. if dirty (pces s e) then op_write (ops (pc_node (pces s e))) \<noteq> None else clean_ok stored s e)"

abbreviation sized :: "nat list \<Rightarrow> 'f vfs \<Rightarrow> bool" where
  "sized xs s \<equiv> \<forall>e \<in> set xs. page_offset (pces s e) < i_size (inodes s (pc_node (pces s e)))"

lemma covers_unique:
  assumes "pc_ok xs s" "e \<in> set xs" "covers s n i e" "e' \<in> set xs" "covers s n i e'"
  shows "e' = e"
  by (rule pc_ok_find [OF assms(1,2) refl refl assms(4)]) (use assms(3,5) in \<open>auto simp: covers_def word_unat_eq_iff\<close>)

lemma lbyte_in:
  assumes "pc_ok xs s" "e \<in> set xs" "covers s n i e"
  shows "lbyte stored xs s n i = pages s (fa s e) ! (i mod 4096)"
proof -
  obtain e' where e': "find (covers s n i) xs = Some e'" using assms(2,3) by (metis find_None_iff not_Some_eq)
  then have "e' = e" using covers_unique [OF assms, of e'] by (auto simp: find_Some_iff)
  then show ?thesis using e' by (simp add: lbyte_def)
qed

lemma lbyte_out: "(\<And>e. e \<in> set xs \<Longrightarrow> \<not> covers s n i e) \<Longrightarrow> lbyte stored xs s n i = stored (drv s) n i"
  by (simp add: lbyte_def find_None_iff [THEN iffD2])

lemma lbyte_cases:
  assumes "pc_ok xs s"
  obtains e where "e \<in> set xs" "covers s n i e" "lbyte stored xs s n i = pages s (fa s e) ! (i mod 4096)"
  | "\<And>e. e \<in> set xs \<Longrightarrow> \<not> covers s n i e" "lbyte stored xs s n i = stored (drv s) n i"
  using lbyte_in [OF assms] lbyte_out by metis

lemma covers_core: "pce_core (pces s' e) = pce_core (pces s e) \<Longrightarrow> covers s' n i e = covers s n i e \<and> fa s' e = fa s e \<and> dirty (pces s' e) = dirty (pces s e)"
  by (simp add: covers_def pce_core_def)

text \<open>Reordering the entries changes nothing.\<close>

lemma lbyte_same:
  assumes "pc_ok xs s" "pc_ok xs' s'" "set xs' = set xs" "same_data s s'"
  shows "lbyte stored xs' s' n i = lbyte stored xs s n i"
proof -
  note sd = same_dataD [OF assms(4)]
  have c: "covers s' n i e = covers s n i e" for e by (simp add: covers_def sd)
  show ?thesis
    by (rule lbyte_cases [OF assms(1), of n i stored]) (use lbyte_in [OF assms(2)] lbyte_out [of xs' s'] c assms(3) sd in auto)
qed
lemma coherentD:
  assumes "coherent ops stored dinv xs s"
  shows "pc_ok xs s" "dinv (drv s)" "unat (i_size (inodes s n)) \<le> 2 ^ 63" "e \<in> set xs \<Longrightarrow> dirty (pces s e) \<Longrightarrow> \<exists>w. op_write (ops (pc_node (pces s e))) = Some w"
    "e \<in> set xs \<Longrightarrow> \<not> dirty (pces s e) \<Longrightarrow> clean_ok stored s e"
  using assms unfolding coherent_def by fastforce+

subsection \<open>Eviction\<close>

text \<open>The bytes of a page that lie in the file.\<close>

lemma page_bytes:
  fixes po sz :: u64
  assumes "po < sz" "unat sz \<le> 2 ^ 63"
  shows "unat (if po + PAGE_SIZE > sz then sz - po else PAGE_SIZE) = min 4096 (unat sz - unat po)"
proof -
  have "unat po < unat sz" using assms(1) by (simp add: word_less_nat_alt)
  then have "unat (po + 4096) = unat po + 4096" using assms(2) unat_add_no_overflow [of po 4096] by simp
  moreover have "unat (sz - po) = unat sz - unat po" using assms(1) by (intro unat_sub_le) simp
  ultimately show ?thesis by (auto simp: word_less_nat_alt)
qed

lemma covers_iff: "4096 dvd unat (page_offset (pces s e)) \<Longrightarrow> covers s n i e \<longleftrightarrow> pc_node (pces s e) = n \<and> unat (page_offset (pces s e)) \<le> i \<and> i < unat (page_offset (pces s e)) + 4096"
  unfolding covers_def by (auto simp: dvd_def)

lemma covers_mod: "4096 dvd unat (page_offset (pces s e)) \<Longrightarrow> covers s n i e \<Longrightarrow> i mod 4096 = i - unat (page_offset (pces s e))"
  by (auto simp: covers_def minus_mult_div_eq_mod)

lemma flush_ok:
  assumes d: "driver_ok ops stored dinv" and c: "coherent ops stored dinv xs s" and e: "e \<in> set xs" "page_offset (pces s e) < i_size (inodes s (pc_node (pces s e)))"
  shows "\<exists>f. cache_flush ops e s = s\<lparr>drv := f\<rparr> \<and> dinv f \<and>
    (\<forall>n i. i < unat (i_size (inodes s n)) \<longrightarrow> stored f n i = (if covers s n i e then lbyte stored xs s n i else stored (drv s) n i))"
proof -
  note C = coherentD [OF c]
  let ?p = "pces s e"
  let ?n = "pc_node ?p" and ?po = "page_offset ?p"
  let ?sz = "if ?po + PAGE_SIZE > i_size (inodes s ?n) then i_size (inodes s ?n) - ?po else PAGE_SIZE"
  have al: "4096 dvd unat ?po" and n0: "?n \<noteq> 0" using pc_okD(9,10) [OF C(1) e(1)] .
  have len: "length (pages s (fa s e)) = 4096" by (rule frames_okD(5) [OF pc_okD(8) [OF C(1)]])
  show ?thesis
  proof (cases "dirty ?p")
    case False
    have "stored (drv s) n i = lbyte stored xs s n i" if "i < unat (i_size (inodes s n))" "covers s n i e" for n i
      using C(5) [OF e(1) False] lbyte_in [OF C(1) e(1) that(2)] that by (simp add: clean_ok_def)
    moreover have "cache_flush ops e s = s\<lparr>drv := drv s\<rparr>" using False by (simp add: cache_flush_def Let_def)
    ultimately show ?thesis using C(2) by (intro exI [of _ "drv s"]) auto
  next
    case True
    then obtain w where w: "op_write (ops ?n) = Some w" using C(4) [OF e(1)] by blast
    have sz: "unat ?sz = min 4096 (unat (i_size (inodes s ?n)) - unat ?po)" by (rule page_bytes [OF e(2) C(3)])
    have lt: "unat ?po < unat (i_size (inodes s ?n))" using e(2) by (simp add: word_less_nat_alt)
    obtain r i' f where W: "w ?n ?po ?sz (pages s (fa s e)) (inodes s ?n) (drv s) = (r, i', f)" by (metis prod_cases3)
    have "write_law w stored dinv ?n" using d w by (simp add: driver_ok_def)
    note L = this [unfolded write_law_def, rule_format, OF C(2), of ?sz "pages s (fa s e)" ?po "inodes s ?n", unfolded W prod.case]
    have L: "dinv f" "i' = inodes s ?n"
      "stored f = (\<lambda>m j. if m = ?n \<and> unat ?po \<le> j \<and> j < unat ?po + unat ?sz then pages s (fa s e) ! (j - unat ?po) else stored (drv s) m j)"
      using L sz lt len by auto
    have "cache_flush ops e s = s\<lparr>drv := f\<rparr>" using True n0 w W L(2) by (simp add: cache_flush_def Let_def)
    moreover have "stored f n i = (if covers s n i e then lbyte stored xs s n i else stored (drv s) n i)" if i: "i < unat (i_size (inodes s n))" for n i
    proof (cases "covers s n i e")
      case True
      note cv = True [unfolded covers_iff [OF al]]
      have "i < unat ?po + unat ?sz" using cv i sz by auto
      then show ?thesis using True cv lbyte_in [OF C(1) e(1) True] covers_mod [OF al True] L(3) by simp
    next
      case False
      then show ?thesis using L(3) sz unfolding covers_iff [OF al] by auto
    qed
    ultimately show ?thesis using L(1) by blast
  qed
qed

text \<open>What stays when an entry is evicted.\<close>

definition evicted :: "('f \<Rightarrow> nat \<Rightarrow> nat \<Rightarrow> u8) \<Rightarrow> nat list \<Rightarrow> 'f vfs \<Rightarrow> nat list \<Rightarrow> 'f vfs \<Rightarrow> bool" where
  "evicted stored xs s xs' s' \<longleftrightarrow> set xs' \<subseteq> set xs \<and> kmem s' = kmem s \<and> pages s' = pages s \<and> inodes s' = inodes s \<and> (\<forall>e. pce_core (pces s' e) = pce_core (pces s e)) \<and>
     frame_addrs (frames s') = frame_addrs (frames s) \<and> free_set (frames s) \<subseteq> free_set (frames s') \<and>
     free_set (frames s') \<subseteq> free_set (frames s) \<union> fa s ` (set xs - set xs') \<and>
     (\<forall>b \<in> frame_addrs (frames s). b \<notin> fa s ` (set xs - set xs') \<longrightarrow> ref_of (frames s') b = ref_of (frames s) b) \<and>
     (\<forall>n i. i < unat (i_size (inodes s n)) \<longrightarrow> lbyte stored xs' s' n i = lbyte stored xs s n i)"

lemma evictedD:
  assumes "evicted stored xs s xs' s'"
  shows "set xs' \<subseteq> set xs" "kmem s' = kmem s" "pages s' = pages s" "inodes s' = inodes s" "pce_core (pces s' e) = pce_core (pces s e)"
    "frame_addrs (frames s') = frame_addrs (frames s)" "free_set (frames s) \<subseteq> free_set (frames s')" "free_set (frames s') \<subseteq> free_set (frames s) \<union> fa s ` (set xs - set xs')"
    "b \<in> frame_addrs (frames s) \<Longrightarrow> b \<notin> fa s ` (set xs - set xs') \<Longrightarrow> ref_of (frames s') b = ref_of (frames s) b"
    "i < unat (i_size (inodes s n)) \<Longrightarrow> lbyte stored xs' s' n i = lbyte stored xs s n i"
  using assms unfolding evicted_def by auto

lemma evict_ok:
  assumes d: "driver_ok ops stored dinv" and c: "coherent ops stored dinv (as @ e # bs) s" and e: "page_offset (pces s e) < i_size (inodes s (pc_node (pces s e)))"
  obtains s' where "cache_drop e (cache_flush ops e s) = Some s'" "coherent ops stored dinv (as @ bs) s'" "evicted stored (as @ e # bs) s (as @ bs) s'"
    "\<And>n i. i < unat (i_size (inodes s n)) \<Longrightarrow> covers s n i e \<Longrightarrow> stored (drv s') n i = lbyte stored (as @ e # bs) s n i"
proof -
  note C = coherentD [OF c]
  have ein: "e \<in> set (as @ e # bs)" by simp
  from flush_ok [OF d c ein e] obtain f where F: "cache_flush ops e s = s\<lparr>drv := f\<rparr>" "dinv f"
    "\<And>n i. i < unat (i_size (inodes s n)) \<Longrightarrow> stored f n i = (if covers s n i e then lbyte stored (as @ e # bs) s n i else stored (drv s) n i)" by blast
  have "pc_ok (as @ e # bs) (s\<lparr>drv := f\<rparr>)" using C(1) by (simp add: pc_ok_def frames_ok_def hashed_def)
  from pc_ok_drop [OF this] obtain s' where S: "cache_drop e (s\<lparr>drv := f\<rparr>) = Some s'" "pc_ok (as @ bs) s'" "same_data (s\<lparr>drv := f\<rparr>) s'"
    "free_set (frames s') = insert (fa s e) (free_set (frames s))" "frame_addrs (frames s') = frame_addrs (frames s)"
    "\<And>b. b \<in> frame_addrs (frames s) \<Longrightarrow> b \<noteq> fa s e \<Longrightarrow> ref_of (frames s') b = ref_of (frames s) b" by auto
  have core: "pce_core (pces s' x) = pce_core (pces s x)" for x using S(3) by (simp add: same_data_def)
  have sm: "kmem s' = kmem s" "pages s' = pages s" "inodes s' = inodes s" "drv s' = f" using same_dataD(1-4) [OF S(3)] by simp_all
  note cv = covers_core [OF core]
  have de: "distinct (as @ e # bs)" by (rule pc_okD(11) [OF C(1)])
  have lb: "lbyte stored (as @ bs) s' n i = lbyte stored (as @ e # bs) s n i" if i: "i < unat (i_size (inodes s n))" for n i
  proof (rule lbyte_cases [OF S(2), of n i stored])
    fix x assume x: "x \<in> set (as @ bs)" "covers s' n i x" "lbyte stored (as @ bs) s' n i = pages s' (fa s' x) ! (i mod 4096)"
    then show ?thesis using lbyte_in [OF C(1), of x n i] cv sm by auto
  next
    assume x: "\<And>x. x \<in> set (as @ bs) \<Longrightarrow> \<not> covers s' n i x" "lbyte stored (as @ bs) s' n i = stored (drv s') n i"
    show ?thesis
    proof (cases "covers s n i e")
      case True
      then show ?thesis using x(2) F(3) [OF i] sm by simp
    next
      case False
      then have "lbyte stored (as @ e # bs) s n i = stored (drv s) n i" using x(1) cv by (intro lbyte_out) auto
      then show ?thesis using x(2) F(3) [OF i] sm False by simp
    qed
  qed
  have "clean_ok stored s' x" if x: "x \<in> set (as @ bs)" "\<not> dirty (pces s' x)" for x
  proof -
    have cl: "clean_ok stored s x" using C(5) [of x] x cv by auto
    have "\<not> covers s n i e" if "covers s n i x" for n i using covers_unique [OF C(1) _ that ein] x(1) de by auto
    then show ?thesis using cl F(3) cv sm by (auto simp: clean_ok_def)
  qed
  moreover have "op_write (ops (pc_node (pces s' x))) \<noteq> None" if x: "x \<in> set (as @ bs)" "dirty (pces s' x)" for x
    using C(4) [of x] x core [of x] by (auto simp: pce_core_def)
  ultimately have "coherent ops stored dinv (as @ bs) s'" using S(2) F(2) C(3) sm by (simp add: coherent_def)
  moreover have "set (as @ e # bs) - set (as @ bs) = {e}" using de by auto
  then have "evicted stored (as @ e # bs) s (as @ bs) s'" unfolding evicted_def using core sm S(4-6) lb by (auto simp del: insert_Diff_if)
  ultimately show thesis using that S(1) F sm by simp
qed
subsection \<open>The entry of a page\<close>

lemma covers_upd [simp]: "covers (s\<lparr>frames := fr\<rparr>) n i e = covers s n i e" "covers (s\<lparr>pages := pg, drv := f\<rparr>) n i e = covers s n i e"
  by (simp_all add: covers_def)

lemma clean_upd: "clean_ok stored (s\<lparr>frames := fr\<rparr>) e = clean_ok stored s e"
  "fa s e \<noteq> a \<Longrightarrow> stored f = stored (drv s) \<Longrightarrow> clean_ok stored (s\<lparr>pages := (pages s)(a := pg), drv := f\<rparr>) e = clean_ok stored s e"
  by (simp_all add: clean_ok_def)

lemma coherent_frames:
  assumes c: "coherent ops stored dinv xs s" and fr: "pmm_inv fr" "frame_addrs fr = frame_addrs (frames s)" "\<And>e. e \<in> set xs \<Longrightarrow> ref_of fr (fa s e) = ref_of (frames s) (fa s e)"
  shows "coherent ops stored dinv xs (s\<lparr>frames := fr\<rparr>)"
proof -
  have "pc_ok xs (s\<lparr>frames := fr\<rparr>)" using coherentD(1) [OF c] fr by (simp add: pc_ok_def frames_ok_def hashed_def)
  then show ?thesis using c by (simp add: coherent_def clean_upd)
qed

lemma lbyte_frames [simp]: "lbyte stored xs (s\<lparr>frames := fr\<rparr>) n i = lbyte stored xs s n i"
  by (simp add: lbyte_def covers_def [abs_def] split: option.split)

lemma coherent_pages:
  assumes c: "coherent ops stored dinv xs s" and a: "\<And>e. e \<in> set xs \<Longrightarrow> fa s e \<noteq> a" and f: "dinv f" "stored f = stored (drv s)" "length pg = 4096"
  shows "coherent ops stored dinv xs (s\<lparr>pages := (pages s)(a := pg), drv := f\<rparr>)" "lbyte stored xs (s\<lparr>pages := (pages s)(a := pg), drv := f\<rparr>) n i = lbyte stored xs s n i"
proof -
  let ?s = "s\<lparr>pages := (pages s)(a := pg), drv := f\<rparr>"
  note C = coherentD [OF c]
  have p: "pc_ok xs ?s" using C(1) a f(3) by (simp add: pc_ok_def frames_ok_def hashed_def)
  then show "coherent ops stored dinv xs ?s" using c f a by (simp add: coherent_def clean_upd)
  show "lbyte stored xs ?s n i = lbyte stored xs s n i"
    by (rule lbyte_cases [OF C(1), of n i stored]) (use lbyte_in [OF p] lbyte_out [of xs ?s] f(2) a in auto)
qed

lemma last_split: "xs \<noteq> [] \<Longrightarrow> xs = butlast xs @ last xs # []"
  by simp

lemma make_room:
  assumes d: "driver_ok ops stored dinv" and c: "coherent ops stored dinv xs s" and sz: "length xs = 1024 \<Longrightarrow> page_offset (pces s (last xs)) < i_size (inodes s (pc_node (pces s (last xs))))"
  obtains s' ys where "(if current_cached_pages s \<ge> MAX_CACHED_PAGES then cache_evict_one ops s else Some s) = Some s'" "coherent ops stored dinv ys s'" "evicted stored xs s ys s'"
    "length ys < 1024" "ys = xs \<or> length xs = 1024 \<and> ys = butlast xs"
proof (cases "current_cached_pages s \<ge> MAX_CACHED_PAGES")
  note D = pc_okD [OF coherentD(1) [OF c]]
  case True
  then have l: "length xs = 1024" using D(4,5) by (simp add: word_le_nat_alt)
  then have ne: "xs \<noteq> []" by auto
  then obtain ys t where x: "xs = ys @ [t]" by (metis rev_exhaust)
  have t: "lru_tail s = t" "t \<noteq> 0" using D(1,12) x dseg_last [of "ln s" "lp s" "lru_head s" 0 xs "lru_tail s" 0] by (auto simp: dll_def)
  obtain s' where "cache_drop t (cache_flush ops t s) = Some s'" "coherent ops stored dinv ys s'" "evicted stored xs s ys s'"
    by (rule evict_ok [OF d, of ys t "[]" s]) (use c x sz l in auto)
  then show thesis using that [of s' ys] True t x l by (simp add: cache_evict_one_def)
next
  case False
  have "length xs < 1024" using False pc_okD(4) [OF coherentD(1) [OF c]] by (simp add: word_le_nat_alt not_le)
  then show thesis using that [of s xs] False c by (simp add: evicted_def)
qed

abbreviation ent_ok :: "(nat \<Rightarrow> 'f inode_ops) \<Rightarrow> ('f \<Rightarrow> nat \<Rightarrow> nat \<Rightarrow> u8) \<Rightarrow> 'f vfs \<Rightarrow> nat \<Rightarrow> bool" where
  "ent_ok ops stored s e \<equiv> if dirty (pces s e) then op_write (ops (pc_node (pces s e))) \<noteq> None else clean_ok stored s e"

text \<open>What every outcome of \<open>page_entry\<close> keeps, where \<open>e\<close> is the entry it yields and \<open>ys\<close> are the others.\<close>

definition page_got :: "(nat \<Rightarrow> 'f inode_ops) \<Rightarrow> ('f \<Rightarrow> nat \<Rightarrow> nat \<Rightarrow> u8) \<Rightarrow> ('f \<Rightarrow> bool) \<Rightarrow> nat \<Rightarrow> u64 \<Rightarrow> nat list \<Rightarrow> 'f vfs \<Rightarrow> nat \<Rightarrow> nat list \<Rightarrow> 'f vfs \<Rightarrow> bool" where
  "page_got ops stored dinv node po xs s e ys s' \<longleftrightarrow> pc_ok (e # ys) s' \<and> dinv (drv s') \<and> inodes s' = inodes s \<and> kmem s' = kmem s \<and> pc_node (pces s' e) = node \<and> page_offset (pces s' e) = po \<and>
     (\<forall>x \<in> set ys. x \<in> set xs \<and> ent_ok ops stored s' x \<and> pce_core (pces s' x) = pce_core (pces s x) \<and> pages s' (fa s' x) = pages s (fa s x)) \<and> (\<forall>n i. i < unat (i_size (inodes s n)) \<longrightarrow> \<not> covers s' n i e \<longrightarrow> lbyte stored (e # ys) s' n i = lbyte stored xs s n i)"

lemma page_hit:
  assumes c: "coherent ops stored dinv xs s" and e: "e \<in> set xs" "pc_node (pces s e) = node" "page_offset (pces s e) = po"
  obtains ys where "ys = remove1 e xs" "page_got ops stored dinv node po xs s e ys (lru_touch e s)" "coherent ops stored dinv (e # ys) (lru_touch e s)"
    "\<And>n i. lbyte stored (e # ys) (lru_touch e s) n i = lbyte stored xs s n i" "frames (lru_touch e s) = frames s"
proof -
  note C = coherentD [OF c]
  obtain as bs where x: "xs = as @ e # bs" "e \<notin> set as" using e(1) by (metis split_list_first)
  have r: "as @ bs = remove1 e xs" using x by (simp add: remove1_append)
  note T = pc_ok_touch [OF C(1) [unfolded x(1)]]
  note sd = same_dataD [OF T(2)]
  have st: "set (e # as @ bs) = set xs" using x by auto
  have lb: "lbyte stored (e # as @ bs) (lru_touch e s) n i = lbyte stored xs s n i" for n i by (rule lbyte_same [OF C(1) T(1) st T(2)])
  have en: "ent_ok ops stored (lru_touch e s) x" if "x \<in> set xs" for x using c that by (auto simp: coherent_def clean_ok_def covers_def sd)
  have co: "coherent ops stored dinv (e # as @ bs) (lru_touch e s)" unfolding coherent_def st using T(1) c en by (simp add: sd coherent_def)
  have "page_got ops stored dinv node po xs s e (as @ bs) (lru_touch e s)" unfolding page_got_def using T(1) C(2) e x(1) lb en by (simp add: sd Ball_def pce_core_def cong: if_cong)
  then show thesis using that [OF r _ co lb T(3)] by simp
qed

lemma finite_free: "finite (free_set s)"
  by (simp add: free_set_def)

lemma page_miss:
  assumes d: "driver_ok ops stored dinv" and c: "coherent ops stored dinv xs s" and sz: "length xs = 1024 \<Longrightarrow> page_offset (pces s (last xs)) < i_size (inodes s (pc_node (pces s (last xs))))"
    and new: "\<And>x. x \<in> set xs \<Longrightarrow> \<not> (pc_node (pces s x) = node \<and> page_offset (pces s x) = po)" and node: "node \<noteq> 0" "4096 dvd unat po"
    and a: "pmm_alloc_frame (frames s) = (a, fr)" "a \<noteq> 0" and f: "dinv f" "stored f = stored (drv s)" and pg: "length pg = 4096"
    and s2: "s2 = s\<lparr>frames := fr, pages := (pages s)(a := pg), drv := f\<rparr>"
  obtains (full) s3 ys s' where "cache_add ops node po a s2 = Some (0, s3)" "s' = s3\<lparr>frames := pmm_free_frame a (frames s3)\<rparr>" "kmem s (set ys) = 0" "coherent ops stored dinv ys s'"
      "set ys \<subseteq> set xs" "inodes s' = inodes s" "\<And>x. ck s' x = ck s x" "\<And>n i. i < unat (i_size (inodes s n)) \<Longrightarrow> lbyte stored ys s' n i = lbyte stored xs s n i"
  | (fresh) e s' ys where "e \<noteq> 0" "cache_add ops node po a s2 = Some (e, s')" "page_got ops stored dinv node po xs s e ys s'" "ys = xs \<or> length xs = 1024 \<and> ys = butlast xs"
      "\<not> dirty (pces s' e)" "pages s' (fa s' e) = pg" "\<And>i. covers s' node i e \<Longrightarrow> i < unat (i_size (inodes s node)) \<Longrightarrow> lbyte stored xs s node i = stored (drv s') node i"
      "card (free_set (frames s)) \<le> Suc (card (free_set (frames s')))"
proof -
  note C = coherentD [OF c]
  note F = frames_okD [OF pc_okD(8) [OF C(1)]]
  note A = pmm_alloc_takes_free [OF F(1) a] pmm_alloc_taken [OF F(1) a(1)]
  have afr: "a \<in> frame_addrs fr" "ref_of fr a = 1" "pmm_inv fr" using A(1) free_set_frames [OF F(1)] by auto
  have na: "fa s x \<noteq> a" if "x \<in> set xs" for x using F(6) [OF that] A(1) by auto
  define s1 where "s1 = s\<lparr>frames := fr\<rparr>"
  have c1: "coherent ops stored dinv xs s1" unfolding s1_def by (rule coherent_frames [OF c]) (use A F in \<open>auto simp: pmm_taken_def\<close>)
  have s21: "s2 = s1\<lparr>pages := (pages s1)(a := pg), drv := f\<rparr>" by (simp add: s2 s1_def)
  have c2: "coherent ops stored dinv xs s2" and lb2: "\<And>n i. lbyte stored xs s2 n i = lbyte stored xs s n i"
    unfolding s21 using coherent_pages [OF c1, of a f pg] na f pg by (simp_all add: s1_def)
  have s2f: "pces s2 = pces s" "inodes s2 = inodes s" "frames s2 = fr" "kmem s2 = kmem s" "pages s2 a = pg" "drv s2 = f" by (simp_all add: s2)
  obtain s3 ys where R: "(if current_cached_pages s2 \<ge> MAX_CACHED_PAGES then cache_evict_one ops s2 else Some s2) = Some s3" "coherent ops stored dinv ys s3" "evicted stored xs s2 ys s3"
    "length ys < 1024" "ys = xs \<or> length xs = 1024 \<and> ys = butlast xs" by (rule make_room [OF d c2]) (use sz in \<open>simp_all add: s2f\<close>)
  note E = evictedD [OF R(3)]
  have core: "pce_core (pces s3 x) = pce_core (pces s x)" for x using E(5) s2f by simp
  then have k3: "ck s3 x = ck s x" "fa s3 x = fa s x" for x by (simp_all add: pce_core_def)
  have add: "cache_add ops node po a s2 = Some (cache_insert node po a s3)" using R(1) by (simp add: cache_add_def)
  have nb: "a \<notin> fa s2 ` (set xs - set ys)" using na s2f by auto
  have a3: "a \<in> frame_addrs (frames s3)" "ref_of (frames s3) a = 1" "pmm_inv (frames s3)"
    using E(6) E(9) [OF _ nb] afr s2f frames_okD(1) [OF pc_okD(8) [OF coherentD(1) [OF R(2)]]] by simp_all
  have n3: "fa s3 x \<noteq> a" if "x \<in> set ys" for x using na E(1) k3 that by auto
  have new3: "\<not> (pc_node (pces s3 x) = node \<and> page_offset (pces s3 x) = po)" if "x \<in> set ys" for x using new [of x] E(1) k3(1) [of x] that by auto
  have live: "live_pces s3 = set ys" by (rule pc_okD(6) [OF coherentD(1) [OF R(2)]])
  have i3: "inodes s3 = inodes s" using E(4) s2f by simp
  have lb3: "lbyte stored ys s3 n i = lbyte stored xs s n i" if "i < unat (i_size (inodes s n))" for n i using E(10) [of i n] that lb2 s2f by simp
  show thesis
  proof (cases "kmem s3 (live_pces s3) = 0")
    case True
    let ?fr = "pmm_free_frame a (frames s3)"
    have af: "a \<notin> free_set (frames s3)" using pmm_free_frame_ref(3) [OF a3(3,1)] a3(2) by simp
    have e0: "cache_add ops node po a s2 = Some (0, s3)" using add True by (simp add: cache_insert_def)
    have "coherent ops stored dinv ys (s3\<lparr>frames := ?fr\<rparr>)"
    proof (rule coherent_frames [OF R(2)])
      show "pmm_inv ?fr" by (rule pmm_free_frame_inv(1) [OF a3(3,1) af])
      show "frame_addrs ?fr = frame_addrs (frames s3)" using pmm_free_frame_inv(3) [OF a3(3,1) af] by (simp add: frame_addrs_def)
      show "ref_of ?fr (fa s3 x) = ref_of (frames s3) (fa s3 x)" if "x \<in> set ys" for x
        by (rule pmm_free_ref_other [OF a3(3,1)]) (use that n3 frames_okD(3) [OF pc_okD(8) [OF coherentD(1) [OF R(2)]]] in auto)
    qed
    then show thesis using E(1,2) i3 k3 lb3 True live s2f by (intro full [OF e0 refl]) auto
  next
    case False
    define e where "e = kmem s3 (live_pces s3)"
    from pc_ok_add [OF coherentD(1) [OF R(2)] R(4) e_def _ node new3 a3(1,2) n3] False e_def
    obtain s' where N: "cache_insert node po a s3 = (e, s')" "pc_ok (e # ys) s'" "pce_core (pces s' e) = (node, po, a, False)" "e \<notin> set ys"
      "\<And>x. x \<noteq> e \<Longrightarrow> pce_core (pces s' x) = pce_core (pces s3 x)" "frames s' = frames s3" "kmem s' = kmem s3" "pages s' = pages s3" "inodes s' = inodes s3" "drv s' = drv s3" by metis
    have e': "pc_node (pces s' e) = node" "page_offset (pces s' e) = po" "fa s' e = a" "\<not> dirty (pces s' e)" using N(3) by (simp_all add: pce_core_def)
    have xk: "pce_core (pces s' x) = pce_core (pces s3 x)" if "x \<in> set ys" for x using N(4,5) that by metis
    note cv = covers_core [OF xk]
    have lb': "lbyte stored (e # ys) s' n i = lbyte stored ys s3 n i" if "\<not> covers s' n i e" for n i
    proof (rule lbyte_cases [OF N(2), of n i stored])
      fix x assume x: "x \<in> set (e # ys)" "covers s' n i x" "lbyte stored (e # ys) s' n i = pages s' (fa s' x) ! (i mod 4096)"
      then have "x \<in> set ys" using that by auto
      then show ?thesis using x lbyte_in [OF coherentD(1) [OF R(2)], of x n i] cv N(8) by auto
    next
      assume x: "\<And>x. x \<in> set (e # ys) \<Longrightarrow> \<not> covers s' n i x" "lbyte stored (e # ys) s' n i = stored (drv s') n i"
      then have "lbyte stored ys s3 n i = stored (drv s3) n i" using cv by (intro lbyte_out) auto
      then show ?thesis using x(2) N(10) by simp
    qed
    have en: "ent_ok ops stored s' x" if x: "x \<in> set ys" for x
    proof -
      have "ent_ok ops stored s3 x" using R(2) x by (simp add: coherent_def)
      then show ?thesis using xk [OF x] cv [OF x] N(8,9,10) by (auto simp: clean_ok_def pce_core_def)
    qed
    have cks: "pce_core (pces s' x) = pce_core (pces s x) \<and> pages s' (fa s' x) = pages s (fa s x)" if "x \<in> set ys" for x
    proof -
      have c: "pce_core (pces s' x) = pce_core (pces s x)" using xk [OF that] core [of x] by simp
      then have "fa s' x = fa s x" by (simp add: pce_core_def)
      then show ?thesis using c N(8) E(3) na [of x] E(1) that by (auto simp: s2)
    qed
    have "\<forall>x \<in> set ys. x \<in> set xs \<and> ent_ok ops stored s' x \<and> pce_core (pces s' x) = pce_core (pces s x) \<and> pages s' (fa s' x) = pages s (fa s x)" using E(1) en cks by blast
    moreover have "lbyte stored (e # ys) s' n i = lbyte stored xs s n i" if "i < unat (i_size (inodes s n))" "\<not> covers s' n i e" for n i
      using lb' [OF that(2)] lb3 [OF that(1)] by simp
    moreover have "dinv (drv s')" "inodes s' = inodes s" "kmem s' = kmem s" using N(7,9,10) coherentD(2) [OF R(2)] i3 E(2) s2f by simp_all
    ultimately have got: "page_got ops stored dinv node po xs s e ys s'" unfolding page_got_def
      using N(2) e'(1,2) by (intro conjI allI impI)
    have st: "lbyte stored xs s node i = stored (drv s') node i" if i: "covers s' node i e" "i < unat (i_size (inodes s node))" for i
    proof -
      have "lbyte stored ys s3 node i = stored (drv s3) node i"
      proof (rule lbyte_out)
        fix x assume x: "x \<in> set ys"
        show "\<not> covers s3 node i x" using new3 [OF x] i(1) e' by (auto simp: covers_def word_unat_eq_iff)
      qed
      then show ?thesis using lb3 [OF i(2)] N(10) by simp
    qed
    have "card (free_set (frames s) - {a}) \<le> card (free_set (frames s'))"
      using A(1) E(7) s2f N(6) by (intro card_mono) (auto simp: finite_free)
    then have "card (free_set (frames s)) \<le> Suc (card (free_set (frames s')))" using A(1) finite_free [of "frames s"] by (simp add: card_Diff_singleton)
    then show thesis using fresh [of e s' ys] add N(1,8) got R(5) e'(3,4) st E(3) s2f False e_def by simp
  qed
qed

text \<open>The entry of a page, from the cache or with a frame that \<open>fill\<close> has prepared; \<open>Q\<close> is what is known of the contents it gives.\<close>

definition fills :: "(u64 \<Rightarrow> 'f vfs \<Rightarrow> 'f vfs) \<Rightarrow> ('f \<Rightarrow> nat \<Rightarrow> nat \<Rightarrow> u8) \<Rightarrow> ('f \<Rightarrow> bool) \<Rightarrow> (u8 list \<Rightarrow> bool) \<Rightarrow> 'f vfs \<Rightarrow> bool" where
  "fills fill stored dinv Q s \<longleftrightarrow> (\<forall>a fr. \<exists>pg f. fill a (s\<lparr>frames := fr\<rparr>) = s\<lparr>frames := fr, pages := (pages s)(a := pg), drv := f\<rparr> \<and> dinv f \<and> stored f = stored (drv s) \<and>
     length pg = 4096 \<and> Q pg)"

lemma page_entry_cases:
  assumes d: "driver_ok ops stored dinv" and c: "coherent ops stored dinv xs s" and sz: "length xs = 1024 \<Longrightarrow> page_offset (pces s (last xs)) < i_size (inodes s (pc_node (pces s (last xs))))"
    and node: "node \<noteq> 0" "4096 dvd unat po" and fill: "fills fill stored dinv Q s"
  obtains (oom) s' ys where "page_entry ops fill node po s = Some (0, s')" "free_set (frames s) = {} \<or> (\<exists>U. finite U \<and> kmem s U = 0)" "coherent ops stored dinv ys s'"
      "set ys \<subseteq> set xs" "inodes s' = inodes s" "\<And>x. ck s' x = ck s x" "\<And>n i. i < unat (i_size (inodes s n)) \<Longrightarrow> lbyte stored ys s' n i = lbyte stored xs s n i"
  | (hit) e s' ys where "e \<noteq> 0" "page_entry ops fill node po s = Some (e, s')" "ys = remove1 e xs" "page_got ops stored dinv node po xs s e ys s'"
      "coherent ops stored dinv (e # ys) s'" "\<And>n i. lbyte stored (e # ys) s' n i = lbyte stored xs s n i" "frames s' = frames s" "ck s e = (node, po)" "e \<in> set xs"
  | (miss) e s' ys where "e \<noteq> 0" "page_entry ops fill node po s = Some (e, s')" "ys = xs \<or> length xs = 1024 \<and> ys = butlast xs" "page_got ops stored dinv node po xs s e ys s'"
      "\<not> dirty (pces s' e)" "Q (pages s' (fa s' e))" "\<And>i. covers s' node i e \<Longrightarrow> i < unat (i_size (inodes s node)) \<Longrightarrow> lbyte stored xs s node i = stored (drv s') node i"
      "\<And>i. covers s' node i e \<Longrightarrow> lbyte stored xs s node i = stored (drv s) node i" "card (free_set (frames s)) \<le> Suc (card (free_set (frames s')))"
      "\<And>x. x \<in> set xs \<Longrightarrow> \<not> (pc_node (pces s x) = node \<and> page_offset (pces s x) = po)"
proof -
  note C = coherentD [OF c]
  note F = frames_okD [OF pc_okD(8) [OF C(1)]]
  show thesis
  proof (rule cache_lookup_ok [OF C(1), of node po])
    fix e assume e: "cache_lookup node po s = Some e" "e \<in> set xs" "e \<noteq> 0" "pc_node (pces s e) = node" "page_offset (pces s e) = po"
    then have "page_entry ops fill node po s = Some (e, lru_touch e s)" by (simp add: page_entry_def)
    with page_hit [OF c e(2,4,5)] e(2-5) show thesis by (metis hit)
  next
    assume m: "cache_lookup node po s = Some 0" "\<And>e. e \<in> set xs \<Longrightarrow> \<not> (pc_node (pces s e) = node \<and> page_offset (pces s e) = po)"
    obtain a fr where a: "pmm_alloc_frame (frames s) = (a, fr)" by fastforce
    show thesis
    proof (cases "a = 0")
      case True
      have z: "free_set (frames s) = {} \<and> fr = frames s" using pmm_alloc_zero [OF F(1)] a True by simp
      then have "page_entry ops fill node po s = Some (0, s)" using m(1) a True by (simp add: page_entry_def)
      then show thesis using z c by (intro oom [of s xs]) auto
    next
      case False
      from fill [unfolded fills_def] obtain pg f where f: "fill a (s\<lparr>frames := fr\<rparr>) = s\<lparr>frames := fr, pages := (pages s)(a := pg), drv := f\<rparr>" "dinv f" "stored f = stored (drv s)"
        "length pg = 4096" "Q pg" by blast
      have pe: "page_entry ops fill node po s = (case cache_add ops node po a (s\<lparr>frames := fr, pages := (pages s)(a := pg), drv := f\<rparr>) of
          None \<Rightarrow> None | Some (e, s) \<Rightarrow> if e = 0 then Some (0, s\<lparr>frames := pmm_free_frame a (frames s)\<rparr>) else Some (e, s))"
        using m(1) a False f(1) by (simp add: page_entry_def)
      show thesis
      proof (rule page_miss [OF d c sz m(2) node a False f(2-4) refl])
        fix s3 ys s' assume "cache_add ops node po a (s\<lparr>frames := fr, pages := (pages s)(a := pg), drv := f\<rparr>) = Some (0, s3)" "s' = s3\<lparr>frames := pmm_free_frame a (frames s3)\<rparr>"
          "kmem s (set ys) = 0" "coherent ops stored dinv ys s'" "set ys \<subseteq> set xs" "inodes s' = inodes s" "\<And>x. ck s' x = ck s x"
          "\<And>n i. i < unat (i_size (inodes s n)) \<Longrightarrow> lbyte stored ys s' n i = lbyte stored xs s n i"
        then show thesis using pe by (intro oom [of s' ys]) (auto intro: exI [of _ "set ys"])
      next
        fix e s' ys assume n: "e \<noteq> 0" "cache_add ops node po a (s\<lparr>frames := fr, pages := (pages s)(a := pg), drv := f\<rparr>) = Some (e, s')" "page_got ops stored dinv node po xs s e ys s'"
          "ys = xs \<or> length xs = 1024 \<and> ys = butlast xs" "\<not> dirty (pces s' e)" "pages s' (fa s' e) = pg" "\<And>i. covers s' node i e \<Longrightarrow> i < unat (i_size (inodes s node)) \<Longrightarrow> lbyte stored xs s node i = stored (drv s') node i"
          "card (free_set (frames s)) \<le> Suc (card (free_set (frames s')))"
        have "lbyte stored xs s node i = stored (drv s) node i" if i: "covers s' node i e" for i
        proof (rule lbyte_out)
          fix x assume "x \<in> set xs"
          from m(2) [OF this] show "\<not> covers s node i x" using i n(3) by (auto simp: covers_def page_got_def word_unat_eq_iff)
        qed
        then show thesis using n pe f(5) m(2) by (intro miss [of e s' ys]) simp_all
      qed (use sz in auto)
    qed
  qed
qed

subsection \<open>Reading\<close>

lemma page_words:
  fixes c :: u64
  shows "unat (c AND NOT PAGE_MASK) = 4096 * (unat c div 4096)" "unat (c AND PAGE_MASK) = unat c mod 4096" "unat (PAGE_SIZE - (c AND PAGE_MASK)) = 4096 - unat c mod 4096"
proof -
  have m: "(PAGE_MASK :: u64) = mask 12" by (simp add: mask_eq_exp_minus_1)
  show r: "unat (c AND PAGE_MASK) = unat c mod 4096" unfolding m by (simp only: take_bit_eq_mask [symmetric] unsigned_take_bit_eq) (simp add: take_bit_eq_mod)
  then show "unat (PAGE_SIZE - (c AND PAGE_MASK)) = 4096 - unat c mod 4096" by (subst unat_sub_le) (simp_all add: word_le_nat_alt)
  have "push_bit 12 (drop_bit 12 c) = c AND NOT PAGE_MASK" unfolding m by (rule bit_word_eqI) (auto simp: bit_simps)
  then have "c AND NOT PAGE_MASK = drop_bit 12 c * 4096" by (simp add: push_bit_eq_mult)
  moreover have "unat (drop_bit 12 c) = unat c div 4096" by (simp add: unat_drop_bit)
  moreover have "unat c div 4096 * 4096 < 2 ^ 64" using unat_lt2p [of c] by (simp add: le_less_trans [OF div_times_less_eq_dividend])
  ultimately show "unat (c AND NOT PAGE_MASK) = 4096 * (unat c div 4096)" by (simp add: unat_word_ariths)
qed




lemma same_page:
  fixes c j :: nat
  assumes "j < 4096 - c mod 4096"
  shows "(c + j) div 4096 = c div 4096" "(c + j) mod 4096 = c mod 4096 + j"
proof -
  have j: "j < 4096" "c mod 4096 + j < 4096" using assms by simp_all
  show "(c + j) div 4096 = c div 4096" using j by (simp add: div_add1_eq [of c j])
  show "(c + j) mod 4096 = c mod 4096 + j" using j by (simp add: mod_add_left_eq [of c 4096 j, symmetric])
qed



subsection \<open>Writing\<close>




text \<open>Storing bytes into the frame of an entry that is then dirty.\<close>

lemma store_page:
  assumes ok: "pc_ok (e # ys) s" and dv: "dinv (drv s)" and isz: "\<And>n. unat (i_size (inodes s n)) \<le> 2 ^ 63" and en: "\<forall>x \<in> set ys. ent_ok ops stored s x"
    and w: "op_write (ops (pc_node (pces s e))) \<noteq> None" and pg: "length pg = 4096"
  defines "s' \<equiv> upd_pce e (\<lambda>q. q\<lparr>dirty := True\<rparr>) (s\<lparr>pages := (pages s)(fa s e := pg)\<rparr>)"
  shows "coherent ops stored dinv (e # ys) s'" "\<And>n i. covers s' n i = covers s n i" "pages s' (fa s' e) = pg" "\<And>x. fa s' x = fa s x" "\<And>x. x \<in> set ys \<Longrightarrow> pages s' (fa s x) = pages s (fa s x)"
    "\<And>n i. \<not> covers s n i e \<Longrightarrow> lbyte stored (e # ys) s' n i = lbyte stored (e # ys) s n i" "dirty (pces s' x) = (x = e \<or> dirty (pces s x))" "inodes s' = inodes s" "kmem s' = kmem s"
    "frames s' = frames s" "ck s' x = ck s x"
proof -
  note D = pc_okD [OF ok]
  have p: "pces s' x = (pces s x)\<lparr>dirty := x = e \<or> dirty (pces s x)\<rparr>" for x by (simp add: s'_def)
  have f: "fa s' x = fa s x" "ck s' x = ck s x" "pn s' x = pn s x" "ln s' x = ln s x" "lp s' x = lp s x" for x by (simp_all add: p)
  show cv: "covers s' n i = covers s n i" for n i by (simp add: covers_def [abs_def] p)
  show "fa s' x = fa s x" "ck s' x = ck s x" for x by (rule f)+
  show pe: "pages s' (fa s' e) = pg" by (simp add: f(1), simp add: s'_def)
  have ne: "fa s x \<noteq> fa s e" if "x \<in> set ys" for x using inj_onD [OF frames_okD(2) [OF D(8)], of x e] that D(11) by auto
  show px: "pages s' (fa s x) = pages s (fa s x)" if "x \<in> set ys" for x using ne [OF that] by (simp add: s'_def)
  show "dirty (pces s' x) = (x = e \<or> dirty (pces s x))" by (simp add: p)
  show sm: "inodes s' = inodes s" "kmem s' = kmem s" "frames s' = frames s" by (simp_all add: s'_def)
  have dr: "drv s' = drv s" by (simp add: s'_def)
  have H: "hashed (e # ys) s' T = hashed (e # ys) s T" for T by (simp add: hashed_def p) (simp add: s'_def)
  have "frames_ok (e # ys) s'" using D(8) pg unfolding frames_ok_def f sm by (simp add: s'_def)
  moreover have "lru_list (e # ys) s'" using D(1) unfolding f by (simp add: s'_def)
  ultimately have ok': "pc_ok (e # ys) s'" using ok unfolding pc_ok_def H by (simp add: p) (simp add: s'_def)
  have "ent_ok ops stored s' x" if "x \<in> set (e # ys)" for x
  proof (cases "x = e")
    case True
    then show ?thesis using w by (simp add: p)
  next
    case False
    then have x: "x \<in> set ys" using that by simp
    have "clean_ok stored s' x = clean_ok stored s x" unfolding clean_ok_def cv f px [OF x] sm by (simp add: s'_def)
    then show ?thesis using en x False by (simp add: p)
  qed
  then show "coherent ops stored dinv (e # ys) s'" unfolding coherent_def using ok' dv isz sm dr by (intro conjI ballI allI) simp_all
  show "lbyte stored (e # ys) s' n i = lbyte stored (e # ys) s n i" if n: "\<not> covers s n i e" for n i
  proof (rule lbyte_cases [OF ok, of n i stored])
    fix x assume x: "x \<in> set (e # ys)" "covers s n i x" "lbyte stored (e # ys) s n i = pages s (fa s x) ! (i mod 4096)"
    then have "x \<in> set ys" using n by auto
    then show ?thesis using x lbyte_in [OF ok' x(1), of n i] cv px f by simp
  next
    assume "\<And>x. x \<in> set (e # ys) \<Longrightarrow> \<not> covers s n i x" "lbyte stored (e # ys) s n i = stored (drv s) n i"
    then show ?thesis using lbyte_out [of "e # ys" s' n i stored] cv by (simp add: s'_def)
  qed
qed



text \<open>
  After \<open>bw\<close> bytes and \<open>k\<close> passes of the write: the bytes written so far are in dirty entries among the first \<open>k\<close>, every other byte is that of \<open>L0\<close>, and only
  entries of this write may lie past the end of the file.
\<close>

definition write_inv :: "('f \<Rightarrow> nat \<Rightarrow> nat \<Rightarrow> u8) \<Rightarrow> (nat \<Rightarrow> nat \<Rightarrow> u8) \<Rightarrow> nat \<Rightarrow> nat \<Rightarrow> nat \<Rightarrow> u8 list \<Rightarrow> nat \<Rightarrow> nat list \<Rightarrow> 'f vfs \<Rightarrow> bool" where
  "write_inv stored L0 node offset bw buf k xs s \<longleftrightarrow>
     (\<forall>n i. i < unat (i_size (inodes s n)) \<longrightarrow> \<not> (n = node \<and> offset \<le> i \<and> i < offset + bw) \<longrightarrow> lbyte stored xs s n i = L0 n i) \<and>
     (\<forall>i. offset \<le> i \<longrightarrow> i < offset + bw \<longrightarrow> (\<exists>x \<in> set (take k xs). covers s node i x \<and> dirty (pces s x) \<and> pages s (fa s x) ! (i mod 4096) = buf ! (i - offset))) \<and>
     sized (drop k xs) s \<and> (\<forall>x \<in> set xs. page_offset (pces s x) < i_size (inodes s (pc_node (pces s x))) \<or> pc_node (pces s x) = node \<and> unat (page_offset (pces s x)) < offset + bw)"

lemma write_invD:
  assumes "write_inv stored L0 node offset bw buf k xs s"
  shows "i < unat (i_size (inodes s n)) \<Longrightarrow> \<not> (n = node \<and> offset \<le> i \<and> i < offset + bw) \<Longrightarrow> lbyte stored xs s n i = L0 n i"
    "offset \<le> i \<Longrightarrow> i < offset + bw \<Longrightarrow> \<exists>x \<in> set (take k xs). covers s node i x \<and> dirty (pces s x) \<and> pages s (fa s x) ! (i mod 4096) = buf ! (i - offset)"
    "sized (drop k xs) s" "x \<in> set xs \<Longrightarrow> page_offset (pces s x) < i_size (inodes s (pc_node (pces s x))) \<or> pc_node (pces s x) = node \<and> unat (page_offset (pces s x)) < offset + bw"
  using assms unfolding write_inv_def by blast+




subsection \<open>What reading and writing promise\<close>


text \<open>Setting the new size after a write: the bytes past the old end are in dirty pages.\<close>

lemma grow_ok:
  assumes c: "coherent ops stored dinv xs s" and I: "write_inv stored L0 node offset bw buf k xs s" and o: "offset \<le> unat (i_size (inodes s node))"
    and sz: "unat sz = offset + bw" "unat sz \<le> 2 ^ 63" "i_size (inodes s node) < sz"
  defines "s' \<equiv> s\<lparr>inodes := (inodes s)(node := (inodes s node)\<lparr>i_size := sz\<rparr>)\<rparr>"
  shows "coherent ops stored dinv xs s'" "sized xs s'" "\<And>n i. lbyte stored xs s' n i = lbyte stored xs s n i"
proof -
  note C = coherentD [OF c] and D = write_invD [OF I]
  have cv: "covers s' n i = covers s n i" for n i by (simp add: covers_def [abs_def] s'_def)
  have p: "pc_ok xs s'" using C(1) by (simp add: pc_ok_def frames_ok_def hashed_def s'_def)
  have "clean_ok stored s' x" if x: "x \<in> set xs" "\<not> dirty (pces s x)" for x
    unfolding clean_ok_def
  proof (intro allI impI)
    fix n i assume i: "covers s' n i x" "i < unat (i_size (inodes s' n))"
    have "i < unat (i_size (inodes s n))"
    proof (rule ccontr)
      assume big: "\<not> i < unat (i_size (inodes s n))"
      then have "n = node" "offset \<le> i" "i < offset + bw" using i(2) o sz(1) by (auto simp: s'_def split: if_splits)
      then obtain y where y: "y \<in> set (take k xs)" "covers s n i y" "dirty (pces s y)" using D(2) [of i] by auto
      have "y = x" by (rule covers_unique [OF C(1) x(1) i(1) [unfolded cv] in_set_takeD [OF y(1)] y(2)])
      then show False using x(2) y(3) by simp
    qed
    then show "pages s' (fa s' x) ! (i mod 4096) = stored (drv s') n i" using C(5) [OF x] i(1) unfolding cv by (simp add: clean_ok_def s'_def)
  qed
  moreover have "unat (i_size (inodes s' n)) \<le> 2 ^ 63" for n using C(3) [of n] sz(2) by (simp add: s'_def)
  ultimately show "coherent ops stored dinv xs s'" using p c unfolding coherent_def by (simp add: s'_def)
  show "sized xs s'"
  proof
    fix x assume "x \<in> set xs"
    from D(4) [OF this] have "page_offset (pces s x) < i_size (inodes s (pc_node (pces s x))) \<or> pc_node (pces s x) = node \<and> page_offset (pces s x) < sz" using sz(1) by (simp add: word_less_nat_alt)
    then show "page_offset (pces s' x) < i_size (inodes s' (pc_node (pces s' x)))" using sz(3) by (auto simp: s'_def)
  qed
  show "lbyte stored xs s' n i = lbyte stored xs s n i" for n i unfolding lbyte_def cv by (simp add: s'_def split: option.split)
qed


subsection \<open>Closing a file\<close>





subsection \<open>Appending to a file that is not cached\<close>

text \<open>
  A write that starts at the end of a file reads nothing, even when the page it starts in holds the last bytes of the file. With the page not in the cache, the write stores a page of zeros in
  front of the new bytes: the end of the file is lost.
\<close>

theorem vfs_append_loses:
  assumes d: "driver_ok ops stored dinv" "op_write (ops node) = Some w" and c: "coherent ops stored dinv xs s" "sized xs s"
    and node: "node \<noteq> 0" "is_reg (i_mode (inodes s node))" and perm: "vfs_check_permission (Some (inodes s node)) 2 k = 0"
    and off: "offset = i_size (inodes s node)" and unc: "\<forall>x \<in> set xs. \<not> covers s node (unat offset) x"
    and b: "0 < unat sz" "unat sz \<le> 4096 - unat offset mod 4096" "unat sz \<le> length buf" "unat offset + 8192 \<le> 2 ^ 63"
    and res: "\<forall>U. finite U \<longrightarrow> kmem s U \<noteq> 0" "free_set (frames s) \<noteq> {}"
  shows "\<exists>xs' s'. vfs_write ops k node offset sz buf s = Some (sz, s') \<and> coherent ops stored dinv xs' s' \<and>
    (\<forall>i < unat offset. i div 4096 = unat offset div 4096 \<longrightarrow> lbyte stored xs' s' node i = 0)"
proof -
  let ?po = "offset AND NOT PAGE_MASK" and ?oi = "offset AND PAGE_MASK"
  note PW = page_words [of offset]
  have last: "length xs = 1024 \<Longrightarrow> page_offset (pces s (last xs)) < i_size (inodes s (pc_node (pces s (last xs))))" using c(2) by (cases xs rule: rev_cases) auto
  have al: "4096 dvd unat ?po" using PW(1) by simp
  have sz0: "(0 :: u64) < sz" using b(1) by (simp add: word_less_nat_alt)
  have big: "unat offset + unat sz + 4096 \<le> 2 ^ 64" using b(2,4) by simp
  define n where "n = (if 0 + (PAGE_SIZE - ?oi) > sz then sz - 0 else PAGE_SIZE - ?oi)"
  have "unat n = unat sz" using PW(3) b(2) by (auto simp: n_def word_less_nat_alt not_less)
  then have n: "n = sz" by (simp add: word_unat_eq_iff)
  have fill: "fills (write_fill ops node offset ?po n) stored dinv (\<lambda>pg. pg = replicate 4096 0) s" unfolding fills_def
    using off coherentD(2) [OF c(1)] by (intro allI exI [of _ "replicate 4096 0"] exI [of _ "drv s"]) (simp add: write_fill_def)
  let ?data = "take (unat n) (drop 0 buf)"
  have step: "write_pages ops node offset sz 0 buf s = (case page_entry ops (write_fill ops node offset ?po n) node ?po s of None \<Rightarrow> None
      | Some (e, s) \<Rightarrow> if e = 0 then Some (0, s)
          else write_pages ops node offset sz (0 + n) buf (upd_pce e (\<lambda>q. q\<lparr>dirty := True\<rparr>) (s\<lparr>pages := (pages s)(fa s e := splice (unat ?oi) ?data (pages s (fa s e)))\<rparr>)))"
    by (subst write_pages.simps) (simp only: Let_def sz0 not_True_eq_False if_False n_def add_0_right unat_0)
  show ?thesis
  proof (rule page_entry_cases [OF d(1) c(1) last node(1) al fill])
    fix s' ys assume "free_set (frames s) = {} \<or> (\<exists>U. finite U \<and> kmem s U = 0)"
    then show ?thesis using res by blast
  next
    fix e s' ys assume "ck s e = (node, ?po)" "e \<in> set xs"
    then show ?thesis using unc PW(1) by (auto simp: covers_def)
  next
    fix e s1 ys
    assume h: "e \<noteq> 0" "page_entry ops (write_fill ops node offset ?po n) node ?po s = Some (e, s1)" "page_got ops stored dinv node ?po xs s e ys s1" "pages s1 (fa s1 e) = replicate 4096 0"
    have G: "pc_ok (e # ys) s1" "dinv (drv s1)" "inodes s1 = inodes s" "pc_node (pces s1 e) = node" "page_offset (pces s1 e) = ?po" "\<forall>x \<in> set ys. ent_ok ops stored s1 x"
      "\<And>x. x \<in> set ys \<Longrightarrow> x \<in> set xs \<and> pce_core (pces s1 x) = pce_core (pces s x)" using h(3) unfolding page_got_def by blast+
    let ?pg = "splice (unat ?oi) ?data (pages s1 (fa s1 e))"
    have dl: "length ?data = unat sz" using b(3) n by simp
    have fit: "unat ?oi + length ?data \<le> length (pages s1 (fa s1 e))" unfolding h(4) dl PW(2) length_replicate using b(2) mod_le_divisor [of 4096 "unat offset"] by linarith
    have lpg: "length ?pg = 4096" using fit h(4) by simp
    define s2 where "s2 = upd_pce e (\<lambda>q. q\<lparr>dirty := True\<rparr>) (s1\<lparr>pages := (pages s1)(fa s1 e := ?pg)\<rparr>)"
    have "op_write (ops (pc_node (pces s1 e))) \<noteq> None" "\<And>n. unat (i_size (inodes s1 n)) \<le> 2 ^ 63" using d(2) G(3,4) coherentD(3) [OF c(1)] by simp_all
    note S = store_page [where dinv = dinv and ops = ops and stored = stored, OF G(1,2) this(2) G(6) this(1) lpg, folded s2_def]
    have w: "write_pages ops node offset sz 0 buf s = Some (sz, s2)"
      unfolding step h(2) option.case prod.case s2_def [symmetric] using h(1) n by (simp add: write_pages.simps [of ops node offset sz sz])
    have ck2: "ck s2 e = (node, ?po)" "\<And>x. x \<in> set ys \<Longrightarrow> ck s2 x = ck s x" using S(11) G(4,5,7) by (auto simp: pce_core_def)
    have pgb: "?pg ! j = (if unat offset mod 4096 \<le> j \<and> j < unat offset mod 4096 + unat sz then buf ! (j - unat offset mod 4096) else 0)" if "j < 4096" for j
      using nth_splice [OF fit, of j] that h(4) PW(2) dl n by auto
    have I: "write_inv stored (lbyte stored (e # ys) s2) node (unat offset) (unat sz) buf (Suc 0) (e # ys) s2" unfolding write_inv_def
    proof (intro conjI allI impI)
      show "\<exists>x \<in> set (take (Suc 0) (e # ys)). covers s2 node i x \<and> dirty (pces s2 x) \<and> pages s2 (fa s2 x) ! (i mod 4096) = buf ! (i - unat offset)"
        if i: "unat offset \<le> i" "i < unat offset + unat sz" for i
      proof -
        obtain j where j: "i = unat offset + j" "j < unat sz" using i by (auto simp: le_iff_add)
        have "j < 4096 - unat offset mod 4096" using j(2) b(2) by linarith
        note sp = same_page [OF this, folded j(1)]
        have "pages s2 (fa s2 e) ! (i mod 4096) = buf ! (i - unat offset)" using S(3) pgb [of "i mod 4096", unfolded sp(2)] j sp(2) by simp
        moreover have "covers s2 node i e" using ck2(1) sp(1) PW(1) by (simp add: covers_def)
        ultimately show ?thesis using S(7) [of e] by simp
      qed
      have sz_ys: "page_offset (pces s2 x) < i_size (inodes s2 (pc_node (pces s2 x)))" if "x \<in> set ys" for x using ck2(2) [OF that] G(7) [OF that] c(2) S(8) G(3) by simp
      then show "sized (drop (Suc 0) (e # ys)) s2" by simp
      have "unat ?po < unat offset + unat sz" using PW(1) b(1) by (simp add: le_less_trans [OF times_div_less_eq_dividend])
      then show "\<forall>x \<in> set (e # ys). page_offset (pces s2 x) < i_size (inodes s2 (pc_node (pces s2 x))) \<or> pc_node (pces s2 x) = node \<and> unat (page_offset (pces s2 x)) < unat offset + unat sz"
        using sz_ys ck2(1) by simp
    qed simp
    have os: "unat (offset + sz) = unat offset + unat sz" by (rule unat_add_no_overflow) (use big in simp)
    have i2: "inodes s2 = inodes s" using S(8) G(3) by simp
    have g: "unat offset \<le> unat (i_size (inodes s2 node))" "unat (offset + sz) \<le> 2 ^ 63" "i_size (inodes s2 node) < offset + sz" using os b off i2 by (simp_all add: word_less_nat_alt)
    note W = grow_ok [OF S(1) I g(1) os g(2,3)]
    let ?s3 = "s2\<lparr>inodes := (inodes s2)(node := (inodes s2 node)\<lparr>i_size := offset + sz\<rparr>)\<rparr>"
    have "vfs_write ops k node offset sz buf s = Some (sz, ?s3)" using perm node d(2) w g(3) by (simp add: vfs_write_def)
    moreover have "lbyte stored (e # ys) ?s3 node i = 0" if i: "i < unat offset" "i div 4096 = unat offset div 4096" for i
    proof -
      have "covers s2 node i e" using ck2(1) i(2) PW(1) by (simp add: covers_def)
      then have "lbyte stored (e # ys) s2 node i = ?pg ! (i mod 4096)" using lbyte_in [OF coherentD(1) [OF S(1)], of e node i stored] S(3) by simp
      moreover have "i mod 4096 < unat offset mod 4096" using i mult_div_mod_eq [of 4096 i] mult_div_mod_eq [of 4096 "unat offset"] by linarith
      ultimately show ?thesis using W(3) pgb [of "i mod 4096"] by simp
    qed
    ultimately show ?thesis using W(1) by blast
  qed
qed

subsection \<open>A small system\<close>










end
